(* ===== verification/Prelude.thy ===== *)
theory Prelude
  imports Main "HOL-Library.Word" "HOL-Library.Char_ord" "HOL-Library.List_Lexorder"
    "HOL-Library.Product_Lexorder"
begin

text \<open>
  What every component shares: Go's integers, time and strings as the components use
  them, and the generic lemmas on lists and maps their proofs rest on.

  \<^item> \<open>time.Time\<close> is an \<open>int\<close>, nanoseconds since the Unix epoch; the zero time is
    1 January of year 1. \<open>t.Sub\<close> saturates at the bounds of the 64-bit \<open>Duration\<close>,
    which is what makes a difference against the zero time finite. One clock: the
    monotonic reading \<open>time.Now\<close> also carries is not modelled, nor is the wrap of the
    64-bit seconds counter inside \<open>time.Time\<close> (about 292 billion years away).
  \<^item> \<open>int64\<close> arithmetic on unix seconds wraps, written \<open>wrap64\<close>; \<open>uint64\<close> is \<open>u64\<close>.
  \<^item> Go strings are byte strings, Isabelle's \<open>string\<close>.
  \<^item> \<open>fmt.Sprintf\<close> for human-readable text is kept symbolic: the format and its
    arguments, as a \<open>detail\<close>. Where the code uses a rendered string as a name or a key
    it is rendered here too (\<open>show_int\<close>).
\<close>

named_theorems go_defs \<open>unfolding of the constants of Go's library the model uses\<close>

section \<open>Integers\<close>

type_synonym u64 = "64 word"

definition wrap64 :: "int \<Rightarrow> int" where
  "wrap64 x = (x + 2 ^ 63) mod 2 ^ 64 - 2 ^ 63"

lemma wrap64_id: "- (2 ^ 63) \<le> x \<Longrightarrow> x < 2 ^ 63 \<Longrightarrow> wrap64 x = x"
  by (simp add: wrap64_def mod_pos_pos_trivial)

lemma wrap64_range: "- (2 ^ 63) \<le> wrap64 x \<and> wrap64 x < 2 ^ 63"
proof -
  have "0 \<le> (x + 2 ^ 63) mod 2 ^ 64" "(x + 2 ^ 63) mod 2 ^ 64 < (2::int) ^ 64"
    by (rule pos_mod_sign, simp) (rule pos_mod_bound, simp)
  then show ?thesis by (simp add: wrap64_def)
qed

text \<open>Go's integer division and remainder truncate towards zero.\<close>

definition go_div :: "int \<Rightarrow> int \<Rightarrow> int" where
  "go_div a b = sgn a * sgn b * (\<bar>a\<bar> div \<bar>b\<bar>)"

definition go_rem :: "int \<Rightarrow> int \<Rightarrow> int" where
  "go_rem a b = a - b * go_div a b"

lemma go_div_nonneg: "0 \<le> a \<Longrightarrow> 0 < b \<Longrightarrow> go_div a b = a div b"
  by (cases "a = 0") (simp_all add: go_div_def)

lemma go_rem_nonneg: "0 \<le> a \<Longrightarrow> 0 < b \<Longrightarrow> go_rem a b = a mod b"
  by (simp add: go_rem_def go_div_nonneg minus_mult_div_eq_mod)

lemma le_div_iff_mult: "0 < s \<Longrightarrow> k \<le> x div s \<longleftrightarrow> k * s \<le> x" for s k x :: int
proof
  assume "0 < s" "k \<le> x div s"
  then have "k * s \<le> (x div s) * s" by (simp add: mult_right_mono)
  also have "\<dots> \<le> x" using \<open>0 < s\<close> by (simp add: minus_mod_eq_div_mult [symmetric])
  finally show "k * s \<le> x" .
next
  assume "0 < s" "k * s \<le> x"
  then have "(k * s) div s \<le> x div s" by (intro zdiv_mono1)
  with \<open>0 < s\<close> show "k \<le> x div s" by simp
qed

text \<open>The middle of two 64-bit numbers, and a successor below another number.\<close>

lemma not_max: "lo < hi \<Longrightarrow> lo \<noteq> - 1" for lo hi :: u64
  using max_word_max [of hi] by auto

lemma mid_unat:
  fixes lo hi :: u64
  assumes "lo < hi"
  shows "unat (lo + (hi - lo) div 2) = unat lo + (unat hi - unat lo) div 2"
proof -
  have d: "unat (hi - lo) = unat hi - unat lo" using assms by (simp add: unat_sub less_imp_le)
  have l: "unat lo < unat hi" using assms by (simp add: word_less_nat_alt)
  have h: "unat hi < 2 ^ 64" using unsigned_less [of hi, where ?'a = nat] by simp
  have q: "unat ((hi - lo) div 2) = (unat hi - unat lo) div 2" by (simp add: unat_div d)
  have "unat lo + (unat hi - unat lo) div 2 < 2 ^ 64" using l h by linarith
  then show ?thesis by (subst unat_add_lem [THEN iffD1]) (simp_all add: q)
qed

lemma unat_inc:
  fixes lo :: u64
  assumes "lo \<noteq> - 1"
  shows "unat (lo + 1) = unat lo + 1"
proof -
  have "1 + lo \<noteq> 0" using assms by (metis add.commute add_eq_0_iff)
  then have "unat (1 + lo) = Suc (unat lo)" by (rule unatSuc)
  then show ?thesis by (simp add: add.commute)
qed

lemma mid_bounds:
  fixes lo hi :: u64
  assumes "lo < hi"
  shows "lo \<le> lo + (hi - lo) div 2" "lo + (hi - lo) div 2 < hi"
proof -
  have "unat lo < unat hi" using assms by (simp add: word_less_nat_alt)
  then show "lo \<le> lo + (hi - lo) div 2" "lo + (hi - lo) div 2 < hi"
    by (auto simp: word_le_nat_alt word_less_nat_alt mid_unat [OF assms])
qed

lemma sint_small:
  fixes w :: u64
  assumes "unat w < 2 ^ 63"
  shows "sint w = int (unat w)"
proof -
  have u: "uint w < 2 ^ 63" using assms by (metis of_nat_less_iff of_nat_numeral of_nat_power uint_nat)
  have "sint w = (uint w + 2 ^ 63) mod 2 ^ 64 - 2 ^ 63"
    by (simp add: sint_uint signed_take_bit_eq_take_bit_shift take_bit_eq_mod)
  also have "\<dots> = uint w"
    using u uint_ge_0 [of w] by (subst mod_pos_pos_trivial) simp_all
  finally show ?thesis by (simp only: uint_nat)
qed

section \<open>Time\<close>

type_synonym gotime = int
type_synonym duration = int

definition second :: duration where
  [go_defs]: "second = 1000000000"

definition minute :: duration where
  [go_defs]: "minute = 60000000000"

definition zero_time :: gotime where
  [go_defs]: "zero_time = - 62135596800000000000"

definition is_zero :: "gotime \<Rightarrow> bool" where
  [go_defs]: "is_zero t \<longleftrightarrow> t = zero_time"

definition max_duration :: duration where
  [go_defs]: "max_duration = 2 ^ 63 - 1"

definition min_duration :: duration where
  [go_defs]: "min_duration = - (2 ^ 63)"

text \<open>\<open>t.Sub(u)\<close>, \<open>t.Unix()\<close> and \<open>time.Unix(s, 0)\<close>.\<close>

definition tsub :: "gotime \<Rightarrow> gotime \<Rightarrow> duration" where
  "tsub t u = max min_duration (min max_duration (t - u))"

definition unix_of :: "gotime \<Rightarrow> int" where
  "unix_of t = t div second"

definition tunix :: "int \<Rightarrow> gotime" where
  "tunix s = s * second"

lemma unix_of_tunix [simp]: "unix_of (tunix s) = s"
  by (simp add: unix_of_def tunix_def second_def)

lemma tunix_mono [simp]: "tunix a \<le> tunix b \<longleftrightarrow> a \<le> b" "tunix a < tunix b \<longleftrightarrow> a < b"
  by (simp_all add: tunix_def second_def)

lemma tunix_eq [simp]: "tunix a = tunix b \<longleftrightarrow> a = b"
  by (simp add: tunix_def second_def)

text \<open>A comparison of a saturated difference with a bound inside the range of
  \<open>Duration\<close> is the comparison of the exact one.\<close>

lemma tsub_le: "d < max_duration \<Longrightarrow> min_duration \<le> d \<Longrightarrow> tsub t u \<le> d \<longleftrightarrow> t - u \<le> d"
  by (auto simp: tsub_def max_duration_def min_duration_def)

lemma tsub_less: "d \<le> max_duration \<Longrightarrow> min_duration < d \<Longrightarrow> tsub t u < d \<longleftrightarrow> t - u < d"
  by (auto simp: tsub_def max_duration_def min_duration_def)

lemma tsub_self [simp]: "tsub t t = 0"
  by (simp add: tsub_def max_duration_def min_duration_def)

lemma tsub_exact: "min_duration \<le> t - u \<Longrightarrow> t - u \<le> max_duration \<Longrightarrow> tsub t u = t - u"
  by (simp add: tsub_def)

lemmas tsub_bounds = tsub_le tsub_less

section \<open>Text\<close>

text \<open>Decimal rendering, as \<open>%d\<close> and \<open>strconv.Itoa\<close> print it.\<close>

definition digit_char :: "nat \<Rightarrow> char" where
  "digit_char d = char_of (48 + d)"

fun show_nat :: "nat \<Rightarrow> string" where
  "show_nat n = (if n < 10 then [digit_char n] else show_nat (n div 10) @ [digit_char (n mod 10)])"

declare show_nat.simps [simp del]

definition show_int :: "int \<Rightarrow> string" where
  "show_int i = (if i < 0 then CHR ''-'' # show_nat (nat (- i)) else show_nat (nat i))"

definition digit_of :: "char \<Rightarrow> nat option" where
  "digit_of c = (let k = of_char c :: nat in if 48 \<le> k \<and> k \<le> 57 then Some (k - 48) else None)"

fun read_digits :: "nat \<Rightarrow> string \<Rightarrow> nat option" where
  "read_digits acc [] = Some acc"
| "read_digits acc (c # cs) =
     (case digit_of c of None \<Rightarrow> None | Some d \<Rightarrow> read_digits (10 * acc + d) cs)"

text \<open>\<open>strconv.Atoi\<close>: an optional sign, at least one digit, the value in the range of
  \<open>int\<close> (64 bits); anything else is an error.\<close>

definition atoi_digits :: "string \<Rightarrow> nat option" where
  "atoi_digits s = (if s = [] then None else read_digits 0 s)"

definition atoi :: "string \<Rightarrow> int option" where
  "atoi s =
     (case s of
        [] \<Rightarrow> None
      | c # cs \<Rightarrow>
          (let v = (if c = CHR ''-'' then map_option (\<lambda>n. - int n) (atoi_digits cs)
                    else if c = CHR ''+'' then map_option int (atoi_digits cs)
                    else map_option int (atoi_digits s))
           in case v of None \<Rightarrow> None
              | Some i \<Rightarrow> if - (2 ^ 63) \<le> i \<and> i < 2 ^ 63 then Some i else None))"

lemma digit_of_digit_char: "d < 10 \<Longrightarrow> digit_of (digit_char d) = Some d"
  by (simp add: digit_of_def digit_char_def)

lemma read_digits_append:
  "read_digits acc (xs @ ys) =
     (case read_digits acc xs of None \<Rightarrow> None | Some k \<Rightarrow> read_digits k ys)"
  by (induction acc xs rule: read_digits.induct) (auto split: option.splits)

lemma read_digits_show_nat: "read_digits 0 (show_nat n) = Some n"
proof (induction n rule: show_nat.induct)
  case (1 n)
  show ?case
  proof (cases "n < 10")
    case True
    then show ?thesis by (subst show_nat.simps) (simp add: digit_of_digit_char)
  next
    case False
    with 1 have "read_digits 0 (show_nat (n div 10)) = Some (n div 10)" by simp
    with False show ?thesis
      by (subst show_nat.simps) (simp add: read_digits_append digit_of_digit_char)
  qed
qed

lemma show_nat_nonempty [simp]: "show_nat n \<noteq> []"
  by (subst show_nat.simps) simp

lemma show_nat_inj: "show_nat m = show_nat n \<longleftrightarrow> m = n"
  by (metis option.inject read_digits_show_nat)

lemma hd_show_nat_digit: "digit_of (hd (show_nat n)) \<noteq> None"
proof (induction n rule: show_nat.induct)
  case (1 n)
  then show ?case
    by (subst show_nat.simps) (auto simp: digit_of_digit_char)
qed

lemma hd_show_nat: "hd (show_nat n) \<noteq> CHR ''-''" "hd (show_nat n) \<noteq> CHR ''+''"
proof -
  have "digit_of (CHR ''-'') = None" "digit_of (CHR ''+'') = None"
    by (simp_all add: digit_of_def)
  then show "hd (show_nat n) \<noteq> CHR ''-''" "hd (show_nat n) \<noteq> CHR ''+''"
    using hd_show_nat_digit [of n] by metis+
qed

lemma show_nat_no_sign: "CHR ''-'' # s \<noteq> show_nat n"
  by (metis hd_show_nat(1) list.sel(1))

lemma show_int_inj: "show_int i = show_int j \<longleftrightarrow> i = j"
  using show_nat_no_sign by (auto simp: show_int_def show_nat_inj) metis+

lemma atoi_show_int:
  assumes r: "- (2 ^ 63) \<le> i" "i < 2 ^ 63"
  shows "atoi (show_int i) = Some i"
proof (cases "i < 0")
  case True
  with r show ?thesis
    by (simp add: show_int_def atoi_def atoi_digits_def read_digits_show_nat)
next
  case False
  obtain c cs where s: "show_nat (nat i) = c # cs"
    by (cases "show_nat (nat i)") auto
  with hd_show_nat [of "nat i"] have c: "c \<noteq> CHR ''-''" "c \<noteq> CHR ''+''" by auto
  have "read_digits 0 (c # cs) = Some (nat i)"
    using read_digits_show_nat [of "nat i"] by (simp only: s)
  with False r s c show ?thesis
    by (simp add: show_int_def atoi_def atoi_digits_def del: read_digits.simps)
qed

text \<open>Symbolic \<open>Sprintf\<close>: the format and its arguments.\<close>

datatype darg = DS string | DI int | DL "string list" | DD detail
     and detail = Fmt string "darg list"

definition no_detail :: detail where
  "no_detail = Fmt '''' []"

definition lit :: "string \<Rightarrow> detail" where
  "lit s = Fmt s []"

section \<open>Lists\<close>

text \<open>A running minimum or maximum, as the code's loops compare and assign.\<close>

lemma Min_running:
  fixes k :: "'a::linorder"
  assumes "finite S"
  shows "Min (insert k (insert h S)) = Min (insert (if h < k then h else k) S)"
proof -
  have "(if h < k then h else k) = min k h" by (auto simp: min_def)
  then show ?thesis using assms by (cases "S = {}") (simp_all add: min.assoc)
qed

lemma Max_running:
  fixes k :: "'a::linorder"
  assumes "finite S"
  shows "Max (insert k (insert h S)) = Max (insert (if k < h then h else k) S)"
proof -
  have "(if k < h then h else k) = max k h" by (auto simp: max_def)
  then show ?thesis using assms by (cases "S = {}") (simp_all add: max.assoc)
qed

lemma sorted_wrt_upto: "sorted_wrt (<) [a..b::int]"
  by (simp add: sorted_wrt_iff_nth_less)

lemma list_all2_mem:
  "list_all2 P xs ys \<Longrightarrow> y \<in> set ys \<Longrightarrow> \<exists>x \<in> set xs. P x y"
  by (metis in_set_conv_nth list_all2_conv_all_nth)

lemma map_filter_Nil: "List.map_filter f xs = [] \<longleftrightarrow> (\<forall>x \<in> set xs. f x = None)"
  by (auto simp: List.map_filter_def filter_empty_conv)

lemma map_filter_mem: "y \<in> set (List.map_filter f xs) \<longleftrightarrow> (\<exists>x \<in> set xs. f x = Some y)"
  by (force simp: List.map_filter_def)

text \<open>In a list sorted by a key, the smaller key comes first.\<close>

lemma sorted_key_before:
  fixes f :: "'a \<Rightarrow> 'b::linorder"
  assumes "sorted (map f xs)" "a \<in> set xs" "b \<in> set xs" "f a < f b"
  shows "\<exists>as bs cs. xs = as @ a # bs @ b # cs"
proof -
  from assms(2) obtain as rest where xs: "xs = as @ a # rest" by (meson split_list)
  have "b \<notin> set as"
    using assms(1,4) xs by (force simp: sorted_append)
  with assms(3,4) xs have "b \<in> set rest" by auto
  then obtain bs cs where "rest = bs @ b # cs" by (meson split_list)
  with xs show ?thesis by blast
qed


end
