(* ===== verification/Float64.thy ===== *)
theory Float64
  imports Complex_Main Prelude
begin

text \<open>
  Go's \<open>float64\<close> as far as the schedule's stake arithmetic uses it: addition,
  subtraction, multiplication, division, comparison and the conversion from \<open>int\<close>, with
  the rounding of IEEE binary64 (to nearest, ties to even) written out over exact
  rationals, infinities and NaN. The two zeros are one value: no division by a float that
  can be \<open>-0\<close> occurs in the program.
\<close>

datatype f64 = NaN | Inf bool | Fin rat

section \<open>Rounding\<close>

definition pow2 :: "int \<Rightarrow> rat" where
  "pow2 e = (if 0 \<le> e then 2 ^ nat e else 1 / 2 ^ nat (- e))"

text \<open>The number of bits of a non-negative integer, and the exponent of a positive
  rational: the largest \<open>e\<close> with \<open>2 ^ e \<le> x\<close>.\<close>

function blen :: "int \<Rightarrow> int" where
  "blen n = (if n \<le> 0 then 0 else 1 + blen (n div 2))"
  by pat_completeness auto
termination
  by (relation "measure nat") auto

declare blen.simps [simp del]

lemma blen_numeral [simp]:
  "blen 0 = 0" "blen 1 = 1"
  "blen (numeral (Num.Bit0 n)) = 1 + blen (numeral n)"
  "blen (numeral (Num.Bit1 n)) = 1 + blen (numeral n)"
  by (subst blen.simps, simp add: blen.simps [of 0])+

definition ilog2 :: "rat \<Rightarrow> int" where
  "ilog2 x = (if 1 \<le> x then blen \<lfloor>x\<rfloor> - 1 else - blen (\<lceil>1 / x\<rceil> - 1))"

definition round_half_even :: "rat \<Rightarrow> int" where
  "round_half_even x =
     (let f = \<lfloor>x\<rfloor>; r = x - of_int f
      in if r < 1 / 2 then f else if 1 / 2 < r then f + 1 else if even f then f else f + 1)"

text \<open>The spacing of the representable numbers around \<open>x\<close>: 53 bits, down to the
  subnormals.\<close>

definition ulp_exp :: "rat \<Rightarrow> int" where
  "ulp_exp x = max (- 1074) (ilog2 \<bar>x\<bar> - 52)"

definition fl :: "rat \<Rightarrow> f64" where
  "fl x =
     (if x = 0 then Fin 0
      else let q = ulp_exp x; y = of_int (round_half_even (x / pow2 q)) * pow2 q
           in if \<bar>y\<bar> < pow2 1024 then Fin y else Inf (0 < x))"

section \<open>Operations\<close>

fun fadd :: "f64 \<Rightarrow> f64 \<Rightarrow> f64" where
  "fadd (Fin x) (Fin y) = fl (x + y)"
| "fadd (Inf s) (Inf t) = (if s = t then Inf s else NaN)"
| "fadd (Inf s) (Fin _) = Inf s"
| "fadd (Fin _) (Inf s) = Inf s"
| "fadd _ _ = NaN"

fun fneg :: "f64 \<Rightarrow> f64" where
  "fneg (Fin x) = Fin (- x)"
| "fneg (Inf s) = Inf (\<not> s)"
| "fneg NaN = NaN"

definition fsub :: "f64 \<Rightarrow> f64 \<Rightarrow> f64" where
  "fsub x y = fadd x (fneg y)"

fun fmul :: "f64 \<Rightarrow> f64 \<Rightarrow> f64" where
  "fmul (Fin x) (Fin y) = fl (x * y)"
| "fmul (Inf s) (Inf t) = Inf (s = t)"
| "fmul (Inf s) (Fin y) = (if y = 0 then NaN else Inf (s = (0 < y)))"
| "fmul (Fin x) (Inf s) = (if x = 0 then NaN else Inf (s = (0 < x)))"
| "fmul _ _ = NaN"

fun fdiv :: "f64 \<Rightarrow> f64 \<Rightarrow> f64" where
  "fdiv (Fin x) (Fin y) = (if y = 0 then (if x = 0 then NaN else Inf (0 < x)) else fl (x / y))"
| "fdiv (Inf s) (Fin y) = Inf (s = (0 \<le> y))"
| "fdiv (Fin _) (Inf _) = Fin 0"
| "fdiv _ _ = NaN"

text \<open>Every comparison with NaN is false.\<close>

fun fless :: "f64 \<Rightarrow> f64 \<Rightarrow> bool" where
  "fless (Fin x) (Fin y) = (x < y)"
| "fless (Fin _) (Inf s) = s"
| "fless (Inf s) (Fin _) = (\<not> s)"
| "fless (Inf s) (Inf t) = (\<not> s \<and> t)"
| "fless _ _ = False"

fun fleq :: "f64 \<Rightarrow> f64 \<Rightarrow> bool" where
  "fleq (Fin x) (Fin y) = (x \<le> y)"
| "fleq (Fin _) (Inf s) = s"
| "fleq (Inf s) (Fin _) = (\<not> s)"
| "fleq (Inf s) (Inf t) = (s \<longrightarrow> t)"
| "fleq _ _ = False"

definition fof_int :: "int \<Rightarrow> f64" where
  "fof_int i = fl (of_int i)"

text \<open>\<open>int(f)\<close> truncates towards zero; the code applies it to values in range only.\<close>

fun ftrunc :: "f64 \<Rightarrow> int" where
  "ftrunc (Fin x) = (if 0 \<le> x then \<lfloor>x\<rfloor> else \<lceil>x\<rceil>)"
| "ftrunc _ = - (2 ^ 63)"

text \<open>\<open>Duration.Seconds()\<close>: whole seconds plus the rest, both converted first.\<close>

definition fseconds :: "duration \<Rightarrow> f64" where
  "fseconds d = fadd (fof_int (go_div d second)) (fdiv (fof_int (go_rem d second)) (fof_int second))"

lemma fless_NaN [simp]: "fless NaN x = False" "fless x NaN = False"
  by (cases x; simp)+

lemma fleq_NaN [simp]: "fleq NaN x = False" "fleq x NaN = False"
  by (cases x; simp)+

lemma farith_NaN [simp]:
  "fadd NaN x = NaN" "fadd x NaN = NaN" "fmul NaN x = NaN" "fmul x NaN = NaN"
  "fdiv NaN x = NaN" "fdiv x NaN = NaN" "fsub NaN x = NaN" "fsub x NaN = NaN"
  by (cases x; simp add: fsub_def)+

section \<open>Evaluation on numerals\<close>

lemma floor_fraction_rat [simp]:
  "\<lfloor>numeral a / numeral b :: rat\<rfloor> = numeral a div numeral b"
  "\<lfloor>- (numeral a / numeral b) :: rat\<rfloor> = (- numeral a) div numeral b"
  "\<lfloor>1 / numeral b :: rat\<rfloor> = 1 div numeral b"
  "\<lfloor>- (1 / numeral b) :: rat\<rfloor> = (- 1) div numeral b"
  using floor_divide_of_int_eq [where ?'a = rat, of "numeral a" "numeral b"]
    floor_divide_of_int_eq [where ?'a = rat, of "- numeral a" "numeral b"]
    floor_divide_of_int_eq [where ?'a = rat, of 1 "numeral b"]
    floor_divide_of_int_eq [where ?'a = rat, of "- 1" "numeral b"]
  by simp_all

lemma ceiling_fraction_rat [simp]:
  "\<lceil>numeral a / numeral b :: rat\<rceil> = - ((- numeral a) div numeral b)"
  "\<lceil>1 / numeral b :: rat\<rceil> = - ((- 1) div numeral b)"
  by (simp_all add: ceiling_def)

lemmas float_eval =
  fl_def ulp_exp_def ilog2_def pow2_def round_half_even_def Let_def fsub_def fof_int_def

section \<open>Rounding error\<close>

lemma pow2_pos [simp]: "0 < pow2 e"
  by (simp add: pow2_def)

lemma pow2_add: "pow2 (a + b) = pow2 a * pow2 b"
proof -
  have "pow2 e = (2::rat) powi e" for e
    by (simp add: pow2_def power_int_def field_simps)
  then show ?thesis by (simp add: power_int_add)
qed

lemma round_half_even_error: "\<bar>of_int (round_half_even x) - x\<bar> \<le> 1 / 2"
proof -
  define f where "f = \<lfloor>x\<rfloor>"
  have "of_int f \<le> x" "x < of_int f + 1"
    unfolding f_def by linarith+
  then show ?thesis
    unfolding round_half_even_def Let_def f_def [symmetric] by (auto simp: abs_if)
qed

lemma round_half_even_of_int [simp]: "round_half_even (of_int k) = k"
  by (simp add: round_half_even_def)

lemma fl_error:
  assumes "fl x = Fin y"
  shows "\<bar>y - x\<bar> \<le> pow2 (ulp_exp x) / 2"
proof (cases "x = 0")
  case True
  with assms show ?thesis by (simp add: fl_def less_imp_le)
next
  case False
  define q where "q = ulp_exp x"
  define k where "k = round_half_even (x / pow2 q)"
  from assms False have y: "y = of_int k * pow2 q"
    by (auto simp: fl_def Let_def q_def k_def split: if_splits)
  have "\<bar>of_int k - x / pow2 q\<bar> \<le> 1 / 2"
    unfolding k_def by (rule round_half_even_error)
  then have "\<bar>of_int k - x / pow2 q\<bar> * pow2 q \<le> 1 / 2 * pow2 q"
    by (rule mult_right_mono) (simp add: less_imp_le)
  moreover have "\<bar>of_int k - x / pow2 q\<bar> * pow2 q = \<bar>(of_int k - x / pow2 q) * pow2 q\<bar>"
    by (simp add: abs_mult abs_of_pos)
  moreover have "(of_int k - x / pow2 q) * pow2 q = y - x"
    using less_imp_neq [OF pow2_pos [of q]] by (simp add: y field_simps)
  ultimately have "\<bar>y - x\<bar> \<le> 1 / 2 * pow2 q" by (simp only:)
  then show ?thesis by (simp add: q_def)
qed

section \<open>Exact cases\<close>

lemma blen_nonneg: "0 \<le> blen n"
proof (induction n rule: blen.induct)
  case (1 n)
  then show ?case by (cases "n \<le> 0") (simp_all add: blen.simps [of n])
qed

lemma blen_pos: "0 < n \<Longrightarrow> 1 \<le> blen n"
  using blen_nonneg [of "n div 2"] by (simp add: blen.simps [of n])

lemma blen_le: "n < 2 ^ m \<Longrightarrow> blen n \<le> int m"
proof (induction m arbitrary: n)
  case 0
  then show ?case by (simp add: blen.simps [of n])
next
  case (Suc m)
  show ?case
  proof (cases "n \<le> 0")
    case True
    then show ?thesis by (simp add: blen.simps [of n])
  next
    case False
    from Suc.prems have "n div 2 < 2 ^ m" by simp
    then have "blen (n div 2) \<le> int m" by (rule Suc.IH)
    with False show ?thesis by (simp add: blen.simps [of n])
  qed
qed

lemma ilog2_le:
  assumes "0 < x" "x < 2 ^ m"
  shows "ilog2 x \<le> int m - 1"
proof (cases "1 \<le> x")
  case True
  from assms(2) have "\<lfloor>x\<rfloor> < 2 ^ m"
    by (simp add: floor_less_iff)
  with True show ?thesis using blen_le [of "\<lfloor>x\<rfloor>" m] by (simp add: ilog2_def)
next
  case False
  with assms have "1 < 1 / x" by simp
  then have "0 < \<lceil>1 / x\<rceil> - 1" by (simp add: less_ceiling_iff)
  then have "1 \<le> blen (\<lceil>1 / x\<rceil> - 1)" by (rule blen_pos)
  with False show ?thesis by (simp add: ilog2_def)
qed

text \<open>The rounding error below 2 is at most half of \<open>2 ^ -52\<close>.\<close>

definition half_ulp :: rat where
  "half_ulp = 1 / 2 ^ 53"

lemma pow2_mono: "a \<le> b \<Longrightarrow> pow2 a \<le> pow2 b"
proof -
  assume "a \<le> b"
  then have b: "b = a + int (nat (b - a))" by simp
  have "pow2 (int k) \<ge> 1" for k by (simp add: pow2_def)
  then have "pow2 a * 1 \<le> pow2 a * pow2 (int (nat (b - a)))"
    by (rule mult_left_mono) (simp add: less_imp_le)
  then show ?thesis by (subst b) (simp add: pow2_add)
qed

lemma fl_error_below_2:
  assumes "fl x = Fin y" "\<bar>x\<bar> < 2"
  shows "\<bar>y - x\<bar> \<le> half_ulp"
proof (cases "x = 0")
  case True
  with assms show ?thesis by (simp add: fl_def half_ulp_def)
next
  case False
  with assms(2) have "ilog2 \<bar>x\<bar> \<le> 0" using ilog2_le [of "\<bar>x\<bar>" 1] by simp
  then have "ulp_exp x \<le> - 52" by (simp add: ulp_exp_def)
  then have "pow2 (ulp_exp x) \<le> pow2 (- 52)" by (rule pow2_mono)
  moreover have "pow2 (- 52) = 2 * half_ulp" by (simp add: pow2_def half_ulp_def)
  ultimately show ?thesis using fl_error [OF assms(1)] by linarith
qed

text \<open>Integers below \<open>2 ^ 53\<close> convert exactly.\<close>

lemma fof_int_exact:
  assumes "\<bar>k\<bar> < 2 ^ 53"
  shows "fof_int k = Fin (of_int k)"
proof (cases "k = 0")
  case True
  then show ?thesis by (simp add: fof_int_def fl_def)
next
  case False
  define x :: rat where "x = of_int k"
  define q where "q = ulp_exp x"
  have "\<bar>x\<bar> < 2 ^ 53"
  proof -
    have "of_int \<bar>k\<bar> < (of_int (2 ^ 53) :: rat)" using assms by (simp only: of_int_less_iff)
    then show ?thesis by (simp add: x_def)
  qed
  moreover have "0 < \<bar>x\<bar>" using False by (simp add: x_def)
  ultimately have "ilog2 \<bar>x\<bar> \<le> 52" using ilog2_le [of "\<bar>x\<bar>" 53] by simp
  then have "q \<le> 0" by (simp add: q_def ulp_exp_def)
  then have p: "pow2 q = 1 / 2 ^ nat (- q)" by (auto simp: pow2_def)
  have "x / pow2 q = of_int (k * 2 ^ nat (- q))" by (simp add: p x_def)
  then have r: "round_half_even (x / pow2 q) = k * 2 ^ nat (- q)"
    by (simp only: round_half_even_of_int)
  have y: "of_int (round_half_even (x / pow2 q)) * pow2 q = x"
    unfolding r unfolding p by (simp add: x_def)
  have "(2 :: rat) ^ 53 < pow2 1024" by (simp add: pow2_def)
  with \<open>\<bar>x\<bar> < 2 ^ 53\<close> have "\<bar>x\<bar> < pow2 1024" by linarith
  with y have "\<bar>of_int (round_half_even (x / pow2 q)) * pow2 q\<bar> < pow2 1024" by (simp only:)
  with False y have "fl x = Fin x"
    unfolding fl_def Let_def q_def [symmetric] by (simp add: x_def)
  then show ?thesis by (simp add: fof_int_def x_def)
qed

text \<open>A whole number of seconds converts exactly.\<close>

lemma fseconds_whole:
  assumes "\<bar>n\<bar> < 2 ^ 53"
  shows "fseconds (n * second) = Fin (of_int n)"
proof -
  have "sgn n * (\<bar>n * second\<bar> div \<bar>second\<bar>) = n"
    by (simp add: second_def abs_mult sgn_mult_abs)
  then have q: "go_div (n * second) second = n"
    by (simp add: go_div_def second_def sgn_mult)
  have fin: "fl (of_int n) = Fin (of_int n)"
    using fof_int_exact [OF assms] by (simp add: fof_int_def)
  have "fof_int second = Fin (of_int second)"
    by (rule fof_int_exact) (simp add: second_def)
  moreover have "go_rem (n * second) second = 0" using q by (simp add: go_rem_def)
  moreover have "fof_int 0 = Fin 0" by (simp add: fof_int_def fl_def)
  moreover have "of_int second \<noteq> (0 :: rat)" by (simp add: second_def)
  ultimately have "fdiv (fof_int (go_rem (n * second) second)) (fof_int second) = Fin 0"
    by (simp add: fl_def)
  with q fin fof_int_exact [OF assms] show ?thesis by (simp add: fseconds_def)
qed

text \<open>Below 2 nothing overflows, so rounding is a small perturbation.\<close>

lemma fl_below_2:
  assumes "\<bar>x\<bar> < 2"
  obtains y where "fl x = Fin y" "\<bar>y - x\<bar> \<le> half_ulp"
proof (cases "x = 0")
  case True
  then show thesis by (intro that [of 0]) (simp_all add: fl_def half_ulp_def)
next
  case False
  define q where "q = ulp_exp x"
  define y where "y = of_int (round_half_even (x / pow2 q)) * pow2 q"
  have "ilog2 \<bar>x\<bar> \<le> 0" using False assms ilog2_le [of "\<bar>x\<bar>" 1] by simp
  then have "pow2 q \<le> pow2 (- 52)" by (intro pow2_mono) (simp add: q_def ulp_exp_def)
  then have q: "pow2 q \<le> 1" by (simp add: pow2_def)
  have "\<bar>of_int (round_half_even (x / pow2 q)) - x / pow2 q\<bar> * pow2 q \<le> 1 / 2 * pow2 q"
    by (rule mult_right_mono [OF round_half_even_error]) (simp add: less_imp_le)
  moreover have "\<bar>of_int (round_half_even (x / pow2 q)) - x / pow2 q\<bar> * pow2 q
      = \<bar>(of_int (round_half_even (x / pow2 q)) - x / pow2 q) * pow2 q\<bar>"
    by (simp add: abs_mult abs_of_pos)
  moreover have "(of_int (round_half_even (x / pow2 q)) - x / pow2 q) * pow2 q = y - x"
    using less_imp_neq [OF pow2_pos [of q]] by (simp add: y_def field_simps)
  ultimately have "\<bar>y - x\<bar> \<le> 1 / 2 * pow2 q" by (simp only:)
  with q assms have "\<bar>y\<bar> < 3" by linarith
  moreover have "(3 :: rat) < pow2 1024" by (simp add: pow2_def)
  ultimately have "\<bar>y\<bar> < pow2 1024" by linarith
  with False have f: "fl x = Fin y"
    by (simp add: fl_def Let_def q_def y_def)
  show thesis by (rule that [OF f fl_error_below_2 [OF f assms]])
qed

end
