(* ===== verification/Schedule.thy ===== *)
theory Schedule
  imports Float64 "HOL-Library.Multiset"
begin

text \<open>
  \<open>internal/migsched/schedule.go\<close>: the partition schedule of a migrating devnet, resolved
  from a fixed profile, the genesis and fork times and the participant layout, and what
  its readers ask of it (the legal divergence windows and the driver's action list).
  Times are \<open>gotime\<close>; stake shares are \<open>f64\<close>, computed with the code's roundings.
\<close>

section \<open>Types\<close>

datatype op_class = ClassDeep | ClassShort | ClassStraddle | ClassWindow | ClassOther string

fun class_string :: "op_class \<Rightarrow> string" where
  "class_string ClassDeep = ''deep''"
| "class_string ClassShort = ''short''"
| "class_string ClassStraddle = ''straddle''"
| "class_string ClassWindow = ''window''"
| "class_string (ClassOther s) = s"

definition class_of :: "string \<Rightarrow> op_class" where
  "class_of s =
     (if s = ''deep'' then ClassDeep else if s = ''short'' then ClassShort
      else if s = ''straddle'' then ClassStraddle else if s = ''window'' then ClassWindow
      else ClassOther s)"

datatype anchor_base = FromGenesis | FromFork

record op =
  op_name :: string
  op_class :: op_class
  op_start :: gotime
  op_end :: gotime
  op_victims :: "int list"
  op_mutual :: bool
  op_refused :: "detail option" \<comment> \<open>\<open>Refused\<close>; the empty string is \<open>None\<close>\<close>
  op_hold :: gotime \<comment> \<open>\<open>HoldUntil\<close>, the zero time when unset\<close>

definition admitted :: "op \<Rightarrow> bool" where
  "admitted x \<longleftrightarrow> op_refused x = None"

definition latest :: "op \<Rightarrow> gotime" where
  "latest x = (if \<not> is_zero (op_hold x) then op_hold x else op_end x)"

record schedule =
  sc_profile :: string
  sc_ops :: "op list"
  sc_failsafes :: "gotime list"
  sc_quiet :: gotime
  sc_slot_seconds :: int

record window =
  w_start :: int
  w_end :: int
  w_anchor :: anchor_base
  w_class :: op_class

record profile =
  p_windows :: "window list"
  p_margin :: int

definition win :: "int \<Rightarrow> int \<Rightarrow> anchor_base \<Rightarrow> op_class \<Rightarrow> window" where
  "win s e a c = \<lparr>w_start = s, w_end = e, w_anchor = a, w_class = c\<rparr>"

definition profiles :: "(string \<times> profile) list" where
  "profiles =
     [(''composite'',
       \<lparr>p_windows =
          [win 240 430 FromGenesis ClassDeep,
           win 540 730 FromGenesis ClassDeep,
           win 790 940 FromGenesis ClassShort,
           win (- 120) 60 FromFork ClassStraddle,
           win 300 450 FromFork ClassWindow],
        p_margin = 390\<rparr>),
      (''composite-smoke'',
       \<lparr>p_windows =
          [win 220 370 FromGenesis ClassShort,
           win (- 120) 60 FromFork ClassStraddle],
        p_margin = 390\<rparr>)]"

definition names :: "string list" where
  "names = sort (map fst profiles)"

section \<open>Constants\<close>

abbreviation "straddleMinSide \<equiv> (60 :: int)"
abbreviation "straddleMaxHold \<equiv> (120 :: int)"
abbreviation "straddleMaxAfter \<equiv> (180 :: int)"
abbreviation "healConvergeAllowance \<equiv> (120 :: int)"
abbreviation "legalDivergenceTail \<equiv> (120 :: int)"
abbreviation "quietTail \<equiv> (120 :: int)"
abbreviation "straddleMaxDrop \<equiv> (24 :: int)"
abbreviation "failsafeRepeat \<equiv> (60 :: int)"
abbreviation "windowOpenAfter \<equiv> (300 :: int)"
abbreviation "windowCloseBy \<equiv> (480 :: int)"
abbreviation "windowMinLen \<equiv> (60 :: int)"
abbreviation "windowMaxLen \<equiv> (180 :: int)"

text \<open>Untyped constants become the nearest \<open>float64\<close> where they meet one.\<close>

definition straddleMargin :: f64 where
  "straddleMargin = fl (5 / 100)"

definition one_third :: f64 where
  "one_third = fl (1 / 3)"

definition two_thirds :: f64 where
  "two_thirds = fl (2 / 3)"

section \<open>Participants\<close>

record topology =
  t_anchor :: int
  t_lights :: "int list"
  t_participants :: int
  t_anchor_share :: f64
  t_slot :: int

definition share :: "topology \<Rightarrow> int \<Rightarrow> f64" where
  "share t p =
     (if p = t_anchor t then t_anchor_share t
      else fdiv (fsub (Fin 1) (t_anchor_share t)) (fof_int (t_participants t - 1)))"

definition lights :: "int \<Rightarrow> int \<Rightarrow> int list \<Rightarrow> int list" where
  "lights participants anchor protect =
     filter (\<lambda>i. \<not> (i = anchor \<or> i \<in> set protect)) [1..participants]"

definition others :: "int \<Rightarrow> int list \<Rightarrow> int list" where
  "others participants victims = filter (\<lambda>i. i \<notin> set victims) [1..participants]"

definition node_name :: "int \<Rightarrow> string" where
  "node_name p = ''node-'' @ show_int p"

section \<open>Admission\<close>

datatype sched_error =
    UnknownProfile string "string list"
  | NoAnchor
  | NoLights
  | AnchorIsLight int
  | TooFewParticipants int int
  | BadSlot int
  | DeepNeedsPair nat int
  | DeepShare "int list" f64
  | StraddleNotMutual "int list" bool
  | AnchorTwoThirds f64
  | AnchorOutweighed f64 f64
  | StraddleSides duration duration
  | StraddleHold duration
  | StraddleDrop int f64
  | TwoStraddles string nat
  | WindowVictim "int list"
  | WindowLength duration
  | WindowEarly gotime
  | WindowLate gotime
  | UnknownClass nat string
  | SweepInsideOp gotime string

text \<open>The checks return an \<open>error\<close> or nil: \<open>None\<close> is nil.\<close>

fun sum_shares :: "topology \<Rightarrow> int list \<Rightarrow> f64 \<Rightarrow> f64" where
  "sum_shares t [] acc = acc"
| "sum_shares t (v # vs) acc = sum_shares t vs (fadd acc (share t v))"

definition admit_deep :: "op \<Rightarrow> topology \<Rightarrow> sched_error option" where
  "admit_deep x t =
     (let s = sum_shares t (op_victims x) (Fin 0)
      in if fleq s one_third \<or> fleq (Fin (1 / 2)) s then Some (DeepShare (op_victims x) s)
         else None)"

fun worst_share :: "topology \<Rightarrow> int list \<Rightarrow> f64 \<Rightarrow> f64" where
  "worst_share t [] w = w"
| "worst_share t (v # vs) w =
     worst_share t vs (let s = share t v in if fless w s then s else w)"

definition admit_straddle :: "op \<Rightarrow> gotime \<Rightarrow> topology \<Rightarrow> sched_error option" where
  "admit_straddle x fork t =
     (if \<not> op_mutual x \<or> op_victims x = [] then
        Some (StraddleNotMutual (op_victims x) (op_mutual x))
      else
        let a = share t (t_anchor t)
        in if fleq two_thirds a then Some (AnchorTwoThirds a)
        else
          let worst = worst_share t (op_victims x) (Fin 0)
          in if fless a (fadd worst straddleMargin) then Some (AnchorOutweighed a worst)
          else
            let before = tsub fork (op_start x); after = tsub (op_end x) fork
            in if before < straddleMinSide * second \<or> after < straddleMinSide * second then
                 Some (StraddleSides before after)
            else
              let hold = tsub (latest x) fork
              in if straddleMaxAfter * second < hold then Some (StraddleHold hold)
              else
                let slots = go_div (ftrunc (fseconds (tsub (latest x) (op_start x)))) (t_slot t)
                in if fless (fof_int straddleMaxDrop) (fmul (fof_int slots) worst) then
                     Some (StraddleDrop slots worst)
                   else None)"

definition admit_window :: "op \<Rightarrow> gotime \<Rightarrow> topology \<Rightarrow> sched_error option" where
  "admit_window x fork t =
     (if length (op_victims x) \<noteq> 1 \<or> hd (op_victims x) = t_anchor t then
        Some (WindowVictim (op_victims x))
      else
        let len = tsub (op_end x) (op_start x)
        in if len < windowMinLen * second \<or> windowMaxLen * second < len then
             Some (WindowLength len)
        else if op_start x < fork + windowOpenAfter * second then Some (WindowEarly (op_start x))
        else if fork + windowCloseBy * second < op_end x then Some (WindowLate (op_end x))
        else None)"

fun check_sweep :: "op list \<Rightarrow> gotime \<Rightarrow> sched_error option" where
  "check_sweep [] f = None"
| "check_sweep (x # os) f =
     (if \<not> admitted x then check_sweep os f
      else if \<not> f < op_start x \<and> f < latest x then Some (SweepInsideOp f (op_name x))
      else check_sweep os f)"

fun check_failsafes :: "op list \<Rightarrow> gotime list \<Rightarrow> sched_error option" where
  "check_failsafes os [] = None"
| "check_failsafes os (f # fs) =
     (case check_sweep os f of Some e \<Rightarrow> Some e | None \<Rightarrow> check_failsafes os fs)"

section \<open>Failsafe sweeps and the quiet time\<close>

text \<open>The loop's variables: the sweeps so far, the end of the last pre-fork op, the
  quiet time.\<close>

fun failsafe_step :: "gotime list \<times> gotime \<times> gotime \<Rightarrow> op \<Rightarrow> gotime list \<times> gotime \<times> gotime" where
  "failsafe_step (out, last_pre, quiet) x =
     (let q = latest x + quietTail * second; quiet' = (if quiet < q then q else quiet)
      in case op_class x of
           ClassStraddle \<Rightarrow>
             (out @ [latest x, latest x + failsafeRepeat * second], last_pre, quiet')
         | ClassWindow \<Rightarrow> (out @ [op_end x + failsafeRepeat * second], last_pre, quiet')
         | _ \<Rightarrow> (out, (if admitted x \<and> last_pre < op_end x then op_end x else last_pre), quiet))"

definition failsafes :: "op list \<Rightarrow> gotime \<Rightarrow> gotime list \<times> gotime" where
  "failsafes os deadline =
     (let (out, last_pre, quiet) = foldl failsafe_step ([], zero_time, deadline) os;
          out' = (if \<not> is_zero last_pre \<and> last_pre < deadline then out @ [last_pre] else out)
      in (sort (out' @ [deadline]), quiet))"

section \<open>Resolve\<close>

record resolving =
  r_rotation :: nat
  r_pairs :: nat
  r_straddles :: nat
  r_ops :: "op list"

definition refusal :: "op_class \<Rightarrow> gotime \<Rightarrow> gotime \<Rightarrow> int \<Rightarrow> detail" where
  "refusal c e deadline margin =
     Fmt ''%s op ends %s, after the pre-fork heal deadline %s (fork-%ds)''
       [DS (class_string c), DI e, DI deadline, DI margin]"

text \<open>One window of the profile: the victims by class, the class's admission check, then
  the refusal of a pre-fork op that ends too late. \<open>i\<close> is the window's index from 0.\<close>

definition resolve_window ::
  "string \<Rightarrow> gotime \<Rightarrow> gotime \<Rightarrow> topology \<Rightarrow> int \<Rightarrow> nat \<Rightarrow> window \<Rightarrow> resolving \<Rightarrow> sched_error + resolving"
where
  "resolve_window name genesis fork t margin i w r =
     (let base = (if w_anchor w = FromFork then fork else genesis);
          deadline = fork + - margin * second;
          ls = t_lights t; n = length ls;
          x = \<lparr>op_name = ''mig-'' @ name @ ''-'' @ show_nat (i + 1), op_class = w_class w,
               op_start = base + w_start w * second, op_end = base + w_end w * second,
               op_victims = [], op_mutual = False, op_refused = None, op_hold = zero_time\<rparr>;
          finish = (\<lambda>x r err.
            case err of Some e \<Rightarrow> Inl e
            | None \<Rightarrow>
                Inr (r\<lparr>r_ops := r_ops r @
                  [if (w_class w = ClassDeep \<or> w_class w = ClassShort) \<and> deadline < op_end x
                   then x\<lparr>op_refused := Some (refusal (w_class w) (op_end x) deadline margin)\<rparr>
                   else x]\<rparr>))
      in case w_class w of
           ClassDeep \<Rightarrow>
             if n < 2 then Inl (DeepNeedsPair (i + 1) (int n))
             else
               let x' = x\<lparr>op_victims := [ls ! (r_pairs r mod n), ls ! ((r_pairs r + 1) mod n)]\<rparr>
               in finish x' (r\<lparr>r_pairs := r_pairs r + 1\<rparr>) (admit_deep x' t)
         | ClassStraddle \<Rightarrow>
             let x' = x\<lparr>op_victims := ls, op_mutual := True,
                        op_hold := op_end x + straddleMaxHold * second\<rparr>;
                 r' = r\<lparr>r_straddles := r_straddles r + 1\<rparr>
             in if 1 < r_straddles r' then Inl (TwoStraddles name (r_straddles r'))
                else finish x' r' (admit_straddle x' fork t)
         | ClassShort \<Rightarrow>
             finish (x\<lparr>op_victims := [ls ! (r_rotation r mod n)]\<rparr>)
               (r\<lparr>r_rotation := r_rotation r + 1\<rparr>) None
         | ClassWindow \<Rightarrow>
             let x' = x\<lparr>op_victims := [ls ! (r_rotation r mod n)]\<rparr>
             in finish x' (r\<lparr>r_rotation := r_rotation r + 1\<rparr>) (admit_window x' fork t)
         | ClassOther c \<Rightarrow> Inl (UnknownClass (i + 1) c))"

fun resolve_windows ::
  "string \<Rightarrow> gotime \<Rightarrow> gotime \<Rightarrow> topology \<Rightarrow> int \<Rightarrow> nat \<Rightarrow> window list \<Rightarrow> resolving \<Rightarrow> sched_error + resolving"
where
  "resolve_windows name genesis fork t margin i [] r = Inr r"
| "resolve_windows name genesis fork t margin i (w # ws) r =
     (case resolve_window name genesis fork t margin i w r of
        Inl e \<Rightarrow> Inl e
      | Inr r' \<Rightarrow> resolve_windows name genesis fork t margin (Suc i) ws r')"

definition resolve :: "string \<Rightarrow> gotime \<Rightarrow> gotime \<Rightarrow> topology \<Rightarrow> sched_error + schedule" where
  "resolve name genesis fork t =
     (case map_of profiles name of
        None \<Rightarrow> Inl (UnknownProfile name names)
      | Some p \<Rightarrow>
          if t_anchor t \<le> 0 then Inl NoAnchor
          else if t_lights t = [] then Inl NoLights
          else if t_anchor t \<in> set (t_lights t) then Inl (AnchorIsLight (t_anchor t))
          else if t_participants t < int (length (t_lights t)) + 1 then
            Inl (TooFewParticipants (t_participants t) (int (length (t_lights t))))
          else if t_slot t \<le> 0 then Inl (BadSlot (t_slot t))
          else
            case resolve_windows name genesis fork t (p_margin p) 0 (p_windows p)
                   \<lparr>r_rotation = 0, r_pairs = 0, r_straddles = 0, r_ops = []\<rparr> of
              Inl e \<Rightarrow> Inl e
            | Inr r \<Rightarrow>
                let (fs, quiet) = failsafes (r_ops r) (fork + - p_margin p * second)
                in case check_failsafes (r_ops r) fs of
                     Some e \<Rightarrow> Inl e
                   | None \<Rightarrow>
                       Inr \<lparr>sc_profile = name, sc_ops = r_ops r, sc_failsafes = fs,
                            sc_quiet = quiet, sc_slot_seconds = t_slot t\<rparr>)"

section \<open>What readers ask of a schedule\<close>

definition legal_windows :: "schedule \<Rightarrow> (gotime \<times> gotime) list" where
  "legal_windows s =
     map (\<lambda>x. (op_start x, latest x + legalDivergenceTail * second)) (filter admitted (sc_ops s))"

definition covers :: "schedule \<Rightarrow> gotime \<Rightarrow> bool" where
  "covers s t \<longleftrightarrow> (\<exists>w \<in> set (legal_windows s). \<not> t < fst w \<and> \<not> snd w < t)"

definition straddle_op :: "schedule \<Rightarrow> op option" where
  "straddle_op s = find (\<lambda>x. op_class x = ClassStraddle) (sc_ops s)"

datatype action_kind = ActOpEnd | ActSweep | ActOpStart

fun kind_rank :: "action_kind \<Rightarrow> nat" where
  "kind_rank ActOpEnd = 0"
| "kind_rank ActSweep = 1"
| "kind_rank ActOpStart = 2"

instantiation action_kind :: linorder
begin

definition less_eq_action_kind :: "action_kind \<Rightarrow> action_kind \<Rightarrow> bool" where
  "less_eq_action_kind a b \<longleftrightarrow> kind_rank a \<le> kind_rank b"

definition less_action_kind :: "action_kind \<Rightarrow> action_kind \<Rightarrow> bool" where
  "less_action_kind a b \<longleftrightarrow> kind_rank a < kind_rank b"

instance
proof
  fix a b :: action_kind
  show "a \<le> b \<Longrightarrow> b \<le> a \<Longrightarrow> a = b"
    by (cases a; cases b) (simp_all add: less_eq_action_kind_def)
qed (auto simp: less_eq_action_kind_def less_action_kind_def)

end

datatype action = Action (a_kind: action_kind) (a_at: gotime) (a_op: "op option")

text \<open>\<open>StaleAt\<close>; a sweep's \<open>Op\<close> is the zero \<open>Op\<close>, here \<open>None\<close>, which no start has.\<close>

definition stale_at :: "action \<Rightarrow> gotime \<Rightarrow> bool" where
  "stale_at a now \<longleftrightarrow>
     a_kind a = ActOpStart \<and> (case a_op a of None \<Rightarrow> True | Some x \<Rightarrow> \<not> now < op_end x)"

definition op_actions :: "op \<Rightarrow> action list" where
  "op_actions x = [Action ActOpStart (op_start x) (Some x), Action ActOpEnd (op_end x) (Some x)]"

definition actions :: "schedule \<Rightarrow> action list" where
  "actions s =
     sort_key (\<lambda>a. (a_at a, a_kind a))
       (concat (map op_actions (filter admitted (sc_ops s))) @
        map (\<lambda>f. Action ActSweep f None) (sc_failsafes s))"

section \<open>What a resolved window is\<close>

text \<open>The specification of one op: name, class and instants are the profile's, shifted to
  the window's base and never compressed; the victims are lights; the class's admission
  check passed; the refusal is exactly "pre-fork and ends after the deadline".\<close>

definition window_base :: "gotime \<Rightarrow> gotime \<Rightarrow> window \<Rightarrow> gotime" where
  "window_base genesis fork w = (if w_anchor w = FromFork then fork else genesis)"

definition pre_fork :: "op_class \<Rightarrow> bool" where
  "pre_fork c \<longleftrightarrow> c = ClassDeep \<or> c = ClassShort"

definition resolves ::
  "string \<Rightarrow> gotime \<Rightarrow> gotime \<Rightarrow> topology \<Rightarrow> int \<Rightarrow> nat \<times> window \<Rightarrow> op \<Rightarrow> bool"
where
  "resolves name genesis fork t margin iw x \<longleftrightarrow>
     (case iw of (i, w) \<Rightarrow>
        op_name x = ''mig-'' @ name @ ''-'' @ show_nat (i + 1) \<and>
        op_class x = w_class w \<and>
        op_start x = window_base genesis fork w + w_start w * second \<and>
        op_end x = window_base genesis fork w + w_end w * second \<and>
        op_victims x \<noteq> [] \<and> set (op_victims x) \<subseteq> set (t_lights t) \<and>
        (\<forall>c. w_class w \<noteq> ClassOther c) \<and>
        (op_mutual x \<longleftrightarrow> w_class w = ClassStraddle) \<and>
        op_hold x = (if w_class w = ClassStraddle
                     then op_end x + straddleMaxHold * second else zero_time) \<and>
        (admitted x \<longleftrightarrow> \<not> (pre_fork (w_class w) \<and> fork - margin * second < op_end x)) \<and>
        (w_class w = ClassDeep \<longrightarrow> length (op_victims x) = 2 \<and> admit_deep x t = None) \<and>
        (w_class w = ClassStraddle \<longrightarrow>
           op_victims x = t_lights t \<and> admit_straddle x fork t = None) \<and>
        (w_class w = ClassWindow \<longrightarrow> admit_window x fork t = None) \<and>
        (w_class w = ClassShort \<longrightarrow> length (op_victims x) = 1))"

text \<open>The admission checks do not read the refusal, which is set after them.\<close>

lemma admit_refused_irrelevant [simp]:
  "admit_deep \<lparr>op_name = n, op_class = c, op_start = b, op_end = e, op_victims = v, op_mutual = m, op_refused = Some d, op_hold = h\<rparr> t =
    admit_deep \<lparr>op_name = n, op_class = c, op_start = b, op_end = e, op_victims = v, op_mutual = m, op_refused = None, op_hold = h\<rparr> t"
  "admit_straddle \<lparr>op_name = n, op_class = c, op_start = b, op_end = e, op_victims = v, op_mutual = m, op_refused = Some d, op_hold = h\<rparr> fork t =
    admit_straddle \<lparr>op_name = n, op_class = c, op_start = b, op_end = e, op_victims = v, op_mutual = m, op_refused = None, op_hold = h\<rparr> fork t"
  "admit_window \<lparr>op_name = n, op_class = c, op_start = b, op_end = e, op_victims = v, op_mutual = m, op_refused = Some d, op_hold = h\<rparr> fork t =
    admit_window \<lparr>op_name = n, op_class = c, op_start = b, op_end = e, op_victims = v, op_mutual = m, op_refused = None, op_hold = h\<rparr> fork t"
  by (simp_all add: admit_deep_def admit_straddle_def admit_window_def latest_def Let_def)

lemma resolve_window_spec:
  assumes ok: "resolve_window name genesis fork t margin i w r = Inr r'"
    and ls: "t_lights t \<noteq> []"
  shows "\<exists>x. r_ops r' = r_ops r @ [x] \<and> resolves name genesis fork t margin (i, w) x"
proof (cases "w_class w")
  case ClassDeep
  with ok ls show ?thesis
    by (auto simp: resolve_window_def Let_def resolves_def window_base_def admitted_def
        pre_fork_def split: option.splits if_splits)
next
  case ClassShort
  with ok ls show ?thesis
    by (auto simp: resolve_window_def Let_def resolves_def window_base_def admitted_def
        pre_fork_def split: if_splits)
next
  case ClassStraddle
  with ok ls show ?thesis
    by (auto simp: resolve_window_def Let_def resolves_def window_base_def admitted_def
        pre_fork_def split: option.splits if_splits)
next
  case ClassWindow
  with ok ls show ?thesis
    by (auto simp: resolve_window_def Let_def resolves_def window_base_def admitted_def
        pre_fork_def split: option.splits if_splits)
next
  case (ClassOther c)
  with ok show ?thesis by (simp add: resolve_window_def Let_def)
qed

lemma resolve_windows_spec:
  assumes "resolve_windows name genesis fork t margin i ws r = Inr r'"
    and "t_lights t \<noteq> []"
  shows "\<exists>xs. r_ops r' = r_ops r @ xs \<and>
    list_all2 (resolves name genesis fork t margin) (enumerate i ws) xs"
  using assms
proof (induction ws arbitrary: i r)
  case Nil
  then show ?case by simp
next
  case (Cons w ws)
  from Cons.prems obtain r1
    where 1: "resolve_window name genesis fork t margin i w r = Inr r1"
      and 2: "resolve_windows name genesis fork t margin (Suc i) ws r1 = Inr r'"
    by (auto split: sum.splits)
  from resolve_window_spec [OF 1 Cons.prems(2)] obtain x
    where x: "r_ops r1 = r_ops r @ [x]" "resolves name genesis fork t margin (i, w) x" by blast
  from Cons.IH [OF 2 Cons.prems(2)] obtain xs
    where "r_ops r' = r_ops r1 @ xs"
      "list_all2 (resolves name genesis fork t margin) (enumerate (Suc i) ws) xs" by blast
  with x show ?case by (intro exI [of _ "x # xs"]) simp
qed

text \<open>Everything a successful \<open>resolve\<close> says, in one elimination.\<close>

lemma resolveE:
  assumes "resolve name genesis fork t = Inr s"
  obtains p where
    "map_of profiles name = Some p" "0 < t_anchor t" "t_lights t \<noteq> []"
    "t_anchor t \<notin> set (t_lights t)" "int (length (t_lights t)) < t_participants t"
    "0 < t_slot t" "sc_profile s = name" "sc_slot_seconds s = t_slot t"
    "list_all2 (resolves name genesis fork t (p_margin p)) (enumerate 0 (p_windows p)) (sc_ops s)"
    "failsafes (sc_ops s) (fork - p_margin p * second) = (sc_failsafes s, sc_quiet s)"
    "check_failsafes (sc_ops s) (sc_failsafes s) = None"
proof -
  from assms obtain p r fs quiet where
    p: "map_of profiles name = Some p" and g: "0 < t_anchor t" "t_lights t \<noteq> []"
      "t_anchor t \<notin> set (t_lights t)" "int (length (t_lights t)) < t_participants t" "0 < t_slot t"
    and r: "resolve_windows name genesis fork t (p_margin p) 0 (p_windows p)
       \<lparr>r_rotation = 0, r_pairs = 0, r_straddles = 0, r_ops = []\<rparr> = Inr r"
    and f: "failsafes (r_ops r) (fork - p_margin p * second) = (fs, quiet)"
    and c: "check_failsafes (r_ops r) fs = None"
    and s: "s = \<lparr>sc_profile = name, sc_ops = r_ops r, sc_failsafes = fs,
                 sc_quiet = quiet, sc_slot_seconds = t_slot t\<rparr>"
    by (auto simp: resolve_def not_le not_less split: option.splits if_splits sum.splits prod.splits)
  from resolve_windows_spec [OF r g(2)]
  have "list_all2 (resolves name genesis fork t (p_margin p)) (enumerate 0 (p_windows p)) (r_ops r)"
    by simp
  with p g f c s show thesis by (intro that [of p]) simp_all
qed

lemma profiles_cases:
  "map_of profiles name = Some p \<Longrightarrow>
    p_margin p = 390 \<and> (\<forall>w \<in> set (p_windows p). w_start w < w_end w)"
  by (auto simp: profiles_def win_def split: if_splits)

lemma resolves_mem:
  assumes "list_all2 (resolves name genesis fork t margin) (enumerate 0 ws) os" "x \<in> set os"
  shows "\<exists>i w. w \<in> set ws \<and> resolves name genesis fork t margin (i, w) x"
proof -
  from list_all2_mem [OF assms] obtain iw where
    iw: "iw \<in> set (enumerate 0 ws)" "resolves name genesis fork t margin iw x"
    by blast
  obtain i w where iw': "iw = (i, w)" by (cases iw)
  with iw(1) have "w \<in> set ws" by (auto simp: in_set_enumerate_eq)
  with iw(2) iw' show ?thesis by blast
qed

lemma resolved_op:
  assumes "resolve name genesis fork t = Inr s" "x \<in> set (sc_ops s)"
  obtains i w where "resolves name genesis fork t 390 (i, w) x" "w_start w < w_end w"
proof -
  from assms(1) obtain p where p: "map_of profiles name = Some p"
    "list_all2 (resolves name genesis fork t (p_margin p)) (enumerate 0 (p_windows p)) (sc_ops s)"
    by (rule resolveE)
  from resolves_mem [OF p(2) assms(2)] profiles_cases [OF p(1)] show thesis
    by (metis that)
qed

section \<open>Sweeps and the quiet time\<close>

definition post_sweeps :: "op \<Rightarrow> gotime list" where
  "post_sweeps x =
     (case op_class x of
        ClassStraddle \<Rightarrow> [latest x, latest x + failsafeRepeat * second]
      | ClassWindow \<Rightarrow> [op_end x + failsafeRepeat * second]
      | _ \<Rightarrow> [])"

definition post_fork :: "op \<Rightarrow> bool" where
  "post_fork x \<longleftrightarrow> op_class x = ClassStraddle \<or> op_class x = ClassWindow"

lemma resolves_class:
  assumes "resolves name genesis fork t margin (i, w) x"
  shows "post_fork x \<or> op_class x = ClassDeep \<or> op_class x = ClassShort"
proof -
  from assms have "op_class x = w_class w" "\<forall>c. w_class w \<noteq> ClassOther c"
    by (auto simp: resolves_def)
  then show ?thesis by (cases "w_class w") (auto simp: post_fork_def)
qed

lemma foldl_failsafe_step:
  "foldl failsafe_step (out, lp, q) os = (out', lp', q') \<Longrightarrow>
    out' = out @ concat (map post_sweeps os) \<and>
    q \<le> q' \<and> (\<forall>x \<in> set os. post_fork x \<longrightarrow> latest x + quietTail * second \<le> q') \<and>
    (lp' = lp \<or> (\<exists>x \<in> set os. \<not> post_fork x \<and> admitted x \<and> lp' = op_end x))"
proof (induction os arbitrary: out lp q)
  case Nil
  then show ?case by simp
next
  case (Cons x os)
  obtain out1 lp1 q1 where 1: "failsafe_step (out, lp, q) x = (out1, lp1, q1)"
    by (cases "failsafe_step (out, lp, q) x") auto
  with Cons.prems have 2: "foldl failsafe_step (out1, lp1, q1) os = (out', lp', q')" by simp
  from 1 have "out1 = out @ post_sweeps x" "q \<le> q1"
    "post_fork x \<longrightarrow> latest x + quietTail * second \<le> q1"
    "lp1 = lp \<or> \<not> post_fork x \<and> admitted x \<and> lp1 = op_end x"
    by (cases "op_class x"; auto simp: Let_def post_sweeps_def post_fork_def split: if_splits)+
  with Cons.IH [OF 2] show ?case by auto
qed

text \<open>The sweeps are exactly the post-fork ops' own ones, the deadline, and at most one
  more before it: the end of an admitted pre-fork op.\<close>

lemma failsafes_spec:
  assumes "failsafes os deadline = (fs, quiet)"
  shows "sorted fs \<and> deadline \<in> set fs \<and> deadline \<le> quiet \<and>
    (\<forall>x \<in> set os. set (post_sweeps x) \<subseteq> set fs) \<and>
    (\<forall>x \<in> set os. post_fork x \<longrightarrow> latest x + quietTail * second \<le> quiet) \<and>
    (\<forall>f \<in> set fs. f \<le> deadline \<or> (\<exists>x \<in> set os. f \<in> set (post_sweeps x)))"
proof -
  obtain out lp q where f: "foldl failsafe_step ([], zero_time, deadline) os = (out, lp, q)"
    by (cases "foldl failsafe_step ([], zero_time, deadline) os") auto
  note spec = foldl_failsafe_step [OF f]
  from assms f have "quiet = q"
    "fs = sort ((if \<not> is_zero lp \<and> lp < deadline then out @ [lp] else out) @ [deadline])"
    by (auto simp: failsafes_def)
  with spec show ?thesis by (auto simp: is_zero_def)
qed

lemma check_sweep_None:
  "check_sweep os f = None \<longleftrightarrow> (\<forall>x \<in> set os. admitted x \<longrightarrow> \<not> (op_start x \<le> f \<and> f < latest x))"
  by (induction os f rule: check_sweep.induct) auto

lemma check_failsafes_None:
  "check_failsafes os fs = None \<longleftrightarrow>
    (\<forall>f \<in> set fs. \<forall>x \<in> set os. admitted x \<longrightarrow> \<not> (op_start x \<le> f \<and> f < latest x))"
proof (induction fs)
  case Nil
  then show ?case by simp
next
  case (Cons f fs)
  then show ?case
    by (cases "check_sweep os f") (use check_sweep_None [of os f] in auto)
qed

text \<open>In a resolved schedule \<open>HoldUntil\<close> only moves a heal later.\<close>

lemma resolved_latest:
  assumes "resolve name genesis fork t = Inr s" "x \<in> set (sc_ops s)"
  shows "op_start x < op_end x \<and> op_end x \<le> latest x \<and>
    (op_class x \<noteq> ClassStraddle \<longrightarrow> latest x = op_end x)"
proof -
  obtain i w where "resolves name genesis fork t 390 (i, w) x" "w_start w < w_end w"
    by (rule resolved_op [OF assms])
  then show ?thesis
    by (auto simp: resolves_def latest_def is_zero_def second_def split: if_splits)
qed

lemma resolved_prefork_end:
  assumes "resolve name genesis fork t = Inr s" "x \<in> set (sc_ops s)"
    and "admitted x" "op_class x = ClassDeep \<or> op_class x = ClassShort"
  shows "latest x + 390 * second \<le> fork"
proof -
  obtain i w where "resolves name genesis fork t 390 (i, w) x"
    by (rule resolved_op [OF assms(1,2)])
  with assms(3,4) have "op_end x + 390 * second \<le> fork"
    by (auto simp: resolves_def pre_fork_def)
  with resolved_latest [OF assms(1,2)] assms(4) show ?thesis by auto
qed

section \<open>Theorems\<close>

text \<open>C1: The ops of a resolved schedule are the profile's windows, one for one and in
  order, each at its exact instants from genesis or the fork (an op is refused, never
  compressed or moved), with lights for victims and its class's admission passed.\<close>

theorem resolve_refines_profile:
  assumes "resolve name genesis fork t = Inr s"
  shows "\<exists>p. map_of profiles name = Some p \<and>
    list_all2 (resolves name genesis fork t (p_margin p)) (enumerate 0 (p_windows p)) (sc_ops s)"
  by (rule resolveE [OF assms]) blast

text \<open>The anchor is never a victim, whatever the topology and profile.\<close>

theorem resolve_anchor_never_victim:
  assumes "resolve name genesis fork t = Inr s" "x \<in> set (sc_ops s)"
  shows "t_anchor t \<notin> set (op_victims x) \<and> op_victims x \<noteq> []"
proof -
  obtain i w where w: "resolves name genesis fork t 390 (i, w) x"
    by (rule resolved_op [OF assms])
  have "t_anchor t \<notin> set (t_lights t)" by (rule resolveE [OF assms(1)])
  with w show ?thesis by (auto simp: resolves_def)
qed

text \<open>An admitted pre-fork partition is healed at least 390 s before the fork.\<close>

theorem resolve_prefork_margin:
  assumes "resolve name genesis fork t = Inr s" "x \<in> set (sc_ops s)"
    and "admitted x" "op_class x = ClassDeep \<or> op_class x = ClassShort"
  shows "latest x + 390 * second \<le> fork"
  using assms by (rule resolved_prefork_end)

text \<open>No failsafe sweep falls inside an admitted partition, from its start up to its
  latest heal: a sweep never heals an op early.\<close>

theorem resolve_sweeps_outside_ops:
  assumes "resolve name genesis fork t = Inr s" "f \<in> set (sc_failsafes s)"
    and "x \<in> set (sc_ops s)" "admitted x"
  shows "f < op_start x \<or> latest x \<le> f"
proof -
  have "check_failsafes (sc_ops s) (sc_failsafes s) = None"
    by (rule resolveE [OF assms(1)])
  with assms(2-4) show ?thesis by (force simp: check_failsafes_None)
qed

lemma op_swept:
  assumes "resolve name genesis fork t = Inr s" "x \<in> set (sc_ops s)" "admitted x"
  shows "\<exists>f \<in> set (sc_failsafes s). latest x \<le> f \<and>
    (op_class x = ClassStraddle \<or> op_class x = ClassWindow \<longrightarrow> f \<le> latest x + 60 * second)"
proof -
  obtain i w where w: "resolves name genesis fork t 390 (i, w) x"
    by (rule resolved_op [OF assms(1,2)])
  have "\<exists>deadline. (\<forall>y \<in> set (sc_ops s). set (post_sweeps y) \<subseteq> set (sc_failsafes s)) \<and>
    deadline \<in> set (sc_failsafes s) \<and> deadline = fork - 390 * second"
  proof (rule resolveE [OF assms(1)])
    fix p
    assume "map_of profiles name = Some p"
      and "failsafes (sc_ops s) (fork - p_margin p * second) = (sc_failsafes s, sc_quiet s)"
    then show ?thesis using failsafes_spec profiles_cases by fastforce
  qed
  then have d: "set (post_sweeps x) \<subseteq> set (sc_failsafes s)"
    "fork - 390 * second \<in> set (sc_failsafes s)"
    using assms(2) by auto
  note l = resolved_latest [OF assms(1,2)]
  show ?thesis
  proof (cases "post_fork x")
    case True
    then have "latest x \<in> set (sc_failsafes s) \<or> latest x + 60 * second \<in> set (sc_failsafes s)"
      using d(1) l by (auto simp: post_fork_def post_sweeps_def)
    then obtain f where "f \<in> set (sc_failsafes s)" "f = latest x \<or> f = latest x + 60 * second"
      by blast
    then show ?thesis by (intro bexI [of _ f]) (auto simp: second_def)
  next
    case False
    with resolves_class [OF w] have "op_class x = ClassDeep \<or> op_class x = ClassShort"
      by blast
    with resolved_prefork_end [OF assms] d(2) show ?thesis
      by (intro bexI [of _ "fork - 390 * second"]) auto
  qed
qed

lemma set_actions:
  "a \<in> set (actions s) \<longleftrightarrow>
    (\<exists>x \<in> set (sc_ops s). admitted x \<and> a \<in> set (op_actions x)) \<or>
    (\<exists>f \<in> set (sc_failsafes s). a = Action ActSweep f None)"
  by (auto simp: actions_def)

text \<open>C9: Every admitted partition has a failsafe behind it: a sweep at or after its
  latest heal, at most 60 s after it for an op at or past the fork.\<close>

theorem resolve_every_op_swept:
  assumes "resolve name genesis fork t = Inr s" "x \<in> set (sc_ops s)" "admitted x"
  shows "\<exists>f \<in> set (sc_failsafes s). latest x \<le> f \<and>
    (op_class x = ClassStraddle \<or> op_class x = ClassWindow \<longrightarrow> f \<le> latest x + 60 * second)"
  using assms by (rule op_swept)

text \<open>After the quiet time the driver never acts again: every action is due by then,
  and every admitted partition is certainly healed.\<close>

theorem resolve_quiet_bounds_actions:
  assumes "resolve name genesis fork t = Inr s"
  shows "(\<forall>a \<in> set (actions s). a_at a \<le> sc_quiet s) \<and>
    (\<forall>x \<in> set (sc_ops s). admitted x \<longrightarrow> latest x \<le> sc_quiet s)"
proof -
  obtain p where p: "map_of profiles name = Some p"
    "failsafes (sc_ops s) (fork - p_margin p * second) = (sc_failsafes s, sc_quiet s)"
    by (rule resolveE [OF assms])
  define dl where "dl = fork - 390 * second"
  have fs: "failsafes (sc_ops s) dl = (sc_failsafes s, sc_quiet s)"
    using p(2) profiles_cases [OF p(1)] by (simp add: dl_def)
  note spec = failsafes_spec [OF fs]
  have ops: "latest x \<le> sc_quiet s \<and> (\<forall>f \<in> set (post_sweeps x). f \<le> sc_quiet s)"
    if x: "x \<in> set (sc_ops s)" and a: "admitted x \<or> post_fork x" for x
  proof (cases "post_fork x")
    case True
    with spec x have "latest x + quietTail * second \<le> sc_quiet s" by blast
    with True resolved_latest [OF assms x] show ?thesis
      by (auto simp: post_fork_def post_sweeps_def second_def)
  next
    case False
    obtain i w where "resolves name genesis fork t 390 (i, w) x"
      by (rule resolved_op [OF assms x])
    from resolves_class [OF this] False have "op_class x = ClassDeep \<or> op_class x = ClassShort"
      by blast
    with resolved_prefork_end [OF assms x] a False have "latest x \<le> dl"
      by (auto simp: dl_def)
    with spec \<open>op_class x = ClassDeep \<or> op_class x = ClassShort\<close> show ?thesis
      by (auto simp: post_sweeps_def)
  qed
  have sweeps: "f \<le> sc_quiet s" if "f \<in> set (sc_failsafes s)" for f
  proof -
    from spec that consider "f \<le> dl" | x where "x \<in> set (sc_ops s)" "f \<in> set (post_sweeps x)"
      by blast
    then show ?thesis
    proof cases
      case 1
      with spec show ?thesis by linarith
    next
      case 2
      then have "post_fork x"
        by (auto simp: post_sweeps_def post_fork_def split: op_class.splits)
      with 2 ops show ?thesis by blast
    qed
  qed
  have "a_at a \<le> sc_quiet s" if "a \<in> set (actions s)" for a
    using that ops sweeps resolved_latest [OF assms]
    by (force simp: set_actions op_actions_def)
  with ops show ?thesis by blast
qed

text \<open>The driver's action list holds a start and an end for each admitted op and a
  sweep for each failsafe, nothing else, sorted by instant and, at one instant, heal before
  sweep before isolation.\<close>

theorem actions_sorted_complete:
  "sorted (map (\<lambda>a. (a_at a, a_kind a)) (actions s)) \<and>
   mset (actions s) =
     mset (concat (map op_actions (filter admitted (sc_ops s)))) +
     mset (map (\<lambda>f. Action ActSweep f None) (sc_failsafes s))"
  by (simp add: actions_def)

text \<open>In the action list of a resolved schedule every admitted partition is started
  before it is ended.\<close>

theorem actions_start_before_end:
  assumes "resolve name genesis fork t = Inr s" "x \<in> set (sc_ops s)" "admitted x"
  shows "\<exists>as bs cs. actions s =
    as @ Action ActOpStart (op_start x) (Some x) # bs @ Action ActOpEnd (op_end x) (Some x) # cs"
proof (rule sorted_key_before [where f = "\<lambda>a. (a_at a, a_kind a)"])
  show "sorted (map (\<lambda>a. (a_at a, a_kind a)) (actions s))"
    by (simp add: actions_def)
  show "Action ActOpStart (op_start x) (Some x) \<in> set (actions s)"
    "Action ActOpEnd (op_end x) (Some x) \<in> set (actions s)"
    using assms(2,3) by (auto simp: set_actions op_actions_def)
  show "(a_at (Action ActOpStart (op_start x) (Some x)), a_kind (Action ActOpStart (op_start x) (Some x)))
    < (a_at (Action ActOpEnd (op_end x) (Some x)), a_kind (Action ActOpEnd (op_end x) (Some x)))"
    using resolved_latest [OF assms(1,2)] by simp
qed

text \<open>Head divergence is legal at \<open>t\<close> exactly when an admitted op started by then and
  its latest heal is at most 120 s past.\<close>

theorem covers_iff:
  "covers s t \<longleftrightarrow>
    (\<exists>x \<in> set (sc_ops s). admitted x \<and> op_start x \<le> t \<and> t \<le> latest x + 120 * second)"
  by (auto simp: covers_def legal_windows_def not_less)

text \<open>The light and bystander lists partition the participants: sorted, duplicate
  free, and exactly the numbers not excluded.\<close>

theorem participants_partition:
  "set (others n vs) = {1..n} - set vs \<and> set (lights n a pr) = {1..n} - insert a (set pr) \<and>
   sorted_wrt (<) (others n vs) \<and> sorted_wrt (<) (lights n a pr)"
  by (auto simp: others_def lights_def sorted_wrt_filter sorted_wrt_upto)

end
