(* ===== verification/Devnet.thy ===== *)
theory Devnet
  imports Schedule
begin

text \<open>
  The shipped profiles and layout: the sweeps of both profiles never fall inside one of
  their own partitions, so a resolution can only fail in admission; with the devnet's
  stake layout (\<open>args/migration.yaml\<close>: five participants, 224 validators on the anchor
  and 136 on each light, 6 s slots) it never fails. The admission checks compare rounded
  shares; the last section bounds the exact stake they let through.
\<close>

section \<open>Sweeps of the shipped profiles\<close>

lemma foldl_failsafe_last:
  "foldl failsafe_step (out, lp, q) os = (out', lp', q') \<Longrightarrow>
    lp \<le> lp' \<and> (\<forall>x \<in> set os. \<not> post_fork x \<and> admitted x \<longrightarrow> op_end x \<le> lp')"
proof (induction os arbitrary: out lp q)
  case Nil
  then show ?case by simp
next
  case (Cons x os)
  obtain out1 lp1 q1 where 1: "failsafe_step (out, lp, q) x = (out1, lp1, q1)"
    by (cases "failsafe_step (out, lp, q) x") auto
  with Cons.prems have 2: "foldl failsafe_step (out1, lp1, q1) os = (out', lp', q')" by simp
  from 1 have "lp \<le> lp1 \<and> (\<not> post_fork x \<and> admitted x \<longrightarrow> op_end x \<le> lp1)"
    by (cases "op_class x"; auto simp: Let_def post_fork_def split: if_splits)
  with Cons.IH [OF 2] show ?case by auto
qed

lemma failsafes_last_pre:
  assumes "failsafes os deadline = (fs, quiet)" "f \<in> set fs"
  shows "f = deadline \<or> (\<exists>x \<in> set os. f \<in> set (post_sweeps x)) \<or>
    (f < deadline \<and> (\<forall>x \<in> set os. \<not> post_fork x \<and> admitted x \<longrightarrow> op_end x \<le> f))"
proof -
  obtain out lp q where f: "foldl failsafe_step ([], zero_time, deadline) os = (out, lp, q)"
    by (cases "foldl failsafe_step ([], zero_time, deadline) os") auto
  have "fs = sort ((if \<not> is_zero lp \<and> lp < deadline then out @ [lp] else out) @ [deadline])"
    using assms(1) f by (auto simp: failsafes_def)
  with assms(2) foldl_failsafe_step [OF f] foldl_failsafe_last [OF f] show ?thesis
    by (auto split: if_splits)
qed

lemma profiles_post_windows:
  "map_of profiles name = Some p \<Longrightarrow> w \<in> set (p_windows p) \<Longrightarrow>
    (w_class w = ClassStraddle \<longrightarrow> w_anchor w = FromFork \<and> w_start w = - 120 \<and> w_end w = 60) \<and>
    (w_class w = ClassWindow \<longrightarrow> w_anchor w = FromFork \<and> w_start w = 300 \<and> w_end w = 450)"
  by (auto simp: profiles_def win_def split: if_splits)

lemma shipped_sweeps_outside:
  assumes p: "map_of profiles name = Some p"
    and ops: "list_all2 (resolves name genesis fork t 390) (enumerate 0 (p_windows p)) os"
    and fs: "failsafes os (fork - 390 * second) = (fs, quiet)"
  shows "check_failsafes os fs = None"
proof -
  define l where
    "l = (if is_zero (fork + 180 * second) then fork + 60 * second else fork + 180 * second)"
  have l: "l = fork + 60 * second \<or> l = fork + 180 * second" by (simp add: l_def)
  have shape: "(post_fork x \<longrightarrow>
      (op_start x = fork - 120 * second \<and> op_end x = fork + 60 * second \<and>
         latest x = l \<and> post_sweeps x = [l, l + 60 * second]) \<or>
      (op_start x = fork + 300 * second \<and> op_end x = fork + 450 * second \<and> latest x = op_end x \<and>
         post_sweeps x = [fork + 510 * second])) \<and>
     (\<not> post_fork x \<and> admitted x \<longrightarrow> latest x = op_end x \<and> op_end x \<le> fork - 390 * second) \<and>
     (\<not> post_fork x \<longrightarrow> post_sweeps x = [])"
    if "x \<in> set os" for x
  proof -
    from resolves_mem [OF ops that] obtain i w where
      w: "w \<in> set (p_windows p)" "resolves name genesis fork t 390 (i, w) x"
      by blast
    from w(2) have c: "op_class x = w_class w"
      "op_start x = window_base genesis fork w + w_start w * second"
      "op_end x = window_base genesis fork w + w_end w * second"
      "op_hold x = (if w_class w = ClassStraddle then op_end x + 120 * second else zero_time)"
      "admitted x \<longleftrightarrow> \<not> (pre_fork (w_class w) \<and> fork - 390 * second < op_end x)"
      by (simp_all add: resolves_def)
    note pw = profiles_post_windows [OF p w(1)]
    show ?thesis
    proof (cases "w_class w")
      case ClassStraddle
      with c pw show ?thesis
        by (auto simp: post_fork_def window_base_def latest_def post_sweeps_def second_def l_def is_zero_def)
    next
      case ClassWindow
      with c pw show ?thesis
        by (auto simp: post_fork_def window_base_def latest_def post_sweeps_def second_def is_zero_def)
    next
      case (ClassOther s)
      with w(2) show ?thesis by (auto simp: resolves_def)
    qed (use c in \<open>auto simp: post_fork_def pre_fork_def latest_def is_zero_def post_sweeps_def\<close>)
  qed
  show ?thesis
    unfolding check_failsafes_None
  proof (intro ballI impI)
    fix f x
    assume f: "f \<in> set fs" and x: "x \<in> set os" "admitted x"
    from failsafes_last_pre [OF fs f]
    consider "f = fork - 390 * second" | y where "y \<in> set os" "f \<in> set (post_sweeps y)" "post_fork y"
      | "f < fork - 390 * second" "\<forall>x \<in> set os. \<not> post_fork x \<and> admitted x \<longrightarrow> op_end x \<le> f"
      using shape by (metis list.set_cases list.distinct(1))
    then show "\<not> (op_start x \<le> f \<and> f < latest x)"
    proof cases
      case 1
      with shape [OF x(1)] x(2) show ?thesis by (auto simp: second_def)
    next
      case (2 y)
      with shape [OF x(1)] shape [OF 2(1)] x(2) l show ?thesis by (auto simp: second_def)
    next
      case 3
      with shape [OF x(1)] x show ?thesis by (force simp: second_def)
    qed
  qed
qed

lemma resolve_shipped:
  assumes "map_of profiles name = Some p" "0 < t_anchor t" "t_lights t \<noteq> []"
    "t_anchor t \<notin> set (t_lights t)" "int (length (t_lights t)) < t_participants t" "0 < t_slot t"
    and r: "resolve_windows name genesis fork t 390 0 (p_windows p)
       \<lparr>r_rotation = 0, r_pairs = 0, r_straddles = 0, r_ops = []\<rparr> = Inr r"
  shows "\<exists>s. resolve name genesis fork t = Inr s \<and> sc_ops s = r_ops r"
proof -
  obtain fs quiet where f: "failsafes (r_ops r) (fork - 390 * second) = (fs, quiet)"
    by (cases "failsafes (r_ops r) (fork - 390 * second)") auto
  have "list_all2 (resolves name genesis fork t 390) (enumerate 0 (p_windows p)) (r_ops r)"
    using resolve_windows_spec [OF r assms(3)] by simp
  from shipped_sweeps_outside [OF assms(1) this f]
  have "check_failsafes (r_ops r) fs = None" .
  with assms f profiles_cases [OF assms(1)] show ?thesis
    by (simp add: resolve_def)
qed

section \<open>The devnet's layout\<close>

definition devnet_topology :: topology where
  "devnet_topology =
     \<lparr>t_anchor = 1, t_lights = lights 5 1 [], t_participants = 5,
      t_anchor_share = fl (224 / 768), t_slot = 6\<rparr>"

lemma devnet_lights: "t_lights devnet_topology = [2, 3, 4, 5]"
  by (simp add: devnet_topology_def lights_def upto.simps)

lemma devnet_shares:
  "share devnet_topology 1 = Fin (5254199565265579 / 18014398509481984)"
  "p \<noteq> 1 \<Longrightarrow> share devnet_topology p = Fin (3190049736054101 / 18014398509481984)"
  by (simp_all add: share_def devnet_topology_def float_eval)

lemma float_constants:
  "one_third = Fin (6004799503160661 / 18014398509481984)"
  "two_thirds = Fin (6004799503160661 / 9007199254740992)"
  "straddleMargin = Fin (3602879701896397 / 72057594037927936)"
  by (simp_all add: one_third_def two_thirds_def straddleMargin_def float_eval)

lemma devnet_deep:
  "op_victims x = [a, b] \<Longrightarrow> a \<noteq> 1 \<Longrightarrow> b \<noteq> 1 \<Longrightarrow> admit_deep x devnet_topology = None"
  by (simp add: admit_deep_def devnet_shares float_constants) (simp add: float_eval)

text \<open>The shipped straddle, 120 s before to 60 s past the fork and held to 180 s, with
  6 s slots: its time bounds hold for every fork, so only the shares decide.\<close>

lemma shipped_straddle_admitted:
  assumes "op_victims x \<noteq> []" "op_mutual x" "op_start x = fork - 120 * second"
    "op_end x = fork + 60 * second" "op_hold x = fork + 180 * second" "t_slot t = 6"
    and sh: "\<not> fleq two_thirds (share t (t_anchor t))"
      "worst_share t (op_victims x) (Fin 0) = w"
      "\<not> fless (share t (t_anchor t)) (fadd w straddleMargin)"
      "\<not> fless (Fin 24) (fmul (Fin 30) w)" "\<not> fless (Fin 24) (fmul (Fin 50) w)"
  shows "admit_straddle x fork t = None"
proof -
  have l: "latest x = fork + 60 * second \<or> latest x = fork + 180 * second"
    using assms by (auto simp: latest_def)
  have d: "tsub (fork + a * second) (fork + b * second) = (a - b) * second"
    if "\<bar>a\<bar> < 1000" "\<bar>b\<bar> < 1000" for a b
    using that by (simp add: tsub_def go_defs)
  have s: "fseconds (180 * second) = Fin 180" "fseconds (300 * second) = Fin 300"
    using fseconds_whole [of 180] fseconds_whole [of 300] by simp_all
  have t: "tsub fork (op_start x) = 120 * second" "tsub (op_end x) fork = 60 * second"
    "tsub (latest x) fork = 60 * second \<or> tsub (latest x) fork = 180 * second"
    using d [of 0 "- 120"] d [of 60 0] d [of 180 0] assms l by auto
  have u: "tsub (latest x) (op_start x) = 180 * second \<or> tsub (latest x) (op_start x) = 300 * second"
    using d [of 60 "- 120"] d [of 180 "- 120"] assms l by auto
  define slots where "slots = go_div (ftrunc (fseconds (tsub (latest x) (op_start x)))) 6"
  have "slots = 30 \<or> slots = 50"
    using u s by (auto simp: go_div_def slots_def)
  moreover have "fof_int 24 = Fin 24" "fof_int 30 = Fin 30" "fof_int 50 = Fin 50"
    using fof_int_exact [of 24] fof_int_exact [of 30] fof_int_exact [of 50] by simp_all
  ultimately have "\<not> fless (fof_int 24) (fmul (fof_int slots) w)"
    using sh(4,5) by auto
  moreover have "\<not> straddleMaxAfter * second < tsub (latest x) fork"
    using t(3) by (auto simp: second_def)
  ultimately show ?thesis
    using assms t(1,2) by (simp add: admit_straddle_def Let_def second_def slots_def)
qed

lemma devnet_straddle:
  assumes "op_victims x = [2,3,4,5]" "op_mutual x" "op_start x = fork - 120 * second"
   "op_end x = fork + 60 * second" "op_hold x = fork + 180 * second"
  shows "admit_straddle x fork devnet_topology = None"
proof (rule shipped_straddle_admitted)
  show "t_slot devnet_topology = 6" by (simp add: devnet_topology_def)
  have a: "t_anchor devnet_topology = 1" by (simp add: devnet_topology_def)
  show "\<not> fleq two_thirds (share devnet_topology (t_anchor devnet_topology))"
    by (simp add: a devnet_shares float_constants)
  show "worst_share devnet_topology (op_victims x) (Fin 0) =
      Fin (3190049736054101 / 18014398509481984)"
    using assms by (simp add: devnet_shares)
  show "\<not> fless (share devnet_topology (t_anchor devnet_topology))
      (fadd (Fin (3190049736054101 / 18014398509481984)) straddleMargin)"
    by (simp add: a devnet_shares float_constants) (simp add: float_eval)
  show "\<not> fless (Fin 24) (fmul (Fin 30) (Fin (3190049736054101 / 18014398509481984)))"
    "\<not> fless (Fin 24) (fmul (Fin 50) (Fin (3190049736054101 / 18014398509481984)))"
    by (simp_all add: float_eval)
qed (use assms in simp_all)

definition nan_topology :: topology where
  "nan_topology = devnet_topology\<lparr>t_anchor_share := NaN\<rparr>"

lemma nan_lights: "t_lights nan_topology = [2, 3, 4, 5]" "t_anchor nan_topology = 1"
    "t_slot nan_topology = 6" "t_participants nan_topology = 5"
  by (simp_all add: nan_topology_def devnet_lights) (simp_all add: devnet_topology_def)

lemma nan_share: "share nan_topology p = NaN"
  by (simp add: share_def nan_topology_def)

lemma nan_deep: "op_victims x = [a, b] \<Longrightarrow> admit_deep x nan_topology = None"
  by (simp add: admit_deep_def nan_share)

lemma nan_straddle:
  assumes "op_victims x = [2,3,4,5]" "op_mutual x" "op_start x = fork - 120 * second"
   "op_end x = fork + 60 * second" "op_hold x = fork + 180 * second"
  shows "admit_straddle x fork nan_topology = None"
proof (rule shipped_straddle_admitted)
  show "worst_share nan_topology (op_victims x) (Fin 0) = Fin 0"
    using assms by (simp add: nan_share)
qed (use assms in \<open>simp_all add: nan_share nan_lights fl_def\<close>)

lemma nan_window:
  "op_victims x = [v] \<Longrightarrow> v \<noteq> 1 \<Longrightarrow> op_start x = fork + 300 * second \<Longrightarrow>
   op_end x = fork + 450 * second \<Longrightarrow> admit_window x fork nan_topology = None"
  by (simp add: admit_window_def tsub_def go_defs nan_lights)

lemma devnet_window:
  "op_victims x = [v] \<Longrightarrow> v \<noteq> 1 \<Longrightarrow> op_start x = fork + 300 * second \<Longrightarrow>
   op_end x = fork + 450 * second \<Longrightarrow> admit_window x fork devnet_topology = None"
  by (simp add: admit_window_def tsub_def go_defs devnet_topology_def)


lemma composite_ops:
  "\<exists>r. resolve_windows ''composite'' genesis fork devnet_topology 390 0
         (p_windows (the (map_of profiles ''composite'')))
         \<lparr>r_rotation = 0, r_pairs = 0, r_straddles = 0, r_ops = []\<rparr> = Inr r \<and>
       map op_victims (r_ops r) = [[2, 3], [3, 4], [2], [2, 3, 4, 5], [3]] "
  by (simp add: profiles_def win_def resolve_window_def devnet_lights devnet_deep devnet_straddle devnet_window Let_def)

lemma smoke_ops:
  "\<exists>r. resolve_windows ''composite-smoke'' genesis fork devnet_topology 390 0
         (p_windows (the (map_of profiles ''composite-smoke'')))
         \<lparr>r_rotation = 0, r_pairs = 0, r_straddles = 0, r_ops = []\<rparr> = Inr r \<and>
       map op_victims (r_ops r) = [[2], [2, 3, 4, 5]] "
  by (simp add: profiles_def win_def resolve_window_def devnet_lights devnet_straddle Let_def)

text \<open>C10: With the devnet's stake layout both shipped profiles resolve for every genesis
  and fork time, to the expected victims.\<close>

theorem devnet_schedules_resolve:
  "(\<exists>s. resolve ''composite'' genesis fork devnet_topology = Inr s \<and>
     map op_victims (sc_ops s) = [[2, 3], [3, 4], [2], [2, 3, 4, 5], [3]]) \<and>
   (\<exists>s. resolve ''composite-smoke'' genesis fork devnet_topology = Inr s \<and>
     map op_victims (sc_ops s) = [[2], [2, 3, 4, 5]])"
proof -
  have g: "0 < t_anchor devnet_topology" "t_lights devnet_topology \<noteq> []"
    "t_anchor devnet_topology \<notin> set (t_lights devnet_topology)"
    "int (length (t_lights devnet_topology)) < t_participants devnet_topology"
    "0 < t_slot devnet_topology"
    by (simp_all add: devnet_lights) (simp_all add: devnet_topology_def)
  have p: "map_of profiles ''composite'' = Some (the (map_of profiles ''composite''))"
    "map_of profiles ''composite-smoke'' = Some (the (map_of profiles ''composite-smoke''))"
    by (simp_all add: profiles_def)
  show ?thesis
    using composite_ops [of genesis fork] smoke_ops [of genesis fork]
      resolve_shipped [OF p(1) g] resolve_shipped [OF p(2) g] by metis
qed

lemma nan_ops:
  "\<exists>r. resolve_windows ''composite'' genesis fork nan_topology 390 0
         (p_windows (the (map_of profiles ''composite'')))
         \<lparr>r_rotation = 0, r_pairs = 0, r_straddles = 0, r_ops = []\<rparr> = Inr r"
  by (simp add: profiles_def win_def resolve_window_def nan_lights nan_deep nan_straddle nan_window Let_def)

text \<open>An anchor share of NaN, which the flag parser accepts, passes every stake check:
  no comparison with NaN refuses.\<close>

theorem nan_share_admitted:
  "\<exists>s. resolve ''composite'' genesis fork nan_topology = Inr s"
proof -
  have g: "0 < t_anchor nan_topology" "t_lights nan_topology \<noteq> []"
    "t_anchor nan_topology \<notin> set (t_lights nan_topology)"
    "int (length (t_lights nan_topology)) < t_participants nan_topology"
    "0 < t_slot nan_topology"
    by (simp_all add: nan_lights)
  have p: "map_of profiles ''composite'' = Some (the (map_of profiles ''composite''))"
    by (simp add: profiles_def)
  show ?thesis
    using nan_ops [of genesis fork] resolve_shipped [OF p g] by metis
qed

section \<open>What rounding can let through\<close>

definition exact_light_share :: "rat \<Rightarrow> int \<Rightarrow> rat" where
  "exact_light_share s n = (1 - s) / of_int (n - 1)"

lemma light_share_error:
  assumes "t_anchor_share t = Fin s" "0 \<le> s" "s \<le> 1" "3 \<le> t_participants t"
    "t_participants t < 2 ^ 53" "p \<noteq> t_anchor t"
  obtains c where "share t p = Fin c"
    "\<bar>c - exact_light_share s (t_participants t)\<bar> \<le> 2 * half_ulp" "\<bar>c\<bar> < 3 / 4"
proof -
  define n :: rat where "n = of_int (t_participants t - 1)"
  have n: "2 \<le> n" using assms(4) by (simp add: n_def)
  have N: "fof_int (t_participants t - 1) = Fin n"
    unfolding n_def by (rule fof_int_exact) (use assms(4,5) in simp)
  have h: "half_ulp \<le> 1 / 100" "0 \<le> half_ulp" by (simp_all add: half_ulp_def)
  obtain d where d: "fl (1 - s) = Fin d" "\<bar>d - (1 - s)\<bar> \<le> half_ulp"
    by (rule fl_below_2 [of "1 - s"]) (use assms(2,3) in auto)
  have dn: "\<bar>d / n\<bar> \<le> \<bar>d\<bar> / 2"
  proof -
    have "\<bar>d\<bar> * 2 \<le> \<bar>d\<bar> * n" by (rule mult_left_mono) (use n in simp_all)
    then show ?thesis using n by (simp add: abs_divide field_simps)
  qed
  moreover have "\<bar>d\<bar> < 3 / 2" using d(2) h assms(2,3) by linarith
  ultimately have "\<bar>d / n\<bar> < 1" by linarith
  then obtain c where c: "fl (d / n) = Fin c" "\<bar>c - d / n\<bar> \<le> half_ulp"
    by (rule_tac fl_below_2 [of "d / n"]) auto
  have "\<bar>d / n - (1 - s) / n\<bar> = \<bar>d - (1 - s)\<bar> / n"
    using n by (simp add: abs_divide flip: diff_divide_distrib)
  also have "\<dots> \<le> \<bar>d - (1 - s)\<bar>" using n by (simp add: divide_le_eq mult_le_cancel_left1)
  finally have e: "\<bar>d / n - (1 - s) / n\<bar> \<le> half_ulp" using d(2) by linarith
  have "share t p = Fin c"
    using assms(1,6) d(1) N n c(1) by (simp add: share_def fsub_def)
  moreover have "\<bar>c - exact_light_share s (t_participants t)\<bar> \<le> 2 * half_ulp"
    using c(2) e unfolding exact_light_share_def n_def [symmetric] by linarith
  moreover have "\<bar>c\<bar> < 3 / 4"
    using c(2) dn d(2) h assms(2,3) by linarith
  ultimately show thesis by (rule that)
qed

lemma float_constants_error:
  obtains k m where "one_third = Fin k" "1 / 3 - half_ulp \<le> k"
    "straddleMargin = Fin m" "1 / 20 - half_ulp \<le> m" "m < 1 / 10"
  by (rule that [OF float_constants(1) _ float_constants(3)]) (simp_all add: half_ulp_def)

text \<open>A pair of lights admitted as a deep island holds, in exact arithmetic, more than
  a third and less than half of the stake, up to \<open>7 * 2 ^ -53\<close>: the roundings cannot
  admit a pair that could win the heal by more than that.\<close>

theorem deep_pair_exact_stake:
  assumes "admit_deep x t = None" "op_victims x = [a, b]" "a \<noteq> t_anchor t" "b \<noteq> t_anchor t"
    and "t_anchor_share t = Fin s" "0 \<le> s" "s \<le> 1" "3 \<le> t_participants t"
    "t_participants t < 2 ^ 53"
  shows "1 / 3 - 7 * half_ulp < 2 * exact_light_share s (t_participants t) \<and>
    2 * exact_light_share s (t_participants t) < 1 / 2 + 7 * half_ulp"
proof -
  define q where "q = exact_light_share s (t_participants t)"
  have h: "half_ulp \<le> 1 / 100" "0 < half_ulp" by (simp_all add: half_ulp_def)
  obtain c where c: "share t a = Fin c" "\<bar>c - q\<bar> \<le> 2 * half_ulp" "\<bar>c\<bar> < 3 / 4"
    unfolding q_def by (rule light_share_error [OF assms(5-9) assms(3)])
  have "share t b = share t a" using assms(3,4) by (simp add: share_def)
  obtain c1 where c1: "fl c = Fin c1" "\<bar>c1 - c\<bar> \<le> half_ulp"
    by (rule fl_below_2 [of c]) (use c(3) in auto)
  obtain r where r: "fl (c1 + c) = Fin r" "\<bar>r - (c1 + c)\<bar> \<le> half_ulp"
    by (rule fl_below_2 [of "c1 + c"]) (use c(3) c1(2) h in linarith)+
  have sum: "sum_shares t (op_victims x) (Fin 0) = Fin r"
    using assms(2) c(1) c1(1) r(1) \<open>share t b = share t a\<close> by simp
  obtain k where k: "one_third = Fin k" "1 / 3 - half_ulp \<le> k"
    by (rule float_constants_error)
  from assms(1) sum have "\<not> fleq (Fin r) one_third" "\<not> fleq (Fin (1 / 2)) (Fin r)"
    by (auto simp: admit_deep_def Let_def split: if_splits)
  then have "k < r" "r < 1 / 2" unfolding k(1) by (simp_all only: fleq.simps not_le)
  with c(2) c1(2) r(2) k(2) h(2)
  have "1 / 3 - 7 * half_ulp < 2 * q" "2 * q < 1 / 2 + 7 * half_ulp" by linarith+
  then show ?thesis unfolding q_def [symmetric] by (rule conjI)
qed

text \<open>C11: In an admitted straddle the anchor outweighs every island, in exact arithmetic,
  by the 5% proposer-boost margin up to \<open>4 * 2 ^ -53\<close>.\<close>

theorem straddle_exact_margin:
  assumes "admit_straddle x fork t = None" "t_anchor t \<notin> set (op_victims x)"
    and "t_anchor_share t = Fin s" "0 \<le> s" "s \<le> 1" "3 \<le> t_participants t"
    "t_participants t < 2 ^ 53"
  shows "exact_light_share s (t_participants t) + 1 / 20 - 4 * half_ulp \<le> s"
proof -
  define q where "q = exact_light_share s (t_participants t)"
  have h: "half_ulp \<le> 1 / 100" "0 < half_ulp" by (simp_all add: half_ulp_def)
  have ok: "op_victims x \<noteq> []"
    "\<not> fless (share t (t_anchor t)) (fadd (worst_share t (op_victims x) (Fin 0)) straddleMargin)"
    using assms(1) by (auto simp: admit_straddle_def Let_def split: if_splits)
  then obtain v vs where v: "op_victims x = v # vs" by (cases "op_victims x") auto
  with assms(2) have va: "v \<noteq> t_anchor t" by auto
  obtain c where c: "share t v = Fin c" "\<bar>c - q\<bar> \<le> 2 * half_ulp" "\<bar>c\<bar> < 3 / 4"
    unfolding q_def by (rule light_share_error [OF assms(3-7) va])
  have all: "share t u = Fin c" if "u \<in> set (op_victims x)" for u
    using that assms(2) va c(1) by (auto simp: share_def)
  have "worst_share t us (Fin w) = Fin (if us = [] then w else max w c)"
    if "\<forall>u \<in> set us. share t u = Fin c" for us w
    using that by (induction us arbitrary: w) (auto simp: Let_def max_def)
  with all v have w: "worst_share t (op_victims x) (Fin 0) = Fin (max 0 c)" by auto
  obtain m where m: "straddleMargin = Fin m" "1 / 20 - half_ulp \<le> m" "m < 1 / 10"
    by (rule float_constants_error)
  obtain z where z: "fl (max 0 c + m) = Fin z" "\<bar>z - (max 0 c + m)\<bar> \<le> half_ulp"
    by (rule fl_below_2 [of "max 0 c + m"]) (use c(3) m h in \<open>auto simp: max_def\<close>)
  have "z \<le> s"
    using ok(2) assms(3) unfolding w m(1) fadd.simps z(1) by (simp add: share_def)
  with c(2) m(2) z(2) h(2) show ?thesis
    unfolding q_def [symmetric] by (simp add: max_def split: if_splits)
qed

section \<open>A schedule to read the theorems on\<close>

text \<open>The composite profile on the devnet, genesis at 0 and the fork half an hour later.\<close>

definition composite_shape :: "(op_class \<times> bool \<times> int list) list" where
  "composite_shape = [(ClassDeep, True, [2, 3]), (ClassDeep, True, [3, 4]), (ClassShort, True, [2]),
     (ClassStraddle, True, [2, 3, 4, 5]), (ClassWindow, True, [3])]"

lemma composite_at:
  obtains s where "resolve ''composite'' 0 (tunix 1800) devnet_topology = Inr s"
    "map (\<lambda>x. (op_class x, admitted x, op_victims x)) (sc_ops s) = composite_shape"
proof -
  have g: "0 < t_anchor devnet_topology" "t_lights devnet_topology \<noteq> []"
    "t_anchor devnet_topology \<notin> set (t_lights devnet_topology)"
    "int (length (t_lights devnet_topology)) < t_participants devnet_topology"
    "0 < t_slot devnet_topology"
    by (simp_all add: devnet_lights) (simp_all add: devnet_topology_def)
  have p: "map_of profiles ''composite'' = Some (the (map_of profiles ''composite''))"
    by (simp add: profiles_def)
  have "\<exists>r. resolve_windows ''composite'' 0 (tunix 1800) devnet_topology 390 0
         (p_windows (the (map_of profiles ''composite'')))
         \<lparr>r_rotation = 0, r_pairs = 0, r_straddles = 0, r_ops = []\<rparr> = Inr r \<and>
       map (\<lambda>x. (op_class x, admitted x, op_victims x)) (r_ops r) = composite_shape"
    by (simp add: composite_shape_def profiles_def win_def resolve_window_def devnet_lights devnet_deep
        devnet_straddle devnet_window Let_def admitted_def refusal_def tunix_def second_def)
  then obtain r where r: "resolve_windows ''composite'' 0 (tunix 1800) devnet_topology 390 0
         (p_windows (the (map_of profiles ''composite'')))
         \<lparr>r_rotation = 0, r_pairs = 0, r_straddles = 0, r_ops = []\<rparr> = Inr r"
       "map (\<lambda>x. (op_class x, admitted x, op_victims x)) (r_ops r) = composite_shape" by blast
  from resolve_shipped [OF p g r(1)] obtain s where
    "resolve ''composite'' 0 (tunix 1800) devnet_topology = Inr s" "sc_ops s = r_ops r" by blast
  with r(2) show thesis by (metis that)
qed

lemma composite_op:
  assumes "e \<in> set composite_shape"
  obtains s x where "resolve ''composite'' 0 (tunix 1800) devnet_topology = Inr s"
    "x \<in> set (sc_ops s)" "(op_class x, admitted x, op_victims x) = e"
proof -
  obtain s where s: "resolve ''composite'' 0 (tunix 1800) devnet_topology = Inr s"
    "map (\<lambda>x. (op_class x, admitted x, op_victims x)) (sc_ops s) = composite_shape"
    by (rule composite_at)
  from assms have "e \<in> set (map (\<lambda>x. (op_class x, admitted x, op_victims x)) (sc_ops s))"
    by (simp only: s(2))
  then obtain x where "x \<in> set (sc_ops s)" "(op_class x, admitted x, op_victims x) = e" by force
  with s(1) show thesis by (rule that)
qed

lemma composite_deep:
  obtains s x where "resolve ''composite'' 0 (tunix 1800) devnet_topology = Inr s"
    "x \<in> set (sc_ops s)" "admitted x" "op_class x = ClassDeep"
  by (rule composite_op [of "(ClassDeep, True, [2, 3])"]) (auto simp: composite_shape_def)

theorem resolve_refines_profile_witness:
  "\<exists>s p. resolve ''composite'' 0 (tunix 1800) devnet_topology = Inr s \<and>
    map_of profiles ''composite'' = Some p \<and>
    list_all2 (resolves ''composite'' 0 (tunix 1800) devnet_topology (p_margin p))
      (enumerate 0 (p_windows p)) (sc_ops s)"
proof -
  obtain s where "resolve ''composite'' 0 (tunix 1800) devnet_topology = Inr s" by (rule composite_at)
  with resolve_refines_profile [OF this] show ?thesis by blast
qed

theorem resolve_anchor_never_victim_witness:
  "\<exists>s. resolve ''composite'' 0 (tunix 1800) devnet_topology = Inr s \<and> sc_ops s \<noteq> [] \<and>
    t_anchor devnet_topology \<notin> set (op_victims (hd (sc_ops s)))"
proof -
  obtain s where s: "resolve ''composite'' 0 (tunix 1800) devnet_topology = Inr s"
    "map (\<lambda>x. (op_class x, admitted x, op_victims x)) (sc_ops s) = composite_shape" by (rule composite_at)
  then have "sc_ops s \<noteq> []" by (auto simp: composite_shape_def)
  with s(1) resolve_anchor_never_victim [OF s(1), of "hd (sc_ops s)"] show ?thesis by auto
qed

theorem resolve_prefork_margin_witness:
  "\<exists>s x. resolve ''composite'' 0 (tunix 1800) devnet_topology = Inr s \<and> x \<in> set (sc_ops s) \<and>
    admitted x \<and> op_class x = ClassDeep \<and> latest x + 390 * second \<le> tunix 1800"
proof -
  obtain s x where "resolve ''composite'' 0 (tunix 1800) devnet_topology = Inr s"
    "x \<in> set (sc_ops s)" "admitted x" "op_class x = ClassDeep" by (rule composite_deep)
  with resolve_prefork_margin [of "''composite''" 0 "tunix 1800" devnet_topology s x]
  show ?thesis by blast
qed

theorem resolve_every_op_swept_witness:
  "\<exists>s x. resolve ''composite'' 0 (tunix 1800) devnet_topology = Inr s \<and> x \<in> set (sc_ops s) \<and>
    admitted x \<and> op_class x = ClassDeep \<and> (\<exists>f \<in> set (sc_failsafes s). latest x \<le> f)"
proof -
  obtain s x where "resolve ''composite'' 0 (tunix 1800) devnet_topology = Inr s"
    "x \<in> set (sc_ops s)" "admitted x" "op_class x = ClassDeep" by (rule composite_deep)
  with resolve_every_op_swept [of "''composite''" 0 "tunix 1800" devnet_topology s x]
  show ?thesis by blast
qed

lemma composite_swept:
  obtains s x f where "resolve ''composite'' 0 (tunix 1800) devnet_topology = Inr s"
    "x \<in> set (sc_ops s)" "admitted x" "f \<in> set (sc_failsafes s)"
proof -
  obtain s x where s: "resolve ''composite'' 0 (tunix 1800) devnet_topology = Inr s"
    "x \<in> set (sc_ops s)" "admitted x" "op_class x = ClassDeep" by (rule composite_deep)
  obtain m where "failsafes (sc_ops s) m = (sc_failsafes s, sc_quiet s)"
    by (rule resolveE [OF s(1)]) blast
  then have "set (sc_failsafes s) \<noteq> {}" by (auto simp: failsafes_def split: prod.splits dest: arg_cong [of _ _ set])
  then obtain f where "f \<in> set (sc_failsafes s)" by (metis all_not_in_conv)
  with s show thesis by (intro that)
qed

theorem resolve_sweeps_outside_ops_witness:
  "\<exists>s x f. resolve ''composite'' 0 (tunix 1800) devnet_topology = Inr s \<and> x \<in> set (sc_ops s) \<and>
    admitted x \<and> f \<in> set (sc_failsafes s) \<and> (f < op_start x \<or> latest x \<le> f)"
proof -
  obtain s x f where "resolve ''composite'' 0 (tunix 1800) devnet_topology = Inr s"
    "x \<in> set (sc_ops s)" "admitted x" "f \<in> set (sc_failsafes s)" by (rule composite_swept)
  with resolve_sweeps_outside_ops [of "''composite''" 0 "tunix 1800" devnet_topology s f x]
  show ?thesis by blast
qed

theorem resolve_quiet_bounds_actions_witness:
  "\<exists>s. resolve ''composite'' 0 (tunix 1800) devnet_topology = Inr s \<and> actions s \<noteq> [] \<and>
    a_at (hd (actions s)) \<le> sc_quiet s"
proof -
  obtain s x f where s: "resolve ''composite'' 0 (tunix 1800) devnet_topology = Inr s"
    "f \<in> set (sc_failsafes s)" by (rule composite_swept)
  then have "actions s \<noteq> []" by (auto simp: actions_def Let_def dest: arg_cong [of _ _ length])
  with s(1) resolve_quiet_bounds_actions [OF s(1)] show ?thesis by auto
qed

theorem actions_start_before_end_witness:
  "\<exists>s x as bs cs. resolve ''composite'' 0 (tunix 1800) devnet_topology = Inr s \<and> x \<in> set (sc_ops s) \<and>
    actions s = as @ Action ActOpStart (op_start x) (Some x) # bs @ Action ActOpEnd (op_end x) (Some x) # cs"
proof -
  obtain s x where "resolve ''composite'' 0 (tunix 1800) devnet_topology = Inr s"
    "x \<in> set (sc_ops s)" "admitted x" "op_class x = ClassDeep" by (rule composite_deep)
  with actions_start_before_end [of "''composite''" 0 "tunix 1800" devnet_topology s x]
  show ?thesis by blast
qed

text \<open>A layout whose shares are exact: a quarter of the stake on the anchor.\<close>

definition quarter_topology :: topology where
  "quarter_topology = devnet_topology\<lparr>t_anchor_share := Fin (1 / 4)\<rparr>"

lemma quarter_fields:
  "t_anchor quarter_topology = 1" "t_anchor_share quarter_topology = Fin (1 / 4)"
  "t_participants quarter_topology = 5" "t_slot quarter_topology = 6"
  by (simp_all add: quarter_topology_def devnet_topology_def)

lemma quarter_shares:
  "share quarter_topology 1 = Fin (1 / 4)" "p \<noteq> 1 \<Longrightarrow> share quarter_topology p = Fin (3 / 16)"
  by (simp_all add: share_def quarter_fields float_eval)

definition quarter_op :: "op_class \<Rightarrow> int list \<Rightarrow> op" where
  "quarter_op c vs = \<lparr>op_name = ''x'', op_class = c, op_start = tunix 1680, op_end = tunix 1860,
     op_victims = vs, op_mutual = True, op_refused = None, op_hold = tunix 1980\<rparr>"

theorem deep_pair_exact_stake_witness:
  "1 / 3 - 7 * half_ulp < 2 * exact_light_share (1 / 4) 5"
proof -
  have "admit_deep (quarter_op ClassDeep [2, 3]) quarter_topology = None"
    by (simp add: admit_deep_def quarter_op_def quarter_shares float_constants) (simp add: float_eval)
  then show ?thesis
    using deep_pair_exact_stake [of "quarter_op ClassDeep [2, 3]" quarter_topology 2 3 "1 / 4"]
    by (simp add: quarter_fields quarter_op_def)
qed

theorem straddle_exact_margin_witness:
  "exact_light_share (1 / 4) 5 + 1 / 20 - 4 * half_ulp \<le> 1 / 4"
proof -
  let ?x = "quarter_op ClassStraddle [2, 3, 4, 5]"
  have "admit_straddle ?x (tunix 1800) quarter_topology = None"
  proof (rule shipped_straddle_admitted)
    show "worst_share quarter_topology (op_victims ?x) (Fin 0) = Fin (3 / 16)"
      by (simp add: quarter_op_def quarter_shares)
    show "\<not> fleq two_thirds (share quarter_topology (t_anchor quarter_topology))"
      by (simp add: quarter_fields quarter_shares float_constants)
    show "\<not> fless (share quarter_topology (t_anchor quarter_topology)) (fadd (Fin (3 / 16)) straddleMargin)"
      by (simp add: quarter_fields quarter_shares float_constants) (simp add: float_eval)
    show "\<not> fless (Fin 24) (fmul (Fin 30) (Fin (3 / 16)))" "\<not> fless (Fin 24) (fmul (Fin 50) (Fin (3 / 16)))"
      by (simp_all add: float_eval)
  qed (simp_all add: quarter_op_def quarter_fields tunix_def second_def)
  then show ?thesis
    using straddle_exact_margin [of ?x "tunix 1800" quarter_topology "1 / 4"]
    by (simp add: quarter_fields quarter_op_def)
qed



end
