(* ===== verification/Dump.thy ===== *)
theory Dump
  imports Schedule
begin

text \<open>
  \<open>internal/migsched/dump.go\<close>: the schedule as published in the chaos driver's JSONL, the
  deadlines and partition-free gaps its readers derive from it. \<open>json.Unmarshal\<close> is taken
  at its result: a decoded record or an error.
\<close>

record dump_op =
  do_name :: string
  do_class :: string
  do_start :: int
  do_end :: int
  do_hold :: int \<comment> \<open>0 when absent (\<open>omitempty\<close>)\<close>
  do_victims :: "int list"
  do_mutual :: bool
  do_refused :: "detail option"

record dump =
  du_profile :: string
  du_genesis :: int
  du_fork :: int
  du_anchor :: int
  du_slot_seconds :: int
  du_ops :: "dump_op list"
  du_failsafes :: "int list"
  du_quiet :: int

definition dump_latest :: "dump_op \<Rightarrow> int" where
  "dump_latest d = (if do_hold d \<noteq> 0 then do_hold d else do_end d)"

definition new_dump_op :: "op \<Rightarrow> dump_op" where
  "new_dump_op x =
     \<lparr>do_name = op_name x, do_class = class_string (op_class x), do_start = unix_of (op_start x),
      do_end = unix_of (op_end x),
      do_hold = (if \<not> is_zero (op_hold x) then unix_of (op_hold x) else 0),
      do_victims = op_victims x, do_mutual = op_mutual x, do_refused = op_refused x\<rparr>"

definition new_dump :: "schedule \<Rightarrow> gotime \<Rightarrow> gotime \<Rightarrow> int \<Rightarrow> dump" where
  "new_dump s genesis fork anchor =
     \<lparr>du_profile = sc_profile s, du_genesis = unix_of genesis, du_fork = unix_of fork,
      du_anchor = anchor, du_slot_seconds = sc_slot_seconds s,
      du_ops = map new_dump_op (sc_ops s), du_failsafes = map unix_of (sc_failsafes s),
      du_quiet = unix_of (sc_quiet s)\<rparr>"

datatype dump_error = BadJson string | NoProfileOrFork

definition parse_dump :: "string + dump \<Rightarrow> dump_error + dump" where
  "parse_dump decoded =
     (case decoded of
        Inl e \<Rightarrow> Inl (BadJson e)
      | Inr d \<Rightarrow> if du_profile d = '''' \<or> du_fork d = 0 then Inl NoProfileOrFork else Inr d)"

definition dump_admitted :: "dump \<Rightarrow> dump_op list" where
  "dump_admitted d = filter (\<lambda>x. do_refused x = None) (du_ops d)"

text \<open>One turn of \<open>HealDeadline\<close>'s loop; \<open>deadline\<close> starts at the fork itself.\<close>

definition deadline_step :: "gotime \<Rightarrow> gotime \<Rightarrow> int \<Rightarrow> gotime" where
  "deadline_step fork deadline f =
     (let t = tunix f
      in if \<not> fork < t \<and> deadline < t \<or> deadline = fork \<and> \<not> fork < t then t else deadline)"

definition heal_deadline :: "dump \<Rightarrow> dump_op \<Rightarrow> gotime" where
  "heal_deadline d x =
     (let c = class_of (do_class x)
      in if c = ClassStraddle \<or> c = ClassWindow
         then tunix (dump_latest x) + healConvergeAllowance * second
         else let fork = tunix (du_fork d) in foldl (deadline_step fork) fork (du_failsafes d))"

type_synonym interval = "gotime \<times> gotime"

text \<open>The gap loop: \<open>busy\<close> in order of start, \<open>cursor\<close> the first instant not yet
  accounted for; it returns early once the cursor has reached \<open>to\<close>.\<close>

fun gaps_loop :: "interval list \<Rightarrow> gotime \<Rightarrow> gotime \<Rightarrow> interval list" where
  "gaps_loop [] cursor hi = (if cursor < hi then [(cursor, hi)] else [])"
| "gaps_loop ((s, e) # bs) cursor hi =
     (if \<not> cursor < e then gaps_loop bs cursor hi
      else
        let gap = (if cursor < s then
                     let e' = (if hi < s then hi else s)
                     in if cursor < e' then [(cursor, e')] else []
                   else []);
            cursor' = (if cursor < e then e else cursor)
        in if \<not> cursor' < hi then gap else gap @ gaps_loop bs cursor' hi)"

definition busy_intervals :: "dump \<Rightarrow> interval list" where
  "busy_intervals d = map (\<lambda>x. (tunix (do_start x), tunix (dump_latest x))) (dump_admitted d)"

definition gaps :: "dump \<Rightarrow> gotime \<Rightarrow> gotime \<Rightarrow> interval list" where
  "gaps d lo hi = gaps_loop (sort_key fst (busy_intervals d)) lo hi"

definition contains :: "interval list \<Rightarrow> gotime \<Rightarrow> gotime \<Rightarrow> bool" where
  "contains gs start en \<longleftrightarrow> (\<exists>g \<in> set gs. \<not> start < fst g \<and> \<not> snd g < en)"

section \<open>Gaps\<close>

definition in_interval :: "gotime \<Rightarrow> interval \<Rightarrow> bool" where
  "in_interval t i \<longleftrightarrow> fst i \<le> t \<and> t < snd i"

definition gap_before :: "gotime \<Rightarrow> gotime \<Rightarrow> gotime \<Rightarrow> interval list" where
  "gap_before c s hi = (if c < s \<and> c < hi then [(c, min s hi)] else [])"

lemma gaps_loop_Cons:
  "\<not> c < e \<Longrightarrow> gaps_loop ((s, e) # bs) c hi = gaps_loop bs c hi"
  "c < e \<Longrightarrow> \<not> e < hi \<Longrightarrow> gaps_loop ((s, e) # bs) c hi = gap_before c s hi"
  "c < e \<Longrightarrow> e < hi \<Longrightarrow> gaps_loop ((s, e) # bs) c hi = gap_before c s hi @ gaps_loop bs e hi"
  by (auto simp: gap_before_def Let_def min_def)

lemma gap_before_mem:
  "(\<exists>g \<in> set (gap_before c s hi). in_interval t g) \<longleftrightarrow> c \<le> t \<and> t < hi \<and> t < s"
  by (auto simp: gap_before_def in_interval_def)

lemma gaps_loop_induct [case_names Nil behind last gap]:
  assumes "\<And>c hi. P [] c hi"
    and "\<And>s e bs c hi. \<not> c < e \<Longrightarrow> P bs c hi \<Longrightarrow> P ((s, e) # bs) c hi"
    and "\<And>s e bs c hi. c < e \<Longrightarrow> \<not> e < hi \<Longrightarrow> P ((s, e) # bs) c hi"
    and "\<And>s e bs c hi. c < e \<Longrightarrow> e < hi \<Longrightarrow> P bs e hi \<Longrightarrow> P ((s, e) # bs) c hi"
  shows "P bs c hi"
proof (induction bs arbitrary: c)
  case Nil
  show ?case by (rule assms(1))
next
  case (Cons b bs)
  obtain s e where b: "b = (s, e)" by (cases b)
  show ?case
    unfolding b using assms(2-4) [of c e] Cons.IH [of c] Cons.IH [of e] by blast
qed

lemma gaps_loop_mem:
  assumes "sorted (map fst bs)"
  shows "(\<exists>g \<in> set (gaps_loop bs c hi). in_interval t g) \<longleftrightarrow>
    c \<le> t \<and> t < hi \<and> (\<forall>b \<in> set bs. \<not> in_interval t b)"
  using assms
proof (induction bs c hi rule: gaps_loop_induct)
  case (Nil c hi)
  then show ?case by (auto simp: in_interval_def)
next
  case (behind s e bs c hi)
  then show ?case by (auto simp: gaps_loop_Cons(1) in_interval_def)
next
  case (last s e bs c hi)
  then have later: "t < s \<Longrightarrow> \<forall>b \<in> set bs. \<not> in_interval t b"
    by (fastforce simp: in_interval_def)
  have "(\<exists>g \<in> set (gaps_loop ((s, e) # bs) c hi). in_interval t g) \<longleftrightarrow> c \<le> t \<and> t < hi \<and> t < s"
    using last by (simp only: gaps_loop_Cons(2) gap_before_mem not_False_eq_True)
  with last later show ?case by (auto simp: in_interval_def)
next
  case (gap s e bs c hi)
  then have later: "t < s \<Longrightarrow> \<forall>b \<in> set bs. \<not> in_interval t b"
    by (fastforce simp: in_interval_def)
  have "(\<exists>g \<in> set (gaps_loop ((s, e) # bs) c hi). in_interval t g) \<longleftrightarrow>
      c \<le> t \<and> t < hi \<and> t < s \<or> (\<exists>g \<in> set (gaps_loop bs e hi). in_interval t g)"
    using gap(1,2) by (simp only: gaps_loop_Cons(3) gap_before_mem set_append bex_Un)
  with gap later show ?case by (auto simp: in_interval_def)
qed

lemma gaps_loop_bounds:
  "g \<in> set (gaps_loop bs c hi) \<Longrightarrow> c \<le> fst g \<and> fst g < snd g \<and> snd g \<le> hi"
proof (induction bs c hi rule: gaps_loop_induct)
  case (Nil c hi)
  then show ?case by (simp split: if_splits)
next
  case (behind s e bs c hi)
  then show ?case by (simp only: gaps_loop_Cons(1) not_False_eq_True)
next
  case (last s e bs c hi)
  then show ?case
    by (simp only: gaps_loop_Cons(2) not_False_eq_True) (auto simp: gap_before_def split: if_splits)
next
  case (gap s e bs c hi)
  from gap(4) have "g \<in> set (gap_before c s hi) \<or> g \<in> set (gaps_loop bs e hi)"
    using gap(1,2) by (simp only: gaps_loop_Cons(3) set_append Un_iff)
  with gap(1-3) show ?case by (auto simp: gap_before_def split: if_splits)
qed

text \<open>An interval that ends before it starts would make two gaps overlap.\<close>

lemma gaps_loop_order:
  assumes "\<forall>b \<in> set bs. fst b \<le> snd b"
  shows "sorted_wrt (\<lambda>g h. snd g \<le> fst h) (gaps_loop bs c hi)"
  using assms
proof (induction bs c hi rule: gaps_loop_induct)
  case (Nil c hi)
  then show ?case by simp
next
  case (behind s e bs c hi)
  then show ?case by (simp only: gaps_loop_Cons(1) not_False_eq_True) simp
next
  case (last s e bs c hi)
  then show ?case by (simp only: gaps_loop_Cons(2) not_False_eq_True) (simp add: gap_before_def)
next
  case (gap s e bs c hi)
  have "snd g \<le> fst h" if "g \<in> set (gap_before c s hi)" "h \<in> set (gaps_loop bs e hi)" for g h
    using that gap(4) gaps_loop_bounds [OF that(2)]
    by (auto simp: gap_before_def split: if_splits)
  moreover have "sorted_wrt (\<lambda>g h. snd g \<le> fst h) (gap_before c s hi)"
    by (simp add: gap_before_def)
  ultimately show ?case
    using gap by (simp only: gaps_loop_Cons(3) sorted_wrt_append) simp
qed

text \<open>The contract a client of the gaps relies on.\<close>

locale gap_source =
  fixes gaps_of :: "'d \<Rightarrow> gotime \<Rightarrow> gotime \<Rightarrow> interval list"
    and busy_at :: "'d \<Rightarrow> gotime \<Rightarrow> bool"
    and ordered :: "'d \<Rightarrow> bool"
  assumes gap_instants: "(\<exists>g \<in> set (gaps_of d lo hi). in_interval t g) \<longleftrightarrow>
      lo \<le> t \<and> t < hi \<and> \<not> busy_at d t"
    and gap_bounds: "g \<in> set (gaps_of d lo hi) \<Longrightarrow> lo \<le> fst g \<and> fst g < snd g \<and> snd g \<le> hi"
    and gap_order: "ordered d \<Longrightarrow> sorted_wrt (\<lambda>g h. snd g \<le> fst h) (gaps_of d lo hi)"
begin

lemma inside_gap_free:
  "contains (gaps_of d lo hi) a b \<Longrightarrow> a \<le> t \<Longrightarrow> t < b \<Longrightarrow> \<not> busy_at d t"
  by (meson contains_def gap_instants in_interval_def linorder_not_less order_less_le_trans order_trans)

lemma first_gap_free:
  assumes "gaps_of d lo hi = g # gs" "lo \<le> t" "t < snd g" "\<not> lo < fst g"
  shows "\<not> busy_at d t"
proof -
  have "in_interval t g" using assms by (simp add: in_interval_def)
  with assms(1) gap_instants [of d lo hi t] show ?thesis by auto
qed

lemma first_gap_late:
  assumes "gaps_of d lo hi = g # gs" "lo \<le> t" "t < fst g" "ordered d"
  shows "busy_at d t"
proof -
  have "t < hi" using assms gap_bounds [of g d lo hi] by auto
  moreover have "\<not> in_interval t h" if "h \<in> set (g # gs)" for h
    using that assms gap_order [of d lo hi] gap_bounds [of g d lo hi]
    by (auto simp: in_interval_def)
  ultimately show ?thesis using assms gap_instants [of d lo hi t] by (metis)
qed

lemma no_gap_busy: "gaps_of d lo hi = [] \<Longrightarrow> lo \<le> t \<Longrightarrow> t < hi \<Longrightarrow> busy_at d t"
  using gap_instants [of d lo hi t] by auto

end

text \<open>An instant is busy when an admitted op of the dump may hold a partition then.\<close>

definition dump_busy :: "dump \<Rightarrow> gotime \<Rightarrow> bool" where
  "dump_busy d t \<longleftrightarrow>
     (\<exists>x \<in> set (dump_admitted d). tunix (do_start x) \<le> t \<and> t < tunix (dump_latest x))"

text \<open>No admitted op ends before it starts.\<close>

definition dump_ordered :: "dump \<Rightarrow> bool" where
  "dump_ordered d \<longleftrightarrow> (\<forall>x \<in> set (dump_admitted d). do_start x \<le> dump_latest x)"

interpretation dump_gaps: gap_source gaps dump_busy dump_ordered
proof
  fix d lo hi t
  have "sorted (map fst (sort_key fst (busy_intervals d)))" by simp
  from gaps_loop_mem [OF this, of lo hi t]
  show "(\<exists>g \<in> set (gaps d lo hi). in_interval t g) \<longleftrightarrow> lo \<le> t \<and> t < hi \<and> \<not> dump_busy d t"
    by (auto simp: gaps_def busy_intervals_def dump_busy_def in_interval_def)
next
  fix g d lo hi
  show "g \<in> set (gaps d lo hi) \<Longrightarrow> lo \<le> fst g \<and> fst g < snd g \<and> snd g \<le> hi"
    unfolding gaps_def by (rule gaps_loop_bounds)
next
  fix d lo hi
  assume "dump_ordered d"
  then show "sorted_wrt (\<lambda>g h. snd g \<le> fst h) (gaps d lo hi)"
    unfolding gaps_def by (intro gaps_loop_order) (auto simp: busy_intervals_def dump_ordered_def)
qed

text \<open>C12: The gaps are exactly the instants of the queried span that no admitted partition
  may occupy, the span being half open.\<close>

theorem gaps_exact:
  "(\<exists>g \<in> set (gaps d lo hi). fst g \<le> t \<and> t < snd g) \<longleftrightarrow>
     lo \<le> t \<and> t < hi \<and>
     \<not> (\<exists>x \<in> set (dump_admitted d). tunix (do_start x) \<le> t \<and> t < tunix (dump_latest x))"
  using dump_gaps.gap_instants [of d lo hi t] by (simp add: in_interval_def dump_busy_def)

text \<open>The order in which ties of the (unstable) sort come out does not matter: every
  list of the busy intervals sorted by start has the same gap instants.\<close>

theorem gaps_tie_independent:
  assumes "mset bs = mset (busy_intervals d)" "sorted (map fst bs)"
  shows "(\<exists>g \<in> set (gaps_loop bs lo hi). in_interval t g) \<longleftrightarrow>
    (\<exists>g \<in> set (gaps d lo hi). in_interval t g)"
proof -
  have "set bs = set (busy_intervals d)" using assms(1) by (metis set_mset_mset)
  with gaps_loop_mem [OF assms(2)] gaps_loop_mem [of "sort_key fst (busy_intervals d)"]
  show ?thesis by (simp add: gaps_def)
qed

section \<open>Heal deadlines\<close>

lemma foldl_deadline:
  assumes "sorted fs" "\<forall>f \<in> set fs. dl \<le> tunix f \<or> dl = fork" "dl \<le> fork"
  shows "foldl (deadline_step fork) dl fs =
    (if \<exists>f \<in> set fs. tunix f \<le> fork then tunix (Max {f \<in> set fs. tunix f \<le> fork}) else dl)"
  using assms
proof (induction fs arbitrary: dl)
  case Nil
  then show ?case by simp
next
  case (Cons f fs)
  show ?case
  proof (cases "tunix f \<le> fork")
    case True
    with Cons.prems have step: "deadline_step fork dl f = tunix f"
      by (auto simp: deadline_step_def Let_def)
    from Cons.prems(1) have s: "sorted fs" "\<forall>g \<in> set fs. f \<le> g" by auto
    have IH: "foldl (deadline_step fork) (tunix f) fs =
      (if \<exists>g \<in> set fs. tunix g \<le> fork then tunix (Max {g \<in> set fs. tunix g \<le> fork}) else tunix f)"
      by (rule Cons.IH) (use s True in auto)
    have "{g \<in> set (f # fs). tunix g \<le> fork} = insert f {g \<in> set fs. tunix g \<le> fork}"
      using True by auto
    moreover have "Max (insert f {g \<in> set fs. tunix g \<le> fork}) = Max {g \<in> set fs. tunix g \<le> fork}"
      if ne: "\<exists>g \<in> set fs. tunix g \<le> fork"
    proof -
      from ne have "{g \<in> set fs. tunix g \<le> fork} \<noteq> {}" by auto
      moreover from this have "f \<le> Max {g \<in> set fs. tunix g \<le> fork}"
        using s(2) by (subst Max_ge_iff) auto
      ultimately show ?thesis by (subst Max_insert) auto
    qed
    moreover have "{g \<in> set fs. tunix g \<le> fork} = {}" if "\<not> (\<exists>g \<in> set fs. tunix g \<le> fork)"
      using that by auto
    ultimately have "Max {g \<in> set (f # fs). tunix g \<le> fork} =
        (if \<exists>g \<in> set fs. tunix g \<le> fork then Max {g \<in> set fs. tunix g \<le> fork} else f)"
      by (cases "\<exists>g \<in> set fs. tunix g \<le> fork") (simp_all add: Max_singleton)
    with IH step True show ?thesis by auto
  next
    case False
    then have step: "deadline_step fork dl f = dl" by (auto simp: deadline_step_def Let_def)
    have "{g \<in> set (f # fs). tunix g \<le> fork} = {g \<in> set fs. tunix g \<le> fork}"
      using False by auto
    with Cons.IH [of dl] Cons.prems step False show ?thesis by auto
  qed
qed

text \<open>With its sweeps in ascending order, as a schedule publishes them, a pre-fork op's
  heal deadline is the last sweep at or before the fork, and the fork when there is none;
  a straddle or window op's is 120 s past its own latest heal.\<close>

theorem heal_deadline_spec:
  assumes "sorted (du_failsafes d)"
  shows "heal_deadline d x =
    (if do_class x = ''straddle'' \<or> do_class x = ''window''
     then tunix (dump_latest x + 120)
     else if \<exists>f \<in> set (du_failsafes d). f \<le> du_fork d
     then tunix (Max {f \<in> set (du_failsafes d). f \<le> du_fork d})
     else tunix (du_fork d))"
proof -
  have "class_of c = ClassStraddle \<longleftrightarrow> c = ''straddle''" "class_of c = ClassWindow \<longleftrightarrow> c = ''window''" for c
    by (auto simp: class_of_def)
  with foldl_deadline [OF assms, of "tunix (du_fork d)" "tunix (du_fork d)"] show ?thesis
    by (simp add: heal_deadline_def Let_def) (simp add: tunix_def second_def)
qed

theorem heal_deadline_spec_witness:
  "heal_deadline \<lparr>du_profile = ''composite'', du_genesis = 0, du_fork = 1800, du_anchor = 1,
     du_slot_seconds = 6, du_ops = [], du_failsafes = [940, 1410, 1980], du_quiet = 2400\<rparr>
   \<lparr>do_name = ''a'', do_class = ''deep'', do_start = 240, do_end = 430, do_hold = 0,
    do_victims = [2, 3], do_mutual = False, do_refused = None\<rparr> = tunix 1410"
proof -
  have "{f. (f = 940 \<or> f = 1410 \<or> f = 1980) \<and> f \<le> (1800 :: int)} = {940, 1410}" by auto
  then show ?thesis by (subst heal_deadline_spec) (simp_all cong: conj_cong)
qed

text \<open>Publication loses nothing a reader uses: for a schedule whose instants are whole
  seconds (with a hold past the epoch), the published op has the same span, latest heal,
  class and admission as the op that runs.\<close>

theorem new_dump_op_faithful:
  assumes "op_start x = tunix a" "op_end x = tunix b" "op_hold x = zero_time \<or> op_hold x = tunix c \<and> 0 < c"
  shows "tunix (do_start (new_dump_op x)) = op_start x \<and> tunix (do_end (new_dump_op x)) = op_end x \<and>
    tunix (dump_latest (new_dump_op x)) = latest x \<and>
    (do_refused (new_dump_op x) = None \<longleftrightarrow> admitted x) \<and>
    ((\<forall>s. op_class x \<noteq> ClassOther s) \<longrightarrow> class_of (do_class (new_dump_op x)) = op_class x)"
proof -
  have z: "zero_time = tunix (- 62135596800)" by (simp add: zero_time_def tunix_def second_def)
  have "dump_latest (new_dump_op x) = unix_of (latest x)"
    using assms(3) by (auto simp: new_dump_op_def dump_latest_def latest_def is_zero_def z)
  moreover have "\<exists>k. latest x = tunix k"
    using assms by (auto simp: latest_def is_zero_def)
  moreover have "class_of (do_class (new_dump_op x)) = op_class x"
    if "\<forall>s. op_class x \<noteq> ClassOther s"
    using that by (cases "op_class x") (simp_all add: new_dump_op_def class_of_def)
  ultimately show ?thesis
    using assms(1,2) by (auto simp: new_dump_op_def admitted_def)
qed

theorem new_dump_op_faithful_witness:
  "tunix (dump_latest (new_dump_op \<lparr>op_name = ''x'', op_class = ClassStraddle, op_start = tunix 1680,
     op_end = tunix 1860, op_victims = [2, 3], op_mutual = True, op_refused = None,
     op_hold = tunix 1980\<rparr>)) = tunix 1980"
  using new_dump_op_faithful [of "\<lparr>op_name = ''x'', op_class = ClassStraddle, op_start = tunix 1680,
     op_end = tunix 1860, op_victims = [2, 3], op_mutual = True, op_refused = None,
     op_hold = tunix 1980\<rparr>" 1680 1860 1980]
  by (simp add: latest_def is_zero_def zero_time_def tunix_def second_def)

end
