(* ===== verification/Events.thy ===== *)
theory Events
  imports Prelude
begin

text \<open>
  The vocabulary of \<open>internal/migmon\<close>: event kinds and findings with their thresholds
  (\<open>events.go\<close>, \<open>findings.go\<close>), progress reports and their cursors (\<open>progress.go\<close>), block
  headers, and erigon's progress mapped onto the shared shape (\<open>client.go\<close>).
  An event's time is stamped when it is written (\<open>Log.Emit\<close>), so the pure logic's events
  carry none; its raw payload repeats the report it was made from and is left out.
\<close>

section \<open>Events and findings\<close>

datatype ev_kind =
    EvProgress | EvSample | EvReorg | EvIStar | EvHead | EvCritical | EvWarn
  | EvIStarReorged | EvIStarFinal | EvLifecycle
  | EvSchedule | EvIsolate | EvHeal | EvPause | EvSkip | EvInject

datatype finding =
    NoFinding | FindingRootMismatch | FindingStall | FindingBoundary | FindingNoConvergence
  | FindingPeerStarved | FindingNullWarn | FindingNullCritical

record event =
  ev_kind :: ev_kind
  ev_node :: string
  ev_number :: u64
  ev_hash :: string
  ev_roots :: "(string \<times> string) list"
  ev_phase :: string
  ev_detail :: detail
  ev_finding :: finding
  ev_plan :: bool

text \<open>An event with the fields a composite literal leaves out at their zero values.\<close>

definition mk_event :: "ev_kind \<Rightarrow> string \<Rightarrow> detail \<Rightarrow> event" where
  "mk_event k node d =
     \<lparr>ev_kind = k, ev_node = node, ev_number = 0, ev_hash = '''', ev_roots = [],
      ev_phase = '''', ev_detail = d, ev_finding = NoFinding, ev_plan = False\<rparr>"

lemma mk_event_simps [simp]:
  "ev_kind (mk_event k n d) = k" "ev_node (mk_event k n d) = n" "ev_detail (mk_event k n d) = d"
  "ev_finding (mk_event k n d) = NoFinding" "ev_number (mk_event k n d) = 0"
  "ev_hash (mk_event k n d) = ''''" "ev_plan (mk_event k n d) = False"
  by (simp_all add: mk_event_def)

abbreviation "StallPolls \<equiv> (20 :: nat)"
abbreviation "StallHeadDelta \<equiv> (10 :: u64)"
abbreviation "BoundaryPolls \<equiv> (2 :: nat)"
abbreviation "BoundaryBlocks \<equiv> (3 :: u64)"
abbreviation "SampleDepthMin \<equiv> (3 :: nat)"
abbreviation "SampleDepthMax \<equiv> (16 :: nat)"
abbreviation "NullWarnAfterMinutes \<equiv> (5 :: int)"
abbreviation "NullCriticalAfterMinutes \<equiv> (10 :: int)"
abbreviation "ConvergenceGrace \<equiv> (120 :: int)"
abbreviation "IStarProvisionalGrace \<equiv> (360 :: int)"

definition SplitGrace :: duration where
  [go_defs]: "SplitGrace = 12 * minute"

section \<open>Cursors\<close>

text \<open>\<open>FlexUint64.UnmarshalJSON\<close> on the bytes of a JSON token: quotes trimmed, null or
  empty is 0, a \<open>0x\<close> prefix selects base 16.\<close>

definition trim_quotes :: "string \<Rightarrow> string" where
  "trim_quotes s = rev (dropWhile (\<lambda>c. c = CHR 34) (rev (dropWhile (\<lambda>c. c = CHR 34) s)))"

definition hex_digit_of :: "char \<Rightarrow> nat option" where
  "hex_digit_of c =
     (let k = of_char c :: nat
      in if 48 \<le> k \<and> k \<le> 57 then Some (k - 48)
         else if 97 \<le> k \<and> k \<le> 102 then Some (k - 87)
         else if 65 \<le> k \<and> k \<le> 70 then Some (k - 55) else None)"

definition hex_char :: "char \<Rightarrow> bool" where
  "hex_char c \<longleftrightarrow> hex_digit_of c \<noteq> None"

fun read_hex :: "nat \<Rightarrow> string \<Rightarrow> nat option" where
  "read_hex acc [] = Some acc"
| "read_hex acc (c # cs) =
     (case hex_digit_of c of None \<Rightarrow> None | Some d \<Rightarrow> read_hex (16 * acc + d) cs)"

definition to_u64 :: "nat option \<Rightarrow> u64 option" where
  "to_u64 v = (case v of None \<Rightarrow> None | Some n \<Rightarrow> if n < 2 ^ 64 then Some (of_nat n) else None)"

definition parse_uint_dec :: "string \<Rightarrow> u64 option" where
  "parse_uint_dec s = (if s = [] then None else to_u64 (read_digits 0 s))"

definition parse_uint_hex :: "string \<Rightarrow> u64 option" where
  "parse_uint_hex s = (if s = [] then None else to_u64 (read_hex 0 s))"

definition has_hex_prefix :: "string \<Rightarrow> bool" where
  "has_hex_prefix s \<longleftrightarrow> take 2 s = ''0x'' \<or> take 2 s = ''0X''"

datatype flex_error = BadHexCursor string | BadCursor string

definition flex_decode :: "string \<Rightarrow> flex_error + u64" where
  "flex_decode tok =
     (let s = trim_quotes tok
      in if s = ''null'' \<or> s = [] then Inr 0
         else if has_hex_prefix s then
           (case parse_uint_hex (drop 2 s) of None \<Rightarrow> Inl (BadHexCursor s) | Some v \<Rightarrow> Inr v)
         else (case parse_uint_dec s of None \<Rightarrow> Inl (BadCursor s) | Some v \<Rightarrow> Inr v))"

section \<open>Progress reports\<close>

record direction =
  dp_phase :: string
  dp_cursor :: u64
  dp_cursor_hash :: string
  dp_shadow_root :: string
  dp_error :: string

record progress =
  mp_phase :: string
  mp_binary :: "direction option"
  mp_merkle :: "direction option"

abbreviation "DirIdle \<equiv> ''idle''"
abbreviation "DirFollowing \<equiv> ''following''"
abbreviation "DirSynced \<equiv> ''synced''"
abbreviation "DirParked \<equiv> ''parked''"
abbreviation "DirStalled \<equiv> ''stalled''"
abbreviation "PhaseInactive \<equiv> ''inactive''"
abbreviation "PhaseRunning \<equiv> ''running''"
abbreviation "PhaseDone \<equiv> ''done''"

datatype progress_error = BadPayload string | NoPhase

definition decode_progress :: "string + progress \<Rightarrow> progress_error + progress" where
  "decode_progress decoded =
     (case decoded of
        Inl e \<Rightarrow> Inl (BadPayload e)
      | Inr p \<Rightarrow> if mp_phase p = '''' then Inl NoPhase else Inr p)"

definition active :: "direction option \<Rightarrow> bool" where
  "active d = (case d of None \<Rightarrow> False | Some x \<Rightarrow> dp_phase x = DirFollowing \<or> dp_phase x = DirSynced)"

record header =
  h_number :: u64
  h_hash :: string
  h_parent :: string
  h_root :: string
  h_time :: u64

section \<open>Erigon's progress\<close>

record erigon_migration =
  em_mode :: string
  em_activation :: "u64 option"
  em_flipped :: bool
  em_shadow_stopped :: bool

definition dir0 :: "string \<Rightarrow> direction" where
  "dir0 phase =
     \<lparr>dp_phase = phase, dp_cursor = 0, dp_cursor_hash = '''', dp_shadow_root = '''', dp_error = ''''\<rparr>"

definition erigon_progress ::
  "erigon_migration \<Rightarrow> header option \<Rightarrow> header option \<Rightarrow> string \<Rightarrow> progress"
where
  "erigon_progress m head finalized shadow =
     (case (em_activation m, head) of
        (Some act, Some h) \<Rightarrow>
          if em_mode m \<noteq> ''hex+bin'' then \<lparr>mp_phase = PhaseInactive, mp_binary = None, mp_merkle = None\<rparr>
          else
            let phase = (case finalized of
                  None \<Rightarrow> PhaseRunning
                | Some f \<Rightarrow> if act \<le> h_time f then PhaseDone else PhaseRunning);
                live = \<lparr>dp_phase = DirSynced, dp_cursor = h_number h, dp_cursor_hash = h_hash h,
                        dp_shadow_root = shadow, dp_error = ''''\<rparr>;
                live' = (if em_shadow_stopped m
                         then live\<lparr>dp_phase := DirStalled,
                                   dp_error := ''shadow commitment domain stopped''\<rparr>
                         else live)
            in if em_shadow_stopped m \<and> em_flipped m \<and> phase = PhaseDone then
                 \<lparr>mp_phase = phase, mp_binary = Some (dir0 DirParked), mp_merkle = None\<rparr>
               else if \<not> em_flipped m then
                 \<lparr>mp_phase = phase, mp_binary = Some live', mp_merkle = None\<rparr>
               else \<lparr>mp_phase = phase, mp_binary = Some (dir0 DirParked), mp_merkle = Some live'\<rparr>
      | _ \<Rightarrow> \<lparr>mp_phase = PhaseInactive, mp_binary = None, mp_merkle = None\<rparr>)"

text \<open>\<open>erigonClient.Progress\<close> after its three reads succeeded: the latch and the report.\<close>

definition erigon_report :: "bool \<Rightarrow> progress \<Rightarrow> bool \<times> progress" where
  "erigon_report latched p =
     (if mp_phase p = PhaseDone \<or> latched then (True, p\<lparr>mp_phase := PhaseDone\<rparr>) else (latched, p))"

fun erigon_reports :: "bool \<Rightarrow> progress list \<Rightarrow> progress list" where
  "erigon_reports latched [] = []"
| "erigon_reports latched (p # ps) =
     (let (latched', q) = erigon_report latched p in q # erigon_reports latched' ps)"

section \<open>Theorems\<close>

definition quoted :: "string \<Rightarrow> string" where
  "quoted s = CHR 34 # s @ [CHR 34]"

lemma trim_quotes_quoted:
  assumes "s \<noteq> []" "hd s \<noteq> CHR 34" "last s \<noteq> CHR 34"
  shows "trim_quotes (quoted s) = s" "trim_quotes s = s"
proof -
  obtain c cs where s: "s = c # cs" using assms(1) by (cases s) auto
  have "rev s \<noteq> []" "hd (rev s) = last s" using assms(1) by (simp_all add: hd_rev)
  then obtain d ds where r: "rev s = d # ds" "d \<noteq> CHR 34"
    using assms(3) by (cases "rev s") auto
  from assms(2) s have d: "dropWhile (\<lambda>c. c = CHR 34) (s @ t) = s @ t" for t by simp
  have "dropWhile (\<lambda>c. c = CHR 34) (rev s) = rev s" using r by simp
  with d [of "[]"] d [of "[CHR 34]"]
  show "trim_quotes (quoted s) = s" "trim_quotes s = s"
    by (simp_all add: trim_quotes_def quoted_def)
qed

lemma digit_char_range: "d < 10 \<Longrightarrow> of_char (digit_char d) = 48 + d"
  by (simp add: digit_char_def)

lemma show_nat_digits: "\<forall>c \<in> set (show_nat n). \<exists>d < 10. c = digit_char d"
proof (induction n rule: show_nat.induct)
  case (1 n)
  have "\<exists>d < 10. digit_char (n mod 10) = digit_char d" by (intro exI [of _ "n mod 10"]) simp
  moreover have "n < 10 \<Longrightarrow> \<exists>d < 10. digit_char n = digit_char d" by blast
  ultimately show ?case using 1 by (subst show_nat.simps) (auto simp del: show_nat.simps)
qed

lemma digit_char_neq: "d < 10 \<Longrightarrow> of_char c > (57 :: nat) \<or> of_char c < (48 :: nat) \<Longrightarrow> digit_char d \<noteq> c"
  using digit_char_range [of d] by auto

text \<open>A cursor written in decimal, bare or quoted, reads back as itself over the whole
  range of \<open>uint64\<close>, and a larger number is an error rather than a wrapped value.\<close>

theorem flex_decode_decimal:
  "flex_decode (show_nat n) = flex_decode (quoted (show_nat n)) \<and>
   flex_decode (show_nat n) =
     (if n < 2 ^ 64 then Inr (of_nat n) else Inl (BadCursor (show_nat n)))"
proof -
  let ?s = "show_nat n"
  have dig: "\<exists>d < 10. c = digit_char d" if "c \<in> set ?s" for c using that show_nat_digits by blast
  have no: "x \<notin> set ?s" if "of_char x > (57 :: nat) \<or> of_char x < (48 :: nat)" for x
    using dig digit_char_neq [OF _ that] by metis
  have q: "CHR 34 \<notin> set ?s" by (rule no) simp
  have ne: "?s \<noteq> []" by simp
  with q have "hd ?s \<noteq> CHR 34" "last ?s \<noteq> CHR 34" by (metis hd_in_set, metis last_in_set)
  note t = trim_quotes_quoted [OF ne this]
  have "CHR ''x'' \<notin> set ?s" "CHR ''X'' \<notin> set ?s" "CHR ''n'' \<notin> set ?s"
    by (rule no, simp)+
  then have "\<not> has_hex_prefix ?s" "?s \<noteq> ''null''"
    unfolding has_hex_prefix_def by (metis in_set_takeD list.set_intros)+
  with t ne show ?thesis
    by (auto simp: flex_decode_def parse_uint_dec_def read_digits_show_nat to_u64_def)
qed

text \<open>Erigon's report is stalled exactly when its shadow fold stopped outside
  retirement, the binary direction parks exactly after the flip, and the phase is done
  exactly when the finalized block is at or past activation.\<close>

theorem erigon_progress_spec:
  assumes "em_mode m = ''hex+bin''" "em_activation m = Some act" "head = Some h"
  shows "(mp_phase (erigon_progress m head fin shadow) = PhaseDone \<longleftrightarrow>
      (\<exists>f. fin = Some f \<and> act \<le> h_time f)) \<and>
    (em_flipped m \<longleftrightarrow> map_option dp_phase (mp_binary (erigon_progress m head fin shadow)) = Some DirParked) \<and>
    ((\<exists>d. (mp_binary (erigon_progress m head fin shadow) = Some d \<or>
           mp_merkle (erigon_progress m head fin shadow) = Some d) \<and> dp_phase d = DirStalled) \<longleftrightarrow>
      em_shadow_stopped m \<and>
      \<not> (em_flipped m \<and> mp_phase (erigon_progress m head fin shadow) = PhaseDone))"
  using assms by (auto simp: erigon_progress_def Let_def dir0_def split: option.splits)

theorem erigon_progress_spec_witness:
  "mp_phase (erigon_progress \<lparr>em_mode = ''hex+bin'', em_activation = Some 5, em_flipped = True,
      em_shadow_stopped = True\<rparr>
    (Some \<lparr>h_number = 9, h_hash = ''a'', h_parent = ''b'', h_root = ''c'', h_time = 9\<rparr>)
    (Some \<lparr>h_number = 7, h_hash = ''d'', h_parent = ''e'', h_root = ''f'', h_time = 7\<rparr>) ''s'')
   = PhaseDone"
  using erigon_progress_spec
    [of "\<lparr>em_mode = ''hex+bin'', em_activation = Some 5, em_flipped = True, em_shadow_stopped = True\<rparr>"
        5 "Some \<lparr>h_number = 9, h_hash = ''a'', h_parent = ''b'', h_root = ''c'', h_time = 9\<rparr>"
        "\<lparr>h_number = 9, h_hash = ''a'', h_parent = ''b'', h_root = ''c'', h_time = 9\<rparr>"
        "Some \<lparr>h_number = 7, h_hash = ''d'', h_parent = ''e'', h_root = ''f'', h_time = 7\<rparr>" "''s''"]
  by simp

lemma erigon_reports_latched: "q \<in> set (erigon_reports True ps) \<Longrightarrow> mp_phase q = PhaseDone"
  by (induction ps) (auto simp: erigon_report_def)

text \<open>Done latches: once erigon has reported done, every later report is done, whatever
  the finalized read of that poll returned.\<close>

theorem erigon_done_latches:
  "erigon_reports l (ps @ p # qs) = rs \<Longrightarrow> mp_phase (rs ! length ps) = PhaseDone \<Longrightarrow>
    \<forall>q \<in> set (drop (length ps) rs). mp_phase q = PhaseDone"
proof (induction ps arbitrary: l rs)
  case Nil
  then have l: "l \<or> mp_phase p = PhaseDone"
    by (auto simp: erigon_report_def split: if_splits)
  then have "rs = p\<lparr>mp_phase := PhaseDone\<rparr> # erigon_reports True qs"
    using Nil.prems(1) by (auto simp: erigon_report_def)
  then show ?case by (auto dest: erigon_reports_latched)
next
  case (Cons q ps)
  obtain l' r where "erigon_report l q = (l', r)" by (cases "erigon_report l q") auto
  with Cons.prems(1) have "rs = r # erigon_reports l' (ps @ p # qs)" by auto
  with Cons.IH [of l'] Cons.prems(2) show ?case by auto
qed

end
