(* ===== verification/Registry.thy ===== *)
theory Registry
  imports Events "HOL-Library.Multiset"
begin

text \<open>
  Execution clients as the monitor knows them: the evidence contract of each implementation
  and its lookup by service name (\<open>internal/migmon/registry.go\<close>), the implementation a
  service name carries and the adapter chosen for it (\<open>client.go\<close>), and the rebuilding of
  the execution mesh (\<open>repeer.go\<close>). A Go map is ranged over in an unspecified order, so the
  lookup takes the order as an argument. The RPC transport is a parameter: the answers of
  \<open>NodeInfo\<close> and \<open>AddPeer\<close> are functions.
\<close>

section \<open>The registry\<close>

record client_spec =
  introspects :: bool
  reorg_log_pattern :: string
  serves_orphans :: bool
  forbidden_window_log :: string
  retires_shadow :: bool

definition no_spec :: client_spec where
  "no_spec = \<lparr>introspects = False, reorg_log_pattern = '''', serves_orphans = False,
     forbidden_window_log = '''', retires_shadow = False\<rparr>"

text \<open>A backslash followed by the rest of the pattern.\<close>

abbreviation esc :: "string \<Rightarrow> string" where
  "esc s \<equiv> CHR 0x5C # s"

definition geth_spec :: client_spec where
  "geth_spec = \<lparr>introspects = True,
     reorg_log_pattern =
       ''Chain reorg detected.*'' @ esc ''bnumber=(?P<ancestor>'' @ esc ''d+).*'' @
       esc ''bdrop=(?P<drop>'' @ esc ''d+)'',
     serves_orphans = True, forbidden_window_log = ''migration window'', retires_shadow = True\<rparr>"

definition erigon_spec :: client_spec where
  "erigon_spec = \<lparr>introspects = True,
     reorg_log_pattern =
       ''Unwind Execution.*'' @ esc ''bfrom=(?P<from>'' @ esc ''d+).*'' @
       esc ''bto=(?P<to>'' @ esc ''d+)'',
     serves_orphans = True, forbidden_window_log = '''', retires_shadow = False\<rparr>"

definition besu_spec :: client_spec where
  "besu_spec = \<lparr>introspects = False,
     reorg_log_pattern =
       ''Chain Reorganization '' @ esc ''+'' @ esc ''d+ new / -(?P<drop>'' @ esc ''d+) old'',
     serves_orphans = True, forbidden_window_log = '''', retires_shadow = False\<rparr>"

definition nethermind_spec :: client_spec where
  "nethermind_spec = \<lparr>introspects = True, reorg_log_pattern = '''',
     serves_orphans = True, forbidden_window_log = '''', retires_shadow = True\<rparr>"

definition registry :: "(string \<times> client_spec) list" where
  "registry = [(''geth'', geth_spec), (''erigon'', erigon_spec), (''besu'', besu_spec),
     (''nethermind'', nethermind_spec)]"

text \<open>\<open>strings.Contains\<close>.\<close>

fun str_contains :: "string \<Rightarrow> string \<Rightarrow> bool" where
  "str_contains s k = (take (length k) s = k \<or> (case s of [] \<Rightarrow> False | _ # t \<Rightarrow> str_contains t k))"

declare str_contains.simps [simp del]

lemma str_contains_rec:
  "str_contains [] k \<longleftrightarrow> k = []"
  "str_contains (c # t) k \<longleftrightarrow> take (length k) (c # t) = k \<or> str_contains t k"
  by (subst str_contains.simps; auto)+

definition spec_for :: "(string \<times> client_spec) list \<Rightarrow> string \<Rightarrow> client_spec \<times> bool" where
  "spec_for order node =
     (case List.find (\<lambda>e. str_contains node (fst e)) order of
        None \<Rightarrow> (no_spec, False)
      | Some (_, spec) \<Rightarrow> (spec, True))"

lemma registry_distinct: "distinct (map snd registry)" "no_spec \<notin> snd ` set registry"
  by (simp_all add: registry_def geth_spec_def erigon_spec_def besu_spec_def nethermind_spec_def
      no_spec_def)

lemma spec_for_unique:
  assumes "mset ord = mset registry" "e \<in> set registry" "str_contains node (fst e)"
    and u: "\<forall>e' \<in> set registry. str_contains node (fst e') \<longrightarrow> e' = e"
  shows "spec_for ord node = (snd e, True)"
proof -
  have s: "set ord = set registry" using assms(1) by (rule mset_eq_setD)
  have "List.find (\<lambda>e. str_contains node (fst e)) ord \<noteq> None"
    using s assms(2,3) unfolding find_None_iff by blast
  then obtain e' where e': "List.find (\<lambda>e. str_contains node (fst e)) ord = Some e'" by auto
  then have "e' \<in> set ord" "str_contains node (fst e')"
    by (auto simp: find_Some_iff split: prod.splits)
  with u s have "e' = e" by blast
  with e' show ?thesis by (simp add: spec_for_def split: prod.splits)
qed

text \<open>The lookup by service name answers the same whatever order Go ranges over the
  registry in exactly when at most one registry key occurs in the name; a name carrying two
  keys is answered by the iteration order.\<close>

theorem spec_for_order_independent:
  "(\<forall>ord ord'. mset ord = mset registry \<and> mset ord' = mset registry \<longrightarrow>
      spec_for ord node = spec_for ord' node) \<longleftrightarrow>
   length (filter (\<lambda>e. str_contains node (fst e)) registry) \<le> 1"
proof
  assume l: "\<forall>ord ord'. mset ord = mset registry \<and> mset ord' = mset registry \<longrightarrow>
      spec_for ord node = spec_for ord' node"
  show "length (filter (\<lambda>e. str_contains node (fst e)) registry) \<le> 1"
  proof (rule ccontr)
    assume "\<not> ?thesis"
    then obtain a b fs where f: "filter (\<lambda>e. str_contains node (fst e)) registry = a # b # fs"
      by (metis One_nat_def Suc_le_mono le0 length_Cons list.exhaust list.size(3))
    then have "set (filter (\<lambda>e. str_contains node (fst e)) registry) = {a, b} \<union> set fs" by simp
    then have m: "a \<in> set registry" "b \<in> set registry" "str_contains node (fst a)" "str_contains node (fst b)"
      by auto
    have "distinct (map snd (filter (\<lambda>e. str_contains node (fst e)) registry))"
      by (intro distinct_map_filter registry_distinct)
    with f have ne: "snd a \<noteq> snd b" by auto
    let ?o = "\<lambda>x. x # remove1 x registry"
    have "mset (?o a) = mset registry" "mset (?o b) = mset registry" using m by simp_all
    with l have "spec_for (?o a) node = spec_for (?o b) node" by blast
    with m ne show False by (simp add: spec_for_def split: prod.splits)
  qed
next
  assume le: "length (filter (\<lambda>e. str_contains node (fst e)) registry) \<le> 1"
  show "\<forall>ord ord'. mset ord = mset registry \<and> mset ord' = mset registry \<longrightarrow>
      spec_for ord node = spec_for ord' node"
  proof (cases "filter (\<lambda>e. str_contains node (fst e)) registry")
    case Nil
    then have none: "\<forall>e \<in> set registry. \<not> str_contains node (fst e)" by (simp add: filter_empty_conv)
    have "spec_for ord node = (no_spec, False)" if "mset ord = mset registry" for ord
    proof -
      from that have "set ord = set registry" by (rule mset_eq_setD)
      with none have "List.find (\<lambda>e. str_contains node (fst e)) ord = None"
        by (fastforce simp: find_None_iff)
      then show ?thesis by (simp add: spec_for_def)
    qed
    then show ?thesis by simp
  next
    case (Cons e fs)
    with le have "filter (\<lambda>e. str_contains node (fst e)) registry = [e]" by simp
    then have "set (filter (\<lambda>e. str_contains node (fst e)) registry) = {e}" by simp
    then have "e \<in> set registry" "str_contains node (fst e)"
      "\<forall>e' \<in> set registry. str_contains node (fst e') \<longrightarrow> e' = e" by auto
    then have "spec_for ord node = (snd e, True)" if "mset ord = mset registry" for ord
      using that spec_for_unique by blast
    then show ?thesis by simp
  qed
qed

theorem spec_for_order_independent_witness:
  "spec_for registry ''el-1-geth-lighthouse'' = spec_for (rev registry) ''el-1-geth-lighthouse''"
proof -
  have "length (filter (\<lambda>e. str_contains ''el-1-geth-lighthouse'' (fst e)) registry) \<le> 1"
    by (simp add: registry_def str_contains_rec)
  then show ?thesis
    by (rule spec_for_order_independent [THEN iffD2, rule_format]) (simp only: mset_rev simp_thms)
qed

section \<open>Service names\<close>

text \<open>\<open>strings.Split\<close> on a one-byte separator.\<close>

fun split_on :: "char \<Rightarrow> string \<Rightarrow> string list" where
  "split_on sep [] = [[]]"
| "split_on sep (c # cs) =
     (if c = sep then [] # split_on sep cs
      else (case split_on sep cs of p # ps \<Rightarrow> (c # p) # ps | [] \<Rightarrow> [[c]]))"

definition client_type :: "string \<Rightarrow> string" where
  "client_type service =
     (let parts = split_on (CHR ''-'') service
      in if 3 \<le> length parts \<and> parts ! 0 = ''el'' then parts ! 2 else '''')"

datatype adapter = PlainRpc | ErigonClient | NoIntrospection

definition new_client :: "string \<Rightarrow> adapter" where
  "new_client service =
     (if client_type service = ''geth'' \<or> client_type service = ''nethermind'' then PlainRpc
      else if client_type service = ''erigon'' then ErigonClient else NoIntrospection)"

lemma split_on_ne [simp]: "split_on sep s \<noteq> []"
  by (cases s) (auto split: list.splits)

lemma split_on_append:
  "sep \<notin> set p \<Longrightarrow> split_on sep (p @ sep # s) = p # split_on sep s"
  by (induction p) auto

lemma split_on_no_sep: "sep \<notin> set s \<Longrightarrow> split_on sep s = [s]"
  by (induction s) auto

lemma split_on_concat:
  "\<forall>p \<in> set (split_on sep s). sep \<notin> set p"
  by (induction s) (auto split: list.splits)

text \<open>A service name \<open>el-<index>-<execution>-<consensus>\<close> yields its execution
  implementation whatever follows it, and the adapter introspects exactly the three
  implementations the registry marks as introspecting.\<close>

theorem client_type_of_service:
  assumes "CHR ''-'' \<notin> set idx" "CHR ''-'' \<notin> set exec"
  shows "client_type (''el-'' @ idx @ ''-'' @ exec @ CHR ''-'' # rest) = exec \<and>
    client_type (''el-'' @ idx @ ''-'' @ exec) = exec \<and>
    (new_client (''el-'' @ idx @ ''-'' @ exec @ CHR ''-'' # rest) \<noteq> NoIntrospection \<longleftrightarrow>
      (\<exists>spec. (exec, spec) \<in> set registry \<and> introspects spec))"
proof -
  have s1: "split_on (CHR ''-'') (''el-'' @ idx @ ''-'' @ exec @ CHR ''-'' # rest)
      = ''el'' # idx # exec # split_on (CHR ''-'') rest"
    using assms split_on_append [of "CHR ''-''" exec rest]
      split_on_append [of "CHR ''-''" idx "exec @ CHR ''-'' # rest"] by simp
  have s2: "split_on (CHR ''-'') (''el-'' @ idx @ ''-'' @ exec) = [''el'', idx, exec]"
    using assms split_on_no_sep [of "CHR ''-''" exec]
      split_on_append [of "CHR ''-''" idx exec] by simp
  have "client_type (''el-'' @ idx @ ''-'' @ exec @ CHR ''-'' # rest) = exec"
    unfolding client_type_def Let_def s1 by (simp add: Suc_le_eq)
  moreover have "client_type (''el-'' @ idx @ ''-'' @ exec) = exec"
    unfolding client_type_def Let_def s2 by simp
  ultimately show ?thesis
    by (auto simp: new_client_def registry_def geth_spec_def erigon_spec_def besu_spec_def
        nethermind_spec_def)
qed

theorem client_type_of_service_witness:
  "client_type ''el-2-erigon-lighthouse'' = ''erigon''"
  using client_type_of_service [of "''2''" "''erigon''" "''lighthouse''"] by simp

section \<open>Rebuilding the mesh\<close>

text \<open>\<open>Repeer\<close>: every client's enode is read first and one failure aborts; then every
  ordered pair is dialled, a failure collected and the rest still tried. The first component
  is the dials made, the second the error if any.\<close>

datatype repeer_error = NodeInfoFailed nat string | Incomplete "(nat \<times> nat \<times> string) list"

fun read_enodes :: "(nat \<Rightarrow> string + string) \<Rightarrow> nat list \<Rightarrow> repeer_error + string list" where
  "read_enodes info [] = Inr []"
| "read_enodes info (i # is) =
     (case info i of
        Inl e \<Rightarrow> Inl (NodeInfoFailed i e)
      | Inr en \<Rightarrow> (case read_enodes info is of Inl e \<Rightarrow> Inl e | Inr es \<Rightarrow> Inr (en # es)))"

definition dials :: "string list \<Rightarrow> (nat \<times> nat) list" where
  "dials enodes =
     concat (map (\<lambda>i. map (Pair i)
        (filter (\<lambda>j. \<not> (i = j \<or> enodes ! j = '''')) [0..<length enodes])) [0..<length enodes])"

definition repeer ::
  "nat \<Rightarrow> (nat \<Rightarrow> string + string) \<Rightarrow> (nat \<Rightarrow> string \<Rightarrow> string option) \<Rightarrow>
     (nat \<times> nat) list \<times> repeer_error option"
where
  "repeer n info add_peer =
     (case read_enodes info [0..<n] of
        Inl e \<Rightarrow> ([], Some e)
      | Inr enodes \<Rightarrow>
          let ds = dials enodes;
              failed = concat (map (\<lambda>(i, j). case add_peer i (enodes ! j) of
                                      None \<Rightarrow> [] | Some e \<Rightarrow> [(i, j, e)]) ds)
          in (ds, if failed \<noteq> [] then Some (Incomplete failed) else None))"

lemma read_enodes_ok: "read_enodes info is = Inr es \<longleftrightarrow> map info is = map Inr es"
proof (induction "is" arbitrary: es)
  case (Cons i "is")
  show ?case
  proof (cases "info i")
    case (Inr en)
    then show ?thesis
    proof (cases "read_enodes info is")
      case (Inl e)
      then have "map info is \<noteq> map Inr fs" for fs using Cons.IH by (metis sum.distinct(1))
      then show ?thesis using Inl Inr by (auto simp: Cons_eq_map_conv)
    next
      case r: (Inr fs)
      then have "map info is = map Inr fs" using Cons.IH by simp
      then show ?thesis using Inr r by (cases es) (auto simp: inj_map_eq_map)
    qed
  qed (auto simp: Cons_eq_map_conv)
qed auto

lemma set_dials:
  "set (dials es) = {(i, j). i < length es \<and> j < length es \<and> i \<noteq> j \<and> es ! j \<noteq> ''''}"
  by (auto simp: dials_def)

text \<open>Re-peering succeeds exactly when every client gave its enode and every dial was
  accepted, and in every case where the enodes were read each client is dialled to each other
  client that has one, a refused dial stopping none of the rest.\<close>

theorem repeer_complete:
  "(snd (repeer n info add) = None \<longleftrightarrow>
      (\<forall>i < n. \<exists>en. info i = Inr en) \<and>
      (\<forall>i < n. \<forall>j < n. i \<noteq> j \<longrightarrow> info j \<noteq> Inr '''' \<longrightarrow> add i (projr (info j)) = None)) \<and>
   ((\<forall>i < n. \<exists>en. info i = Inr en) \<longrightarrow>
      set (fst (repeer n info add)) = {(i, j). i < n \<and> j < n \<and> i \<noteq> j \<and> info j \<noteq> Inr ''''})"
proof (cases "read_enodes info [0..<n]")
  case (Inl e)
  have "\<not> (\<forall>i < n. \<exists>en. info i = Inr en)"
  proof
    assume "\<forall>i < n. \<exists>en. info i = Inr en"
    then have "read_enodes info [0..<n] = Inr (map (\<lambda>i. projr (info i)) [0..<n])"
      unfolding read_enodes_ok by auto
    with Inl show False by simp
  qed
  with Inl show ?thesis by (auto simp: repeer_def)
next
  case (Inr es)
  then have es: "length es = n" "\<forall>k < n. info k = Inr (es ! k)" 
    unfolding read_enodes_ok by (auto simp: list_eq_iff_nth_eq)
  show ?thesis
    using es Inr by (auto simp: repeer_def Let_def set_dials split: option.splits; fastforce)
qed

theorem repeer_complete_witness:
  "snd (repeer 2 (\<lambda>i. Inr (show_nat i)) (\<lambda>_ _. None)) = None \<and>
   set (fst (repeer 2 (\<lambda>i. Inr (show_nat i)) (\<lambda>_ _. None))) = {(0, 1), (1, 0)}"
proof -
  have "{(i, j). i < 2 \<and> j < (2 :: nat) \<and> i \<noteq> j} = {(0, 1), (1, 0)}" by auto
  then show ?thesis
    using repeer_complete [of 2 "\<lambda>i. Inr (show_nat i)" "\<lambda>_ _. None"] by simp
qed

end
