(* ===== verification/Watch.thy ===== *)
theory Watch
  imports Prelude
begin

text \<open>
  The grace-period watch several components share: a condition is polled, the first poll of an
  episode in which it holds is remembered, and the episode is reported once, at the first poll
  later than a grace period. The interface states what one poll does; the lemma says which
  polls of any run report, in terms of the polls alone.
\<close>

text \<open>The times of the current episode, newest first, of a history of (time, condition).\<close>

definition episode :: "(gotime \<times> bool) list \<Rightarrow> gotime list" where
  "episode past = map fst (takeWhile snd past)"

definition first_late :: "(gotime \<Rightarrow> gotime \<Rightarrow> bool) \<Rightarrow> gotime list \<Rightarrow> bool" where
  "first_late late ts \<longleftrightarrow> ts \<noteq> [] \<and> late (hd ts) (last ts) \<and> (\<forall>t \<in> set (tl ts). \<not> late t (last ts))"

lemma episode_simps [simp]:
  "episode [] = []" "episode ((t, False) # past) = []" "episode ((t, True) # past) = t # episode past"
  by (simp_all add: episode_def)

text \<open>A run: each entry holds the poll's time, its condition, whether it reported and the
  state after it.\<close>

fun chain :: "('s \<Rightarrow> gotime \<Rightarrow> bool \<Rightarrow> bool \<Rightarrow> 's \<Rightarrow> bool) \<Rightarrow> 's \<Rightarrow> (gotime \<times> bool \<times> bool \<times> 's) list \<Rightarrow> bool" where
  "chain obs s [] \<longleftrightarrow> True"
| "chain obs s ((now, c, f, s') # tr) \<longleftrightarrow> obs s now c f s' \<and> chain obs s' tr"

definition polls_of :: "(gotime \<times> bool \<times> bool \<times> 's) list \<Rightarrow> (gotime \<times> bool) list" where
  "polls_of tr = map (\<lambda>(now, c, _). (now, c)) tr"

lemma polls_of_simps [simp]:
  "polls_of [] = []" "polls_of ((now, c, f, s) # tr) = (now, c) # polls_of tr"
  by (simp_all add: polls_of_def)

locale grace_watch =
  fixes since :: "'s \<Rightarrow> gotime"
    and fired :: "'s \<Rightarrow> bool"
    and late :: "gotime \<Rightarrow> gotime \<Rightarrow> bool"
    and inv :: "'s \<Rightarrow> bool"
    and obs :: "'s \<Rightarrow> gotime \<Rightarrow> bool \<Rightarrow> bool \<Rightarrow> 's \<Rightarrow> bool"
  assumes inv_step: "inv s \<Longrightarrow> obs s now c f s' \<Longrightarrow> inv s'"
    and clears: "inv s \<Longrightarrow> obs s now False f s' \<Longrightarrow> \<not> f \<and> since s' = zero_time \<and> \<not> fired s'"
    and holds: "inv s \<Longrightarrow> obs s now True f s' \<Longrightarrow>
      since s' = (if since s = zero_time then now else since s) \<and>
      f = (\<not> fired s \<and> late now (since s')) \<and> fired s' = (fired s \<or> f)"
begin

definition watches :: "'s \<Rightarrow> (gotime \<times> bool) list \<Rightarrow> bool" where
  "watches s past \<longleftrightarrow> inv s \<and>
     (case episode past of
        [] \<Rightarrow> since s = zero_time \<and> \<not> fired s
      | ts \<Rightarrow> since s = last ts \<and> since s \<noteq> zero_time \<and> fired s = (\<exists>t \<in> set ts. late t (last ts)))"

lemma watches_step:
  assumes "watches s past" "obs s now c f s'" "now \<noteq> zero_time"
  shows "watches s' ((now, c) # past) \<and> f = first_late late (episode ((now, c) # past))"
proof (cases c)
  case False
  with assms have i: "inv s" "obs s now False f s'" by (auto simp: watches_def)
  from clears [OF i] inv_step [OF i] False show ?thesis
    by (simp add: watches_def first_late_def)
next
  case True
  with assms have i: "inv s" "obs s now True f s'" by (auto simp: watches_def)
  from holds [OF i] inv_step [OF i] True assms(1,3) show ?thesis
    by (cases "episode past") (auto simp: watches_def first_late_def split: if_splits)
qed

lemma watches_chain:
  "chain obs s tr \<Longrightarrow> watches s past \<Longrightarrow> \<forall>e \<in> set tr. fst e \<noteq> zero_time \<Longrightarrow> k < length tr \<Longrightarrow>
    fst (snd (snd (tr ! k))) = first_late late (episode (rev (take (Suc k) (polls_of tr)) @ past))"
proof (induction tr arbitrary: s past k)
  case (Cons e tr)
  obtain now c f s' where e: "e = (now, c, f, s')" by (metis prod.exhaust)
  have st: "watches s' ((now, c) # past) \<and> f = first_late late (episode ((now, c) # past))"
    using Cons.prems e by (intro watches_step) auto
  show ?case
  proof (cases k)
    case 0
    with st e show ?thesis by simp
  next
    case (Suc j)
    with Cons.IH [of s' "(now, c) # past" j] Cons.prems st e show ?thesis by simp
  qed
qed simp

lemma reports:
  assumes "chain obs s tr" "inv s" "since s = zero_time" "\<not> fired s"
    and "\<forall>e \<in> set tr. fst e \<noteq> zero_time" "k < length tr"
  shows "fst (snd (snd (tr ! k))) = first_late late (episode (rev (take (Suc k) (polls_of tr))))"
  using watches_chain [of s tr "[]" k] assms by (simp add: watches_def)

end

end
