(* ===== verification/Timeline.thy ===== *)
theory Timeline
  imports Events Watch
begin

text \<open>
  One node's migration state machine across polls and the cross-node fork-block quorum
  (\<open>internal/migmon/timeline.go\<close>). \<open>dir_observe\<close>, \<open>observe_istar\<close>, \<open>istar_reorged\<close>,
  \<open>istar_finalized\<close>, \<open>reset_stall\<close> and \<open>observe_poll\<close> are the code's methods, each returning
  the new state and the events it emits. The quorum's maps are HOL maps; where the code ranges
  over one, the order it meets the nodes in is an argument.
\<close>

section \<open>State\<close>

record dir_state =
  ds_immediate_fired :: bool
  ds_spanning :: bool
  ds_cursor :: u64
  ds_frozen :: nat
  ds_span_head :: u64
  ds_slow_fired :: bool

definition dir_state0 :: dir_state where
  "dir_state0 = \<lparr>ds_immediate_fired = False, ds_spanning = False, ds_cursor = 0, ds_frozen = 0,
     ds_span_head = 0, ds_slow_fired = False\<rparr>"

record istar =
  is_number :: u64
  is_hash :: string
  is_time :: u64
  is_parent_time :: u64

record timeline =
  tl_node :: string
  tl_t :: u64
  tl_polls :: nat
  tl_istar :: "istar option"
  tl_istar_final :: bool
  tl_istar_polls :: nat
  tl_boundary_ok :: bool
  tl_boundary_hit :: bool
  tl_done_early :: bool
  tl_binary :: dir_state
  tl_merkle :: dir_state

definition new_timeline :: "string \<Rightarrow> u64 \<Rightarrow> timeline" where
  "new_timeline node t =
     \<lparr>tl_node = node, tl_t = t, tl_polls = 0, tl_istar = None, tl_istar_final = False,
      tl_istar_polls = 0, tl_boundary_ok = False, tl_boundary_hit = False, tl_done_early = False,
      tl_binary = dir_state0, tl_merkle = dir_state0\<rparr>"

definition crit :: "string \<Rightarrow> finding \<Rightarrow> u64 \<Rightarrow> detail \<Rightarrow> event" where
  "crit node f n d = (mk_event EvCritical node d)\<lparr>ev_finding := f, ev_number := n\<rparr>"

definition du :: "u64 \<Rightarrow> darg" where
  "du w = DI (uint w)"

section \<open>Stalls\<close>

text \<open>\<open>dirState.observe\<close>: the immediate form, latched until its condition clears, then the
  slow form over the span of polls the cursor has held.\<close>

definition immediate :: "direction option \<Rightarrow> bool" where
  "immediate d = (case d of None \<Rightarrow> False | Some x \<Rightarrow> dp_phase x = DirStalled \<or> dp_error x \<noteq> '''')"

definition stall_immediate ::
  "dir_state \<Rightarrow> string \<Rightarrow> string \<Rightarrow> direction option \<Rightarrow> dir_state \<times> event list"
where
  "stall_immediate s node dir d =
     (if immediate d then
        if ds_immediate_fired s then (s, [])
        else (s\<lparr>ds_immediate_fired := True\<rparr>,
              [crit node FindingStall 0
                 (Fmt ''%s direction phase %s error %q''
                    [DS dir, DS (dp_phase (the d)), DS (dp_error (the d))])])
      else (s\<lparr>ds_immediate_fired := False\<rparr>, []))"

definition stall_slow ::
  "dir_state \<Rightarrow> string \<Rightarrow> string \<Rightarrow> direction option \<Rightarrow> u64 \<Rightarrow> dir_state \<times> event list"
where
  "stall_slow s node dir d head =
     (case d of
        None \<Rightarrow> (s\<lparr>ds_spanning := False\<rparr>, [])
      | Some x \<Rightarrow>
          if dp_phase x = DirIdle \<or> dp_phase x = DirParked then (s\<lparr>ds_spanning := False\<rparr>, [])
          else
            let cur = dp_cursor x
            in if \<not> ds_spanning s \<or> cur \<noteq> ds_cursor s then
                 (s\<lparr>ds_spanning := True, ds_cursor := cur, ds_frozen := 1, ds_span_head := head,
                    ds_slow_fired := False\<rparr>, [])
               else
                 let s = s\<lparr>ds_frozen := ds_frozen s + 1\<rparr>
                 in if \<not> ds_slow_fired s \<and> StallPolls \<le> ds_frozen s \<and>
                       ds_span_head s + StallHeadDelta \<le> head then
                      (s\<lparr>ds_slow_fired := True\<rparr>,
                       [crit node FindingStall cur
                          (Fmt ''%s cursor frozen at %d for %d polls while head advanced %d blocks''
                             [DS dir, du cur, DI (int (ds_frozen s)), du (head - ds_span_head s)])])
                    else (s, []))"

definition dir_observe ::
  "dir_state \<Rightarrow> string \<Rightarrow> string \<Rightarrow> direction option \<Rightarrow> u64 \<Rightarrow> dir_state \<times> event list"
where
  "dir_observe s node dir d head =
     (let (s1, e1) = stall_immediate s node dir d;
          (s2, e2) = stall_slow s1 node dir d head
      in (s2, e1 @ e2))"

section \<open>The timeline\<close>

definition reset_stall :: "timeline \<Rightarrow> timeline" where
  "reset_stall tm = tm\<lparr>tl_binary := dir_state0, tl_merkle := dir_state0\<rparr>"

definition observe_istar :: "timeline \<Rightarrow> istar \<Rightarrow> timeline \<times> event list" where
  "observe_istar tm b =
     (case tl_istar tm of
        Some _ \<Rightarrow> (tm, [])
      | None \<Rightarrow>
          (tm\<lparr>tl_istar := Some b, tl_istar_polls := 0\<rparr>,
           [(mk_event EvIStar (tl_node tm) no_detail)\<lparr>ev_number := is_number b, ev_hash := is_hash b\<rparr>]))"

definition istar_reorged :: "timeline \<Rightarrow> string \<Rightarrow> timeline \<times> event list" where
  "istar_reorged tm now_canonical =
     (case tl_istar tm of
        None \<Rightarrow> (tm, [])
      | Some old \<Rightarrow>
          if tl_istar_final tm then (tm, [])
          else
            (tm\<lparr>tl_istar := None, tl_istar_polls := 0, tl_boundary_ok := False,
                tl_boundary_hit := False\<rparr>,
             [(mk_event EvIStarReorged (tl_node tm)
                 (Fmt ''fork block %d %s was orphaned; height %d now holds %s''
                    [du (is_number old), DS (is_hash old), du (is_number old), DS now_canonical]))
                \<lparr>ev_number := is_number old, ev_hash := now_canonical\<rparr>]))"

definition istar_finalized :: "timeline \<Rightarrow> timeline \<times> event list" where
  "istar_finalized tm =
     (case tl_istar tm of
        None \<Rightarrow> (tm, [])
      | Some b \<Rightarrow>
          if tl_istar_final tm then (tm, [])
          else
            (tm\<lparr>tl_istar_final := True\<rparr>,
             [(mk_event EvIStarFinal (tl_node tm) (lit ''fork block finalized''))
                \<lparr>ev_number := is_number b, ev_hash := is_hash b\<rparr>]))"

definition dir_phase_name :: "direction option \<Rightarrow> string" where
  "dir_phase_name d = (case d of None \<Rightarrow> ''nil'' | Some x \<Rightarrow> dp_phase x)"

definition is_parked :: "direction option \<Rightarrow> bool" where
  "is_parked d = (case d of None \<Rightarrow> False | Some x \<Rightarrow> dp_phase x = DirParked)"

text \<open>The three blocks of \<open>ObservePoll\<close> after the stall checks and the poll counter.\<close>

definition check_armed :: "timeline \<Rightarrow> progress \<Rightarrow> event list" where
  "check_armed tm p =
     (if tl_polls tm = 0 \<and> mp_phase p = PhaseInactive then
        [(mk_event EvWarn (tl_node tm)
            (lit ''initial migration phase is inactive; devnet is not migration-armed''))
           \<lparr>ev_phase := mp_phase p\<rparr>]
      else [])"

definition check_boundary :: "timeline \<Rightarrow> progress \<Rightarrow> u64 \<Rightarrow> timeline \<times> event list" where
  "check_boundary tm p head =
     (case tl_istar tm of
        None \<Rightarrow> (tm, [])
      | Some b \<Rightarrow>
          if tl_boundary_ok tm \<or> tl_boundary_hit tm then (tm, [])
          else
            let tm = tm\<lparr>tl_istar_polls := tl_istar_polls tm + 1\<rparr>
            in if is_parked (mp_binary p) then (tm\<lparr>tl_boundary_ok := True\<rparr>, [])
               else if BoundaryPolls < tl_istar_polls tm \<and> is_number b + BoundaryBlocks < head then
                 (tm\<lparr>tl_boundary_hit := True\<rparr>,
                  [crit (tl_node tm) FindingBoundary (is_number b)
                     (Fmt ''boundary window expired %d polls and %d blocks after I* %d: binary %s, merkle %s''
                        [DI (int (tl_istar_polls tm)), du (head - is_number b), du (is_number b),
                         DS (dir_phase_name (mp_binary p)), DS (dir_phase_name (mp_merkle p))])])
               else (tm, []))"

definition check_done :: "timeline \<Rightarrow> progress \<Rightarrow> u64 \<Rightarrow> timeline \<times> event list" where
  "check_done tm p head =
     (if mp_phase p = PhaseDone \<and> \<not> tl_done_early tm \<and>
         (case tl_istar tm of None \<Rightarrow> True | Some b \<Rightarrow> head \<le> is_number b) then
        (tm\<lparr>tl_done_early := True\<rparr>,
         [crit (tl_node tm) FindingBoundary 0
            (case tl_istar tm of
               None \<Rightarrow> lit ''phase done before any I* was observed''
             | Some b \<Rightarrow> Fmt ''phase done at head %d, not strictly after I* %d''
                 [du head, du (is_number b)])])
      else (tm, []))"

definition observe_poll :: "timeline \<Rightarrow> progress \<Rightarrow> u64 \<Rightarrow> timeline \<times> event list" where
  "observe_poll tm p head =
     (let e0 = check_armed tm p;
          tm = tm\<lparr>tl_polls := tl_polls tm + 1\<rparr>;
          (b, e1) = dir_observe (tl_binary tm) (tl_node tm) ''binary'' (mp_binary p) head;
          tm = tm\<lparr>tl_binary := b\<rparr>;
          (m, e2) = dir_observe (tl_merkle tm) (tl_node tm) ''merkle'' (mp_merkle p) head;
          tm = tm\<lparr>tl_merkle := m\<rparr>;
          (tm, e3) = check_boundary tm p head;
          (tm, e4) = check_done tm p head
      in (tm, e0 @ e1 @ e2 @ e3 @ e4))"

section \<open>Stall findings\<close>

fun dir_run :: "dir_state \<Rightarrow> string \<Rightarrow> string \<Rightarrow> (direction option \<times> u64) list \<Rightarrow> dir_state" where
  "dir_run s node dir [] = s"
| "dir_run s node dir ((d, h) # obs) = dir_run (fst (dir_observe s node dir d h)) node dir obs"

text \<open>The specification reads the history of a direction, newest poll first: the cursor of a
  poll that is neither absent, idle nor parked, and the heads of the polls the newest cursor
  has been held for.\<close>

definition live_cursor :: "direction option \<Rightarrow> u64 option" where
  "live_cursor d = (case d of None \<Rightarrow> None
     | Some x \<Rightarrow> if dp_phase x = DirIdle \<or> dp_phase x = DirParked then None else Some (dp_cursor x))"

fun held_span :: "(direction option \<times> u64) list \<Rightarrow> u64 list" where
  "held_span [] = []"
| "held_span ((d, h) # past) =
     (if live_cursor d = None then []
      else h # map snd (takeWhile (\<lambda>(d', _). live_cursor d' = live_cursor d) past))"

definition frozen_span :: "u64 list \<Rightarrow> bool" where
  "frozen_span hs \<longleftrightarrow> StallPolls \<le> length hs \<and> last hs + StallHeadDelta \<le> hd hs"

definition frozen_before :: "u64 list \<Rightarrow> bool" where
  "frozen_before hs \<longleftrightarrow> (\<exists>k < length hs. frozen_span (drop k hs))"


definition slow_refines :: "dir_state \<Rightarrow> (direction option \<times> u64) list \<Rightarrow> bool" where
  "slow_refines s past \<longleftrightarrow>
     (ds_spanning s \<longleftrightarrow> held_span past \<noteq> []) \<and>
     (ds_spanning s \<longrightarrow>
        live_cursor (fst (hd past)) = Some (ds_cursor s) \<and> ds_frozen s = length (held_span past) \<and>
        ds_span_head s = last (held_span past) \<and> ds_slow_fired s = frozen_before (held_span past))"

definition stall_refines :: "dir_state \<Rightarrow> (direction option \<times> u64) list \<Rightarrow> bool" where
  "stall_refines s past \<longleftrightarrow>
     (ds_immediate_fired s \<longleftrightarrow> past \<noteq> [] \<and> immediate (fst (hd past))) \<and> slow_refines s past"

lemma frozen_before_Cons:
  "frozen_before (h # hs) \<longleftrightarrow> frozen_span (h # hs) \<or> frozen_before hs"
  by (auto simp: frozen_before_def Ex_less_Suc2)

lemma frozen_before_single: "\<not> frozen_before [h]"
  by (auto simp: frozen_before_def frozen_span_def)

lemma held_span_Cons:
  "held_span ((d, h) # past) =
     (case live_cursor d of None \<Rightarrow> []
      | Some c \<Rightarrow> if held_span past \<noteq> [] \<and> live_cursor (fst (hd past)) = Some c then h # held_span past else [h])"
  by (cases past rule: held_span.cases) (auto split: option.splits)

lemma stall_slow_live:
  "stall_slow s node dir d head =
     (case live_cursor d of
        None \<Rightarrow> (s\<lparr>ds_spanning := False\<rparr>, [])
      | Some cur \<Rightarrow>
          if \<not> ds_spanning s \<or> cur \<noteq> ds_cursor s then
            (s\<lparr>ds_spanning := True, ds_cursor := cur, ds_frozen := 1, ds_span_head := head,
               ds_slow_fired := False\<rparr>, [])
          else if \<not> ds_slow_fired s \<and> StallPolls \<le> ds_frozen s + 1 \<and>
                  ds_span_head s + StallHeadDelta \<le> head then
            (s\<lparr>ds_frozen := ds_frozen s + 1, ds_slow_fired := True\<rparr>,
             [crit node FindingStall cur
                (Fmt ''%s cursor frozen at %d for %d polls while head advanced %d blocks''
                   [DS dir, du cur, DI (int (ds_frozen s + 1)), du (head - ds_span_head s)])])
          else (s\<lparr>ds_frozen := ds_frozen s + 1\<rparr>, []))"
  by (cases d) (simp_all add: stall_slow_def live_cursor_def Let_def)

lemma stall_slow_refines:
  assumes r: "slow_refines s past"
  shows "slow_refines (fst (stall_slow s node dir d h)) ((d, h) # past) \<and>
    map ev_kind (snd (stall_slow s node dir d h)) =
      (if frozen_span (held_span ((d, h) # past)) \<and> \<not> frozen_before (tl (held_span ((d, h) # past)))
       then [EvCritical] else [])"
proof (cases "live_cursor d")
  case None
  then show ?thesis by (simp add: stall_slow_live slow_refines_def frozen_span_def)
next
  case (Some c)
  show ?thesis
  proof (cases "ds_spanning s \<and> ds_cursor s = c")
    case False
    with r Some have sp: "held_span ((d, h) # past) = [h]"
      unfolding held_span_Cons by (auto simp: slow_refines_def)
    from False Some show ?thesis
      unfolding slow_refines_def sp
      by (auto simp: stall_slow_live frozen_before_single frozen_span_def)
  next
    case True
    with r have p: "held_span past \<noteq> []" "live_cursor (fst (hd past)) = Some c"
      "ds_frozen s = length (held_span past)" "ds_span_head s = last (held_span past)"
      "ds_slow_fired s = frozen_before (held_span past)"
      by (auto simp: slow_refines_def)
    with Some have sp: "held_span ((d, h) # past) = h # held_span past" unfolding held_span_Cons by simp
    have fs: "frozen_span (h # held_span past) \<longleftrightarrow>
        StallPolls \<le> ds_frozen s + 1 \<and> ds_span_head s + StallHeadDelta \<le> h"
      using p by (simp add: frozen_span_def)
    from True Some p fs show ?thesis
      unfolding slow_refines_def sp
      by (simp add: stall_slow_live frozen_before_Cons crit_def) blast
  qed
qed

lemma dir_observe_refines:
  assumes r: "stall_refines s past"
  shows "stall_refines (fst (dir_observe s node dir d h)) ((d, h) # past)"
    and "map ev_kind (snd (dir_observe s node dir d h)) =
      (if immediate d \<and> \<not> (past \<noteq> [] \<and> immediate (fst (hd past))) then [EvCritical] else []) @
      (if frozen_span (held_span ((d, h) # past)) \<and> \<not> frozen_before (tl (held_span ((d, h) # past)))
       then [EvCritical] else [])"
proof -
  obtain s1 e1 where i: "stall_immediate s node dir d = (s1, e1)" by (metis surj_pair)
  then have "slow_refines s1 past = slow_refines s past" "ds_immediate_fired s1 = immediate d"
    by (auto simp: stall_immediate_def slow_refines_def split: if_splits)
  with r have 1: "slow_refines s1 past" "ds_immediate_fired s1 = immediate d"
    by (auto simp: stall_refines_def)
  have im: "ds_immediate_fired (fst (stall_slow s1 node dir d h)) = ds_immediate_fired s1"
    by (auto simp: stall_slow_live split: option.splits)
  show "stall_refines (fst (dir_observe s node dir d h)) ((d, h) # past)"
    using stall_slow_refines [OF 1(1), of node dir d h] 1(2) im
    by (simp add: stall_refines_def dir_observe_def i split_def Let_def)
  have "map ev_kind e1 =
      (if immediate d \<and> \<not> (past \<noteq> [] \<and> immediate (fst (hd past))) then [EvCritical] else [])"
    using i r by (auto simp: stall_immediate_def stall_refines_def crit_def split: if_splits)
  then show "map ev_kind (snd (dir_observe s node dir d h)) =
      (if immediate d \<and> \<not> (past \<noteq> [] \<and> immediate (fst (hd past))) then [EvCritical] else []) @
      (if frozen_span (held_span ((d, h) # past)) \<and> \<not> frozen_before (tl (held_span ((d, h) # past)))
       then [EvCritical] else [])"
    using stall_slow_refines [OF 1(1), of node dir d h]
    by (simp add: dir_observe_def i split_def Let_def del: held_span.simps)
qed

lemma dir_run_refines:
  "stall_refines s past \<Longrightarrow> stall_refines (dir_run s node dir obs) (rev obs @ past)"
proof (induction obs arbitrary: s past)
  case (Cons ob obs)
  then show ?case using dir_observe_refines(1) by (cases ob) fastforce
qed simp

text \<open>C15: Over any run of polls, a poll raises a stall finding exactly when the direction
  reports stalled or an error and the poll before did not, or when it is the first poll of
  the current span of one unmoving live cursor at which the span is twenty polls long and the
  head has moved ten blocks since it began; an idle, parked or absent direction never raises
  the second.\<close>

theorem stall_findings_exact:
  "map ev_kind (snd (dir_observe (dir_run dir_state0 node dir obs) node dir d h)) =
     (if immediate d \<and> \<not> (obs \<noteq> [] \<and> immediate (fst (last obs))) then [EvCritical] else []) @
     (if frozen_span (held_span ((d, h) # rev obs)) \<and> \<not> frozen_before (tl (held_span ((d, h) # rev obs)))
      then [EvCritical] else [])"
proof -
  have "stall_refines dir_state0 []" by (simp add: stall_refines_def slow_refines_def dir_state0_def)
  from dir_run_refines [OF this, of node dir obs]
  have "stall_refines (dir_run dir_state0 node dir obs) (rev obs)" by simp
  from dir_observe_refines(2) [OF this] show ?thesis by (simp add: hd_rev del: held_span.simps)
qed

section \<open>The fork block of one node\<close>

datatype timeline_op =
    ObserveIStar istar | IStarReorged string | IStarFinalized | ObservePoll progress u64 | ResetStall

fun timeline_apply :: "timeline_op \<Rightarrow> timeline \<Rightarrow> timeline \<times> event list" where
  "timeline_apply (ObserveIStar b) t = observe_istar t b"
| "timeline_apply (IStarReorged h) t = istar_reorged t h"
| "timeline_apply IStarFinalized t = istar_finalized t"
| "timeline_apply (ObservePoll p head) t = observe_poll t p head"
| "timeline_apply ResetStall t = (reset_stall t, [])"

inductive timeline_step :: "timeline \<Rightarrow> event list \<Rightarrow> timeline \<Rightarrow> bool" where
  step_by: "timeline_apply act t = (t', evs) \<Longrightarrow> timeline_step t evs t'"

inductive timeline_reaches :: "timeline \<Rightarrow> event list \<Rightarrow> timeline \<Rightarrow> bool" where
  reach_self: "timeline_reaches t [] t"
| reach_more: "timeline_reaches t evs t' \<Longrightarrow> timeline_step t' evs' t'' \<Longrightarrow>
    timeline_reaches t (evs @ evs') t''"

inductive_cases timeline_stepE: "timeline_step t evs t'"

definition timeline_ok :: "timeline \<Rightarrow> bool" where
  "timeline_ok t \<longleftrightarrow>
     (tl_istar_final t \<longrightarrow> tl_istar t \<noteq> None) \<and>
     (tl_istar t = None \<longrightarrow> \<not> tl_boundary_ok t \<and> \<not> tl_boundary_hit t) \<and>
     \<not> (tl_boundary_ok t \<and> tl_boundary_hit t)"

lemma check_boundary_frame:
  "tl_istar (fst (check_boundary t p h)) = tl_istar t"
  "tl_istar_final (fst (check_boundary t p h)) = tl_istar_final t"
  "tl_node (fst (check_boundary t p h)) = tl_node t"
  "tl_done_early (fst (check_boundary t p h)) = tl_done_early t"
  by (auto simp: check_boundary_def Let_def split: option.splits)

lemma check_done_frame:
  "tl_istar (fst (check_done t p h)) = tl_istar t"
  "tl_istar_final (fst (check_done t p h)) = tl_istar_final t"
  "tl_boundary_ok (fst (check_done t p h)) = tl_boundary_ok t"
  "tl_boundary_hit (fst (check_done t p h)) = tl_boundary_hit t"
  "tl_istar_polls (fst (check_done t p h)) = tl_istar_polls t"
  by (auto simp: check_done_def)

text \<open>A poll in two parts: the stall checks, then the two fork-block checks, on a state that
  differs from the old one in the poll counter and the stall bookkeeping only.\<close>

definition stalls :: "timeline \<Rightarrow> progress \<Rightarrow> u64 \<Rightarrow> timeline" where
  "stalls t p head =
     t\<lparr>tl_polls := tl_polls t + 1,
       tl_binary := fst (dir_observe (tl_binary t) (tl_node t) ''binary'' (mp_binary p) head),
       tl_merkle := fst (dir_observe (tl_merkle t) (tl_node t) ''merkle'' (mp_merkle p) head)\<rparr>"

lemma stalls_frame [simp]:
  "tl_istar (stalls t p h) = tl_istar t" "tl_istar_final (stalls t p h) = tl_istar_final t"
  "tl_boundary_ok (stalls t p h) = tl_boundary_ok t"
  "tl_boundary_hit (stalls t p h) = tl_boundary_hit t" "tl_node (stalls t p h) = tl_node t"
  "tl_istar_polls (stalls t p h) = tl_istar_polls t"
  "tl_done_early (stalls t p h) = tl_done_early t"
  by (simp_all add: stalls_def)

lemma observe_poll_split:
  "observe_poll t p head =
     (fst (check_done (fst (check_boundary (stalls t p head) p head)) p head),
      check_armed t p @
      snd (dir_observe (tl_binary t) (tl_node t) ''binary'' (mp_binary p) head) @
      snd (dir_observe (tl_merkle t) (tl_node t) ''merkle'' (mp_merkle p) head) @
      snd (check_boundary (stalls t p head) p head) @
      snd (check_done (fst (check_boundary (stalls t p head) p head)) p head))"
  by (simp add: observe_poll_def stalls_def Let_def split_def)

lemma observe_poll_istar [simp]:
  "tl_istar (fst (observe_poll t p h)) = tl_istar t"
  "tl_istar_final (fst (observe_poll t p h)) = tl_istar_final t"
  by (simp_all add: observe_poll_split check_boundary_frame check_done_frame)

lemma observe_poll_boundary:
  "tl_boundary_ok (fst (observe_poll t p h)) = tl_boundary_ok (fst (check_boundary (stalls t p h) p h))"
  "tl_boundary_hit (fst (observe_poll t p h)) = tl_boundary_hit (fst (check_boundary (stalls t p h) p h))"
  "tl_istar_polls (fst (observe_poll t p h)) = tl_istar_polls (fst (check_boundary (stalls t p h) p h))"
  by (simp_all add: observe_poll_split check_done_frame)

lemma observe_istar_fields:
  "tl_istar (fst (observe_istar t b)) = (case tl_istar t of None \<Rightarrow> Some b | Some c \<Rightarrow> Some c)"
  "tl_istar_final (fst (observe_istar t b)) = tl_istar_final t"
  "tl_boundary_ok (fst (observe_istar t b)) = tl_boundary_ok t"
  "tl_boundary_hit (fst (observe_istar t b)) = tl_boundary_hit t"
  by (auto simp: observe_istar_def split: option.splits)

lemma timeline_ok_apply: "timeline_ok t \<Longrightarrow> timeline_ok (fst (timeline_apply act t))"
proof (induction act t rule: timeline_apply.induct)
  case (4 p head t)
  then show ?case
    by (auto simp: timeline_ok_def observe_poll_boundary check_boundary_def Let_def
        split: option.splits)
qed (auto simp: timeline_ok_def observe_istar_def istar_reorged_def istar_finalized_def
    reset_stall_def split: option.splits)

lemma timeline_final_apply:
  "tl_istar_final t \<Longrightarrow> timeline_ok t \<Longrightarrow>
    tl_istar_final (fst (timeline_apply act t)) \<and> tl_istar (fst (timeline_apply act t)) = tl_istar t"
  by (cases act) (auto simp: timeline_ok_def observe_istar_def istar_reorged_def istar_finalized_def
      reset_stall_def split: option.splits)

lemma timeline_reaches_ok: "timeline_reaches t evs t' \<Longrightarrow> timeline_ok t \<Longrightarrow> timeline_ok t'"
proof (induction rule: timeline_reaches.induct)
  case (reach_more t evs t' evs' t'')
  then show ?case by (elim timeline_stepE) (metis fst_conv timeline_ok_apply)
qed

lemma timeline_reaches_final:
  "timeline_reaches t evs t' \<Longrightarrow> timeline_ok t \<Longrightarrow> tl_istar_final t \<Longrightarrow>
    tl_istar_final t' \<and> tl_istar t' = tl_istar t"
proof (induction rule: timeline_reaches.induct)
  case (reach_more t evs t' evs' t'')
  then have "timeline_ok t'" using timeline_reaches_ok by blast
  with reach_more show ?case by (elim timeline_stepE) (metis fst_conv timeline_final_apply)
qed simp

lemma new_timeline_ok: "timeline_ok (new_timeline node t)"
  by (simp add: timeline_ok_def new_timeline_def)

text \<open>C16: In every state a timeline reaches by its operations a finalized fork block exists,
  the boundary check has one verdict at most and none without a fork block; and once the fork
  block is final no sequence of operations, reorgs included, moves it.\<close>

theorem istar_final_stable:
  assumes "timeline_reaches (new_timeline node act) evs s" and "timeline_reaches s evs' s'"
    and "tl_istar_final s"
  shows "(\<exists>b. tl_istar s = Some b \<and> tl_istar s' = Some b) \<and> tl_istar_final s' \<and>
    \<not> (tl_boundary_ok s' \<and> tl_boundary_hit s')"
proof -
  from assms(1) have ok: "timeline_ok s" using timeline_reaches_ok new_timeline_ok by blast
  with assms(2) have "timeline_ok s'" using timeline_reaches_ok by blast
  with ok show ?thesis
    using timeline_reaches_final [OF assms(2) ok assms(3)] assms(3) by (auto simp: timeline_ok_def)
qed

section \<open>The boundary window\<close>

fun poll_run :: "timeline \<Rightarrow> (progress \<times> u64) list \<Rightarrow> timeline" where
  "poll_run t [] = t"
| "poll_run t ((p, h) # ps) = poll_run (fst (observe_poll t p h)) ps"

text \<open>A poll that closes the window well, and one that is past it: \<open>i\<close> polls came before it
  since the record was made.\<close>

definition parks :: "progress \<times> u64 \<Rightarrow> bool" where
  "parks ph \<longleftrightarrow> is_parked (mp_binary (fst ph))"

definition past_window :: "istar \<Rightarrow> nat \<Rightarrow> progress \<times> u64 \<Rightarrow> bool" where
  "past_window b i ph \<longleftrightarrow> \<not> parks ph \<and> BoundaryPolls \<le> i \<and> is_number b + BoundaryBlocks < snd ph"

lemma boundary_poll:
  assumes "tl_istar t = Some b"
  shows "tl_boundary_ok t \<or> tl_boundary_hit t \<Longrightarrow>
      tl_boundary_ok (fst (observe_poll t p h)) = tl_boundary_ok t \<and>
      tl_boundary_hit (fst (observe_poll t p h)) = tl_boundary_hit t"
    and "\<not> tl_boundary_ok t \<Longrightarrow> \<not> tl_boundary_hit t \<Longrightarrow>
      tl_boundary_ok (fst (observe_poll t p h)) = parks (p, h) \<and>
      tl_boundary_hit (fst (observe_poll t p h)) = past_window b (tl_istar_polls t) (p, h) \<and>
      tl_istar_polls (fst (observe_poll t p h)) = Suc (tl_istar_polls t)"
  using assms
  by (auto simp: observe_poll_boundary check_boundary_def Let_def parks_def past_window_def)

lemma boundary_closed:
  "tl_istar t = Some b \<Longrightarrow> tl_boundary_ok t \<or> tl_boundary_hit t \<Longrightarrow>
    tl_boundary_ok (poll_run t ps) = tl_boundary_ok t \<and>
    tl_boundary_hit (poll_run t ps) = tl_boundary_hit t"
proof (induction ps arbitrary: t)
  case (Cons ph ps)
  then show ?case using boundary_poll(1) by (cases ph) fastforce
qed simp

lemma boundary_run:
  assumes "tl_istar t = Some b" "\<not> tl_boundary_ok t" "\<not> tl_boundary_hit t"
  shows "(tl_boundary_ok (poll_run t ps) \<longleftrightarrow>
      (\<exists>i < length ps. parks (ps ! i) \<and> (\<forall>j < i. \<not> past_window b (tl_istar_polls t + j) (ps ! j)))) \<and>
    (tl_boundary_hit (poll_run t ps) \<longleftrightarrow>
      (\<exists>i < length ps. past_window b (tl_istar_polls t + i) (ps ! i) \<and> (\<forall>j < i. \<not> parks (ps ! j))))"
  using assms
proof (induction ps arbitrary: t)
  case (Cons ph ps)
  obtain p h where ph: "ph = (p, h)" by (cases ph)
  let ?t = "fst (observe_poll t p h)"
  note b = boundary_poll(2) [OF Cons.prems, of p h]
  have rec: "tl_istar ?t = Some b" using Cons.prems by simp
  show ?case
  proof (cases "parks ph \<or> past_window b (tl_istar_polls t) ph")
    case True
    with b ph have c: "tl_boundary_ok ?t \<or> tl_boundary_hit ?t" by auto
    have "parks ph \<longrightarrow> \<not> past_window b (tl_istar_polls t) ph" by (auto simp: past_window_def)
    with boundary_closed [OF rec c, of ps] b ph True show ?thesis
      by (auto simp: Ex_less_Suc2 All_less_Suc2)
  next
    case False
    with Cons.IH [OF rec] b ph show ?thesis
      by (simp add: Ex_less_Suc2 All_less_Suc2)
  qed
qed simp

text \<open>The polls after a fork block is recorded pass the boundary check exactly when one of
  them finds the binary direction parked before any of them is past the window, and fail it
  exactly when one is past the window, more than two polls and more than three blocks after
  the fork block, with the binary direction never parked before.\<close>

theorem boundary_window_verdict:
  assumes "tl_istar t = None" "\<not> tl_boundary_ok t" "\<not> tl_boundary_hit t"
  shows "(tl_boundary_ok (poll_run (fst (observe_istar t b)) ps) \<longleftrightarrow>
      (\<exists>i < length ps. parks (ps ! i) \<and> (\<forall>j < i. \<not> past_window b j (ps ! j)))) \<and>
    (tl_boundary_hit (poll_run (fst (observe_istar t b)) ps) \<longleftrightarrow>
      (\<exists>i < length ps. past_window b i (ps ! i) \<and> (\<forall>j < i. \<not> parks (ps ! j))))"
  using boundary_run [of "fst (observe_istar t b)" b ps] assms
  by (simp add: observe_istar_def)

section \<open>The quorum\<close>

record quorum =
  q_t :: u64
  q_provisional :: "string \<rightharpoonup> istar"
  q_final :: "string \<rightharpoonup> istar"
  q_shaped :: "string set"
  q_since :: gotime
  q_fired :: bool

definition new_quorum :: "u64 \<Rightarrow> quorum" where
  "new_quorum t = \<lparr>q_t = t, q_provisional = Map.empty, q_final = Map.empty, q_shaped = {},
     q_since = zero_time, q_fired = False\<rparr>"

definition same_block :: "istar \<Rightarrow> istar \<Rightarrow> bool" where
  "same_block a b \<longleftrightarrow> is_number a = is_number b \<and> is_hash a = is_hash b"

definition provisional_grace :: duration where
  [go_defs]: "provisional_grace = IStarProvisionalGrace * second"

definition check_shape :: "quorum \<Rightarrow> string \<Rightarrow> istar \<Rightarrow> quorum \<times> event list" where
  "check_shape q node b =
     (let key = node @ ''/'' @ is_hash b
      in if key \<in> q_shaped q then (q, [])
         else
           let q = q\<lparr>q_shaped := insert key (q_shaped q)\<rparr>
           in if q_t q \<le> is_time b \<and> is_parent_time b < q_t q then (q, [])
              else (q, [crit node FindingBoundary (is_number b)
                 (Fmt ''fork block %d does not straddle the activation %d (time %d, parent %d)''
                    [du (is_number b), du (q_t q), du (is_time b), du (is_parent_time b)])]))"

text \<open>The loop of \<open>checkProvisional\<close> over the nodes in the order the map yields them: the
  first record is the reference; the first that differs from it ends the loop.\<close>

fun prov_loop :: "quorum \<Rightarrow> gotime \<Rightarrow> string \<Rightarrow> istar \<Rightarrow> string list \<Rightarrow> quorum \<times> event list" where
  "prov_loop q now ref_node ref [] = (q\<lparr>q_since := zero_time, q_fired := False\<rparr>, [])"
| "prov_loop q now ref_node ref (node # ns) =
     (let r = the (q_provisional q node)
      in if is_number r \<noteq> is_number ref \<or> is_hash r \<noteq> is_hash ref then
           let q = (if is_zero (q_since q) then q\<lparr>q_since := now\<rparr> else q)
           in if \<not> q_fired q \<and> provisional_grace < tsub now (q_since q) then
                (q\<lparr>q_fired := True\<rparr>,
                 [crit node FindingBoundary (is_number r)
                    (Fmt ''fork blocks still disagree after %.0fs, longer than any partition holds: %s has %d (%s), %s has %d (%s)''
                       [DI (tsub now (q_since q)), DS node, du (is_number r), DS (is_hash r),
                        DS ref_node, du (is_number ref), DS (is_hash ref)])])
              else (q, [])
         else prov_loop q now ref_node ref ns)"

definition check_provisional :: "quorum \<Rightarrow> gotime \<Rightarrow> string list \<Rightarrow> quorum \<times> event list" where
  "check_provisional q now nodes =
     (case nodes of
        n # ns \<Rightarrow> if ns = [] then (q, []) else prov_loop q now n (the (q_provisional q n)) ns
      | [] \<Rightarrow> (q, []))"

definition quorum_observe ::
  "quorum \<Rightarrow> string \<Rightarrow> istar \<Rightarrow> gotime \<Rightarrow> string list \<Rightarrow> quorum \<times> event list"
where
  "quorum_observe q node b now nodes =
     (let q = q\<lparr>q_provisional := (q_provisional q)(node \<mapsto> b)\<rparr>;
          (q, evs) = check_shape q node b;
          (q, evs') = check_provisional q now nodes
      in (q, evs @ evs'))"

definition quorum_finalize :: "quorum \<Rightarrow> string \<Rightarrow> istar \<Rightarrow> string list \<Rightarrow> quorum \<times> event list" where
  "quorum_finalize q node b nodes =
     (case q_final q node of
        Some _ \<Rightarrow> (q, [])
      | None \<Rightarrow>
          let q = q\<lparr>q_final := (q_final q)(node \<mapsto> b)\<rparr>
          in (q, concat (map (\<lambda>other.
                let r = the (q_final q other)
                in if other = node \<or> is_number r = is_number b \<and> is_hash r = is_hash b then []
                   else [crit node FindingBoundary (is_number b)
                     (Fmt ''finalized fork blocks differ: %s has %d (%s), %s has %d (%s)''
                        [DS node, du (is_number b), DS (is_hash b),
                         DS other, du (is_number r), DS (is_hash r)])]) nodes)))"

text \<open>An enumeration of a map's keys, as ranging over it yields them.\<close>

definition enumerates :: "string list \<Rightarrow> (string \<rightharpoonup> 'a) \<Rightarrow> bool" where
  "enumerates nodes m \<longleftrightarrow> distinct nodes \<and> set nodes = dom m"

definition disagree :: "(string \<rightharpoonup> istar) \<Rightarrow> bool" where
  "disagree m \<longleftrightarrow> (\<exists>a \<in> ran m. \<exists>b \<in> ran m. \<not> same_block a b)"

definition prov_start :: "quorum \<Rightarrow> gotime \<Rightarrow> gotime" where
  "prov_start q now = (if q_since q = zero_time then now else q_since q)"

definition prov_fires :: "quorum \<Rightarrow> gotime \<Rightarrow> bool" where
  "prov_fires q now \<longleftrightarrow> \<not> q_fired q \<and> provisional_grace < tsub now (prov_start q now)"

definition prov_state :: "quorum \<Rightarrow> gotime \<Rightarrow> bool \<Rightarrow> quorum" where
  "prov_state q now dis =
     (if dis then q\<lparr>q_since := prov_start q now, q_fired := q_fired q \<or> prov_fires q now\<rparr>
      else q\<lparr>q_since := zero_time, q_fired := False\<rparr>)"

lemma prov_loop_state:
  "fst (prov_loop q now rn r nodes) =
     prov_state q now (\<exists>n \<in> set nodes. \<not> same_block (the (q_provisional q n)) r)"
  by (induction nodes)
     (auto simp: same_block_def Let_def is_zero_def prov_state_def prov_fires_def prov_start_def)

lemma prov_loop_events:
  "length (snd (prov_loop q now rn r nodes)) =
     (if (\<exists>n \<in> set nodes. \<not> same_block (the (q_provisional q n)) r) \<and> prov_fires q now then 1 else 0)"
  by (induction nodes)
     (auto simp: same_block_def Let_def is_zero_def prov_fires_def prov_start_def)

lemma disagree_enumerated:
  assumes "enumerates (n # ns) m"
  shows "disagree m \<longleftrightarrow> (\<exists>k \<in> set ns. \<not> same_block (the (m k)) (the (m n)))"
proof
  have d: "dom m = insert n (set ns)" using assms by (auto simp: enumerates_def)
  {
    assume "disagree m"
    then obtain i j x y where "m i = Some x" "m j = Some y" "\<not> same_block x y"
      by (auto simp: disagree_def ran_def)
    moreover from this have "i \<in> insert n (set ns)" "j \<in> insert n (set ns)" using d by auto
    ultimately show "\<exists>k \<in> set ns. \<not> same_block (the (m k)) (the (m n))"
      unfolding same_block_def by (metis insert_iff option.sel)
  }
  assume "\<exists>k \<in> set ns. \<not> same_block (the (m k)) (the (m n))"
  then obtain k where k: "k \<in> set ns" "\<not> same_block (the (m k)) (the (m n))" by blast
  with d have "k \<in> dom m" "n \<in> dom m" by auto
  then have "the (m k) \<in> ran m" "the (m n) \<in> ran m" by (auto simp: ran_def)
  with k(2) show "disagree m" unfolding disagree_def by blast
qed

text \<open>One check in terms of the records alone.\<close>

lemma enumerates_length: "enumerates nodes m \<Longrightarrow> length nodes = card (dom m)"
  by (metis enumerates_def distinct_card)

lemma check_provisional_spec:
  assumes "enumerates nodes (q_provisional q)"
  shows "fst (check_provisional q now nodes) =
      (if card (dom (q_provisional q)) < 2 then q else prov_state q now (disagree (q_provisional q)))"
    and "length (snd (check_provisional q now nodes)) =
      (if disagree (q_provisional q) \<and> prov_fires q now then 1 else 0)"
proof -
  show "fst (check_provisional q now nodes) =
      (if card (dom (q_provisional q)) < 2 then q else prov_state q now (disagree (q_provisional q)))"
  proof (cases nodes)
    case Nil
    with enumerates_length [OF assms] show ?thesis by (simp add: check_provisional_def)
  next
    case (Cons n ns)
    with assms show ?thesis
      using disagree_enumerated [of n ns "q_provisional q"] enumerates_length [OF assms]
      by (cases ns) (simp_all add: check_provisional_def prov_loop_state del: prov_loop.simps)
  qed
  show "length (snd (check_provisional q now nodes)) =
      (if disagree (q_provisional q) \<and> prov_fires q now then 1 else 0)"
  proof (cases nodes)
    case Nil
    with assms have "q_provisional q = Map.empty" by (auto simp: enumerates_def)
    with Nil show ?thesis by (simp add: check_provisional_def disagree_def)
  next
    case (Cons n ns)
    with assms have "disagree (q_provisional q) \<longleftrightarrow>
        (\<exists>k \<in> set ns. \<not> same_block (the (q_provisional q k)) (the (q_provisional q n)))"
      using disagree_enumerated by blast
    with prov_loop_events [of q now n "the (q_provisional q n)" ns] show ?thesis
      by (cases ns) (simp_all add: Cons check_provisional_def del: prov_loop.simps)
  qed
qed

lemma check_shape_frame [simp]:
  "q_provisional (fst (check_shape q node b)) = q_provisional q"
  "q_since (fst (check_shape q node b)) = q_since q"
  "q_fired (fst (check_shape q node b)) = q_fired q"
  by (auto simp: check_shape_def Let_def)

text \<open>What one observation does to the disagreement watch: its condition is whether the
  records differ once the new one is in.\<close>

definition quorum_inv :: "quorum \<Rightarrow> bool" where
  "quorum_inv q \<longleftrightarrow> finite (dom (q_provisional q)) \<and>
     (card (dom (q_provisional q)) < 2 \<longrightarrow> q_since q = zero_time \<and> \<not> q_fired q)"

definition quorum_watch :: "quorum \<Rightarrow> gotime \<Rightarrow> bool \<Rightarrow> bool \<Rightarrow> quorum \<Rightarrow> bool" where
  "quorum_watch q now dis fires q' \<longleftrightarrow>
     (\<exists>node b nodes. enumerates nodes ((q_provisional q)(node \<mapsto> b)) \<and>
        (let (q1, _) = check_shape (q\<lparr>q_provisional := (q_provisional q)(node \<mapsto> b)\<rparr>) node b;
             (q2, evs) = check_provisional q1 now nodes
         in q' = q2 \<and> fires = (evs \<noteq> []) \<and> dis = disagree ((q_provisional q)(node \<mapsto> b))))"

lemma disagree_card: "finite (dom m) \<Longrightarrow> disagree m \<Longrightarrow> 2 \<le> card (dom m)"
proof (rule ccontr)
  assume f: "finite (dom m)" "disagree m" "\<not> 2 \<le> card (dom m)"
  then obtain a b x y where "m a = Some x" "m b = Some y" "\<not> same_block x y"
    by (auto simp: disagree_def ran_def)
  moreover from this have "a \<noteq> b" by (auto simp: same_block_def)
  moreover from calculation have "{a, b} \<subseteq> dom m" by auto
  ultimately have "card {a, b} \<le> card (dom m)" using f(1) by (intro card_mono)
  with \<open>a \<noteq> b\<close> f(3) show False by simp
qed

lemma check_provisional_frame [simp]:
  "q_provisional (fst (check_provisional q now nodes)) = q_provisional q"
proof -
  have "q_provisional (fst (prov_loop q now rn r ns)) = q_provisional q" for rn r ns
    by (simp add: prov_loop_state prov_state_def)
  then show ?thesis by (auto simp: check_provisional_def split: list.splits)
qed

lemma quorum_watch_step:
  assumes inv: "quorum_inv q" and w: "quorum_watch q now c f q'"
  shows "quorum_inv q'"
    and "\<not> c \<Longrightarrow> \<not> f \<and> q_since q' = zero_time \<and> \<not> q_fired q'"
    and "c \<Longrightarrow> q_since q' = (if q_since q = zero_time then now else q_since q) \<and>
      f = (\<not> q_fired q \<and> provisional_grace < tsub now (q_since q')) \<and> q_fired q' = (q_fired q \<or> f)"
proof -
  obtain node b nodes q1 where q1: "q1 = fst (check_shape (q\<lparr>q_provisional := (q_provisional q)(node \<mapsto> b)\<rparr>) node b)"
    and e: "enumerates nodes (q_provisional q1)" "q' = fst (check_provisional q1 now nodes)"
      "f = (snd (check_provisional q1 now nodes) \<noteq> [])" "c = disagree (q_provisional q1)"
    using w by (auto simp: quorum_watch_def split_def Let_def)
  have s: "q_since q1 = q_since q" "q_fired q1 = q_fired q" by (simp_all add: q1)
  have p1: "q_provisional q1 = (q_provisional q)(node \<mapsto> b)" by (simp add: q1)
  have f: "f = (c \<and> prov_fires q1 now)"
    using check_provisional_spec(2) [OF e(1), of now] e(3,4) by (auto split: if_splits)
  have fin: "finite (dom (q_provisional q1))" using e(1) by (metis List.finite_set enumerates_def)
  have le: "card (dom (q_provisional q)) \<le> card (dom (q_provisional q1))"
    using fin by (intro card_mono) (auto simp: p1)
  have c2: "c \<Longrightarrow> 2 \<le> card (dom (q_provisional q1))" using disagree_card [OF fin] e(4) by simp
  have q': "q' = (if card (dom (q_provisional q1)) < 2 then q1 else prov_state q1 now c)"
    using check_provisional_spec(1) [OF e(1), of now] e(2,4) by simp
  show "quorum_inv q'"
    using inv le fin s p1 by (auto simp: q' quorum_inv_def prov_state_def)
  show "\<not> f \<and> q_since q' = zero_time \<and> \<not> q_fired q'" if "\<not> c"
    using that inv le s by (auto simp: f q' quorum_inv_def prov_state_def)
  show "q_since q' = (if q_since q = zero_time then now else q_since q) \<and>
      f = (\<not> q_fired q \<and> provisional_grace < tsub now (q_since q')) \<and> q_fired q' = (q_fired q \<or> f)" if c
    using that c2 s by (auto simp: f q' prov_state_def prov_fires_def prov_start_def)
qed

interpretation qw: grace_watch q_since q_fired "\<lambda>t s. provisional_grace < tsub t s" quorum_inv quorum_watch
  using quorum_watch_step(1) quorum_watch_step(2) [where c = False]
    quorum_watch_step(3) [where c = True]
  by unfold_locales blast+

text \<open>A finding of \<open>checkProvisional\<close>, by its text.\<close>

definition says_disagree :: "event \<Rightarrow> bool" where
  "says_disagree e \<longleftrightarrow>
     (case ev_detail e of Fmt f _ \<Rightarrow>
        f = ''fork blocks still disagree after %.0fs, longer than any partition holds: %s has %d (%s), %s has %d (%s)'')"

lemma shape_says_not: "\<forall>e \<in> set (snd (check_shape q node b)). \<not> says_disagree e"
  by (auto simp: check_shape_def Let_def crit_def says_disagree_def mk_event_def)

lemma provisional_says: "\<forall>e \<in> set (snd (check_provisional q now nodes)). says_disagree e"
proof -
  have "\<forall>e \<in> set (snd (prov_loop q now rn r ns)). says_disagree e" for q rn r ns
    by (induction ns) (auto simp: Let_def crit_def says_disagree_def mk_event_def)
  then show ?thesis by (auto simp: check_provisional_def split: list.splits)
qed

lemma observe_says:
  assumes "quorum_observe q node b now nodes = (q2, evs)"
  shows "check_provisional (fst (check_shape (q\<lparr>q_provisional := (q_provisional q)(node \<mapsto> b)\<rparr>) node b)) now nodes =
      (q2, filter says_disagree evs)"
proof -
  obtain q1 e1 where 1: "check_shape (q\<lparr>q_provisional := (q_provisional q)(node \<mapsto> b)\<rparr>) node b = (q1, e1)"
    by (metis surj_pair)
  obtain q3 e2 where 2: "check_provisional q1 now nodes = (q3, e2)" by (metis surj_pair)
  have "filter says_disagree e1 = []" "filter says_disagree e2 = e2"
    using shape_says_not provisional_says 1 2 by (auto simp: filter_empty_conv intro!: filter_True) (metis snd_conv)+
  with assms 1 2 show ?thesis by (auto simp: quorum_observe_def Let_def)
qed

text \<open>A run of observations, each with the order its check met the nodes in: whether the records
  differ after it, and the disagreements it reports.\<close>

fun quorum_run :: "quorum \<Rightarrow> (gotime \<times> string \<times> istar \<times> string list) list \<Rightarrow>
    (gotime \<times> bool \<times> bool \<times> quorum) list" where
  "quorum_run q [] = []"
| "quorum_run q ((now, node, b, nodes) # obs) =
     (case quorum_observe q node b now nodes of
        (q2, evs) \<Rightarrow> (now, disagree (q_provisional q2), filter says_disagree evs \<noteq> [], q2) # quorum_run q2 obs)"

fun enumerated_run :: "(string \<rightharpoonup> istar) \<Rightarrow> (gotime \<times> string \<times> istar \<times> string list) list \<Rightarrow> bool" where
  "enumerated_run m [] \<longleftrightarrow> True"
| "enumerated_run m ((now, node, b, nodes) # obs) \<longleftrightarrow>
     now \<noteq> zero_time \<and> enumerates nodes (m(node \<mapsto> b)) \<and> enumerated_run (m(node \<mapsto> b)) obs"

lemma quorum_run_chain:
  "enumerated_run (q_provisional q) obs \<Longrightarrow>
    chain quorum_watch q (quorum_run q obs) \<and> (\<forall>e \<in> set (quorum_run q obs). fst e \<noteq> zero_time)"
proof (induction q obs rule: quorum_run.induct)
  case (2 q now node b nodes obs)
  let ?m = "(q_provisional q)(node \<mapsto> b)"
  let ?q1 = "fst (check_shape (q\<lparr>q_provisional := ?m\<rparr>) node b)"
  obtain q2 evs where ob: "quorum_observe q node b now nodes = (q2, evs)" by (metis surj_pair)
  let ?f = "filter says_disagree evs \<noteq> []"
  have r: "check_provisional ?q1 now nodes = (q2, filter says_disagree evs)" by (rule observe_says [OF ob])
  then have p: "q_provisional q2 = ?m"
    using check_provisional_frame [of ?q1 now nodes] by simp
  with 2 ob have en: "enumerates nodes ?m"
    and ch: "chain quorum_watch q2 (quorum_run q2 obs) \<and> (\<forall>e \<in> set (quorum_run q2 obs). fst e \<noteq> zero_time)"
    by (simp_all del: fun_upd_apply)
  have "quorum_watch q now (disagree ?m) ?f q2"
    unfolding quorum_watch_def using en r
    by (intro exI [of _ node] exI [of _ b] exI [of _ nodes]) (simp add: split_def Let_def)
  with ch ob "2.prems" p show ?case by simp
qed simp


text \<open>The first finalized record of a node is kept for good, and it is reported critical
  once against every other node whose finalized block differs, in whatever order.\<close>

theorem quorum_finalize_spec:
  assumes "enumerates nodes ((q_final q)(node \<mapsto> b))"
  shows "q_final (fst (quorum_finalize q node b nodes)) =
      (if node \<in> dom (q_final q) then q_final q else (q_final q)(node \<mapsto> b)) \<and>
    length (snd (quorum_finalize q node b nodes)) =
      (if node \<in> dom (q_final q) then 0
       else card {n. \<exists>r. q_final q n = Some r \<and> \<not> same_block r b})"
proof (cases "q_final q node")
  case None
  let ?f = "\<lambda>n. n \<noteq> node \<and> \<not> same_block (the (q_final q n)) b"
  have "length (concat (map (\<lambda>x. if P x then [] else [h x]) xs)) = length (filter (\<lambda>x. \<not> P x) xs)"
    for P and h :: "string \<Rightarrow> event" and xs by (induction xs) auto
  note lc = this
  have "length (snd (quorum_finalize q node b nodes)) = length (filter ?f nodes)"
    using None by (simp add: quorum_finalize_def Let_def lc same_block_def)
       (intro arg_cong [where f = length] filter_cong refl, auto)
  also have "\<dots> = card (set (filter ?f nodes))"
    using assms by (simp only: enumerates_def distinct_filter distinct_card)
  also have "set (filter ?f nodes) = {n. \<exists>r. q_final q n = Some r \<and> \<not> same_block r b}"
    using assms None by (auto simp: enumerates_def)
  finally show ?thesis using None by (auto simp: quorum_finalize_def Let_def)
qed (auto simp: quorum_finalize_def)

theorem istar_final_stable_witness:
  "tl_istar (fst (istar_reorged (fst (istar_finalized (fst (observe_istar (new_timeline ''el-1'' 5)
     \<lparr>is_number = 7, is_hash = ''h'', is_time = 6, is_parent_time = 4\<rparr>)))) ''x'')) =
   Some \<lparr>is_number = 7, is_hash = ''h'', is_time = 6, is_parent_time = 4\<rparr>"
proof -
  let ?b = "\<lparr>is_number = 7, is_hash = ''h'', is_time = 6, is_parent_time = 4\<rparr>"
  let ?t0 = "new_timeline ''el-1'' 5"
  let ?t1 = "fst (observe_istar ?t0 ?b)"
  let ?t2 = "fst (istar_finalized ?t1)"
  let ?t3 = "fst (istar_reorged ?t2 ''x'')"
  have st: "timeline_step t (snd (timeline_apply act t)) (fst (timeline_apply act t))" for t act
    by (rule step_by) simp
  have "timeline_reaches ?t0 (snd (observe_istar ?t0 ?b)) ?t1"
    using reach_more [OF reach_self st [of ?t0 "ObserveIStar ?b"]] by simp
  from reach_more [OF this st [of ?t1 IStarFinalized]]
  obtain e2 where r2: "timeline_reaches ?t0 e2 ?t2" by auto
  from reach_more [OF reach_self st [of ?t2 "IStarReorged ''x''"]]
  obtain e3 where r3: "timeline_reaches ?t2 e3 ?t3" by auto
  have "tl_istar_final ?t2" "tl_istar ?t2 = Some ?b"
    by (simp_all add: observe_istar_def istar_finalized_def new_timeline_def)
  with istar_final_stable [OF r2 r3] show ?thesis by auto
qed

theorem boundary_window_verdict_witness:
  "tl_boundary_hit (poll_run (fst (observe_istar (new_timeline ''el-1'' 5)
     \<lparr>is_number = 7, is_hash = ''h'', is_time = 6, is_parent_time = 4\<rparr>))
     (replicate 3 (\<lparr>mp_phase = PhaseRunning, mp_binary = None, mp_merkle = None\<rparr>, 11)))"
proof -
  let ?b = "\<lparr>is_number = 7, is_hash = ''h'', is_time = 6, is_parent_time = 4\<rparr>"
  let ?ps = "replicate 3 (\<lparr>mp_phase = PhaseRunning, mp_binary = None, mp_merkle = None\<rparr>, 11 :: u64)"
  have "past_window ?b 2 (?ps ! 2)" "\<forall>j < 2. \<not> parks (?ps ! j)"
    by (simp_all add: past_window_def parks_def is_parked_def nth_replicate)
  moreover have "2 < length ?ps" by simp
  moreover have "tl_boundary_hit (poll_run (fst (observe_istar (new_timeline ''el-1'' 5) ?b)) ?ps) \<longleftrightarrow>
      (\<exists>i < length ?ps. past_window ?b i (?ps ! i) \<and> (\<forall>j < i. \<not> parks (?ps ! j)))"
    using boundary_window_verdict [of "new_timeline ''el-1'' 5" ?b ?ps] by (simp add: new_timeline_def)
  ultimately show ?thesis by blast
qed


theorem quorum_finalize_spec_witness:
  "length (snd (quorum_finalize ((new_quorum 5)\<lparr>q_final := [''a'' \<mapsto>
      \<lparr>is_number = 7, is_hash = ''x'', is_time = 6, is_parent_time = 4\<rparr>]\<rparr>) ''b''
      \<lparr>is_number = 7, is_hash = ''y'', is_time = 6, is_parent_time = 4\<rparr> [''b'', ''a''])) = 1"
proof -
  let ?b = "\<lambda>h. \<lparr>is_number = 7, is_hash = h, is_time = 6, is_parent_time = 4\<rparr>"
  let ?q = "(new_quorum 5)\<lparr>q_final := [''a'' \<mapsto> ?b ''x'']\<rparr>"
  have "enumerates [''b'', ''a''] ((q_final ?q)(''b'' \<mapsto> ?b ''y''))"
    by (auto simp: enumerates_def)
  moreover have "{n. \<exists>r. q_final ?q n = Some r \<and> \<not> same_block r (?b ''y'')} = {''a''}"
    by (auto simp: same_block_def)
  ultimately show ?thesis
    using quorum_finalize_spec [of "[''b'', ''a'']" ?q "''b''" "?b ''y''"] by simp
qed

end
