(* ===== verification/Fifo.thy ===== *)
theory Fifo
  imports Prelude
begin

text \<open>
  The bounded first-in-first-out memory two components keep: a list of keys, oldest first,
  beside an index that answers membership, the oldest key dropped from both when a new key
  would exceed the capacity. The interface states one insertion; the lemmas give what a run
  of insertions keeps.
\<close>

definition fifo_push :: "nat \<Rightarrow> 'k list \<Rightarrow> 'k \<Rightarrow> 'k list" where
  "fifo_push cap ks k = drop (Suc (length ks) - cap) (ks @ [k])"

locale bounded_fifo =
  fixes keys :: "'s \<Rightarrow> 'k list"
    and mem :: "'s \<Rightarrow> 'k \<Rightarrow> bool"
    and put :: "'s \<Rightarrow> 'k \<times> 'v \<Rightarrow> 's"
    and cap :: nat
    and admits :: "'k \<Rightarrow> bool"
  assumes put_keys: "(\<forall>k'. mem s k' \<longleftrightarrow> k' \<in> set (keys s)) \<Longrightarrow> distinct (keys s) \<Longrightarrow> length (keys s) \<le> cap \<Longrightarrow>
      keys (put s (k, v)) = (if mem s k \<or> \<not> admits k then keys s else fifo_push cap (keys s) k)"
    and put_mem: "(\<forall>k'. mem s k' \<longleftrightarrow> k' \<in> set (keys s)) \<Longrightarrow> distinct (keys s) \<Longrightarrow> length (keys s) \<le> cap \<Longrightarrow>
      mem (put s (k, v)) k' \<longleftrightarrow> k' \<in> set (keys (put s (k, v)))"
    and cap_pos: "0 < cap"
begin

definition consistent :: "'s \<Rightarrow> bool" where
  "consistent s \<longleftrightarrow> (\<forall>k. mem s k \<longleftrightarrow> k \<in> set (keys s)) \<and> distinct (keys s) \<and> length (keys s) \<le> cap"

lemma put_consistent:
  assumes "consistent s"
  shows "consistent (put s (k, v))"
proof -
  have c: "\<forall>k. mem s k \<longleftrightarrow> k \<in> set (keys s)" "distinct (keys s)" "length (keys s) \<le> cap"
    using assms by (auto simp: consistent_def)
  have "distinct (fifo_push cap (keys s) k)" if "k \<notin> set (keys s)"
    unfolding fifo_push_def using that c(2) by (intro distinct_drop) simp
  moreover have "length (fifo_push cap (keys s) k) \<le> cap"
    using cap_pos c(3) by (simp add: fifo_push_def)
  ultimately show ?thesis
    using put_mem [OF c] put_keys [OF c] c by (simp add: consistent_def)
qed

lemma puts_consistent: "consistent s \<Longrightarrow> consistent (foldl put s kvs)"
  by (induction kvs arbitrary: s) (auto simp: put_consistent)

lemma put_known: "consistent s \<Longrightarrow> admits k \<Longrightarrow> mem (put s (k, v)) k"
  using put_consistent [of s k v] cap_pos put_keys [of s k v]
  by (auto simp: consistent_def fifo_push_def)

lemma put_after:
  assumes c: "consistent s" and k: "keys s = pre @ k # post" "Suc (length post) < cap"
  shows "\<exists>pre' post'. keys (put s (x, v)) = pre' @ k # post' \<and> length post' \<le> Suc (length post)"
proof (cases "mem s x \<or> \<not> admits x")
  case True
  with c k show ?thesis using put_keys [of s x v] by (auto simp: consistent_def intro: le_SucI)
next
  case False
  have "Suc (length (keys s)) - cap \<le> length pre" using k by simp
  with c k False have "keys (put s (x, v)) = drop (Suc (length (keys s)) - cap) pre @ k # (post @ [x])"
    using put_keys [of s x v] by (simp add: consistent_def fifo_push_def)
  then show ?thesis by (intro exI conjI) auto
qed

lemma retains_from:
  "consistent s \<Longrightarrow> keys s = pre @ k # post \<Longrightarrow> length post + length kvs < cap \<Longrightarrow>
    k \<in> set (keys (foldl put s kvs))"
proof (induction kvs arbitrary: s pre post)
  case (Cons kv kvs)
  obtain x v where kv: "kv = (x, v)" by (cases kv)
  from Cons.prems obtain pre' post' where
    p: "keys (put s (x, v)) = pre' @ k # post'" "length post' \<le> Suc (length post)"
    using put_after [of s pre k post x v] by auto
  then show ?case
    using Cons.IH [OF put_consistent [OF Cons.prems(1)], of x v pre' post'] Cons.prems(3) kv by simp
qed simp

lemma retains:
  assumes "consistent s" "admits k" "length kvs < cap" "\<not> mem s k"
  shows "mem (foldl put (put s (k, v)) kvs) k"
proof -
  have "keys (put s (k, v)) = drop (Suc (length (keys s)) - cap) (keys s) @ k # []"
    using assms put_keys [of s k v] cap_pos by (auto simp: consistent_def fifo_push_def)
  then have "k \<in> set (keys (foldl put (put s (k, v)) kvs))"
    using retains_from [OF put_consistent [OF assms(1)]] assms(3) by fastforce
  then show ?thesis
    using puts_consistent [OF put_consistent [OF assms(1)]] by (auto simp: consistent_def)
qed

end

end
