(* ===== verification/Sampler.thy ===== *)
theory Sampler
  imports Events Fifo "HOL-Library.Multiset"
begin

text \<open>
  Sampling of shadow roots and canonical hashes (\<open>internal/migmon/sampler.go\<close>): the
  cross-node comparison at one height, the null streak of one node, and the memory of sampled
  hashes that turns a changed one into an observed reorg. Go's maps are grouped by sorting
  their keys before anything is emitted, so the comparison needs no iteration order.
\<close>

section \<open>One height across nodes\<close>

record node_sample =
  ns_node :: string
  ns_hash :: string
  ns_root :: string

text \<open>\<open>strings.Join\<close>, and a map's keys sorted.\<close>

fun join :: "string \<Rightarrow> string list \<Rightarrow> string" where
  "join sep [] = ''''"
| "join sep [s] = s"
| "join sep (s # t # ss) = s @ sep @ join sep (t # ss)"

definition sorted_keys :: "('a \<Rightarrow> string) \<Rightarrow> 'a list \<Rightarrow> string list" where
  "sorted_keys f xs = sort (remdups (map f xs))"

definition hash_group :: "node_sample list \<Rightarrow> string \<Rightarrow> node_sample list" where
  "hash_group samples h = filter (\<lambda>s. ns_hash s = h) samples"

definition split_event :: "node_sample list \<Rightarrow> event list" where
  "split_event fetched =
     (let hashes = sorted_keys ns_hash fetched
      in if 1 < length hashes then
           [mk_event EvWarn '''' (lit (''hash-split: '' @ join '' vs ''
              (map (\<lambda>h. h @ ''='' @ join '','' (sort (map ns_node (hash_group fetched h)))) hashes)))]
         else [])"

definition mismatch_event :: "bool \<Rightarrow> string \<Rightarrow> node_sample list \<Rightarrow> event list" where
  "mismatch_event post_istar hash grp =
     (let rooted = filter (\<lambda>s. ns_root s \<noteq> '''') grp;
          root_keys = sorted_keys ns_root rooted
      in if length root_keys < 2 then []
         else
           [(mk_event (if post_istar then EvWarn else EvCritical) ''''
               (lit (join '' vs '' (map (\<lambda>r.
                  join '','' (sort (map ns_node (filter (\<lambda>s. ns_root s = r) rooted))) @ ''='' @ r) root_keys))))
              \<lparr>ev_finding := FindingRootMismatch, ev_hash := hash\<rparr>])"

definition evaluate_sample :: "node_sample list \<Rightarrow> bool \<Rightarrow> event list" where
  "evaluate_sample samples post_istar =
     (let fetched = filter (\<lambda>s. ns_hash s \<noteq> '''') samples
      in split_event fetched @
         concat (map (\<lambda>h. mismatch_event post_istar h (hash_group fetched h)) (sorted_keys ns_hash fetched)))"

lemma sorted_keys_perm:
  assumes "mset xs = mset ys"
  shows "sorted_keys f xs = sorted_keys f ys"
proof -
  have "set xs = set ys" using assms by (rule mset_eq_setD)
  then have "set (remdups (map f xs)) = set (remdups (map f ys))" by simp
  then have "mset (remdups (map f xs)) = mset (remdups (map f ys))"
    by (metis distinct_remdups set_eq_iff_mset_eq_distinct)
  then show ?thesis unfolding sorted_keys_def by (metis mset_sort properties_for_sort sorted_sort)
qed

lemma set_sorted_keys [simp]: "set (sorted_keys f xs) = f ` set xs"
  by (simp add: sorted_keys_def)

lemma distinct_sorted_keys [simp]: "distinct (sorted_keys f xs)"
  by (simp add: sorted_keys_def)

lemma sort_map_perm:
  fixes f :: "'a \<Rightarrow> 'b::linorder"
  shows "mset xs = mset ys \<Longrightarrow> sort (map f xs) = sort (map f ys)"
  by (metis mset_map mset_sort properties_for_sort sorted_sort)

lemma filter_perm: "mset xs = mset ys \<Longrightarrow> mset (filter P xs) = mset (filter P ys)"
  by simp

lemma mismatch_event_perm:
  assumes "mset xs = mset ys"
  shows "mismatch_event p h xs = mismatch_event p h ys"
proof -
  let ?r = "filter (\<lambda>s. ns_root s \<noteq> '''')"
  have r: "mset (?r xs) = mset (?r ys)" using assms by (rule filter_perm)
  have g: "mset (filter P (?r xs)) = mset (filter P (?r ys))" for P using r by (rule filter_perm)
  show ?thesis
    unfolding mismatch_event_def Let_def
    by (simp add: sorted_keys_perm [OF r] sort_map_perm [OF g] del: filter_filter)
qed

text \<open>The findings of one sampled height do not depend on the order the nodes answered
  in, details included.\<close>

theorem evaluate_sample_order:
  assumes "mset xs = mset ys"
  shows "evaluate_sample xs post = evaluate_sample ys post"
proof -
  let ?f = "filter (\<lambda>s. ns_hash s \<noteq> '''')"
  have f: "mset (?f xs) = mset (?f ys)" using assms by simp
  have g: "mset (hash_group (?f xs) h) = mset (hash_group (?f ys) h)" for h
    using f unfolding hash_group_def by (rule filter_perm)
  have "split_event (?f xs) = split_event (?f ys)"
    unfolding split_event_def Let_def
    by (simp add: sorted_keys_perm [OF f] sort_map_perm [OF g])
  then show ?thesis
    unfolding evaluate_sample_def Let_def
    by (simp add: sorted_keys_perm [OF f] mismatch_event_perm [OF g])
qed

theorem evaluate_sample_order_witness:
  "evaluate_sample [\<lparr>ns_node = ''b'', ns_hash = ''h'', ns_root = ''r''\<rparr>,
      \<lparr>ns_node = ''a'', ns_hash = ''h'', ns_root = ''q''\<rparr>] False =
   evaluate_sample [\<lparr>ns_node = ''a'', ns_hash = ''h'', ns_root = ''q''\<rparr>,
      \<lparr>ns_node = ''b'', ns_hash = ''h'', ns_root = ''r''\<rparr>] False"
  by (rule evaluate_sample_order) simp

text \<open>Two nodes on the same block with different roots, neither of them null.\<close>

definition root_mismatch :: "node_sample list \<Rightarrow> string \<Rightarrow> bool" where
  "root_mismatch samples h \<longleftrightarrow> h \<noteq> '''' \<and>
     (\<exists>a \<in> set samples. \<exists>b \<in> set samples. ns_hash a = h \<and> ns_hash b = h \<and>
        ns_root a \<noteq> '''' \<and> ns_root b \<noteq> '''' \<and> ns_root a \<noteq> ns_root b)"

lemma two_keys:
  "1 < length (sorted_keys f xs) \<longleftrightarrow> (\<exists>a \<in> set xs. \<exists>b \<in> set xs. f a \<noteq> f b)"
proof -
  have "length (sorted_keys f xs) = card (f ` set xs)"
    by (metis distinct_card distinct_sorted_keys set_sorted_keys)
  moreover have "1 < card S \<longleftrightarrow> (\<exists>a \<in> S. \<exists>b \<in> S. a \<noteq> b)" if "finite S" for S :: "string set"
    using card_le_Suc0_iff_eq [OF that] by (auto simp: not_le [symmetric])
  ultimately show ?thesis by auto
qed

lemma mismatch_event_hashes:
  assumes "h \<noteq> ''''"
  shows "map ev_hash (mismatch_event p h (hash_group (filter (\<lambda>s. ns_hash s \<noteq> '''') xs) h)) =
     (if root_mismatch xs h then [h] else [])"
proof -
  let ?g = "hash_group (filter (\<lambda>s. ns_hash s \<noteq> '''') xs) h"
  have "1 < length (sorted_keys ns_root (filter (\<lambda>s. ns_root s \<noteq> '''') ?g)) \<longleftrightarrow> root_mismatch xs h"
    (is "_ \<longleftrightarrow> ?R")
  proof -
    let ?in = "\<lambda>a. a \<in> set xs \<and> ns_hash a = h \<and> ns_root a \<noteq> ''''"
    have "a \<in> set (filter (\<lambda>s. ns_root s \<noteq> '''') ?g) \<longleftrightarrow> ?in a" for a
      using assms by (auto simp: hash_group_def)
    then have "1 < length (sorted_keys ns_root (filter (\<lambda>s. ns_root s \<noteq> '''') ?g)) \<longleftrightarrow>
        (\<exists>a. ?in a \<and> (\<exists>b. ?in b \<and> ns_root a \<noteq> ns_root b))"
      unfolding two_keys Bex_def by simp
    also have "\<dots> \<longleftrightarrow> ?R" using assms unfolding root_mismatch_def by blast
    finally show ?thesis .
  qed
  then show ?thesis by (auto simp: mismatch_event_def Let_def not_less)
qed

lemma mismatch_event_all:
  "e \<in> set (mismatch_event p h g) \<Longrightarrow> ev_finding e = FindingRootMismatch \<and>
    ev_kind e = (if p then EvWarn else EvCritical)"
  by (auto simp: mismatch_event_def Let_def split: if_splits)

lemma concat_if_filter: "\<forall>h \<in> set hs. g h = (if P h then [h] else []) \<Longrightarrow> concat (map g hs) = filter P hs"
  by (induction hs) auto

text \<open>C25: A sampled height reports a root mismatch for exactly the block hashes on which two
  nodes hold different roots, neither null, once each, critical before the fork block and a
  warning after it; the split of the canonical hash itself is one warning, never a mismatch,
  and nothing else is reported.\<close>

theorem evaluate_sample_findings:
  "set (map ev_hash (filter (\<lambda>e. ev_finding e = FindingRootMismatch) (evaluate_sample xs post))) =
      {h. root_mismatch xs h} \<and>
   distinct (map ev_hash (filter (\<lambda>e. ev_finding e = FindingRootMismatch) (evaluate_sample xs post))) \<and>
   set (map ev_kind (filter (\<lambda>e. ev_finding e = FindingRootMismatch) (evaluate_sample xs post))) \<subseteq>
      {if post then EvWarn else EvCritical} \<and>
   map ev_kind (filter (\<lambda>e. ev_finding e \<noteq> FindingRootMismatch) (evaluate_sample xs post)) =
     (if \<exists>a \<in> set xs. \<exists>b \<in> set xs. ns_hash a \<noteq> '''' \<and> ns_hash b \<noteq> '''' \<and> ns_hash a \<noteq> ns_hash b
      then [EvWarn] else [])"
proof -
  let ?f = "filter (\<lambda>s. ns_hash s \<noteq> '''') xs"
  let ?ks = "sorted_keys ns_hash ?f"
  let ?m = "\<lambda>h. mismatch_event post h (hash_group ?f h)"
  have e: "evaluate_sample xs post = split_event ?f @ concat (map ?m ?ks)"
    by (simp add: evaluate_sample_def Let_def)
  have split: "\<forall>e \<in> set (split_event ?f). ev_finding e = NoFinding"
    by (auto simp: split_event_def Let_def)
  have mis: "\<forall>e \<in> set (concat (map ?m ?ks)). ev_finding e = FindingRootMismatch \<and>
      ev_kind e = (if post then EvWarn else EvCritical)"
    using mismatch_event_all by fastforce
  have fm: "filter (\<lambda>e. ev_finding e = FindingRootMismatch) (evaluate_sample xs post) = concat (map ?m ?ks)"
    using split mis by (simp add: e filter_empty_conv filter_id_conv)
  have fs: "filter (\<lambda>e. ev_finding e \<noteq> FindingRootMismatch) (evaluate_sample xs post) = split_event ?f"
    using split mis by (simp add: e filter_empty_conv filter_id_conv)
  have "map ev_hash (concat (map ?m ?ks)) = concat (map (\<lambda>h. map ev_hash (?m h)) ?ks)"
    by (simp add: map_concat comp_def)
  also have "\<dots> = filter (root_mismatch xs) ?ks"
    by (rule concat_if_filter) (auto simp: mismatch_event_hashes)
  finally have h: "map ev_hash (concat (map ?m ?ks)) = filter (root_mismatch xs) ?ks" .
  have "map ev_kind (split_event ?f) = (if 1 < length ?ks then [EvWarn] else [])"
    by (simp add: split_event_def Let_def)
  then have k: "map ev_kind (split_event ?f) =
     (if \<exists>a \<in> set xs. \<exists>b \<in> set xs. ns_hash a \<noteq> '''' \<and> ns_hash b \<noteq> '''' \<and> ns_hash a \<noteq> ns_hash b
      then [EvWarn] else [])"
    unfolding two_keys by auto
  show ?thesis
    unfolding fm fs h k using mis split by (auto simp: root_mismatch_def e)
qed

section \<open>Null streaks\<close>

record null_tracker =
  nt_node :: string
  nt_active :: bool
  nt_last_non_null :: gotime
  nt_warn_fired :: bool
  nt_crit_fired :: bool

definition new_null_tracker :: "string \<Rightarrow> null_tracker" where
  "new_null_tracker node = \<lparr>nt_node = node, nt_active = False, nt_last_non_null = zero_time,
     nt_warn_fired = False, nt_crit_fired = False\<rparr>"

definition null_reset :: "null_tracker \<Rightarrow> null_tracker" where
  "null_reset n = n\<lparr>nt_active := False, nt_warn_fired := False, nt_crit_fired := False\<rparr>"

definition null_detail :: "duration \<Rightarrow> detail" where
  "null_detail d = Fmt ''shadow root null for %s while active'' [DI d]"

definition null_observe :: "null_tracker \<Rightarrow> gotime \<Rightarrow> bool \<Rightarrow> bool \<Rightarrow> null_tracker \<times> event list" where
  "null_observe n now act null =
     (if \<not> act then (n\<lparr>nt_active := False, nt_warn_fired := False, nt_crit_fired := False\<rparr>, [])
      else
        let n = (if \<not> nt_active n then n\<lparr>nt_active := True, nt_last_non_null := now\<rparr> else n)
        in if \<not> null then
             (n\<lparr>nt_last_non_null := now, nt_warn_fired := False, nt_crit_fired := False\<rparr>, [])
           else
             let streak = tsub now (nt_last_non_null n)
             in if NullCriticalAfterMinutes * minute < streak \<and> \<not> nt_crit_fired n then
                  (n\<lparr>nt_crit_fired := True, nt_warn_fired := True\<rparr>,
                   [(mk_event EvCritical (nt_node n) (null_detail streak))\<lparr>ev_finding := FindingNullCritical\<rparr>])
                else if NullWarnAfterMinutes * minute < streak \<and> \<not> nt_warn_fired n then
                  (n\<lparr>nt_warn_fired := True\<rparr>,
                   [(mk_event EvWarn (nt_node n) (null_detail streak))\<lparr>ev_finding := FindingNullWarn\<rparr>])
                else (n, []))"

text \<open>A history, newest first: time, active, null. The streak of its newest sample reaches
  back to the last non-null sample of the active run, or to the start of that run.\<close>

type_synonym null_history = "(gotime \<times> bool \<times> bool) list"

definition null_streak :: "null_history \<Rightarrow> gotime list" where
  "null_streak past =
     (let run = takeWhile (\<lambda>(_, act, _). act) past
      in map fst (takeWhile (\<lambda>(_, _, null). null) run @ take 1 (dropWhile (\<lambda>(_, _, null). null) run)))"

definition over :: "duration \<Rightarrow> gotime list \<Rightarrow> bool" where
  "over d ts \<longleftrightarrow> ts \<noteq> [] \<and> d < tsub (hd ts) (last ts)"

definition was_over :: "duration \<Rightarrow> gotime list \<Rightarrow> bool" where
  "was_over d ts \<longleftrightarrow> (\<exists>t \<in> set ts. d < tsub t (last ts))"

definition null_refines :: "null_tracker \<Rightarrow> null_history \<Rightarrow> bool" where
  "null_refines n past \<longleftrightarrow>
     (nt_active n \<longleftrightarrow> null_streak past \<noteq> []) \<and>
     (nt_active n \<longrightarrow> nt_last_non_null n = last (null_streak past)) \<and>
     nt_warn_fired n = was_over (5 * minute) (null_streak past) \<and>
     nt_crit_fired n = was_over (10 * minute) (null_streak past)"

lemma null_streak_Cons:
  "null_streak ((now, act, null) # past) =
     (if \<not> act then [] else if null then now # null_streak past else [now])"
  by (auto simp: null_streak_def Let_def)

lemma was_over_single: "0 < d \<Longrightarrow> \<not> was_over d [t]" "\<not> was_over d []"
  by (simp_all add: was_over_def)

lemma was_over_Cons:
  "was_over d (t # ts) \<longleftrightarrow> over d (t # ts) \<or> ts \<noteq> [] \<and> was_over d ts" if "0 < d"
  using that by (auto simp: was_over_def over_def)

lemma was_over_mono: "was_over d ts \<Longrightarrow> e \<le> d \<Longrightarrow> was_over e ts"
  unfolding was_over_def by (meson le_less_trans)

lemma null_observe_refines:
  fixes now act null past
  assumes r: "null_refines n past"
  defines "ts \<equiv> null_streak ((now, act, null) # past)"
  shows "null_refines (fst (null_observe n now act null)) ((now, act, null) # past)"
    and "map ev_finding (snd (null_observe n now act null)) =
      (if over (10 * minute) ts \<and> \<not> was_over (10 * minute) (tl ts) then [FindingNullCritical]
       else if over (5 * minute) ts \<and> \<not> was_over (5 * minute) (tl ts) then [FindingNullWarn]
       else [])"
proof -
  let ?n = "null_observe n now act null"
  have m: "0 < 5 * minute" "0 < 10 * minute" "5 * minute \<le> 10 * minute" by (simp_all add: minute_def)
  have "null_refines (fst ?n) ((now, act, null) # past) \<and> map ev_finding (snd ?n) =
      (if over (10 * minute) ts \<and> \<not> was_over (10 * minute) (tl ts) then [FindingNullCritical]
       else if over (5 * minute) ts \<and> \<not> was_over (5 * minute) (tl ts) then [FindingNullWarn]
       else [])"
  proof (cases "act \<and> null")
    case False
    then show ?thesis
      using m by (auto simp: null_observe_def null_refines_def ts_def null_streak_Cons was_over_single
          over_def Let_def)
  next
    case True
    then have ts: "ts = now # null_streak past" by (simp add: ts_def null_streak_Cons)
    show ?thesis
    proof (cases "null_streak past")
      case Nil
      with r True m show ?thesis
        by (auto simp: null_observe_def null_refines_def ts_def null_streak_Cons was_over_single
            over_def Let_def)
    next
      case (Cons u us)
      then have ne: "null_streak past \<noteq> []" by simp
      have l: "last ts = last (null_streak past)" "hd ts = now" "tl ts = null_streak past" "ts \<noteq> []"
        using ne by (simp_all add: ts)
      have w: "was_over d ts \<longleftrightarrow> over d ts \<or> was_over d (null_streak past)" if "0 < d" for d
        using was_over_Cons [OF that] ne by (simp add: ts)
      have le: "over (10 * minute) ts \<Longrightarrow> over (5 * minute) ts"
        "was_over (10 * minute) (null_streak past) \<Longrightarrow> was_over (5 * minute) (null_streak past)"
        using m(3) was_over_mono [of "10 * minute" _ "5 * minute"] by (auto simp: over_def)
      from r ne have "nt_active n" "nt_last_non_null n = last (null_streak past)"
        "nt_warn_fired n = was_over (5 * minute) (null_streak past)"
        "nt_crit_fired n = was_over (10 * minute) (null_streak past)"
        by (auto simp: null_refines_def)
      with True le w [OF m(1)] w [OF m(2)] l ne show ?thesis
        unfolding null_refines_def ts_def [symmetric]
        by (auto simp: null_observe_def Let_def over_def)
    qed
  qed
  then show "null_refines (fst ?n) ((now, act, null) # past)"
    and "map ev_finding (snd ?n) =
      (if over (10 * minute) ts \<and> \<not> was_over (10 * minute) (tl ts) then [FindingNullCritical]
       else if over (5 * minute) ts \<and> \<not> was_over (5 * minute) (tl ts) then [FindingNullWarn]
       else [])" by blast+
qed

text \<open>A run of samples and resets; a reset reads as an inactive sample.\<close>

datatype null_op = NullSample gotime bool bool | NullReset

fun null_apply :: "null_tracker \<Rightarrow> null_op \<Rightarrow> null_tracker" where
  "null_apply n (NullSample now act null) = fst (null_observe n now act null)"
| "null_apply n NullReset = null_reset n"

fun null_entry :: "null_op \<Rightarrow> gotime \<times> bool \<times> bool" where
  "null_entry (NullSample now act null) = (now, act, null)"
| "null_entry NullReset = (zero_time, False, False)"

lemma null_apply_refines:
  "null_refines n past \<Longrightarrow> null_refines (foldl null_apply n ops) (rev (map null_entry ops) @ past)"
proof (induction ops arbitrary: n past)
  case (Cons act ops)
  have "null_refines (null_apply n act) (null_entry act # past)"
  proof (cases act)
    case (NullSample now a nul)
    with null_observe_refines(1) [OF Cons.prems] show ?thesis by simp
  next
    case NullReset
    then show ?thesis
      by (simp add: null_reset_def null_refines_def null_streak_Cons was_over_single)
  qed
  from Cons.IH [OF this] show ?case by simp
qed simp

text \<open>C26: Over any run of samples and resets, a sample reports a critical null finding exactly
  when it is the first of its null streak more than ten minutes after the last non-null sample
  of the active run (or its start), and a warning exactly when it is the first more than five
  minutes after and not critical.\<close>

theorem null_findings_exact:
  "map ev_finding (snd (null_observe (foldl null_apply (new_null_tracker node) ops) now act null)) =
    (let ts = null_streak ((now, act, null) # rev (map null_entry ops))
     in if over (10 * minute) ts \<and> \<not> was_over (10 * minute) (tl ts) then [FindingNullCritical]
        else if over (5 * minute) ts \<and> \<not> was_over (5 * minute) (tl ts) then [FindingNullWarn]
        else [])"
proof -
  have "null_refines (new_null_tracker node) []"
    by (simp add: null_refines_def new_null_tracker_def null_streak_def was_over_def)
  from null_apply_refines [OF this, of ops]
  have "null_refines (foldl null_apply (new_null_tracker node) ops) (rev (map null_entry ops))"
    by simp
  from null_observe_refines(2) [OF this] show ?thesis by (simp add: Let_def)
qed

section \<open>Observed reorgs\<close>

record reorg_memory =
  rm_node :: string
  rm_hash :: "u64 \<rightharpoonup> string"
  rm_order :: "u64 list"

abbreviation "reorgMemoryCap \<equiv> (512 :: nat)"

definition new_reorg_memory :: "string \<Rightarrow> reorg_memory" where
  "new_reorg_memory node = \<lparr>rm_node = node, rm_hash = Map.empty, rm_order = []\<rparr>"

definition reorg_observe :: "reorg_memory \<Rightarrow> u64 \<Rightarrow> string \<Rightarrow> u64 \<Rightarrow> reorg_memory \<times> event list" where
  "reorg_observe m height hash head =
     (case rm_hash m height of
        Some prev \<Rightarrow>
          if prev = hash then (m, [])
          else
            let depth = (if height < head then sint (head - height) else 0)
            in (m\<lparr>rm_hash := (rm_hash m)(height \<mapsto> hash)\<rparr>,
                [(mk_event EvReorg (rm_node m) (Fmt ''%s -> %s (depth %d)'' [DS prev, DS hash, DI depth]))
                   \<lparr>ev_number := height\<rparr>])
      | None \<Rightarrow>
          let m = m\<lparr>rm_hash := (rm_hash m)(height \<mapsto> hash), rm_order := rm_order m @ [height]\<rparr>
          in if reorgMemoryCap < length (rm_order m) then
               (m\<lparr>rm_hash := (rm_hash m)(hd (rm_order m) := None), rm_order := tl (rm_order m)\<rparr>, [])
             else (m, []))"

text \<open>The most recently remembered heights, newest first.\<close>

definition recent :: "reorg_memory \<Rightarrow> nat \<Rightarrow> u64 list" where
  "recent m n =
     (let n = (if length (rm_order m) < n then length (rm_order m) else n)
      in map (\<lambda>i. rm_order m ! (length (rm_order m) - 1 - i)) [0..<n])"

definition reorg_put :: "reorg_memory \<Rightarrow> u64 \<times> string \<times> u64 \<Rightarrow> reorg_memory" where
  "reorg_put m = (\<lambda>(height, hash, head). fst (reorg_observe m height hash head))"

lemma fifo_push_snoc:
  "length ks \<le> n \<Longrightarrow> 0 < n \<Longrightarrow>
    fifo_push n ks k = (if length ks = n then tl ks @ [k] else ks @ [k])"
  by (cases ks) (auto simp: fifo_push_def)

lemma reorg_put_fields:
  "rm_order (reorg_put m (h, x, hd')) =
     (if h \<in> dom (rm_hash m) then rm_order m
      else if reorgMemoryCap \<le> length (rm_order m) then tl (rm_order m @ [h]) else rm_order m @ [h])"
  "rm_hash (reorg_put m (h, x, hd')) =
     (if h \<in> dom (rm_hash m) \<or> length (rm_order m) < reorgMemoryCap then (rm_hash m)(h \<mapsto> x)
      else ((rm_hash m)(h \<mapsto> x))(hd (rm_order m @ [h]) := None))"
  by (auto simp: reorg_put_def reorg_observe_def Let_def map_upd_triv split: option.splits)

interpretation rmem: bounded_fifo rm_order "\<lambda>m h. h \<in> dom (rm_hash m)" reorg_put reorgMemoryCap "\<lambda>_. True"
proof
  fix m :: reorg_memory and k k' :: u64 and v :: "string \<times> u64"
  assume a: "\<forall>k'. (k' \<in> dom (rm_hash m)) = (k' \<in> set (rm_order m))" "distinct (rm_order m)"
    "length (rm_order m) \<le> reorgMemoryCap"
  obtain x hd' where v: "v = (x, hd')" by (cases v)
  have k: "k \<in> dom (rm_hash m) \<longleftrightarrow> k \<in> set (rm_order m)" using a(1) by simp
  show o: "rm_order (reorg_put m (k, v)) =
      (if k \<in> dom (rm_hash m) \<or> \<not> True then rm_order m else fifo_push reorgMemoryCap (rm_order m) k)"
    using a(3) by (auto simp: v reorg_put_fields fifo_push_snoc tl_append split: list.splits)
  show "(k' \<in> dom (rm_hash (reorg_put m (k, v)))) = (k' \<in> set (rm_order (reorg_put m (k, v))))"
  proof (cases "rm_order m")
    case Nil
    with a k show ?thesis by (auto simp: v reorg_put_fields)
  next
    case (Cons y ys)
    with a k show ?thesis by (auto simp: v reorg_put_fields)
  qed
qed simp

lemma new_memory_consistent: "rmem.consistent (new_reorg_memory node)"
  by (simp add: rmem.consistent_def new_reorg_memory_def)

text \<open>The memory after a run of observations from an empty one.\<close>

definition remembered :: "string \<Rightarrow> (u64 \<times> string \<times> u64) list \<Rightarrow> reorg_memory" where
  "remembered node obs = foldl reorg_put (new_reorg_memory node) obs"

lemma remembered_consistent: "rmem.consistent (remembered node obs)"
  unfolding remembered_def by (rule rmem.puts_consistent [OF new_memory_consistent])

text \<open>The reorg memory never holds more than 512 heights, each once, and its index answers
  for exactly the heights in its queue.\<close>

theorem reorg_memory_bounded:
  "length (rm_order (remembered node obs)) \<le> 512 \<and> distinct (rm_order (remembered node obs)) \<and>
   dom (rm_hash (remembered node obs)) = set (rm_order (remembered node obs))"
  using remembered_consistent [of node obs] by (auto simp: rmem.consistent_def)

lemma reorg_put_other: "h' \<noteq> h \<Longrightarrow> rm_hash (reorg_put m (h', x, t)) h \<noteq> None \<Longrightarrow>
    rm_hash (reorg_put m (h', x, t)) h = rm_hash m h"
  by (auto simp: reorg_put_fields split: if_splits)

lemma reorg_puts_other:
  "rmem.consistent m \<Longrightarrow> \<forall>e \<in> set obs. fst e \<noteq> h \<Longrightarrow> rm_hash (foldl reorg_put m obs) h \<noteq> None \<Longrightarrow>
    rm_hash (foldl reorg_put m obs) h = rm_hash m h"
proof (induction obs rule: rev_induct)
  case (snoc e obs)
  obtain h' x t where e: "e = (h', x, t)" by (cases e)
  with snoc.prems have "h' \<noteq> h" by simp
  with snoc e reorg_put_other [of h' h "foldl reorg_put m obs" x t] show ?case by simp
qed simp

text \<open>A node whose canonical hash at a newly remembered height changes is reported as an
  observed reorg of that height, whatever else is sampled in between, as long as fewer than
  512 samples of other heights come between the two reads.\<close>

theorem changed_hash_is_reorg:
  assumes new: "h \<notin> set (rm_order (remembered node obs))"
    and between: "length obs' < 512" "\<forall>e \<in> set obs'. fst e \<noteq> h" and "x \<noteq> y"
  shows "map (\<lambda>e. (ev_kind e, ev_node e, ev_number e))
      (snd (reorg_observe (remembered node (obs @ (h, x, t) # obs')) h y head)) = [(EvReorg, node, h)]"
proof -
  let ?m = "remembered node obs"
  let ?m1 = "reorg_put ?m (h, x, t)"
  let ?m2 = "foldl reorg_put ?m1 obs'"
  have c: "rmem.consistent ?m" by (rule remembered_consistent)
  with new have nm: "h \<notin> dom (rm_hash ?m)" by (auto simp: rmem.consistent_def)
  have "rm_hash ?m2 h \<noteq> None"
    using rmem.retains [OF c, where k = h and kvs = obs' and v = "(x, t)"] nm between(1) by (simp add: domIff)
  then have "rm_hash ?m2 h = rm_hash ?m1 h"
    using reorg_puts_other [OF rmem.put_consistent [OF c] between(2)] by simp
  moreover have "rm_hash ?m1 h \<noteq> None" using calculation \<open>rm_hash ?m2 h \<noteq> None\<close> by simp
  then have "rm_hash ?m1 h = Some x" by (auto simp: reorg_put_fields split: if_splits)
  moreover have "rm_node ?m2 = node"
  proof -
    have put: "rm_node (reorg_put m e) = rm_node m" for m e
      by (cases e) (auto simp: reorg_put_def reorg_observe_def Let_def split: option.splits)
    have "rm_node (foldl reorg_put m es) = rm_node m" for m es
      by (induction es arbitrary: m) (simp_all add: put)
    then show ?thesis by (simp add: remembered_def put new_reorg_memory_def)
  qed
  moreover have "remembered node (obs @ (h, x, t) # obs') = ?m2" by (simp add: remembered_def)
  ultimately show ?thesis using \<open>x \<noteq> y\<close> by (simp add: reorg_observe_def Let_def)
qed

theorem changed_hash_is_reorg_witness:
  "map (\<lambda>e. (ev_kind e, ev_node e, ev_number e))
      (snd (reorg_observe (remembered ''el-1'' ([] @ (7, ''a'', 9) # [(8, ''b'', 9)])) 7 ''c'' 10)) =
    [(EvReorg, ''el-1'', 7)]"
  by (rule changed_hash_is_reorg) (simp_all add: remembered_def new_reorg_memory_def)

end
