(* ===== verification/SwapGate.thy ===== *)
theory SwapGate
  imports Dump Events
begin

text \<open>
  The gates of the offline swap (\<open>cmd/migration-swap/gate.go\<close>, \<open>swap.go\<close>,
  \<open>producers.go\<close>) and the records they fill (\<open>internal/migmon/offline.go\<close>): the
  pessimistic evidence a run starts from, how long the schedule leaves the network alone,
  and the decisions to export, swap, wait or skip. Unix seconds are \<open>int64\<close>, so their sums
  wrap (\<open>wrap64\<close>). A polling loop is a function of the polls it makes, \<open>None\<close> when they end
  before it decides. Hashes are compared with ASCII case folding; \<open>strings.EqualFold\<close> folds
  the rest of Unicode too, which a hexadecimal hash has none of.
\<close>

section \<open>Records\<close>

record offline_producer =
  op_node :: int
  op_kind :: string
  op_consumers :: "int list"

record offline_consumer =
  oc_node :: int
  oc_expected :: int
  oc_timeout :: int

record offline =
  of_enabled :: bool
  of_export_after :: int
  of_margin :: int
  of_producers :: "offline_producer list"
  of_consumers :: "offline_consumer list"
  of_online_only :: "(int \<times> string) list"
  of_validating :: int

record producer_record =
  pr_node :: int
  pr_kind :: string
  pr_status :: string
  pr_detail :: detail
  pr_anchor :: u64
  pr_anchor_hash :: string
  pr_anchor_state_root :: string
  pr_pbt_root :: string
  pr_shadow_roots :: "(string \<times> string) list"
  pr_started_at :: int
  pr_exported_at :: int
  pr_down_from :: int
  pr_down_to :: int
  pr_dir :: string
  pr_consumers :: "int list"

record swap_record =
  sw_node :: int
  sw_producer :: int
  sw_anchor :: u64
  sw_anchor_hash :: string
  sw_status :: string
  sw_detail :: detail
  sw_finalized_at_stop :: u64
  sw_stop_at :: int
  sw_start_at :: int
  sw_reachable_at :: int
  sw_caught_up_at :: int
  sw_evidence_dir :: string

record evidence =
  ev_producers :: "producer_record list"
  ev_swaps :: "swap_record list"

abbreviation "CaughtUpLag \<equiv> (2 :: u64)"

datatype lifecycle_step =
    StepExporting | StepExported | StepExportFailed | StepPending | StepDisconnecting
  | StepImporting | StepReconnecting | StepReplaying | StepCaughtUp | StepFailed
  | StepTimeout | StepSkipped | StepNoImporter

section \<open>The evidence a run starts from\<close>

definition new_producer :: "offline_producer \<Rightarrow> producer_record" where
  "new_producer p =
     \<lparr>pr_node = op_node p, pr_kind = op_kind p, pr_status = ''failed'', pr_detail = lit ''not run'',
      pr_anchor = 0, pr_anchor_hash = '''', pr_anchor_state_root = '''', pr_pbt_root = '''',
      pr_shadow_roots = [], pr_started_at = 0, pr_exported_at = 0, pr_down_from = 0, pr_down_to = 0,
      pr_dir = ''artifacts/node-'' @ show_int (op_node p), pr_consumers = op_consumers p\<rparr>"

definition new_swap :: "int \<Rightarrow> int \<Rightarrow> swap_record" where
  "new_swap node producer =
     \<lparr>sw_node = node, sw_producer = producer, sw_anchor = 0, sw_anchor_hash = '''',
      sw_status = ''skipped'', sw_detail = lit ''not reached'', sw_finalized_at_stop = 0,
      sw_stop_at = 0, sw_start_at = 0, sw_reachable_at = 0, sw_caught_up_at = 0,
      sw_evidence_dir = ''artifacts/consumer-node-'' @ show_int node\<rparr>"

datatype evidence_error = UnknownKind int string | NoProducer int

text \<open>The producers in order, and the map from each consumer to its producer's node: a later
  producer claiming the same consumer overwrites an earlier one.\<close>

fun seed_producers ::
  "offline_producer list \<Rightarrow> (int \<rightharpoonup> int) \<Rightarrow> evidence_error + producer_record list \<times> (int \<rightharpoonup> int)"
where
  "seed_producers [] of' = Inr ([], of')"
| "seed_producers (p # ps) of' =
     (if op_kind p \<noteq> ''geth-convert'' \<and> op_kind p \<noteq> ''erigon-export'' then
        Inl (UnknownKind (op_node p) (op_kind p))
      else
        (case seed_producers ps (foldl (\<lambda>m c. m(c \<mapsto> op_node p)) of' (op_consumers p)) of
           Inl e \<Rightarrow> Inl e
         | Inr (prs, m) \<Rightarrow> Inr (new_producer p # prs, m)))"

fun seed_swaps :: "offline_consumer list \<Rightarrow> (int \<rightharpoonup> int) \<Rightarrow> evidence_error + swap_record list" where
  "seed_swaps [] of' = Inr []"
| "seed_swaps (c # cs) of' =
     (case of' (oc_node c) of
        None \<Rightarrow> Inl (NoProducer (oc_node c))
      | Some p \<Rightarrow>
          (case seed_swaps cs of' of
             Inl e \<Rightarrow> Inl e
           | Inr sws \<Rightarrow> Inr (new_swap (oc_node c) p # sws)))"

definition new_evidence :: "offline \<Rightarrow> evidence_error + evidence" where
  "new_evidence cfg =
     (case seed_producers (of_producers cfg) Map.empty of
        Inl e \<Rightarrow> Inl e
      | Inr (prs, m) \<Rightarrow>
          (case seed_swaps (of_consumers cfg) m of
             Inl e \<Rightarrow> Inl e
           | Inr sws \<Rightarrow> Inr \<lparr>ev_producers = prs, ev_swaps = sws\<rparr>))"

section \<open>The gates\<close>

definition gapHorizon :: duration where
  [go_defs]: "gapHorizon = 3600 * second"

abbreviation "exportGap \<equiv> (180 :: int)"
abbreviation "swapSlack \<equiv> (120 :: int)"
abbreviation "epochSeconds \<equiv> (192 :: int)"

definition chaos_free :: "dump \<Rightarrow> gotime \<Rightarrow> duration \<Rightarrow> int" where
  "chaos_free d now horizon =
     (case gaps d now (now + horizon) of
        [] \<Rightarrow> 0
      | g # _ \<Rightarrow> if now < fst g then 0 else go_div (tsub (snd g) now) second)"

definition too_late :: "int \<Rightarrow> int \<Rightarrow> int \<Rightarrow> int \<Rightarrow> bool" where
  "too_late now fork expected margin \<longleftrightarrow> fork < wrap64 (wrap64 (now + expected) + margin)"

record export_state =
  es_now :: int
  es_not_before :: int
  es_partitions :: int
  es_gap :: int
  es_down :: "string list"

datatype export_block =
    NotBefore int | ExportPartitionsUnknown | ExportPartitions int | ExportGap int | NotAnswering "string list"

definition export_blocker :: "export_state \<Rightarrow> export_block option" where
  "export_blocker s =
     (if es_now s < es_not_before s then Some (NotBefore (es_not_before s))
      else if es_partitions s < 0 then Some ExportPartitionsUnknown
      else if 0 < es_partitions s then Some (ExportPartitions (es_partitions s))
      else if es_gap s < exportGap then Some (ExportGap (es_gap s))
      else if es_down s \<noteq> [] then Some (NotAnswering (es_down s))
      else None)"

text \<open>\<open>waitExportGate\<close> over its polls: the time, what disruptoor and the clients answer.\<close>

fun wait_export_gate :: "int \<Rightarrow> int \<Rightarrow> dump \<Rightarrow> (int \<times> int \<times> string list) list \<Rightarrow> bool option" where
  "wait_export_gate fork not_before d [] = None"
| "wait_export_gate fork not_before d ((now, parts, down) # polls) =
     (if fork < now then Some False
      else if export_blocker
            \<lparr>es_now = now, es_not_before = not_before, es_partitions = parts,
             es_gap = chaos_free d (tunix now) gapHorizon, es_down = down\<rparr> = None then Some True
      else wait_export_gate fork not_before d polls)"

datatype swap_verdict = Wait | Proceed | Skip | Reorged

record swap_state =
  ss_now :: int
  ss_fork :: int
  ss_expected :: int
  ss_margin :: int
  ss_anchor :: u64
  ss_anchor_hash :: string
  ss_finalized :: "header option"
  ss_canonical :: string
  ss_epoch :: int
  ss_down :: "string list"
  ss_partitions :: int
  ss_gap :: int
  ss_prev_behind :: bool
  ss_prev_failed :: bool

definition lower :: "char \<Rightarrow> char" where
  "lower c = (if 65 \<le> (of_char c :: nat) \<and> (of_char c :: nat) \<le> 90 then char_of (of_char c + 32 :: nat) else c)"

definition equal_fold :: "string \<Rightarrow> string \<Rightarrow> bool" where
  "equal_fold s t \<longleftrightarrow> map lower s = map lower t"

definition stale_finality :: "swap_state \<Rightarrow> bool" where
  "stale_finality s \<longleftrightarrow>
     (case ss_finalized s of
        None \<Rightarrow> False
      | Some f \<Rightarrow> wrap64 (4 * ss_epoch s) < wrap64 (ss_now s - sint (h_time f)))"

datatype swap_reason =
    NoReason | TooLate int int int int | AnchorReorged u64 string string | PrevFailedStale
  | FinalityUnknown | NotFinalized u64 u64 | AnchorUnknown | FinalityStale int
  | Unhealthy "string list" | PartitionsUnknown | PartitionsApplied int | GapShort int int | PrevBehind

definition decide_swap :: "swap_state \<Rightarrow> swap_verdict \<times> swap_reason" where
  "decide_swap s =
     (if too_late (ss_now s) (ss_fork s) (ss_expected s) (ss_margin s) then
        (Skip, TooLate (ss_now s) (ss_expected s) (ss_margin s) (ss_fork s))
      else if (case ss_finalized s of None \<Rightarrow> False | Some f \<Rightarrow> ss_anchor s \<le> h_number f) \<and>
              ss_canonical s \<noteq> '''' \<and> \<not> equal_fold (ss_canonical s) (ss_anchor_hash s) then
        (Reorged, AnchorReorged (ss_anchor s) (ss_canonical s) (ss_anchor_hash s))
      else if stale_finality s \<and> ss_prev_failed s then (Skip, PrevFailedStale)
      else
        (case ss_finalized s of
           None \<Rightarrow> (Wait, FinalityUnknown)
         | Some f \<Rightarrow>
             if h_number f < ss_anchor s then (Wait, NotFinalized (ss_anchor s) (h_number f))
             else if ss_canonical s = '''' then (Wait, AnchorUnknown)
             else if stale_finality s then (Wait, FinalityStale (wrap64 (ss_now s - sint (h_time f))))
             else if ss_down s \<noteq> [] then (Wait, Unhealthy (ss_down s))
             else if ss_partitions s < 0 then (Wait, PartitionsUnknown)
             else if 0 < ss_partitions s then (Wait, PartitionsApplied (ss_partitions s))
             else if ss_gap s < wrap64 (ss_expected s + swapSlack) then
               (Wait, GapShort (ss_gap s) (wrap64 (ss_expected s + swapSlack)))
             else if ss_prev_behind s then (Wait, PrevBehind)
             else (Proceed, NoReason)))"

text \<open>What one poll of \<open>waitSwapGate\<close> reads: the time, node 1's finalized header and its
  hash at the anchor (read only when finality has reached it), the unhealthy others,
  disruptoor's count, and the heads of node 1 and of the previous consumer.\<close>

record gate_poll =
  gp_now :: int
  gp_finalized :: "header option"
  gp_at_anchor :: "header option"
  gp_down :: "string list"
  gp_partitions :: int
  gp_ref_head :: "u64 option"
  gp_prev_head :: "u64 option"

definition el_behind :: "u64 option \<Rightarrow> u64 option \<Rightarrow> bool" where
  "el_behind ref head =
     (case (ref, head) of (Some r, Some h) \<Rightarrow> h + CaughtUpLag < r | _ \<Rightarrow> True)"

definition gate_state ::
  "int \<Rightarrow> int \<Rightarrow> dump \<Rightarrow> offline_consumer \<Rightarrow> producer_record \<Rightarrow> int \<Rightarrow> bool \<Rightarrow> gate_poll \<Rightarrow> swap_state"
where
  "gate_state fork margin d c prd prev_node any_failed p =
     \<lparr>ss_now = gp_now p, ss_fork = fork, ss_expected = oc_expected c, ss_margin = margin,
      ss_anchor = pr_anchor prd, ss_anchor_hash = pr_anchor_hash prd,
      ss_finalized = gp_finalized p,
      ss_canonical =
        (case gp_finalized p of
           None \<Rightarrow> ''''
         | Some f \<Rightarrow>
             if pr_anchor prd \<le> h_number f then
               (case gp_at_anchor p of None \<Rightarrow> '''' | Some h \<Rightarrow> h_hash h)
             else ''''),
      ss_epoch = epochSeconds, ss_down = gp_down p, ss_partitions = gp_partitions p,
      ss_gap = chaos_free d (tunix (gp_now p)) gapHorizon,
      ss_prev_behind = (prev_node \<noteq> 0 \<and> el_behind (gp_ref_head p) (gp_prev_head p)),
      ss_prev_failed = any_failed\<rparr>"

datatype gate_outcome = GateProceed gate_poll | GateSkip swap_reason | GateReorged swap_reason

fun wait_swap_gate ::
  "int \<Rightarrow> int \<Rightarrow> dump \<Rightarrow> offline_consumer \<Rightarrow> producer_record \<Rightarrow> int \<Rightarrow> bool \<Rightarrow> gate_poll list \<Rightarrow>
     gate_outcome option"
where
  "wait_swap_gate fork margin d c prd prev_node any_failed [] = None"
| "wait_swap_gate fork margin d c prd prev_node any_failed (p # polls) =
     (let (v, reason) = decide_swap (gate_state fork margin d c prd prev_node any_failed p)
      in if v = Proceed then Some (GateProceed p)
         else if v = Skip then Some (GateSkip reason)
         else if v = Reorged then Some (GateReorged reason)
         else wait_swap_gate fork margin d c prd prev_node any_failed polls)"

definition migration_caught_up :: "progress \<Rightarrow> u64 \<Rightarrow> bool" where
  "migration_caught_up prog tip =
     (case mp_binary prog of None \<Rightarrow> False | Some b \<Rightarrow> tip \<le> dp_cursor b + CaughtUpLag)"

section \<open>One swap\<close>

text \<open>The world's answers to one \<open>swapBody\<close>: an error is \<open>Some\<close> text. \<open>be_staging\<close> are the
  errors of the host-side staging writes in order: snapshot, preimages, the client's marker
  and, for nethermind, the flags. \<open>corrupt-preimages\<close>, the injected fault, changes a staged
  file only and shows as the client's answers. Each poll carries the clock readings the code
  takes in it.\<close>

record body_poll =
  bp_running :: "string + bool"
  bp_failed_marker :: bool
  bp_url :: bool
  bp_head_ok :: bool
  bp_reach_at :: int
  bp_caught :: "string + bool"
  bp_caught_at :: int
  bp_now :: gotime

record body_env =
  be_container_err :: "string option"
  be_client :: string
  be_staging :: "string option list"
  be_finalized :: "header option"
  be_stop_err :: "string option"
  be_stop_at :: int
  be_copy_err :: "string option"
  be_start_at :: int
  be_polls :: "body_poll list"

type_synonym post = "int \<times> lifecycle_step \<times> u64 \<times> string \<times> detail"

definition datadir_for :: "string \<Rightarrow> string" where
  "datadir_for client =
     (if client = ''geth'' then ''/data/geth/execution-data''
      else if client = ''nethermind'' then ''/data/nethermind/execution-data'' else '''')"

definition swap_fail ::
  "producer_record \<Rightarrow> swap_record \<Rightarrow> detail \<Rightarrow> swap_record \<times> post list \<times> string option"
where
  "swap_fail prd sw d =
     (sw\<lparr>sw_status := ''failed'', sw_detail := d\<rparr>,
      [(sw_node sw, StepFailed, pr_anchor prd, pr_anchor_hash prd, d)], Some ''failed'')"

definition then_post ::
  "post list \<Rightarrow> swap_record \<times> post list \<times> string option \<Rightarrow> swap_record \<times> post list \<times> string option"
where
  "then_post ps r = (case r of (sw, qs, st) \<Rightarrow> (sw, ps @ qs, st))"

text \<open>The polling loop; without a status the polls ended before the swap did.\<close>

fun body_polls ::
  "producer_record \<Rightarrow> int \<Rightarrow> gotime \<Rightarrow> swap_record \<Rightarrow> bool \<Rightarrow> body_poll list \<Rightarrow>
     swap_record \<times> post list \<times> string option"
where
  "body_polls prd timeout deadline sw reachable [] = (sw, [], None)"
| "body_polls prd timeout deadline sw reachable (p # ps) =
     (if bp_running p = Inr False then swap_fail prd sw (lit ''container is not running'')
      else if bp_failed_marker p then swap_fail prd sw (lit ''pbt-swap/failed marker present'')
      else
        let newly = (bp_url p \<and> \<not> reachable \<and> bp_head_ok p);
            reachable' = (reachable \<or> newly);
            sw = (if newly then sw\<lparr>sw_reachable_at := bp_reach_at p\<rparr> else sw);
            posts = (if newly then [(sw_node sw, StepReconnecting, pr_anchor prd, pr_anchor_hash prd, no_detail)] else [])
        in if bp_url p \<and> reachable' \<and> bp_caught p = Inr True then
             (sw\<lparr>sw_caught_up_at := bp_caught_at p, sw_status := ''ok'', sw_detail := no_detail\<rparr>,
              posts @ [(sw_node sw, StepCaughtUp, pr_anchor prd, pr_anchor_hash prd, no_detail)], Some ''ok'')
           else if deadline < bp_now p then
             (sw\<lparr>sw_status := ''timeout'',
                 sw_detail := Fmt ''no caught_up within %ds of stop'' [DI timeout]\<rparr>,
              posts @ [(sw_node sw, StepTimeout, pr_anchor prd, pr_anchor_hash prd, no_detail)], Some ''timeout'')
           else then_post posts (body_polls prd timeout deadline sw reachable' ps))"

definition first_error :: "string option list \<Rightarrow> string option" where
  "first_error es = (case filter (\<lambda>e. e \<noteq> None) es of [] \<Rightarrow> None | e # _ \<Rightarrow> e)"

definition swap_body ::
  "offline_consumer \<Rightarrow> swap_record \<Rightarrow> producer_record \<Rightarrow> body_env \<Rightarrow> swap_record \<times> post list \<times> string option"
where
  "swap_body c sw prd env =
     (case be_container_err env of
        Some e \<Rightarrow> swap_fail prd sw (lit e)
      | None \<Rightarrow>
          if datadir_for (be_client env) = '''' then
            swap_fail prd sw (Fmt ''no known datadir for client %q'' [DS (be_client env)])
          else
            (case first_error (be_staging env) of
               Some e \<Rightarrow> swap_fail prd sw (lit e)
             | None \<Rightarrow>
                 let fin = (case be_finalized env of None \<Rightarrow> 0 | Some f \<Rightarrow> h_number f);
                     disc = [(sw_node sw, StepDisconnecting, pr_anchor prd, pr_anchor_hash prd, no_detail)]
                 in (case be_stop_err env of
                       Some e \<Rightarrow> then_post disc (swap_fail prd sw (Fmt ''stopping EL: %v'' [DS e]))
                     | None \<Rightarrow>
                         let sw = sw\<lparr>sw_anchor := pr_anchor prd, sw_anchor_hash := pr_anchor_hash prd,
                                     sw_finalized_at_stop := fin, sw_stop_at := be_stop_at env\<rparr>
                         in (case be_copy_err env of
                               Some e \<Rightarrow>
                                 then_post disc (swap_fail prd sw (Fmt ''copying pbt-swap in: %v'' [DS e]))
                             | None \<Rightarrow>
                                 let imp = [(sw_node sw, StepImporting, pr_anchor prd, pr_anchor_hash prd, no_detail)];
                                     sw = sw\<lparr>sw_start_at := be_start_at env\<rparr>;
                                     deadline = tunix (be_stop_at env) + wrap64 (oc_timeout c * second)
                                 in then_post (disc @ imp)
                                      (body_polls prd (oc_timeout c) deadline sw False (be_polls env))))))"

section \<open>The queue\<close>

definition skip_swap :: "swap_record \<Rightarrow> detail \<Rightarrow> swap_record \<times> post list" where
  "skip_swap sw d =
     (sw\<lparr>sw_status := ''skipped'', sw_detail := d\<rparr>, [(sw_node sw, StepSkipped, 0, '''', d)])"

text \<open>The first record of a node, replaced.\<close>

fun set_swap :: "swap_record list \<Rightarrow> int \<Rightarrow> swap_record \<Rightarrow> swap_record list" where
  "set_swap [] n s' = []"
| "set_swap (s # ss) n s' = (if sw_node s = n then s' # ss else s # set_swap ss n s')"

fun fail_producer :: "producer_record list \<Rightarrow> int \<Rightarrow> detail \<Rightarrow> producer_record list" where
  "fail_producer [] n d = []"
| "fail_producer (p # ps) n d =
     (if pr_node p = n then p\<lparr>pr_status := ''failed'', pr_detail := d\<rparr> # ps else p # fail_producer ps n d)"

definition find_swap :: "evidence \<Rightarrow> int \<Rightarrow> swap_record option" where
  "find_swap e n = List.find (\<lambda>s. sw_node s = n) (ev_swaps e)"

definition find_producer :: "evidence \<Rightarrow> int \<Rightarrow> producer_record option" where
  "find_producer e n = List.find (\<lambda>p. pr_node p = n) (ev_producers e)"

definition reason_detail :: "swap_reason \<Rightarrow> detail" where
  "reason_detail r = (case r of
      TooLate n e m f \<Rightarrow> Fmt ''too late: %d+%d+%d > fork %d'' [DI n, DI e, DI m, DI f]
    | AnchorReorged a c h \<Rightarrow> Fmt ''anchor %d is %s on node 1, not %s'' [DI (uint a), DS c, DS h]
    | PrevFailedStale \<Rightarrow> lit ''a previous swap failed and finality is stale''
    | _ \<Rightarrow> no_detail)"

text \<open>\<open>runSwaps\<close>: each consumer comes with the polls of its gate and the world its swap meets.
  The last component is what the run did with each consumer; it ends early, and so has
  fewer entries than consumers, when a gate or a swap is still polling.\<close>

datatype outcome = NotStarted | Started gate_poll int bool string

record queue_result =
  qr_evidence :: evidence
  qr_posts :: "post list"
  qr_outcomes :: "(int \<times> outcome) list"

fun run_swaps ::
  "int \<Rightarrow> int \<Rightarrow> dump \<Rightarrow> evidence \<Rightarrow> int \<Rightarrow> bool \<Rightarrow>
     (offline_consumer \<times> gate_poll list \<times> body_env) list \<Rightarrow> queue_result"
where
  "run_swaps fork margin d ev prev_node any_failed [] =
     \<lparr>qr_evidence = ev, qr_posts = [], qr_outcomes = []\<rparr>"
| "run_swaps fork margin d ev prev_node any_failed ((c, polls, env) # rest) =
     (let n = oc_node c;
          sw = the (find_swap ev n);
          prd = the (find_producer ev (sw_producer sw));
          skipping = (\<lambda>ev d'. let (sw', ps) = skip_swap sw d';
                                 r = run_swaps fork margin d (ev\<lparr>ev_swaps := set_swap (ev_swaps ev) n sw'\<rparr>)
                                       prev_node any_failed rest
                             in r\<lparr>qr_posts := ps @ qr_posts r, qr_outcomes := (n, NotStarted) # qr_outcomes r\<rparr>)
      in if pr_status prd \<noteq> ''ok'' then
           skipping ev (Fmt ''producer node-%d did not export'' [DI (sw_producer sw)])
         else
           (case wait_swap_gate fork margin d c prd prev_node any_failed polls of
              None \<Rightarrow> \<lparr>qr_evidence = ev, qr_posts = [], qr_outcomes = []\<rparr>
            | Some (GateSkip reason) \<Rightarrow> skipping ev (reason_detail reason)
            | Some (GateReorged reason) \<Rightarrow>
                skipping (ev\<lparr>ev_producers := fail_producer (ev_producers ev) (pr_node prd) (reason_detail reason)\<rparr>)
                  (reason_detail reason)
            | Some (GateProceed p) \<Rightarrow>
                (case swap_body c sw prd env of (sw', ps, status) \<Rightarrow>
                   let ev' = ev\<lparr>ev_swaps := set_swap (ev_swaps ev) n sw'\<rparr>
                   in (case status of
                         None \<Rightarrow> \<lparr>qr_evidence = ev', qr_posts = ps, qr_outcomes = []\<rparr>
                       | Some st \<Rightarrow>
                           let bad = (st = ''failed'' \<or> st = ''timeout'');
                               r = run_swaps fork margin d ev' (if bad then n else 0) (any_failed \<or> bad) rest
                           in r\<lparr>qr_posts := ps @ qr_posts r,
                                qr_outcomes := (n, Started p prev_node any_failed st) # qr_outcomes r\<rparr>))))"

section \<open>What the gates guarantee\<close>

lemma decide_swap_cases:
  "fst (decide_swap s) = Proceed \<longleftrightarrow>
     \<not> too_late (ss_now s) (ss_fork s) (ss_expected s) (ss_margin s) \<and>
     (\<exists>f. ss_finalized s = Some f \<and> ss_anchor s \<le> h_number f) \<and>
     ss_canonical s \<noteq> '''' \<and> equal_fold (ss_canonical s) (ss_anchor_hash s) \<and>
     \<not> stale_finality s \<and> ss_down s = [] \<and> ss_partitions s = 0 \<and>
     wrap64 (ss_expected s + swapSlack) \<le> ss_gap s \<and> \<not> ss_prev_behind s"
  by (auto simp: decide_swap_def not_le not_less split: option.splits)

text \<open>A swap proceeds exactly when it can finish before the fork with the margin, the anchor
  is finalized and canonical on node 1, finality is fresh, every other validator is healthy, no
  partition is applied, the schedule leaves the network alone long enough, and a previously
  failed consumer is back at the head; it is given up exactly when it is too late, or when
  finality is stale after a failure with the anchor not contradicted.\<close>

theorem decide_swap_exact:
  "(fst (decide_swap s) = Proceed \<longleftrightarrow>
     \<not> too_late (ss_now s) (ss_fork s) (ss_expected s) (ss_margin s) \<and>
     (\<exists>f. ss_finalized s = Some f \<and> ss_anchor s \<le> h_number f) \<and>
     ss_canonical s \<noteq> '''' \<and> equal_fold (ss_canonical s) (ss_anchor_hash s) \<and>
     \<not> stale_finality s \<and> ss_down s = [] \<and> ss_partitions s = 0 \<and>
     wrap64 (ss_expected s + swapSlack) \<le> ss_gap s \<and> \<not> ss_prev_behind s) \<and>
   (fst (decide_swap s) = Reorged \<longleftrightarrow>
     \<not> too_late (ss_now s) (ss_fork s) (ss_expected s) (ss_margin s) \<and>
     (\<exists>f. ss_finalized s = Some f \<and> ss_anchor s \<le> h_number f) \<and>
     ss_canonical s \<noteq> '''' \<and> \<not> equal_fold (ss_canonical s) (ss_anchor_hash s)) \<and>
   (fst (decide_swap s) = Skip \<longleftrightarrow>
     too_late (ss_now s) (ss_fork s) (ss_expected s) (ss_margin s) \<or>
     fst (decide_swap s) \<noteq> Reorged \<and> stale_finality s \<and> ss_prev_failed s)"
  by (auto simp: decide_swap_cases) (auto simp: decide_swap_def split: option.splits if_splits)

text \<open>What a chaos-free time of \<open>k\<close> seconds means, through the contract of the gaps.\<close>

lemma chaos_free_quiet:
  assumes "k \<le> chaos_free d now horizon" "0 \<le> horizon" "horizon \<le> max_duration"
    and "now \<le> t" "t < now + k * second"
  shows "\<not> dump_busy d t"
proof (cases "gaps d now (now + horizon)")
  case Nil
  with assms show ?thesis by (simp add: chaos_free_def second_def)
next
  case (Cons g gs)
  show ?thesis
  proof (cases "now < fst g")
    case True
    with Cons assms show ?thesis by (simp add: chaos_free_def second_def)
  next
    case False
    have b: "now \<le> fst g" "fst g < snd g" "snd g \<le> now + horizon"
      using dump_gaps.gap_bounds [of g d now "now + horizon"] Cons by auto
    have "tsub (snd g) now = snd g - now"
      by (rule tsub_exact) (use b assms(2,3) in \<open>auto simp: min_duration_def\<close>)
    with assms(1) Cons False b have "k \<le> (snd g - now) div second"
      by (simp add: chaos_free_def go_div_nonneg second_def)
    then have "k * second \<le> snd g - now"
      by (simp add: le_div_iff_mult second_def)
    then show ?thesis
      using dump_gaps.first_gap_free [OF Cons assms(4)] assms(5) False by simp
  qed
qed

lemma gap_horizon: "0 \<le> gapHorizon" "gapHorizon \<le> max_duration"
  by (simp_all add: go_defs)

lemma gate_proceeds:
  "wait_swap_gate fork margin d c prd prev any polls = Some (GateProceed p) \<Longrightarrow>
    p \<in> set polls \<and> fst (decide_swap (gate_state fork margin d c prd prev any p)) = Proceed"
  by (induction polls) (auto simp: Let_def split_def split: if_splits)

text \<open>C13: When the gate lets a swap start, no admitted partition of the published schedule holds
  at any instant from that poll until the swap's expected duration and the 120 s slack have
  passed, the swap ends with its margin before the fork, and nothing is partitioned.\<close>

theorem started_swap_is_quiet:
  assumes g: "wait_swap_gate fork margin d c prd prev any polls = Some (GateProceed p)"
    and r: "0 \<le> oc_expected c" "oc_expected c < 2 ^ 62" "0 \<le> gp_now p" "gp_now p < 2 ^ 60"
      "0 \<le> margin" "margin < 2 ^ 60"
  shows "(\<forall>t. tunix (gp_now p) \<le> t \<and> t < tunix (gp_now p + oc_expected c + 120) \<longrightarrow> \<not> dump_busy d t) \<and>
    gp_now p + oc_expected c + margin \<le> fork \<and> gp_partitions p = 0 \<and> gp_down p = [] \<and>
    (\<exists>f. gp_finalized p = Some f \<and> pr_anchor prd \<le> h_number f)"
proof -
  let ?s = "gate_state fork margin d c prd prev any p"
  from gate_proceeds [OF g] have "fst (decide_swap ?s) = Proceed" by simp
  then have f: "\<not> too_late (gp_now p) fork (oc_expected c) margin" "gp_down p = []" "gp_partitions p = 0"
    "wrap64 (oc_expected c + 120) \<le> chaos_free d (tunix (gp_now p)) gapHorizon"
    "\<exists>f. gp_finalized p = Some f \<and> pr_anchor prd \<le> h_number f"
    by (auto simp: decide_swap_cases gate_state_def)
  have w: "wrap64 (oc_expected c + 120) = oc_expected c + 120"
    "wrap64 (gp_now p + oc_expected c) = gp_now p + oc_expected c"
    "wrap64 (gp_now p + oc_expected c + margin) = gp_now p + oc_expected c + margin"
    by (rule wrap64_id; use r in simp)+
  have "tunix (gp_now p + oc_expected c + 120) = tunix (gp_now p) + (oc_expected c + 120) * second"
    by (simp add: tunix_def algebra_simps)
  then have "\<forall>t. tunix (gp_now p) \<le> t \<and> t < tunix (gp_now p + oc_expected c + 120) \<longrightarrow> \<not> dump_busy d t"
    using chaos_free_quiet [OF f(4) [unfolded w(1)] gap_horizon] by auto
  moreover have "gp_now p + oc_expected c + margin \<le> fork" using f(1) w by (simp add: too_late_def)
  ultimately show ?thesis using f(2,3,5) by blast
qed

theorem started_swap_is_quiet_witness:
  "let d = \<lparr>du_profile = ''composite'', du_genesis = 0, du_fork = 4000, du_anchor = 1,
             du_slot_seconds = 6, du_ops = [], du_failsafes = [], du_quiet = 5000\<rparr>;
       h = \<lparr>h_number = 9, h_hash = ''0xAB'', h_parent = '''', h_root = '''', h_time = 900\<rparr>;
       p = \<lparr>gp_now = 1000, gp_finalized = Some h, gp_at_anchor = Some h, gp_down = [],
             gp_partitions = 0, gp_ref_head = None, gp_prev_head = None\<rparr>
   in gp_now p + 600 + 200 \<le> 4000 \<and> \<not> dump_busy d (tunix 1700)"
proof -
  let ?d = "\<lparr>du_profile = ''composite'', du_genesis = 0, du_fork = 4000, du_anchor = 1,
             du_slot_seconds = 6, du_ops = [], du_failsafes = [], du_quiet = 5000\<rparr>"
  let ?h = "\<lparr>h_number = 9, h_hash = ''0xAB'', h_parent = '''', h_root = '''', h_time = 900\<rparr>"
  let ?p = "\<lparr>gp_now = 1000, gp_finalized = Some ?h, gp_at_anchor = Some ?h, gp_down = [],
             gp_partitions = 0, gp_ref_head = None, gp_prev_head = None\<rparr>"
  let ?c = "\<lparr>oc_node = 3, oc_expected = 600, oc_timeout = 900\<rparr>"
  let ?prd = "(new_producer \<lparr>op_node = 6, op_kind = ''geth-convert'', op_consumers = [3]\<rparr>)
     \<lparr>pr_anchor := 8, pr_anchor_hash := ''0xAB''\<rparr>"
  have "chaos_free ?d (tunix 1000) gapHorizon = 3600"
    by (simp add: chaos_free_def gaps_def busy_intervals_def dump_admitted_def gapHorizon_def tunix_def
        second_def tsub_def min_duration_def max_duration_def go_div_def)
  then have "fst (decide_swap (gate_state 4000 200 ?d ?c ?prd 0 False ?p)) = Proceed"
    by (simp add: decide_swap_cases gate_state_def too_late_def wrap64_def stale_finality_def
        equal_fold_def lower_def new_producer_def)
  then have "wait_swap_gate 4000 200 ?d ?c ?prd 0 False [?p] = Some (GateProceed ?p)"
    by (simp only: wait_swap_gate.simps Let_def split_def if_True simp_thms)
  from started_swap_is_quiet [OF this] show ?thesis by (simp add: tunix_def second_def)
qed

section \<open>What a swap leaves behind\<close>

text \<open>The lifecycle steps of a finished swap, by its status.\<close>

definition legal_steps :: "string \<Rightarrow> lifecycle_step list \<Rightarrow> bool" where
  "legal_steps status steps \<longleftrightarrow>
     (status = ''ok'' \<and> steps = [StepDisconnecting, StepImporting, StepReconnecting, StepCaughtUp]) \<or>
     (status = ''timeout'' \<and>
        steps \<in> {[StepDisconnecting, StepImporting, StepTimeout],
                  [StepDisconnecting, StepImporting, StepReconnecting, StepTimeout]}) \<or>
     (status = ''failed'' \<and>
        steps \<in> {[StepFailed], [StepDisconnecting, StepFailed],
                  [StepDisconnecting, StepImporting, StepFailed],
                  [StepDisconnecting, StepImporting, StepReconnecting, StepFailed]})"

definition step_of :: "post \<Rightarrow> lifecycle_step" where
  "step_of p = fst (snd p)"

definition last_step :: "string \<Rightarrow> lifecycle_step" where
  "last_step st = (if st = ''ok'' then StepCaughtUp else if st = ''timeout'' then StepTimeout else StepFailed)"

lemma last_step_simps [simp]:
  "last_step ''ok'' = StepCaughtUp" "last_step ''timeout'' = StepTimeout" "last_step ''failed'' = StepFailed"
  by (simp_all add: last_step_def)

lemma step_of_simp [simp]: "step_of (n, s, r) = s"
  by (simp add: step_of_def)

text \<open>One poll of the loop, as what it ends with or how it goes on.\<close>

lemma body_polls_step:
  fixes p sw reachable
  defines "newly \<equiv> bp_url p \<and> \<not> reachable \<and> bp_head_ok p"
  defines "sw1 \<equiv> (if newly then sw\<lparr>sw_reachable_at := bp_reach_at p\<rparr> else sw)"
  assumes "body_polls prd timeout deadline sw reachable (p # ps) = (sw', posts, Some st)"
  obtains
    (ended) pre d where "posts = pre @ [(sw_node sw, last_step st, pr_anchor prd, pr_anchor_hash prd, d)]"
      "map step_of pre = (if newly then [StepReconnecting] else []) \<or> pre = [] \<and> st = ''failed''"
      "st = sw_status sw'" "st = ''failed'' \<or> st = ''ok'' \<and> (reachable \<or> newly) \<or> st = ''timeout''"
      "st = ''ok'' \<Longrightarrow> bp_caught p = Inr True \<and> sw_caught_up_at sw' = bp_caught_at p \<and>
         \<not> bp_failed_marker p \<and> bp_running p \<noteq> Inr False"
      "st = ''timeout'' \<Longrightarrow> deadline < bp_now p"
      "st \<noteq> ''ok'' \<Longrightarrow> sw_caught_up_at sw' = sw_caught_up_at sw"
      "sw_stop_at sw' = sw_stop_at sw" "sw_node sw' = sw_node sw"
  | (goes_on) posts' where
      "posts = (if newly then [(sw_node sw, StepReconnecting, pr_anchor prd, pr_anchor_hash prd, no_detail)] else []) @ posts'"
      "body_polls prd timeout deadline sw1 (reachable \<or> newly) ps = (sw', posts', Some st)"
proof (cases "bp_running p = Inr False \<or> bp_failed_marker p")
  case True
  with assms(3) show thesis
    by (intro ended [of "[]" "if bp_running p = Inr False then lit ''container is not running''
          else lit ''pbt-swap/failed marker present''"]) (auto simp: swap_fail_def split: if_splits)
next
  case alive: False
  let ?pre = "if newly then [(sw_node sw, StepReconnecting, pr_anchor prd, pr_anchor_hash prd, no_detail)] else []"
  have sw1: "sw_node sw1 = sw_node sw" "sw_stop_at sw1 = sw_stop_at sw"
    "sw_caught_up_at sw1 = sw_caught_up_at sw" by (simp_all add: sw1_def)
  have red: "body_polls prd timeout deadline sw reachable (p # ps) =
      (if bp_url p \<and> (reachable \<or> newly) \<and> bp_caught p = Inr True then
         (sw1\<lparr>sw_caught_up_at := bp_caught_at p, sw_status := ''ok'', sw_detail := no_detail\<rparr>,
          ?pre @ [(sw_node sw, StepCaughtUp, pr_anchor prd, pr_anchor_hash prd, no_detail)], Some ''ok'')
       else if deadline < bp_now p then
         (sw1\<lparr>sw_status := ''timeout'', sw_detail := Fmt ''no caught_up within %ds of stop'' [DI timeout]\<rparr>,
          ?pre @ [(sw_node sw, StepTimeout, pr_anchor prd, pr_anchor_hash prd, no_detail)], Some ''timeout'')
       else then_post ?pre (body_polls prd timeout deadline sw1 (reachable \<or> newly) ps))"
    using alive by (auto simp: newly_def sw1_def Let_def)
  consider (c) "bp_url p \<and> (reachable \<or> newly) \<and> bp_caught p = Inr True"
    | (t) "\<not> (bp_url p \<and> (reachable \<or> newly) \<and> bp_caught p = Inr True)" "deadline < bp_now p"
    | (n) "\<not> (bp_url p \<and> (reachable \<or> newly) \<and> bp_caught p = Inr True)" "\<not> deadline < bp_now p" by blast
  then show thesis
  proof cases
    case c
    with assms(3) alive sw1 show thesis unfolding red
      by (intro ended [of ?pre no_detail]) (auto simp: step_of_def)
  next
    case t
    with assms(3) alive sw1 show thesis unfolding red
      by (intro ended [of ?pre no_detail]) (auto simp: step_of_def)
  next
    case n
    obtain s1 q1 t1 where r: "body_polls prd timeout deadline sw1 (reachable \<or> newly) ps = (s1, q1, t1)"
      by (metis prod.exhaust)
    with assms(3) n have "s1 = sw'" "t1 = Some st" "posts = ?pre @ q1"
      unfolding red by (auto simp: then_post_def)
    with r show thesis by (intro goes_on) simp_all
  qed
qed

lemma body_polls_outcome:
  assumes "body_polls prd timeout deadline sw reachable ps = (sw', posts, Some st)"
  shows "(map step_of posts = [last_step st] \<and> (st = ''ok'' \<longrightarrow> reachable) \<or>
      \<not> reachable \<and> map step_of posts = [StepReconnecting, last_step st]) \<and>
    st = sw_status sw' \<and> (st = ''ok'' \<or> st = ''timeout'' \<or> st = ''failed'') \<and>
    (st = ''ok'' \<longrightarrow> (\<exists>p \<in> set ps. bp_caught p = Inr True \<and> sw_caught_up_at sw' = bp_caught_at p \<and>
          \<not> bp_failed_marker p \<and> bp_running p \<noteq> Inr False)) \<and>
    (st = ''timeout'' \<longrightarrow> (\<exists>p \<in> set ps. deadline < bp_now p)) \<and>
    (st \<noteq> ''ok'' \<longrightarrow> sw_caught_up_at sw' = sw_caught_up_at sw) \<and>
    sw_stop_at sw' = sw_stop_at sw \<and> sw_node sw' = sw_node sw"
  using assms
proof (induction ps arbitrary: sw reachable posts)
  case (Cons p ps)
  from Cons.prems show ?case
  proof (cases rule: body_polls_step)
    case (ended pre d)
    then show ?thesis by (auto split: if_splits)
  next
    case (goes_on posts')
    from Cons.IH [OF goes_on(2)] goes_on(1) show ?thesis
      by (cases "bp_url p \<and> \<not> reachable \<and> bp_head_ok p") auto
  qed
qed simp


lemma swap_body_ends:
  assumes "swap_body c sw prd env = (sw', posts, Some st)"
  shows "legal_steps st (map step_of posts) \<and> sw_status sw' = st \<and> sw_node sw' = sw_node sw \<and>
    (st = ''ok'' \<longrightarrow> sw_stop_at sw' = be_stop_at env \<and>
       (\<exists>p \<in> set (be_polls env). bp_caught p = Inr True \<and> sw_caught_up_at sw' = bp_caught_at p \<and>
          \<not> bp_failed_marker p \<and> bp_running p \<noteq> Inr False)) \<and>
    (st = ''timeout'' \<longrightarrow> (\<exists>p \<in> set (be_polls env).
       tunix (be_stop_at env) + wrap64 (oc_timeout c * second) < bp_now p)) \<and>
    (be_container_err env \<noteq> None \<or> be_stop_err env \<noteq> None \<longrightarrow> sw_stop_at sw' = sw_stop_at sw)"
proof -
  let ?early = "\<lambda>pre sw0. st = ''failed'' \<and> map step_of posts = pre @ [StepFailed] \<and>
     sw_status sw' = st \<and> sw_node sw' = sw_node sw \<and> sw_stop_at sw' = sw_stop_at sw0"
  have early: ?thesis if "?early pre sw0" "pre = [] \<or> pre = [StepDisconnecting]"
    "sw_stop_at sw0 = sw_stop_at sw \<or> be_container_err env = None \<and> be_stop_err env = None" for pre sw0
    using that by (auto simp: legal_steps_def)
  consider (container) e where "be_container_err env = Some e"
    | (datadir) "be_container_err env = None" "datadir_for (be_client env) = ''''"
    | (staging) e where "be_container_err env = None" "datadir_for (be_client env) \<noteq> ''''"
        "first_error (be_staging env) = Some e"
    | (stop) e where "be_container_err env = None" "datadir_for (be_client env) \<noteq> ''''"
        "first_error (be_staging env) = None" "be_stop_err env = Some e"
    | (copying) e where "be_container_err env = None" "datadir_for (be_client env) \<noteq> ''''"
        "first_error (be_staging env) = None" "be_stop_err env = None" "be_copy_err env = Some e"
    | (polls) "be_container_err env = None" "datadir_for (be_client env) \<noteq> ''''"
        "first_error (be_staging env) = None" "be_stop_err env = None" "be_copy_err env = None"
    by (cases "be_container_err env"; cases "first_error (be_staging env)"; cases "be_stop_err env";
        cases "be_copy_err env") blast+
  then show ?thesis
  proof cases
    case container
    with assms show ?thesis by (intro early [of "[]" sw]) (auto simp: swap_body_def swap_fail_def)
  next
    case datadir
    with assms show ?thesis by (intro early [of "[]" sw]) (auto simp: swap_body_def swap_fail_def)
  next
    case staging
    with assms show ?thesis by (intro early [of "[]" sw]) (auto simp: swap_body_def swap_fail_def)
  next
    case stop
    with assms show ?thesis
      by (intro early [of "[StepDisconnecting]" sw])
         (auto simp: swap_body_def swap_fail_def then_post_def Let_def)
  next
    case copying
    with assms show ?thesis
      by (intro early [of "[StepDisconnecting]" "sw\<lparr>sw_stop_at := be_stop_at env\<rparr>"])
         (auto simp: swap_body_def swap_fail_def then_post_def Let_def)
  next
    case polls
    let ?sw = "sw\<lparr>sw_anchor := pr_anchor prd, sw_anchor_hash := pr_anchor_hash prd,
       sw_finalized_at_stop := (case be_finalized env of None \<Rightarrow> 0 | Some f \<Rightarrow> h_number f),
       sw_stop_at := be_stop_at env, sw_start_at := be_start_at env\<rparr>"
    let ?dl = "tunix (be_stop_at env) + wrap64 (oc_timeout c * second)"
    obtain s1 q1 t1 where r: "body_polls prd (oc_timeout c) ?dl ?sw False (be_polls env) = (s1, q1, t1)"
      by (metis prod.exhaust)
    with polls assms have e: "s1 = sw'" "t1 = Some st"
      "map step_of posts = [StepDisconnecting, StepImporting] @ map step_of q1"
      by (auto simp: swap_body_def then_post_def Let_def)
    note out = body_polls_outcome [OF r [unfolded e(1,2)]]
    then have "legal_steps st (map step_of posts)" unfolding e(3) legal_steps_def by auto
    with out polls show ?thesis by simp
  qed
qed

text \<open>A finished swap leaves one of the legal step sequences for its status, which is the
  one its record holds: caught up only after disconnecting, importing and reconnecting, by a
  poll in which the container ran, no failure marker stood and the cursor had caught up; timed
  out only after its deadline; and a swap that failed before its node was stopped has no stop
  time.\<close>

theorem swap_body_outcome:
  assumes "swap_body c sw prd env = (sw', posts, Some st)"
  shows "legal_steps st (map step_of posts) \<and> sw_status sw' = st \<and> sw_node sw' = sw_node sw \<and>
    (st = ''ok'' \<longrightarrow> sw_stop_at sw' = be_stop_at env \<and>
       (\<exists>p \<in> set (be_polls env). bp_caught p = Inr True \<and> sw_caught_up_at sw' = bp_caught_at p \<and>
          \<not> bp_failed_marker p \<and> bp_running p \<noteq> Inr False)) \<and>
    (st = ''timeout'' \<longrightarrow> (\<exists>p \<in> set (be_polls env).
       tunix (be_stop_at env) + wrap64 (oc_timeout c * second) < bp_now p)) \<and>
    (be_container_err env \<noteq> None \<or> be_stop_err env \<noteq> None \<longrightarrow> sw_stop_at sw' = sw_stop_at sw)"
  using assms by (rule swap_body_ends)

theorem swap_body_outcome_witness:
  "legal_steps ''failed'' (map step_of (fst (snd (swap_body \<lparr>oc_node = 3, oc_expected = 600, oc_timeout = 900\<rparr>
     (new_swap 3 6) (new_producer \<lparr>op_node = 6, op_kind = ''geth-convert'', op_consumers = [3]\<rparr>)
     \<lparr>be_container_err = None, be_client = ''geth'', be_staging = [None, None, None],
      be_finalized = None, be_stop_err = Some ''busy'', be_stop_at = 1000, be_copy_err = None,
      be_start_at = 0, be_polls = []\<rparr>))))"
proof -
  let ?c = "\<lparr>oc_node = 3, oc_expected = 600, oc_timeout = 900\<rparr>"
  let ?p = "new_producer \<lparr>op_node = 6, op_kind = ''geth-convert'', op_consumers = [3]\<rparr>"
  let ?env = "\<lparr>be_container_err = None, be_client = ''geth'', be_staging = [None, None, None],
      be_finalized = None, be_stop_err = Some ''busy'', be_stop_at = 1000, be_copy_err = None,
      be_start_at = 0, be_polls = []\<rparr>"
  obtain sw ps st where r: "swap_body ?c (new_swap 3 6) ?p ?env = (sw, ps, st)" by (metis prod.exhaust)
  then have "st = Some ''failed''"
    by (simp add: swap_body_def datadir_for_def first_error_def swap_fail_def then_post_def)
  with swap_body_outcome [OF r [unfolded this]] r show ?thesis by simp
qed

section \<open>One swap at a time\<close>

text \<open>A queue's outcomes as they have to be: each started swap saw the previous failure that
  still counts, was let through by its gate, and ended before the next one started.\<close>

fun queue_ok :: "int \<Rightarrow> bool \<Rightarrow> (int \<times> outcome) list \<Rightarrow> bool" where
  "queue_ok prev any [] \<longleftrightarrow> True"
| "queue_ok prev any ((n, NotStarted) # r) \<longleftrightarrow> queue_ok prev any r"
| "queue_ok prev any ((n, Started p prev' any' st) # r) \<longleftrightarrow>
     prev' = prev \<and> any' = any \<and> (prev \<noteq> 0 \<longrightarrow> \<not> el_behind (gp_ref_head p) (gp_prev_head p)) \<and>
     gp_partitions p = 0 \<and> gp_down p = [] \<and> (st = ''ok'' \<or> st = ''failed'' \<or> st = ''timeout'') \<and>
     queue_ok (if st = ''ok'' then 0 else n) (any \<or> st \<noteq> ''ok'') r"

lemma swap_body_status:
  "swap_body c sw prd env = (sw', ps, Some st) \<Longrightarrow> st = ''ok'' \<or> st = ''failed'' \<or> st = ''timeout''"
  by (auto simp: swap_body_def swap_fail_def then_post_def Let_def split: option.splits if_splits prod.splits
      dest: body_polls_outcome)

text \<open>C14: The consumers are served in the configured order, one at a time: a swap starts only
  through its gate, with nothing partitioned and every other validator healthy, and after a
  failed or timed-out swap only once that consumer's client is back within two blocks of
  node 1.\<close>

theorem swaps_serial:
  "queue_ok prev any (qr_outcomes (run_swaps fork margin d ev prev any cs)) \<and>
   (\<exists>k. map fst (qr_outcomes (run_swaps fork margin d ev prev any cs)) =
      take k (map (\<lambda>(c, _, _). oc_node c) cs))"
proof (induction cs arbitrary: ev prev any)
  case (Cons e cs)
  obtain c polls env where e: "e = (c, polls, env)" by (metis prod.exhaust)
  let ?n = "oc_node c"
  let ?sw = "the (find_swap ev ?n)"
  let ?prd = "the (find_producer ev (sw_producer ?sw))"
  let ?P = "\<lambda>prev any r cs. queue_ok prev any (qr_outcomes r) \<and>
     (\<exists>k. map fst (qr_outcomes r) = take k (map (\<lambda>(c, _, _). oc_node c) cs))"
  have skip: "?P prev any (r\<lparr>qr_posts := ps, qr_outcomes := (?n, NotStarted) # qr_outcomes r\<rparr>) (e # cs)"
    if "?P prev any r cs" for r ps
  proof -
    from that obtain k where "map fst (qr_outcomes r) = take k (map (\<lambda>(c, _, _). oc_node c) cs)" by blast
    then have "map fst ((?n, NotStarted) # qr_outcomes r) = take (Suc k) (map (\<lambda>(c, _, _). oc_node c) (e # cs))"
      by (simp add: e)
    with that show ?thesis by (intro conjI exI [of _ "Suc k"]) simp_all
  qed
  have stop: "?P prev any \<lparr>qr_evidence = ev', qr_posts = ps, qr_outcomes = []\<rparr> (e # cs)" for ev' ps
    by (auto intro: exI [of _ 0])
  show ?case
  proof (cases "pr_status ?prd = ''ok''")
    case False
    then show ?thesis
      using skip [OF Cons.IH] by (simp add: e Let_def split_def skip_swap_def)
  next
    case ok: True
    show ?thesis
    proof (cases "wait_swap_gate fork margin d c ?prd prev any polls")
      case None
      with ok stop show ?thesis by (simp add: e Let_def)
    next
      case (Some g)
      show ?thesis
      proof (cases g)
        case (GateProceed p)
        with Some have "fst (decide_swap (gate_state fork margin d c ?prd prev any p)) = Proceed"
          using gate_proceeds by simp
        then have p: "gp_partitions p = 0" "gp_down p = []"
          "prev \<noteq> 0 \<longrightarrow> \<not> el_behind (gp_ref_head p) (gp_prev_head p)"
          by (auto simp: decide_swap_cases gate_state_def)
        obtain sw' ps status where b: "swap_body c ?sw ?prd env = (sw', ps, status)" by (metis prod.exhaust)
        show ?thesis
        proof (cases status)
          case None
          with ok Some GateProceed b stop show ?thesis by (simp add: e Let_def)
        next
          case st: (Some st)
          let ?bad = "st = ''failed'' \<or> st = ''timeout''"
          let ?ev = "ev\<lparr>ev_swaps := set_swap (ev_swaps ev) ?n sw'\<rparr>"
          let ?r = "run_swaps fork margin d ?ev (if ?bad then ?n else 0) (any \<or> ?bad) cs"
          have s: "st = ''ok'' \<or> st = ''failed'' \<or> st = ''timeout''"
            using swap_body_status b st by blast
          then have bad: "?bad \<longleftrightarrow> st \<noteq> ''ok''" by auto
          from Cons.IH [of "if ?bad then ?n else 0" "any \<or> ?bad" ?ev] obtain k where
            k: "map fst (qr_outcomes ?r) = take k (map (\<lambda>(c, _, _). oc_node c) cs)"
            and q: "queue_ok (if ?bad then ?n else 0) (any \<or> ?bad) (qr_outcomes ?r)" by blast
          have out: "qr_outcomes (run_swaps fork margin d ev prev any (e # cs)) =
              (?n, Started p prev any st) # qr_outcomes ?r"
            using ok Some GateProceed b st by (simp add: e Let_def)
          have "queue_ok prev any ((?n, Started p prev any st) # qr_outcomes ?r)"
            using p s q [unfolded bad] by auto
          moreover have "map fst ((?n, Started p prev any st) # qr_outcomes ?r) =
              take (Suc k) (map (\<lambda>(c, _, _). oc_node c) (e # cs))"
            using k by (simp add: e)
          ultimately show ?thesis unfolding out by blast
        qed
      next
        case (GateSkip r)
        with ok Some show ?thesis
          using skip [OF Cons.IH] by (simp add: e Let_def split_def skip_swap_def)
      next
        case (GateReorged r)
        with ok Some show ?thesis
          using skip [OF Cons.IH] by (simp add: e Let_def split_def skip_swap_def)
      qed
    qed
  qed
qed simp

section \<open>The first evidence\<close>

lemma foldl_upd_ran:
  "foldl (\<lambda>m c. m(c \<mapsto> n)) m cs x = Some y \<Longrightarrow> y = n \<or> m x = Some y"
  by (induction cs arbitrary: m) (fastforce split: if_splits)+

lemma seed_producers_spec:
  "seed_producers ps m = Inr (prs, m') \<Longrightarrow>
    prs = map new_producer ps \<and> (\<forall>x y. m' x = Some y \<longrightarrow> y \<in> op_node ` set ps \<or> m x = Some y) \<and>
    (\<forall>p \<in> set ps. op_kind p = ''geth-convert'' \<or> op_kind p = ''erigon-export'')"
proof (induction ps arbitrary: m prs)
  case (Cons p ps)
  then obtain prs' where r: "seed_producers ps (foldl (\<lambda>m c. m(c \<mapsto> op_node p)) m (op_consumers p)) = Inr (prs', m')"
    "prs = new_producer p # prs'" "op_kind p = ''geth-convert'' \<or> op_kind p = ''erigon-export''"
    by (auto split: if_splits sum.splits)
  from Cons.IH [OF r(1)] r(2,3) foldl_upd_ran [of "op_node p" m "op_consumers p"] show ?case by fastforce
qed simp

lemma seed_swaps_spec:
  "seed_swaps cs m = Inr sws \<Longrightarrow>
    list_all2 (\<lambda>c s. \<exists>p. m (oc_node c) = Some p \<and> s = new_swap (oc_node c) p) cs sws"
  by (induction cs arbitrary: sws) (auto split: option.splits sum.splits)

lemma find_map_Some:
  "y \<in> f ` set xs \<Longrightarrow> (\<And>x. g (h x) = f x) \<Longrightarrow> \<exists>p. List.find (\<lambda>p. g p = y) (map h xs) = Some p \<and> g p = y"
  by (induction xs) auto

text \<open>The evidence a run starts from reads as a run that did nothing: every producer failed,
  every swap skipped with no times, one per consumer in order; and every swap's consumer and
  producer resolve to records, so no later lookup of either can fail.\<close>

theorem new_evidence_pessimistic:
  assumes "new_evidence cfg = Inr e"
  shows "map sw_node (ev_swaps e) = map oc_node (of_consumers cfg) \<and>
    map pr_node (ev_producers e) = map op_node (of_producers cfg) \<and>
    (\<forall>p \<in> set (ev_producers e). pr_status p = ''failed'' \<and> pr_started_at p = 0) \<and>
    (\<forall>s \<in> set (ev_swaps e). sw_status s = ''skipped'' \<and> sw_stop_at s = 0 \<and> sw_caught_up_at s = 0 \<and>
       find_swap e (sw_node s) \<noteq> None \<and> find_producer e (sw_producer s) \<noteq> None)"
proof -
  from assms obtain prs m sws where
    p: "seed_producers (of_producers cfg) Map.empty = Inr (prs, m)" and
    s: "seed_swaps (of_consumers cfg) m = Inr sws" and e: "e = \<lparr>ev_producers = prs, ev_swaps = sws\<rparr>"
    by (auto simp: new_evidence_def split: sum.splits)
  note P = seed_producers_spec [OF p]
  note S = seed_swaps_spec [OF s]
  have nodes: "map sw_node sws = map oc_node (of_consumers cfg)"
    using S by (induction rule: list_all2_induct) (auto simp: new_swap_def)
  have each: "sw_status x = ''skipped'' \<and> sw_stop_at x = 0 \<and> sw_caught_up_at x = 0 \<and>
       find_swap e (sw_node x) \<noteq> None \<and> find_producer e (sw_producer x) \<noteq> None" if "x \<in> set sws" for x
  proof -
    from list_all2_mem [OF S that] obtain n q where
      c: "m n = Some q" "x = new_swap n q" by blast
    with P have "q \<in> op_node ` set (of_producers cfg)" by fastforce
    then have "find_producer e q \<noteq> None"
      using find_map_Some [of q op_node "of_producers cfg" pr_node new_producer] P
      by (auto simp: find_producer_def e new_producer_def)
    moreover have "find_swap e (sw_node x) \<noteq> None"
      using that by (auto simp: find_swap_def e find_None_iff)
    ultimately show ?thesis using c by (simp add: new_swap_def)
  qed
  have "map pr_node prs = map op_node (of_producers cfg)" using P by (simp add: new_producer_def)
  moreover have "\<forall>p \<in> set prs. pr_status p = ''failed'' \<and> pr_started_at p = 0"
    using P by (auto simp: new_producer_def)
  ultimately show ?thesis using nodes each by (simp add: e)
qed

theorem new_evidence_pessimistic_witness:
  "\<exists>e. new_evidence \<lparr>of_enabled = True, of_export_after = 0, of_margin = 60,
      of_producers = [\<lparr>op_node = 6, op_kind = ''geth-convert'', op_consumers = [3]\<rparr>],
      of_consumers = [\<lparr>oc_node = 3, oc_expected = 600, oc_timeout = 900\<rparr>],
      of_online_only = [], of_validating = 5\<rparr> = Inr e \<and> map sw_node (ev_swaps e) = [3]"
proof -
  let ?cfg = "\<lparr>of_enabled = True, of_export_after = 0, of_margin = 60,
      of_producers = [\<lparr>op_node = 6, op_kind = ''geth-convert'', op_consumers = [3]\<rparr>],
      of_consumers = [\<lparr>oc_node = 3, oc_expected = 600, oc_timeout = 900\<rparr>],
      of_online_only = [], of_validating = 5\<rparr>"
  obtain e where "new_evidence ?cfg = Inr e" by (simp add: new_evidence_def)
  with new_evidence_pessimistic [OF this] show ?thesis by auto
qed

end
