(* ===== verification/Disruptoor.thy ===== *)
theory Disruptoor
  imports Events
begin

text \<open>
  The client of the network emulator (\<open>internal/disruptoor/disruptoor.go\<close>): the partition it
  asks for, and what it reads back. The HTTP exchange is a parameter, an error or the decoded
  body; the emulator itself, which is not in the repository, is seen through its documented
  answers only: a \<open>PUT\<close> of a state replaces it or fails and leaves it as it was, and a clear
  empties it or fails.
\<close>

section \<open>Requests\<close>

record partition_spec =
  pa_name :: string
  pa_groups :: "int list list"

datatype disruptoor_error = TooFewGroups string nat | Transport string | BadIndex string string

text \<open>\<open>Client.Partition\<close> up to the request: the observers join the first group.\<close>

definition partition_request :: "int list \<Rightarrow> string \<Rightarrow> int list list \<Rightarrow> disruptoor_error + partition_spec" where
  "partition_request observers name groups =
     (if length groups < 2 then Inl (TooFewGroups name (length groups))
      else Inr \<lparr>pa_name = name,
                pa_groups = (case groups of g # gs \<Rightarrow> (g @ observers) # gs | [] \<Rightarrow> [])\<rparr>)"

text \<open>The emulator's applied state after a request: \<open>do_put\<close> is the answer to the \<open>PUT\<close>.\<close>

definition disrupt_partition ::
  "int list \<Rightarrow> string \<Rightarrow> int list list \<Rightarrow> string option \<Rightarrow> partition_spec list \<Rightarrow>
     partition_spec list \<times> disruptoor_error option"
where
  "disrupt_partition observers name groups do_put applied =
     (case partition_request observers name groups of
        Inl e \<Rightarrow> (applied, Some e)
      | Inr p \<Rightarrow> (case do_put of Some e \<Rightarrow> (applied, Some (Transport e)) | None \<Rightarrow> ([p], None)))"

definition disrupt_clear :: "string option \<Rightarrow> partition_spec list \<Rightarrow> partition_spec list \<times> disruptoor_error option" where
  "disrupt_clear do_post applied =
     (case do_post of Some e \<Rightarrow> (applied, Some (Transport e)) | None \<Rightarrow> ([], None))"

section \<open>Answers\<close>

text \<open>A container listing decodes as a list, as an object with an inner list, or as an object.\<close>

datatype listing = AsList nat | AsMap "nat option" nat | NotListing string

definition count_containers :: "listing \<Rightarrow> string + nat" where
  "count_containers l =
     (case l of AsList n \<Rightarrow> Inr n | AsMap (Some n) _ \<Rightarrow> Inr n | AsMap None n \<Rightarrow> Inr n | NotListing b \<Rightarrow> Inl b)"

text \<open>\<open>Partitions\<close>: each node index is a JSON token, a number or a string.\<close>

fun read_group :: "string \<Rightarrow> string list \<Rightarrow> disruptoor_error + int list" where
  "read_group name [] = Inr []"
| "read_group name (m # ms) =
     (case atoi (trim_quotes m) of
        None \<Rightarrow> Inl (BadIndex name m)
      | Some n \<Rightarrow> (case read_group name ms of Inl e \<Rightarrow> Inl e | Inr ns \<Rightarrow> Inr (n # ns)))"

fun read_groups :: "string \<Rightarrow> string list list \<Rightarrow> disruptoor_error + int list list" where
  "read_groups name [] = Inr []"
| "read_groups name (g # gs) =
     (case read_group name g of
        Inl e \<Rightarrow> Inl e
      | Inr ns \<Rightarrow> (case read_groups name gs of Inl e \<Rightarrow> Inl e | Inr r \<Rightarrow> Inr (ns # r)))"

fun read_partitions :: "(string \<times> string list list) list \<Rightarrow> disruptoor_error + partition_spec list" where
  "read_partitions [] = Inr []"
| "read_partitions ((name, gs) # ps) =
     (case read_groups name gs of
        Inl e \<Rightarrow> Inl e
      | Inr r \<Rightarrow> (case read_partitions ps of
            Inl e \<Rightarrow> Inl e
          | Inr rs \<Rightarrow> Inr (\<lparr>pa_name = name, pa_groups = r\<rparr> # rs)))"

section \<open>Theorems\<close>

lemma minus_not_quote: "hd (show_int i) \<noteq> CHR 34 \<and> last (show_int i) \<noteq> CHR 34"
proof -
  have "CHR 34 \<notin> set (show_nat n)" for n
  proof
    assume "CHR 34 \<in> set (show_nat n)"
    then obtain d where "d < 10" "digit_char d = CHR 34" using show_nat_digits by metis
    with digit_char_neq [of d "CHR 34"] show False by simp
  qed
  then have "CHR 34 \<notin> set (show_int i)" by (simp add: show_int_def)
  moreover have "show_int i \<noteq> []" by (simp add: show_int_def)
  ultimately show ?thesis by (metis hd_in_set last_in_set)
qed

lemma show_int_ne: "show_int i \<noteq> []"
  by (simp add: show_int_def)

text \<open>How the emulator may echo a node index: as the number it was sent, or quoted.\<close>

definition echoes :: "int \<Rightarrow> string \<Rightarrow> bool" where
  "echoes n m \<longleftrightarrow> m = show_int n \<or> m = quoted (show_int n)"

definition int64 :: "int \<Rightarrow> bool" where
  "int64 n \<longleftrightarrow> - (2 ^ 63) \<le> n \<and> n < 2 ^ 63"

lemma atoi_echo: "echoes n m \<Longrightarrow> int64 n \<Longrightarrow> atoi (trim_quotes m) = Some n"
  using trim_quotes_quoted [OF show_int_ne] minus_not_quote atoi_show_int [of n]
  by (auto simp: echoes_def int64_def)

lemma read_group_echo:
  "list_all2 echoes g ms \<Longrightarrow> \<forall>n \<in> set g. int64 n \<Longrightarrow> read_group name ms = Inr g"
  by (induction rule: list_all2_induct) (auto simp: atoi_echo)

lemma read_groups_echo:
  "list_all2 (list_all2 echoes) gs mss \<Longrightarrow> \<forall>g \<in> set gs. \<forall>n \<in> set g. int64 n \<Longrightarrow> read_groups name mss = Inr gs"
  by (induction rule: list_all2_induct) (auto simp: read_group_echo)

text \<open>The partition the emulator echoes, with its indices as numbers or as strings, reads
  back as the partition that was requested, observers on the first side; fewer than two groups
  are refused before anything is sent.\<close>

theorem partition_echo_roundtrip:
  assumes "partition_request observers name groups = Inr p"
    and "\<forall>g \<in> set (observers # groups). \<forall>n \<in> set g. int64 n"
    and "list_all2 (list_all2 echoes) (pa_groups p) mss"
  shows "read_partitions [(name, mss)] = Inr [p] \<and> 2 \<le> length (pa_groups p) \<and>
    pa_groups p = (hd groups @ observers) # tl groups"
proof -
  from assms(1) obtain g gs where g: "groups = g # gs" "\<not> length groups < 2"
    "p = \<lparr>pa_name = name, pa_groups = (g @ observers) # gs\<rparr>"
    by (cases groups) (auto simp: partition_request_def split: if_splits)
  with assms(2) have "\<forall>g \<in> set (pa_groups p). \<forall>n \<in> set g. int64 n" by auto
  with assms(3) have "read_groups name mss = Inr (pa_groups p)" by (rule read_groups_echo)
  with g show ?thesis by (cases gs) auto
qed

theorem partition_echo_roundtrip_witness:
  "read_partitions [(''p'', [[show_int 1, show_int 6], [quoted (show_int 2), show_int 3]])] =
    Inr [\<lparr>pa_name = ''p'', pa_groups = [[1, 6], [2, 3]]\<rparr>]"
proof -
  have "list_all2 (list_all2 echoes) [[1, 6], [2, 3]]
      [[show_int 1, show_int 6], [quoted (show_int 2), show_int 3]]"
    by (simp add: echoes_def)
  then show ?thesis
    using partition_echo_roundtrip [of "[6]" "''p''" "[[1], [2, 3]]"
        "\<lparr>pa_name = ''p'', pa_groups = [[1, 6], [2, 3]]\<rparr>"
        "[[show_int 1, show_int 6], [quoted (show_int 2), show_int 3]]"]
    by (simp add: partition_request_def int64_def)
qed


end
