(* ===== verification/MigGate.thy ===== *)
theory MigGate
  imports Registry Timeline Watch Schedule Disruptoor "HOL-Library.AList"
begin

text \<open>
  The hand-over gate (\<open>cmd/migration-gate/main.go\<close>): waiting for every client to report done,
  the partition of its own it then runs, the wait for convergence after it, the watchdog that
  heals a partition nobody holds, and the watch for consensus clients left without peers. A
  loop is a function of the rounds it makes, each round the clients' answers and the clock; a
  sleep the context ends is a \<open>False\<close>. Where Go ranges over a map only to print it, the map
  itself is kept in place of the text.
\<close>

section \<open>The partition this process holds\<close>

definition hold_until :: "gotime \<Rightarrow> duration \<Rightarrow> gotime" where
  "hold_until now d = now + (d + ConvergenceGrace * second)"

definition holding :: "gotime \<Rightarrow> gotime \<Rightarrow> bool" where
  "holding until t \<longleftrightarrow> \<not> is_zero until \<and> t < until"

text \<open>\<open>elFlag.Set\<close>: \<open>name=url\<close>, cut at the first equals sign.\<close>

fun cut_eq :: "string \<Rightarrow> (string \<times> string) option" where
  "cut_eq [] = None"
| "cut_eq (c # cs) =
     (if c = CHR ''='' then Some ([], cs)
      else (case cut_eq cs of None \<Rightarrow> None | Some (a, b) \<Rightarrow> Some (c # a, b)))"

definition el_flag_set :: "(string \<times> string) list \<Rightarrow> string \<Rightarrow> string + (string \<times> string) list" where
  "el_flag_set els v =
     (case cut_eq v of
        None \<Rightarrow> Inl v
      | Some (name, url) \<Rightarrow> if name = '''' \<or> url = '''' then Inl v else Inr (els @ [(name, url)]))"

section \<open>Waiting for the migration\<close>

text \<open>One round asks every watched client; an answer is the decoded progress or an error.\<close>

fun done_round ::
  "string list \<Rightarrow> (string + progress) list \<Rightarrow> string set \<Rightarrow> nat \<Rightarrow> nat \<times> string set \<times> event list"
where
  "done_round (n # ns) (a # as) stalled done' =
     (case a of
        Inr p \<Rightarrow> done_round ns as (stalled - {n}) (if mp_phase p = PhaseDone then Suc done' else done')
      | Inl e \<Rightarrow>
          (case done_round ns as (insert n stalled) done' of (k, st, evs) \<Rightarrow>
             (k, st,
              (if n \<in> stalled then []
               else [mk_event EvWarn n
                 (Fmt ''migration progress unreadable, completion is blocked on it: %v'' [DS e])]) @ evs)))"
| "done_round _ _ stalled done' = (done', stalled, [])"

text \<open>The rounds, each with whether the sleep after it ran out; \<open>None\<close> while still waiting.\<close>

fun done_rounds ::
  "string list \<Rightarrow> string set \<Rightarrow> ((string + progress) list \<times> bool) list \<Rightarrow> bool option \<times> event list"
where
  "done_rounds watched stalled [] = (None, [])"
| "done_rounds watched stalled ((as, slept) # rs) =
     (case done_round watched as stalled 0 of (k, st, evs) \<Rightarrow>
        if k = length watched then (Some True, evs)
        else if \<not> slept then (Some False, evs)
        else (case done_rounds watched st rs of (r, evs') \<Rightarrow> (r, evs @ evs')))"

definition wait_for_done ::
  "(string \<times> bool) list \<Rightarrow> ((string + progress) list \<times> bool) list \<Rightarrow> bool option \<times> event list"
where
  "wait_for_done clients rounds =
     (let watched = map fst (filter snd clients);
          warns = map (\<lambda>(n, _). mk_event EvWarn n
             (lit ''no migration introspection: completion is judged without this client''))
             (filter (\<lambda>(_, i). \<not> i) clients)
      in if watched = [] then
           (Some False, warns @
              [crit '''' FindingBoundary 0
                 (lit ''no client can report migration progress; completion cannot be observed'')])
         else (case done_rounds watched {} rounds of (r, evs) \<Rightarrow> (r, warns @ evs)))"

section \<open>Convergence\<close>

text \<open>What a round of the comparison sees of one client: its head, or an error, and the hash of
  its block at a height, absent when the read fails or the node has none.\<close>

record gate_client =
  gc_name :: string
  gc_head :: "string + u64"
  gc_hash_at :: "u64 \<Rightarrow> string option"

datatype convergence = Agreed | Disagreed u64 "(string \<times> string) list" | NotCompared string

fun min_head :: "u64 option \<Rightarrow> gate_client list \<Rightarrow> string + u64 option" where
  "min_head m [] = Inr m"
| "min_head m (c # cs) =
     (case gc_head c of
        Inl e \<Rightarrow> Inl e
      | Inr h \<Rightarrow>
          min_head (case m of None \<Rightarrow> Some h | Some k \<Rightarrow> if h < k then Some h else Some k) cs)"

fun hashes_at ::
  "u64 \<Rightarrow> (string \<times> string) list \<Rightarrow> gate_client list \<Rightarrow> string + (string \<times> string) list"
where
  "hashes_at k seen [] = Inr seen"
| "hashes_at k seen (c # cs) =
     (case gc_hash_at c k of
        None \<Rightarrow> Inl (gc_name c)
      | Some h \<Rightarrow> hashes_at k (AList.update h (gc_name c) seen) cs)"

definition converged :: "gate_client list \<Rightarrow> convergence" where
  "converged cs =
     (case min_head None cs of
        Inl e \<Rightarrow> NotCompared e
      | Inr None \<Rightarrow> NotCompared ''no client answered''
      | Inr (Some k) \<Rightarrow>
          (case hashes_at k [] cs of
             Inl n \<Rightarrow> NotCompared n
           | Inr seen \<Rightarrow> if length seen = 1 then Agreed else Disagreed k seen))"

fun spread_loop :: "(u64 \<times> u64) option \<Rightarrow> (string + u64) list \<Rightarrow> string + u64" where
  "spread_loop None [] = Inr 0"
| "spread_loop (Some (lo, hi)) [] = Inr (hi - lo)"
| "spread_loop m (a # as) =
     (case a of
        Inl e \<Rightarrow> Inl e
      | Inr h \<Rightarrow>
          (case m of
             None \<Rightarrow> spread_loop (Some (h, h)) as
           | Some (lo, hi) \<Rightarrow>
               spread_loop (Some (if h < lo then h else lo, if hi < h then h else hi)) as))"

definition head_spread :: "(string + u64) list \<Rightarrow> string + u64" where
  "head_spread heads = spread_loop None heads"

definition trend_shrinking :: "u64 \<Rightarrow> u64 \<Rightarrow> u64 \<Rightarrow> bool" where
  "trend_shrinking a b c \<longleftrightarrow> c < b \<and> b < a"

text \<open>\<open>spreadShrinking\<close>: three samples, the sleep between two possibly cut short; an error is
  \<open>None\<close>.\<close>

definition spread_shrinking :: "(string + u64) \<times> bool \<times> (string + u64) \<times> bool \<times> (string + u64) \<Rightarrow> bool option" where
  "spread_shrinking s =
     (case s of (Inr a, True, Inr b, True, Inr c) \<Rightarrow> Some (trend_shrinking a b c) | _ \<Rightarrow> None)"

text \<open>One round of \<open>awaitConvergence\<close>: the comparison, the clock after it, whether the sleep ran
  out; and, when the deadline has passed, the three spread samples, whether the context has
  ended, and the clock for the new deadline.\<close>

record await_round =
  ar_converged :: convergence
  ar_now :: gotime
  ar_slept :: bool
  ar_spread :: "(string + u64) \<times> bool \<times> (string + u64) \<times> bool \<times> (string + u64)"
  ar_ended :: bool
  ar_after :: gotime

datatype await_error = StillApartExtended | StillApartUnknown | StillApartNotShrinking

fun await_loop ::
  "gotime \<Rightarrow> bool \<Rightarrow> await_round list \<Rightarrow> await_error option option \<times> event list"
where
  "await_loop deadline extended [] = (None, [])"
| "await_loop deadline extended (r # rs) =
     (if ar_converged r = Agreed then
        (Some None, [mk_event EvHeal '''' (lit ''every client agrees on the canonical chain again'')])
      else if \<not> deadline < ar_now r then
        (if \<not> ar_slept r then (Some None, []) else await_loop deadline extended rs)
      else if extended then (Some (Some StillApartExtended), [])
      else
        (case spread_shrinking (ar_spread r) of
           None \<Rightarrow> (if ar_ended r then (Some None, []) else (Some (Some StillApartUnknown), []))
         | Some False \<Rightarrow> (Some (Some StillApartNotShrinking), [])
         | Some True \<Rightarrow>
             (case await_loop (ar_after r + ConvergenceGrace * second) True rs of (res, evs) \<Rightarrow>
                (res, crit '''' FindingNoConvergence 0
                   (lit ''clients still disagree after the heal but the head spread is shrinking; extending the wait once'') # evs))))"

definition await_convergence :: "gotime \<Rightarrow> await_round list \<Rightarrow> await_error option option \<times> event list" where
  "await_convergence start rounds = await_loop (start + ConvergenceGrace * second) False rounds"

section \<open>The partition after the migration\<close>

definition deepWindow :: duration where
  [go_defs]: "deepWindow = 190 * second"

definition shortWindow :: duration where
  [go_defs]: "shortWindow = 150 * second"

datatype post_op_error =
    NoLight | NoPair nat | NoContainers "string + nat" | PartitionFailed "int list" disruptoor_error
  | HealFailed disruptoor_error | NotConverged await_error

record post_op_world =
  pw_containers :: "string + nat"
  pw_now :: gotime
  pw_put :: "string option"
  pw_slept :: bool
  pw_clear :: "string option"
  pw_repeer :: "repeer_error option"
  pw_await_start :: gotime
  pw_await :: "await_round list"

record post_op_result =
  po_applied :: "partition_spec list" \<comment> \<open>what the emulator holds afterwards\<close>
  po_until :: gotime \<comment> \<open>the hold claimed for the watchdog\<close>
  po_events :: "event list"
  po_error :: "post_op_error option option" \<comment> \<open>\<open>None\<close> while the wait goes on\<close>

definition post_op_victims :: "string \<Rightarrow> int list \<Rightarrow> post_op_error + int list \<times> duration" where
  "post_op_victims kind ls =
     (if kind = ''short-light'' then
        (if ls = [] then Inl NoLight else Inr (take 1 ls, shortWindow))
      else if length ls < 2 then Inl (NoPair (length ls)) else Inr (take 2 ls, deepWindow))"

definition run_post_op ::
  "string \<Rightarrow> int list \<Rightarrow> int \<Rightarrow> int list \<Rightarrow> partition_spec list \<Rightarrow> gotime \<Rightarrow> post_op_world \<Rightarrow> post_op_result"
where
  "run_post_op kind ls participants observers applied until w =
     (let result = (\<lambda>net u evs e. \<lparr>po_applied = net, po_until = u, po_events = evs, po_error = e\<rparr>)
      in (case post_op_victims kind ls of
            Inl e \<Rightarrow> result applied until [] (Some (Some e))
          | Inr (victims, window') \<Rightarrow>
              if (case pw_containers w of Inl _ \<Rightarrow> True | Inr n \<Rightarrow> n = 0) then
                result applied until [] (Some (Some (NoContainers (pw_containers w))))
              else
                let until1 = hold_until (pw_now w) window'
                in (case disrupt_partition observers (''post-migration-'' @ kind)
                           [others participants victims, victims] (pw_put w) applied of
                      (net, Some e) \<Rightarrow> result net zero_time [] (Some (Some (PartitionFailed victims e)))
                    | (net, None) \<Rightarrow>
                        let isolates = map (\<lambda>v. mk_event EvIsolate (node_name v)
                              (Fmt ''class=%s window=%.0fs after the migration completed''
                                 [DS kind, DI window'])) victims
                        in (case disrupt_clear (pw_clear w) net of (net', err) \<Rightarrow>
                              if \<not> pw_slept w then result net' until1 isolates (Some None)
                              else (case err of
                                  Some e \<Rightarrow> result net' until1 isolates (Some (Some (HealFailed e)))
                                | None \<Rightarrow>
                                    let heals = map (\<lambda>v. mk_event EvHeal (node_name v)
                                          (lit ''post-migration window closed'')) victims;
                                        mesh = [(case pw_repeer w of
                                              Some _ \<Rightarrow> mk_event EvWarn '''' (lit ''re-peering after the heal'')
                                            | None \<Rightarrow> mk_event EvHeal '''' (lit ''execution clients re-peered''))]
                                    in (case await_convergence (pw_await_start w) (pw_await w) of (res, evs) \<Rightarrow>
                                          result net' (if res = None then until1 else zero_time)
                                            (isolates @ heals @ mesh @ evs)
                                            (map_option (map_option NotConverged) res)))))))"

section \<open>The watchdog\<close>

definition heal_kind :: "string + nat \<Rightarrow> string" where
  "heal_kind parts_before =
     (case parts_before of Inr n \<Rightarrow> if 0 < n then ''dead-driver: '' else ''mesh-repeer: ''
      | Inl _ \<Rightarrow> ''mesh-repeer: '')"

record watch_world =
  ww_now :: gotime
  ww_converged :: convergence
  ww_until :: gotime \<comment> \<open>the hold this process claims at that poll\<close>
  ww_state :: "string + nat"
  ww_clear :: "string option"
  ww_repeer :: "repeer_error option"

record watchdog =
  wd_since :: gotime
  wd_fired :: bool

definition watchdog0 :: watchdog where
  "watchdog0 = \<lparr>wd_since = zero_time, wd_fired = False\<rparr>"

text \<open>A partition is accounted for at a time: the schedule holds one, or this process does.\<close>

definition claimed :: "schedule \<Rightarrow> gotime \<Rightarrow> gotime \<Rightarrow> bool" where
  "claimed sched until now \<longleftrightarrow> covers sched now \<or> holding until now"

text \<open>One turn of the loop; the third component is whether it asked for a heal.\<close>

definition watchdog_step :: "schedule \<Rightarrow> watchdog \<Rightarrow> watch_world \<Rightarrow> watchdog \<times> event list \<times> bool" where
  "watchdog_step sched s w =
     (case ww_converged w of
        NotCompared _ \<Rightarrow> (s, [], False)
      | Agreed \<Rightarrow> (watchdog0, [], False)
      | Disagreed k seen \<Rightarrow>
          if claimed sched (ww_until w) (ww_now w) then (s\<lparr>wd_since := zero_time\<rparr>, [], False)
          else if is_zero (wd_since s) then (s\<lparr>wd_since := ww_now w\<rparr>, [], False)
          else if wd_fired s \<or> tsub (ww_now w) (wd_since s) \<le> ConvergenceGrace * second then (s, [], False)
          else
            let s = s\<lparr>wd_fired := True\<rparr>
            in (case ww_clear w of
                  Some e \<Rightarrow> (s, [mk_event EvWarn '''' (Fmt ''watchdog heal failed: %v'' [DS e])], True)
                | None \<Rightarrow>
                    (s, (case ww_repeer w of
                           None \<Rightarrow> []
                         | Some _ \<Rightarrow> [mk_event EvWarn '''' (lit ''re-peering after the watchdog heal'')]) @
                        [crit '''' FindingNoConvergence 0
                           (Fmt (heal_kind (ww_state w) @
                                 ''healed a partition no schedule was holding after %.0fs of divergence'')
                              [DI (tsub (ww_now w) (wd_since s)), DI (uint k), DL (map fst seen)])], True)))"

fun watchdog_run :: "schedule \<Rightarrow> watchdog \<Rightarrow> watch_world list \<Rightarrow> watchdog" where
  "watchdog_run sched s [] = s"
| "watchdog_run sched s (w # ws) = watchdog_run sched (fst (watchdog_step sched s w)) ws"

section \<open>Consensus clients without peers\<close>

definition peerStarvedAfter :: duration where
  [go_defs]: "peerStarvedAfter = 90 * second"

record starvation =
  st_since :: gotime
  st_fired :: bool

definition starvation0 :: starvation where
  "starvation0 = \<lparr>st_since = zero_time, st_fired = False\<rparr>"

definition starve_observe :: "starvation \<Rightarrow> gotime \<Rightarrow> (string + int) \<Rightarrow> bool \<Rightarrow> starvation \<times> bool" where
  "starve_observe s now peers held =
     (if (case peers of Inl _ \<Rightarrow> True | Inr n \<Rightarrow> 0 < n) \<or> held then (starvation0, False)
      else if is_zero (st_since s) then (s\<lparr>st_since := now\<rparr>, False)
      else if st_fired s \<or> tsub now (st_since s) < peerStarvedAfter then (s, False)
      else (s\<lparr>st_fired := True\<rparr>, True))"

text \<open>One poll of \<open>peerWatch\<close> over every consensus client.\<close>

fun peer_watch ::
  "schedule \<Rightarrow> gotime \<Rightarrow> gotime \<Rightarrow> (string \<times> starvation) list \<Rightarrow> (string + int) list \<Rightarrow> (string \<times> starvation) list \<times> event list"
where
  "peer_watch sched until now ((name, s) # es) (p # ps) =
     (let (s', f) = starve_observe s now p (claimed sched until now);
          (es', evs) = peer_watch sched until now es ps
      in ((name, s') # es',
          (if f then [(mk_event EvWarn name
             (Fmt ''no consensus peers for %.0fs outside any scheduled partition'' [DI (tsub now (st_since s'))]))
               \<lparr>ev_finding := FindingPeerStarved\<rparr>] else []) @ evs))"
| "peer_watch sched until now es ps = (es, [])"

section \<open>What convergence means\<close>

lemma min_head_heads: "min_head m cs = Inr r \<Longrightarrow> \<exists>hs. map gc_head cs = map Inr hs"
proof (induction cs arbitrary: m)
  case (Cons c cs)
  then obtain h where h: "gc_head c = Inr h" by (auto split: sum.splits)
  with Cons obtain hs where "map gc_head cs = map Inr hs" by fastforce
  with h have "map gc_head (c # cs) = map Inr (h # hs)" by simp
  then show ?case by blast
qed auto

lemma min_head_from:
  "map gc_head cs = map Inr hs \<Longrightarrow> min_head (Some k) cs = Inr (Some (Min (insert k (set hs))))"
proof (induction cs arbitrary: k hs)
  case (Cons c cs)
  then obtain h hs' where h: "hs = h # hs'" "gc_head c = Inr h" "map gc_head cs = map Inr hs'"
    by (cases hs) auto
  have "Min (insert k (insert h (set hs'))) = Min (insert (if h < k then h else k) (set hs'))"
    by (rule Min_running) simp
  with h Cons.IH [OF h(3)] show ?case by simp
qed auto

lemma min_head_eq:
  assumes "map gc_head cs = map Inr hs" "cs \<noteq> []"
  shows "min_head None cs = Inr (Some (Min (set hs)))"
proof -
  obtain c cs' h hs' where "cs = c # cs'" "hs = h # hs'" "gc_head c = Inr h" "map gc_head cs' = map Inr hs'"
    using assms by (cases cs; cases hs) auto
  with min_head_from [of cs' hs' h] show ?thesis by simp
qed

lemma hashes_at_spec:
  "hashes_at k seen cs = Inr out \<Longrightarrow>
     Some ` fst ` set out = Some ` fst ` set seen \<union> (\<lambda>c. gc_hash_at c k) ` set cs \<and>
     (distinct (map fst seen) \<longrightarrow> distinct (map fst out))"
proof (induction cs arbitrary: seen)
  case (Cons c cs)
  then obtain h where h: "gc_hash_at c k = Some h" "hashes_at k (AList.update h (gc_name c) seen) cs = Inr out"
    by (auto split: option.splits)
  from Cons.IH [OF h(2)] h(1) distinct_update [of seen h "gc_name c"] dom_update [of h "gc_name c" seen]
  show ?case by auto
qed auto

lemma hashes_at_total: "\<forall>c \<in> set cs. gc_hash_at c k \<noteq> None \<Longrightarrow> \<exists>out. hashes_at k seen cs = Inr out"
  by (induction cs arbitrary: seen) auto

lemma length_one_iff: "distinct xs \<Longrightarrow> length xs = 1 \<longleftrightarrow> (\<exists>x. set xs = {x})"
  by (metis card_1_singleton_iff distinct_card One_nat_def)

lemma hashes_at_one:
  assumes "cs \<noteq> []"
  shows "(\<exists>out. hashes_at k [] cs = Inr out \<and> length out = 1) \<longleftrightarrow>
    (\<exists>x. (\<lambda>c. gc_hash_at c k) ` set cs = {Some x})"
proof
  assume "\<exists>out. hashes_at k [] cs = Inr out \<and> length out = 1"
  then obtain p where p: "hashes_at k [] cs = Inr [p]" by (auto simp: length_Suc_conv)
  from hashes_at_spec [OF p] show "\<exists>x. (\<lambda>c. gc_hash_at c k) ` set cs = {Some x}" by auto
next
  assume "\<exists>x. (\<lambda>c. gc_hash_at c k) ` set cs = {Some x}"
  then obtain x where x: "(\<lambda>c. gc_hash_at c k) ` set cs = {Some x}" by blast
  then have "\<forall>c \<in> set cs. gc_hash_at c k \<noteq> None" by fastforce
  then obtain out where out: "hashes_at k [] cs = Inr out" using hashes_at_total by blast
  note sp = hashes_at_spec [OF out]
  have "Some ` set (map fst out) = Some ` {x}" using sp x by simp
  then have "set (map fst out) = {x}" by (simp only: inj_image_eq_iff [OF inj_Some])
  moreover have "distinct (map fst out)" using sp by simp
  ultimately have "length out = 1" using length_one_iff [of "map fst out"] by auto
  with out show "\<exists>out. hashes_at k [] cs = Inr out \<and> length out = 1" by blast
qed

text \<open>The clients agree exactly when there is one, every head was read, and all of them hold
  the same block at the lowest of the heads.\<close>

theorem converged_agreed_iff:
  "converged cs = Agreed \<longleftrightarrow> cs \<noteq> [] \<and>
     (\<exists>hs x. map gc_head cs = map Inr hs \<and> (\<lambda>c. gc_hash_at c (Min (set hs))) ` set cs = {Some x})"
proof (cases "cs = []")
  case False
  show ?thesis
  proof
    assume a: "converged cs = Agreed"
    then obtain k out where k: "min_head None cs = Inr (Some k)" "hashes_at k [] cs = Inr out" "length out = 1"
      by (auto simp: converged_def split: sum.splits option.splits if_splits)
    from min_head_heads [OF k(1)] obtain hs where hs: "map gc_head cs = map Inr hs" by blast
    from min_head_eq [OF hs False] k(1) have "k = Min (set hs)" by simp
    with k hs False hashes_at_one [of cs k] show "cs \<noteq> [] \<and>
     (\<exists>hs x. map gc_head cs = map Inr hs \<and> (\<lambda>c. gc_hash_at c (Min (set hs))) ` set cs = {Some x})"
      by blast
  next
    assume "cs \<noteq> [] \<and>
     (\<exists>hs x. map gc_head cs = map Inr hs \<and> (\<lambda>c. gc_hash_at c (Min (set hs))) ` set cs = {Some x})"
    then obtain hs x where hs: "map gc_head cs = map Inr hs"
      "(\<lambda>c. gc_hash_at c (Min (set hs))) ` set cs = {Some x}" by blast
    then obtain out where "hashes_at (Min (set hs)) [] cs = Inr out" "length out = 1"
      using hashes_at_one [OF False] by blast
    with min_head_eq [OF hs(1) False] show "converged cs = Agreed" by (simp add: converged_def)
  qed
qed (simp add: converged_def)

lemma spread_loop_eq:
  "spread_loop (Some (lo, hi)) (map Inr hs) = Inr (Max (insert hi (set hs)) - Min (insert lo (set hs)))"
proof (induction hs arbitrary: lo hi)
  case (Cons h hs)
  note r = Max_running [of "set hs" hi h] Min_running [of "set hs" lo h]
  from r show ?case by (simp add: Cons.IH)
qed simp

section \<open>Starvation episodes\<close>

definition starving :: "(string + int) \<Rightarrow> bool \<Rightarrow> bool" where
  "starving peers held \<longleftrightarrow> \<not> held \<and> (case peers of Inl _ \<Rightarrow> False | Inr n \<Rightarrow> n \<le> 0)"

lemma starve_observe_eq:
  "starve_observe s now peers held =
     (if \<not> starving peers held then (starvation0, False)
      else if st_since s = zero_time then (s\<lparr>st_since := now\<rparr>, False)
      else if \<not> st_fired s \<and> peerStarvedAfter \<le> tsub now (st_since s) then (s\<lparr>st_fired := True\<rparr>, True)
      else (s, False))"
  by (auto simp: starve_observe_def starving_def is_zero_def not_le not_less split: sum.splits)

definition starve_watch :: "starvation \<Rightarrow> gotime \<Rightarrow> bool \<Rightarrow> bool \<Rightarrow> starvation \<Rightarrow> bool" where
  "starve_watch s now bad f s' \<longleftrightarrow>
     (\<exists>peers held. bad = starving peers held \<and> starve_observe s now peers held = (s', f))"

interpretation sw: grace_watch st_since st_fired "\<lambda>t s. peerStarvedAfter \<le> tsub t s"
  "\<lambda>s. st_fired s \<longrightarrow> st_since s \<noteq> zero_time" starve_watch
proof
  fix s now c f s'
  assume inv: "st_fired s \<longrightarrow> st_since s \<noteq> zero_time" and w: "starve_watch s now c f s'"
  show "st_fired s' \<longrightarrow> st_since s' \<noteq> zero_time"
    using inv w by (auto simp: starve_watch_def starve_observe_eq starvation0_def split: if_splits)
next
  fix s now f s'
  assume "starve_watch s now False f s'"
  then show "\<not> f \<and> st_since s' = zero_time \<and> \<not> st_fired s'"
    by (auto simp: starve_watch_def starve_observe_eq starvation0_def split: if_splits)
next
  fix s now f s'
  assume "st_fired s \<longrightarrow> st_since s \<noteq> zero_time" and "starve_watch s now True f s'"
  then show "st_since s' = (if st_since s = zero_time then now else st_since s) \<and>
      f = (\<not> st_fired s \<and> peerStarvedAfter \<le> tsub now (st_since s')) \<and> st_fired s' = (st_fired s \<or> f)"
    by (cases s) (auto simp: starve_watch_def starve_observe_eq starvation0_def peerStarvedAfter_def
        second_def split: if_splits)
qed

fun starve_run ::
  "starvation \<Rightarrow> (gotime \<times> (string + int) \<times> bool) list \<Rightarrow> (gotime \<times> bool \<times> bool \<times> starvation) list"
where
  "starve_run s [] = []"
| "starve_run s ((now, peers, held) # ps) =
     (case starve_observe s now peers held of (s', f) \<Rightarrow>
        (now, starving peers held, f, s') # starve_run s' ps)"

lemma starve_run_chain: "chain starve_watch s (starve_run s ps)"
  by (induction s ps rule: starve_run.induct) (auto simp: starve_watch_def split: prod.splits)

lemma starve_run_times: "map fst (starve_run s ps) = map fst ps"
  by (induction s ps rule: starve_run.induct) (auto simp: Let_def split: prod.splits)

text \<open>Over any run of polls a consensus client is reported starved exactly at the first poll
  of an episode, unbroken by a peer, an unreachable API or a held partition, that comes 90 s or
  more after the episode began.\<close>

theorem starvation_reports:
  assumes "\<forall>p \<in> set ps. fst p \<noteq> zero_time" "k < length ps"
  shows "fst (snd (snd (starve_run starvation0 ps ! k))) =
    first_late (\<lambda>now start. 90 * second \<le> tsub now start)
      (episode (rev (take (Suc k) (polls_of (starve_run starvation0 ps)))))"
proof -
  have "length (starve_run starvation0 ps) = length ps"
    using starve_run_times [of starvation0 ps] by (metis length_map)
  moreover have "\<forall>e \<in> set (starve_run starvation0 ps). fst e \<noteq> zero_time"
    using starve_run_times [of starvation0 ps] assms(1) by (metis image_iff list.set_map)
  ultimately show ?thesis
    using sw.reports [OF starve_run_chain, of starvation0 ps k] assms(2)
    by (simp add: starvation0_def peerStarvedAfter_def)
qed

theorem starvation_reports_witness:
  "fst (snd (snd (starve_run starvation0
     [(tunix 10, Inr 0, False), (tunix 40, Inr 0, False), (tunix 100, Inr 0, False)] ! 2))) =
    first_late (\<lambda>now start. 90 * second \<le> tsub now start)
      (episode (rev (take (Suc 2) (polls_of (starve_run starvation0
        [(tunix 10, Inr 0, False), (tunix 40, Inr 0, False), (tunix 100, Inr 0, False)])))))"
  by (rule starvation_reports) (simp_all add: tunix_def second_def zero_time_def)

section \<open>The watchdog's heals\<close>

definition stray :: "schedule \<Rightarrow> watch_world \<Rightarrow> bool" where
  "stray sched w \<longleftrightarrow> (\<exists>k seen. ww_converged w = Disagreed k seen) \<and>
     \<not> covers sched (ww_now w) \<and> \<not> holding (ww_until w) (ww_now w)"

definition unread :: "watch_world \<Rightarrow> bool" where
  "unread w \<longleftrightarrow> (\<exists>e. ww_converged w = NotCompared e)"

lemma watchdog_step_cases:
  "watchdog_step sched s w =
     (if unread w then (s, [], False)
      else if ww_converged w = Agreed then (watchdog0, [], False)
      else if \<not> stray sched w then (s\<lparr>wd_since := zero_time\<rparr>, [], False)
      else watchdog_step sched s w)"
  by (simp add: watchdog_step_def unread_def stray_def claimed_def split: convergence.splits)

lemma watchdog_since:
  "wd_since (watchdog_run sched watchdog0 ws) \<noteq> zero_time \<Longrightarrow>
    \<exists>pre w0 post. ws = pre @ w0 # post \<and> wd_since (watchdog_run sched watchdog0 ws) = ww_now w0 \<and>
      stray sched w0 \<and> (\<forall>x \<in> set post. stray sched x \<or> unread x)"
proof (induction ws rule: rev_induct)
  case Nil
  then show ?case by (simp add: watchdog0_def)
next
  case (snoc w ws)
  have run: "watchdog_run sched s (ws @ [w]) = fst (watchdog_step sched (watchdog_run sched s ws) w)" for s
    by (induction ws arbitrary: s) auto
  let ?s = "watchdog_run sched watchdog0 ws"
  let ?s' = "fst (watchdog_step sched ?s w)"
  have s': "watchdog_run sched watchdog0 (ws @ [w]) = ?s'" by (rule run)
  show ?case
  proof (cases "unread w \<or> stray sched w \<and> wd_since ?s \<noteq> zero_time")
    case True
    then have same: "wd_since ?s' = wd_since ?s"
      by (auto simp: watchdog_step_def unread_def stray_def claimed_def is_zero_def Let_def
          split: convergence.splits option.splits)
    with snoc.prems s' have "wd_since ?s \<noteq> zero_time" by simp
    from snoc.IH [OF this] obtain pre w0 post where
      p: "ws = pre @ w0 # post" "wd_since ?s = ww_now w0" "stray sched w0" "\<forall>x \<in> set post. stray sched x \<or> unread x"
      by blast
    with True same s' show ?thesis
      by (intro exI [of _ pre] exI [of _ w0] exI [of _ "post @ [w]"]) auto
  next
    case False
    with snoc.prems s' have "stray sched w" "wd_since ?s = zero_time" "wd_since ?s' = ww_now w"
      by (auto simp: watchdog_step_def unread_def stray_def claimed_def is_zero_def watchdog0_def Let_def
          split: convergence.splits option.splits if_splits)
    with s' show ?thesis by (intro exI [of _ ws] exI [of _ w] exI [of _ "[]"]) auto
  qed
qed

text \<open>C28: The watchdog asks for a heal only when the clients have disagreed, with no partition
  claimed, at every comparison since one more than 120 s ago.\<close>

theorem watchdog_heals_unclaimed:
  assumes "snd (snd (watchdog_step sched (watchdog_run sched watchdog0 ws) w))"
  shows "\<exists>pre w0 post. ws = pre @ w0 # post \<and> 120 * second < tsub (ww_now w) (ww_now w0) \<and>
    stray sched w0 \<and> stray sched w \<and> (\<forall>x \<in> set post. stray sched x \<or> unread x)"
proof -
  let ?s = "watchdog_run sched watchdog0 ws"
  from assms have "stray sched w" "wd_since ?s \<noteq> zero_time" "120 * second < tsub (ww_now w) (wd_since ?s)"
    by (auto simp: watchdog_step_def stray_def claimed_def is_zero_def Let_def
        split: convergence.splits option.splits if_splits)
  with watchdog_since [OF this(2)] show ?thesis by metis
qed

lemma fired_stays:
  "wd_fired s \<Longrightarrow> \<forall>w \<in> set ws. ww_converged w \<noteq> Agreed \<Longrightarrow> wd_fired (watchdog_run sched s ws)"
proof (induction ws arbitrary: s)
  case (Cons w ws)
  then have "wd_fired (fst (watchdog_step sched s w))"
    by (auto simp: watchdog_step_def claimed_def Let_def split: convergence.splits option.splits)
  with Cons show ?case by simp
qed simp

text \<open>The latch is set before the heal is tried: when the clear fails, the watchdog never
  asks again while the divergence lasts, however long that is.\<close>

theorem watchdog_failed_heal_latches:
  assumes "snd (snd (watchdog_step sched s w))" "ww_clear w = Some e"
    and "\<forall>x \<in> set ws. ww_converged x \<noteq> Agreed" "ww_converged w' \<noteq> Agreed"
  shows "\<not> snd (snd (watchdog_step sched (watchdog_run sched (fst (watchdog_step sched s w)) ws) w'))"
proof -
  have "wd_fired (fst (watchdog_step sched s w))"
    using assms(1) by (auto simp: watchdog_step_def claimed_def Let_def split: convergence.splits option.splits if_splits)
  from fired_stays [OF this assms(3)] show ?thesis
    by (auto simp: watchdog_step_def claimed_def Let_def split: convergence.splits)
qed

text \<open>A schedule with nothing in it.\<close>

definition idle_schedule :: schedule where
  "idle_schedule =
     \<lparr>sc_profile = '''', sc_ops = [], sc_failsafes = [], sc_quiet = 0, sc_slot_seconds = 6\<rparr>"

definition apart :: "int \<Rightarrow> string option \<Rightarrow> watch_world" where
  "apart t refused =
     \<lparr>ww_now = tunix t, ww_converged = Disagreed 7 [], ww_until = zero_time, ww_state = Inr 1, ww_clear = refused,
      ww_repeer = None\<rparr>"

lemma apart_heals:
  "snd (snd (watchdog_step idle_schedule \<lparr>wd_since = tunix 10, wd_fired = False\<rparr> (apart 140 refused)))"
  "watchdog_run idle_schedule watchdog0 [apart 10 refused] = \<lparr>wd_since = tunix 10, wd_fired = False\<rparr>"
  by (simp_all add: watchdog_step_def watchdog0_def claimed_def covers_def legal_windows_def holding_def idle_schedule_def
      apart_def Let_def is_zero_def zero_time_def tunix_def second_def tsub_def min_duration_def max_duration_def
      split: option.splits)

theorem watchdog_heals_unclaimed_witness:
  "\<exists>pre w0 post. [apart 10 None] = pre @ w0 # post \<and> 120 * second < tsub (tunix 140) (ww_now w0)"
proof -
  have "snd (snd (watchdog_step idle_schedule (watchdog_run idle_schedule watchdog0 [apart 10 None]) (apart 140 None)))"
    unfolding apart_heals(2) by (rule apart_heals(1))
  from watchdog_heals_unclaimed [OF this] show ?thesis by (auto simp: apart_def)
qed

theorem watchdog_failed_heal_latches_witness:
  "\<not> snd (snd (watchdog_step idle_schedule (watchdog_run idle_schedule
      (fst (watchdog_step idle_schedule \<lparr>wd_since = tunix 10, wd_fired = False\<rparr> (apart 140 (Some ''busy'')))) [])
      (apart 9000 None)))"
  by (rule watchdog_failed_heal_latches [OF apart_heals(1)]) (simp_all add: apart_def)

section \<open>The post-migration partition and the waits\<close>

text \<open>C27: The post-migration partition never outlives the call once its clear is accepted: nothing
  is applied when the call ends, whether it was refused, interrupted, failed or ran to
  convergence. A call that held its window to the end reports success only over an accepted
  clear; one interrupted inside the window asks for the clear too, but reports success whatever
  the emulator said. The hold claimed for the watchdog is given up with every verdict on
  convergence.\<close>

theorem run_post_op_clears:
  assumes "run_post_op kind ls n observers [] zero_time w = r"
  shows "(pw_clear w = None \<longrightarrow> po_applied r = []) \<and>
    (po_error r = Some None \<and> pw_slept w \<longrightarrow> pw_clear w = None) \<and>
    (po_events r \<noteq> [] \<and> \<not> pw_slept w \<longrightarrow> po_error r = Some None) \<and>
    (po_until r \<noteq> zero_time \<longrightarrow> po_error r = None \<or> \<not> pw_slept w \<or> pw_clear w \<noteq> None)"
proof (cases "post_op_victims kind ls")
  case (Inl e)
  with assms show ?thesis by (auto simp: run_post_op_def)
next
  case (Inr vw)
  obtain vs window' where vw: "vw = (vs, window')" by (cases vw)
  define refused where "refused = (case pw_containers w of Inl _ \<Rightarrow> True | Inr n \<Rightarrow> n = 0)"
  note eq = run_post_op_def disrupt_partition_def disrupt_clear_def partition_request_def Let_def
    refused_def [symmetric]
  show ?thesis
  proof (cases "refused \<or> pw_put w \<noteq> None")
    case True
    with Inr vw assms show ?thesis by (cases refused; cases "pw_put w") (auto simp: eq)
  next
    case False
    obtain res evs where aw: "await_convergence (pw_await_start w) (pw_await w) = (res, evs)"
      by (metis surj_pair)
    from False Inr vw assms aw show ?thesis
      by (cases "pw_clear w"; cases "pw_slept w"; cases res) (auto simp: eq)
  qed
qed

lemma await_loop_spec:
  "await_loop deadline ext rs = (res, evs) \<Longrightarrow>
    (\<forall>e. res = Some (Some e) \<longrightarrow> (\<exists>r \<in> set rs. deadline < ar_now r) \<and>
       (e = StillApartExtended \<and> \<not> ext \<longrightarrow>
          (\<exists>r \<in> set rs. \<exists>a b c. ar_spread r = (Inr a, True, Inr b, True, Inr c) \<and> c < b \<and> b < a))) \<and>
    length (filter (\<lambda>e. ev_kind e = EvCritical) evs) \<le> (if ext then 0 else 1) \<and>
    ((\<exists>e \<in> set evs. ev_kind e = EvHeal) \<longrightarrow> res = Some None \<and> (\<exists>r \<in> set rs. ar_converged r = Agreed))"
proof (induction deadline ext rs arbitrary: res evs rule: await_loop.induct)
  case (2 deadline ext r rs)
  show ?case
  proof (cases "ar_converged r = Agreed")
    case True
    with 2 show ?thesis by auto
  next
    case na: False
    show ?thesis
    proof (cases "deadline < ar_now r")
      case False
      with 2 na show ?thesis by (auto split: if_splits)
    next
      case late: True
      show ?thesis
      proof (cases "\<not> ext \<and> spread_shrinking (ar_spread r) = Some True")
        case False
        with 2 na late show ?thesis by (auto split: if_splits option.splits bool.splits)
      next
        case True
        then have sp: "\<exists>a b c. ar_spread r = (Inr a, True, Inr b, True, Inr c) \<and> c < b \<and> b < a"
          by (auto simp: spread_shrinking_def trend_shrinking_def split: prod.splits sum.splits bool.splits)
        obtain res' evs' where l: "await_loop (ar_after r + ConvergenceGrace * second) True rs = (res', evs')"
          by (metis surj_pair)
        from "2.IH"(2) [OF na _ _ _ _ l] True late have IH:
          "length (filter (\<lambda>e. ev_kind e = EvCritical) evs') \<le> 0"
          "(\<exists>e \<in> set evs'. ev_kind e = EvHeal) \<longrightarrow> res' = Some None \<and> (\<exists>r \<in> set rs. ar_converged r = Agreed)"
          by auto
        from l na late True "2.prems" have "res = res'"
          "evs = crit '''' FindingNoConvergence 0
             (lit ''clients still disagree after the heal but the head spread is shrinking; extending the wait once'') # evs'"
          by auto
        with IH sp late True show ?thesis by (auto simp: crit_def)
      qed
    qed
  qed
qed simp

text \<open>The wait for convergence fails only past its grace, extends it at most once, with one
  critical event, and only on a strictly shrinking head spread, and reports recovery only on a
  round in which the clients agreed.\<close>

theorem await_convergence_outcome:
  assumes "await_convergence start rounds = (res, evs)"
  shows "(\<forall>e. res = Some (Some e) \<longrightarrow> (\<exists>r \<in> set rounds. start + 120 * second < ar_now r) \<and>
       (e = StillApartExtended \<longrightarrow> (\<exists>r \<in> set rounds. \<exists>a b c.
          ar_spread r = (Inr a, True, Inr b, True, Inr c) \<and> c < b \<and> b < a))) \<and>
    length (filter (\<lambda>e. ev_kind e = EvCritical) evs) \<le> 1 \<and>
    ((\<exists>e \<in> set evs. ev_kind e = EvHeal) \<longrightarrow> res = Some None \<and> (\<exists>r \<in> set rounds. ar_converged r = Agreed))"
  using await_loop_spec [of "start + 120 * second" False rounds res evs] assms
  by (simp add: await_convergence_def)

theorem await_convergence_outcome_witness:
  "let r = \<lparr>ar_converged = Disagreed 7 [], ar_now = tunix 131, ar_slept = True,
       ar_spread = (Inr 5, True, Inr 5, True, Inr 4), ar_ended = False, ar_after = tunix 140\<rparr>
   in fst (await_convergence (tunix 10) [r]) = Some (Some StillApartNotShrinking) \<and>
      tunix 10 + 120 * second < ar_now r"
proof -
  let ?r = "\<lparr>ar_converged = Disagreed 7 [], ar_now = tunix 131, ar_slept = True,
       ar_spread = (Inr 5, True, Inr 5, True, Inr 4), ar_ended = False, ar_after = tunix 140\<rparr>"
  have "await_convergence (tunix 10) [?r] = (Some (Some StillApartNotShrinking), [])"
    by (simp add: await_convergence_def spread_shrinking_def trend_shrinking_def tunix_def second_def)
  from await_convergence_outcome [OF this] this show ?thesis by simp
qed

section \<open>Completion\<close>

lemma done_round_count:
  "length as = length ns \<Longrightarrow>
    fst (done_round ns as st k) = k + length (filter (\<lambda>a. \<exists>p. a = Inr p \<and> mp_phase p = PhaseDone) as)"
proof (induction ns as st k rule: done_round.induct)
  case (1 n ns a as st k)
  then show ?case by (cases a) (auto split: prod.splits)
qed auto

lemma done_rounds_true:
  "done_rounds watched st rs = (Some True, evs) \<Longrightarrow> \<forall>r \<in> set rs. length (fst r) = length watched \<Longrightarrow>
    \<exists>r \<in> set rs. \<forall>a \<in> set (fst r). \<exists>p. a = Inr p \<and> mp_phase p = PhaseDone"
proof (induction watched st rs arbitrary: evs rule: done_rounds.induct)
  case (2 watched st as slept rs)
  obtain k st' evs' where r: "done_round watched as st 0 = (k, st', evs')" by (metis prod.exhaust)
  show ?case
  proof (cases "k = length watched")
    case True
    have "length as = length watched" using "2.prems"(2) by simp
    then have "k = length (filter (\<lambda>a. \<exists>p. a = Inr p \<and> mp_phase p = PhaseDone) as)"
      using done_round_count [of as watched st 0] r by simp
    with True \<open>length as = length watched\<close>
    have l: "\<not> length (filter (\<lambda>a. \<exists>p. a = Inr p \<and> mp_phase p = PhaseDone) as) < length as" by simp
    have "\<forall>a \<in> set as. \<exists>p. a = Inr p \<and> mp_phase p = PhaseDone"
      using l length_filter_less [of _ as "\<lambda>a. \<exists>p. a = Inr p \<and> mp_phase p = PhaseDone"] by blast
    then show ?thesis by simp
  next
    case False
    with "2.prems" r obtain evs2 where "slept" "done_rounds watched st' rs = (Some True, evs2)"
      by (auto split: if_splits prod.splits)
    from this(1) False r "2.prems"(2) "2.IH" [of k "(st', evs')" st' evs' evs2] this(2)
    have "\<exists>r \<in> set rs. \<forall>a \<in> set (fst r). \<exists>p. a = Inr p \<and> mp_phase p = PhaseDone" by simp
    then show ?thesis by simp
  qed
qed auto

text \<open>Completion is reported only on a round in which every introspecting client, and at least
  one, answered with a progress that decodes and says done.\<close>

theorem wait_for_done_true:
  assumes "fst (wait_for_done clients rounds) = Some True"
    and "\<forall>r \<in> set rounds. length (fst r) = length (filter snd clients)"
  shows "filter snd clients \<noteq> [] \<and>
    (\<exists>r \<in> set rounds. \<forall>a \<in> set (fst r). \<exists>p. a = Inr p \<and> mp_phase p = PhaseDone)"
proof -
  let ?w = "map fst (filter snd clients)"
  from assms(1) have w: "filter snd clients \<noteq> []"
    by (auto simp: wait_for_done_def Let_def split: if_splits)
  obtain r evs where d: "done_rounds ?w {} rounds = (r, evs)" by (metis surj_pair)
  with assms(1) w have "r = Some True" by (simp add: wait_for_done_def Let_def)
  with done_rounds_true [OF d [unfolded this]] assms(2) w show ?thesis by simp
qed

theorem wait_for_done_true_witness:
  "\<exists>r \<in> {([Inr \<lparr>mp_phase = PhaseDone, mp_binary = None, mp_merkle = None\<rparr>], False)} .
     \<forall>a \<in> set (fst (r :: (string + progress) list \<times> bool)). \<exists>p. a = Inr p \<and> mp_phase p = PhaseDone"
  using wait_for_done_true [of "[(''el-1'', True), (''el-2'', False)]"
      "[([Inr \<lparr>mp_phase = PhaseDone, mp_binary = None, mp_merkle = None\<rparr>], False)]"]
  by (simp add: wait_for_done_def)

theorem run_post_op_clears_witness:
  "po_applied (run_post_op ''deep-pair'' [2, 3] 5 [] [] zero_time
     \<lparr>pw_containers = Inr 5, pw_now = tunix 10, pw_put = None, pw_slept = True, pw_clear = None,
      pw_repeer = None, pw_await_start = tunix 200, pw_await = []\<rparr>) = []"
  using run_post_op_clears [OF refl, where kind = "''deep-pair''" and ls = "[2, 3]" and n = 5 and
     observers = "[]" and w = "\<lparr>pw_containers = Inr 5, pw_now = tunix 10, pw_put = None, pw_slept = True, pw_clear = None,
      pw_repeer = None, pw_await_start = tunix 200, pw_await = []\<rparr>"] by simp

end
