(* ===== verification/ChaosDriver.thy ===== *)
theory ChaosDriver
  imports Devnet Dump Registry Timeline Disruptoor
begin

text \<open>
  The partition driver (\<open>cmd/migration-chaos\<close>): the plan it prints, the serial execution of a
  schedule's actions (\<open>main.go\<close>, \<open>execute\<close>), the hold of a straddle until its victims crossed
  the fork, and the conflicting writes it injects (\<open>inject.go\<close>). What the world answers during
  one action (the sleeps, the clock, the emulator, the probes) is a record, one per action; a
  sleep a shutdown signal cuts short is a \<open>False\<close>. The injection contract's bytecode and the
  transactions' signing are left to their libraries.
\<close>

section \<open>Groups and plan\<close>

definition islands :: "int \<Rightarrow> op \<Rightarrow> int list list" where
  "islands participants x =
     (if op_mutual x then others participants (op_victims x) # map (\<lambda>v. [v]) (op_victims x)
      else [others participants (op_victims x), op_victims x])"

definition window_text :: "op \<Rightarrow> detail" where
  "window_text x =
     Fmt ''class=%s start=%d end=%d''
       [DS (class_string (op_class x)), DI (unix_of (op_start x)), DI (unix_of (op_end x))]"

definition victim_events :: "op \<Rightarrow> ev_kind \<Rightarrow> detail \<Rightarrow> event list" where
  "victim_events x k d = map (\<lambda>v. mk_event k (node_name v) d) (op_victims x)"

definition refused_text :: "op \<Rightarrow> detail" where
  "refused_text x = (case op_refused x of None \<Rightarrow> lit '''' | Some d \<Rightarrow> d)"

definition planned :: "event \<Rightarrow> event" where
  "planned e = e\<lparr>ev_plan := True\<rparr>"

definition emit_plan :: "schedule \<Rightarrow> event list" where
  "emit_plan s =
     map planned
       (concat (map (\<lambda>x. if admitted x then victim_events x EvIsolate (window_text x)
                         else victim_events x EvSkip (refused_text x)) (sc_ops s)) @
        map (\<lambda>f. mk_event EvHeal '''' (Fmt ''sweep at '' [DI f])) (sc_failsafes s) @
        [mk_event EvPause '''' (Fmt ''quiet from '' [DI (sc_quiet s)])])"

section \<open>The hold of a straddle\<close>

text \<open>\<open>straddleWatch.probe\<close>: the victim's head, and what the anchor knows under its hash.\<close>

definition straddle_probe ::
  "gotime \<Rightarrow> (string + header option) \<Rightarrow> (string \<Rightarrow> string + header option) \<Rightarrow> string + bool"
where
  "straddle_probe fork head anchor_knows =
     (case head of
        Inl e \<Rightarrow> Inl e
      | Inr None \<Rightarrow> Inr False
      | Inr (Some h) \<Rightarrow>
          if sint (h_time h) < unix_of fork then Inr False
          else (case anchor_knows (h_hash h) of Inl e \<Rightarrow> Inl e | Inr known \<Rightarrow> Inr (known = None)))"

record hold_poll =
  hp_probe :: "int \<Rightarrow> string + bool"
  hp_now :: gotime
  hp_slept :: bool

record hold_state =
  hs_crossed :: "int set"
  hs_reached :: "int set"
  hs_warned :: "int set"
  hs_paused :: bool

definition hold0 :: hold_state where
  "hold0 = \<lparr>hs_crossed = {}, hs_reached = {}, hs_warned = {}, hs_paused = False\<rparr>"

text \<open>One poll over the victims: the new state, who is still waited for, the events.\<close>

fun hold_victims ::
  "(int \<Rightarrow> string + bool) \<Rightarrow> int list \<Rightarrow> hold_state \<Rightarrow> hold_state \<times> string list \<times> event list"
where
  "hold_victims probe [] s = (s, [], [])"
| "hold_victims probe (v # vs) s =
     (if v \<in> hs_crossed s then hold_victims probe vs s
      else
        (case probe v of
           Inl e \<Rightarrow>
             (case hold_victims probe vs (s\<lparr>hs_warned := insert v (hs_warned s)\<rparr>) of
                (s', w, evs) \<Rightarrow>
                  (s', node_name v # w,
                   (if v \<in> hs_warned s then []
                    else [mk_event EvWarn (node_name v) (Fmt ''hold probe: '' [DS e])]) @ evs))
         | Inr True \<Rightarrow>
             (case hold_victims probe vs
                    (s\<lparr>hs_reached := insert v (hs_reached s), hs_crossed := insert v (hs_crossed s)\<rparr>) of
                (s', w, evs) \<Rightarrow>
                  (s', w, mk_event EvIsolate (node_name v) (lit ''crossed the fork on its own branch'') # evs))
         | Inr False \<Rightarrow>
             (case hold_victims probe vs (s\<lparr>hs_reached := insert v (hs_reached s)\<rparr>) of
                (s', w, evs) \<Rightarrow> (s', node_name v # w, evs))))"

datatype hold_result =
    Holding \<comment> \<open>the polls given are used up\<close>
  | HoldOver "int set" "int set" \<comment> \<open>who crossed, who never answered\<close>
  | HoldShutdown

fun hold_polls :: "int list \<Rightarrow> gotime \<Rightarrow> hold_state \<Rightarrow> hold_poll list \<Rightarrow> hold_result \<times> event list" where
  "hold_polls victims until s [] = (Holding, [])"
| "hold_polls victims until s (p # ps) =
     (case hold_victims (hp_probe p) victims s of
        (s', waiting, evs) \<Rightarrow>
          if waiting = [] \<or> \<not> hp_now p < until then
            (HoldOver (hs_crossed s') (set (filter (\<lambda>v. v \<notin> hs_reached s') victims)), evs)
          else
            let pause = (if hs_paused s' then []
                  else [mk_event EvPause '''' (Fmt ''hold: waiting for %s to cross the fork'' [DL waiting])])
            in if \<not> hp_slept p then (HoldShutdown, evs @ pause)
               else (case hold_polls victims until (s'\<lparr>hs_paused := True\<rparr>) ps of
                  (r, evs') \<Rightarrow> (r, evs @ pause @ evs')))"

definition hold_until_crossed :: "op \<Rightarrow> hold_poll list \<Rightarrow> hold_result \<times> event list" where
  "hold_until_crossed x polls = hold_polls (op_victims x) (op_hold x) hold0 polls"

section \<open>Injected writes\<close>

type_synonym word256 = "256 word"

abbreviation "injectionSlot \<equiv> (1 :: word256)"
abbreviation "injectionSlotMajority \<equiv> (2 :: word256)"
abbreviation "victimValue \<equiv> (0xaa000000000000000000000000000000000000000000000000000000000000aa :: word256)"
abbreviation "majorityValue \<equiv> (0xbb000000000000000000000000000000000000000000000000000000000000bb :: word256)"
abbreviation "majorityOnlyValue \<equiv> (0xcc000000000000000000000000000000000000000000000000000000000000cc :: word256)"

record injection =
  ij_contract :: string
  ij_slot :: word256
  ij_value :: word256
  ij_side :: string
  ij_tx :: string
  ij_island :: string

text \<open>A write's answers: the error of its dial, the error or hash of its send, and the error or
  block hash of its receipt. The two majority writes come in the order the map gives them.\<close>

record write_world =
  ww_dial_majority :: "string option"
  ww_majority_first :: bool
  ww_majority :: "word256 \<Rightarrow> (string + string) \<times> (string + string)"
  ww_dial_victim :: "string option"
  ww_victim :: "(string + string) \<times> (string + string)"

definition inject_event :: "injection \<Rightarrow> event" where
  "inject_event i =
     mk_event EvInject (ij_side i)
       (Fmt ''slot %s = %s via %s island'' [DI (uint (ij_slot i)), DI (uint (ij_value i)), DS (ij_side i)])"

definition write_outcome ::
  "string \<Rightarrow> word256 \<Rightarrow> word256 \<Rightarrow> string \<Rightarrow> (string + string) \<times> (string + string) \<Rightarrow> event list \<times> injection list"
where
  "write_outcome contract slot val side answers =
     (case answers of
        (Inl e, _) \<Rightarrow> ([mk_event EvWarn '''' (Fmt (side @ '' injection: '') [DS e])], [])
      | (Inr tx, receipt) \<Rightarrow>
          let island = (case receipt of Inr h \<Rightarrow> if side = ''victim'' then h else '''' | Inl _ \<Rightarrow> '''');
              i = \<lparr>ij_contract = contract, ij_slot = slot, ij_value = val, ij_side = side, ij_tx = tx,
                    ij_island = island\<rparr>
          in ((case receipt of
                 Inl e \<Rightarrow> [mk_event EvWarn '''' (Fmt (side @ '' injection receipt: '') [DS e])]
               | Inr _ \<Rightarrow> []) @ [inject_event i], [i]))"

definition split_writes :: "string option \<Rightarrow> write_world \<Rightarrow> event list \<times> injection list" where
  "split_writes contract w =
     (case contract of
        None \<Rightarrow> ([], [])
      | Some c \<Rightarrow>
          let entries = [(injectionSlot, majorityValue), (injectionSlotMajority, majorityOnlyValue)];
              major = (case ww_dial_majority w of
                  Some e \<Rightarrow> [([mk_event EvWarn '''' (Fmt ''majority island dial: '' [DS e])], [])]
                | None \<Rightarrow> map (\<lambda>(slot, val). write_outcome c slot val ''majority'' (ww_majority w slot))
                    (if ww_majority_first w then entries else rev entries));
              victim = (case ww_dial_victim w of
                  Some e \<Rightarrow> [([mk_event EvWarn '''' (Fmt ''victim island dial: '' [DS e])], [])]
                | None \<Rightarrow> [write_outcome c injectionSlot victimValue ''victim'' (ww_victim w)])
          in (concat (map fst (major @ victim)), concat (map snd (major @ victim))))"

section \<open>Executing the schedule\<close>

record act_world =
  aw_deploy_slept :: bool \<comment> \<open>the wait before the contract's deployment\<close>
  aw_deploy :: "string + string" \<comment> \<open>its error or the contract's address\<close>
  aw_slept :: bool
  aw_now :: gotime
  aw_put :: "string option"
  aw_write_slept :: bool
  aw_writes :: write_world
  aw_hold :: "hold_poll list"
  aw_clear :: "string option"
  aw_quit_clear :: "string option" \<comment> \<open>the clear of a shutdown\<close>
  aw_repeer :: "repeer_error option"

record chaos_state =
  cs_healed :: bool
  cs_applied :: "string list"
  cs_net :: "partition_spec list" \<comment> \<open>what the emulator holds\<close>
  cs_contract :: "string option"
  cs_injected :: "injection list"

definition chaos0 :: chaos_state where
  "chaos0 = \<lparr>cs_healed = True, cs_applied = [], cs_net = [], cs_contract = None, cs_injected = []\<rparr>"

datatype outcome = GoOn | Shutdown | StillHolding

definition repeer_events :: "nat \<Rightarrow> repeer_error option \<Rightarrow> event list" where
  "repeer_events n r =
     (if n < 2 then []
      else (case r of
         Some _ \<Rightarrow> [mk_event EvWarn '''' (lit ''re-peering after the heal'')]
       | None \<Rightarrow> [mk_event EvHeal '''' (lit ''execution clients re-peered'')]))"

definition quit :: "act_world \<Rightarrow> chaos_state \<Rightarrow> event list \<Rightarrow> chaos_state \<times> event list \<times> outcome" where
  "quit w s evs = (s\<lparr>cs_net := fst (disrupt_clear (aw_quit_clear w) (cs_net s))\<rparr>, evs, Shutdown)"

definition start_op ::
  "bool \<Rightarrow> int list \<Rightarrow> nat \<Rightarrow> action \<Rightarrow> op \<Rightarrow> act_world \<Rightarrow> chaos_state \<Rightarrow> chaos_state \<times> event list \<times> outcome"
where
  "start_op with_inj observers n a x w s =
     (let straddle = with_inj \<and> op_class x = ClassStraddle;
          (s, evs) = (if \<not> straddle \<or> \<not> aw_deploy_slept w then (s, [])
            else (case aw_deploy w of
               Inl e \<Rightarrow> (s, [mk_event EvWarn '''' (Fmt ''injection deploy: '' [DS e])])
             | Inr c \<Rightarrow> (s\<lparr>cs_contract := Some c\<rparr>,
                 [mk_event EvHeal '''' (Fmt ''injection contract deployed at %s'' [DS c])])))
      in if straddle \<and> \<not> aw_deploy_slept w \<or> \<not> aw_slept w then quit w s evs
         else if stale_at a (aw_now w) then
           (s, evs @ [mk_event EvSkip (node_name (hd (op_victims x)))
              (Fmt ''op %s window already closed at execution time; skipped, not run zero-length''
                 [DS (op_name x)])], GoOn)
         else
           (case disrupt_partition observers (op_name x) (islands (int n) x) (aw_put w) (cs_net s) of
              (net, Some e) \<Rightarrow>
                (s\<lparr>cs_net := net\<rparr>, evs @ victim_events x EvWarn (lit ''partition failed''), GoOn)
            | (net, None) \<Rightarrow>
                let s = s\<lparr>cs_net := net, cs_applied := op_name x # cs_applied s, cs_healed := False\<rparr>;
                    evs = evs @ victim_events x EvIsolate (window_text x)
                in if \<not> straddle then (s, evs, GoOn)
                   else if \<not> aw_write_slept w then quit w s evs
                   else (case split_writes (cs_contract s) (aw_writes w) of
                      (evs', is) \<Rightarrow> (s\<lparr>cs_injected := cs_injected s @ is\<rparr>, evs @ evs', GoOn))))"

definition heal_text :: "op \<Rightarrow> int set \<Rightarrow> int set \<Rightarrow> int \<Rightarrow> detail" where
  "heal_text x crossed unreachable v =
     lit (''window closed'' @
       (if v \<in> unreachable then ''; unreachable during the hold''
        else if \<not> is_zero (op_hold x) \<and> v \<notin> crossed then ''; never crossed the fork on its own branch''
        else ''''))"

definition end_op ::
  "nat \<Rightarrow> op \<Rightarrow> act_world \<Rightarrow> chaos_state \<Rightarrow> chaos_state \<times> event list \<times> outcome"
where
  "end_op n x w s =
     (if \<not> aw_slept w then quit w s []
      else if op_name x \<notin> set (cs_applied s) then
        (s, victim_events x EvSkip (lit (''never applied: '' @ op_name x)), GoOn)
      else
        (case (if is_zero (op_hold x) then (HoldOver {} {}, []) else hold_until_crossed x (aw_hold w)) of
           (Holding, evs) \<Rightarrow> (s, evs, StillHolding)
         | (HoldShutdown, evs) \<Rightarrow> quit w s evs
         | (HoldOver crossed unreachable, evs) \<Rightarrow>
             (case disrupt_clear (aw_clear w) (cs_net s) of
                (net, Some e) \<Rightarrow>
                  (s\<lparr>cs_net := net\<rparr>, evs @ [mk_event EvWarn '''' (lit ''heal failed'')], GoOn)
              | (net, None) \<Rightarrow>
                  (s\<lparr>cs_net := net, cs_healed := True\<rparr>,
                   evs @ map (\<lambda>v. mk_event EvHeal (node_name v) (heal_text x crossed unreachable v)) (op_victims x) @
                     repeer_events n (aw_repeer w), GoOn))))"

definition outlived :: event where
  "outlived = crit '''' FindingNoConvergence 0
     (lit ''a partition outlived its own heal; the failsafe sweep cleared it'')"

definition sweep_op :: "nat \<Rightarrow> act_world \<Rightarrow> chaos_state \<Rightarrow> chaos_state \<times> event list \<times> outcome" where
  "sweep_op n w s =
     (if \<not> aw_slept w then quit w s []
      else
        (case disrupt_clear (aw_clear w) (cs_net s) of
           (net, Some e) \<Rightarrow>
             (s\<lparr>cs_net := net\<rparr>,
              mk_event EvWarn '''' (lit ''failsafe heal failed'') # repeer_events n (aw_repeer w), GoOn)
         | (net, None) \<Rightarrow>
             if \<not> cs_healed s then
               (s\<lparr>cs_net := net, cs_healed := True\<rparr>, outlived # repeer_events n (aw_repeer w), GoOn)
             else (s\<lparr>cs_net := net\<rparr>,
               mk_event EvHeal '''' (lit ''failsafe sweep'') # repeer_events n (aw_repeer w), GoOn)))"

text \<open>One action; a start or an end without its op, which no schedule has, makes no progress.\<close>

definition run_action ::
  "bool \<Rightarrow> int list \<Rightarrow> nat \<Rightarrow> action \<Rightarrow> act_world \<Rightarrow> chaos_state \<Rightarrow> chaos_state \<times> event list \<times> outcome"
where
  "run_action with_inj observers n a w s =
     (case (a_kind a, a_op a) of
        (ActOpStart, Some x) \<Rightarrow> start_op with_inj observers n a x w s
      | (ActOpEnd, Some x) \<Rightarrow> end_op n x w s
      | (ActSweep, _) \<Rightarrow> sweep_op n w s
      | _ \<Rightarrow> (s, [], StillHolding))"

fun run_actions ::
  "bool \<Rightarrow> int list \<Rightarrow> nat \<Rightarrow> bool \<Rightarrow> action list \<Rightarrow> act_world list \<Rightarrow> chaos_state \<Rightarrow>
     chaos_state \<times> event list \<times> bool option"
where
  "run_actions with_inj observers n quiet_slept [] ws s =
     (if \<not> quiet_slept then (s, [], Some False)
      else (s, [mk_event EvPause '''' (lit ''schedule complete; disruptoor released'')], Some True))"
| "run_actions with_inj observers n quiet_slept (a # as) [] s = (s, [], None)"
| "run_actions with_inj observers n quiet_slept (a # as) (w # ws) s =
     (case run_action with_inj observers n a w s of
        (s', evs, GoOn) \<Rightarrow>
          (case run_actions with_inj observers n quiet_slept as ws s' of (s'', evs', r) \<Rightarrow> (s'', evs @ evs', r))
      | (s', evs, Shutdown) \<Rightarrow> (s', evs, Some False)
      | (s', evs, StillHolding) \<Rightarrow> (s', evs, None))"

definition execute ::
  "bool \<Rightarrow> int list \<Rightarrow> nat \<Rightarrow> schedule \<Rightarrow> bool \<Rightarrow> act_world list \<Rightarrow> chaos_state \<times> event list \<times> bool option"
where
  "execute with_inj observers n s quiet_slept ws =
     (case run_actions with_inj observers n quiet_slept (actions s) ws chaos0 of
        (s', evs, r) \<Rightarrow>
          (s', concat (map (\<lambda>x. victim_events x EvSkip (refused_text x))
                 (filter (\<lambda>x. \<not> admitted x) (sc_ops s))) @ evs, r))"

section \<open>The hold\<close>

lemma hold_victims_spec:
  "hold_victims probe vs s = (s', w, evs) \<Longrightarrow>
    hs_crossed s' = hs_crossed s \<union> {v \<in> set vs. v \<notin> hs_crossed s \<and> probe v = Inr True} \<and>
    hs_reached s' = hs_reached s \<union> {v \<in> set vs. v \<notin> hs_crossed s \<and> (\<exists>b. probe v = Inr b)} \<and>
    (w = [] \<longleftrightarrow> set vs \<subseteq> hs_crossed s')"
proof (induction probe vs s arbitrary: s' w evs rule: hold_victims.induct)
  case (2 probe v vs s)
  consider "v \<in> hs_crossed s" | e where "v \<notin> hs_crossed s" "probe v = Inl e" | "v \<notin> hs_crossed s" "probe v = Inr True" | "v \<notin> hs_crossed s" "probe v = Inr False"
    by (metis (full_types) sum.exhaust)
  then show ?case
  proof cases
    case 1
    with "2.IH"(1) [OF 1, of s' w evs] "2.prems" show ?thesis by auto
  next
    case (2 e)
    with "2.prems" obtain w' evs' where r: "hold_victims probe vs (s\<lparr>hs_warned := insert v (hs_warned s)\<rparr>) = (s', w', evs')"
      "w = node_name v # w'"
      by (auto split: prod.splits)
    from "2.IH"(2) [OF 2 r(1)] r(2) 2 show ?thesis by auto
  next
    case 3
    with "2.prems" obtain evs' where r: "hold_victims probe vs (s\<lparr>hs_reached := insert v (hs_reached s), hs_crossed := insert v (hs_crossed s)\<rparr>) = (s', w, evs')"
      by (auto split: prod.splits)
    from "2.IH"(3) [OF 3 refl r] 3 show ?thesis by auto
  next
    case 4
    with "2.prems" obtain w' evs' where r: "hold_victims probe vs (s\<lparr>hs_reached := insert v (hs_reached s)\<rparr>) = (s', w', evs')"
      "w = node_name v # w'"
      by (auto split: prod.splits)
    from "2.IH"(4) [OF 4 refl r(1)] r(2) 4 show ?thesis by auto
  qed
qed auto

lemma hold_polls_spec:
  assumes "hold_polls victims until s ps = (HoldOver crossed unreachable, evs)"
    "hs_crossed s \<subseteq> hs_reached s" "hs_crossed s \<subseteq> set victims"
  shows "\<exists>used rest. ps = used @ rest \<and> used \<noteq> [] \<and>
    crossed = hs_crossed s \<union> {v \<in> set victims. \<exists>p \<in> set used. hp_probe p v = Inr True} \<and>
    unreachable = {v \<in> set victims. v \<notin> hs_reached s \<and> (\<forall>p \<in> set used. \<exists>e. hp_probe p v = Inl e)} \<and>
    (crossed = set victims \<or> until \<le> hp_now (last used)) \<and>
    (\<forall>p \<in> set (butlast used). hp_now p < until)"
  using assms
proof (induction victims until s ps arbitrary: evs rule: hold_polls.induct)
  case (2 victims until s p ps)
  obtain s' w evs' where v: "hold_victims (hp_probe p) victims s = (s', w, evs')" by (metis prod.exhaust)
  note sp = hold_victims_spec [OF v]
  from sp "2.prems"(2,3) have sub: "hs_crossed s' \<subseteq> hs_reached s'" "hs_crossed s' \<subseteq> set victims" by auto
  have cr: "hs_crossed s' = hs_crossed s \<union> {v \<in> set victims. hp_probe p v = Inr True}"
    using sp by auto
  have re: "v \<in> hs_reached s' \<longleftrightarrow> v \<in> hs_reached s \<or> (\<exists>b. hp_probe p v = Inr b)" if "v \<in> set victims" for v
    using sp that "2.prems"(2) by auto
  have inl: "\<not> (\<exists>b. x = Inr b) \<longleftrightarrow> (\<exists>e. x = Inl e)" for x :: "string + bool"
    by (cases x) auto
  show ?case
  proof (cases "w = [] \<or> \<not> hp_now p < until")
    case True
    with "2.prems"(1) [unfolded hold_polls.simps v] have r: "crossed = hs_crossed s'" "unreachable = {v \<in> set victims. v \<notin> hs_reached s'}"
      by auto
    have "crossed = set victims \<or> until \<le> hp_now p"
      using True r(1) sp sub(2) by (meson not_le subset_antisym)
    moreover have "unreachable = {v \<in> set victims. v \<notin> hs_reached s \<and> (\<exists>e. hp_probe p v = Inl e)}"
    proof -
      have "v \<notin> hs_reached s' \<longleftrightarrow> v \<notin> hs_reached s \<and> (\<exists>e. hp_probe p v = Inl e)" if "v \<in> set victims" for v
        using re [OF that] inl [of "hp_probe p v"] by simp
      then show ?thesis unfolding r(2) by blast
    qed
    ultimately show ?thesis using r(1) cr
      by (intro exI [of _ "[p]"] exI [of _ ps]) simp
  next
    case False
    with "2.prems"(1) v obtain evs2 where
      l: "hold_polls victims until (s'\<lparr>hs_paused := True\<rparr>) ps = (HoldOver crossed unreachable, evs2)"
      by (auto simp: Let_def split: if_splits prod.splits)
    from False have slept: "hp_slept p" using "2.prems"(1) v by (auto simp: Let_def split: if_splits)
    from False have nw: "\<not> (w = [] \<or> \<not> hp_now p < until)" .
    from "2.IH" [OF v [symmetric] refl nw refl _ l] slept sub obtain used rest where
      u: "ps = used @ rest" "used \<noteq> []"
        "crossed = hs_crossed s' \<union> {v \<in> set victims. \<exists>p \<in> set used. hp_probe p v = Inr True}"
        "unreachable = {v \<in> set victims. v \<notin> hs_reached s' \<and> (\<forall>p \<in> set used. \<exists>e. hp_probe p v = Inl e)}"
        "crossed = set victims \<or> until \<le> hp_now (last used)"
        "\<forall>p \<in> set (butlast used). hp_now p < until"
      by auto
    have "crossed = hs_crossed s \<union> {v \<in> set victims. \<exists>p \<in> set (p # used). hp_probe p v = Inr True}"
      unfolding u(3) cr by auto
    moreover have "unreachable = {v \<in> set victims. v \<notin> hs_reached s \<and> (\<forall>p \<in> set (p # used). \<exists>e. hp_probe p v = Inl e)}"
    proof -
      have "v \<notin> hs_reached s' \<longleftrightarrow> v \<notin> hs_reached s \<and> (\<exists>e. hp_probe p v = Inl e)" if "v \<in> set victims" for v
        using re [OF that] inl [of "hp_probe p v"] by simp
      then show ?thesis unfolding u(4) by auto
    qed
    ultimately show ?thesis using u(1,2,5,6) nw
      by (intro exI [of _ "p # used"] exI [of _ rest]) auto
  qed
qed simp

text \<open>A hold that ends without a shutdown ends at its first poll at which every victim has
  crossed the fork on its own branch or the hold's deadline has come; it names as crossed exactly
  the victims a probe saw across, and as unreachable exactly those every probe failed on.\<close>

theorem hold_outcome:
  assumes "hold_until_crossed x polls = (HoldOver crossed unreachable, evs)"
  shows "\<exists>used rest. polls = used @ rest \<and> used \<noteq> [] \<and>
    crossed = {v \<in> set (op_victims x). \<exists>p \<in> set used. hp_probe p v = Inr True} \<and>
    unreachable = {v \<in> set (op_victims x). \<forall>p \<in> set used. \<exists>e. hp_probe p v = Inl e} \<and>
    (crossed = set (op_victims x) \<or> op_hold x \<le> hp_now (last used)) \<and>
    (\<forall>p \<in> set (butlast used). hp_now p < op_hold x)"
  using hold_polls_spec [of "op_victims x" "op_hold x" hold0 polls crossed unreachable evs] assms
  by (simp add: hold_until_crossed_def hold0_def)

theorem hold_outcome_witness:
  "fst (hold_until_crossed
      \<lparr>op_name = ''straddle'', op_class = ClassStraddle, op_start = tunix 10, op_end = tunix 200,
       op_victims = [2, 3], op_mutual = True, op_refused = None, op_hold = tunix 400\<rparr>
      [\<lparr>hp_probe = (\<lambda>v. if v = 2 then Inr True else Inl ''timeout''), hp_now = tunix 300, hp_slept = True\<rparr>,
       \<lparr>hp_probe = (\<lambda>v. Inl ''timeout''), hp_now = tunix 400, hp_slept = True\<rparr>]) = HoldOver {2} {3} \<and>
   (\<exists>u \<in> {tunix 400}. u \<le> tunix 400)"
proof -
  let ?x = "\<lparr>op_name = ''straddle'', op_class = ClassStraddle, op_start = tunix 10, op_end = tunix 200,
       op_victims = [2, 3], op_mutual = True, op_refused = None, op_hold = tunix 400\<rparr>"
  let ?ps = "[\<lparr>hp_probe = (\<lambda>v. if v = 2 then Inr True else Inl ''timeout''), hp_now = tunix 300, hp_slept = True\<rparr>,
       \<lparr>hp_probe = (\<lambda>v. Inl ''timeout''), hp_now = tunix 400, hp_slept = True\<rparr>]"
  have "\<exists>evs. hold_until_crossed ?x ?ps = (HoldOver {2} {3}, evs)"
    by (simp add: hold_until_crossed_def hold0_def insert_commute)
  then obtain evs where e: "hold_until_crossed ?x ?ps = (HoldOver {2} {3}, evs)" by blast
  from hold_outcome [OF e] e show ?thesis by auto
qed

section \<open>Nothing outlives the run\<close>

text \<open>The driver knows what the emulator holds: a partition is applied exactly while its heal is
  outstanding.\<close>

definition chaos_inv :: "chaos_state \<Rightarrow> bool" where
  "chaos_inv s \<longleftrightarrow> (cs_healed s \<longleftrightarrow> cs_net s = [])"

lemma run_action_inv:
  assumes "run_action with_inj observers n a w s = (s', evs, GoOn)" "chaos_inv s"
  shows "chaos_inv s'"
  using assms
  by (auto simp: run_action_def start_op_def end_op_def sweep_op_def quit_def chaos_inv_def
      disrupt_partition_def disrupt_clear_def partition_request_def Let_def
      split: action_kind.splits option.splits if_splits prod.splits sum.splits hold_result.splits)

lemma run_action_net:
  assumes "run_action with_inj observers n a w s = (s', evs, r)"
  shows "(r = Shutdown \<longrightarrow> aw_quit_clear w = None \<longrightarrow> cs_net s' = []) \<and>
    (r = GoOn \<longrightarrow> a_kind a = ActOpEnd \<longrightarrow> cs_net s' = cs_net s \<or> cs_net s' = []) \<and>
    (r = GoOn \<longrightarrow> a_kind a = ActSweep \<longrightarrow> aw_clear w = None \<longrightarrow> cs_net s' = [])"
  using assms
  by (auto simp: run_action_def start_op_def end_op_def sweep_op_def quit_def
      disrupt_clear_def Let_def
      split: action_kind.splits option.splits if_splits prod.splits sum.splits hold_result.splits)

text \<open>Every start in a list of actions has a sweep behind it.\<close>

primrec swept :: "action list \<Rightarrow> bool" where
  "swept [] = True"
| "swept (a # as) = ((a_kind a = ActOpStart \<longrightarrow> ActSweep \<in> a_kind ` set as) \<and> swept as)"

lemma sweptI:
  "(\<And>as a bs. acts = as @ a # bs \<Longrightarrow> a_kind a = ActOpStart \<Longrightarrow> ActSweep \<in> a_kind ` set bs) \<Longrightarrow> swept acts"
proof (induction acts)
  case (Cons a as)
  from Cons.prems [of "[]" a as] have "a_kind a = ActOpStart \<longrightarrow> ActSweep \<in> a_kind ` set as" by simp
  moreover have "swept as" by (rule Cons.IH) (use Cons.prems [of "a # _"] in auto)
  ultimately show ?case by simp
qed simp

lemma resolved_swept:
  assumes "resolve name genesis fork t = Inr s"
  shows "swept (actions s)"
proof (rule sweptI)
  fix as a bs
  assume eq: "actions s = as @ a # bs" and a: "a_kind a = ActOpStart"
  let ?k = "\<lambda>a. (a_at a, a_kind a)"
  from eq have "a \<in> set (actions s)" by simp
  with a obtain x where x: "x \<in> set (sc_ops s)" "admitted x" "a = Action ActOpStart (op_start x) (Some x)"
    by (auto simp: set_actions op_actions_def)
  from op_swept [OF assms x(1,2)] obtain f where f: "f \<in> set (sc_failsafes s)" "latest x \<le> f" by blast
  let ?c = "Action ActSweep f None"
  from f(1) have c: "?c \<in> set (actions s)" by (auto simp: set_actions)
  from f(2) x(3) resolved_latest [OF assms x(1)] have lt: "?k a < ?k ?c" by simp
  have "sorted (map ?k (actions s))" by (simp add: actions_def)
  with eq have "\<forall>b \<in> set as. ?k b \<le> ?k a" by (simp add: sorted_append)
  with lt have "?c \<notin> set as" by (metis linorder_not_less)
  with c eq x(3) have "?c \<in> set bs" by auto
  then show "ActSweep \<in> a_kind ` set bs" by force
qed

lemma run_actions_release:
  assumes "run_actions with_inj observers n q acts ws s = (s', evs, Some r)" "swept acts"
    "\<forall>w \<in> set ws. aw_quit_clear w = None"
    "\<forall>(a, w) \<in> set (zip acts ws). a_kind a = ActSweep \<longrightarrow> aw_clear w = None"
    "cs_net s = [] \<or> ActSweep \<in> a_kind ` set acts"
  shows "cs_net s' = []"
  using assms
proof (induction with_inj observers n q acts ws s arbitrary: s' evs rule: run_actions.induct)
  case (3 with_inj observers n q a as w ws s)
  obtain t es out where a: "run_action with_inj observers n a w s = (t, es, out)" by (metis prod.exhaust)
  note net = run_action_net [OF a]
  show ?case
  proof (cases out)
    case GoOn
    with a "3.prems"(1) obtain es' where
      l: "run_actions with_inj observers n q as ws t = (s', es', Some r)"
      by (auto split: prod.splits)
    have "cs_net t = [] \<or> ActSweep \<in> a_kind ` set as"
      using net GoOn "3.prems"(2,4,5) by (cases "a_kind a") auto
    with "3.IH" [OF a [symmetric] refl GoOn l] "3.prems"(2,3,4) show ?thesis by simp
  qed (use a net "3.prems"(1,3) in auto)
qed (auto split: if_splits)

text \<open>C29: The driver never leaves a partition behind: when a run of a resolved schedule ends, by
  completing or by a shutdown at any wait, and the emulator accepted the clears of the failsafe
  sweeps and of the shutdown, nothing is applied, even if every heal at an op's own end failed.\<close>

theorem execute_releases:
  assumes "resolve name genesis fork t = Inr s"
    and "execute with_inj observers n s q ws = (s', evs, Some r)"
    and "\<forall>w \<in> set ws. aw_quit_clear w = None"
    and "\<forall>(a, w) \<in> set (zip (actions s) ws). a_kind a = ActSweep \<longrightarrow> aw_clear w = None"
  shows "cs_net s' = []"
proof -
  from assms(2) obtain evs' where
    "run_actions with_inj observers n q (actions s) ws chaos0 = (s', evs', Some r)"
    by (auto simp: execute_def split: prod.splits)
  then show ?thesis
    by (rule run_actions_release [OF _ resolved_swept [OF assms(1)] assms(3,4)]) (simp add: chaos0_def)
qed

text \<open>A run in which no wait is interrupted and every victim is found across at the first probe
  completes, whatever the emulator answers.\<close>

definition calm :: "act_world \<Rightarrow> bool" where
  "calm w \<longleftrightarrow> aw_deploy_slept w \<and> aw_slept w \<and> aw_write_slept w \<and>
     (\<exists>p ps. aw_hold w = p # ps \<and> hp_probe p = (\<lambda>_. Inr True))"

lemma calm_hold: "calm w \<Longrightarrow> \<exists>c u evs. hold_until_crossed x (aw_hold w) = (HoldOver c u, evs)"
proof -
  assume "calm w"
  then obtain p ps where p: "aw_hold w = p # ps" "hp_probe p = (\<lambda>_. Inr True)" by (auto simp: calm_def)
  obtain s' v evs where v: "hold_victims (hp_probe p) (op_victims x) hold0 = (s', v, evs)" by (metis prod.exhaust)
  from hold_victims_spec [OF v] p(2) have "v = []" by auto
  with p(1) v show ?thesis by (simp add: hold_until_crossed_def)
qed

lemma calm_goes_on:
  assumes "calm w" "a_kind a = ActSweep \<or> (\<exists>x. a_op a = Some x)"
  shows "\<exists>s' evs. run_action with_inj observers n a w s = (s', evs, GoOn)"
proof -
  obtain hs where hs: "\<And>x. \<exists>c u evs. hold_until_crossed x (aw_hold w) = (HoldOver c u, evs)"
    using calm_hold [OF assms(1)] by blast
  show ?thesis
  proof (cases "a_kind a")
    case ActSweep
    with assms show ?thesis
      by (cases "aw_clear w") (auto simp: run_action_def sweep_op_def disrupt_clear_def calm_def)
  next
    case ActOpEnd
    with assms obtain x where x: "a_op a = Some x" by auto
    obtain c u evs where "hold_until_crossed x (aw_hold w) = (HoldOver c u, evs)" using hs by blast
    with ActOpEnd x assms show ?thesis
      by (cases "aw_clear w") (auto simp: run_action_def end_op_def disrupt_clear_def calm_def)
  next
    case ActOpStart
    with assms obtain x where x: "a_op a = Some x" by auto
    from ActOpStart x assms(1) show ?thesis
      by (auto simp: run_action_def start_op_def calm_def Let_def split: prod.splits option.splits sum.splits)
  qed
qed

lemma calm_completes:
  "length ws = length acts \<Longrightarrow> \<forall>w \<in> set ws. calm w \<Longrightarrow>
    \<forall>a \<in> set acts. a_kind a = ActSweep \<or> (\<exists>x. a_op a = Some x) \<Longrightarrow>
    \<exists>s' evs. run_actions with_inj observers n True acts ws s = (s', evs, Some True)"
proof (induction acts arbitrary: ws s)
  case (Cons a acts)
  then obtain w ws' where ws: "ws = w # ws'" by (cases ws) auto
  with Cons.prems obtain t evs where t: "run_action with_inj observers n a w s = (t, evs, GoOn)"
    using calm_goes_on [of w a with_inj observers n s] by auto
  from Cons.IH [of ws' t] Cons.prems ws obtain s' evs' where
    "run_actions with_inj observers n True acts ws' t = (s', evs', Some True)" by auto
  with t ws show ?case by simp
qed simp

text \<open>A run no signal interrupts completes: if every wait runs out and every hold sees its
  victims across, the driver reaches its quiet time and releases the emulator whatever the
  emulator, the clients and the injected transactions answer.\<close>

theorem execute_completes:
  assumes "length ws = length (actions s)" "\<forall>w \<in> set ws. calm w"
  shows "\<exists>s' evs. execute with_inj observers n s True ws = (s', evs, Some True)"
proof -
  have "\<forall>a \<in> set (actions s). a_kind a = ActSweep \<or> (\<exists>x. a_op a = Some x)"
    by (auto simp: set_actions op_actions_def)
  from calm_completes [OF assms this, of with_inj observers n chaos0] show ?thesis
    by (auto simp: execute_def split: prod.splits)
qed

definition calm_world :: "string option \<Rightarrow> act_world" where
  "calm_world clear =
     \<lparr>aw_deploy_slept = True, aw_deploy = Inr ''0xc0de'', aw_slept = True, aw_now = tunix 1, aw_put = None,
      aw_write_slept = True,
      aw_writes = \<lparr>ww_dial_majority = None, ww_majority_first = True,
        ww_majority = (\<lambda>_. (Inr ''0xaa'', Inl ''no receipt'')), ww_dial_victim = None,
        ww_victim = (Inr ''0xbb'', Inr ''0xcc'')\<rparr>,
      aw_hold = [\<lparr>hp_probe = (\<lambda>_. Inr True), hp_now = tunix 1, hp_slept = True\<rparr>],
      aw_clear = clear, aw_quit_clear = None, aw_repeer = None\<rparr>"

lemma calm_calm_world [simp]: "calm (calm_world c)"
  by (simp add: calm_world_def calm_def)

theorem execute_completes_witness:
  "\<exists>s s' evs. resolve ''composite'' 0 (tunix 1800) devnet_topology = Inr s \<and>
     execute True [6] 5 s True (map (\<lambda>_. calm_world (Some ''busy'')) (actions s)) = (s', evs, Some True)"
proof -
  obtain s where s: "resolve ''composite'' 0 (tunix 1800) devnet_topology = Inr s" by (rule composite_at)
  from execute_completes [of "map (\<lambda>_. calm_world (Some ''busy'')) (actions s)" s True "[6]" 5] s
  show ?thesis by auto
qed

theorem execute_releases_witness:
  "\<exists>s s' evs. resolve ''composite'' 0 (tunix 1800) devnet_topology = Inr s \<and>
     execute True [6] 5 s True
       (map (\<lambda>a. calm_world (if a_kind a = ActSweep then None else Some ''busy'')) (actions s)) = (s', evs, Some True) \<and>
     cs_net s' = []"
proof -
  obtain s where s: "resolve ''composite'' 0 (tunix 1800) devnet_topology = Inr s" by (rule composite_at)
  let ?ws = "map (\<lambda>a. calm_world (if a_kind a = ActSweep then None else Some ''busy'')) (actions s)"
  have "\<forall>a \<in> set (actions s). a_kind a = ActSweep \<or> (\<exists>x. a_op a = Some x)"
    by (auto simp: set_actions op_actions_def)
  with calm_completes [of ?ws "actions s" True "[6]" 5 chaos0] obtain s' evs where
    e: "execute True [6] 5 s True ?ws = (s', evs, Some True)"
    by (auto simp: execute_def split: prod.splits)
  have "\<forall>w \<in> set ?ws. aw_quit_clear w = None" by (auto simp: calm_world_def)
  moreover have "\<forall>(a, w) \<in> set (zip (actions s) ?ws). a_kind a = ActSweep \<longrightarrow> aw_clear w = None"
    by (auto simp: calm_world_def zip_map2 zip_same)
  ultimately have "cs_net s' = []" by (rule execute_releases [OF s e])
  with s e show ?thesis by blast
qed

lemma run_actions_inv:
  "run_actions with_inj observers n q acts ws s = (s', evs, Some True) \<Longrightarrow> chaos_inv s \<Longrightarrow> chaos_inv s'"
proof (induction with_inj observers n q acts ws s arbitrary: s' evs rule: run_actions.induct)
  case (3 with_inj observers n q a as w ws s)
  obtain t es out where a: "run_action with_inj observers n a w s = (t, es, out)" by (metis prod.exhaust)
  show ?case
  proof (cases out)
    case GoOn
    with a "3.prems"(1) obtain es' where
      l: "run_actions with_inj observers n q as ws t = (s', es', Some True)"
      by (auto split: prod.splits)
    from "3.IH" [OF a [symmetric] refl GoOn l] run_action_inv [of with_inj observers n a w s t es] a GoOn
      "3.prems"(2) show ?thesis by simp
  qed (use a "3.prems"(1) in auto)
qed (auto split: if_splits)

lemma outlived_only [simp]:
  "ev_kind e \<noteq> EvCritical \<Longrightarrow> outlived \<noteq> e"
  "outlived \<notin> set (repeer_events n r)"
  by (auto simp: outlived_def crit_def repeer_events_def mk_event_def split: option.splits)

text \<open>Whatever happened before it, a failsafe sweep raises its critical event exactly when the
  emulator accepted the clear and really still held a partition.\<close>

theorem sweep_reports_outlived:
  assumes "run_actions with_inj observers n True acts ws chaos0 = (s, evs0, Some True)"
    and "run_action with_inj observers n (Action ActSweep f None) w s = (s', evs, out)"
  shows "outlived \<in> set evs \<longleftrightarrow> aw_slept w \<and> aw_clear w = None \<and> cs_net s \<noteq> []"
proof -
  have "chaos_inv s" by (rule run_actions_inv [OF assms(1)]) (simp add: chaos_inv_def chaos0_def)
  with assms(2) show ?thesis
    by (auto simp: run_action_def sweep_op_def quit_def disrupt_clear_def chaos_inv_def
        split: if_splits option.splits)
qed

theorem sweep_reports_outlived_witness:
  "let x = \<lparr>op_name = ''deep'', op_class = ClassDeep, op_start = tunix 10, op_end = tunix 200,
         op_victims = [2, 3], op_mutual = False, op_refused = None, op_hold = zero_time\<rparr>;
       w = calm_world (Some ''busy'')
   in \<exists>s' evs0 s evs. run_actions False [] 5 True (op_actions x) [w, w] chaos0 = (s, evs0, Some True) \<and>
     run_action False [] 5 (Action ActSweep (tunix 260) None) (calm_world None) s = (s', evs, GoOn) \<and>
     outlived \<in> set evs"
proof -
  let ?x = "\<lparr>op_name = ''deep'', op_class = ClassDeep, op_start = tunix 10, op_end = tunix 200,
         op_victims = [2, 3], op_mutual = False, op_refused = None, op_hold = zero_time\<rparr>"
  let ?w = "calm_world (Some ''busy'')"
  obtain s evs0 where a: "run_actions False [] 5 True (op_actions ?x) [?w, ?w] chaos0 = (s, evs0, Some True)"
    and s: "cs_net s \<noteq> []"
    by (simp add: op_actions_def run_action_def start_op_def end_op_def stale_at_def islands_def
        disrupt_partition_def partition_request_def disrupt_clear_def chaos0_def is_zero_def calm_world_def)
  obtain s' evs where b: "run_action False [] 5 (Action ActSweep (tunix 260) None) (calm_world None) s = (s', evs, GoOn)"
    using calm_goes_on [of "calm_world None" "Action ActSweep (tunix 260) None" False "[]" 5 s] by auto
  from sweep_reports_outlived [OF a b] s have "outlived \<in> set evs" by (simp add: calm_world_def)
  with a b show ?thesis unfolding Let_def by blast
qed

end
