(* ===== verification/MonPoll.thy ===== *)
theory MonPoll
  imports Timeline Sampler Registry Fifo
begin

text \<open>
  The monitor's poll and sample ticks (\<open>cmd/migration-monitor/monitor.go\<close>): the queue of heights
  to sample again, one node's poll with its fork-block probe, the watch for a split that outlives
  any partition, and one sampled height. A client's answers during one step are a record or, for
  headers by number, a function of the height; a \<open>nil\<close> header is \<open>None\<close>. Block numbers are 64-bit
  words. The offline swap's say on a node (\<open>quiet\<close>) is an argument.
\<close>

section \<open>The resample queue\<close>

abbreviation "reorgRecheckWindow \<equiv> (8 :: nat)"
abbreviation "resampleQueueCap \<equiv> (64 :: nat)"
abbreviation "forkBurstWindow \<equiv> (8 :: u64)"

record resample_queue =
  rq_heights :: "u64 list"
  rq_seen :: "u64 set"

definition new_resample_queue :: resample_queue where
  "new_resample_queue = \<lparr>rq_heights = [], rq_seen = {}\<rparr>"

definition rq_push :: "resample_queue \<Rightarrow> u64 \<Rightarrow> resample_queue" where
  "rq_push q height =
     (if height < 1 \<or> height \<in> rq_seen q then q
      else
        let q = (if resampleQueueCap \<le> length (rq_heights q)
                 then q\<lparr>rq_seen := rq_seen q - {hd (rq_heights q)}, rq_heights := drop 1 (rq_heights q)\<rparr>
                 else q)
        in q\<lparr>rq_heights := rq_heights q @ [height], rq_seen := insert height (rq_seen q)\<rparr>)"

text \<open>\<open>for h := lo; h <= hi; h++\<close>; the counter does not wrap for the heights the callers pass.\<close>

definition rq_push_range :: "resample_queue \<Rightarrow> u64 \<Rightarrow> u64 \<Rightarrow> resample_queue" where
  "rq_push_range q lo hi = foldl rq_push q (map of_nat [unat lo..<Suc (unat hi)])"

definition rq_drain :: "resample_queue \<Rightarrow> u64 list \<times> resample_queue" where
  "rq_drain q = (rq_heights q, new_resample_queue)"

section \<open>One node\<close>

record node_state =
  nd_name :: string
  nd_timeline :: timeline
  nd_reorg :: reorg_memory
  nd_null :: null_tracker
  nd_head :: "u64 option" \<comment> \<open>\<open>haveHead\<close> with \<open>lastHead\<close>\<close>
  nd_last_head :: u64
  nd_last_below :: u64
  nd_progress :: "progress option" \<comment> \<open>\<open>haveProgress\<close> with \<open>lastProgress\<close>\<close>
  nd_introspects :: bool
  nd_down :: bool
  nd_prev_done :: bool
  nd_done_fired :: bool
  nd_ancestor :: "u64 option" \<comment> \<open>\<open>haveReorgAncestor\<close> with \<open>lastReorgAncestor\<close>\<close>

definition new_node_state :: "string \<Rightarrow> bool \<Rightarrow> u64 \<Rightarrow> node_state" where
  "new_node_state name introspection t =
     \<lparr>nd_name = name, nd_timeline = new_timeline name t, nd_reorg = new_reorg_memory name,
      nd_null = new_null_tracker name, nd_head = None, nd_last_head = 0, nd_last_below = 0,
      nd_progress = None, nd_introspects = introspection, nd_down = False, nd_prev_done = False,
      nd_done_fired = False, nd_ancestor = None\<rparr>"

text \<open>\<open>main\<close>'s restart of a node the swap has just reconnected.\<close>

definition reset_node :: "node_state \<Rightarrow> node_state" where
  "reset_node ns =
     ns\<lparr>nd_timeline := reset_stall (nd_timeline ns), nd_null := null_reset (nd_null ns),
        nd_progress := None, nd_head := None\<rparr>"

definition single_implementation :: "(string \<times> client_spec) list \<Rightarrow> string list \<Rightarrow> bool" where
  "single_implementation ord names =
     (case names of
        [] \<Rightarrow> False
      | n # ns \<Rightarrow> snd (spec_for ord n) \<and> list_all (\<lambda>m. spec_for ord m = (fst (spec_for ord n), True)) ns)"

definition warn_down :: "node_state \<Rightarrow> string \<Rightarrow> string \<Rightarrow> node_state \<times> event list" where
  "warn_down ns method e =
     (if nd_down ns then (ns, [])
      else (ns\<lparr>nd_down := True\<rparr>,
        [mk_event EvWarn (nd_name ns) (Fmt ''%s unreachable: %v'' [DS method, DS e])]))"

definition clear_down :: "node_state \<Rightarrow> node_state \<times> event list" where
  "clear_down ns =
     (if \<not> nd_down ns then (ns, [])
      else (ns\<lparr>nd_down := False\<rparr>, [mk_event EvWarn (nd_name ns) (lit ''rpc recovered'')]))"

section \<open>Finding the fork block\<close>

text \<open>\<open>Unending\<close> is the one way the search does not return: a lower bound of \<open>2^64 - 1\<close>, whose
  successor wraps. The 64 rounds given suffice otherwise (\<open>bisect_total\<close>).\<close>

datatype probe_error = ReadFailed string | NoBlock u64 | Unending

type_synonym headers = "u64 \<Rightarrow> string + header option"

definition fetch :: "headers \<Rightarrow> u64 \<Rightarrow> probe_error + header" where
  "fetch hdr n = (case hdr n of Inl e \<Rightarrow> Inl (ReadFailed e) | Inr None \<Rightarrow> Inl (NoBlock n) | Inr (Some h) \<Rightarrow> Inr h)"

fun bisect :: "nat \<Rightarrow> headers \<Rightarrow> u64 \<Rightarrow> u64 \<Rightarrow> u64 \<Rightarrow> probe_error + u64" where
  "bisect rounds hdr t lo hi =
     (if \<not> lo + 1 < hi then Inr hi
      else (case rounds of
         0 \<Rightarrow> Inl Unending
       | Suc n \<Rightarrow>
           let mid = lo + (hi - lo) div 2
           in (case fetch hdr mid of
                 Inl e \<Rightarrow> Inl e
               | Inr h \<Rightarrow> if t \<le> h_time h then bisect n hdr t lo mid else bisect n hdr t mid hi)))"

declare bisect.simps [simp del]

definition find_istar :: "headers \<Rightarrow> u64 \<Rightarrow> u64 \<Rightarrow> u64 \<Rightarrow> u64 \<times> (probe_error + istar option)" where
  "find_istar hdr last_below head t =
     (case fetch hdr head of
        Inl e \<Rightarrow> (last_below, Inl e)
      | Inr h \<Rightarrow>
          if h_time h < t then (head, Inr None)
          else
            (last_below,
             (case bisect 64 hdr t last_below head of
                Inl e \<Rightarrow> Inl e
              | Inr hi \<Rightarrow>
                  (case (if hi \<noteq> head then fetch hdr hi else Inr h) of
                     Inl e \<Rightarrow> Inl e
                   | Inr b \<Rightarrow>
                       (case (if 0 < hi then (case fetch hdr (hi - 1) of Inl e \<Rightarrow> Inl e | Inr p \<Rightarrow> Inr (h_time p))
                              else Inr 0) of
                          Inl e \<Rightarrow> Inl e
                        | Inr pt \<Rightarrow>
                            Inr (Some \<lparr>is_number = hi, is_hash = h_hash b, is_time = h_time b,
                                       is_parent_time = pt\<rparr>))))))"

section \<open>One poll\<close>

record poll_answers =
  an_fetch :: "string + (string + progress)" \<comment> \<open>the read's error, or the payload as it decodes\<close>
  an_head :: "string + u64"
  an_at :: headers \<comment> \<open>the fork block's height, asked again\<close>
  an_finalized :: "string + header option"
  an_chain :: headers \<comment> \<open>what the search reads\<close>
  an_now :: gotime
  an_nodes :: "string list" \<comment> \<open>the order the quorum ranges over its nodes in\<close>

definition check_fork_block ::
  "poll_answers \<Rightarrow> node_state \<Rightarrow> quorum \<Rightarrow> resample_queue \<Rightarrow> node_state \<times> quorum \<times> resample_queue \<times> event list"
where
  "check_fork_block an ns q rq =
     (case tl_istar (nd_timeline ns) of
        None \<Rightarrow> (ns, q, rq, [])
      | Some b \<Rightarrow>
          if tl_istar_final (nd_timeline ns) then (ns, q, rq, [])
          else
            (case an_at an (is_number b) of
               Inl _ \<Rightarrow> (ns, q, rq, [])
             | Inr None \<Rightarrow> (ns, q, rq, [])
             | Inr (Some h) \<Rightarrow>
                 if h_hash h \<noteq> is_hash b then
                   (case istar_reorged (nd_timeline ns) (h_hash h) of
                      (tm, evs) \<Rightarrow>
                        (ns\<lparr>nd_timeline := tm, nd_last_below := 0,
                            nd_ancestor := (if evs = [] then nd_ancestor ns else Some (ev_number (last evs)))\<rparr>,
                         q,
                         foldl (\<lambda>rq e. rq_push_range rq (if 2 < ev_number e then ev_number e - 2 else 1)
                                         (ev_number e + 2)) rq evs,
                         evs))
                 else
                   (case an_finalized an of
                      Inl _ \<Rightarrow> (ns, q, rq, [])
                    | Inr None \<Rightarrow> (ns, q, rq, [])
                    | Inr (Some f) \<Rightarrow>
                        if h_number f < is_number b then (ns, q, rq, [])
                        else
                          (case istar_finalized (nd_timeline ns) of
                             (tm, evs) \<Rightarrow>
                               let ancestor = (case nd_ancestor ns of
                                     Some a \<Rightarrow> a
                                   | None \<Rightarrow> if forkBurstWindow < is_number b
                                             then is_number b - forkBurstWindow else 1)
                               in (case quorum_finalize q (nd_name ns) b (an_nodes an) of
                                     (q', evs') \<Rightarrow>
                                       (ns\<lparr>nd_timeline := tm\<rparr>, q',
                                        rq_push_range rq ancestor (is_number b), evs @ evs'))))))"

text \<open>The probe of a node without a recorded fork block.\<close>

definition probe_fork_block ::
  "poll_answers \<Rightarrow> u64 \<Rightarrow> u64 \<Rightarrow> node_state \<Rightarrow> quorum \<Rightarrow> node_state \<times> quorum \<times> event list"
where
  "probe_fork_block an t head ns q =
     (if tl_istar (nd_timeline ns) \<noteq> None then (ns, q, [])
      else
        (case find_istar (an_chain an) (nd_last_below ns) head t of
           (below, r) \<Rightarrow>
             let ns = ns\<lparr>nd_last_below := below\<rparr>
             in (case r of
                   Inl _ \<Rightarrow> (ns, q, [mk_event EvWarn (nd_name ns) (lit ''fork-block probe'')])
                 | Inr None \<Rightarrow> (ns, q, [])
                 | Inr (Some b) \<Rightarrow>
                     (case observe_istar (nd_timeline ns) b of
                        (tm, evs) \<Rightarrow>
                          (case quorum_observe q (nd_name ns) b (an_now an) (an_nodes an) of
                             (q', evs') \<Rightarrow> (ns\<lparr>nd_timeline := tm\<rparr>, q', evs @ evs'))))))"

definition done_early :: event where
  "done_early = mk_event EvCritical '''' (lit ''reported done before its fork block finalized'')"

text \<open>A completion is trusted only once the fork block is final; two polls in a row without
  finality are the finding.\<close>

definition check_done_final :: "bool \<Rightarrow> node_state \<Rightarrow> node_state \<times> event list" where
  "check_done_final done' ns =
     (let fire = done' \<and> nd_prev_done ns \<and> \<not> tl_istar_final (nd_timeline ns) \<and> \<not> nd_done_fired ns
      in (ns\<lparr>nd_done_fired := nd_done_fired ns \<or> fire, nd_prev_done := done'\<rparr>,
          if fire then [done_early\<lparr>ev_node := nd_name ns, ev_finding := FindingBoundary\<rparr>] else []))"

definition poll_head ::
  "poll_answers \<Rightarrow> u64 \<Rightarrow> progress option \<Rightarrow> u64 \<Rightarrow> node_state \<Rightarrow> quorum \<Rightarrow> resample_queue \<Rightarrow>
     node_state \<times> quorum \<times> resample_queue \<times> event list"
where
  "poll_head an t prog head ns q rq =
     (let ns = ns\<lparr>nd_head := Some head, nd_last_head := head\<rparr>;
          (ns, q, rq, e1) = check_fork_block an ns q rq;
          (ns, q, e2) = probe_fork_block an t head ns q;
          (tm, e3) = (case prog of None \<Rightarrow> (nd_timeline ns, []) | Some p \<Rightarrow> observe_poll (nd_timeline ns) p head);
          (ns, e4) = check_done_final
             (case prog of None \<Rightarrow> False | Some p \<Rightarrow> mp_phase p = PhaseDone) (ns\<lparr>nd_timeline := tm\<rparr>)
      in (ns, q, rq,
          [(mk_event EvHead (nd_name ns) no_detail)\<lparr>ev_number := head\<rparr>] @ e1 @ e2 @ e3 @ e4))"

definition poll_once ::
  "poll_answers \<Rightarrow> u64 \<Rightarrow> node_state \<Rightarrow> quorum \<Rightarrow> resample_queue \<Rightarrow>
     node_state \<times> quorum \<times> resample_queue \<times> event list"
where
  "poll_once an t ns q rq =
     (let read = (if \<not> nd_introspects ns then Inr None
            else (case an_fetch an of
               Inl e \<Rightarrow> Inl (''migration progress'', e)
             | Inr d \<Rightarrow> (case decode_progress d of
                  Inl _ \<Rightarrow> Inl (''migration progress decode'', '''')
                | Inr p \<Rightarrow> Inr (Some p))))
      in (case read of
            Inl (m, e) \<Rightarrow> (case warn_down ns m e of (ns, evs) \<Rightarrow> (ns, q, rq, evs))
          | Inr prog \<Rightarrow>
              let e0 = (case prog of None \<Rightarrow> []
                    | Some p \<Rightarrow> [(mk_event EvProgress (nd_name ns) no_detail)\<lparr>ev_phase := mp_phase p\<rparr>]);
                  ns = (case prog of None \<Rightarrow> ns | Some p \<Rightarrow> ns\<lparr>nd_progress := Some p\<rparr>);
                  (ns, e1) = clear_down ns
              in (case an_head an of
                    Inl e \<Rightarrow> (case warn_down ns ''head number'' e of
                       (ns, e2) \<Rightarrow> (ns, q, rq, e0 @ e1 @ e2))
                  | Inr head \<Rightarrow> (case poll_head an t prog head ns q rq of
                       (ns, q, rq, e2) \<Rightarrow> (ns, q, rq, e0 @ e1 @ e2)))))"

section \<open>Splits\<close>

record split_watch =
  sw_since :: gotime
  sw_fired :: bool

definition split_watch0 :: split_watch where
  "split_watch0 = \<lparr>sw_since = zero_time, sw_fired = False\<rparr>"

definition split_observe ::
  "split_watch \<Rightarrow> gotime \<Rightarrow> bool \<Rightarrow> u64 \<Rightarrow> string list \<Rightarrow> split_watch \<times> event option"
where
  "split_observe w now split height hashes =
     (if \<not> split then (split_watch0, None)
      else
        let w = (if is_zero (sw_since w) then w\<lparr>sw_since := now\<rparr> else w)
        in if sw_fired w \<or> tsub now (sw_since w) \<le> SplitGrace then (w, None)
           else (w\<lparr>sw_fired := True\<rparr>,
             Some (crit '''' FindingNoConvergence height
               (Fmt ''nodes have disagreed on the canonical chain for %.0fs, longer than any partition holds: %s''
                  [DI (tsub now (sw_since w)), DL hashes]))))"

section \<open>Sampling a height\<close>

record sample_answers =
  sa_header :: "string + header option"
  sa_root :: "string + string"
  sa_again :: headers
  sa_now :: gotime

text \<open>The recently sampled heights asked again.\<close>

fun recheck ::
  "headers \<Rightarrow> u64 \<Rightarrow> u64 \<Rightarrow> u64 list \<Rightarrow> reorg_memory \<Rightarrow> resample_queue \<Rightarrow>
     reorg_memory \<times> resample_queue \<times> event list"
where
  "recheck hdr height last_head [] m rq = (m, rq, [])"
| "recheck hdr height last_head (h # hs) m rq =
     (case (if h = height then Inl '''' else hdr h) of
        Inr (Some b) \<Rightarrow>
          (case reorg_observe m h (h_hash b) last_head of
             (m, evs) \<Rightarrow>
               (case recheck hdr height last_head hs m (foldl (\<lambda>rq e. rq_push rq (ev_number e)) rq evs) of
                  (m', rq', evs') \<Rightarrow> (m', rq', evs @ evs')))
      | _ \<Rightarrow> recheck hdr height last_head hs m rq)"

definition sample_node ::
  "u64 \<Rightarrow> sample_answers \<Rightarrow> node_state \<Rightarrow> resample_queue \<Rightarrow>
     node_state \<times> resample_queue \<times> node_sample option \<times> event list"
where
  "sample_node height sa ns rq =
     (case sa_header sa of
        Inr (Some h) \<Rightarrow>
          (case (if nd_introspects ns then sa_root sa else Inr '''') of
             Inl e \<Rightarrow> (ns, rq, None,
               [(mk_event EvWarn (nd_name ns) (Fmt ''shadow root: %v'' [DS e]))\<lparr>ev_number := height\<rparr>])
           | Inr root \<Rightarrow>
               (case reorg_observe (nd_reorg ns) height (h_hash h) (nd_last_head ns) of
                  (m, e1) \<Rightarrow>
                    (case recheck (sa_again sa) height (nd_last_head ns) (recent m reorgRecheckWindow) m
                            (foldl (\<lambda>rq e. rq_push rq (ev_number e)) rq e1) of
                       (m, rq, e2) \<Rightarrow>
                         let act = nd_introspects ns \<and> (case nd_progress ns of None \<Rightarrow> False
                               | Some p \<Rightarrow> active (mp_binary p) \<or> active (mp_merkle p))
                         in (case null_observe (nd_null ns) (sa_now sa) act (root = '''') of
                               (nt, e3) \<Rightarrow>
                                 (ns\<lparr>nd_reorg := m, nd_null := nt\<rparr>, rq,
                                  Some \<lparr>ns_node = nd_name ns, ns_hash = h_hash h, ns_root = root\<rparr>,
                                  e1 @ e2 @ e3)))))
      | _ \<Rightarrow> (ns, rq, None,
          [(mk_event EvWarn (nd_name ns) (lit ''sample header fetch''))\<lparr>ev_number := height\<rparr>]))"

text \<open>All nodes in order, a quiet one skipped; \<open>i\<close> is the participant.\<close>

fun sample_nodes ::
  "u64 \<Rightarrow> (nat \<Rightarrow> bool) \<Rightarrow> nat \<Rightarrow> (node_state \<times> sample_answers) list \<Rightarrow> resample_queue \<Rightarrow>
     node_state list \<times> resample_queue \<times> node_sample list \<times> event list"
where
  "sample_nodes height quiet i [] rq = ([], rq, [], [])"
| "sample_nodes height quiet i ((ns, sa) # rest) rq =
     (if quiet i then
        (case sample_nodes height quiet (Suc i) rest rq of (nss, rq, ss, evs) \<Rightarrow> (ns # nss, rq, ss, evs))
      else
        (case sample_node height sa ns rq of
           (ns', rq, s, e1) \<Rightarrow>
             (case sample_nodes height quiet (Suc i) rest rq of
                (nss, rq, ss, e2) \<Rightarrow>
                  (ns' # nss, rq, (case s of None \<Rightarrow> ss | Some x \<Rightarrow> x # ss), e1 @ e2))))"

definition sampled_hashes :: "node_sample list \<Rightarrow> string list" where
  "sampled_hashes ss = remdups (filter (\<lambda>h. h \<noteq> '''') (map ns_hash ss))"

definition sample_at ::
  "u64 \<Rightarrow> (nat \<Rightarrow> bool) \<Rightarrow> (node_state \<times> sample_answers) list \<Rightarrow> gotime \<Rightarrow> split_watch \<Rightarrow> resample_queue \<Rightarrow>
     node_state list \<times> split_watch \<times> resample_queue \<times> event list"
where
  "sample_at height quiet nodes now w rq =
     (case sample_nodes height quiet 1 nodes rq of
        (nss, rq, ss, evs) \<Rightarrow>
          if ss = [] then (nss, w, rq, evs)
          else
            let hashes = filter (\<lambda>h. h \<noteq> '''') (map ns_hash ss);
                sample = (mk_event EvSample '''' no_detail)
                  \<lparr>ev_number := height, ev_hash := (if hashes = [] then '''' else hd hashes),
                   ev_roots := map (\<lambda>s. (ns_node s, ns_root s)) ss\<rparr>;
                post = list_ex (\<lambda>ns. case tl_istar (nd_timeline ns) of None \<Rightarrow> False
                          | Some b \<Rightarrow> is_number b \<le> height) nss;
                seen = sampled_hashes ss
            in (case split_observe w now (1 < length seen) height seen of
                  (w', e) \<Rightarrow>
                    (nss, w', rq, evs @ [sample] @ evaluate_sample ss post @ (case e of None \<Rightarrow> [] | Some x \<Rightarrow> [x]))))"

text \<open>\<open>sampleOnce\<close>: the queued heights, then one \<open>depth\<close> below the shallowest head; \<open>nodes h\<close> are
  the nodes' answers at \<open>h\<close>.\<close>

fun min_known_head :: "u64 option \<Rightarrow> node_state list \<Rightarrow> u64 option" where
  "min_known_head m [] = m"
| "min_known_head m (ns # nss) =
     min_known_head
       (case (nd_head ns, m) of
          (Some h, None) \<Rightarrow> Some h
        | (Some h, Some k) \<Rightarrow> if h < k then Some h else m
        | (None, _) \<Rightarrow> m) nss"

fun sample_heights ::
  "(nat \<Rightarrow> bool) \<Rightarrow> (u64 \<times> sample_answers list \<times> gotime) list \<Rightarrow> node_state list \<Rightarrow> split_watch \<Rightarrow>
     resample_queue \<Rightarrow> node_state list \<times> split_watch \<times> resample_queue \<times> event list"
where
  "sample_heights quiet [] nss w rq = (nss, w, rq, [])"
| "sample_heights quiet ((h, sas, now) # rest) nss w rq =
     (case sample_at h quiet (zip nss sas) now w rq of
        (nss, w, rq, evs) \<Rightarrow>
          (case sample_heights quiet rest nss w rq of (nss, w, rq, evs') \<Rightarrow> (nss, w, rq, evs @ evs')))"

definition sample_once ::
  "(nat \<Rightarrow> bool) \<Rightarrow> u64 \<Rightarrow> (u64 \<Rightarrow> sample_answers list \<times> gotime) \<Rightarrow> node_state list \<Rightarrow> split_watch \<Rightarrow>
     resample_queue \<Rightarrow> node_state list \<times> split_watch \<times> resample_queue \<times> event list"
where
  "sample_once quiet depth answers nss w rq =
     (case rq_drain rq of
        (queued, rq) \<Rightarrow>
          (case sample_heights quiet (map (\<lambda>h. (h, answers h)) queued) nss w rq of
             (nss, w, rq, e1) \<Rightarrow>
               (case min_known_head None nss of
                  None \<Rightarrow> (nss, w, rq, e1)
                | Some m \<Rightarrow>
                    if m < depth then (nss, w, rq, e1)
                    else
                      (case sample_heights quiet [(m - depth, answers (m - depth))] nss w rq of
                         (nss, w, rq, e2) \<Rightarrow> (nss, w, rq, e1 @ e2)))))"

section \<open>The search finds the fork block\<close>

lemma bisect_cond: "lo \<noteq> - 1 \<Longrightarrow> lo + 1 < hi \<longleftrightarrow> unat lo + 1 < unat hi" for lo hi :: u64
  by (simp add: word_less_nat_alt unat_inc)

text \<open>The search reads at most 64 headers.\<close>

lemma bisect_total:
  "lo \<noteq> - 1 \<Longrightarrow> unat hi - unat lo \<le> 2 ^ n \<Longrightarrow> bisect n hdr t lo hi \<noteq> Inl Unending"
proof (induction n arbitrary: lo hi)
  case 0
  then have "\<not> lo + 1 < hi" by (simp add: bisect_cond)
  then show ?case by (simp add: bisect.simps)
next
  case (Suc n)
  show ?case
  proof (cases "lo + 1 < hi")
    case False
    then show ?thesis by (simp add: bisect.simps)
  next
    case True
    with Suc.prems have c: "unat lo + 1 < unat hi" by (simp add: bisect_cond)
    then have "lo < hi" by (simp add: word_less_nat_alt)
    define mid where "mid = lo + (hi - lo) div 2"
    have m: "unat mid = unat lo + (unat hi - unat lo) div 2" unfolding mid_def by (rule mid_unat) fact
    with c have "unat mid < unat hi" by linarith
    then have "mid < hi" by (simp add: word_less_nat_alt)
    then have "mid \<noteq> - 1" by (rule not_max)
    have "unat mid - unat lo \<le> 2 ^ n" "unat hi - unat mid \<le> 2 ^ n" using m Suc.prems(2) by auto
    with Suc.IH [of lo mid] Suc.IH [of mid hi] \<open>mid \<noteq> - 1\<close> Suc.prems(1) True show ?thesis
      by (subst bisect.simps) (auto simp: mid_def [symmetric] Let_def fetch_def split: sum.splits option.splits)
  qed
qed

text \<open>A chain as a client serves it: a header at every height up to the head, at times that never
  decrease.\<close>

definition serves :: "headers \<Rightarrow> (nat \<Rightarrow> header) \<Rightarrow> u64 \<Rightarrow> bool" where
  "serves hdr blk head \<longleftrightarrow> (\<forall>n \<le> head. hdr n = Inr (Some (blk (unat n))))"

definition ordered_upto :: "(nat \<Rightarrow> header) \<Rightarrow> u64 \<Rightarrow> bool" where
  "ordered_upto blk head \<longleftrightarrow> (\<forall>i j. i \<le> j \<longrightarrow> j \<le> unat head \<longrightarrow> h_time (blk i) \<le> h_time (blk j))"

lemma bisect_finds:
  assumes "serves hdr blk head" "hi \<le> head" "lo < hi" "h_time (blk (unat lo)) < t" "t \<le> h_time (blk (unat hi))"
    "unat hi - unat lo \<le> 2 ^ n"
  shows "\<exists>r. bisect n hdr t lo hi = Inr r \<and> lo < r \<and> r \<le> hi \<and> t \<le> h_time (blk (unat r)) \<and>
    h_time (blk (unat (r - 1))) < t"
  using assms(2-)
proof (induction n arbitrary: lo hi)
  case 0
  have ne: "lo \<noteq> - 1" using \<open>lo < hi\<close> by (rule not_max)
  have "\<not> lo + 1 < hi" using 0 ne by (simp add: bisect_cond)
  moreover have "hi = lo + 1" using \<open>lo < hi\<close> calculation by (metis inc_le linorder_not_le order_antisym)
  ultimately show ?case using 0 by (simp add: bisect.simps)
next
  case (Suc n)
  have ne: "lo \<noteq> - 1" using \<open>lo < hi\<close> by (rule not_max)
  show ?case
  proof (cases "lo + 1 < hi")
    case False
    then have "hi = lo + 1" using \<open>lo < hi\<close> by (metis inc_le linorder_not_le order_antisym)
    with False Suc.prems show ?thesis by (simp add: bisect.simps)
  next
    case True
    with ne have c: "unat lo + 1 < unat hi" by (simp add: bisect_cond)
    define mid where "mid = lo + (hi - lo) div 2"
    have m: "unat mid = unat lo + (unat hi - unat lo) div 2" unfolding mid_def by (rule mid_unat) fact
    with c have b: "lo < mid" "mid < hi" unfolding word_less_nat_alt by auto
    have d: "unat mid - unat lo \<le> 2 ^ n" "unat hi - unat mid \<le> 2 ^ n" using m Suc.prems(5) by auto
    from b(2) Suc.prems(1) have "mid \<le> head" by simp
    with assms(1) have f: "fetch hdr mid = Inr (blk (unat mid))" by (simp add: serves_def fetch_def)
    show ?thesis
    proof (cases "t \<le> h_time (blk (unat mid))")
      case True
      from Suc.IH [OF \<open>mid \<le> head\<close> b(1) Suc.prems(3) True d(1)] True f \<open>lo + 1 < hi\<close> b(2) show ?thesis
        by (subst bisect.simps) (auto simp: mid_def [symmetric] Let_def intro: order_trans less_imp_le)
    next
      case False
      then have "h_time (blk (unat mid)) < t" by simp
      from Suc.IH [OF Suc.prems(1) b(2) this Suc.prems(4) d(2)] False f \<open>lo + 1 < hi\<close> b(1) show ?thesis
        by (subst bisect.simps) (auto simp: mid_def [symmetric] Let_def)
    qed
  qed
qed

text \<open>C30: On a chain whose timestamps do not decrease, started from a lower bound that this chain
  holds before the fork, the search of at most 64 reads names the one fork block: the first block
  at or past the fork time, with its hash and a parent before it; and when the head is still
  before the fork it remembers the head as the new lower bound.\<close>

theorem find_istar_spec:
  assumes "serves hdr blk head" "ordered_upto blk head"
    and "last_below \<le> head" "h_time (blk (unat last_below)) < t"
  shows "(h_time (blk (unat head)) < t \<longrightarrow> find_istar hdr last_below head t = (head, Inr None)) \<and>
    (t \<le> h_time (blk (unat head)) \<longrightarrow>
       (\<exists>b. find_istar hdr last_below head t = (last_below, Inr (Some b)) \<and> is_number b \<le> head \<and>
          is_hash b = h_hash (blk (unat (is_number b))) \<and> is_time b = h_time (blk (unat (is_number b))) \<and>
          t \<le> is_time b \<and> is_parent_time b < t \<and> (\<forall>n < unat (is_number b). h_time (blk n) < t)))"
proof (cases "h_time (blk (unat head)) < t")
  case True
  moreover have "fetch hdr head = Inr (blk (unat head))" using assms(1) by (simp add: serves_def fetch_def)
  ultimately show ?thesis by (simp add: find_istar_def)
next
  case False
  have f: "fetch hdr n = Inr (blk (unat n))" if "n \<le> head" for n
    using assms(1) that by (simp add: serves_def fetch_def)
  from False assms(3,4) have lt: "last_below < head" by (cases "last_below = head") auto
  have "unat head < 2 ^ 64" using unsigned_less [of head, where ?'a = nat] by simp
  then have "unat head - unat last_below \<le> 2 ^ 64" by simp
  note bounded = this
  from False have le: "t \<le> h_time (blk (unat head))" by simp
  obtain r where r: "bisect 64 hdr t last_below head = Inr r" "last_below < r" "r \<le> head" "t \<le> h_time (blk (unat r))"
      "h_time (blk (unat (r - 1))) < t"
    using bisect_finds [OF assms(1) order_refl lt assms(4) le bounded] by blast
  have pos: "0 < r" using r(2) by (metis word_gt_0 word_not_simps(1))
  have u: "unat (r - 1) = unat r - 1" using pos by (simp add: unat_minus_one)
  have "r - 1 \<le> head" using u r(3) by (simp add: word_le_nat_alt)
  with f r pos False have eq: "find_istar hdr last_below head t = (last_below, Inr (Some
      \<lparr>is_number = r, is_hash = h_hash (blk (unat r)), is_time = h_time (blk (unat r)),
       is_parent_time = h_time (blk (unat (r - 1)))\<rparr>))"
    by (auto simp: find_istar_def)
  have "h_time (blk n) < t" if "n < unat r" for n
  proof -
    have "n \<le> unat (r - 1)" "unat (r - 1) \<le> unat head" using that u r(3) by (auto simp: word_le_nat_alt)
    with assms(2) r(5) show ?thesis by (meson le_less_trans ordered_upto_def)
  qed
  with eq r False show ?thesis by auto
qed

theorem find_istar_spec_witness:
  "let blk = (\<lambda>n. \<lparr>h_number = of_nat n, h_hash = ''h'', h_parent = '''', h_root = '''', h_time = of_nat n\<rparr>)
   in \<exists>b. find_istar (\<lambda>n. Inr (Some (blk (unat n)))) 1 7 5 = (1, Inr (Some b)) \<and> 5 \<le> is_time b \<and> is_parent_time b < 5"
proof -
  let ?blk = "\<lambda>n. \<lparr>h_number = of_nat n, h_hash = ''h'', h_parent = '''', h_root = '''', h_time = (of_nat n :: u64)\<rparr>"
  have "serves (\<lambda>n. Inr (Some (?blk (unat n)))) ?blk 7" by (simp add: serves_def)
  moreover have "ordered_upto ?blk 7"
    by (auto simp: ordered_upto_def word_le_nat_alt unat_of_nat)
  moreover have "h_time (?blk (unat (1::u64))) < 5" "(1::u64) \<le> 7" "(5::u64) \<le> h_time (?blk (unat (7::u64)))" by simp_all
  ultimately show ?thesis
    using find_istar_spec [of "\<lambda>n. Inr (Some (?blk (unat n)))" ?blk 7 1 5] unfolding Let_def by blast
qed

text \<open>Two branches that part after block 99: one mints its block 100 a slot before the fork time
  1200, the other at it.\<close>

definition reorg_chain :: "bool \<Rightarrow> nat \<Rightarrow> header" where
  "reorg_chain late n =
     \<lparr>h_number = of_nat n, h_hash = (if n < 100 then ''c'' else if late then ''b'' else ''a''),
      h_parent = '''', h_root = '''', h_time = of_nat (if n < 100 \<or> late then 12 * n else 12 * n - 6)\<rparr>"

lemma of_nat_le64: "i \<le> j \<Longrightarrow> j < 2 ^ 64 \<Longrightarrow> (of_nat i :: u64) \<le> of_nat j"
  by (simp add: word_le_nat_alt unat_of_nat)

lemma reorg_chain_ordered: "head \<le> 200 \<Longrightarrow> ordered_upto (reorg_chain late) head"
  unfolding ordered_upto_def reorg_chain_def
  by (intro allI impI, simp only: header.simps, rule of_nat_le64) (auto simp: word_le_nat_alt)

text \<open>The lower bound is not checked against the chain it is used on: a one-block reorg across
  the fork time, before any fork block was recorded, leaves a bound the new chain holds past the
  fork; the search then names a block whose parent is already past the fork, which the quorum
  reports as a critical finding, while the true fork block, one below, is never recorded.\<close>

theorem find_istar_stale_bound:
  "ordered_upto (reorg_chain False) 100 \<and> ordered_upto (reorg_chain True) 101 \<and>
   find_istar (\<lambda>n. Inr (Some (reorg_chain False (unat n)))) 0 100 1200 = (100, Inr None) \<and>
   (\<exists>b. find_istar (\<lambda>n. Inr (Some (reorg_chain True (unat n)))) 100 101 1200 = (100, Inr (Some b)) \<and>
      is_number b = 101 \<and>
      1200 \<le> h_time (reorg_chain True 100) \<and> h_time (reorg_chain True 99) < 1200 \<and>
      map ev_kind (snd (check_shape (new_quorum 1200) ''el-1-geth'' b)) = [EvCritical])"
proof -
  have "find_istar (\<lambda>n. Inr (Some (reorg_chain False (unat n)))) 0 100 1200 = (100, Inr None)"
    by (simp add: find_istar_def fetch_def reorg_chain_def)
  moreover have "find_istar (\<lambda>n. Inr (Some (reorg_chain True (unat n)))) 100 101 1200 =
      (100, Inr (Some \<lparr>is_number = 101, is_hash = ''b'', is_time = 1212, is_parent_time = 1200\<rparr>))"
    by (simp add: find_istar_def fetch_def reorg_chain_def bisect.simps)
  ultimately show ?thesis
    by (simp add: reorg_chain_ordered) (simp add: reorg_chain_def check_shape_def new_quorum_def crit_def)
qed

section \<open>The queue as a bounded memory\<close>

interpretation rq: bounded_fifo rq_heights "\<lambda>q h. h \<in> rq_seen q" "\<lambda>q (kv :: u64 \<times> unit). rq_push q (fst kv)" resampleQueueCap
  "\<lambda>h. 1 \<le> h"
proof
  fix q :: resample_queue and k k' :: u64 and v :: unit
  assume a: "\<forall>k'. (k' \<in> rq_seen q) = (k' \<in> set (rq_heights q))" "distinct (rq_heights q)"
    "length (rq_heights q) \<le> resampleQueueCap"
  show "rq_heights (rq_push q (fst (k, v))) =
      (if k \<in> rq_seen q \<or> \<not> 1 \<le> k then rq_heights q else fifo_push resampleQueueCap (rq_heights q) k)"
  proof (cases "length (rq_heights q) = 64")
    case True
    then have "rq_heights q \<noteq> []" by auto
    with True show ?thesis by (auto simp: rq_push_def fifo_push_def Let_def not_le)
  next
    case False
    with a(3) show ?thesis by (auto simp: rq_push_def fifo_push_def Let_def not_le)
  qed
  show "(k' \<in> rq_seen (rq_push q (fst (k, v)))) = (k' \<in> set (rq_heights (rq_push q (fst (k, v)))))"
  proof (cases "rq_heights q")
    case (Cons h hs)
    with a(1,2) show ?thesis by (auto simp: rq_push_def Let_def)
  qed (use a(1) in \<open>auto simp: rq_push_def Let_def\<close>)
qed simp

lemma queue_new: "rq.consistent new_resample_queue"
  by (simp add: rq.consistent_def new_resample_queue_def)

text \<open>Whatever is pushed, in whatever order and number, the queue never holds more than 64
  heights, each once, and a height pushed while not queued is still there to be sampled as long
  as fewer than 64 pushes follow it before the next drain.\<close>

theorem resample_queue_keeps:
  assumes "q = foldl rq_push new_resample_queue hs" "1 \<le> h" "h \<notin> rq_seen q" "length post < 64"
  shows "length (rq_heights q) \<le> 64 \<and> distinct (rq_heights q) \<and>
    h \<in> set (fst (rq_drain (foldl rq_push (rq_push q h) post)))"
proof -
  have f: "foldl rq_push q0 xs = foldl (\<lambda>q kv. rq_push q (fst kv)) q0 (map (\<lambda>x. (x, ())) xs)" for q0 xs
    by (induction xs arbitrary: q0) auto
  have c: "rq.consistent q" unfolding assms(1) f by (rule rq.puts_consistent [OF queue_new])
  from rq.retains [OF c, of h "map (\<lambda>x. (x, ())) post" "()"] assms(2-4)
  have "h \<in> rq_seen (foldl rq_push (rq_push q h) post)" by (simp add: f [symmetric])
  moreover have "rq.consistent (foldl rq_push (rq_push q h) post)"
    using rq.puts_consistent [OF rq.put_consistent [OF c, of h "()"], of "map (\<lambda>x. (x, ())) post"]
    by (simp add: f [symmetric])
  ultimately show ?thesis using c by (auto simp: rq.consistent_def rq_drain_def)
qed

theorem resample_queue_keeps_witness:
  "length (rq_heights (foldl rq_push new_resample_queue [5, 7, 5])) \<le> 64 \<and>
   9 \<in> set (fst (rq_drain (foldl rq_push (rq_push (foldl rq_push new_resample_queue [5, 7, 5]) 9) [1, 2])))"
  using resample_queue_keeps [OF refl, of 9 "[5, 7, 5]" "[1, 2]"]
  by (simp add: rq_push_def new_resample_queue_def Let_def)

section \<open>Splits that outlive a partition\<close>

definition split_step :: "split_watch \<Rightarrow> gotime \<Rightarrow> bool \<Rightarrow> bool \<Rightarrow> split_watch \<Rightarrow> bool" where
  "split_step w now split f w' \<longleftrightarrow>
     (\<exists>h hs e. split_observe w now split h hs = (w', e) \<and> f = (e \<noteq> None))"

interpretation spw: grace_watch sw_since sw_fired "\<lambda>t s. SplitGrace < tsub t s"
  "\<lambda>w. sw_fired w \<longrightarrow> sw_since w \<noteq> zero_time" split_step
proof
  fix w now c f w'
  assume "sw_fired w \<longrightarrow> sw_since w \<noteq> zero_time" "split_step w now c f w'"
  moreover have "\<not> SplitGrace < tsub zero_time zero_time"
    by (simp add: tsub_def SplitGrace_def minute_def min_duration_def max_duration_def)
  ultimately show "sw_fired w' \<longrightarrow> sw_since w' \<noteq> zero_time"
    by (auto simp: split_step_def split_observe_def split_watch0_def is_zero_def Let_def split: if_splits)
next
  fix w now f w'
  assume "split_step w now False f w'"
  then show "\<not> f \<and> sw_since w' = zero_time \<and> \<not> sw_fired w'"
    by (auto simp: split_step_def split_observe_def split_watch0_def)
next
  fix w now f w'
  assume "sw_fired w \<longrightarrow> sw_since w \<noteq> zero_time" "split_step w now True f w'"
  then show "sw_since w' = (if sw_since w = zero_time then now else sw_since w) \<and>
      f = (\<not> sw_fired w \<and> SplitGrace < tsub now (sw_since w')) \<and> sw_fired w' = (sw_fired w \<or> f)"
    by (auto simp: split_step_def split_observe_def is_zero_def Let_def split: if_splits)
qed

fun split_run :: "split_watch \<Rightarrow> (gotime \<times> bool \<times> u64 \<times> string list) list \<Rightarrow> (gotime \<times> bool \<times> bool \<times> split_watch) list" where
  "split_run w [] = []"
| "split_run w ((now, split, h, hs) # ps) =
     (case split_observe w now split h hs of
        (w', e) \<Rightarrow> (now, split, e \<noteq> None, w') # split_run w' ps)"

lemma split_run_chain: "chain split_step w (split_run w ps)"
  by (induction w ps rule: split_run.induct) (auto simp: split_step_def split: prod.splits)

lemma split_run_times: "map fst (split_run w ps) = map fst ps"
  by (induction w ps rule: split_run.induct) (auto split: prod.splits)

text \<open>Over any run of samples a disagreement is reported exactly at the first sample of an
  unbroken run of split samples that comes more than 12 minutes after that run began.\<close>

theorem split_reports:
  assumes "\<forall>p \<in> set ps. fst p \<noteq> zero_time" "k < length ps"
  shows "fst (snd (snd (split_run split_watch0 ps ! k))) =
    first_late (\<lambda>now start. 12 * minute < tsub now start)
      (episode (rev (take (Suc k) (polls_of (split_run split_watch0 ps)))))"
proof -
  have "length (split_run split_watch0 ps) = length ps"
    using split_run_times [of split_watch0 ps] by (metis length_map)
  moreover have "fst ` set (split_run split_watch0 ps) = fst ` set ps"
    using arg_cong [OF split_run_times [of split_watch0 ps], of set] by simp
  then have "zero_time \<notin> fst ` set (split_run split_watch0 ps)" using assms(1) by auto
  then have "\<forall>e \<in> set (split_run split_watch0 ps). fst e \<noteq> zero_time" by force
  ultimately show ?thesis
    using spw.reports [OF split_run_chain, of split_watch0 ps k] assms(2)
    by (simp add: split_watch0_def SplitGrace_def)
qed

theorem split_reports_witness:
  "fst (snd (snd (split_run split_watch0 [(tunix 10, True, 7, []), (tunix 731, True, 8, [])] ! 1))) =
    first_late (\<lambda>now start. 12 * minute < tsub now start)
      (episode (rev (take (Suc 1) (polls_of (split_run split_watch0 [(tunix 10, True, 7, []), (tunix 731, True, 8, [])])))))"
  using split_reports [of "[(tunix 10, True, 7, []), (tunix 731, True, 8, [])]" 1]
  by (simp add: tunix_def second_def zero_time_def)

section \<open>A quiet node\<close>

lemma sample_nodes_quiet:
  "sample_nodes height quiet i nodes rq = (nss, rq', ss, evs) \<Longrightarrow>
    length nss = length nodes \<and>
    (\<forall>j < length nodes. quiet (i + j) \<longrightarrow> nss ! j = fst (nodes ! j)) \<and>
    ns_node ` set ss \<subseteq> {nd_name (fst (nodes ! j)) |j. j < length nodes \<and> \<not> quiet (i + j)}"
proof (induction height quiet i nodes rq arbitrary: nss rq' ss evs rule: sample_nodes.induct)
  case (2 height quiet i ns sa rest rq)
  have shift: "{nd_name (fst (rest ! j)) |j. j < length rest \<and> \<not> quiet (Suc i + j)}
      \<subseteq> {nd_name (fst (((ns, sa) # rest) ! j)) |j. j < length ((ns, sa) # rest) \<and> \<not> quiet (i + j)}"
    by (force intro: exI [of _ "Suc _"])
  show ?case
  proof (cases "quiet i")
    case True
    with "2.prems" obtain nss' where
      r: "sample_nodes height quiet (Suc i) rest rq = (nss', rq', ss, evs)" "nss = ns # nss'"
      by (auto split: prod.splits)
    note IH = "2.IH"(1) [OF True r(1)]
    have "nss ! j = fst (((ns, sa) # rest) ! j)" if "j < length ((ns, sa) # rest)" "quiet (i + j)" for j
      using that IH r(2) by (cases j) auto
    moreover have "ns_node ` set ss \<subseteq> {nd_name (fst (((ns, sa) # rest) ! j)) |j. j < length ((ns, sa) # rest) \<and> \<not> quiet (i + j)}"
      using IH shift by (meson subset_trans)
    ultimately show ?thesis using IH r(2) by simp
  next
    case False
    obtain ns' rq1 s e1 where n: "sample_node height sa ns rq = (ns', rq1, s, e1)" by (metis prod.exhaust)
    with False "2.prems" obtain nss' ss' e2 where
      r: "sample_nodes height quiet (Suc i) rest rq1 = (nss', rq', ss', e2)" "nss = ns' # nss'"
        "ss = (case s of None \<Rightarrow> ss' | Some x \<Rightarrow> x # ss')"
      by (auto split: prod.splits)
    have s: "s = Some x \<Longrightarrow> ns_node x = nd_name ns" for x
      using n by (auto simp: sample_node_def Let_def split: sum.splits option.splits prod.splits if_splits)
    have "nd_name ns \<in> {nd_name (fst (((ns, sa) # rest) ! j)) |j. j < length ((ns, sa) # rest) \<and> \<not> quiet (i + j)}"
      using False by (auto intro: exI [of _ 0])
    moreover note IH = "2.IH"(2) [OF False n [symmetric] refl refl r(1)]
    moreover have "ns_node ` set ss \<subseteq> insert (nd_name ns) (ns_node ` set ss')"
      using r(3) s by (auto split: option.splits)
    ultimately have "ns_node ` set ss \<subseteq> {nd_name (fst (((ns, sa) # rest) ! j)) |j. j < length ((ns, sa) # rest) \<and> \<not> quiet (i + j)}"
      using shift by (meson insert_subset order_trans)
    moreover have "\<forall>j < length ((ns, sa) # rest). quiet (i + j) \<longrightarrow> nss ! j = fst (((ns, sa) # rest) ! j)"
    proof (intro allI impI)
      fix j
      assume "j < length ((ns, sa) # rest)" "quiet (i + j)"
      with False IH r(2) show "nss ! j = fst (((ns, sa) # rest) ! j)" by (cases j) auto
    qed
    ultimately show ?thesis using IH r(2) by simp
  qed
qed simp

text \<open>A node the offline swap has down or rewound takes no part in a sample: its streaks, its
  reorg memory and its state stay as they were, and no sampled root or hash is its own.\<close>

theorem quiet_node_not_sampled:
  assumes "sample_nodes height quiet 1 nodes rq = (nss, rq', ss, evs)" "j < length nodes" "quiet (Suc j)"
    and "distinct (map (nd_name \<circ> fst) nodes)"
  shows "nss ! j = fst (nodes ! j) \<and> nd_name (fst (nodes ! j)) \<notin> ns_node ` set ss"
proof -
  note sp = sample_nodes_quiet [OF assms(1)]
  have "nd_name (fst (nodes ! i)) \<noteq> nd_name (fst (nodes ! j))" if "i < length nodes" "i \<noteq> j" for i
    using assms(2,4) that by (auto simp: distinct_conv_nth)
  moreover have "nd_name (fst (nodes ! j)) \<notin> {nd_name (fst (nodes ! i)) |i. i < length nodes \<and> \<not> quiet (1 + i)}"
  proof
    assume "nd_name (fst (nodes ! j)) \<in> {nd_name (fst (nodes ! i)) |i. i < length nodes \<and> \<not> quiet (1 + i)}"
    then obtain i where "i < length nodes" "\<not> quiet (Suc i)" "nd_name (fst (nodes ! i)) = nd_name (fst (nodes ! j))"
      by auto
    with calculation assms(3) show False by metis
  qed
  moreover have "nss ! j = fst (nodes ! j)" using sp assms(2,3) by simp
  ultimately show ?thesis using sp by (meson subsetD)
qed

theorem quiet_node_not_sampled_witness:
  "let ns = new_node_state ''el-1-geth'' True 9; ns' = new_node_state ''el-2-besu'' True 9;
       sa = \<lparr>sa_header = Inl ''down'', sa_root = Inr '''', sa_again = (\<lambda>_. Inl ''''), sa_now = tunix 5\<rparr>
   in fst (sample_nodes 7 (\<lambda>i. i = 2) 1 [(ns, sa), (ns', sa)] new_resample_queue) ! 1 = ns'"
  using quiet_node_not_sampled [of 7 "\<lambda>i. i = 2"
      "[(new_node_state ''el-1-geth'' True 9, \<lparr>sa_header = Inl ''down'', sa_root = Inr '''', sa_again = (\<lambda>_. Inl ''''), sa_now = tunix 5\<rparr>),
        (new_node_state ''el-2-besu'' True 9, \<lparr>sa_header = Inl ''down'', sa_root = Inr '''', sa_again = (\<lambda>_. Inl ''''), sa_now = tunix 5\<rparr>)]"
      new_resample_queue _ _ _ _ 1]
  by (simp add: sample_node_def new_node_state_def)

section \<open>The search ends\<close>

text \<open>C31: The search for the fork block always returns, whatever the client answers, after at most 64
  reads between its bounds, unless its lower bound is the largest 64-bit number, whose successor
  wraps to zero.\<close>

theorem find_istar_returns:
  assumes "last_below \<noteq> - 1"
  shows "snd (find_istar hdr last_below head t) \<noteq> Inl Unending"
proof -
  have "unat head < 2 ^ 64" using unsigned_less [of head, where ?'a = nat] by simp
  then have "bisect 64 hdr t last_below head \<noteq> Inl Unending" using assms by (intro bisect_total) simp_all
  then show ?thesis
    by (auto simp: find_istar_def fetch_def split: sum.splits option.splits if_splits)
qed

theorem find_istar_returns_witness:
  "snd (find_istar (\<lambda>n. if n < 9 then Inr None else Inr (Some (reorg_chain True (unat n)))) 5 101 12) \<noteq> Inl Unending"
  using find_istar_returns [of 5 "\<lambda>n. if n < 9 then Inr None else Inr (Some (reorg_chain True (unat n)))" 101 12]
  by simp


end
