(* ===== verification/MonFeeds.thy ===== *)
theory MonFeeds
  imports ChaosDriver
begin

text \<open>
  The monitor's feeds (\<open>cmd/migration-monitor/feeds.go\<close>, and the alerts and slots of
  \<open>river.go\<close>): the emulator's applied state as partition records with the slots they were applied
  and lifted at, who is isolated and which alerts a partition explains, partition classes, and a
  client's progress in the page's words. The index of open partitions, a Go map, is an
  association list; every loop over it visits each entry once, whatever the order.
\<close>

section \<open>Slots\<close>

definition slot_of :: "u64 \<Rightarrow> u64 \<Rightarrow> u64 \<Rightarrow> u64" where
  "slot_of genesis slot_seconds unix =
     (if unix < genesis then 0 else (unix - genesis) div slot_seconds)"

section \<open>Partition records\<close>

record partition =
  pt_name :: string
  pt_class :: string
  pt_victims :: "int list"
  pt_applied :: u64
  pt_lifted :: u64 \<comment> \<open>0 while applied\<close>

record tracker =
  tr_recs :: "partition list"
  tr_open :: "(string \<times> nat) list"

definition new_tracker :: tracker where
  "new_tracker = \<lparr>tr_recs = [], tr_open = []\<rparr>"

text \<open>\<open>victimsOf\<close>: the group holding the anchor is the network, else the first largest one.\<close>

fun index_of :: "('a \<Rightarrow> bool) \<Rightarrow> nat \<Rightarrow> 'a list \<Rightarrow> nat option" where
  "index_of P i [] = None"
| "index_of P i (x # xs) = (if P x then Some i else index_of P (Suc i) xs)"

fun largest :: "nat \<Rightarrow> nat \<Rightarrow> nat \<Rightarrow> int list list \<Rightarrow> nat" where
  "largest best len i [] = best"
| "largest best len i (g # gs) =
     (if len < length g then largest i (length g) (Suc i) gs else largest best len (Suc i) gs)"

definition victims_of :: "int list list \<Rightarrow> int \<Rightarrow> int list" where
  "victims_of groups anchor =
     (case groups of
        [] \<Rightarrow> []
      | [g] \<Rightarrow> sort g
      | g # gs \<Rightarrow>
          let network = (case index_of (\<lambda>g. anchor \<in> set g) 0 groups of
                Some i \<Rightarrow> i | None \<Rightarrow> largest 0 (length g) 0 groups)
          in sort (concat (take network groups @ drop (Suc network) groups)))"

fun track_applied ::
  "(string \<Rightarrow> string) \<Rightarrow> int \<Rightarrow> u64 \<Rightarrow> partition_spec list \<Rightarrow> tracker \<Rightarrow> tracker"
where
  "track_applied classify anchor now [] p = p"
| "track_applied classify anchor now (a # as) p =
     track_applied classify anchor now as
       (let victims = victims_of (pa_groups a) anchor
        in (case map_of (tr_open p) (pa_name a) of
              Some i \<Rightarrow> p\<lparr>tr_recs := (tr_recs p)[i := (tr_recs p ! i)\<lparr>pt_victims := victims\<rparr>]\<rparr>
            | None \<Rightarrow>
                p\<lparr>tr_recs := tr_recs p @
                    [\<lparr>pt_name = pa_name a, pt_class = classify (pa_name a), pt_victims = victims,
                      pt_applied = now, pt_lifted = 0\<rparr>],
                  tr_open := (pa_name a, length (tr_recs p)) # tr_open p\<rparr>))"

definition lift_all :: "u64 \<Rightarrow> nat list \<Rightarrow> partition list \<Rightarrow> partition list" where
  "lift_all now is recs = foldl (\<lambda>rs i. rs[i := (rs ! i)\<lparr>pt_lifted := now\<rparr>]) recs is"

definition track_poll ::
  "(string \<Rightarrow> string) \<Rightarrow> int \<Rightarrow> u64 \<Rightarrow> disruptoor_error + partition_spec list \<Rightarrow> tracker \<Rightarrow>
     tracker \<times> disruptoor_error option"
where
  "track_poll classify anchor now answer p =
     (case answer of
        Inl e \<Rightarrow> (p, Some e)
      | Inr applied \<Rightarrow>
          let p = track_applied classify anchor now applied p;
              gone = filter (\<lambda>(name, _). name \<notin> pa_name ` set applied) (tr_open p)
          in (\<lparr>tr_recs = lift_all now (map snd gone) (tr_recs p),
               tr_open = filter (\<lambda>(name, _). name \<in> pa_name ` set applied) (tr_open p)\<rparr>, None))"

definition isolated :: "tracker \<Rightarrow> int \<Rightarrow> bool" where
  "isolated p node \<longleftrightarrow> list_ex (\<lambda>(_, i). node \<in> set (pt_victims (tr_recs p ! i))) (tr_open p)"

fun covered_by :: "partition list \<Rightarrow> u64 \<Rightarrow> int \<Rightarrow> u64 \<Rightarrow> bool" where
  "covered_by [] slot node grace = False"
| "covered_by (r # rs) slot node grace =
     (if node \<noteq> 0 \<and> node \<notin> set (pt_victims r) then covered_by rs slot node grace
      else if slot + 2 < pt_applied r then covered_by rs slot node grace
      else if pt_lifted r = 0 then True
      else if slot \<le> pt_lifted r + grace then True
      else covered_by rs slot node grace)"

definition covered :: "tracker \<Rightarrow> u64 \<Rightarrow> int \<Rightarrow> u64 \<Rightarrow> bool" where
  "covered p slot node grace \<longleftrightarrow> \<not> node < 0 \<and> covered_by (tr_recs p) slot node grace"

definition classifier :: "op list \<Rightarrow> string \<Rightarrow> string" where
  "classifier ops name =
     (case map_of (rev (map (\<lambda>x. (op_name x, class_string (op_class x))) ops)) name of
        Some c \<Rightarrow> c
      | None \<Rightarrow>
          if take 9 name = ''proposer-'' \<or> str_contains name ''-short-'' then ''short''
          else if str_contains name ''-deep-'' then ''deep''
          else ''scenario'')"

record schedule_op =
  so_name :: string
  so_class :: string
  so_victims :: "int list"
  so_start :: u64
  so_end :: u64

definition schedule_view :: "schedule \<Rightarrow> u64 \<Rightarrow> u64 \<Rightarrow> schedule_op list" where
  "schedule_view s genesis slot_seconds =
     map (\<lambda>x. \<lparr>so_name = op_name x, so_class = class_string (op_class x), so_victims = op_victims x,
                so_start = slot_of genesis slot_seconds (of_int (unix_of (op_start x))),
                so_end = slot_of genesis slot_seconds (of_int (unix_of (op_end x)))\<rparr>) (sc_ops s)"

section \<open>Progress in the page's words\<close>

definition dir_word :: "direction \<Rightarrow> string" where
  "dir_word d =
     (if dp_error d \<noteq> '''' \<or> dp_phase d = DirStalled then ''stalled''
      else if dp_phase d = DirFollowing then ''following''
      else if dp_phase d = DirSynced then ''synced''
      else if dp_phase d = DirParked then ''parked''
      else if dp_phase d = DirIdle then ''idle''
      else ''unknown'')"

definition merkle_word :: "direction \<Rightarrow> string" where
  "merkle_word d =
     (if dp_error d \<noteq> '''' \<or> dp_phase d = DirStalled then ''stalled''
      else if active (Some d) then ''window''
      else if dp_phase d = DirParked then ''parked''
      else if dp_phase d = DirIdle then ''idle''
      else ''unknown'')"

definition node_phase :: "progress option \<Rightarrow> u64 \<Rightarrow> u64 \<Rightarrow> string \<times> u64 \<times> string" where
  "node_phase prog fork_time head_time =
     (case prog of
        None \<Rightarrow> (''unknown'', 0, '''')
      | Some p \<Rightarrow>
          if mp_phase p = PhaseDone then (''done'', 0, '''')
          else if head_time < fork_time then
            (case mp_binary p of
               None \<Rightarrow> (''unknown'', 0, '''')
             | Some b \<Rightarrow> (dir_word b, dp_cursor b, dp_cursor_hash b))
          else
            (case mp_merkle p of
               Some m \<Rightarrow> (merkle_word m, dp_cursor m, dp_cursor_hash m)
             | None \<Rightarrow>
                 let phase = (if mp_phase p = PhaseRunning then ''window''
                       else if mp_phase p = PhaseDone then ''done'' else ''unknown'')
                 in (case mp_binary p of
                       Some b \<Rightarrow> (phase, dp_cursor b, dp_cursor_hash b)
                     | None \<Rightarrow> (phase, 0, ''''))))"

section \<open>Alerts\<close>

definition node_index :: "string \<Rightarrow> int" where
  "node_index service =
     (if service = '''' then 0
      else
        let parts = split_on (CHR ''-'') service
        in if length parts < 2 \<or> parts ! 0 \<noteq> ''el'' \<and> parts ! 0 \<noteq> ''cl'' then -1
           else (case atoi (parts ! 1) of None \<Rightarrow> -1 | Some n \<Rightarrow> n))"

record alert =
  al_slot :: u64
  al_kind :: ev_kind
  al_node :: int
  al_expected :: bool
  al_detail :: detail

abbreviation "maxAlerts \<equiv> (500 :: nat)"

text \<open>\<open>Write\<close> on one event stamped at \<open>t\<close>.\<close>

definition tee_alert :: "u64 \<Rightarrow> u64 \<Rightarrow> gotime \<Rightarrow> event \<Rightarrow> alert list \<Rightarrow> alert list" where
  "tee_alert genesis slot_seconds t e pending =
     (if ev_kind e \<noteq> EvWarn \<and> ev_kind e \<noteq> EvCritical then pending
      else pending @ [\<lparr>al_slot = slot_of genesis slot_seconds (of_int (unix_of t)), al_kind = ev_kind e,
                        al_node = node_index (ev_node e), al_expected = False, al_detail = ev_detail e\<rparr>])"

definition judge_alerts :: "tracker option \<Rightarrow> u64 \<Rightarrow> alert list \<Rightarrow> alert list \<Rightarrow> alert list" where
  "judge_alerts parts slot_seconds batch alerts =
     (let judged = map (\<lambda>a. case parts of None \<Rightarrow> a
             | Some p \<Rightarrow> a\<lparr>al_expected :=
                 covered p (al_slot a) (al_node a) (of_int ConvergenceGrace div slot_seconds + 2)\<rparr>) batch;
          all = alerts @ judged
      in drop (length all - maxAlerts) all)"

section \<open>Victims come back\<close>

text \<open>C32: What the driver isolates is what the monitor shows as isolated: for an op whose victims
  are participants other than the anchor, the groups the driver asks the emulator for, observers
  added, read back as exactly the op's victims.\<close>

theorem victims_roundtrip:
  assumes "partition_request observers (op_name x) (islands n x) = Inr p"
    and "anchor \<in> {1..n}" "anchor \<notin> set (op_victims x)"
  shows "victims_of (pa_groups p) anchor = sort (op_victims x)"
proof -
  have net: "anchor \<in> set (others n (op_victims x) @ observers)"
    using assms(2,3) by (simp add: others_def)
  have one: "concat (map (\<lambda>v. [v]) xs) = xs" for xs :: "int list" by (induction xs) auto
  show ?thesis
  proof (cases "islands n x")
    case (Cons g gs)
    then have g: "g = others n (op_victims x)" "concat gs = op_victims x"
      by (auto simp: islands_def one split: if_splits)
    from assms(1) Cons have p: "pa_groups p = (g @ observers) # gs" "gs \<noteq> []"
      by (auto simp: partition_request_def split: if_splits)
    then obtain h hs where "gs = h # hs" by (cases gs) auto
    with p g net show ?thesis by (simp add: victims_of_def)
  qed (use assms(1) in \<open>simp add: partition_request_def\<close>)
qed

theorem victims_roundtrip_witness:
  "victims_of [[1, 4, 5, 6], [3], [2]] 1 = [2, 3]"
proof -
  let ?x = "\<lparr>op_name = ''straddle'', op_class = ClassStraddle, op_start = tunix 10, op_end = tunix 200,
       op_victims = [3, 2], op_mutual = True, op_refused = None, op_hold = zero_time\<rparr>"
  have u: "[1..(5::int)] = [1, 2, 3, 4, 5]" by (simp add: upto.simps)
  have "partition_request [6] (op_name ?x) (islands 5 ?x) =
      Inr \<lparr>pa_name = ''straddle'', pa_groups = [[1, 4, 5, 6], [3], [2]]\<rparr>"
    by (simp add: partition_request_def islands_def others_def u)
  from victims_roundtrip [OF this, of 1] show ?thesis by simp
qed

section \<open>The tracker\<close>

definition tracker_inv :: "tracker \<Rightarrow> bool" where
  "tracker_inv p \<longleftrightarrow> distinct (map fst (tr_open p)) \<and> distinct (map snd (tr_open p)) \<and>
     (\<forall>(n, i) \<in> set (tr_open p). i < length (tr_recs p) \<and> pt_name (tr_recs p ! i) = n \<and> pt_lifted (tr_recs p ! i) = 0)"

definition track_one :: "(string \<Rightarrow> string) \<Rightarrow> int \<Rightarrow> u64 \<Rightarrow> partition_spec \<Rightarrow> tracker \<Rightarrow> tracker" where
  "track_one classify anchor now a p = track_applied classify anchor now [a] p"

lemma track_applied_step:
  "track_applied classify anchor now (a # as) p =
     track_applied classify anchor now as (track_one classify anchor now a p)"
  by (simp add: track_one_def)

lemma track_one_spec:
  assumes "tracker_inv p"
  shows "tracker_inv (track_one classify anchor now a p)"
    and "fst ` set (tr_open (track_one classify anchor now a p)) = insert (pa_name a) (fst ` set (tr_open p))"
    and "\<exists>i. (pa_name a, i) \<in> set (tr_open (track_one classify anchor now a p)) \<and>
      pt_victims (tr_recs (track_one classify anchor now a p) ! i) = victims_of (pa_groups a) anchor"
    and "(n, i) \<in> set (tr_open p) \<Longrightarrow> n \<noteq> pa_name a \<Longrightarrow>
      (n, i) \<in> set (tr_open (track_one classify anchor now a p)) \<and>
      tr_recs (track_one classify anchor now a p) ! i = tr_recs p ! i"
proof -
  let ?p = "track_one classify anchor now a p"
  have d: "distinct (map fst (tr_open p))" "distinct (map snd (tr_open p))"
    and ok: "\<And>n i. (n, i) \<in> set (tr_open p) \<Longrightarrow>
      i < length (tr_recs p) \<and> pt_name (tr_recs p ! i) = n \<and> pt_lifted (tr_recs p ! i) = 0"
    using assms by (auto simp: tracker_inv_def)
  have "tracker_inv ?p \<and> fst ` set (tr_open ?p) = insert (pa_name a) (fst ` set (tr_open p)) \<and>
    (\<exists>i. (pa_name a, i) \<in> set (tr_open ?p) \<and> pt_victims (tr_recs ?p ! i) = victims_of (pa_groups a) anchor) \<and>
    (\<forall>n i. (n, i) \<in> set (tr_open p) \<longrightarrow> n \<noteq> pa_name a \<longrightarrow> (n, i) \<in> set (tr_open ?p) \<and> tr_recs ?p ! i = tr_recs p ! i)"
  proof (cases "map_of (tr_open p) (pa_name a)")
    case None
    then have nn: "pa_name a \<notin> fst ` set (tr_open p)" by (simp add: map_of_eq_None_iff)
    have fresh: "length (tr_recs p) \<notin> snd ` set (tr_open p)" using ok by force
    have e: "tr_open ?p = (pa_name a, length (tr_recs p)) # tr_open p"
      "tr_recs ?p = tr_recs p @ [\<lparr>pt_name = pa_name a, pt_class = classify (pa_name a),
         pt_victims = victims_of (pa_groups a) anchor, pt_applied = now, pt_lifted = 0\<rparr>]"
      using None by (simp_all add: track_one_def)
    have "tracker_inv ?p" unfolding tracker_inv_def e using d nn fresh ok
      by (auto simp: nth_append less_SucI)
    with e nn ok show ?thesis by (auto simp: nth_append)
  next
    case (Some i)
    then have i: "(pa_name a, i) \<in> set (tr_open p)" by (rule map_of_SomeD)
    have e: "tr_open ?p = tr_open p"
      "tr_recs ?p = (tr_recs p)[i := (tr_recs p ! i)\<lparr>pt_victims := victims_of (pa_groups a) anchor\<rparr>]"
      using Some by (simp_all add: track_one_def)
    have other: "j \<noteq> i" if "(n, j) \<in> set (tr_open p)" "n \<noteq> pa_name a" for n j
      using that i ok by blast
    have r: "tr_recs ?p ! j = (if j = i then (tr_recs p ! i)\<lparr>pt_victims := victims_of (pa_groups a) anchor\<rparr> else tr_recs p ! j)" for j
      using ok [OF i] unfolding e by (simp add: nth_list_update)
    have "tracker_inv ?p" unfolding tracker_inv_def using d ok r e by auto
    moreover have "fst ` set (tr_open ?p) = insert (pa_name a) (fst ` set (tr_open p))" using e(1) i by force
    moreover have "(pa_name a, i) \<in> set (tr_open ?p) \<and> pt_victims (tr_recs ?p ! i) = victims_of (pa_groups a) anchor"
      using e(1) i r by simp
    moreover have "(n, j) \<in> set (tr_open ?p) \<and> tr_recs ?p ! j = tr_recs p ! j"
      if "(n, j) \<in> set (tr_open p)" "n \<noteq> pa_name a" for n j
      using other [OF that] that(1) e(1) r by simp
    ultimately show ?thesis by blast
  qed
  then show "tracker_inv ?p" "fst ` set (tr_open ?p) = insert (pa_name a) (fst ` set (tr_open p))"
    "\<exists>i. (pa_name a, i) \<in> set (tr_open ?p) \<and> pt_victims (tr_recs ?p ! i) = victims_of (pa_groups a) anchor"
    "(n, i) \<in> set (tr_open p) \<Longrightarrow> n \<noteq> pa_name a \<Longrightarrow> (n, i) \<in> set (tr_open ?p) \<and> tr_recs ?p ! i = tr_recs p ! i"
    by blast+
qed

lemma track_applied_spec:
  "tracker_inv p \<Longrightarrow> distinct (map pa_name as) \<Longrightarrow>
    tracker_inv (track_applied classify anchor now as p) \<and>
    fst ` set (tr_open (track_applied classify anchor now as p)) = fst ` set (tr_open p) \<union> pa_name ` set as \<and>
    (\<forall>a \<in> set as. \<exists>i. (pa_name a, i) \<in> set (tr_open (track_applied classify anchor now as p)) \<and>
      pt_victims (tr_recs (track_applied classify anchor now as p) ! i) = victims_of (pa_groups a) anchor) \<and>
    (\<forall>n i. (n, i) \<in> set (tr_open p) \<longrightarrow> n \<notin> pa_name ` set as \<longrightarrow>
      (n, i) \<in> set (tr_open (track_applied classify anchor now as p)) \<and>
      tr_recs (track_applied classify anchor now as p) ! i = tr_recs p ! i)"
proof (induction as arbitrary: p)
  case (Cons a as)
  let ?p = "track_one classify anchor now a p"
  note one = track_one_spec [OF Cons.prems(1), where classify = classify and anchor = anchor and now = now and a = a]
  from Cons.IH [OF one(1)] Cons.prems(2) have IH:
    "tracker_inv (track_applied classify anchor now as ?p)"
    "fst ` set (tr_open (track_applied classify anchor now as ?p)) = fst ` set (tr_open ?p) \<union> pa_name ` set as"
    "\<forall>a \<in> set as. \<exists>i. (pa_name a, i) \<in> set (tr_open (track_applied classify anchor now as ?p)) \<and>
      pt_victims (tr_recs (track_applied classify anchor now as ?p) ! i) = victims_of (pa_groups a) anchor"
    "\<forall>n i. (n, i) \<in> set (tr_open ?p) \<longrightarrow> n \<notin> pa_name ` set as \<longrightarrow>
      (n, i) \<in> set (tr_open (track_applied classify anchor now as ?p)) \<and>
      tr_recs (track_applied classify anchor now as ?p) ! i = tr_recs ?p ! i"
    by simp_all
  from Cons.prems(2) have fresh: "pa_name a \<notin> pa_name ` set as" by auto
  from one(3) obtain i where i: "(pa_name a, i) \<in> set (tr_open ?p)"
    "pt_victims (tr_recs ?p ! i) = victims_of (pa_groups a) anchor" by blast
  from IH(4) i fresh have "(pa_name a, i) \<in> set (tr_open (track_applied classify anchor now as ?p)) \<and>
      pt_victims (tr_recs (track_applied classify anchor now as ?p) ! i) = victims_of (pa_groups a) anchor" by auto
  moreover have "(n, j) \<in> set (tr_open (track_applied classify anchor now as ?p)) \<and>
      tr_recs (track_applied classify anchor now as ?p) ! j = tr_recs p ! j"
    if "(n, j) \<in> set (tr_open p)" "n \<notin> pa_name ` set (a # as)" for n j
    using one(4) [OF that(1)] IH(4) that(2) by auto
  ultimately show ?case unfolding track_applied_step using IH(1,2,3) one(2) by auto
qed simp

lemma lift_all_nth:
  "distinct is \<Longrightarrow> j \<notin> set is \<Longrightarrow> lift_all now is recs ! j = recs ! j"
  "length (lift_all now is recs) = length recs"
  unfolding lift_all_def by (induction "is" arbitrary: recs) auto

lemma track_poll_spec:
  assumes "tracker_inv p" "distinct (map pa_name applied)"
    and "track_poll classify anchor now (Inr applied) p = (p', e)"
  shows "tracker_inv p' \<and> fst ` set (tr_open p') = pa_name ` set applied \<and>
    (\<forall>a \<in> set applied. \<exists>i. (pa_name a, i) \<in> set (tr_open p') \<and>
      pt_victims (tr_recs p' ! i) = victims_of (pa_groups a) anchor)"
proof -
  let ?q = "track_applied classify anchor now applied p"
  let ?gone = "filter (\<lambda>(name, _). name \<notin> pa_name ` set applied) (tr_open ?q)"
  note sp = track_applied_spec [OF assms(1,2), of classify anchor now]
  then have inv: "tracker_inv ?q" by blast
  from assms(3) have p': "p' = \<lparr>tr_recs = lift_all now (map snd ?gone) (tr_recs ?q),
      tr_open = filter (\<lambda>(name, _). name \<in> pa_name ` set applied) (tr_open ?q)\<rparr>"
    by (simp add: track_poll_def Let_def)
  have d: "distinct (map fst (tr_open ?q))" "distinct (map snd (tr_open ?q))"
    using inv by (auto simp: tracker_inv_def)
  have dg: "distinct (map snd ?gone)" using d(2) by (rule distinct_map_filter)
  have keep: "tr_recs p' ! i = tr_recs ?q ! i" if "(n, i) \<in> set (tr_open ?q)" "n \<in> pa_name ` set applied" for n i
  proof -
    have "i \<notin> set (map snd ?gone)"
    proof
      assume "i \<in> set (map snd ?gone)"
      then obtain m where m: "(m, i) \<in> set (tr_open ?q)" "m \<notin> pa_name ` set applied" by auto
      from d(2) have "inj_on snd (set (tr_open ?q))" by (simp add: distinct_map)
      from inj_onD [OF this _ m(1) that(1)] m(2) that(2) show False by simp
    qed
    with dg show ?thesis unfolding p' by (simp add: lift_all_nth(1))
  qed
  have "fst ` set (tr_open p') = pa_name ` set applied"
  proof
    show "fst ` set (tr_open p') \<subseteq> pa_name ` set applied" unfolding p' by auto
    show "pa_name ` set applied \<subseteq> fst ` set (tr_open p')"
      using sp unfolding p' by (force simp: image_iff)
  qed
  moreover have "tracker_inv p'"
    unfolding tracker_inv_def
  proof (intro conjI)
    show "distinct (map fst (tr_open p'))" "distinct (map snd (tr_open p'))"
      unfolding p' using d by (simp_all add: distinct_map_filter)
    show "\<forall>(n, i) \<in> set (tr_open p'). i < length (tr_recs p') \<and> pt_name (tr_recs p' ! i) = n \<and> pt_lifted (tr_recs p' ! i) = 0"
    proof (clarify)
      fix n i
      assume "(n, i) \<in> set (tr_open p')"
      then have m: "(n, i) \<in> set (tr_open ?q)" "n \<in> pa_name ` set applied" unfolding p' by auto
      have "length (tr_recs p') = length (tr_recs ?q)" unfolding p' by (simp add: lift_all_nth(2))
      with keep [OF m] m(1) inv show "i < length (tr_recs p') \<and> pt_name (tr_recs p' ! i) = n \<and> pt_lifted (tr_recs p' ! i) = 0"
        by (auto simp: tracker_inv_def)
    qed
  qed
  moreover have "\<forall>a \<in> set applied. \<exists>i. (pa_name a, i) \<in> set (tr_open p') \<and>
      pt_victims (tr_recs p' ! i) = victims_of (pa_groups a) anchor"
  proof
    fix a
    assume a: "a \<in> set applied"
    with sp obtain i where i: "(pa_name a, i) \<in> set (tr_open ?q)"
      "pt_victims (tr_recs ?q ! i) = victims_of (pa_groups a) anchor" by blast
    with a keep [OF i(1)] show "\<exists>i. (pa_name a, i) \<in> set (tr_open p') \<and>
        pt_victims (tr_recs p' ! i) = victims_of (pa_groups a) anchor"
      unfolding p' by (intro exI [of _ i]) auto
  qed
  ultimately show ?thesis by blast
qed

text \<open>A run of polls: at each the slot and what the emulator answered.\<close>

fun track_run :: "(string \<Rightarrow> string) \<Rightarrow> int \<Rightarrow> (u64 \<times> (disruptoor_error + partition_spec list)) list \<Rightarrow> tracker \<Rightarrow> tracker" where
  "track_run classify anchor [] p = p"
| "track_run classify anchor ((now, ans) # polls) p =
     track_run classify anchor polls (fst (track_poll classify anchor now ans p))"

definition named_apart :: "(u64 \<times> (disruptoor_error + partition_spec list)) \<Rightarrow> bool" where
  "named_apart x \<longleftrightarrow> (\<forall>applied. snd x = Inr applied \<longrightarrow> distinct (map pa_name applied))"

lemma track_run_inv:
  "tracker_inv p \<Longrightarrow> list_all named_apart polls \<Longrightarrow> tracker_inv (track_run classify anchor polls p)"
proof (induction classify anchor polls p rule: track_run.induct)
  case (2 classify anchor now ans polls p)
  have "tracker_inv (fst (track_poll classify anchor now ans p))"
  proof (cases ans)
    case (Inr applied)
    with "2.prems"(2) have "distinct (map pa_name applied)" by (simp add: named_apart_def)
    obtain p' e where "track_poll classify anchor now (Inr applied) p = (p', e)" by (metis surj_pair)
    with track_poll_spec [OF "2.prems"(1) \<open>distinct (map pa_name applied)\<close> this] Inr show ?thesis by simp
  qed (use "2.prems"(1) in \<open>simp add: track_poll_def\<close>)
  with "2.IH" "2.prems"(2) show ?case by simp
qed simp

lemma track_run_snoc:
  "track_run classify anchor (polls @ [(now, ans)]) p =
     fst (track_poll classify anchor now ans (track_run classify anchor polls p))"
  by (induction classify anchor polls p rule: track_run.induct) simp_all

lemma isolated_by_victims:
  assumes "tracker_inv p" "fst ` set (tr_open p) = pa_name ` set applied"
    and "\<forall>a \<in> set applied. \<exists>i. (pa_name a, i) \<in> set (tr_open p) \<and> pt_victims (tr_recs p ! i) = victims_of (pa_groups a) anchor"
  shows "isolated p node \<longleftrightarrow> (\<exists>a \<in> set applied. node \<in> set (victims_of (pa_groups a) anchor))"
proof
  have d: "distinct (map fst (tr_open p))" using assms(1) by (simp add: tracker_inv_def)
  assume "isolated p node"
  then obtain n i where i: "(n, i) \<in> set (tr_open p)" "node \<in> set (pt_victims (tr_recs p ! i))"
    by (auto simp: isolated_def list_ex_iff)
  from i(1) have "n \<in> fst ` set (tr_open p)" by (rule image_eqI [rotated]) simp
  then have "n \<in> pa_name ` set applied" unfolding assms(2) .
  then obtain a where a: "a \<in> set applied" "n = pa_name a" by blast
  with assms(3) obtain j where "(pa_name a, j) \<in> set (tr_open p)" "pt_victims (tr_recs p ! j) = victims_of (pa_groups a) anchor"
    by blast
  moreover from calculation(1) i(1) a(2) d have "j = i" by (metis eq_key_imp_eq_value)
  ultimately show "\<exists>a \<in> set applied. node \<in> set (victims_of (pa_groups a) anchor)"
    using i(2) a(1) by auto
next
  assume "\<exists>a \<in> set applied. node \<in> set (victims_of (pa_groups a) anchor)"
  with assms(3) obtain n i where "(n, i) \<in> set (tr_open p)" "node \<in> set (pt_victims (tr_recs p ! i))"
    by metis
  then show "isolated p node" unfolding isolated_def list_ex_iff by (intro bexI [of _ "(n, i)"]) simp_all
qed

text \<open>What the emulator answered last, nothing while it has not answered.\<close>

fun last_answer :: "partition_spec list \<Rightarrow> (u64 \<times> (disruptoor_error + partition_spec list)) list \<Rightarrow> partition_spec list" where
  "last_answer applied [] = applied"
| "last_answer applied ((now, Inl e) # polls) = last_answer applied polls"
| "last_answer applied ((now, Inr applied') # polls) = last_answer applied' polls"

lemma last_answer_snoc:
  "last_answer applied (polls @ [(now, ans)]) = (case ans of Inl _ \<Rightarrow> last_answer applied polls | Inr a \<Rightarrow> a)"
  by (induction applied polls rule: last_answer.induct) (auto split: sum.splits)

text \<open>C33: After any run of polls of an emulator that names each partition once in an answer, failed
  polls among them and at the end too, a node is shown isolated exactly when it is on the isolated
  side of a partition of the last answer, and exactly the partitions of that answer are open: a
  failed poll leaves them as they were.\<close>

theorem isolated_exact:
  assumes "list_all named_apart polls"
  shows "(isolated (track_run classify anchor polls new_tracker) node \<longleftrightarrow>
      (\<exists>a \<in> set (last_answer [] polls). node \<in> set (victims_of (pa_groups a) anchor))) \<and>
    fst ` set (tr_open (track_run classify anchor polls new_tracker)) = pa_name ` set (last_answer [] polls)"
proof -
  let ?run = "\<lambda>ps. track_run classify anchor ps new_tracker"
  have new: "tracker_inv new_tracker" by (simp add: tracker_inv_def new_tracker_def)
  have "fst ` set (tr_open (?run polls)) = pa_name ` set (last_answer [] polls) \<and>
    (\<forall>a \<in> set (last_answer [] polls). \<exists>i. (pa_name a, i) \<in> set (tr_open (?run polls)) \<and>
       pt_victims (tr_recs (?run polls) ! i) = victims_of (pa_groups a) anchor)"
    using assms
  proof (induction polls rule: rev_induct)
    case Nil
    then show ?case by (simp add: new_tracker_def)
  next
    case (snoc x polls)
    obtain now ans where x: "x = (now, ans)" by (cases x)
    show ?case
    proof (cases ans)
      case (Inl e)
      with snoc show ?thesis by (simp add: x track_run_snoc last_answer_snoc track_poll_def)
    next
      case (Inr applied)
      from snoc.prems x Inr have d: "distinct (map pa_name applied)" by (simp add: named_apart_def)
      have "list_all named_apart polls" using snoc.prems by simp
      from track_run_inv [OF new this] have inv: "tracker_inv (?run polls)" .
      obtain p e where p: "track_poll classify anchor now (Inr applied) (?run polls) = (p, e)" by (metis surj_pair)
      have e: "?run (polls @ [x]) = p" "last_answer [] (polls @ [x]) = applied"
        using p by (simp_all add: x Inr track_run_snoc last_answer_snoc)
      show ?thesis unfolding e using track_poll_spec [OF inv d p] by blast
    qed
  qed
  then have o: "fst ` set (tr_open (?run polls)) = pa_name ` set (last_answer [] polls)"
    and r: "\<forall>a \<in> set (last_answer [] polls). \<exists>i. (pa_name a, i) \<in> set (tr_open (?run polls)) \<and>
       pt_victims (tr_recs (?run polls) ! i) = victims_of (pa_groups a) anchor" by (rule conjunct1, rule conjunct2)
  show ?thesis by (rule conjI [OF isolated_by_victims [OF track_run_inv [OF new assms] o r] o])
qed

theorem isolated_exact_witness:
  "isolated (track_run (classifier []) 1 [(7, Inr [\<lparr>pa_name = ''short'', pa_groups = [[1, 2, 3, 4], [5]]\<rparr>]),
      (8, Inl (Transport ''down'')), (9, Inr [\<lparr>pa_name = ''deep'', pa_groups = [[1, 4, 5], [2, 3]]\<rparr>]),
      (10, Inl (Transport ''down''))] new_tracker) 3"
  using isolated_exact [of "[(7, Inr [\<lparr>pa_name = ''short'', pa_groups = [[1, 2, 3, 4], [5]]\<rparr>]),
      (8, Inl (Transport ''down'')), (9, Inr [\<lparr>pa_name = ''deep'', pa_groups = [[1, 4, 5], [2, 3]]\<rparr>]),
      (10, Inl (Transport ''down''))]" "classifier []" 1 3]
  by (simp add: named_apart_def victims_of_def)

end
