(* ===== verification/MonLifecycle.thy ===== *)
theory MonLifecycle
  imports MonPoll SwapGate
begin

text \<open>
  The offline lap as the monitor sees it (\<open>cmd/migration-monitor/lifecycle.go\<close>): the steps the
  swap service pushes, the steps derived from a consumer's own cursor, which nodes are quiet,
  and the restart a reconnected node is owed. A step travels as its string; an absent one is
  \<open>None\<close>. The feature being off, a nil pointer in Go, is \<open>None\<close> too. The mutex makes each
  operation one step.
\<close>

section \<open>Steps\<close>

definition step_name :: "lifecycle_step \<Rightarrow> string" where
  "step_name s = (case s of
     StepExporting \<Rightarrow> ''exporting'' | StepExported \<Rightarrow> ''exported'' | StepExportFailed \<Rightarrow> ''export_failed''
   | StepPending \<Rightarrow> ''pending'' | StepDisconnecting \<Rightarrow> ''disconnecting'' | StepImporting \<Rightarrow> ''importing''
   | StepReconnecting \<Rightarrow> ''reconnecting'' | StepReplaying \<Rightarrow> ''replaying'' | StepCaughtUp \<Rightarrow> ''caught_up''
   | StepFailed \<Rightarrow> ''failed'' | StepTimeout \<Rightarrow> ''timeout'' | StepSkipped \<Rightarrow> ''skipped''
   | StepNoImporter \<Rightarrow> ''no_importer'')"

abbreviation "producer_steps \<equiv> [StepExporting, StepExported, StepExportFailed]"
abbreviation "consumer_steps \<equiv> [StepPending, StepDisconnecting, StepImporting, StepReconnecting,
  StepReplaying, StepCaughtUp, StepFailed, StepTimeout, StepSkipped]"
abbreviation "quiet_steps \<equiv> [StepDisconnecting, StepImporting, StepReconnecting, StepReplaying]"

definition find_step :: "lifecycle_step list \<Rightarrow> string \<Rightarrow> lifecycle_step option" where
  "find_step steps s = List.find (\<lambda>x. step_name x = s) steps"

section \<open>State\<close>

record lifecycle =
  lc_producer :: bool
  lc_producer_step :: "lifecycle_step option"
  lc_importer :: "lifecycle_step option"
  lc_reason :: string
  lc_since :: int
  lc_anchor :: u64
  lc_hash :: string
  lc_detail :: detail

definition new_lifecycle :: lifecycle where
  "new_lifecycle = \<lparr>lc_producer = False, lc_producer_step = None, lc_importer = None, lc_reason = '''',
     lc_since = 0, lc_anchor = 0, lc_hash = '''', lc_detail = no_detail\<rparr>"

record offline_state =
  ol_names :: "string list"
  ol_nodes :: "int \<rightharpoonup> lifecycle"
  ol_swaps :: "int list"
  ol_source :: "int \<rightharpoonup> int"
  ol_reset :: "int set"

definition known_node :: "string list \<Rightarrow> int \<Rightarrow> bool" where
  "known_node svs n \<longleftrightarrow> 1 \<le> n \<and> n \<le> int (length svs)"

definition lc_of :: "offline_state \<Rightarrow> int \<Rightarrow> lifecycle" where
  "lc_of s n = (case ol_nodes s n of None \<Rightarrow> new_lifecycle | Some lc \<Rightarrow> lc)"

definition put_lc :: "offline_state \<Rightarrow> int \<Rightarrow> lifecycle \<Rightarrow> offline_state" where
  "put_lc s n lc = s\<lparr>ol_nodes := (ol_nodes s)(n \<mapsto> lc)\<rparr>"

fun seed_producer_views :: "offline_producer list \<Rightarrow> offline_state \<Rightarrow> int + offline_state" where
  "seed_producer_views [] s = Inr s"
| "seed_producer_views (p # ps) s =
     (if \<not> known_node (ol_names s) (op_node p) then Inl (op_node p)
      else
        let s = put_lc s (op_node p) ((lc_of s (op_node p))\<lparr>lc_producer := True\<rparr>)
        in seed_producer_views ps
             (s\<lparr>ol_source := foldl (\<lambda>m c. m(c \<mapsto> op_node p)) (ol_source s) (op_consumers p)\<rparr>))"

fun seed_consumer_views :: "offline_consumer list \<Rightarrow> offline_state \<Rightarrow> int + offline_state" where
  "seed_consumer_views [] s = Inr s"
| "seed_consumer_views (c # cs) s =
     (if \<not> known_node (ol_names s) (oc_node c) then Inl (oc_node c)
      else
        let s = put_lc s (oc_node c) ((lc_of s (oc_node c))\<lparr>lc_importer := Some StepPending\<rparr>)
        in seed_consumer_views cs (s\<lparr>ol_swaps := ol_swaps s @ [oc_node c]\<rparr>))"

fun seed_online_views :: "(int \<times> string) list \<Rightarrow> offline_state \<Rightarrow> int + offline_state" where
  "seed_online_views [] s = Inr s"
| "seed_online_views ((n, reason) # ns) s =
     (if \<not> known_node (ol_names s) n then Inl n
      else seed_online_views ns
        (put_lc s n ((lc_of s n)\<lparr>lc_importer := Some StepNoImporter, lc_reason := reason\<rparr>)))"

datatype offline_error = BadJson string | NotParticipant int

text \<open>\<open>parseOffline\<close>; \<open>None\<close> is the empty flag, otherwise what its JSON decodes to.\<close>

definition parse_offline :: "(string + offline) option \<Rightarrow> string list \<Rightarrow> offline_error + offline_state option" where
  "parse_offline raw svs =
     (case raw of
        None \<Rightarrow> Inr None
      | Some (Inl e) \<Rightarrow> Inl (BadJson e)
      | Some (Inr cfg) \<Rightarrow>
          if \<not> of_enabled cfg then Inr None
          else
            (case seed_producer_views (of_producers cfg)
                    \<lparr>ol_names = svs, ol_nodes = Map.empty, ol_swaps = [], ol_source = Map.empty, ol_reset = {}\<rparr> of
               Inl n \<Rightarrow> Inl (NotParticipant n)
             | Inr s \<Rightarrow>
                 (case seed_consumer_views (of_consumers cfg) s of
                    Inl n \<Rightarrow> Inl (NotParticipant n)
                  | Inr s \<Rightarrow>
                      (case seed_online_views (of_online_only cfg) s of
                         Inl n \<Rightarrow> Inl (NotParticipant n)
                       | Inr s \<Rightarrow> Inr (Some s)))))"

section \<open>Operations\<close>

definition anchor_of :: "offline_state \<Rightarrow> int \<Rightarrow> u64 \<times> string" where
  "anchor_of s n =
     (let own = (case ol_nodes s n of Some lc \<Rightarrow> if lc_anchor lc \<noteq> 0 then Some (lc_anchor lc, lc_hash lc) else None
                 | None \<Rightarrow> None)
      in (case own of
            Some a \<Rightarrow> a
          | None \<Rightarrow>
              (case ol_nodes s (case ol_source s n of Some p \<Rightarrow> p | None \<Rightarrow> 0) of
                 Some p \<Rightarrow> (lc_anchor p, lc_hash p)
               | None \<Rightarrow> (0, ''''))))"

definition lifecycle_event :: "offline_state \<Rightarrow> int \<Rightarrow> lifecycle_step \<Rightarrow> detail \<Rightarrow> event" where
  "lifecycle_event s n step d =
     (mk_event EvLifecycle (ol_names s ! nat (n - 1)) d)
       \<lparr>ev_phase := step_name step, ev_number := fst (anchor_of s n), ev_hash := snd (anchor_of s n)\<rparr>"

datatype push_error = UnknownNode int | UnknownStep string

definition apply_step ::
  "offline_state \<Rightarrow> int \<Rightarrow> int \<Rightarrow> string \<Rightarrow> u64 \<Rightarrow> string \<Rightarrow> detail \<Rightarrow>
     push_error + offline_state \<times> event list"
where
  "apply_step s now n step anchor hash d =
     (if \<not> known_node (ol_names s) n then Inl (UnknownNode n)
      else
        let lc = (if anchor \<noteq> 0 then (lc_of s n)\<lparr>lc_anchor := anchor, lc_hash := hash\<rparr> else lc_of s n)
        in (case (find_step producer_steps step, find_step consumer_steps step) of
              (None, None) \<Rightarrow> Inl (UnknownStep step)
            | (Some p, _) \<Rightarrow>
                let s = put_lc s n (lc\<lparr>lc_producer := True, lc_producer_step := Some p, lc_since := now, lc_detail := d\<rparr>)
                in Inr (s, [lifecycle_event s n p d])
            | (None, Some c) \<Rightarrow>
                let reset = (if c = StepReconnecting \<and> lc_importer lc \<noteq> Some c
                             then insert n (ol_reset s) else ol_reset s);
                    s = put_lc (s\<lparr>ol_reset := reset\<rparr>) n (lc\<lparr>lc_importer := Some c, lc_since := now, lc_detail := d\<rparr>)
                in Inr (s, [lifecycle_event s n c d])))"

definition take_reset :: "offline_state option \<Rightarrow> int \<Rightarrow> bool \<times> offline_state option" where
  "take_reset s n =
     (case s of None \<Rightarrow> (False, None)
      | Some s \<Rightarrow> (n \<in> ol_reset s, Some (s\<lparr>ol_reset := ol_reset s - {n}\<rparr>)))"

definition quiet :: "offline_state option \<Rightarrow> int \<Rightarrow> bool" where
  "quiet s n =
     (case s of None \<Rightarrow> False
      | Some s \<Rightarrow> (case ol_nodes s n of None \<Rightarrow> False
          | Some lc \<Rightarrow> (\<exists>q \<in> set quiet_steps. lc_importer lc = Some q) \<or>
                       lc_producer_step lc = Some StepExporting))"

definition derive_step ::
  "offline_state option \<Rightarrow> int \<Rightarrow> int \<Rightarrow> node_state \<Rightarrow> u64 \<Rightarrow> offline_state option \<times> event list"
where
  "derive_step so now n ns tip =
     (case (so, nd_head ns, nd_progress ns) of
        (Some s, Some head, Some p) \<Rightarrow>
          (case mp_binary p of
             None \<Rightarrow> (so, [])
           | Some b \<Rightarrow>
               (case ol_nodes s n of
                  None \<Rightarrow> (so, [])
                | Some lc \<Rightarrow>
                    if n \<in> ol_reset s \<or>
                       lc_importer lc \<noteq> Some StepReconnecting \<and> lc_importer lc \<noteq> Some StepReplaying then (so, [])
                    else
                      let tip = (if nd_last_head ns < tip then tip else nd_last_head ns);
                          step = (if dp_cursor b + CaughtUpLag < tip then StepReplaying else StepCaughtUp)
                      in if Some step = lc_importer lc then (so, [])
                         else
                           let d = Fmt ''binary cursor %d, tip %d'' [du (dp_cursor b), du tip];
                               s = put_lc s n (lc\<lparr>lc_importer := Some step, lc_since := now, lc_detail := d\<rparr>)
                           in (Some s, [lifecycle_event s n step d])))
      | _ \<Rightarrow> (so, []))"

text \<open>What \<open>fill\<close> copies into a node's view.\<close>

definition fill_view :: "offline_state option \<Rightarrow> int \<Rightarrow> (lifecycle \<times> u64) option" where
  "fill_view so n =
     (case so of None \<Rightarrow> None
      | Some s \<Rightarrow> map_option (\<lambda>lc. (lc, fst (anchor_of s n))) (ol_nodes s n))"

definition anchor_marks :: "offline_state \<Rightarrow> (int \<times> u64 \<times> string) list" where
  "anchor_marks s =
     concat (map (\<lambda>n. case ol_nodes s n of
         Some lc \<Rightarrow> if lc_producer lc \<and> lc_anchor lc \<noteq> 0 then [(n, lc_anchor lc, lc_hash lc)] else []
       | None \<Rightarrow> []) [1..int (length (ol_names s))])"

definition swap_views :: "offline_state \<Rightarrow> (int \<times> int \<times> lifecycle_step option \<times> u64 \<times> int) list" where
  "swap_views s =
     map (\<lambda>n. (n, case ol_source s n of Some p \<Rightarrow> p | None \<Rightarrow> 0, lc_importer (lc_of s n),
               fst (anchor_of s n), lc_since (lc_of s n))) (ol_swaps s)"

text \<open>\<open>lifecycleHandler\<close>: the body as it decodes, the status it answers.\<close>

definition lifecycle_post ::
  "offline_state \<Rightarrow> int \<Rightarrow> string + (int \<times> string \<times> u64 \<times> string \<times> string) \<Rightarrow> offline_state \<times> event list \<times> nat"
where
  "lifecycle_post s now body =
     (case body of
        Inl _ \<Rightarrow> (s, [], 400)
      | Inr (n, step, anchor, hash, d) \<Rightarrow>
          (case apply_step s now n step anchor hash (lit d) of
             Inl _ \<Rightarrow> (s, [], 400)
           | Inr (s', evs) \<Rightarrow> (s', evs, 204)))"

section \<open>One node's turn of the poll loop\<close>

text \<open>\<open>main\<close>'s \<open>doPoll\<close> for one node: the restart it is owed, its poll, its derived step.\<close>

definition poll_node ::
  "poll_answers \<Rightarrow> u64 \<Rightarrow> int \<Rightarrow> u64 \<Rightarrow> offline_state option \<times> node_state \<times> quorum \<times> resample_queue \<Rightarrow> int \<Rightarrow>
     (offline_state option \<times> node_state \<times> quorum \<times> resample_queue) \<times> event list"
where
  "poll_node an t n tip st now =
     (case st of
        (so, ns, q, rq) \<Rightarrow>
          (case take_reset so n of
             (owed, so) \<Rightarrow>
               (case poll_once an t (if owed then reset_node ns else ns) q rq of
                  (ns, q, rq, e1) \<Rightarrow>
                    (case derive_step so now n ns (if n = 1 then nd_last_head ns else tip) of
                       (so, e2) \<Rightarrow> ((so, ns, q, rq), e1 @ e2)))))"

lemma check_fork_block_fields:
  "check_fork_block an ns q rq = (ns', q', rq', evs) \<Longrightarrow>
    nd_head ns' = nd_head ns \<and> nd_last_head ns' = nd_last_head ns \<and> nd_progress ns' = nd_progress ns"
  by (auto simp: check_fork_block_def Let_def split: option.splits if_splits prod.splits sum.splits)

lemma probe_fork_block_fields:
  "probe_fork_block an t head ns q = (ns', q', evs) \<Longrightarrow>
    nd_head ns' = nd_head ns \<and> nd_last_head ns' = nd_last_head ns \<and> nd_progress ns' = nd_progress ns"
  by (auto simp: probe_fork_block_def Let_def split: option.splits if_splits prod.splits sum.splits)

lemma poll_head_fields:
  "poll_head an t prog head ns q rq = (ns', q', rq', evs) \<Longrightarrow>
    nd_head ns' = Some head \<and> nd_last_head ns' = head \<and> nd_progress ns' = nd_progress ns"
  (is "_ \<Longrightarrow> ?thesis")
proof -
  assume eq: "poll_head an t prog head ns q rq = (ns', q', rq', evs)"
  define ns0 where "ns0 = ns\<lparr>nd_head := Some head, nd_last_head := head\<rparr>"
  obtain ns1 q1 rq1 e1 where c: "check_fork_block an ns0 q rq = (ns1, q1, rq1, e1)" by (metis prod.exhaust)
  obtain ns2 q2 e2 where p: "probe_fork_block an t head ns1 q1 = (ns2, q2, e2)" by (metis prod.exhaust)
  obtain tm e3 where o: "(case prog of None \<Rightarrow> (nd_timeline ns2, []) | Some p \<Rightarrow> observe_poll (nd_timeline ns2) p head) = (tm, e3)"
    by (metis surj_pair)
  from eq c p o have "ns' = fst (check_done_final (case prog of None \<Rightarrow> False | Some p \<Rightarrow> mp_phase p = PhaseDone) (ns2\<lparr>nd_timeline := tm\<rparr>))"
    by (auto simp: poll_head_def ns0_def [symmetric] Let_def split: prod.splits)
  then show ?thesis
    using check_fork_block_fields [OF c] probe_fork_block_fields [OF p] by (simp add: check_done_final_def Let_def ns0_def)
qed

lemma poll_once_reading:
  assumes "poll_once an t ns q rq = (ns', q', rq', evs)" "nd_head ns = None" "nd_progress ns = None"
    and "nd_head ns' = Some h" "nd_progress ns' = Some p"
  shows "an_head an = Inr h \<and> nd_last_head ns' = h \<and> (\<exists>d. an_fetch an = Inr d \<and> decode_progress d = Inr p)"
  using assms
  by (auto simp: poll_once_def warn_down_def clear_down_def Let_def
      split: if_splits sum.splits prod.splits option.splits dest!: poll_head_fields)

text \<open>A consumer that has just reconnected is never taken for caught up on what was read before
  its stop: whenever a turn of the loop that owes the node its restart also moves its step, the
  move rests on a head and a cursor read in that very turn, and it is to caught up exactly when
  the chain tip is within two blocks of that cursor.\<close>

theorem reconnect_reads_afresh:
  assumes "poll_node an t n tip (Some s, ns, q, rq) now = ((Some s', ns', q', rq'), evs)"
    and "n \<in> ol_reset s" "map_option lc_importer (ol_nodes s' n) \<noteq> map_option lc_importer (ol_nodes s n)"
  shows "\<exists>h d p b. an_head an = Inr h \<and> an_fetch an = Inr d \<and> decode_progress d = Inr p \<and> mp_binary p = Some b \<and>
    map_option lc_importer (ol_nodes s' n) =
      Some (Some (if dp_cursor b + 2 < max h (if n = 1 then h else tip) then StepReplaying else StepCaughtUp))"
proof -
  obtain ns1 q1 rq1 e1 where po: "poll_once an t (reset_node ns) q rq = (ns1, q1, rq1, e1)" by (metis prod.exhaust)
  let ?s = "s\<lparr>ol_reset := ol_reset s - {n}\<rparr>"
  let ?tip = "if n = 1 then nd_last_head ns1 else tip"
  from assms(1,2) po obtain e2 where de: "derive_step (Some ?s) now n ns1 ?tip = (Some s', e2)"
    by (auto simp: poll_node_def take_reset_def split: prod.splits)
  from de assms(3) obtain h p b where f: "nd_head ns1 = Some h" "nd_progress ns1 = Some p" "mp_binary p = Some b"
    and im: "map_option lc_importer (ol_nodes s' n) =
      Some (Some (if dp_cursor b + 2 < (if nd_last_head ns1 < ?tip then ?tip else nd_last_head ns1)
        then StepReplaying else StepCaughtUp))"
    by (auto simp: derive_step_def Let_def put_lc_def split: option.splits if_splits)
  have "nd_head (reset_node ns) = None" "nd_progress (reset_node ns) = None" by (simp_all add: reset_node_def)
  from poll_once_reading [OF po this f(1,2)] obtain d where
    "an_head an = Inr h" "nd_last_head ns1 = h" "an_fetch an = Inr d" "decode_progress d = Inr p" by blast
  with f(3) im show ?thesis by (auto simp: max_def not_le not_less)
qed

section \<open>After a swap\<close>

text \<open>What reaches the monitor's lifecycle: a push, a derived step, a taken restart.\<close>

datatype lifecycle_op = Push int post | Derive int int node_state u64 | TakeReset int

fun lifecycle_apply :: "lifecycle_op \<Rightarrow> offline_state \<Rightarrow> offline_state" where
  "lifecycle_apply (Push now (n, st, anchor, hash, d)) s =
     (case apply_step s now n (step_name st) anchor hash d of Inl _ \<Rightarrow> s | Inr (s', _) \<Rightarrow> s')"
| "lifecycle_apply (Derive now n ns tip) s =
     (case derive_step (Some s) now n ns tip of (Some s', _) \<Rightarrow> s' | (None, _) \<Rightarrow> s)"
| "lifecycle_apply (TakeReset n) s = (case snd (take_reset (Some s) n) of Some s' \<Rightarrow> s' | None \<Rightarrow> s)"

fun pushes_to :: "int \<Rightarrow> lifecycle_op list \<Rightarrow> lifecycle_step list" where
  "pushes_to n [] = []"
| "pushes_to n (Push now p # ops) = (if fst p = n then step_of p # pushes_to n ops else pushes_to n ops)"
| "pushes_to n (_ # ops) = pushes_to n ops"

lemma pushes_to_append [simp]: "pushes_to n (xs @ ys) = pushes_to n xs @ pushes_to n ys"
  by (induction xs rule: pushes_to.induct) auto

lemma find_step_name [simp]:
  "find_step producer_steps (step_name st) = (if st \<in> set producer_steps then Some st else None)"
  "find_step consumer_steps (step_name st) = (if st \<in> set consumer_steps then Some st else None)"
  by (cases st; simp add: find_step_def step_name_def)+

definition stays :: "lifecycle_step \<Rightarrow> lifecycle_step set" where
  "stays st = (if st = StepReconnecting \<or> st = StepReplaying
     then {StepReconnecting, StepReplaying, StepCaughtUp} else {st})"

definition lc_is :: "offline_state \<Rightarrow> int \<Rightarrow> lifecycle_step \<Rightarrow> bool" where
  "lc_is s n st \<longleftrightarrow> (\<exists>lc i. ol_nodes s n = Some lc \<and> lc_importer lc = Some i \<and> i \<in> stays st \<and>
     lc_producer_step lc \<noteq> Some StepExporting)"

lemma apply_consumer:
  assumes "known_node (ol_names s) n" "st \<in> set consumer_steps"
  shows "\<exists>s' evs lc. apply_step s now n (step_name st) a h d = Inr (s', evs) \<and> ol_names s' = ol_names s \<and>
    ol_nodes s' n = Some lc \<and> lc_importer lc = Some st \<and> lc_producer_step lc = lc_producer_step (lc_of s n)"
proof -
  have "st \<notin> set producer_steps" using assms(2) by auto
  with assms show ?thesis by (auto simp: apply_step_def Let_def put_lc_def)
qed

lemma apply_other:
  "apply_step s now m x a h d = Inr (s', evs) \<Longrightarrow> m \<noteq> n \<Longrightarrow> ol_names s' = ol_names s \<and> ol_nodes s' n = ol_nodes s n"
  by (auto simp: apply_step_def Let_def put_lc_def split: option.splits if_splits)

lemma derive_keeps:
  assumes "derive_step (Some s) now m ns tip = (so, evs)"
  shows "\<exists>s'. so = Some s' \<and> ol_names s' = ol_names s \<and>
    (ol_nodes s' n = ol_nodes s n \<or>
     (\<exists>lc lc'. ol_nodes s n = Some lc \<and> ol_nodes s' n = Some lc' \<and> lc_producer_step lc' = lc_producer_step lc \<and>
       lc_importer lc \<in> {Some StepReconnecting, Some StepReplaying} \<and>
       lc_importer lc' \<in> {Some StepReplaying, Some StepCaughtUp}))"
  using assms
  by (auto simp: derive_step_def Let_def put_lc_def split: option.splits if_splits)

lemma lifecycle_run_is:
  assumes "known_node (ol_names s) n" "lc_producer_step (lc_of s n) \<noteq> Some StepExporting"
    and "\<forall>st \<in> set (pushes_to n ops). st \<in> set consumer_steps"
  shows "ol_names (fold lifecycle_apply ops s) = ol_names s \<and>
    lc_producer_step (lc_of (fold lifecycle_apply ops s) n) \<noteq> Some StepExporting \<and>
    (pushes_to n ops \<noteq> [] \<longrightarrow> lc_is (fold lifecycle_apply ops s) n (last (pushes_to n ops)))"
  using assms
proof (induction ops rule: rev_induct)
  case (snoc x ops)
  let ?s = "fold lifecycle_apply ops s"
  from snoc.prems(3) have p: "\<forall>st \<in> set (pushes_to n ops). st \<in> set consumer_steps" by simp
  note IH = snoc.IH [OF snoc.prems(1,2) p]
  show ?case
  proof (cases x)
    case (Push now p)
    obtain m st a h d where pst: "p = (m, st, a, h, d)" by (metis prod.exhaust)
    show ?thesis
    proof (cases "m = n")
      case True
      then have "st \<in> set consumer_steps" using snoc.prems(3) Push pst by (auto simp: step_of_def)
      moreover have "known_node (ol_names ?s) n" using IH snoc.prems(1) by simp
      ultimately obtain s' evs lc where "apply_step ?s now n (step_name st) a h d = Inr (s', evs)"
        "ol_names s' = ol_names ?s" "ol_nodes s' n = Some lc" "lc_importer lc = Some st"
        "lc_producer_step lc = lc_producer_step (lc_of ?s n)"
        using apply_consumer by metis
      with IH Push pst True show ?thesis by (simp add: lc_is_def stays_def lc_of_def)
    next
      case False
      show ?thesis
      proof (cases "apply_step ?s now m (step_name st) a h d")
        case (Inr r)
        obtain s' evs where "r = (s', evs)" by (cases r)
        with Inr apply_other [of ?s now m "step_name st" a h d s' evs n] IH Push pst False show ?thesis
          by (simp add: lc_is_def lc_of_def)
      qed (use IH Push pst False in simp)
    qed
  next
    case (Derive now m ns tip)
    obtain so evs where d: "derive_step (Some ?s) now m ns tip = (so, evs)" by (metis surj_pair)
    from derive_keeps [OF d, of n] obtain s' where s': "so = Some s'" "ol_names s' = ol_names ?s"
      and k: "ol_nodes s' n = ol_nodes ?s n \<or>
        (\<exists>lc lc'. ol_nodes ?s n = Some lc \<and> ol_nodes s' n = Some lc' \<and> lc_producer_step lc' = lc_producer_step lc \<and>
          lc_importer lc \<in> {Some StepReconnecting, Some StepReplaying} \<and>
          lc_importer lc' \<in> {Some StepReplaying, Some StepCaughtUp})" by blast
    have f: "fold lifecycle_apply (ops @ [x]) s = s'" using d s'(1) Derive by simp
    from k show ?thesis
    proof
      assume "ol_nodes s' n = ol_nodes ?s n"
      with IH s'(2) Derive show ?thesis unfolding f by (simp add: lc_of_def lc_is_def)
    next
      assume "\<exists>lc lc'. ol_nodes ?s n = Some lc \<and> ol_nodes s' n = Some lc' \<and> lc_producer_step lc' = lc_producer_step lc \<and>
          lc_importer lc \<in> {Some StepReconnecting, Some StepReplaying} \<and>
          lc_importer lc' \<in> {Some StepReplaying, Some StepCaughtUp}"
      with IH s'(2) Derive show ?thesis unfolding f
        by (auto simp: lc_of_def lc_is_def stays_def split: if_splits)
    qed
  next
    case (TakeReset m)
    with IH show ?thesis by (simp add: take_reset_def lc_of_def lc_is_def)
  qed
qed simp

text \<open>C34: A finished swap never leaves its node muted: once the steps a swap posted have all
  reached the monitor, in whatever interleaving with derived steps, restarts and other nodes'
  pushes, the node is quiet no longer, whether the swap succeeded, failed or timed out.\<close>

theorem finished_swap_unmutes:
  assumes "swap_body c sw prd env = (sw', posts, Some st)"
    and "known_node (ol_names s) n" "lc_producer_step (lc_of s n) \<noteq> Some StepExporting"
    and "pushes_to n ops = map step_of posts"
  shows "\<not> quiet (Some (fold lifecycle_apply ops s)) n"
proof -
  from swap_body_ends [OF assms(1)] have l: "legal_steps st (map step_of posts)" by blast
  then have c: "\<forall>x \<in> set (map step_of posts). x \<in> set consumer_steps" by (auto simp: legal_steps_def)
  from l have ne: "map step_of posts \<noteq> []" by (auto simp: legal_steps_def)
  from l have "last (map step_of posts) \<in> {StepCaughtUp, StepFailed, StepTimeout}" by (auto simp: legal_steps_def)
  moreover have "lc_is (fold lifecycle_apply ops s) n (last (map step_of posts))"
    using lifecycle_run_is [OF assms(2,3), of ops] c ne assms(4) by simp
  ultimately show ?thesis by (auto simp: lc_is_def stays_def quiet_def)
qed

theorem finished_swap_unmutes_witness:
  "\<not> quiet (Some (fold lifecycle_apply
     (map (Push 5) (fst (snd (swap_body \<lparr>oc_node = 3, oc_expected = 600, oc_timeout = 900\<rparr>
       (new_swap 3 6) (new_producer \<lparr>op_node = 6, op_kind = ''geth-convert'', op_consumers = [3]\<rparr>)
       \<lparr>be_container_err = None, be_client = ''geth'', be_staging = [None, None, None],
        be_finalized = None, be_stop_err = Some ''busy'', be_stop_at = 1000, be_copy_err = None,
        be_start_at = 0, be_polls = []\<rparr>))))
     \<lparr>ol_names = [''el-1'', ''el-2'', ''el-3''], ol_nodes = Map.empty, ol_swaps = [3], ol_source = Map.empty, ol_reset = {}\<rparr>)) 3"
proof -
  let ?c = "\<lparr>oc_node = 3, oc_expected = 600, oc_timeout = 900\<rparr>"
  let ?p = "new_producer \<lparr>op_node = 6, op_kind = ''geth-convert'', op_consumers = [3]\<rparr>"
  let ?env = "\<lparr>be_container_err = None, be_client = ''geth'', be_staging = [None, None, None],
      be_finalized = None, be_stop_err = Some ''busy'', be_stop_at = 1000, be_copy_err = None,
      be_start_at = 0, be_polls = []\<rparr>"
  let ?s = "\<lparr>ol_names = [''el-1'', ''el-2'', ''el-3''], ol_nodes = Map.empty, ol_swaps = [3], ol_source = Map.empty, ol_reset = {}\<rparr>"
  obtain sw ps st where r: "swap_body ?c (new_swap 3 6) ?p ?env = (sw, ps, st)" by (metis prod.exhaust)
  then have st: "st = Some ''failed''" and ps: "map step_of ps = [StepDisconnecting, StepFailed]" "\<forall>p \<in> set ps. fst p = 3"
    by (auto simp: swap_body_def datadir_for_def first_error_def swap_fail_def then_post_def new_swap_def)
  have "pushes_to 3 (map (Push 5) ps) = map step_of ps" using ps(2) by (induction ps) auto
  from finished_swap_unmutes [OF r [unfolded st] _ _ this, of ?s] r show ?thesis
    by (simp add: known_node_def lc_of_def new_lifecycle_def)
qed

theorem reconnect_reads_afresh_witness:
  "\<exists>an s s' ns' q' rq' evs. poll_node an 1000 3 100 (Some s, new_node_state ''el-3-besu'' True 1000, new_quorum 1000, new_resample_queue) 7 =
       ((Some s', ns', q', rq'), evs) \<and> 3 \<in> ol_reset s \<and>
     map_option lc_importer (ol_nodes s 3) = Some (Some StepReconnecting) \<and>
     map_option lc_importer (ol_nodes s' 3) = Some (Some StepCaughtUp) \<and> (\<exists>h. an_head an = Inr h)"
proof -
  let ?d = "\<lparr>dp_phase = DirFollowing, dp_cursor = 99, dp_cursor_hash = '''', dp_shadow_root = '''', dp_error = ''''\<rparr>"
  let ?an = "\<lparr>an_fetch = Inr (Inr \<lparr>mp_phase = PhaseRunning, mp_binary = Some ?d, mp_merkle = None\<rparr>), an_head = Inr 90,
     an_at = (\<lambda>_. Inl ''''), an_finalized = Inl '''', an_chain = (\<lambda>_. Inl ''''), an_now = tunix 5, an_nodes = []\<rparr>"
  let ?s = "\<lparr>ol_names = [''el-1'', ''el-2'', ''el-3''], ol_nodes = [3 \<mapsto> new_lifecycle\<lparr>lc_importer := Some StepReconnecting\<rparr>],
     ol_swaps = [3], ol_source = Map.empty, ol_reset = {3}\<rparr>"
  let ?ns = "new_node_state ''el-3-besu'' True 1000"
  obtain so ns' q' rq' evs where r: "poll_node ?an 1000 3 100 (Some ?s, ?ns, new_quorum 1000, new_resample_queue) 7 =
       ((so, ns', q', rq'), evs)" by (metis prod.exhaust)
  then obtain s' where s': "so = Some s'" "map_option lc_importer (ol_nodes s' 3) = Some (Some StepCaughtUp)"
    by (auto simp: poll_node_def take_reset_def poll_once_def poll_head_def check_fork_block_def probe_fork_block_def
        find_istar_def fetch_def clear_down_def reset_node_def new_node_state_def new_timeline_def reset_stall_def
        decode_progress_def check_done_final_def derive_step_def put_lc_def Let_def split: prod.splits)
  have "\<exists>h. an_head ?an = Inr h"
    using reconnect_reads_afresh [OF r [unfolded s'(1)]] s'(2) by (auto simp: new_lifecycle_def)
  with r s' show ?thesis
    by (intro exI [of _ ?an] exI [of _ ?s] exI [of _ s'] exI [of _ ns'] exI [of _ q'] exI [of _ rq'] exI [of _ evs] conjI)
       (simp_all add: new_lifecycle_def)
qed


end
