(* ===== verification/Lineage.thy ===== *)
theory Lineage
  imports MonFeeds "HOL-Library.AList"
begin

text \<open>
  The monitor's block store and the branches it derives (\<open>cmd/migration-monitor/lineage.go\<close>). The
  store is a list of blocks with their hash as key; the other Go maps are association lists or
  functions, and loops over a map whose order does not matter follow the list. A segment's id
  \<open>"s<n>"\<close> is its number, an absent one \<open>None\<close>. Go follows parents until one is unknown, without
  a bound; here a walk takes as many steps as the store has blocks, which \<open>ancestry_enough\<close> shows
  to be all of them when block numbers fall by one from a block to its parent.
\<close>

section \<open>State\<close>

record block =
  bl_hash :: string
  bl_parent :: string
  bl_root :: string
  bl_number :: u64
  bl_time :: u64

record segment =
  sg_lane :: int
  sg_ancestor :: string
  sg_first_slot :: u64
  sg_last_slot :: u64
  sg_blocks :: u64
  sg_tip :: string
  sg_orphaned :: bool
  sg_holders :: "int list"
  sg_lost_by :: "int list"

record reorg =
  ro_slot :: u64
  ro_node :: int
  ro_depth :: u64
  ro_added :: u64
  ro_ancestor :: string
  ro_ancestor_number :: u64
  ro_old_head :: string
  ro_new_head :: string
  ro_lost :: "nat option"
  ro_won :: "nat option"
  ro_crosses :: bool

record lineage =
  ln_fork_time :: u64
  ln_slot :: "u64 \<Rightarrow> u64"
  ln_retain :: u64
  ln_anchor :: int
  ln_store :: "block list"
  ln_heads :: "(int \<times> string) list"
  ln_moved :: "(int \<times> string) list"
  ln_off :: "int \<Rightarrow> nat"
  ln_seg_of :: "string \<rightharpoonup> nat"
  ln_recs :: "(nat \<times> segment) list"
  ln_by_first :: "(string \<times> nat) list"
  ln_next :: nat
  ln_log :: "reorg list"
  ln_truncated :: nat

definition new_lineage :: "u64 \<Rightarrow> (u64 \<Rightarrow> u64) \<Rightarrow> u64 \<Rightarrow> int \<Rightarrow> lineage" where
  "new_lineage fork_time slot retain anchor =
     \<lparr>ln_fork_time = fork_time, ln_slot = slot, ln_retain = retain, ln_anchor = anchor, ln_store = [],
      ln_heads = [], ln_moved = [], ln_off = (\<lambda>_. 0), ln_seg_of = Map.empty, ln_recs = [], ln_by_first = [],
      ln_next = 1, ln_log = [], ln_truncated = 0\<rparr>"

definition known :: "block list \<Rightarrow> string \<Rightarrow> block option" where
  "known st h = List.find (\<lambda>b. bl_hash b = h) st"

definition put_block :: "header \<Rightarrow> block list \<Rightarrow> block list" where
  "put_block h st =
     (if known st (h_hash h) \<noteq> None then st
      else st @ [\<lparr>bl_hash = h_hash h, bl_parent = h_parent h, bl_root = h_root h, bl_number = h_number h,
                  bl_time = h_time h\<rparr>])"

text \<open>\<open>extend\<close>: the parents of a head, fetched until one is known; the headers got, newest first,
  and whether the walk failed.\<close>

fun extend_walk ::
  "(string \<Rightarrow> string + header option) \<Rightarrow> nat \<Rightarrow> block \<Rightarrow> block list \<Rightarrow> block list \<times> header list \<times> bool"
where
  "extend_walk fetch 0 cur st = (st, [], False)"
| "extend_walk fetch (Suc n) cur st =
     (if \<not> 0 < bl_number cur \<or> known st (bl_parent cur) \<noteq> None then (st, [], False)
      else
        (case fetch (bl_parent cur) of
           Inr (Some h) \<Rightarrow>
             let st = put_block h st
             in (case extend_walk fetch n (the (known st (h_hash h))) st of
                   (st, got, e) \<Rightarrow> (st, h # got, e))
         | _ \<Rightarrow> (st, [], True)))"

definition extend ::
  "(string \<Rightarrow> string + header option) \<Rightarrow> nat \<Rightarrow> header \<Rightarrow> lineage \<Rightarrow> lineage \<times> header list \<times> bool"
where
  "extend fetch depth head l =
     (let st = put_block head (ln_store l)
      in (case extend_walk fetch depth (the (known st (h_hash head))) st of
            (st, got, e) \<Rightarrow> (l\<lparr>ln_store := st\<rparr>, head # got, e)))"

definition observe_head :: "lineage \<Rightarrow> int \<Rightarrow> string \<Rightarrow> lineage" where
  "observe_head l node head =
     (let prev = map_of (ln_heads l) node
      in if prev = Some head then l
         else l\<lparr>ln_moved := (if map_of (ln_moved l) node = None
                             then AList.update node (case prev of None \<Rightarrow> '''' | Some p \<Rightarrow> p) (ln_moved l)
                             else ln_moved l),
                ln_heads := AList.update node head (ln_heads l)\<rparr>)"

section \<open>Walks\<close>

fun ancestry :: "nat \<Rightarrow> block list \<Rightarrow> string \<Rightarrow> block list" where
  "ancestry 0 st h = []"
| "ancestry (Suc n) st h =
     (case known st h of None \<Rightarrow> [] | Some b \<Rightarrow> b # ancestry n st (bl_parent b))"

definition ancestors :: "block list \<Rightarrow> string \<Rightarrow> block list" where
  "ancestors st h = ancestry (length st) st h"

definition walk_to :: "block list \<Rightarrow> string \<Rightarrow> string list \<Rightarrow> string list" where
  "walk_to st h canonical = takeWhile (\<lambda>x. x \<notin> set canonical) (map bl_hash (ancestors st h))"

definition is_ancestor :: "block list \<Rightarrow> string \<Rightarrow> string \<Rightarrow> bool" where
  "is_ancestor st a b =
     (case known st a of
        None \<Rightarrow> False
      | Some ab \<Rightarrow>
          (case dropWhile (\<lambda>c. bl_number ab < bl_number c) (ancestors st b) of
             [] \<Rightarrow> False
           | c # _ \<Rightarrow> bl_hash c = a))"

fun meet :: "block list \<Rightarrow> block list \<Rightarrow> block option" where
  "meet (x # xs) (y # ys) = (if bl_hash x = bl_hash y then Some x else meet xs ys)"
| "meet _ _ = None"

definition common_ancestor :: "block list \<Rightarrow> string \<Rightarrow> string \<Rightarrow> block option" where
  "common_ancestor st x y =
     (case (ancestors st x, ancestors st y) of
        (bx # _, by # _) \<Rightarrow>
          (case dropWhile (\<lambda>b. bl_number by < bl_number b) (ancestors st x) of
             [] \<Rightarrow> None
           | xs \<Rightarrow> meet xs (dropWhile (\<lambda>b. bl_number (hd xs) < bl_number b) (ancestors st y)))
      | _ \<Rightarrow> None)"

section \<open>Segments\<close>

definition rec_of :: "lineage \<Rightarrow> nat \<Rightarrow> segment" where
  "rec_of l i = the (map_of (ln_recs l) i)"

definition put_rec :: "nat \<Rightarrow> segment \<Rightarrow> lineage \<Rightarrow> lineage" where
  "put_rec i s l = l\<lparr>ln_recs := AList.update i s (ln_recs l)\<rparr>"

definition lane_free :: "segment list \<Rightarrow> u64 \<Rightarrow> int \<Rightarrow> bool" where
  "lane_free recs first_slot lane \<longleftrightarrow>
     \<not> list_ex (\<lambda>s. sg_lane s = lane \<and> (\<not> sg_orphaned s \<or> first_slot \<le> sg_last_slot s + 3)) recs"

definition free_lane :: "segment list \<Rightarrow> u64 \<Rightarrow> int" where
  "free_lane recs first_slot =
     (case List.find (lane_free recs first_slot) [1, -1, 2, -2, 3, -3] of Some lane \<Rightarrow> lane | None \<Rightarrow> 4)"

definition time_of :: "lineage \<Rightarrow> string \<Rightarrow> u64" where
  "time_of l h = (case known (ln_store l) h of None \<Rightarrow> 0 | Some b \<Rightarrow> bl_time b)"

definition number_of :: "lineage \<Rightarrow> string \<Rightarrow> u64" where
  "number_of l h = (case known (ln_store l) h of None \<Rightarrow> 0 | Some b \<Rightarrow> bl_number b)"

definition parent_of :: "lineage \<Rightarrow> string \<Rightarrow> string" where
  "parent_of l h = (case known (ln_store l) h of None \<Rightarrow> '''' | Some b \<Rightarrow> bl_parent b)"

definition segment0 :: segment where
  "segment0 = \<lparr>sg_lane = 0, sg_ancestor = '''', sg_first_slot = 0, sg_last_slot = 0, sg_blocks = 0,
     sg_tip = '''', sg_orphaned = False, sg_holders = [], sg_lost_by = []\<rparr>"

definition segment_id :: "lineage \<Rightarrow> string \<Rightarrow> nat \<times> lineage" where
  "segment_id l first =
     (case map_of (ln_by_first l) first of
        Some i \<Rightarrow> (i, l)
      | None \<Rightarrow>
          let i = ln_next l;
              first_slot = ln_slot l (time_of l first);
              s = segment0\<lparr>sg_lane := free_lane (map snd (ln_recs l)) first_slot, sg_first_slot := first_slot\<rparr>
          in (i, put_rec i s (l\<lparr>ln_next := Suc i, ln_by_first := (first, i) # ln_by_first l\<rparr>)))"

definition assign_segment :: "string list \<Rightarrow> nat \<Rightarrow> lineage \<Rightarrow> lineage" where
  "assign_segment hs i l = l\<lparr>ln_seg_of := (\<lambda>h. if h \<in> set hs then Some i else ln_seg_of l h)\<rparr>"

text \<open>The anchor left the chain it was on: the suffix it abandoned becomes an orphan.\<close>

definition orphan_suffix :: "(int \<times> string) list \<Rightarrow> string list \<Rightarrow> lineage \<Rightarrow> lineage" where
  "orphan_suffix moved canonical l =
     (case map_of (ln_recs l) 0 of
        None \<Rightarrow> l
      | Some s0 \<Rightarrow>
          let old = sg_tip s0; suffix = walk_to (ln_store l) old canonical
          in if old = '''' \<or> old \<in> set canonical \<or> suffix = [] then l
             else
               (case segment_id l (last suffix) of
                  (i, l) \<Rightarrow>
                    let l = assign_segment suffix i l;
                        was = (\<lambda>(n, h). case map_of moved n of Some p \<Rightarrow> p | None \<Rightarrow> h);
                        lost = sort (map fst (filter (\<lambda>nh. ln_seg_of l (was nh) = Some i) (ln_heads l)));
                        relog = map (\<lambda>r. if ro_lost r = Some 0 \<and> ln_seg_of l (ro_old_head r) = Some i
                                          then r\<lparr>ro_lost := Some i\<rparr> else r) (ln_log l)
                    in put_rec i
                         ((rec_of l i)\<lparr>sg_ancestor := parent_of l (last suffix), sg_tip := old,
                             sg_blocks := of_nat (length suffix), sg_last_slot := ln_slot l (time_of l old),
                             sg_orphaned := True, sg_holders := [], sg_lost_by := lost\<rparr>)
                         (l\<lparr>ln_log := relog\<rparr>)))"

text \<open>The canonical segment as of the anchor's head.\<close>

definition spine :: "string \<Rightarrow> string list \<Rightarrow> lineage \<Rightarrow> lineage" where
  "spine tip canonical l =
     (let s0 = (case map_of (ln_recs l) 0 of Some s \<Rightarrow> s | None \<Rightarrow> segment0)
      in put_rec 0
           (s0\<lparr>sg_tip := tip, sg_blocks := number_of l tip,
               sg_first_slot := ln_slot l (time_of l (last canonical)),
               sg_last_slot := ln_slot l (time_of l tip), sg_holders := []\<rparr>)
           (assign_segment canonical 0 l))"

text \<open>One node's head: on the spine, or on a branch that has to last before it is recorded.\<close>

definition place_head :: "string list \<Rightarrow> int \<times> string \<Rightarrow> lineage \<times> nat list \<Rightarrow> lineage \<times> nat list" where
  "place_head canonical nh st =
     (case (nh, st) of ((n, h), (l, seen)) \<Rightarrow>
        if h \<in> set canonical then
          (put_rec 0 ((rec_of l 0)\<lparr>sg_holders := sg_holders (rec_of l 0) @ [n]\<rparr>)
             (l\<lparr>ln_off := (ln_off l)(n := 0)\<rparr>), seen)
        else
          let branch = walk_to (ln_store l) h canonical; first = last branch
          in if branch = [] then (l, seen)
             else
               let fresh = map_of (ln_by_first l) first = None;
                   l = (if fresh then l\<lparr>ln_off := (ln_off l)(n := Suc (ln_off l n))\<rparr> else l)
               in if fresh \<and> (ln_off l n < 2 \<or> length branch < 2 \<and> ln_off l n < 3) then (l, seen)
                  else
                    (case segment_id l first of
                       (i, l) \<Rightarrow>
                         let s = rec_of l i
                         in if sg_orphaned s \<and> \<not> number_of l (sg_tip s) < number_of l h then (l, seen)
                            else
                              let s = (if sg_orphaned s then s\<lparr>sg_orphaned := False, sg_lost_by := []\<rparr> else s);
                                  s = (if i \<in> set seen then s
                                       else s\<lparr>sg_holders := [], sg_tip := '''', sg_blocks := 0\<rparr>);
                                  s = (if sg_tip s = '''' \<or> number_of l (sg_tip s) < number_of l h
                                       then s\<lparr>sg_tip := h, sg_last_slot := ln_slot l (time_of l h),
                                              sg_ancestor := parent_of l first,
                                              sg_blocks := number_of l h - number_of l first + 1\<rparr>
                                       else s);
                                  s = s\<lparr>sg_holders := sg_holders s @ [n]\<rparr>
                              in (put_rec i s (assign_segment branch i l), if i \<in> set seen then seen else i # seen)))"

definition first_of :: "lineage \<Rightarrow> nat \<Rightarrow> string" where
  "first_of l i = (case List.find (\<lambda>(_, j). j = i) (ln_by_first l) of Some (h, _) \<Rightarrow> h | None \<Rightarrow> '''')"

text \<open>A segment no head is on any more: adopted by the spine, or an orphan.\<close>

definition retire :: "string list \<Rightarrow> nat list \<Rightarrow> nat \<Rightarrow> lineage \<Rightarrow> lineage" where
  "retire canonical seen i l =
     (if i \<in> set seen then l
      else if first_of l i \<in> set canonical then
        let swap = (\<lambda>x. if x = Some i then Some 0 else x)
        in l\<lparr>ln_log := map (\<lambda>r. r\<lparr>ro_won := swap (ro_won r), ro_lost := swap (ro_lost r)\<rparr>) (ln_log l),
             ln_recs := AList.delete i (ln_recs l),
             ln_by_first := AList.delete (first_of l i) (ln_by_first l)\<rparr>
      else if \<not> sg_orphaned (rec_of l i) then
        put_rec i ((rec_of l i)\<lparr>sg_orphaned := True, sg_lost_by := sg_holders (rec_of l i), sg_holders := []\<rparr>) l
      else l)"

definition recompute :: "(int \<times> string) list \<Rightarrow> lineage \<Rightarrow> lineage" where
  "recompute moved l =
     (case map_of (ln_heads l) (ln_anchor l) of
        None \<Rightarrow> l
      | Some tip \<Rightarrow>
          if known (ln_store l) tip = None then l
          else
            let canonical = map bl_hash (ancestors (ln_store l) tip);
                l = spine tip canonical (orphan_suffix moved canonical l)
            in (case fold (place_head canonical) (sort_key fst (ln_heads l)) (l, [0]) of
                  (l, seen) \<Rightarrow> fold (retire canonical seen) (map fst (ln_recs l)) l))"

section \<open>Settling\<close>

definition judge_move :: "u64 \<Rightarrow> lineage \<Rightarrow> int \<times> string \<Rightarrow> reorg option \<times> bool" where
  "judge_move now l mv =
     (case mv of (node, prev) \<Rightarrow>
        let head = the (map_of (ln_heads l) node)
        in if prev = '''' \<or> is_ancestor (ln_store l) prev head then (None, False)
           else
             (case common_ancestor (ln_store l) prev head of
                None \<Rightarrow> (None, True)
              | Some a \<Rightarrow>
                  if number_of l prev < bl_number a \<or> number_of l head < bl_number a then (None, True)
                  else
                    (Some \<lparr>ro_slot = now, ro_node = node, ro_depth = number_of l prev - bl_number a,
                           ro_added = number_of l head - bl_number a, ro_ancestor = bl_hash a,
                           ro_ancestor_number = bl_number a, ro_old_head = prev, ro_new_head = head,
                           ro_lost = ln_seg_of l prev, ro_won = ln_seg_of l head,
                           ro_crosses = (bl_time a < ln_fork_time l \<and> ln_fork_time l \<le> time_of l prev)\<rparr>, False)))"

definition settle :: "u64 \<Rightarrow> lineage \<Rightarrow> lineage \<times> reorg list" where
  "settle now l =
     (let moved = ln_moved l;
          l = recompute moved (l\<lparr>ln_moved := []\<rparr>);
          verdicts = map (judge_move now l) (sort_key fst moved);
          out = concat (map (\<lambda>(r, _). case r of Some x \<Rightarrow> [x] | None \<Rightarrow> []) verdicts)
      in (l\<lparr>ln_log := ln_log l @ out, ln_truncated := ln_truncated l + length (filter snd verdicts)\<rparr>, out))"

section \<open>Views\<close>

definition segment_list :: "lineage \<Rightarrow> (nat \<times> segment) list" where
  "segment_list l = sort_key fst (ln_recs l)"

record block_view =
  bv_block :: block
  bv_slot :: u64
  bv_segment :: "nat option"
  bv_pbt :: bool
  bv_istar :: bool
  bv_istar_orphaned :: bool

definition block_views :: "lineage \<Rightarrow> u64 \<Rightarrow> u64 \<Rightarrow> block_view list" where
  "block_views l from_slot to_slot =
     sort_key (\<lambda>v. (bl_number (bv_block v), bl_hash (bv_block v)))
       (map (\<lambda>b.
          let istar = ln_fork_time l \<le> bl_time b \<and>
                (case known (ln_store l) (bl_parent b) of Some p \<Rightarrow> bl_time p < ln_fork_time l | None \<Rightarrow> False)
          in \<lparr>bv_block = b, bv_slot = ln_slot l (bl_time b), bv_segment = ln_seg_of l (bl_hash b),
              bv_pbt = (ln_fork_time l \<le> bl_time b), bv_istar = istar,
              bv_istar_orphaned = (istar \<and>
                (case ln_seg_of l (bl_hash b) of None \<Rightarrow> False
                 | Some i \<Rightarrow> (case map_of (ln_recs l) i of None \<Rightarrow> False | Some s \<Rightarrow> sg_orphaned s)))\<rparr>)
         (filter (\<lambda>b. from_slot \<le> ln_slot l (bl_time b) \<and> ln_slot l (bl_time b) \<le> to_slot) (ln_store l)))"

definition live_holders :: "lineage \<Rightarrow> nat option \<Rightarrow> int list" where
  "live_holders l i =
     (case i of None \<Rightarrow> []
      | Some i \<Rightarrow> (case map_of (ln_recs l) i of None \<Rightarrow> []
          | Some s \<Rightarrow> if sg_orphaned s then [] else sg_holders s))"

definition prune :: "u64 \<Rightarrow> lineage \<Rightarrow> lineage" where
  "prune now l =
     (if now < ln_retain l then l
      else
        let cutoff = now - ln_retain l;
            keep = (\<lambda>h. (\<exists>s \<in> set (map snd (ln_recs l)). h = sg_tip s \<or> h = sg_ancestor s) \<or>
                        h \<in> set (map snd (ln_heads l)));
            dropped = (\<lambda>b. ln_slot l (bl_time b) < cutoff \<and> \<not> keep (bl_hash b))
        in l\<lparr>ln_store := filter (\<lambda>b. \<not> dropped b) (ln_store l),
             ln_seg_of := (\<lambda>h. case known (ln_store l) h of
                 Some b \<Rightarrow> if dropped b then None else ln_seg_of l h | None \<Rightarrow> ln_seg_of l h),
             ln_log := filter (\<lambda>r. cutoff \<le> ro_slot r) (ln_log l)\<rparr>)"

section \<open>Chains in the store\<close>

text \<open>A store as real headers fill it: one block per hash, and a known parent one number below.\<close>

definition numbered :: "block list \<Rightarrow> bool" where
  "numbered st \<longleftrightarrow> distinct (map bl_hash st) \<and>
     (\<forall>b \<in> set st. \<forall>p. known st (bl_parent b) = Some p \<longrightarrow> unat (bl_number b) = Suc (unat (bl_number p)))"

lemma known_some: "known st h = Some b \<Longrightarrow> b \<in> set st \<and> bl_hash b = h"
  unfolding known_def by (auto simp: find_Some_iff)

fun falling :: "block list \<Rightarrow> bool" where
  "falling (x # y # r) = (unat (bl_number x) = Suc (unat (bl_number y)) \<and> falling (y # r))"
| "falling _ = True"

lemma falling_tail: "falling (x # r) \<Longrightarrow> falling r"
  by (cases r) auto

lemma falling_drop: "falling xs \<Longrightarrow> falling (dropWhile P xs)"
  by (induction xs) (auto dest: falling_tail)

lemma ancestry_hd: "n > 0 \<Longrightarrow> known st h = Some b \<Longrightarrow> \<exists>r. ancestry n st h = b # r"
  by (cases n) auto

lemma ancestry_falling: "numbered st \<Longrightarrow> falling (ancestry n st h)"
proof (induction n arbitrary: h)
  case (Suc n)
  show ?case
  proof (cases "known st h")
    case (Some b)
    show ?thesis
    proof (cases "ancestry n st (bl_parent b)")
      case (Cons p r)
      then have "known st (bl_parent b) = Some p" by (cases n) (auto split: option.splits)
      with Suc Some Cons show ?thesis
        using known_some [OF Some] Suc.IH [OF Suc.prems, of "bl_parent b"] by (simp add: numbered_def)
    qed (use Some in simp)
  qed simp
qed simp

lemma falling_below: "falling (x # r) \<Longrightarrow> y \<in> set r \<Longrightarrow> bl_number y < bl_number x"
proof (induction r arbitrary: x)
  case (Cons z r)
  then have z: "bl_number z < bl_number x" by (simp add: word_less_nat_alt)
  from Cons.prems(2) consider "y = z" | "y \<in> set r" by auto
  then show ?case
  proof cases
    case 2
    with Cons.IH [of z] Cons.prems(1) have "bl_number y < bl_number z" by simp
    with z show ?thesis by simp
  qed (use z in simp)
qed simp

lemma falling_distinct: "falling xs \<Longrightarrow> distinct xs"
proof (induction xs)
  case (Cons x xs)
  then have "x \<notin> set xs" using falling_below [of x xs x] by auto
  with Cons falling_tail show ?case by auto
qed simp

lemma ancestry_set: "set (ancestry n st h) \<subseteq> set st"
proof (induction n arbitrary: h)
  case (Suc n)
  show ?case
  proof (cases "known st h")
    case (Some b)
    with Suc.IH [of "bl_parent b"] known_some [OF Some] show ?thesis by simp
  qed simp
qed simp

text \<open>The bound of a walk is never met early: further steps change nothing.\<close>

lemma ancestry_more: "length (ancestry n st h) < n \<Longrightarrow> ancestry (n + k) st h = ancestry n st h"
  by (induction n arbitrary: h) (auto split: option.splits)

lemma ancestry_enough:
  assumes "numbered st"
  shows "ancestry (length st + k) st h = ancestors st h"
proof -
  have len: "length (ancestry n st h) \<le> length st" for n
  proof -
    have "length (ancestry n st h) = card (set (ancestry n st h))"
      using falling_distinct [OF ancestry_falling [OF assms]] by (simp add: distinct_card)
    also have "\<dots> \<le> card (set st)" by (intro card_mono ancestry_set) simp
    also have "\<dots> \<le> length st" by (rule card_length)
    finally show ?thesis .
  qed
  show ?thesis
  proof (cases "length (ancestry (length st) st h) < length st")
    case True
    then show ?thesis unfolding ancestors_def by (rule ancestry_more)
  next
    case False
    have "ancestry (m + j) st h = ancestry m st h \<or> length (ancestry (m + j) st h) > m" for m j
    proof (induction m arbitrary: h)
      case 0
      then show ?case by (cases "ancestry j st h") auto
    qed (auto split: option.splits)
    from this [of "length st" k] len [of "length st + k"] show ?thesis by (auto simp: ancestors_def)
  qed
qed

section \<open>Common ancestors\<close>

lemma find_never [simp]: "List.find (\<lambda>_. False) zs = None"
  by (simp add: find_None_iff)

lemma meet_find:
  "falling xs \<Longrightarrow> falling ys \<Longrightarrow> inj_on bl_hash (set xs \<union> set ys) \<Longrightarrow>
    xs \<noteq> [] \<Longrightarrow> ys \<noteq> [] \<Longrightarrow> bl_number (hd xs) = bl_number (hd ys) \<Longrightarrow>
    meet xs ys = List.find (\<lambda>x. x \<in> set ys) xs"
proof (induction xs ys rule: meet.induct)
  case (1 x xs y ys)
  show ?case
  proof (cases "bl_hash x = bl_hash y")
    case True
    then have "x = y" using inj_onD [OF "1.prems"(3), of x y] by simp
    then show ?thesis by simp
  next
    case False
    then have ne: "x \<noteq> y" by auto
    have "x \<notin> set ys" using falling_below [OF "1.prems"(2), of x] "1.prems"(6) by auto
    moreover have y: "y \<notin> set xs" using falling_below [OF "1.prems"(1), of y] "1.prems"(6) by auto
    moreover have "List.find (\<lambda>z. z \<in> set (y # ys)) xs = List.find (\<lambda>z. z \<in> set ys) xs"
      by (rule find_cong) (use y in auto)
    moreover have "meet xs ys = List.find (\<lambda>z. z \<in> set ys) xs"
    proof (cases "xs = [] \<or> ys = []")
      case True
      then show ?thesis by (cases xs; cases ys) (auto simp: find_None_iff [THEN iffD2] intro: sym)
    next
      case neq: False
      then obtain a as b bs where ab: "xs = a # as" "ys = b # bs" by (meson neq_Nil_conv)
      with "1.prems"(1,2,6) have "unat (bl_number a) = unat (bl_number b)" by simp
      then have "bl_number (hd xs) = bl_number (hd ys)" using ab by (simp add: word_unat_eq_iff)
      moreover have "inj_on bl_hash (set xs \<union> set ys)" using "1.prems"(3) by (auto simp: inj_on_def)
      ultimately show ?thesis
        using "1.IH" [OF False falling_tail [OF "1.prems"(1)] falling_tail [OF "1.prems"(2)]] neq by simp
    qed
    ultimately show ?thesis using ne False by simp
  qed
qed auto

lemma drop_above:
  assumes "falling xs" "xs \<noteq> []" "m \<le> bl_number (hd xs)"
    and "dropWhile (\<lambda>b. m < bl_number b) xs \<noteq> []"
  shows "bl_number (hd (dropWhile (\<lambda>b. m < bl_number b) xs)) = m"
  using assms
proof (induction xs)
  case (Cons x xs)
  show ?case
  proof (cases "m < bl_number x")
    case True
    show ?thesis
    proof (cases xs)
      case (Cons y r)
      with True \<open>falling (x # xs)\<close> have "m \<le> bl_number y" by (simp add: word_le_nat_alt word_less_nat_alt)
      with Cons.IH falling_tail Cons.prems True Cons show ?thesis by simp
    qed (use Cons.prems True in simp)
  next
    case False
    with Cons.prems(3) show ?thesis by simp
  qed
qed simp

lemma find_drop: "(\<And>b. b \<in> set xs \<Longrightarrow> Q b \<Longrightarrow> \<not> P b) \<Longrightarrow> List.find P (dropWhile Q xs) = List.find P xs"
  by (induction xs) auto

lemma ancestors_falling: "numbered st \<Longrightarrow> falling (ancestors st h)"
  unfolding ancestors_def by (rule ancestry_falling)

lemma ancestors_hd:
  "known st h = Some b \<Longrightarrow> \<exists>r. ancestors st h = b # r"
  "known st h = None \<Longrightarrow> ancestors st h = []"
proof -
  assume a: "known st h = Some b"
  then have "st \<noteq> []" using known_some [OF a] by auto
  with a show "\<exists>r. ancestors st h = b # r" unfolding ancestors_def by (intro ancestry_hd) auto
next
  assume "known st h = None"
  then show "ancestors st h = []" unfolding ancestors_def by (cases "length st") auto
qed

lemma falling_above: "falling xs \<Longrightarrow> x \<in> set xs \<Longrightarrow> bl_number x \<le> bl_number (hd xs)"
  by (cases xs) (auto dest: falling_below less_imp_le)

text \<open>The common ancestor is the newest block of one chain that lies on the other.\<close>

lemma common_ancestor_find:
  assumes "numbered st"
  shows "common_ancestor st x y = List.find (\<lambda>b. b \<in> set (ancestors st y)) (ancestors st x)"
proof (cases "ancestors st x = [] \<or> ancestors st y = []")
  case True
  then show ?thesis by (cases "ancestors st x"; cases "ancestors st y") (auto simp: common_ancestor_def)
next
  case False
  define X Y where "X = ancestors st x" and "Y = ancestors st y"
  note fX = ancestors_falling [OF assms, of x, folded X_def]
  note fY = ancestors_falling [OF assms, of y, folded Y_def]
  define X' where "X' = dropWhile (\<lambda>b. bl_number (hd Y) < bl_number b) X"
  define Y' where "Y' = dropWhile (\<lambda>b. bl_number (hd X') < bl_number b) Y"
  have ne: "X \<noteq> []" "Y \<noteq> []" using False by (auto simp: X_def Y_def)
  have c: "common_ancestor st x y = (if X' = [] then None else meet X' Y')"
    using ne by (cases X; cases Y) (auto simp: common_ancestor_def X_def [symmetric] Y_def [symmetric] X'_def Y'_def
        split: list.splits)
  have fX': "falling X'" unfolding X'_def using fX by (rule falling_drop)
  have fY': "falling Y'" unfolding Y'_def using fY by (rule falling_drop)
  have XX': "List.find (\<lambda>b. b \<in> set Y) X' = List.find (\<lambda>b. b \<in> set Y) X"
    unfolding X'_def by (rule find_drop) (use falling_above [OF fY] in \<open>auto simp: not_le [symmetric]\<close>)
  show ?thesis
  proof (cases "X' = []")
    case True
    with XX' c show ?thesis by (simp add: X_def Y_def)
  next
    case ne': False
    have subX: "set X' \<subseteq> set X" unfolding X'_def by (rule set_dropWhileD [THEN subsetI])
    have subY: "set Y' \<subseteq> set Y" unfolding Y'_def by (rule set_dropWhileD [THEN subsetI])
    have top: "bl_number b \<le> bl_number (hd X')" if "b \<in> set X'" for b
      using falling_above [OF fX' that] .
    have YY': "List.find (\<lambda>b. b \<in> set Y) X' = List.find (\<lambda>b. b \<in> set Y') X'"
    proof (rule find_cong [OF refl])
      fix b
      assume b: "b \<in> set X'"
      show "(b \<in> set Y) = (b \<in> set Y')"
      proof
        assume "b \<in> set Y"
        then have "b \<in> set (takeWhile (\<lambda>b. bl_number (hd X') < bl_number b) Y) \<or> b \<in> set Y'"
          unfolding Y'_def by (metis Un_iff set_append takeWhile_dropWhile_id)
        with top [OF b] show "b \<in> set Y'" by (auto dest: set_takeWhileD)
      qed (use subY in blast)
    qed
    have "bl_number (hd X') \<le> bl_number (hd Y)"
      using hd_dropWhile [OF ne' [unfolded X'_def]] by (simp add: X'_def not_less)
    note level = drop_above [OF fY ne(2) this, folded Y'_def]
    show ?thesis
    proof (cases "Y' = []")
      case True
      with ne' c XX' YY' show ?thesis by (simp add: X_def Y_def)
    next
      case nY: False
      have "set X' \<union> set Y' \<subseteq> set st"
        using subX subY ancestry_set by (force simp: X_def Y_def ancestors_def)
      moreover have "inj_on bl_hash (set st)" using assms by (simp add: numbered_def distinct_map)
      ultimately have "inj_on bl_hash (set X' \<union> set Y')" by (rule inj_on_subset [rotated])
      from meet_find [OF fX' fY' this ne' nY] level [OF nY] c ne' XX' YY' show ?thesis
        by (simp add: X_def Y_def)
    qed
  qed
qed

text \<open>Over a store of numbered blocks the common ancestor of two heads is the deepest block on
  both chains as far as the store knows them: every newer block of either chain is off the other,
  so the depth of a reorg, the difference of the numbers, is the number of blocks abandoned; and
  it is unknown exactly when the known chains share no block.\<close>

lemma common_ancestor_deepest:
  assumes "numbered st"
  shows "(common_ancestor st x y = None \<longleftrightarrow> set (ancestors st x) \<inter> set (ancestors st y) = {}) \<and>
    (\<forall>a. common_ancestor st x y = Some a \<longrightarrow>
       (\<exists>lost shared. ancestors st x = lost @ a # shared \<and> a \<in> set (ancestors st y) \<and>
          set lost \<inter> set (ancestors st y) = {} \<and>
          (\<forall>b r. ancestors st x = b # r \<longrightarrow> unat (bl_number b) = unat (bl_number a) + length lost)))"
proof -
  have gap: "falling (xs @ a # ys) \<Longrightarrow> xs @ a # ys = b # r \<Longrightarrow> unat (bl_number b) = unat (bl_number a) + length xs"
    for xs ys a b r
  proof (induction xs arbitrary: b r)
    case (Cons x xs)
    then obtain c q where c: "xs @ a # ys = c # q" by (cases xs) auto
    with Cons show ?case by simp
  qed simp
  have "\<exists>lost shared. ancestors st x = lost @ a # shared \<and> a \<in> set (ancestors st y) \<and>
      set lost \<inter> set (ancestors st y) = {} \<and>
      (\<forall>b r. ancestors st x = b # r \<longrightarrow> unat (bl_number b) = unat (bl_number a) + length lost)"
    if c: "common_ancestor st x y = Some a" for a
  proof -
    from c have f: "List.find (\<lambda>b. b \<in> set (ancestors st y)) (ancestors st x) = Some a"
      by (simp add: common_ancestor_find [OF assms])
    then obtain i where i: "i < length (ancestors st x)" "ancestors st x ! i = a" "a \<in> set (ancestors st y)"
      "\<forall>j < i. ancestors st x ! j \<notin> set (ancestors st y)"
      by (auto simp: find_Some_iff)
    have s: "ancestors st x = take i (ancestors st x) @ a # drop (Suc i) (ancestors st x)"
      using i(1,2) id_take_nth_drop by blast
    moreover have "set (take i (ancestors st x)) \<inter> set (ancestors st y) = {}"
      using i(1,4) by (auto simp: in_set_conv_nth)
    moreover have "unat (bl_number b) = unat (bl_number a) + length (take i (ancestors st x))"
      if "ancestors st x = b # r" for b r
      using gap [of "take i (ancestors st x)" a "drop (Suc i) (ancestors st x)" b r] s that
        ancestors_falling [OF assms, of x] by simp
    ultimately show ?thesis using i(3) by blast
  qed
  moreover have "common_ancestor st x y = None \<longleftrightarrow> set (ancestors st x) \<inter> set (ancestors st y) = {}"
    by (auto simp: common_ancestor_find [OF assms] find_None_iff)
  ultimately show ?thesis by blast
qed

text \<open>A plain advance is exactly a head that has the old one among its known ancestors.\<close>

lemma is_ancestor_iff:
  assumes "numbered st"
  shows "is_ancestor st a b \<longleftrightarrow> (\<exists>c \<in> set (ancestors st b). bl_hash c = a)"
proof (cases "known st a")
  case None
  then have "\<not> (\<exists>c \<in> set st. bl_hash c = a)" by (auto simp: known_def find_None_iff)
  with None ancestry_set show ?thesis unfolding is_ancestor_def ancestors_def by fastforce
next
  case (Some ab)
  let ?B = "ancestors st b"
  have inj: "c = ab" if "c \<in> set ?B" "bl_hash c = a" for c
  proof -
    have "c \<in> set st" using that ancestry_set by (force simp: ancestors_def)
    moreover have "inj_on bl_hash (set st)" using assms by (simp add: numbered_def distinct_map)
    ultimately show ?thesis using known_some [OF Some] that(2) by (auto dest: inj_onD)
  qed
  define D where "D = dropWhile (\<lambda>c. bl_number ab < bl_number c) ?B"
  have fD: "falling D" unfolding D_def by (intro falling_drop ancestors_falling assms)
  show ?thesis
  proof
    assume "is_ancestor st a b"
    with Some obtain c r where "D = c # r" "bl_hash c = a"
      by (auto simp: is_ancestor_def D_def split: list.splits)
    then show "\<exists>c \<in> set ?B. bl_hash c = a" unfolding D_def by (metis list.set_intros(1) set_dropWhileD)
  next
    assume "\<exists>c \<in> set ?B. bl_hash c = a"
    with inj have m: "ab \<in> set ?B" by blast
    then have "ab \<in> set (takeWhile (\<lambda>c. bl_number ab < bl_number c) ?B) \<or> ab \<in> set D"
      unfolding D_def by (metis Un_iff set_append takeWhile_dropWhile_id)
    then have mD: "ab \<in> set D" by (auto dest: set_takeWhileD)
    then obtain c r where c: "D = c # r" by (cases D) auto
    have "\<not> bl_number ab < bl_number c" using hd_dropWhile [of "\<lambda>c. bl_number ab < bl_number c" ?B] c m by (auto simp: D_def)
    with mD c fD have "c = ab" using falling_below [of c r ab] by auto
    with Some c known_some [OF Some] show "is_ancestor st a b" by (simp add: is_ancestor_def D_def)
  qed
qed

section \<open>Reorgs\<close>

text \<open>What recomputing leaves as it was: all but the segments, which a logged reorg names too.\<close>

definition bare :: "reorg \<Rightarrow> reorg" where
  "bare r = r\<lparr>ro_lost := None, ro_won := None\<rparr>"

definition core where
  "core l = (ln_store l, ln_heads l, ln_fork_time l, map bare (ln_log l), ln_truncated l, ln_moved l)"

lemma core_put_rec [simp]: "core (put_rec i s l) = core l"
  by (simp add: core_def put_rec_def)

lemma core_assign [simp]: "core (assign_segment hs i l) = core l"
  by (simp add: core_def assign_segment_def)

lemma core_off [simp]: "core (l\<lparr>ln_off := f\<rparr>) = core l"
  by (simp add: core_def)

lemma core_log: "map bare lg = map bare (ln_log l) \<Longrightarrow> core (l\<lparr>ln_log := lg\<rparr>) = core l"
  by (simp add: core_def)

definition same_blocks :: "lineage \<Rightarrow> lineage \<Rightarrow> bool" where
  "same_blocks l l' \<longleftrightarrow> core l' = core l"

lemma same_blocks_refl [simp]: "same_blocks l l"
  by (simp add: same_blocks_def)

lemma same_blocks_trans: "same_blocks l l' \<Longrightarrow> same_blocks l' l'' \<Longrightarrow> same_blocks l l''"
  by (simp add: same_blocks_def)

lemma segment_id_same: "segment_id l h = (i, l') \<Longrightarrow> same_blocks l l'"
  by (auto simp: segment_id_def same_blocks_def Let_def core_def put_rec_def split: option.splits)

lemma orphan_suffix_same: "same_blocks l (orphan_suffix moved canonical l)"
proof -
  have relog: "map bare (map (\<lambda>r. if P r then r\<lparr>ro_lost := x\<rparr> else r) lg) = map bare lg" for P x lg
    by (simp add: bare_def)
  show ?thesis
    by (auto simp: orphan_suffix_def Let_def same_blocks_def relog [unfolded bare_def] bare_def comp_def
        split: option.splits prod.splits dest!: segment_id_same intro!: core_log trans [OF core_log])
qed

lemma spine_same: "same_blocks l (spine tip canonical l)"
  by (simp add: spine_def Let_def same_blocks_def)

lemma segment_id_core: "core (snd (segment_id l h)) = core l"
  using segment_id_same [of l h] by (cases "segment_id l h") (simp add: same_blocks_def)

lemma core_if: "core (fst (if b then x else y)) = (if b then core (fst x) else core (fst y))"
  "core (if b then l else l') = (if b then core l else core l')"
  by simp_all

lemma place_head_same:
  assumes "place_head canonical nh (l, seen) = (l', seen')"
  shows "same_blocks l l'"
proof -
  have "core (fst (place_head canonical nh (l, seen))) = core l"
    unfolding place_head_def Let_def prod.case_eq_if
    by (simp only: core_if fst_conv core_put_rec core_assign core_off segment_id_core if_cancel snd_conv)
  with assms show ?thesis by (simp add: same_blocks_def)
qed

lemma place_heads_same: "fold (place_head canonical) hs (l, seen) = (l', seen') \<Longrightarrow> same_blocks l l'"
proof (induction hs arbitrary: l seen)
  case (Cons x hs)
  obtain k sk where k: "place_head canonical x (l, seen) = (k, sk)" by (metis surj_pair)
  from Cons.IH [of k sk] Cons.prems k place_head_same [OF k] show ?case by (auto intro: same_blocks_trans)
qed simp

lemma retire_same: "same_blocks l (retire canonical seen i l)"
  by (simp add: retire_def Let_def put_rec_def same_blocks_def core_def bare_def comp_def)

lemma retires_same: "same_blocks l (fold (retire canonical seen) is l)"
  by (induction "is" arbitrary: l) (auto intro: same_blocks_trans retire_same)

lemma recompute_same: "same_blocks l (recompute moved l)"
proof (cases "map_of (ln_heads l) (ln_anchor l)")
  case (Some tip)
  let ?c = "map bl_hash (ancestors (ln_store l) tip)"
  let ?l = "spine tip ?c (orphan_suffix moved ?c l)"
  obtain k seen where k: "fold (place_head ?c) (sort_key fst (ln_heads ?l)) (?l, [0]) = (k, seen)" by (metis surj_pair)
  have "same_blocks l ?l" by (rule same_blocks_trans [OF orphan_suffix_same spine_same])
  then have "same_blocks l k" by (rule same_blocks_trans [OF _ place_heads_same [OF k]])
  then have "same_blocks l (fold (retire ?c seen) (map fst (ln_recs k)) k)"
    by (rule same_blocks_trans [OF _ retires_same])
  with Some k show ?thesis by (simp add: recompute_def Let_def)
qed (simp add: recompute_def)

text \<open>The reports of one node, among the verdicts on moves of different nodes.\<close>

lemma reports_of_node:
  assumes "\<And>mv r. fst (f mv) = Some r \<Longrightarrow> ro_node r = fst mv" "distinct (map fst mvs)" "mv \<in> set mvs"
  shows "filter (\<lambda>r. ro_node r = fst mv) (concat (map (\<lambda>(r, _). case r of Some x \<Rightarrow> [x] | None \<Rightarrow> []) (map f mvs))) =
    (case fst (f mv) of Some x \<Rightarrow> [x] | None \<Rightarrow> [])"
  using assms(2,3)
proof (induction mvs)
  case (Cons x xs)
  let ?g = "\<lambda>v. case v of (r, _) \<Rightarrow> (case r of Some x \<Rightarrow> [x] | None \<Rightarrow> [])"
  have head: "filter (\<lambda>r. ro_node r = n) (?g (f x)) =
      (if fst x = n then (case fst (f x) of Some x \<Rightarrow> [x] | None \<Rightarrow> []) else [])" for n
    using assms(1) [of x] by (cases "f x"; cases "fst (f x)") auto
  have none: "filter (\<lambda>r. ro_node r = n) (concat (map ?g (map f ys))) = []" if "n \<notin> fst ` set ys" for n ys
    using that
  proof (induction ys)
    case (Cons y ys)
    with assms(1) [of y] show ?case by (cases "f y"; cases "fst (f y)") auto
  qed simp
  show ?case
  proof (cases "x = mv")
    case True
    with Cons.prems have "fst mv \<notin> fst ` set xs" by auto
    with none True head [of "fst mv"] show ?thesis by simp
  next
    case False
    with Cons.prems have "mv \<in> set xs" "fst x \<noteq> fst mv" by auto
    with Cons head [of "fst mv"] show ?thesis by simp
  qed
qed simp

lemma reports_members:
  "set (concat (map (\<lambda>(r, _). case r of Some x \<Rightarrow> [x] | None \<Rightarrow> []) vs)) = {r. \<exists>v \<in> set vs. fst v = Some r}"
  by (induction vs) (auto split: option.splits)

lemma judge_node: "fst (judge_move now k mv) = Some r \<Longrightarrow> ro_node r = fst mv"
  by (auto simp: judge_move_def Let_def split: if_splits option.splits prod.splits)

text \<open>A head that moved to or on the chain it was on, or was not known before.\<close>

definition advanced :: "lineage \<Rightarrow> int \<times> string \<Rightarrow> bool" where
  "advanced l mv \<longleftrightarrow> snd mv = '''' \<or>
     hd (ancestors (ln_store l) (snd mv)) \<in> set (ancestors (ln_store l) (the (map_of (ln_heads l) (fst mv))))"

text \<open>A head whose old chain and new chain share no block of the store.\<close>

definition chains_parted :: "lineage \<Rightarrow> int \<times> string \<Rightarrow> bool" where
  "chains_parted l mv \<longleftrightarrow> snd mv \<noteq> '''' \<and>
     set (ancestors (ln_store l) (snd mv)) \<inter>
     set (ancestors (ln_store l) (the (map_of (ln_heads l) (fst mv)))) = {}"

text \<open>What a report says of its move: the first shared block of the old chain, how many blocks are
  above it on either side, and whether the old chain crossed the fork time above it.\<close>

definition tells :: "u64 \<Rightarrow> lineage \<Rightarrow> int \<times> string \<Rightarrow> reorg \<Rightarrow> bool" where
  "tells now l mv r \<longleftrightarrow>
     (let head = the (map_of (ln_heads l) (fst mv)); new = ancestors (ln_store l) head
      in \<exists>lost a shared. ancestors (ln_store l) (snd mv) = lost @ a # shared \<and> lost \<noteq> [] \<and>
           a \<in> set new \<and> set lost \<inter> set new = {} \<and>
           ro_slot r = now \<and> ro_node r = fst mv \<and> ro_old_head r = snd mv \<and> ro_new_head r = head \<and>
           ro_ancestor r = bl_hash a \<and> ro_ancestor_number r = bl_number a \<and>
           unat (ro_depth r) = length lost \<and> ro_added r = bl_number (hd new) - bl_number a \<and>
           (ro_crosses r \<longleftrightarrow> bl_time a < ln_fork_time l \<and> ln_fork_time l \<le> bl_time (hd lost)))"

lemma judge_move_exact:
  assumes "numbered (ln_store l)" "map_of (ln_heads l) (fst mv) = Some head"
    and "snd mv = '''' \<or> known (ln_store l) (snd mv) = Some p" "known (ln_store l) head = Some h"
  shows "(advanced l mv \<longrightarrow> judge_move now l mv = (None, False)) \<and>
    (chains_parted l mv \<longrightarrow> judge_move now l mv = (None, True)) \<and>
    (\<not> advanced l mv \<and> \<not> chains_parted l mv \<longrightarrow> (\<exists>r. judge_move now l mv = (Some r, False) \<and> tells now l mv r))"
proof (cases "snd mv = ''''")
  case True
  then show ?thesis by (auto simp: advanced_def chains_parted_def judge_move_def split: prod.splits)
next
  case False
  obtain n prev where mv: "mv = (n, prev)" by (cases mv)
  let ?st = "ln_store l"
  define old where "old = ancestors ?st prev"
  define new where "new = ancestors ?st head"
  have kp: "known ?st prev = Some p" using assms(3) False mv by simp
  obtain ro rn where hdp: "old = p # ro" "new = h # rn"
    using ancestors_hd(1) kp assms(4) by (metis old_def new_def)
  have adv: "advanced l mv \<longleftrightarrow> p \<in> set new" using False mv assms(2) hdp by (simp add: advanced_def old_def [symmetric] new_def)
  have prt: "chains_parted l mv \<longleftrightarrow> set old \<inter> set new = {}" using False mv assms(2) by (simp add: chains_parted_def old_def new_def)
  have anc: "is_ancestor ?st prev head \<longleftrightarrow> p \<in> set new"
  proof -
    have "inj_on bl_hash (set ?st)" using assms(1) by (simp add: numbered_def distinct_map)
    moreover have "set new \<subseteq> set ?st" unfolding new_def ancestors_def by (rule ancestry_set)
    ultimately show ?thesis
      using is_ancestor_iff [OF assms(1), of prev head] known_some [OF kp]
      by (auto simp: new_def [symmetric] dest: inj_onD)
  qed
  note ca = common_ancestor_deepest [OF assms(1), of prev head, folded old_def new_def]
  have ne: "prev \<noteq> ''''" using False mv by simp
  show ?thesis
  proof (cases "p \<in> set new")
    case True
    with anc mv assms(2) adv prt hdp show ?thesis by (auto simp: judge_move_def)
  next
    case out: False
    show ?thesis
    proof (cases "common_ancestor ?st prev head")
      case None
      with out anc mv assms(2) ne adv prt ca show ?thesis by (auto simp: judge_move_def)
    next
      case (Some a)
      with ca obtain lost shared where s: "old = lost @ a # shared" "a \<in> set new" "set lost \<inter> set new = {}"
        "unat (bl_number p) = unat (bl_number a) + length lost" using hdp(1) by blast
      from s(1) hdp(1) out s(2) have l0: "lost \<noteq> []" "hd lost = p" by (cases lost; auto)+
      have le: "bl_number a \<le> bl_number p" "bl_number a \<le> bl_number h"
        using s(4) falling_above [OF ancestors_falling [OF assms(1)], of a head] s(2) hdp(2)
        by (auto simp: word_le_nat_alt new_def)
      then have d: "unat (bl_number p - bl_number a) = length lost" using s(4) by (simp add: unat_sub)
      have not: "\<not> chains_parted l mv" unfolding prt using s(1,2) by auto
      have "judge_move now l mv =
          (Some \<lparr>ro_slot = now, ro_node = n, ro_depth = bl_number p - bl_number a,
             ro_added = bl_number h - bl_number a, ro_ancestor = bl_hash a, ro_ancestor_number = bl_number a,
             ro_old_head = prev, ro_new_head = head, ro_lost = ln_seg_of l prev, ro_won = ln_seg_of l head,
             ro_crosses = (bl_time a < ln_fork_time l \<and> ln_fork_time l \<le> bl_time p)\<rparr>, False)"
        using out anc mv assms(2,4) ne kp Some le
        by (simp add: judge_move_def Let_def not_less number_of_def time_of_def)
      moreover have "tells now l mv
          \<lparr>ro_slot = now, ro_node = n, ro_depth = bl_number p - bl_number a,
             ro_added = bl_number h - bl_number a, ro_ancestor = bl_hash a, ro_ancestor_number = bl_number a,
             ro_old_head = prev, ro_new_head = head, ro_lost = ln_seg_of l prev, ro_won = ln_seg_of l head,
             ro_crosses = (bl_time a < ln_fork_time l \<and> ln_fork_time l \<le> bl_time p)\<rparr>"
        unfolding tells_def Let_def
        by (intro exI [of _ lost] exI [of _ a] exI [of _ shared])
          (use s l0 d mv assms(2) hdp(2) in \<open>simp add: old_def [symmetric] new_def [symmetric]\<close>)
      ultimately show ?thesis using out adv not by blast
    qed
  qed
qed

lemma count_verdicts:
  assumes "distinct mvs"
  shows "length (filter snd (map f (sort_key g mvs))) = card {mv \<in> set mvs. snd (f mv)}"
proof -
  have "length (filter snd (map f (sort_key g mvs))) = length (filter (\<lambda>mv. snd (f mv)) (sort_key g mvs))"
    by (simp add: filter_map comp_def)
  also have "\<dots> = card (set (filter (\<lambda>mv. snd (f mv)) (sort_key g mvs)))"
    using assms by (simp add: distinct_card [symmetric])
  finally show ?thesis by simp
qed

text \<open>C35: Over a store of numbered blocks in which every moved head and its old head are known,
  settling reports exactly one reorg for every head that left its chain for one sharing a block
  with it, telling the deepest shared block, the number of blocks lost and gained, and whether the
  fork was crossed; none for a plain advance and none where the chains share nothing, which is
  counted as unjudged instead. The reports are what is added to the log, whose earlier entries keep
  all but the segments they name, and no move is left.\<close>

theorem settle_reorgs:
  assumes "numbered (ln_store l)" "distinct (map fst (ln_moved l))"
    and "\<forall>(n, prev) \<in> set (ln_moved l). (prev = '''' \<or> known (ln_store l) prev \<noteq> None) \<and>
           (\<exists>head. map_of (ln_heads l) n = Some head \<and> known (ln_store l) head \<noteq> None)"
    and "settle now l = (l', out)"
  shows "(\<forall>mv \<in> set (ln_moved l).
        if advanced l mv \<or> chains_parted l mv then filter (\<lambda>r. ro_node r = fst mv) out = []
        else \<exists>r. filter (\<lambda>r. ro_node r = fst mv) out = [r] \<and> tells now l mv r) \<and>
    (\<forall>r \<in> set out. ro_node r \<in> fst ` set (ln_moved l)) \<and>
    (\<exists>lg. ln_log l' = lg @ out \<and> map bare lg = map bare (ln_log l)) \<and> ln_moved l' = [] \<and>
    ln_truncated l' = ln_truncated l + card {mv \<in> set (ln_moved l). chains_parted l mv}"
proof -
  define k where "k = recompute (ln_moved l) (l\<lparr>ln_moved := []\<rparr>)"
  have k: "ln_store k = ln_store l" "ln_heads k = ln_heads l" "ln_fork_time k = ln_fork_time l"
    "map bare (ln_log k) = map bare (ln_log l)" "ln_truncated k = ln_truncated l" "ln_moved k = []"
    using recompute_same [of "l\<lparr>ln_moved := []\<rparr>" "ln_moved l"] by (simp_all add: k_def same_blocks_def core_def)
  let ?J = "judge_move now k" and ?ms = "sort_key fst (ln_moved l)"
  have out: "out = concat (map (\<lambda>(r, _). case r of Some x \<Rightarrow> [x] | None \<Rightarrow> []) (map ?J ?ms))"
    and l': "l' = k\<lparr>ln_log := ln_log k @ out, ln_truncated := ln_truncated k + length (filter snd (map ?J ?ms))\<rparr>"
    using assms(4) unfolding settle_def Let_def k_def [symmetric] prod.inject by - (elim conjE, hypsubst, rule refl)+
  have same: "advanced k mv = advanced l mv" "chains_parted k mv = chains_parted l mv" "tells now k mv r = tells now l mv r" for mv r
    using k by (simp_all add: advanced_def chains_parted_def tells_def)
  have J: "(advanced l mv \<longrightarrow> ?J mv = (None, False)) \<and> (chains_parted l mv \<longrightarrow> ?J mv = (None, True)) \<and>
      (\<not> advanced l mv \<and> \<not> chains_parted l mv \<longrightarrow> (\<exists>r. ?J mv = (Some r, False) \<and> tells now l mv r))"
    if "mv \<in> set (ln_moved l)" for mv
  proof -
    from assms(3) that obtain head where "snd mv = '''' \<or> known (ln_store l) (snd mv) \<noteq> None"
      "map_of (ln_heads l) (fst mv) = Some head" "known (ln_store l) head \<noteq> None" by (cases mv) fastforce
    then show ?thesis using judge_move_exact [of k mv head _ _ now] assms(1) unfolding k same by blast
  qed
  have dist: "distinct (map fst ?ms)" "distinct (ln_moved l)"
    using assms(2) by (simp_all add: distinct_map)
  have "filter (\<lambda>r. ro_node r = fst mv) out = (case fst (?J mv) of Some x \<Rightarrow> [x] | None \<Rightarrow> [])"
    if "mv \<in> set (ln_moved l)" for mv
    unfolding out by (rule reports_of_node [OF judge_node dist(1)]) (simp_all add: that)
  moreover have "ro_node r \<in> fst ` set (ln_moved l)" if "r \<in> set out" for r
  proof -
    from that obtain mv where "mv \<in> set (ln_moved l)" "fst (?J mv) = Some r" unfolding out reports_members by auto
    with judge_node [OF this(2)] show ?thesis by simp
  qed
  moreover have "{mv \<in> set (ln_moved l). snd (?J mv)} = {mv \<in> set (ln_moved l). chains_parted l mv}"
    using J by fastforce
  ultimately show ?thesis using J count_verdicts [OF dist(2), of ?J fst] k unfolding l' by fastforce
qed

definition demo_lineage :: lineage where
  "demo_lineage =
     (let blk = (\<lambda>h p n. \<lparr>bl_hash = h, bl_parent = p, bl_root = '''', bl_number = n, bl_time = n\<rparr>)
      in (new_lineage 0 id 10 9)
           \<lparr>ln_store := [blk ''g'' '''' 0, blk ''a'' ''g'' 1, blk ''b'' ''g'' 1, blk ''c'' ''b'' 2],
            ln_heads := [(1, ''c''), (2, ''c'')], ln_moved := [(1, ''a''), (2, ''b'')]\<rparr>)"

theorem settle_reorgs_witness:
  "\<exists>r. filter (\<lambda>r. ro_node r = 1) (snd (settle 5 demo_lineage)) = [r] \<and> tells 5 demo_lineage (1, ''a'') r"
proof -
  obtain l' out where s: "settle 5 demo_lineage = (l', out)" by (metis surj_pair)
  have n: "numbered (ln_store demo_lineage)" by (simp add: numbered_def known_def demo_lineage_def)
  have d: "distinct (map fst (ln_moved demo_lineage))" by (simp add: demo_lineage_def)
  have k: "\<forall>(n, prev) \<in> set (ln_moved demo_lineage).
      (prev = '''' \<or> known (ln_store demo_lineage) prev \<noteq> None) \<and>
      (\<exists>head. map_of (ln_heads demo_lineage) n = Some head \<and> known (ln_store demo_lineage) head \<noteq> None)"
    by (simp add: demo_lineage_def known_def)
  have m: "(1, ''a'') \<in> set (ln_moved demo_lineage)" by (simp add: demo_lineage_def)
  have j: "\<not> advanced demo_lineage (1, ''a'')" "\<not> chains_parted demo_lineage (1, ''a'')" by code_simp+
  from settle_reorgs [OF n d k s] m j s show ?thesis by fastforce
qed

end
