(* ===== verification/MonCompare.thy ===== *)
theory MonCompare
  imports Lineage MonPoll
begin

text \<open>
  The client table of the monitor's page (\<open>cmd/migration-monitor/compare.go\<close>): every node's answer
  at one height judged against a reference, and the findings it raises. Go counts answers in a
  map and ranges over it; the order is an argument here, a rearrangement of the counts. The
  shadow table it reads is \<open>Shadow\<close>'s.
\<close>

abbreviation "compareDepth \<equiv> (2 :: u64)"

datatype cell_state = CellAgree | CellDissent | CellUnjudged | CellNoIntrospect | CellPending | CellBehind | CellUnreachable

datatype verdict = HeaderDissent | ShadowDissent | IStarDissent | ForkVerdict | Partial | Absent | Fine

record node_answer =
  na_node :: int
  na_head :: u64
  na_ok :: bool \<comment> \<open>\<open>Status\<close> is ok\<close>
  na_isolated :: bool
  na_introspects :: bool
  na_settling :: detail \<comment> \<open>the empty text when the node is settled\<close>
  na_phase :: string
  na_hash :: string
  na_header_root :: string
  na_shadow_root :: string
  na_istar :: string

record compare_row =
  cr_node :: int
  cr_ahead :: int
  cr_hash :: string
  cr_header_root :: string
  cr_shadow_root :: string
  cr_hash_state :: cell_state
  cr_header_state :: cell_state
  cr_shadow_state :: cell_state
  cr_istar_state :: cell_state
  cr_verdict :: verdict
  cr_expected :: bool
  cr_why :: detail

datatype ref_source = ByAnchor | ByMajority | ByNone

record compare_view =
  cv_height :: u64
  cv_ref :: string
  cv_source :: ref_source
  cv_hash_agree :: nat
  cv_hash_judged :: nat
  cv_shadow_agree :: nat
  cv_shadow_judged :: nat
  cv_shadow_classes :: nat
  cv_rows :: "compare_row list"

definition settled :: "node_answer \<Rightarrow> bool" where
  "settled a \<longleftrightarrow> \<not> na_isolated a \<and> na_settling a = no_detail"

fun pick_lowest :: "u64 option \<Rightarrow> node_answer list \<Rightarrow> u64 option" where
  "pick_lowest m [] = m"
| "pick_lowest m (a # as) =
     pick_lowest
       (if \<not> na_ok a \<or> \<not> settled a \<or> na_phase a = ''stalled'' \<or> na_phase a = ''unknown'' then m
        else (case m of None \<Rightarrow> Some (na_head a) | Some k \<Rightarrow> if na_head a < k then Some (na_head a) else m)) as"

definition pick_height :: "node_answer list \<Rightarrow> u64 option" where
  "pick_height as =
     (case pick_lowest None as of
        None \<Rightarrow> None
      | Some lowest \<Rightarrow> Some (if lowest < compareDepth then 0 else lowest - compareDepth))"

section \<open>Counts\<close>

type_synonym counts = "(string \<times> nat) list"

text \<open>\<open>counts[v]++\<close> over the values, and the order Go's range meets the entries in.\<close>

definition tally :: "string list \<Rightarrow> counts" where
  "tally vs = map (\<lambda>v. (v, count_list vs v)) (remdups vs)"

definition rearranges :: "(counts \<Rightarrow> counts) \<Rightarrow> bool" where
  "rearranges order \<longleftrightarrow> (\<forall>c. mset (order c) = mset c)"

definition strict_majority :: "counts \<Rightarrow> string option" where
  "strict_majority c =
     (let total = sum_list (map snd c)
      in map_option fst (List.find (\<lambda>(v, n). total < n * 2) c))"

fun best_of :: "counts \<Rightarrow> string \<times> nat \<times> bool \<Rightarrow> string \<times> nat \<times> bool" where
  "best_of [] s = s"
| "best_of ((v, n) # c) (best, most, tied) =
     best_of c (if most < n then (v, n, False)
                else if n = most \<and> v \<noteq> best then (best, most, True) else (best, most, tied))"

definition majority_root ::
  "(counts \<Rightarrow> counts) \<Rightarrow> node_answer list \<Rightarrow> int \<Rightarrow> (node_answer \<Rightarrow> string) \<Rightarrow> string"
where
  "majority_root order as anchor pick =
     (let vs = filter (\<lambda>a. pick a \<noteq> '''') as;
          anchors = filter (\<lambda>a. na_node a = anchor) vs;
          anchor_val = (if anchors = [] then '''' else pick (last anchors))
      in (case best_of (order (tally (map pick vs))) ('''', 0, False) of
            (best, _, tied) \<Rightarrow> if tied \<and> anchor_val \<noteq> '''' then anchor_val else best))"

section \<open>Judging\<close>

definition root_state :: "string \<Rightarrow> string \<Rightarrow> bool \<Rightarrow> bool \<Rightarrow> cell_state" where
  "root_state rt class comparable introspection =
     (if \<not> introspection then CellNoIntrospect
      else if \<not> comparable then CellUnjudged
      else if rt = '''' then CellPending
      else if class = '''' then CellUnjudged
      else if rt = class then CellAgree
      else CellDissent)"

definition verdict_for :: "cell_state \<Rightarrow> cell_state \<Rightarrow> cell_state \<Rightarrow> cell_state \<Rightarrow> verdict" where
  "verdict_for hash header shadow istar =
     (if header = CellDissent then HeaderDissent
      else if shadow = CellDissent then ShadowDissent
      else if hash = CellDissent then ForkVerdict
      else if istar = CellDissent then IStarDissent
      else if hash = CellUnreachable \<or> hash = CellBehind then Absent
      else if hash = CellPending \<or> shadow = CellPending \<or> shadow = CellNoIntrospect \<or> header = CellPending
      then Partial else Fine)"

definition reference :: "(counts \<Rightarrow> counts) \<Rightarrow> node_answer list \<Rightarrow> int \<Rightarrow> string \<times> ref_source" where
  "reference order as anchor =
     (let answered = filter (\<lambda>a. na_hash a \<noteq> '''') as;
          anchors = filter (\<lambda>a. na_node a = anchor) answered
      in if anchors \<noteq> [] then (na_hash (last anchors), ByAnchor)
         else (case strict_majority (order (tally (map na_hash (filter settled answered)))) of
            Some h \<Rightarrow> (h, ByMajority)
          | None \<Rightarrow> ('''', ByNone)))"

definition on_ref :: "string \<Rightarrow> node_answer \<Rightarrow> bool" where
  "on_ref ref a \<longleftrightarrow> ref \<noteq> '''' \<and> na_hash a = ref"

definition anchor_istar :: "node_answer list \<Rightarrow> int \<Rightarrow> string" where
  "anchor_istar as anchor =
     (case filter (\<lambda>a. na_node a = anchor) as of [] \<Rightarrow> '''' | xs \<Rightarrow> na_istar (last xs))"

definition judge_row :: "u64 \<Rightarrow> string \<Rightarrow> string \<Rightarrow> string \<Rightarrow> string \<Rightarrow> node_answer \<Rightarrow> compare_row" where
  "judge_row height ref header_class shadow_class a_istar a =
     (let (h, hd', sh) =
        (if \<not> na_ok a then (CellUnreachable, CellUnreachable, CellUnreachable)
         else if na_hash a = '''' then
           (let s = (if height \<le> na_head a then CellPending else CellBehind) in (s, s, s))
         else
           (if ref = '''' then CellUnjudged else if na_hash a \<noteq> ref then CellDissent else CellAgree,
            root_state (na_header_root a) header_class (on_ref ref a) True,
            root_state (na_shadow_root a) shadow_class (on_ref ref a) (na_introspects a)));
          i = (if na_istar a = '''' \<or> a_istar = '''' then CellUnjudged
               else if na_istar a \<noteq> a_istar then CellDissent else CellAgree)
      in \<lparr>cr_node = na_node a, cr_ahead = sint (na_head a - height), cr_hash = na_hash a,
          cr_header_root = na_header_root a, cr_shadow_root = na_shadow_root a,
          cr_hash_state = h, cr_header_state = hd', cr_shadow_state = sh, cr_istar_state = i,
          cr_verdict = verdict_for h hd' sh i, cr_expected = (\<not> settled a),
          cr_why = (if na_isolated a \<and> na_settling a = no_detail then lit ''isolated'' else na_settling a)\<rparr>)"

definition judged :: "cell_state \<Rightarrow> bool" where
  "judged s \<longleftrightarrow> s = CellAgree \<or> s = CellDissent"

definition judge :: "(counts \<Rightarrow> counts) \<Rightarrow> u64 \<Rightarrow> node_answer list \<Rightarrow> int \<Rightarrow> compare_view" where
  "judge order height as anchor =
     (let (ref, source) = reference order as anchor;
          header_class = majority_root order as anchor (\<lambda>a. if on_ref ref a then na_header_root a else '''');
          shadow_class = majority_root order as anchor
            (\<lambda>a. if on_ref ref a \<and> na_introspects a then na_shadow_root a else '''');
          rows = map (judge_row height ref header_class shadow_class (anchor_istar as anchor)) as;
          seen = filter (\<lambda>a. na_ok a \<and> na_hash a \<noteq> '''' \<and> on_ref ref a \<and> na_introspects a \<and> na_shadow_root a \<noteq> '''') as
      in \<lparr>cv_height = height, cv_ref = ref, cv_source = source,
          cv_hash_agree = length (filter (\<lambda>r. cr_hash_state r = CellAgree) rows),
          cv_hash_judged = length (filter (\<lambda>r. judged (cr_hash_state r)) rows),
          cv_shadow_agree = length (filter (\<lambda>r. cr_shadow_state r = CellAgree) rows),
          cv_shadow_judged = length (filter (\<lambda>r. judged (cr_shadow_state r)) rows),
          cv_shadow_classes = length (remdups (map na_shadow_root seen)),
          cv_rows = sort_key cr_node rows\<rparr>)"

section \<open>Settling and the findings\<close>

definition partition_settling :: "partition list \<Rightarrow> int \<Rightarrow> u64 \<Rightarrow> u64 \<Rightarrow> u64 option" where
  "partition_settling parts node now grace =
     map_option pt_lifted (List.find (\<lambda>p. pt_lifted p \<noteq> 0 \<and> node \<in> set (pt_victims p) \<and>
        pt_lifted p \<le> now \<and> now - pt_lifted p \<le> grace) parts)"

definition settling :: "partition list option \<Rightarrow> int \<Rightarrow> reorg list \<Rightarrow> u64 \<Rightarrow> u64 \<Rightarrow> detail" where
  "settling parts node reorgs now grace =
     (case (case parts of None \<Rightarrow> None | Some ps \<Rightarrow> partition_settling ps node now grace) of
        Some slot \<Rightarrow> Fmt ''lifted at slot %d'' [du slot]
      | None \<Rightarrow>
          (case List.find (\<lambda>r. ro_node r = node \<and> ro_slot r \<le> now \<and> now - ro_slot r \<le> grace) reorgs of
             Some r \<Rightarrow> Fmt ''reorg at slot %d'' [du (ro_slot r)]
           | None \<Rightarrow> no_detail))"

type_synonym fired = "(int \<times> u64 \<times> verdict) set"

text \<open>\<open>shortHash\<close>; the ellipsis is its three bytes.\<close>

definition short_ref :: "string \<Rightarrow> string" where
  "short_ref h =
     (if 14 < length h then take 10 h @ [CHR 0xE2, CHR 0x80, CHR 0xA6] @ drop (length h - 4) h else h)"

fun report_rows ::
  "(int \<Rightarrow> string) \<Rightarrow> u64 \<Rightarrow> string \<Rightarrow> compare_row list \<Rightarrow> fired \<Rightarrow> fired \<times> event list"
where
  "report_rows name height ref [] f = (f, [])"
| "report_rows name height ref (r # rs) f =
     (let key = (cr_node r, height, cr_verdict r)
      in if cr_expected r \<or> cr_verdict r \<noteq> HeaderDissent \<and> cr_verdict r \<noteq> IStarDissent \<or> key \<in> f
         then report_rows name height ref rs f
         else
           (case report_rows name height ref rs (insert key f) of
              (f', evs) \<Rightarrow>
                (f', crit (name (cr_node r)) FindingRootMismatch height
                   (if cr_verdict r = IStarDissent
                    then Fmt ''crossed the fork on a different block than the anchor (#%d)'' [du height]
                    else Fmt ''header root %s at block #%d, where the other clients hold the same hash %s''
                      [DS (cr_header_root r), du height, DS (short_ref ref)]) # evs)))"

definition report_dissent :: "(int \<Rightarrow> string) \<Rightarrow> compare_view \<Rightarrow> fired \<Rightarrow> fired \<times> event list" where
  "report_dissent name v f =
     (case report_rows name (cv_height v) (cv_ref v) (cv_rows v) f of
        (f', evs) \<Rightarrow> (if 4096 < card f' then {} else f', evs))"

text \<open>\<open>compare\<close>: the answers without their reading at the height, and that reading, a header and
  the shadow root the table holds for it.\<close>

definition compare_nodes ::
  "(counts \<Rightarrow> counts) \<Rightarrow> (int \<Rightarrow> string) \<Rightarrow> int \<Rightarrow> node_answer list \<Rightarrow>
     (int \<Rightarrow> u64 \<Rightarrow> string + header option) \<Rightarrow> (string \<Rightarrow> int \<Rightarrow> string) \<Rightarrow> fired \<Rightarrow>
     compare_view option \<times> fired \<times> event list"
where
  "compare_nodes order name anchor as hdr shadow f =
     (case pick_height as of
        None \<Rightarrow> (None, f, [])
      | Some height \<Rightarrow>
          let read = (\<lambda>a. if \<not> na_ok a then a
                else (case hdr (na_node a) height of
                   Inr (Some h) \<Rightarrow> a\<lparr>na_hash := h_hash h, na_header_root := h_root h,
                                     na_shadow_root := shadow (h_hash h) (na_node a)\<rparr>
                 | _ \<Rightarrow> a));
              v = judge order height (map read as) anchor
          in (case report_dissent name v f of (f', evs) \<Rightarrow> (Some v, f', evs)))"

section \<open>The class of a root\<close>

definition best_inv :: "counts \<Rightarrow> string \<times> nat \<times> bool \<Rightarrow> bool" where
  "best_inv c s \<longleftrightarrow>
     (case s of (best, most, tied) \<Rightarrow>
        (\<forall>(v, n) \<in> set c. n \<le> most) \<and>
        (if c = [] then best = '''' \<and> most = 0 \<and> \<not> tied
         else (best, most) \<in> set c \<and> (tied \<longleftrightarrow> (\<exists>v. v \<noteq> best \<and> (v, most) \<in> set c))))"

lemma best_of_inv:
  "best_inv c s \<Longrightarrow> distinct (map fst (c @ d)) \<Longrightarrow> \<forall>(v, n) \<in> set (c @ d). 0 < n \<Longrightarrow> best_inv (c @ d) (best_of d s)"
proof (induction d s arbitrary: c rule: best_of.induct)
  case (2 v n d best most tied)
  let ?s = "if most < n then (v, n, False) else if n = most \<and> v \<noteq> best then (best, most, True) else (best, most, tied)"
  have "best_inv (c @ [(v, n)]) ?s"
    using "2.prems" by (auto simp: best_inv_def split: if_splits)
  from "2.IH" [OF this] "2.prems"(2,3) show ?case by simp
qed simp

lemma tally_props:
  "distinct (map fst (tally vs))" "(v, n) \<in> set (tally vs) \<longleftrightarrow> v \<in> set vs \<and> n = count_list vs v"
  "\<forall>(v, n) \<in> set (tally vs). 0 < n"
proof -
  have "map fst (tally vs) = remdups vs" by (simp add: tally_def o_def)
  then show "distinct (map fst (tally vs))" by simp
  show "(v, n) \<in> set (tally vs) \<longleftrightarrow> v \<in> set vs \<and> n = count_list vs v" by (auto simp: tally_def)
  have "0 < count_list vs v" if "v \<in> set vs" for v using that by (induction vs) auto
  then show "\<forall>(v, n) \<in> set (tally vs). 0 < n" by (auto simp: tally_def)
qed

definition top :: "string list \<Rightarrow> string \<Rightarrow> bool" where
  "top vs v \<longleftrightarrow> v \<in> set vs \<and> (\<forall>w \<in> set vs. count_list vs w \<le> count_list vs v)"

lemma best_of_tally:
  assumes "rearranges order" "best_of (order (tally vs)) ('''', 0, False) = (best, most, tied)"
  shows "(vs = [] \<longrightarrow> best = '''' \<and> \<not> tied) \<and>
    (vs \<noteq> [] \<longrightarrow> top vs best \<and> (tied \<longleftrightarrow> (\<exists>w. w \<noteq> best \<and> top vs w)))"
proof -
  let ?c = "order (tally vs)"
  have m: "mset ?c = mset (tally vs)" using assms(1) by (simp add: rearranges_def)
  then have s: "set ?c = set (tally vs)" by (rule mset_eq_setD)
  have "mset (map fst ?c) = mset (map fst (tally vs))" using m by simp
  then have d: "distinct (map fst ?c)" using tally_props(1) mset_eq_imp_distinct_iff by blast
  have "best_inv [] ('''', 0, False)" by (simp add: best_inv_def)
  from best_of_inv [OF this, of ?c] d tally_props(3) s assms(2) have b: "best_inv ?c (best, most, tied)" by simp
  have e: "?c = [] \<longleftrightarrow> vs = []" using s by (metis length_greater_0_conv list.set(1) mset_eq_length m remdups_eq_nil_iff tally_def list.map_disc_iff set_empty)
  show ?thesis
  proof (cases "vs = []")
    case True
    with b e show ?thesis by (simp add: best_inv_def)
  next
    case False
    with b e s have i: "\<forall>(v, n) \<in> set (tally vs). n \<le> most" "(best, most) \<in> set (tally vs)"
      "tied \<longleftrightarrow> (\<exists>v. v \<noteq> best \<and> (v, most) \<in> set (tally vs))"
      by (simp_all add: best_inv_def)
    from i(2) have bm: "best \<in> set vs" "most = count_list vs best" by (simp_all add: tally_props(2))
    have le: "count_list vs w \<le> most" if "w \<in> set vs" for w
      using i(1) that by (force simp: tally_props(2))
    have "top vs w \<longleftrightarrow> (w, most) \<in> set (tally vs)" for w
      using le bm by (auto simp: top_def tally_props(2) intro: antisym)
    with False i(3) bm le show ?thesis by (auto simp: top_def)
  qed
qed

text \<open>C36: The root a cell is judged against is the one most nodes gave, whatever order the counts are
  met in; on a tie it is the anchor's own value, and only with the anchor silent too does the
  order decide between the tied ones.\<close>

theorem majority_root_spec:
  fixes anchor :: int and as :: "node_answer list" and pick :: "node_answer \<Rightarrow> string"
  assumes "rearranges order"
  defines "voters \<equiv> filter (\<lambda>a. pick a \<noteq> '''') as"
  defines "vs \<equiv> map pick voters" and "r \<equiv> majority_root order as anchor pick"
  shows "(vs = [] \<longrightarrow> r = '''') \<and>
    (\<forall>v. top vs v \<and> (\<forall>w. top vs w \<longrightarrow> w = v) \<longrightarrow> r = v) \<and>
    (\<forall>v w. top vs v \<and> top vs w \<and> v \<noteq> w \<longrightarrow>
       (if \<exists>a \<in> set voters. na_node a = anchor
        then \<exists>a \<in> set voters. na_node a = anchor \<and> r = pick a
        else top vs r))"
proof -
  obtain best most tied where b: "best_of (order (tally vs)) ('''', 0, False) = (best, most, tied)"
    by (metis prod.exhaust)
  note sp = best_of_tally [OF assms(1) b]
  let ?as = "filter (\<lambda>a. na_node a = anchor) voters"
  have r: "r = (if tied \<and> (if ?as = [] then '''' else pick (last ?as)) \<noteq> '''' then (if ?as = [] then '''' else pick (last ?as)) else best)"
    using b unfolding r_def majority_root_def Let_def vs_def voters_def by (simp del: filter_filter)
  have ne: "pick (last ?as) \<noteq> ''''" "last ?as \<in> set voters" "na_node (last ?as) = anchor" if "?as \<noteq> []"
    using last_in_set [OF that] by (auto simp: voters_def)
  have anc: "(\<exists>a \<in> set voters. na_node a = anchor) \<longleftrightarrow> ?as \<noteq> []" by (auto simp: filter_empty_conv)
  show ?thesis
  proof (cases "vs = []")
    case True
    with sp r show ?thesis by (auto simp: top_def)
  next
    case False
    with sp have t: "top vs best" "tied \<longleftrightarrow> (\<exists>w. w \<noteq> best \<and> top vs w)" by auto
    have "r = v" if "top vs v" "\<forall>w. top vs w \<longrightarrow> w = v" for v
      using t that r by auto
    moreover have "if \<exists>a \<in> set voters. na_node a = anchor
        then \<exists>a \<in> set voters. na_node a = anchor \<and> r = pick a else top vs r"
      if "top vs v" "top vs w" "v \<noteq> w" for v w
    proof (cases "?as = []")
      case True
      with anc t r show ?thesis by auto
    next
      case as: False
      from t that have "tied" by metis
      with r as ne have "r = pick (last ?as)" by auto
      with anc as ne show ?thesis by auto
    qed
    ultimately show ?thesis using False by blast
  qed
qed

theorem majority_root_spec_witness:
  "let a = (\<lambda>n. \<lparr>na_node = n, na_head = 9, na_ok = True, na_isolated = False, na_introspects = True,
       na_settling = no_detail, na_phase = ''synced'', na_hash = ''h'', na_header_root = if n < 3 then ''r'' else ''q'',
       na_shadow_root = '''', na_istar = ''''\<rparr>)
   in majority_root rev (map a [1, 2, 3]) 3 na_header_root = ''r''"
proof -
  let ?a = "\<lambda>n. \<lparr>na_node = n, na_head = 9, na_ok = True, na_isolated = False, na_introspects = True,
       na_settling = no_detail, na_phase = ''synced'', na_hash = ''h'', na_header_root = if n < 3 then ''r'' else ''q'',
       na_shadow_root = '''', na_istar = ''''\<rparr>"
  have "rearranges rev" by (simp add: rearranges_def)
  from majority_root_spec [OF this, where as = "map ?a [1, 2, 3]" and anchor = 3 and pick = na_header_root] show ?thesis
    by (auto simp: top_def)
qed

section \<open>What the table may claim\<close>

lemma majority_root_some:
  assumes "rearranges order" "majority_root order as anchor pick = v" "v \<noteq> ''''"
  shows "\<exists>a \<in> set as. pick a = v"
proof -
  let ?vs = "filter (\<lambda>a. pick a \<noteq> '''') as"
  let ?as = "filter (\<lambda>a. na_node a = anchor) ?vs"
  obtain best most tied where b: "best_of (order (tally (map pick ?vs))) ('''', 0, False) = (best, most, tied)"
    by (metis prod.exhaust)
  note sp = best_of_tally [OF assms(1) b]
  from assms(2) b have v: "v = (if tied \<and> (if ?as = [] then '''' else pick (last ?as)) \<noteq> ''''
      then (if ?as = [] then '''' else pick (last ?as)) else best)"
    unfolding majority_root_def Let_def by (simp del: filter_filter)
  show ?thesis
  proof (cases "v = best")
    case True
    with sp assms(3) have "top (map pick ?vs) best" by auto
    with True show ?thesis by (auto simp: top_def)
  next
    case False
    with v assms(3) have "?as \<noteq> []" "v = pick (last ?as)" by (auto split: if_splits)
    then show ?thesis using last_in_set [of ?as] by auto
  qed
qed

lemma judge_ref: "cv_ref (judge order height as anchor) = fst (reference order as anchor)"
  by (simp add: judge_def Let_def split: prod.splits)

lemma judge_rows:
  "\<exists>H S I. set (cv_rows (judge order height as anchor)) =
     judge_row height (fst (reference order as anchor)) H S I ` set as"
  by (auto simp: judge_def Let_def split: prod.splits)

lemma strict_majority_votes:
  assumes "rearranges order" "strict_majority (order (tally vs)) = Some v"
  shows "length vs < 2 * count_list vs v"
proof -
  have m: "mset (order (tally vs)) = mset (tally vs)" using assms(1) by (simp add: rearranges_def)
  have "sum_list (map snd (order (tally vs))) = sum_list (map snd (tally vs))"
    using arg_cong [OF m, of "\<lambda>x. sum_mset (image_mset snd x)"] by (simp flip: sum_mset_sum_list)
  also have "\<dots> = sum_list (map (count_list vs) (remdups vs))" by (simp add: tally_def o_def)
  also have "\<dots> = length vs"
    by (simp add: sum_list_distinct_conv_sum_set sum_count_set)
  finally have t: "sum_list (map snd (order (tally vs))) = length vs" .
  from assms(2) obtain i n where i: "i < length (order (tally vs))" "order (tally vs) ! i = (v, n)"
    "length vs < n * 2"
    unfolding strict_majority_def Let_def t by (auto simp: find_Some_iff)
  then have "(v, n) \<in> set (order (tally vs))" using nth_mem [OF i(1)] by simp
  with i(3) mset_eq_setD [OF m] show ?thesis by (simp add: tally_props(2))
qed

text \<open>C37: The table never makes up a disagreement: a node is called off the canonical block, or off
  on a root, only when there is a reference block, the anchor's own or one a strict majority of
  the settled nodes answered; a root is called wrong only on a node holding that very block, and
  only when another node holding it gave the other root; and with no reference nothing is judged.\<close>

theorem judge_sound:
  assumes "rearranges order" "judge order height as anchor = v" "r \<in> set (cv_rows v)"
  shows "(cv_ref v = '''' \<longrightarrow> \<not> judged (cr_hash_state r) \<and> \<not> judged (cr_header_state r) \<and> \<not> judged (cr_shadow_state r)) \<and>
    (cr_verdict r = HeaderDissent \<longrightarrow> cr_hash r = cv_ref v \<and>
       (\<exists>b \<in> set as. na_hash b = cv_ref v \<and> na_header_root b \<notin> {'''', cr_header_root r})) \<and>
    (cr_verdict r = ShadowDissent \<longrightarrow> cr_hash r = cv_ref v \<and>
       (\<exists>b \<in> set as. na_hash b = cv_ref v \<and> na_introspects b \<and> na_shadow_root b \<notin> {'''', cr_shadow_root r})) \<and>
    (cr_verdict r = ForkVerdict \<longrightarrow> cr_hash r \<notin> {'''', cv_ref v} \<and> cv_ref v \<noteq> '''') \<and>
    (cv_ref v \<noteq> '''' \<longrightarrow>
       (\<exists>a \<in> set as. na_node a = anchor \<and> na_hash a = cv_ref v) \<or>
       (let votes = map na_hash (filter settled (filter (\<lambda>a. na_hash a \<noteq> '''') as))
        in length votes < 2 * count_list votes (cv_ref v)))"
proof -
  obtain ref source where ref: "reference order as anchor = (ref, source)" by (metis surj_pair)
  let ?H = "majority_root order as anchor (\<lambda>a. if on_ref ref a then na_header_root a else '''')"
  let ?S = "majority_root order as anchor (\<lambda>a. if on_ref ref a \<and> na_introspects a then na_shadow_root a else '''')"
  from assms(2) ref have v: "cv_ref v = ref"
    "set (cv_rows v) = judge_row height ref ?H ?S (anchor_istar as anchor) ` set as"
    by (auto simp: judge_def Let_def)
  from assms(3) v(2) obtain a where a: "a \<in> set as" "r = judge_row height ref ?H ?S (anchor_istar as anchor) a" by blast
  note jr = a(2) judge_row_def Let_def root_state_def verdict_for_def judged_def on_ref_def
  have H: "\<exists>b \<in> set as. na_hash b = ref \<and> na_header_root b \<notin> {'''', cr_header_root r}"
    if "?H \<noteq> ''''" "?H \<noteq> cr_header_root r"
    using majority_root_some [OF assms(1) refl that(1)] that by (auto simp: on_ref_def split: if_splits)
  have S: "\<exists>b \<in> set as. na_hash b = ref \<and> na_introspects b \<and> na_shadow_root b \<notin> {'''', cr_shadow_root r}"
    if "?S \<noteq> ''''" "?S \<noteq> cr_shadow_root r"
    using majority_root_some [OF assms(1) refl that(1)] that by (auto simp: on_ref_def split: if_splits)
  have "cr_hash r = na_hash a" "cr_header_root r = na_header_root a" "cr_shadow_root r = na_shadow_root a"
    by (simp_all add: a(2) judge_row_def Let_def split: prod.splits)
  note f = this
  have 1: "\<not> judged (cr_hash_state r) \<and> \<not> judged (cr_header_state r) \<and> \<not> judged (cr_shadow_state r)" if "ref = ''''"
    using that by (auto simp: jr)
  have 2: "cr_hash r = ref \<and> ?H \<noteq> '''' \<and> ?H \<noteq> cr_header_root r" if "cr_verdict r = HeaderDissent"
    using that f by (auto simp: jr split: if_splits)
  have 3: "cr_hash r = ref \<and> ?S \<noteq> '''' \<and> ?S \<noteq> cr_shadow_root r" if "cr_verdict r = ShadowDissent"
    using that f by (auto simp: jr split: if_splits)
  have 4: "cr_hash r \<notin> {'''', ref} \<and> ref \<noteq> ''''" if "cr_verdict r = ForkVerdict"
    using that f by (auto simp: jr split: if_splits)
  have 5: "(\<exists>a \<in> set as. na_node a = anchor \<and> na_hash a = ref) \<or> length votes < 2 * count_list votes ref"
    if "ref \<noteq> []" "votes = map na_hash (filter settled (filter (\<lambda>a. na_hash a \<noteq> []) as))" for votes
  proof (cases "filter (\<lambda>a. na_node a = anchor) (filter (\<lambda>a. na_hash a \<noteq> []) as) = []")
    case True
    with ref that have "strict_majority (order (tally votes)) = Some ref"
      unfolding reference_def Let_def by (auto split: option.splits simp del: filter_filter)
    with strict_majority_votes [OF assms(1)] show ?thesis by blast
  next
    case False
    with ref have "ref = na_hash (last (filter (\<lambda>a. na_node a = anchor) (filter (\<lambda>a. na_hash a \<noteq> []) as)))"
      unfolding reference_def Let_def by (simp del: filter_filter)
    with last_in_set [OF False] show ?thesis by auto
  qed
  show ?thesis
    unfolding v(1) Let_def
    using 1 2 3 4 5 [OF _ refl] H S by blast
qed

theorem judge_sound_witness:
  "let a = (\<lambda>n h. \<lparr>na_node = n, na_head = 9, na_ok = True, na_isolated = False, na_introspects = True,
       na_settling = no_detail, na_phase = ''synced'', na_hash = h, na_header_root = ''r'',
       na_shadow_root = ''s'', na_istar = ''''\<rparr>);
       v = judge rev 7 [a 1 ''h'', a 2 ''k''] 1
   in cv_ref v = ''h'' \<and> (\<exists>r \<in> set (cv_rows v). cr_node r = 2 \<and> cr_verdict r = ForkVerdict \<and> cr_hash r \<notin> {'''', cv_ref v})"
proof -
  let ?a = "\<lambda>n h. \<lparr>na_node = n, na_head = 9, na_ok = True, na_isolated = False, na_introspects = True,
       na_settling = no_detail, na_phase = ''synced'', na_hash = h, na_header_root = ''r'',
       na_shadow_root = ''s'', na_istar = ''''\<rparr>"
  let ?v = "judge rev 7 [?a 1 ''h'', ?a 2 ''k''] 1"
  have rf: "reference rev [?a 1 ''h'', ?a 2 ''k''] 1 = (''h'', ByAnchor)" by (simp add: reference_def)
  then have ref: "cv_ref ?v = ''h''" by (simp add: judge_ref)
  obtain r where r: "r \<in> set (cv_rows ?v)" "cr_node r = 2" "cr_verdict r = ForkVerdict"
  proof -
    obtain H S I where rows: "set (cv_rows ?v) = judge_row 7 ''h'' H S I ` set [?a 1 ''h'', ?a 2 ''k'']"
      using judge_rows [of rev 7 "[?a 1 ''h'', ?a 2 ''k'']" 1] rf by auto
    let ?r = "judge_row 7 ''h'' H S I (?a 2 ''k'')"
    have "?r \<in> set (cv_rows ?v)" unfolding rows by simp
    moreover have "cr_node ?r = 2" "cr_verdict ?r = ForkVerdict"
      by (simp_all add: judge_row_def root_state_def on_ref_def verdict_for_def)
    ultimately show thesis by (rule that)
  qed
  have "rearranges rev" by (simp add: rearranges_def)
  from judge_sound [OF this refl r(1)] r(3) have "cr_hash r \<notin> {'''', cv_ref ?v}" by blast
  with r ref show ?thesis unfolding Let_def by blast
qed

section \<open>Findings of the table\<close>

lemma report_rows_spec:
  "report_rows name height ref rs f = (f', evs) \<Longrightarrow>
    f \<subseteq> f' \<and>
    (\<forall>k \<in> f' - f. \<exists>r \<in> set rs. k = (cr_node r, height, cr_verdict r) \<and> \<not> cr_expected r \<and>
       (cr_verdict r = HeaderDissent \<or> cr_verdict r = IStarDissent)) \<and>
    (\<forall>r \<in> set rs. \<not> cr_expected r \<and> (cr_verdict r = HeaderDissent \<or> cr_verdict r = IStarDissent) \<longrightarrow>
       (cr_node r, height, cr_verdict r) \<in> f') \<and>
    (finite f \<longrightarrow> finite f' \<and> length evs = card f' - card f)"
proof (induction name height ref rs f arbitrary: f' evs rule: report_rows.induct)
  case (2 name height ref r rs f)
  let ?k = "(cr_node r, height, cr_verdict r)"
  show ?case
  proof (cases "cr_expected r \<or> cr_verdict r \<noteq> HeaderDissent \<and> cr_verdict r \<noteq> IStarDissent \<or> ?k \<in> f")
    case True
    with "2.IH"(1) [of ?k f' evs] "2.prems" show ?thesis by auto
  next
    case False
    with "2.prems" obtain es where es: "report_rows name height ref rs (insert ?k f) = (f', es)" "length evs = Suc (length es)"
      by (auto simp: Let_def split: prod.splits)
    from "2.IH"(2) [OF refl False es(1)] have IH: "insert ?k f \<subseteq> f'"
      "\<forall>k \<in> f' - insert ?k f. \<exists>r \<in> set rs. k = (cr_node r, height, cr_verdict r) \<and> \<not> cr_expected r \<and>
       (cr_verdict r = HeaderDissent \<or> cr_verdict r = IStarDissent)"
      "\<forall>r \<in> set rs. \<not> cr_expected r \<and> (cr_verdict r = HeaderDissent \<or> cr_verdict r = IStarDissent) \<longrightarrow>
       (cr_node r, height, cr_verdict r) \<in> f'"
      "finite f \<Longrightarrow> finite f' \<and> length es = card f' - card (insert ?k f)" by auto
    have "length evs = card f' - card f" if "finite f"
    proof -
      have "card (insert ?k f) = Suc (card f)" using that False by simp
      moreover have "card (insert ?k f) \<le> card f'" using IH(1,4) that by (intro card_mono) auto
      ultimately show ?thesis using IH(4) [OF that] es(2) by simp
    qed
    moreover have "\<exists>q \<in> set (r # rs). k = (cr_node q, height, cr_verdict q) \<and> \<not> cr_expected q \<and>
       (cr_verdict q = HeaderDissent \<or> cr_verdict q = IStarDissent)" if "k \<in> f' - f" for k
    proof (cases "k = ?k")
      case True
      with False show ?thesis by auto
    next
      case other: False
      with IH(2) that show ?thesis by auto
    qed
    moreover have "f \<subseteq> f'" using IH(1) by blast
    moreover have "(cr_node q, height, cr_verdict q) \<in> f'"
      if "q \<in> set (r # rs)" "\<not> cr_expected q \<and> (cr_verdict q = HeaderDissent \<or> cr_verdict q = IStarDissent)" for q
      using IH(1,3) that by (cases "q = r") auto
    ultimately show ?thesis using IH(4) by blast
  qed
qed auto


end
