(* ===== verification/Regexp.thy ===== *)
theory Regexp
  imports Prelude
begin

text \<open>
  The part of Go's \<open>regexp\<close> package the programs use: matching is leftmost-first, a greedy
  repetition tries the longest run first, and a search reports the first match at the
  leftmost position where there is one. A matcher returns its successes in the order of
  preference; a state is the text before the position (reversed), the text after it and the
  groups captured so far.
\<close>

section \<open>The matcher\<close>

datatype re =
    Cls "char \<Rightarrow> bool" | Eps | Sq re re | Or re re | Star re | Grp string re | WordB | Bol

type_synonym mstate = "string \<times> string \<times> (string \<times> string) list"

definition word_char :: "char \<Rightarrow> bool" where
  "word_char c =
     (let k = of_char c :: nat
      in 48 \<le> k \<and> k \<le> 57 \<or> 65 \<le> k \<and> k \<le> 90 \<or> 97 \<le> k \<and> k \<le> 122 \<or> k = 95)"

definition is_digit :: "char \<Rightarrow> bool" where
  "is_digit c \<longleftrightarrow> digit_of c \<noteq> None"

definition word_at :: "string \<Rightarrow> bool" where
  "word_at s = (case s of [] \<Rightarrow> False | c # _ \<Rightarrow> word_char c)"

text \<open>A run of \<open>f\<close>, the longest first; each round must consume something.\<close>

primrec runs :: "nat \<Rightarrow> (mstate \<Rightarrow> mstate list) \<Rightarrow> mstate \<Rightarrow> mstate list" where
  "runs 0 f st = [st]"
| "runs (Suc n) f st =
     concat (map (runs n f)
       (filter (\<lambda>st'. length (fst (snd st')) < length (fst (snd st))) (f st))) @ [st]"

primrec rmatch :: "re \<Rightarrow> mstate \<Rightarrow> mstate list" where
  "rmatch (Cls p) st =
     (case st of (pre, s, caps) \<Rightarrow>
        (case s of [] \<Rightarrow> [] | c # t \<Rightarrow> if p c then [(c # pre, t, caps)] else []))"
| "rmatch Eps st = [st]"
| "rmatch (Sq a b) st = concat (map (rmatch b) (rmatch a st))"
| "rmatch (Or a b) st = rmatch a st @ rmatch b st"
| "rmatch (Star a) st = runs (length (fst (snd st))) (rmatch a) st"
| "rmatch (Grp n a) st =
     map (\<lambda>(pre, s, caps).
            (pre, s, (n, take (length (fst (snd st)) - length s) (fst (snd st))) # caps))
       (rmatch a st)"
| "rmatch WordB st =
     (case st of (pre, s, caps) \<Rightarrow> if word_at pre \<noteq> word_at s then [st] else [])"
| "rmatch Bol st = (case st of (pre, s, caps) \<Rightarrow> if pre = [] then [st] else [])"

text \<open>The leftmost match from a position on: what it matched and its groups.\<close>

fun rsearch :: "re \<Rightarrow> string \<Rightarrow> string \<Rightarrow> (string \<times> (string \<times> string) list) option" where
  "rsearch r pre s =
     (case rmatch r (pre, s, []) of
        (_, t, caps) # _ \<Rightarrow> Some (take (length s - length t) s, caps)
      | [] \<Rightarrow> (case s of [] \<Rightarrow> None | c # s' \<Rightarrow> rsearch r (c # pre) s'))"

declare rsearch.simps [simp del]

definition find_submatch :: "re \<Rightarrow> string \<Rightarrow> (string \<times> (string \<times> string) list) option" where
  "find_submatch r s = rsearch r [] s"

definition match_string :: "re \<Rightarrow> string \<Rightarrow> bool" where
  "match_string r s \<longleftrightarrow> find_submatch r s \<noteq> None"

text \<open>A literal, one or more digits, any text on one line, a fixed number of characters.\<close>

fun Lit :: "string \<Rightarrow> re" where
  "Lit [] = Eps"
| "Lit (c # cs) = Sq (Cls (\<lambda>x. x = c)) (Lit cs)"

definition digits1 :: re where
  "digits1 = Sq (Cls is_digit) (Star (Cls is_digit))"

definition any_text :: re where
  "any_text = Star (Cls (\<lambda>c. c \<noteq> CHR 10))"

primrec times :: "nat \<Rightarrow> re \<Rightarrow> re" where
  "times 0 r = Eps"
| "times (Suc n) r = Sq r (times n r)"

section \<open>How the matcher runs\<close>

lemma rmatch_Lit:
  "rmatch (Lit k) (pre, s, caps) =
     (if take (length k) s = k then [(rev k @ pre, drop (length k) s, caps)] else [])"
proof (induction k arbitrary: pre s)
  case (Cons c k)
  then show ?case by (cases s) auto
qed simp

lemma runs_Cls:
  "length s \<le> n \<Longrightarrow>
   runs n (rmatch (Cls p)) (pre, s, caps) =
     map (\<lambda>k. (rev (take k s) @ pre, drop k s, caps)) (rev [0..<Suc (length (takeWhile p s))])"
proof (induction s arbitrary: n pre)
  case Nil
  then show ?case by (cases n) simp_all
next
  case (Cons c s)
  from Cons.prems obtain m where m: "n = Suc m" "length s \<le> m" by (cases n) auto
  show ?case
  proof (cases "p c")
    case True
    have "rev [0..<Suc (length (takeWhile p (c # s)))] =
        map Suc (rev [0..<Suc (length (takeWhile p s))]) @ [0]"
      using True upt_conv_Cons [of 0 "Suc (Suc (length (takeWhile p s)))"]
      by (simp add: rev_map map_Suc_upt [symmetric] del: upt_Suc)
    then show ?thesis
      using True m Cons.IH [OF m(2), of "c # pre"] by (simp add: o_def del: upt_Suc)
  qed (use m in simp)
qed

lemma rmatch_run:
  "rmatch (Star (Cls p)) (pre, s, caps) =
     map (\<lambda>k. (rev (take k s) @ pre, drop k s, caps)) (rev [0..<Suc (length (takeWhile p s))])"
  by (simp add: runs_Cls del: upt_Suc)

lemma takeWhile_stop: "\<forall>c \<in> set d. p c \<Longrightarrow> z = [] \<or> \<not> p (hd z) \<Longrightarrow> takeWhile p (d @ z) = d"
  by (induction d) (auto, cases z, auto)

text \<open>Where a maximal run of digits stands, the preferred match of \<open>digits1\<close> takes it all.\<close>

lemma rmatch_digits1:
  assumes "d \<noteq> []" "\<forall>c \<in> set d. is_digit c" "z = [] \<or> \<not> is_digit (hd z)"
  shows "\<exists>ms. rmatch digits1 (pre, d @ z, caps) = (rev d @ pre, z, caps) # ms"
proof -
  from assms(1) obtain c cs where d: "d = c # cs" by (cases d) auto
  with assms have "takeWhile is_digit (cs @ z) = cs" by (intro takeWhile_stop) auto
  then show ?thesis
    using assms(2) d by (simp add: digits1_def runs_Cls del: upt_Suc) simp
qed

lemma is_digit_digit_char: "k < 10 \<Longrightarrow> is_digit (digit_char k)"
  by (simp add: is_digit_def digit_of_digit_char)

lemma show_nat_is_digit: "c \<in> set (show_nat n) \<Longrightarrow> is_digit c"
proof (induction n rule: show_nat.induct)
  case (1 n)
  have "n mod 10 < 10" by simp
  with 1 show ?case
    by (subst (asm) (2) show_nat.simps) (auto split: if_splits simp: is_digit_digit_char)
qed

lemma rsearch_hit:
  assumes "rmatch r (pre, s, []) = (pre', t, caps) # ms"
  shows "rsearch r pre s = Some (take (length s - length t) s, caps)"
  using assms by (subst rsearch.simps) simp

lemma rsearch_skip:
  assumes "rmatch r (pre, c # s, []) = []"
  shows "rsearch r pre (c # s) = rsearch r (c # pre) s"
  using assms by (subst rsearch.simps) simp

lemma rmatch_first_char:
  "s = [] \<or> hd s \<noteq> c \<Longrightarrow> rmatch (Sq (Lit (c # cs)) r) (pre, s, caps) = []"
  by (cases s) (auto simp: rmatch_Lit)

text \<open>A search for a pattern that begins with the literal \<open>c\<close> passes over a text without it.\<close>

lemma rsearch_skips:
  "c \<notin> set x \<Longrightarrow> rsearch (Sq (Lit (c # cs)) r) pre (x @ s) =
     rsearch (Sq (Lit (c # cs)) r) (rev x @ pre) s"
proof (induction x arbitrary: pre)
  case (Cons a x)
  then have "rmatch (Sq (Lit (c # cs)) r) (pre, a # (x @ s), []) = []"
    by (intro rmatch_first_char) auto
  with Cons show ?case by (simp add: rsearch_skip del: Lit.simps rmatch.simps)
qed simp

end
