(* ===== verification/VerifyLog.thy ===== *)
theory VerifyLog
  imports Registry SwapGate Regexp
begin

text \<open>
  What \<open>cmd/verify-migration\<close> reads and how it places it: the monitor's and the chaos driver's
  JSON lines as records (\<open>checks.go: readEvents\<close>), service names and participant indices, the
  isolation windows the chaos stream shows, their attribution to the schedule's ops and the
  waivers built from them. \<open>json.Unmarshal\<close> is taken at its result: a line decodes to a record
  or an error, and a record's raw payload carries what each decoder makes of it. White space is
  ASCII's. A Go map is ranged over in the order \<open>rng\<close> gives.
\<close>

section \<open>Strings of the streams\<close>

fun kind_string :: "ev_kind \<Rightarrow> string" where
  "kind_string EvProgress = ''progress''"
| "kind_string EvSample = ''sample''"
| "kind_string EvReorg = ''reorg''"
| "kind_string EvIStar = ''istar''"
| "kind_string EvHead = ''head''"
| "kind_string EvCritical = ''critical''"
| "kind_string EvWarn = ''warn''"
| "kind_string EvIStarReorged = ''istar-reorged''"
| "kind_string EvIStarFinal = ''istar-final''"
| "kind_string EvLifecycle = ''lifecycle''"
| "kind_string EvSchedule = ''schedule''"
| "kind_string EvIsolate = ''isolate''"
| "kind_string EvHeal = ''heal''"
| "kind_string EvPause = ''pause''"
| "kind_string EvSkip = ''skip''"
| "kind_string EvInject = ''inject''"

fun finding_string :: "finding \<Rightarrow> string" where
  "finding_string NoFinding = ''''"
| "finding_string FindingRootMismatch = ''root-mismatch''"
| "finding_string FindingStall = ''stall''"
| "finding_string FindingBoundary = ''boundary''"
| "finding_string FindingNoConvergence = ''no-convergence''"
| "finding_string FindingPeerStarved = ''cl-starved''"
| "finding_string FindingNullWarn = ''null-warn''"
| "finding_string FindingNullCritical = ''null-critical''"

lemma kind_string_inj: "kind_string k = kind_string k' \<longleftrightarrow> k = k'"
  by (cases k; cases k') simp_all

lemma finding_string_inj: "finding_string f = finding_string f' \<longleftrightarrow> f = f'"
  by (cases f; cases f') simp_all

text \<open>A symbolic \<open>Sprintf\<close> rendered: each verb takes the next argument's text. The verbs whose
  arguments carry their rendering (\<open>%s\<close>, \<open>%d\<close>, \<open>%v\<close>) are the ones the readers below depend on.\<close>

fun fill :: "string \<Rightarrow> string list \<Rightarrow> string" where
  "fill [] as = []"
| "fill [c] as = [c]"
| "fill (c # d # f) as =
     (if c = CHR ''%'' then (case as of [] \<Rightarrow> fill f [] | a # as' \<Rightarrow> a @ fill f as')
      else c # fill (d # f) as)"

fun joined_with :: "string \<Rightarrow> string list \<Rightarrow> string" where
  "joined_with sep [] = []"
| "joined_with sep [x] = x"
| "joined_with sep (x # y # xs) = x @ sep @ joined_with sep (y # xs)"

fun render :: "detail \<Rightarrow> string" and render_arg :: "darg \<Rightarrow> string" where
  "render (Fmt f as) = fill f (map render_arg as)"
| "render_arg (DS s) = s"
| "render_arg (DI i) = show_int i"
| "render_arg (DL ss) = joined_with '', '' ss"
| "render_arg (DD d) = render d"

section \<open>Records read back\<close>

record inj_record =
  jr_contract :: string
  jr_slot :: string
  jr_value :: string
  jr_side :: string
  jr_tx :: string
  jr_island :: string

record raw_doc =
  rd_dump :: "string + dump"
  rd_progress :: "string + progress"
  rd_injection :: "string + inj_record"

record levent =
  le_time :: gotime
  le_kind :: string
  le_node :: string
  le_number :: u64
  le_hash :: string
  le_roots :: "string \<rightharpoonup> string"
  le_phase :: string
  le_detail :: string
  le_finding :: string
  le_raw :: "raw_doc option"

definition is_kind :: "ev_kind \<Rightarrow> levent \<Rightarrow> bool" where
  "is_kind k ev \<longleftrightarrow> le_kind ev = kind_string k"

definition is_finding :: "finding \<Rightarrow> levent \<Rightarrow> bool" where
  "is_finding f ev \<longleftrightarrow> le_finding ev = finding_string f"

text \<open>The line an event of the monitor or the chaos driver becomes: stamped, its text rendered.\<close>

definition logged :: "gotime \<Rightarrow> raw_doc option \<Rightarrow> event \<Rightarrow> levent" where
  "logged t raw ev =
     \<lparr>le_time = t, le_kind = kind_string (ev_kind ev), le_node = ev_node ev,
      le_number = ev_number ev, le_hash = ev_hash ev, le_roots = map_of (ev_roots ev),
      le_phase = ev_phase ev, le_detail = render (ev_detail ev),
      le_finding = finding_string (ev_finding ev), le_raw = raw\<rparr>"

definition legacyFindings :: "string \<rightharpoonup> string" where
  "legacyFindings = map_of
     [(''F1'', ''root-mismatch''), (''F2'', ''stall''), (''F3'', ''boundary''),
      (''F4'', ''no-convergence''), (''NULL5'', ''null-warn''), (''NULL10'', ''null-critical'')]"

definition is_space :: "char \<Rightarrow> bool" where
  "is_space c \<longleftrightarrow> (let k = of_char c :: nat in 9 \<le> k \<and> k \<le> 13 \<or> k = 32)"

definition trim_space :: "string \<Rightarrow> string" where
  "trim_space s = rev (dropWhile is_space (rev (dropWhile is_space s)))"

text \<open>\<open>strings.Replace\<close> with a count of one.\<close>

fun replace_first :: "string \<Rightarrow> string \<Rightarrow> string \<Rightarrow> string" where
  "replace_first k r [] = (if k = [] then r else [])"
| "replace_first k r (c # s) =
     (if take (length k) (c # s) = k then r @ drop (length k) (c # s)
      else c # replace_first k r s)"

definition normalised :: "levent \<Rightarrow> levent" where
  "normalised ev =
     ev\<lparr>le_kind := replace_first ''bstar'' ''istar'' (le_kind ev),
        le_finding := (case legacyFindings (le_finding ev) of Some f \<Rightarrow> f | None \<Rightarrow> le_finding ev)\<rparr>"

fun read_lines :: "(string \<Rightarrow> string + levent) \<Rightarrow> string list \<Rightarrow> levent list \<times> nat" where
  "read_lines decode [] = ([], 0)"
| "read_lines decode (l # ls) =
     (let line = trim_space l; rest = read_lines decode ls
      in if line = '''' \<or> hd line \<noteq> CHR 0x7B then rest
         else (case decode line of
                 Inl _ \<Rightarrow> (fst rest, Suc (snd rest))
               | Inr ev \<Rightarrow> if le_kind ev = '''' then rest
                          else (normalised ev # fst rest, snd rest)))"

datatype read_error = OpenFailed string | ScanFailed string | NothingReadable nat

definition read_events ::
  "(string \<Rightarrow> string + levent) \<Rightarrow> string + string list \<times> string option \<Rightarrow> read_error + levent list"
where
  "read_events decode opened =
     (case opened of
        Inl e \<Rightarrow> Inl (OpenFailed e)
      | Inr (ls, scan_err) \<Rightarrow>
          (case read_lines decode ls of (out, skipped) \<Rightarrow>
             (case scan_err of
                Some e \<Rightarrow> Inl (ScanFailed e)
              | None \<Rightarrow> if out = [] \<and> 0 < skipped then Inl (NothingReadable skipped)
                        else Inr (sort_key le_time out))))"

text \<open>\<open>parsePins\<close>: a later line for a key overwrites an earlier one.\<close>

fun cut_at :: "char \<Rightarrow> string \<Rightarrow> (string \<times> string) option" where
  "cut_at sep [] = None"
| "cut_at sep (c # s) =
     (if c = sep then Some ([], s)
      else (case cut_at sep s of None \<Rightarrow> None | Some (a, b) \<Rightarrow> Some (c # a, b)))"

definition trim_marks :: "string \<Rightarrow> string" where
  "trim_marks s =
     (let q = \<lambda>c. c = CHR 34 \<or> c = CHR 39 in rev (dropWhile q (rev (dropWhile q s))))"

definition pin_line :: "(string \<rightharpoonup> string) \<Rightarrow> string \<Rightarrow> (string \<rightharpoonup> string)" where
  "pin_line m l =
     (let line = trim_space l
      in if line = '''' \<or> hd line = CHR ''#'' then m
         else (case cut_at (CHR '':'') line of
                 None \<Rightarrow> m
               | Some (k, v) \<Rightarrow> m(trim_space k \<mapsto> trim_marks (trim_space v))))"

definition parse_pins :: "string \<Rightarrow> (string \<rightharpoonup> string)" where
  "parse_pins raw = foldl pin_line Map.empty (split_on (CHR 10) raw)"

section \<open>Names\<close>

definition client_of :: "string \<Rightarrow> string" where
  "client_of node =
     (let parts = split_on (CHR ''-'') node
      in if length parts < 4 \<or> parts ! 0 \<noteq> ''el'' then '''' else parts ! 2)"

text \<open>\<open>^(?:node|el)-(\d+)\b|^(?:node|el)-(\d+)-\<close>; the two groups are named 1 and 2.\<close>

definition node_index_re :: re where
  "node_index_re =
     (let name = Or (Lit ''node'') (Lit ''el'')
      in Or (Sq Bol (Sq name (Sq (Lit ''-'') (Sq (Grp ''1'' digits1) WordB))))
            (Sq Bol (Sq name (Sq (Lit ''-'') (Sq (Grp ''2'' digits1) (Lit ''-''))))))"

definition node_index :: "string \<Rightarrow> int option" where
  "node_index name =
     (case find_submatch node_index_re name of
        None \<Rightarrow> None
      | Some (_, gs) \<Rightarrow>
          (case filter (\<lambda>g. g \<noteq> '''') (List.map_filter (map_of gs) [''1'', ''2'']) of
             g # _ \<Rightarrow> atoi g
           | [] \<Rightarrow> None))"

definition same_node :: "string \<Rightarrow> string \<Rightarrow> bool" where
  "same_node a b \<longleftrightarrow>
     a = b \<or> (case (node_index a, node_index b) of (Some i, Some j) \<Rightarrow> i = j | _ \<Rightarrow> False)"

section \<open>Isolation windows\<close>

record chaos_window =
  cw_node :: string
  cw_from :: gotime
  cw_to :: gotime
  cw_healed :: bool

definition cw_covers :: "chaos_window \<Rightarrow> string \<Rightarrow> gotime \<Rightarrow> duration \<Rightarrow> bool" where
  "cw_covers w node t slop \<longleftrightarrow>
     \<not> (cw_node w \<noteq> '''' \<and> node \<noteq> '''' \<and> \<not> same_node (cw_node w) node) \<and>
     (if is_zero (cw_to w) then \<not> t < cw_from w + - slop
      else \<not> t < cw_from w + - slop \<and> \<not> cw_to w + slop < t)"

text \<open>The open windows are a map from a node's name to its window; \<open>rng\<close> is the order in which
  Go ranges over one. Healing all closes every open window.\<close>

type_synonym open_windows = "(string \<times> chaos_window) list"

definition window_step ::
  "(open_windows \<Rightarrow> open_windows) \<Rightarrow> levent \<Rightarrow> open_windows \<times> chaos_window list \<Rightarrow>
    open_windows \<times> chaos_window list"
where
  "window_step rng ev st =
     (case st of (opn, clo) \<Rightarrow>
        if is_kind EvIsolate ev then
          (case map_of opn (le_node ev) of
             None \<Rightarrow> (opn @ [(le_node ev, \<lparr>cw_node = le_node ev, cw_from = le_time ev,
                        cw_to = zero_time, cw_healed = False\<rparr>)], clo)
           | Some _ \<Rightarrow> (opn, clo))
        else if is_kind EvHeal ev then
          if le_node ev = '''' then
            ([], clo @ map (\<lambda>(_, w). w\<lparr>cw_to := le_time ev, cw_healed := True\<rparr>) (rng opn))
          else (case map_of opn (le_node ev) of
                  Some w \<Rightarrow> (filter (\<lambda>(k, _). k \<noteq> le_node ev) opn,
                             clo @ [w\<lparr>cw_to := le_time ev, cw_healed := True\<rparr>])
                | None \<Rightarrow> (opn, clo))
        else (opn, clo))"

definition chaos_windows :: "(open_windows \<Rightarrow> open_windows) \<Rightarrow> levent list \<Rightarrow> chaos_window list" where
  "chaos_windows rng chaos =
     (case foldl (\<lambda>st ev. window_step rng ev st) ([], []) chaos of
        (opn, clo) \<Rightarrow> clo @ map snd (rng opn))"

section \<open>The schedule and the ops that own a window\<close>

datatype schedule_error = BadDump dump_error | NoScheduleRecord

fun schedule_error_detail :: "schedule_error \<Rightarrow> detail" where
  "schedule_error_detail (BadDump (BadJson e)) = Fmt ''schedule dump: %w'' [DS e]"
| "schedule_error_detail (BadDump NoProfileOrFork) = lit ''schedule dump carries no profile or fork time: %s''"
| "schedule_error_detail NoScheduleRecord = lit ''chaos log has no schedule record''"

definition schedule_dump :: "levent list \<Rightarrow> schedule_error + dump" where
  "schedule_dump chaos =
     (case List.find (is_kind EvSchedule) chaos of
        None \<Rightarrow> Inl NoScheduleRecord
      | Some ev \<Rightarrow>
          (case parse_dump (case le_raw ev of Some r \<Rightarrow> rd_dump r
                            | None \<Rightarrow> Inl ''unexpected end of JSON input'') of
             Inl e \<Rightarrow> Inl (BadDump e)
           | Inr d \<Rightarrow> Inr d))"

definition opAttributionSlop :: duration where
  [go_defs]: "opAttributionSlop = 30 * second"

definition op_owns :: "dump_op \<Rightarrow> chaos_window \<Rightarrow> bool" where
  "op_owns x w \<longleftrightarrow>
     (case node_index (cw_node w) of
        None \<Rightarrow> False
      | Some idx \<Rightarrow>
          idx \<in> set (do_victims x) \<and>
          \<not> cw_from w < tunix (do_start x) + - opAttributionSlop \<and>
          \<not> tunix (do_end x) + opAttributionSlop < cw_from w)"

fun attribute_windows ::
  "dump \<Rightarrow> chaos_window list \<Rightarrow> (dump_op \<times> chaos_window) list \<times> chaos_window list"
where
  "attribute_windows d [] = ([], [])"
| "attribute_windows d (w # ws) =
     (case attribute_windows d ws of (matched, unscheduled) \<Rightarrow>
        (case List.find (\<lambda>x. op_owns x w) (dump_admitted d) of
           Some x \<Rightarrow> ((x, w) # matched, unscheduled)
         | None \<Rightarrow> (matched, w # unscheduled)))"

section \<open>The verifier\<close>

record el =
  el_name :: string
  el_url :: string

text \<open>The lap manifest; a restart is its node and time, a scenario its name and outcome.\<close>

record lap_manifest =
  lm_profile :: string
  lm_restart :: "(int \<times> int) option"
  lm_scenarios :: "(string \<times> string) list"
  lm_requested :: "string list"
  lm_handover :: bool
  lm_quiesced :: int
  lm_offline :: "offline option"
  lm_producers :: "producer_record list"
  lm_swaps :: "swap_record list"

text \<open>A file of the log directory, in the order of the walk: its base name, its path, its
  content (\<open>None\<close> when it cannot be read) and the lines a \<open>bufio.Scanner\<close> delivers of it. A
  directory's walk ends early at an error.\<close>

record log_file =
  lf_name :: string
  lf_path :: string
  lf_data :: "string option"
  lf_scanned :: "string list"

record verifier =
  vf_els :: "el list"
  vf_T :: u64
  vf_monitor :: "levent list"
  vf_chaos :: "levent list"
  vf_logs :: "(log_file list \<times> bool) option"
  vf_pins :: "string + (string \<rightharpoonup> string)"
  vf_skip_chaos :: bool
  vf_smoke :: bool
  vf_manifest :: "(string + lap_manifest) option"
  vf_istar :: "detail + u64 \<times> detail"
  vf_rng :: "open_windows \<Rightarrow> open_windows"

definition el_names :: "verifier \<Rightarrow> string list" where
  "el_names v = map el_name (vf_els v)"

definition el_by_index :: "verifier \<Rightarrow> int \<Rightarrow> el option" where
  "el_by_index v idx = List.find (\<lambda>e. node_index (el_name e) = Some idx) (vf_els v)"

definition windows_of :: "verifier \<Rightarrow> chaos_window list" where
  "windows_of v = chaos_windows (vf_rng v) (vf_chaos v)"

section \<open>Waivers\<close>

definition extend_straddle :: "dump \<Rightarrow> chaos_window \<Rightarrow> chaos_window" where
  "extend_straddle d w =
     (if is_zero (cw_to w) then w
      else if \<exists>x \<in> set (dump_admitted d). class_of (do_class x) = ClassStraddle \<and> op_owns x w
      then w\<lparr>cw_to := cw_to w + SplitGrace\<rparr> else w)"

definition down_window :: "int \<Rightarrow> int \<Rightarrow> int \<Rightarrow> chaos_window" where
  "down_window node start en =
     \<lparr>cw_node = ''node-'' @ show_int node, cw_from = tunix start,
      cw_to = tunix en + SplitGrace, cw_healed = True\<rparr>"

definition offline_windows :: "lap_manifest \<Rightarrow> chaos_window list" where
  "offline_windows m =
     (case lm_offline m of
        None \<Rightarrow> []
      | Some cfg \<Rightarrow>
          if \<not> of_enabled cfg then []
          else
            map (\<lambda>s. down_window (sw_node s) (sw_stop_at s) (sw_caught_up_at s))
              (filter (\<lambda>s. \<not> (sw_stop_at s = 0 \<or> sw_caught_up_at s = 0)) (lm_swaps m)) @
            map (\<lambda>p. down_window (pr_node p) (pr_down_from p) (pr_down_to p))
              (filter (\<lambda>p. \<not> (pr_down_from p = 0 \<or> pr_down_to p = 0)) (lm_producers m)))"

definition waiver_windows :: "verifier \<Rightarrow> chaos_window list" where
  "waiver_windows v =
     (let ws = windows_of v;
          ws' = (case schedule_dump (vf_chaos v) of Inl _ \<Rightarrow> ws | Inr d \<Rightarrow> map (extend_straddle d) ws)
      in ws' @ (case vf_manifest v of Some (Inr m) \<Rightarrow> offline_windows m | _ \<Rightarrow> []))"

definition waived :: "chaos_window list \<Rightarrow> levent \<Rightarrow> bool" where
  "waived ws ev \<longleftrightarrow> (\<exists>w \<in> set ws. cw_covers w (le_node ev) (le_time ev) (30 * second))"

section \<open>Theorems on what is read\<close>

lemma replace_first_absent: "\<not> str_contains s k \<Longrightarrow> replace_first k r s = s"
  by (induction k r s rule: replace_first.induct) (simp_all add: str_contains_rec)

lemma normalised_logged: "normalised (logged t raw ev) = logged t raw ev"
proof -
  have "\<not> str_contains (kind_string k) ''bstar''" for k
    by (cases k) (simp_all add: str_contains_rec)
  moreover have "legacyFindings (finding_string f) = None" for f
    by (cases f) (simp_all add: legacyFindings_def)
  ultimately show ?thesis by (simp add: normalised_def logged_def replace_first_absent)
qed

lemma read_lines_logged:
  "\<forall>x \<in> set xs. decode (enc x) = Inr (logged (ft x) (fr x) (fe x)) \<and>
      trim_space (enc x) = enc x \<and> enc x \<noteq> '''' \<and> hd (enc x) = CHR 0x7B \<Longrightarrow>
   read_lines decode (map enc xs) = (map (\<lambda>x. logged (ft x) (fr x) (fe x)) xs, 0)"
proof (induction xs)
  case (Cons x xs)
  have "kind_string k \<noteq> ''''" for k by (cases k) simp_all
  then have "le_kind (logged (ft x) (fr x) (fe x)) \<noteq> ''''" by (simp add: logged_def)
  with Cons show ?case by (simp add: Let_def normalised_logged)
qed simp

text \<open>What the monitor writes the verifier reads back whole: a stream of events written one
  per line, whatever their kinds and findings, is read as those events in the order of their
  time stamps, none dropped and none renamed by the translation of the old names.\<close>

theorem read_events_roundtrip:
  assumes "\<forall>x \<in> set xs. decode (enc x) = Inr (logged (ft x) (fr x) (fe x)) \<and>
      trim_space (enc x) = enc x \<and> enc x \<noteq> '''' \<and> hd (enc x) = CHR 0x7B"
  shows "read_events decode (Inr (map enc xs, None)) =
    Inr (sort_key le_time (map (\<lambda>x. logged (ft x) (fr x) (fe x)) xs))"
  using read_lines_logged [OF assms] by (simp add: read_events_def)

theorem read_events_roundtrip_witness:
  "read_events (\<lambda>l. if l = ''{1}'' then Inr (logged 5 None (mk_event EvHeal ''node-2'' no_detail))
                    else Inr (logged 3 None (mk_event EvIsolate ''node-2'' no_detail)))
     (Inr ([''{1}'', ''{2}''], None)) =
   Inr [logged 3 None (mk_event EvIsolate ''node-2'' no_detail),
        logged 5 None (mk_event EvHeal ''node-2'' no_detail)]"
proof -
  let ?f = "\<lambda>b. if b then mk_event EvHeal ''node-2'' no_detail else mk_event EvIsolate ''node-2'' no_detail"
  have t: "le_time (logged t r e) = t" for t r e by (simp add: logged_def)
  have trim: "trim_space ''{1}'' = ''{1}''" "trim_space ''{2}'' = ''{2}''" by code_simp+
  show ?thesis
    using read_events_roundtrip
      [of "[True, False]" "\<lambda>l. if l = ''{1}'' then Inr (logged 5 None (mk_event EvHeal ''node-2'' no_detail))
                    else Inr (logged 3 None (mk_event EvIsolate ''node-2'' no_detail))"
          "\<lambda>b. if b then ''{1}'' else ''{2}''" "\<lambda>b. if b then 5 else 3" "\<lambda>_. None" ?f]
    by (simp add: trim t)
qed

section \<open>Participant indices\<close>

lemma show_nat_run: "show_nat n \<noteq> []" "\<forall>c \<in> set (show_nat n). is_digit c"
  by (simp_all add: show_nat_is_digit)

lemma digit_word: "is_digit c \<Longrightarrow> word_char c"
  by (auto simp: is_digit_def digit_of_def word_char_def Let_def split: if_splits)

lemma word_at_digits:
  assumes "d \<noteq> []" "\<forall>c \<in> set d. is_digit c"
  shows "word_at (rev d @ x)"
proof -
  obtain c cs where d: "rev d = c # cs" using assms(1) by (cases "rev d") auto
  then have "c \<in> set d" by (metis list.set_intros(1) set_rev)
  with d assms(2) show ?thesis by (simp add: word_at_def digit_word)
qed

lemma rmatch_index:
  assumes "nm \<in> {''node'', ''el''}" "z = [] \<or> \<not> word_char (hd z)"
  shows "\<exists>pre ms. rmatch node_index_re ([], nm @ ''-'' @ show_nat n @ z, []) =
    (pre, z, [(''1'', show_nat n)]) # ms"
proof -
  let ?d = "show_nat n"
  have nd: "z = [] \<or> \<not> is_digit (hd z)" using assms(2) digit_word by blast
  have m: "\<exists>ms. rmatch digits1 (pre, ?d @ z, caps) = (rev ?d @ pre, z, caps) # ms" for pre caps
    by (rule rmatch_digits1 [OF show_nat_run nd])
  have wb: "rmatch WordB (rev ?d @ pre, z, caps) = [(rev ?d @ pre, z, caps)]" for pre caps
    using word_at_digits [OF show_nat_run, of n pre] assms(2)
    by (cases z) (simp_all add: word_at_def)
  have g: "\<exists>ms. rmatch (Sq (Grp ''1'' digits1) WordB) (pre, ?d @ z, caps) =
      (rev ?d @ pre, z, (''1'', ?d) # caps) # ms" for pre caps
    using m [of pre caps] wb by (auto simp del: rmatch.simps(7))
  have "\<exists>ms. rmatch (Sq (Grp ''1'' digits1) WordB) (CHR ''-'' # rev nm, ?d @ z, []) =
      (rev ?d @ CHR ''-'' # rev nm, z, [(''1'', ?d)]) # ms"
    using g by blast
  then show ?thesis
    using assms(1)
    by (auto simp: node_index_re_def Let_def rmatch_Lit simp del: rmatch.simps(6) rmatch.simps(7) Lit.simps)
qed

lemma atoi_show_nat: "n < 2 ^ 63 \<Longrightarrow> atoi (show_nat n) = Some (int n)"
  using atoi_show_int [of "int n"] by (simp add: show_int_def)

lemma node_index_named:
  assumes "nm \<in> {''node'', ''el''}" "z = [] \<or> \<not> word_char (hd z)" "n < 2 ^ 63"
  shows "node_index (nm @ ''-'' @ show_nat n @ z) = Some (int n)"
proof -
  obtain pre ms where "rmatch node_index_re ([], nm @ ''-'' @ show_nat n @ z, []) =
      (pre, z, [(''1'', show_nat n)]) # ms"
    using rmatch_index [OF assms(1,2)] by blast
  then obtain x where "find_submatch node_index_re (nm @ ''-'' @ show_nat n @ z) = Some (x, [(''1'', show_nat n)])"
    unfolding find_submatch_def using rsearch_hit by blast
  moreover have "List.map_filter (map_of [(''1'', d)]) [''1'', ''2''] = [d]" for d :: string
    by (simp add: List.map_filter_def)
  ultimately show ?thesis by (simp add: node_index_def atoi_show_nat [OF assms(3)])
qed

text \<open>The two ways the streams name a participant agree: the chaos driver's \<open>node-<n>\<close>
  and a service name \<open>el-<n>-...\<close> denote the same node for the verifier exactly when they
  carry the same index, whatever follows it in the service name.\<close>

theorem same_node_index:
  assumes "m < 2 ^ 63" "n < 2 ^ 63"
  shows "same_node (node_name (int m)) (''el-'' @ show_nat n @ ''-'' @ rest) \<longleftrightarrow> m = n"
proof -
  have "node_index (node_name (int m)) = Some (int m)"
    using node_index_named [of "''node''" "[]" m] assms(1) by (simp add: node_name_def show_int_def)
  moreover have "node_index (''el-'' @ show_nat n @ ''-'' @ rest) = Some (int n)"
    using node_index_named [of "''el''" "''-'' @ rest" n] assms(2) by (simp add: word_char_def)
  moreover have "node_name (int m) \<noteq> ''el-'' @ show_nat n @ ''-'' @ rest" by (simp add: node_name_def)
  ultimately show ?thesis by (simp add: same_node_def)
qed

theorem same_node_index_witness: "same_node (node_name 3) (''el-3-geth-lighthouse'')"
proof -
  have "show_nat 3 = ''3''" by code_simp
  then show ?thesis using same_node_index [of 3 3 "''geth-lighthouse''"] by simp
qed

section \<open>Windows\<close>

text \<open>What the chaos stream says of one node: an isolation opens a window unless one is open,
  the next heal of that node or of all closes it.\<close>

definition heals :: "string \<Rightarrow> levent \<Rightarrow> bool" where
  "heals n ev \<longleftrightarrow> is_kind EvHeal ev \<and> (le_node ev = '''' \<or> le_node ev = n)"

definition isolates_node :: "string \<Rightarrow> levent \<Rightarrow> bool" where
  "isolates_node n ev \<longleftrightarrow> is_kind EvIsolate ev \<and> le_node ev = n"

fun node_windows :: "string \<Rightarrow> gotime option \<Rightarrow> levent list \<Rightarrow> chaos_window list" where
  "node_windows n None [] = []"
| "node_windows n (Some t) [] = [\<lparr>cw_node = n, cw_from = t, cw_to = zero_time, cw_healed = False\<rparr>]"
| "node_windows n None (ev # evs) =
     (if isolates_node n ev then node_windows n (Some (le_time ev)) evs else node_windows n None evs)"
| "node_windows n (Some t) (ev # evs) =
     (if heals n ev then
        \<lparr>cw_node = n, cw_from = t, cw_to = le_time ev, cw_healed = True\<rparr> # node_windows n None evs
      else node_windows n (Some t) evs)"

lemma kinds_differ: "is_kind EvIsolate ev \<Longrightarrow> \<not> is_kind EvHeal ev"
  by (simp add: is_kind_def)

text \<open>The open windows: one per name, filed under the node they name, not healed.\<close>

definition open_ok :: "open_windows \<Rightarrow> bool" where
  "open_ok opn \<longleftrightarrow> distinct (map fst opn) \<and>
     (\<forall>(k, w) \<in> set opn. cw_node w = k \<and> cw_to w = zero_time \<and> \<not> cw_healed w)"

definition of_node :: "string \<Rightarrow> chaos_window list \<Rightarrow> chaos_window list" where
  "of_node n ws = filter (\<lambda>w. cw_node w = n) ws"

lemma of_node_append [simp]: "of_node n (xs @ ys) = of_node n xs @ of_node n ys"
  by (simp add: of_node_def)

lemma of_node_open:
  assumes "distinct (map fst xs)" "\<forall>(k, w) \<in> set xs. cw_node w = k" "\<And>w. cw_node (f w) = cw_node w"
  shows "of_node n (map (\<lambda>(_, w). f w) xs) = (case map_of xs n of None \<Rightarrow> [] | Some w \<Rightarrow> [f w])"
  using assms(1,2)
proof (induction xs)
  case (Cons x xs)
  obtain k w where x: "x = (k, w)" by (cases x)
  have "map_of xs n = None" if "k = n"
    using Cons.prems(1) that x by (simp add: map_of_eq_None_iff)
  with Cons x assms(3) show ?case by (auto simp: of_node_def split: option.splits)
qed (simp add: of_node_def)

lemma open_ok_lookup:
  assumes "open_ok opn" "mset opn' = mset opn" "\<And>w. cw_node (f w) = cw_node w"
  shows "of_node n (map (\<lambda>(_, w). f w) opn') =
    (case map_of opn n of None \<Rightarrow> [] | Some w \<Rightarrow> [f w])"
proof -
  have s: "set opn' = set opn" using assms(2) by (rule mset_eq_setD)
  have "mset (map fst opn') = mset (map fst opn)" using assms(2) by simp
  with assms(1) have d: "distinct (map fst opn')" by (metis mset_eq_imp_distinct_iff open_ok_def)
  from assms(1) have k: "\<forall>(k, w) \<in> set opn. cw_node w = k"
    unfolding open_ok_def by auto
  have "map_of opn' = map_of opn"
    using assms(1) d s by (intro map_of_inject_set [THEN iffD2]) (simp_all add: open_ok_def)
  with of_node_open [OF d, of f n] k s assms(3) show ?thesis by simp
qed

definition of_open :: "string \<Rightarrow> open_windows \<Rightarrow> gotime option" where
  "of_open n opn = map_option cw_from (map_of opn n)"

lemma open_ok_mem: "open_ok opn \<Longrightarrow> map_of opn n = Some w \<Longrightarrow>
    w = \<lparr>cw_node = n, cw_from = cw_from w, cw_to = zero_time, cw_healed = False\<rparr>"
  by (cases w) (auto simp: open_ok_def dest!: map_of_SomeD)

lemma open_ok_heal: "open_ok opn \<Longrightarrow> map_of opn n = Some w \<Longrightarrow>
    w\<lparr>cw_to := t, cw_healed := True\<rparr> = \<lparr>cw_node = n, cw_from = cw_from w, cw_to = t, cw_healed = True\<rparr>"
  by (cases w) (auto simp: open_ok_def dest!: map_of_SomeD)

lemma open_ok_isolate:
  assumes "open_ok opn" "map_of opn k = None"
  shows "open_ok (opn @ [(k, \<lparr>cw_node = k, cw_from = t, cw_to = zero_time, cw_healed = False\<rparr>)])"
  using assms by (auto simp: open_ok_def map_of_eq_None_iff)

lemma open_ok_filter:
  assumes "open_ok opn"
  shows "open_ok (filter P opn)"
  using assms by (auto simp: open_ok_def distinct_map_filter)

lemma map_of_drop_key:
  "map_of (filter (\<lambda>(k, _). k \<noteq> m) xs) n = (if n = m then None else map_of xs n)"
  by (induction xs) auto

text \<open>One step of the loop, seen from one node.\<close>

lemma window_step_node:
  assumes "open_ok opn" and rng: "\<And>xs. mset (rng xs) = mset xs"
    and st: "window_step rng ev (opn, clo) = (opn', clo')"
  shows "open_ok opn' \<and>
    of_node n clo' @ node_windows n (of_open n opn') evs =
      of_node n clo @ node_windows n (of_open n opn) (ev # evs)"
proof -
  consider (isolate) "is_kind EvIsolate ev" "map_of opn (le_node ev) = None"
    | (again) w where "is_kind EvIsolate ev" "map_of opn (le_node ev) = Some w"
    | (all) "is_kind EvHeal ev" "le_node ev = ''''"
    | (one) w where "is_kind EvHeal ev" "le_node ev \<noteq> ''''" "map_of opn (le_node ev) = Some w"
    | (none) "is_kind EvHeal ev" "le_node ev \<noteq> ''''" "map_of opn (le_node ev) = None"
    | (other) "\<not> is_kind EvIsolate ev" "\<not> is_kind EvHeal ev"
    by (cases "map_of opn (le_node ev)") auto
  then show ?thesis
  proof cases
    case isolate
    then have "opn' = opn @ [(le_node ev, \<lparr>cw_node = le_node ev, cw_from = le_time ev,
        cw_to = zero_time, cw_healed = False\<rparr>)]" "clo' = clo"
      using st by (simp_all add: window_step_def)
    then show ?thesis
      using isolate open_ok_isolate [OF assms(1) isolate(2)] kinds_differ [OF isolate(1)]
      by (cases "map_of opn n") (auto simp: of_open_def isolates_node_def heals_def map_add_def)
  next
    case again
    then have "opn' = opn" "clo' = clo" using st by (simp_all add: window_step_def)
    then show ?thesis
      using again assms(1) kinds_differ [OF again(1)]
      by (cases "map_of opn n") (auto simp: of_open_def isolates_node_def heals_def)
  next
    case all
    then have o: "opn' = []"
      "clo' = clo @ map (\<lambda>(_, w). w\<lparr>cw_to := le_time ev, cw_healed := True\<rparr>) (rng opn)"
      using st by (auto simp: window_step_def is_kind_def)
    have "of_node n clo' = of_node n clo @
        (case map_of opn n of None \<Rightarrow> [] | Some w \<Rightarrow> [w\<lparr>cw_to := le_time ev, cw_healed := True\<rparr>])"
      using open_ok_lookup [OF assms(1) rng, of "\<lambda>w. w\<lparr>cw_to := le_time ev, cw_healed := True\<rparr>" n] o
      by simp
    then show ?thesis
      using all o open_ok_heal [OF assms(1), of n] kinds_differ [of ev]
      by (cases "map_of opn n") (auto simp: of_open_def isolates_node_def heals_def open_ok_def)
  next
    case one
    then have o: "opn' = filter (\<lambda>(k, _). k \<noteq> le_node ev) opn"
      "clo' = clo @ [w\<lparr>cw_to := le_time ev, cw_healed := True\<rparr>]"
      using st by (auto simp: window_step_def is_kind_def)
    have w: "cw_node w = le_node ev"
      using open_ok_mem [OF assms(1) one(3)] by (metis chaos_window.select_convs(1))
    note open_ok_heal [OF assms(1) one(3), of "le_time ev"]
    with w show ?thesis
      using one(1-3) o open_ok_filter [OF assms(1)] kinds_differ [of ev]
      by (cases "n = le_node ev"; cases "map_of opn n")
        (auto simp: of_open_def isolates_node_def heals_def of_node_def map_of_drop_key)
  next
    case none
    then have "opn' = opn" "clo' = clo" using st by (auto simp: window_step_def is_kind_def)
    then show ?thesis
      using none assms(1) kinds_differ [of ev]
      by (cases "map_of opn n") (auto simp: of_open_def isolates_node_def heals_def)
  next
    case other
    then have "opn' = opn" "clo' = clo" using st by (simp_all add: window_step_def)
    then show ?thesis
      using other assms(1)
      by (cases "map_of opn n") (auto simp: of_open_def isolates_node_def heals_def)
  qed
qed

lemma window_fold_node:
  assumes rng: "\<And>xs. mset (rng xs) = mset xs" and "open_ok opn"
    and "foldl (\<lambda>st ev. window_step rng ev st) (opn, clo) evs = (opn', clo')"
  shows "open_ok opn' \<and>
    of_node n clo' @ node_windows n (of_open n opn') [] =
      of_node n clo @ node_windows n (of_open n opn) evs"
  using assms(2,3)
proof (induction evs arbitrary: opn clo)
  case (Cons ev evs)
  obtain opn1 clo1 where st: "window_step rng ev (opn, clo) = (opn1, clo1)"
    by (cases "window_step rng ev (opn, clo)") auto
  with Cons.IH [of opn1 clo1] Cons.prems window_step_node [OF Cons.prems(1) rng st, of n evs]
  show ?case by simp
qed simp

text \<open>C38: Whatever order Go ranges over its map in, the windows of a node are exactly what the
  stream says of that node, in order: each opened by an isolation of it and closed by the next
  heal of it or of all, a repeated isolation of an open window opening no second one.\<close>

theorem chaos_windows_exact:
  assumes "\<And>xs. mset (rng xs) = mset xs"
  shows "of_node n (chaos_windows rng chaos) = node_windows n None chaos"
proof -
  obtain opn clo where f: "foldl (\<lambda>st ev. window_step rng ev st) ([], []) chaos = (opn, clo)"
    by (cases "foldl (\<lambda>st ev. window_step rng ev st) ([], []) chaos") auto
  have "open_ok []" by (simp add: open_ok_def)
  from window_fold_node [OF assms this f, of n]
  have ok: "open_ok opn" and e: "of_node n clo @ node_windows n (of_open n opn) [] = node_windows n None chaos"
    by (simp_all add: of_node_def of_open_def)
  have "of_node n (map snd (rng opn)) = node_windows n (of_open n opn) []"
    using open_ok_lookup [OF ok assms, of "\<lambda>w. w" n] open_ok_mem [OF ok, of n]
    by (cases "map_of opn n") (auto simp: of_open_def case_prod_unfold cong: map_cong)
  with e f show ?thesis by (simp add: chaos_windows_def)
qed

definition sample_chaos :: "levent list" where
  "sample_chaos = map (\<lambda>(t, k, n). logged t None (mk_event k n no_detail))
     [(1, EvIsolate, ''node-2''), (2, EvIsolate, ''node-3''), (3, EvIsolate, ''node-2''),
      (4, EvHeal, ''node-2''), (5, EvIsolate, ''node-2''), (6, EvHeal, '''')]"

theorem chaos_windows_exact_witness:
  "map (\<lambda>w. (cw_from w, cw_to w, cw_healed w)) (of_node ''node-2'' (chaos_windows rev sample_chaos)) =
    [(1, 4, True), (5, 6, True)]"
proof -
  have "of_node ''node-2'' (chaos_windows rev sample_chaos) = node_windows ''node-2'' None sample_chaos"
    by (rule chaos_windows_exact) simp
  then show ?thesis
    by (simp add: sample_chaos_def logged_def isolates_node_def heals_def is_kind_def)
qed


end
