(* ===== verification/VerifyChain.thy ===== *)
theory VerifyChain
  imports VerifyLog "HOL-Library.AList"
begin

text \<open>
  The checks of \<open>cmd/verify-migration\<close> that read the chain over JSON-RPC (\<open>checks.go\<close>,
  \<open>boundary.go\<close>, the calls of \<open>main.go\<close>): the fork block \<open>I*\<close> from the monitor and from a binary
  search, the pre-fork chain and its traffic, agreement around the fork, the genesis pins, the
  settled fork block, the orphans, the finalized end state and the walk of an orphaned branch.
  A node's answers are a parameter: during one check the answer to a call is a function of the
  call. A block's hash is the text \<open>Hash.Hex()\<close> gives. Loops over heights run up to a bound below
  the largest 64-bit number. Where Go ranges over a map to build a message, the order here is
  that of the first insertion.
\<close>

section \<open>Verdicts\<close>

datatype verdict = Pass | Fail | Inconclusive

type_synonym outcome = "verdict \<times> detail"

definition bool_verdict :: "bool \<Rightarrow> verdict" where
  "bool_verdict b = (if b then Pass else Fail)"

definition joined :: "detail list \<Rightarrow> detail" where
  "joined ds = Fmt (joined_with ''; '' (map (\<lambda>_. ''%s'') ds)) (map DD ds)"

definition settle :: "detail list \<Rightarrow> outcome \<Rightarrow> outcome" where
  "settle problems rest = (if problems \<noteq> [] then (Fail, joined problems) else rest)"

lemma settle_verdict [simp]:
  "fst (settle ps r) = (if ps = [] then fst r else Fail)"
  by (simp add: settle_def)

section \<open>Calls\<close>

datatype tag = AtNumber u64 | Latest | Finalized

record rpc =
  rp_block :: "el \<Rightarrow> tag \<Rightarrow> string + header option"
  rp_by_hash :: "el \<Rightarrow> string \<Rightarrow> string + header option"
  rp_tx_count :: "el \<Rightarrow> u64 \<Rightarrow> string + u64 option"
  rp_storage :: "el \<Rightarrow> string \<Rightarrow> string \<Rightarrow> string + string"
  rp_receipt :: "el \<Rightarrow> string \<Rightarrow> string + string option"

definition dnat :: "u64 \<Rightarrow> darg" where
  "dnat n = DI (uint n)"

definition tag_arg :: "tag \<Rightarrow> darg" where
  "tag_arg t = (case t of AtNumber n \<Rightarrow> dnat n | Latest \<Rightarrow> DS ''latest'' | Finalized \<Rightarrow> DS ''finalized'')"

definition get_block :: "rpc \<Rightarrow> el \<Rightarrow> tag \<Rightarrow> detail + header" where
  "get_block r e t =
     (case rp_block r e t of
        Inl err \<Rightarrow> Inl (Fmt ''%s: %w'' [DS (el_name e), DS err])
      | Inr None \<Rightarrow> Inl (Fmt ''%s has no block %s'' [DS (el_name e), tag_arg t])
      | Inr (Some b) \<Rightarrow> Inr b)"

definition get_block_by_hash :: "rpc \<Rightarrow> el \<Rightarrow> string \<Rightarrow> detail + header option" where
  "get_block_by_hash r e h =
     (case rp_by_hash r e h of
        Inl err \<Rightarrow> Inl (Fmt ''%s: %w'' [DS (el_name e), DS err])
      | Inr b \<Rightarrow> Inr b)"

definition tx_count :: "rpc \<Rightarrow> el \<Rightarrow> u64 \<Rightarrow> detail + u64" where
  "tx_count r e n =
     (case rp_tx_count r e n of
        Inl err \<Rightarrow> Inl (Fmt ''%s: %w'' [DS (el_name e), DS err])
      | Inr None \<Rightarrow> Inl (Fmt ''%s has no block %d'' [DS (el_name e), dnat n])
      | Inr (Some k) \<Rightarrow> Inr k)"

text \<open>The heights \<open>for n := lo; n <= hi; n++\<close> visits.\<close>

definition heights :: "u64 \<Rightarrow> u64 \<Rightarrow> u64 list" where
  "heights lo hi = map of_nat [unat lo..<Suc (unat hi)]"

lemma set_heights: "set (heights lo hi) = {n. lo \<le> n \<and> n \<le> hi}"
proof -
  have "n \<in> of_nat ` {unat lo..<Suc (unat hi)}" if "lo \<le> n" "n \<le> hi" for n
    using that by (intro image_eqI [of _ _ "unat n"]) (simp_all add: word_le_nat_alt)
  moreover have "lo \<le> of_nat k \<and> (of_nat k :: u64) \<le> hi" if "unat lo \<le> k" "k < Suc (unat hi)" for k
  proof -
    have "k < 2 ^ 64" using that unsigned_less [of hi, where ?'a = nat] by simp
    then have "unat (of_nat k :: u64) = k" by (simp add: unat_of_nat take_bit_eq_mod)
    with that show ?thesis by (simp add: word_le_nat_alt)
  qed
  ultimately show ?thesis unfolding heights_def by force
qed

section \<open>The fork block\<close>

definition node_vals :: "levent list \<Rightarrow> (string \<times> u64) list" where
  "node_vals monitor =
     foldl (\<lambda>m ev. if is_kind EvIStar ev then AList.update (le_node ev) (le_number ev) m else m)
       [] monitor"

function backwalk_loop :: "rpc \<Rightarrow> el \<Rightarrow> u64 \<Rightarrow> u64 \<Rightarrow> u64 \<Rightarrow> detail + u64" where
  "backwalk_loop r e T lo hi =
     (if lo < hi then
        let mid = lo + (hi - lo) div 2
        in (case get_block r e (AtNumber mid) of
              Inl err \<Rightarrow> Inl err
            | Inr b \<Rightarrow> if T \<le> h_time b then backwalk_loop r e T lo mid
                       else backwalk_loop r e T (mid + 1) hi)
      else Inr lo)"
  by pat_completeness auto

termination
proof (relation "measure (\<lambda>(r, e, T, lo, hi). unat hi - unat lo)", goal_cases)
  case (2 r e T lo hi mid b)
  then have "unat lo < unat hi" "unat mid < unat hi"
    using mid_bounds [OF 2(1)] by (simp_all add: word_less_nat_alt)
  then show ?case by simp
next
  case (3 r e T lo hi mid b)
  then have "mid < hi" "unat lo \<le> unat mid"
    using mid_bounds [OF 3(1)] by (simp_all add: word_le_nat_alt)
  moreover from this have "unat (mid + 1) = Suc (unat mid)" using unat_inc [of mid] not_max by auto
  ultimately show ?case by (auto simp: word_less_nat_alt)
qed simp

declare backwalk_loop.simps [simp del]

definition backwalk_istar :: "rpc \<Rightarrow> u64 \<Rightarrow> el \<Rightarrow> detail + u64" where
  "backwalk_istar r T e =
     (case get_block r e Latest of
        Inl err \<Rightarrow> Inl err
      | Inr head \<Rightarrow>
          if h_time head < T then
            Inl (Fmt ''%s head time %d has not reached T=%d yet'' [DS (el_name e), dnat (h_time head), dnat T])
          else backwalk_loop r e T 0 (h_number head))"

text \<open>The monitor's istar events against the walk; the result is the verifier's \<open>I*\<close>.\<close>

definition resolve_istar :: "rpc \<Rightarrow> el list \<Rightarrow> u64 \<Rightarrow> levent list \<Rightarrow> detail + u64 \<times> detail" where
  "resolve_istar r els T monitor =
     (let vals = node_vals monitor;
          rpc = (case els of [] \<Rightarrow> Inl (lit ''no --el configured'') | e # _ \<Rightarrow> backwalk_istar r T e)
      in case vals of
           [] \<Rightarrow>
             (case rpc of
                Inr n \<Rightarrow> Inr (n, Fmt ''I*=%d (rpc backwalk only, no monitor istar events)'' [dnat n])
              | Inl err \<Rightarrow> Inl (Fmt ''no monitor istar events and rpc backwalk failed: %w'' [DD err]))
         | (_, m) # rest \<Rightarrow>
             if \<exists>x \<in> set rest. snd x \<noteq> m then
               Inl (Fmt ''monitor istar events disagree across nodes: %v'' [DL (map fst vals)])
             else
               (case rpc of
                  Inr n \<Rightarrow>
                    if m = n then Inr (m, Fmt ''I*=%d (monitor istar events agree with rpc backwalk)'' [dnat m])
                    else Inl (Fmt ''monitor istar=%d disagrees with rpc backwalk=%d'' [dnat m, dnat n])
                | Inl err \<Rightarrow>
                    Inr (m, Fmt ''I*=%d (monitor istar events only, rpc backwalk failed: %v)'' [dnat m, DD err])))"

definition istar_unresolved :: "detail \<Rightarrow> outcome" where
  "istar_unresolved e = (Fail, Fmt ''I* unresolved: %v'' [DD e])"

section \<open>Before the fork\<close>

definition required_blocks :: "schedule_error + dump \<Rightarrow> u64" where
  "required_blocks sched =
     (case sched of
        Inl _ \<Rightarrow> 101
      | Inr d \<Rightarrow>
          if 0 < du_slot_seconds d \<and> du_genesis d < du_fork d then
            let derived = of_int (go_div (wrap64 (go_div (wrap64 (du_fork d - du_genesis d)) (du_slot_seconds d) * 3)) 4)
            in if derived < 101 then derived else 101
          else 101)"

definition check_chain_before_fork :: "verifier \<Rightarrow> outcome" where
  "check_chain_before_fork v =
     (case vf_istar v of
        Inl e \<Rightarrow> istar_unresolved e
      | Inr (n, evidence) \<Rightarrow>
          let m = required_blocks (schedule_dump (vf_chaos v))
          in if n < m then
               (Fail, Fmt ''I*=%d, need >= %d canonical blocks before the fork for this profile'' [dnat n, dnat m])
             else (Pass, evidence))"

text \<open>The first height with a transaction among the given ones.\<close>

fun first_tx :: "rpc \<Rightarrow> el \<Rightarrow> u64 list \<Rightarrow> detail + u64 option" where
  "first_tx r e [] = Inr None"
| "first_tx r e (n # ns) =
     (case tx_count r e n of
        Inl err \<Rightarrow> Inl (Fmt ''tx count for block %d: %v'' [dnat n, DD err])
      | Inr k \<Rightarrow> if 0 < k then Inr (Some n) else first_tx r e ns)"

definition bucket_end :: "u64 \<Rightarrow> u64 \<Rightarrow> u64" where
  "bucket_end lo en = (if en < lo + 24 then en else lo + 24)"

text \<open>The buckets from \<open>lo\<close> on, the empty ones collected, or the error that stops the check.
  The loop's variable wraps, so it ends only when the bound leaves room for one more step.\<close>

partial_function (option) empty_buckets ::
  "rpc \<Rightarrow> el \<Rightarrow> u64 \<Rightarrow> u64 \<Rightarrow> (u64 \<times> u64) list \<Rightarrow> (detail + (u64 \<times> u64) list) option"
where
  "empty_buckets r e lo en acc =
     (if \<not> lo \<le> en then Some (Inr acc)
      else
        (case first_tx r e (heights lo (bucket_end lo en)) of
           Inl err \<Rightarrow> Some (Inl err)
         | Inr found \<Rightarrow>
             empty_buckets r e (lo + 25) en
               (if found = None then acc @ [(lo, bucket_end lo en)] else acc)))"

declare empty_buckets.simps [code]

definition check_traffic_coverage :: "verifier \<Rightarrow> rpc \<Rightarrow> outcome option" where
  "check_traffic_coverage v r =
     (case vf_istar v of
        Inl e \<Rightarrow> Some (istar_unresolved e)
      | Inr (istar, _) \<Rightarrow>
          (case vf_els v of
             [] \<Rightarrow> Some (Fail, lit ''no --el configured'')
           | e # _ \<Rightarrow>
               (case first_tx r e (heights 0 50) of
                  Inl err \<Rightarrow> Some (Fail, err)
                | Inr None \<Rightarrow> Some (Fail, lit ''no block with >=1 tx found in [0,50]'')
                | Inr (Some s0) \<Rightarrow>
                    if istar = 0 \<or> istar - 1 < s0 then
                      Some (Fail, Fmt ''s0=%d is not before I*-1 (I*=%d)'' [dnat s0, dnat istar])
                    else
                      (case empty_buckets r e s0 (istar - 1) [] of
                         None \<Rightarrow> None
                       | Some (Inl err) \<Rightarrow> Some (Fail, err)
                       | Some (Inr bs) \<Rightarrow>
                           Some (if bs \<noteq> [] then
                                   (Fail, Fmt ''s0=%d but empty 25-block bucket(s): %s''
                                      [dnat s0, DD (Fmt '','' (map (\<lambda>(a, b). DD (Fmt ''[%d,%d]'' [dnat a, dnat b])) bs))])
                                 else
                                   (Pass, Fmt ''s0=%d, every 25-block bucket in [%d,%d] has >=1 tx block''
                                      [dnat s0, dnat s0, dnat (istar - 1)]))))))"

section \<open>Around the fork\<close>

text \<open>The answers of one height: each node's block or its error.\<close>

definition height_answers :: "rpc \<Rightarrow> el list \<Rightarrow> u64 \<Rightarrow> (el \<times> (detail + header)) list" where
  "height_answers r els n = map (\<lambda>e. (e, get_block r e (AtNumber n))) els"

definition answer_errors :: "(el \<times> (detail + header)) list \<Rightarrow> detail list" where
  "answer_errors as = List.map_filter (\<lambda>(_, a). case a of Inl err \<Rightarrow> Some err | Inr _ \<Rightarrow> None) as"

definition disagreements :: "u64 \<Rightarrow> (el \<times> (detail + header)) list \<Rightarrow> detail list" where
  "disagreements n as =
     (case as of
        (e0, Inr b0) # rest \<Rightarrow>
          List.map_filter
            (\<lambda>(e, a). case a of
               Inr b \<Rightarrow>
                 if h_hash b \<noteq> h_hash b0 \<or> h_root b \<noteq> h_root b0 then
                   Some (Fmt ''block %d: %s disagrees with %s on hash/stateRoot''
                           [dnat n, DS (el_name e), DS (el_name e0)])
                 else None
             | Inl _ \<Rightarrow> None) rest
      | _ \<Rightarrow> [])"

definition height_problems :: "bool \<Rightarrow> rpc \<Rightarrow> el list \<Rightarrow> u64 \<Rightarrow> detail list" where
  "height_problems smoke r els n =
     (let as = height_answers r els n; errs = answer_errors as
      in if errs \<noteq> [] then map (\<lambda>err. Fmt ''block %d: %v'' [dnat n, DD err]) errs
         else if smoke then [] else disagreements n as)"

definition check_boundary_agreement :: "verifier \<Rightarrow> rpc \<Rightarrow> outcome" where
  "check_boundary_agreement v r =
     (case vf_istar v of
        Inl e \<Rightarrow> istar_unresolved e
      | Inr (b, _) \<Rightarrow>
          if vf_els v = [] then (Fail, lit ''no --el configured'')
          else
            let lo = (if 32 \<le> b then b - 32 else 0); hi = b + 10; hs = heights lo hi;
                problems = concat (map (height_problems (vf_smoke v) r (vf_els v)) hs);
                checked = length (filter (\<lambda>n. answer_errors (height_answers r (vf_els v) n) = []) hs)
            in settle problems
                 (Pass, Fmt ''%d block(s) in [%d,%d] agree across %d node(s)''
                    [DI (int checked), dnat lo, dnat hi, DI (int (length (vf_els v)))]))"

definition genesis_problems :: "rpc \<Rightarrow> string option \<Rightarrow> string \<Rightarrow> el \<Rightarrow> detail list" where
  "genesis_problems r hash pin e =
     (case get_block r e (AtNumber 0) of
        Inl err \<Rightarrow> [Fmt ''%s: %v'' [DS (el_name e), DD err]]
      | Inr b \<Rightarrow>
          (case hash of
             Some h \<Rightarrow> if \<not> equal_fold (h_hash b) h then
                 [Fmt ''%s genesis hash %s != pinned %s'' [DS (el_name e), DS (h_hash b), DS h]] else []
           | None \<Rightarrow> []) @
          (if \<not> equal_fold (h_root b) pin then
             [Fmt ''%s genesis stateRoot %s != pinned %s'' [DS (el_name e), DS (h_root b), DS pin]] else []))"

definition check_genesis_pins :: "verifier \<Rightarrow> rpc \<Rightarrow> outcome" where
  "check_genesis_pins v r =
     (case vf_pins v of
        Inl e \<Rightarrow> (Fail, Fmt ''pins: %v'' [DS e])
      | Inr pins \<Rightarrow>
          (case pins ''genesis_state_root'' of
             None \<Rightarrow> (Fail, lit ''pins file missing genesis_state_root'')
           | Some pin \<Rightarrow>
               let hash = pins ''genesis_hash''
               in if hash = Some ''pending'' \<or> pin = ''pending'' then
                    (if vf_smoke v then (Pass, lit ''WARN: genesis pins are pending (allowed under --smoke)'')
                     else (Fail, lit ''genesis pins are pending''))
                  else
                    settle (concat (map (genesis_problems r hash pin) (vf_els v)))
                      (Pass, Fmt ''genesis %s match pins across %d node(s)''
                         [DS (if hash = None then ''stateRoot'' else ''hash/stateRoot''),
                          DI (int (length (vf_els v)))])))"

section \<open>The settled fork block\<close>

text \<open>A node's record is the last event's height and hash; the records of istar-final events,
  or, without any, the latest of the others.\<close>

definition fork_records :: "(levent \<Rightarrow> bool) \<Rightarrow> levent list \<Rightarrow> (string \<times> u64 \<times> string) list" where
  "fork_records P monitor =
     foldl (\<lambda>m ev. if P ev then AList.update (le_node ev) (le_number ev, le_hash ev) m else m) [] monitor"

definition fork_seen :: "levent \<Rightarrow> bool" where
  "fork_seen ev \<longleftrightarrow> is_kind EvIStar ev \<or> is_kind EvIStarReorged ev"

definition final_fork_block :: "levent list \<Rightarrow> detail + u64 \<times> string" where
  "final_fork_block monitor =
     (let final = fork_records (is_kind EvIStarFinal) monitor;
          (recs, source) = (if final = [] then (fork_records fork_seen monitor, ''istar'')
                            else (final, ''istar-final''))
      in case recs of
           [] \<Rightarrow> Inl (lit ''no istar record observed to establish a final fork block'')
         | (_, ref) # rest \<Rightarrow>
             let dis = map fst (filter (\<lambda>x. snd x \<noteq> ref) rest)
             in if dis \<noteq> [] then
                  Inl (Fmt ''%s records disagree across nodes: reference block %d %s, disagreeing %s''
                         [DS source, dnat (fst ref), DS (snd ref), DL (sort dis)])
                else Inr ref)"

definition serves_fork_block :: "rpc \<Rightarrow> u64 \<times> string \<Rightarrow> el \<Rightarrow> detail list" where
  "serves_fork_block r final e =
     (case get_block r e (AtNumber (fst final)) of
        Inl err \<Rightarrow> [Fmt ''%s: %v'' [DS (el_name e), DD err]]
      | Inr b \<Rightarrow>
          if \<not> equal_fold (h_hash b) (snd final) then
            [Fmt ''%s block %d hash %s != final fork-block hash %s''
               [DS (el_name e), dnat (fst final), DS (h_hash b), DS (snd final)]]
          else [])"

definition unwaived :: "chaos_window list \<Rightarrow> (levent \<Rightarrow> bool) \<Rightarrow> levent list \<Rightarrow> levent list" where
  "unwaived ws P monitor = filter (\<lambda>ev. P ev \<and> \<not> waived ws ev) monitor"

definition provisional_hashes :: "levent list \<Rightarrow> string list" where
  "provisional_hashes monitor =
     remdups (map le_hash (filter (\<lambda>ev. fork_seen ev \<and> le_hash ev \<noteq> '''') monitor))"

definition check_forkblock_convergence :: "verifier \<Rightarrow> rpc \<Rightarrow> outcome" where
  "check_forkblock_convergence v r =
     (case final_fork_block (vf_monitor v) of
        Inl e \<Rightarrow> (Fail, e)
      | Inr final \<Rightarrow>
          settle (concat (map (serves_fork_block r final) (vf_els v)))
            (settle (map (\<lambda>ev. Fmt ''unwaived no-convergence at %s (node %s): %s''
                            [DI (le_time ev), DS (le_node ev), DS (le_detail ev)])
                      (unwaived (waiver_windows v)
                         (\<lambda>ev. is_kind EvCritical ev \<and> is_finding FindingNoConvergence ev) (vf_monitor v)))
               (let k = length (provisional_hashes (vf_monitor v));
                    args = [DI (int (length (vf_els v))), dnat (fst final), DS (snd final), DI (int k)]
                in if k < 2 then
                     (Inconclusive, Fmt ''all %d node(s) agree on final fork block %d (%s), 0 unwaived no-convergence, but only %d distinct provisional fork-block hash(es) observed, need >= 2 to prove two branches crossed independently'' args)
                   else
                     (Pass, Fmt ''all %d node(s) agree on final fork block %d (%s), 0 unwaived no-convergence, %d distinct provisional fork-block hashes observed'' args))))"

section \<open>Orphans\<close>

definition orphan_hash_re :: re where
  "orphan_hash_re = Sq (Lit ''0x'') (times 64 (Cls hex_char))"

definition find_hash :: "string \<Rightarrow> string" where
  "find_hash s = (case find_submatch orphan_hash_re s of None \<Rightarrow> '''' | Some (m, _) \<Rightarrow> m)"

fun orphans_from :: "string list \<Rightarrow> levent list \<Rightarrow> (u64 \<times> string) list" where
  "orphans_from seen [] = []"
| "orphans_from seen (ev # evs) =
     (let old = find_hash (le_detail ev)
      in if \<not> is_kind EvIStarReorged ev \<or> old = '''' \<or> old \<in> set seen then orphans_from seen evs
         else (le_number ev, old) # orphans_from (old # seen) evs)"

definition orphaned_fork_blocks :: "levent list \<Rightarrow> (u64 \<times> string) list" where
  "orphaned_fork_blocks monitor = orphans_from [] monitor"

text \<open>One node asked for one orphan; \<open>canon\<close> memoises the canonical hash of a height, the
  first node's to answer.\<close>

type_synonym canon_memo = "u64 \<rightharpoonup> string"

definition ask_orphan ::
  "rpc \<Rightarrow> u64 \<times> string \<Rightarrow> canon_memo \<times> detail list \<Rightarrow> el \<Rightarrow> canon_memo \<times> detail list"
where
  "ask_orphan r orphan st e =
     (case st of (canon, ps) \<Rightarrow>
        (case get_block_by_hash r e (snd orphan) of
           Inl err \<Rightarrow>
             (canon, ps @ [Fmt ''%s: eth_getBlockByHash(%s): %v'' [DS (el_name e), DS (snd orphan), DD err]])
         | Inr None \<Rightarrow> (canon, ps)
         | Inr (Some b) \<Rightarrow>
             let height = h_number b;
                 judge = (\<lambda>h. if equal_fold (h_hash b) h then
                    [Fmt ''%s still serves orphaned block %s at height %d as canonical''
                       [DS (el_name e), DS (snd orphan), dnat height]] else [])
             in (case canon height of
                   Some h \<Rightarrow> (canon, ps @ judge h)
                 | None \<Rightarrow>
                     (case get_block r e (AtNumber height) of
                        Inl err \<Rightarrow>
                          (canon, ps @ [Fmt ''%s: canonical block %d: %v''
                                          [DS (el_name e), dnat height, DD err]])
                      | Inr cb \<Rightarrow> (canon(height \<mapsto> h_hash cb), ps @ judge (h_hash cb))))))"

definition orphan_problems :: "rpc \<Rightarrow> el list \<Rightarrow> (u64 \<times> string) list \<Rightarrow> canon_memo \<times> detail list" where
  "orphan_problems r els orphans =
     foldl (\<lambda>st x. foldl (ask_orphan r x) st els) (Map.empty, []) orphans"

definition check_orphan_gone :: "verifier \<Rightarrow> rpc \<Rightarrow> outcome" where
  "check_orphan_gone v r =
     (let orphans = orphaned_fork_blocks (vf_monitor v)
      in if orphans = [] then
           (Inconclusive, lit ''no orphaned post-fork block identified (no istar-reorged event with a parsable old hash)'')
         else
           settle (snd (orphan_problems r (vf_els v) orphans))
             (Pass, Fmt ''%d orphaned post-fork block(s) confirmed non-canonical (null or superseded) across %d node(s)''
                [DI (int (length orphans)), DI (int (length (vf_els v)))]))"

text \<open>The walk from an orphaned fork block to the chain, \<open>fuel\<close> steps at most.\<close>

fun walk_steps :: "nat \<Rightarrow> rpc \<Rightarrow> el \<Rightarrow> string \<Rightarrow> u64 \<Rightarrow> string \<Rightarrow> detail + u64 \<times> u64" where
  "walk_steps 0 r e orphan tip hash =
     Inl (Fmt ''no canonical join within 128 parent steps of %s'' [DS orphan])"
| "walk_steps (Suc n) r e orphan tip hash =
     (case get_block_by_hash r e hash of
        Inl err \<Rightarrow> Inl err
      | Inr None \<Rightarrow> Inl (Fmt ''victim no longer serves %s'' [DS hash])
      | Inr (Some b) \<Rightarrow>
          let height = h_number b
          in (case get_block r e (AtNumber height) of
                Inl err \<Rightarrow> Inl err
              | Inr canon \<Rightarrow>
                  if equal_fold (h_hash canon) (h_hash b) then
                    if tip \<le> height then
                      Inl (Fmt ''victim tip hint %d at or below ancestor %d'' [dnat tip, dnat height])
                    else Inr (tip - height, height)
                  else walk_steps n r e orphan tip (h_parent b)))"

definition walk_orphan_branch :: "rpc \<Rightarrow> el \<Rightarrow> string \<Rightarrow> u64 \<Rightarrow> detail + u64 \<times> u64" where
  "walk_orphan_branch r e orphan tip = walk_steps 128 r e orphan tip orphan"

section \<open>The finalized end state\<close>

fun min_finalized :: "rpc \<Rightarrow> el list \<Rightarrow> u64 option \<Rightarrow> u64 option \<times> detail list" where
  "min_finalized r [] m = (m, [])"
| "min_finalized r (e # es) m =
     (case get_block r e Finalized of
        Inl err \<Rightarrow>
          (case min_finalized r es m of (m', ps) \<Rightarrow>
             (m', Fmt ''%s: finalized: %v'' [DS (el_name e), DD err] # ps))
      | Inr b \<Rightarrow>
          min_finalized r es
            (case m of None \<Rightarrow> Some (h_number b) | Some k \<Rightarrow> Some (if h_number b < k then h_number b else k)))"

fun end_state :: "rpc \<Rightarrow> u64 \<Rightarrow> el list \<Rightarrow> (el \<times> header) option \<Rightarrow> detail list" where
  "end_state r n [] ref = []"
| "end_state r n (e # es) ref =
     (case get_block r e (AtNumber n) of
        Inl err \<Rightarrow> Fmt ''%s: block %d: %v'' [DS (el_name e), dnat n, DD err] # end_state r n es ref
      | Inr b \<Rightarrow>
          (case ref of
             None \<Rightarrow> end_state r n es (Some (e, b))
           | Some (e0, b0) \<Rightarrow>
               (if \<not> equal_fold (h_hash b) (h_hash b0) \<or> \<not> equal_fold (h_root b) (h_root b0) then
                  [Fmt ''%s disagrees with %s on (hash, stateRoot) at finalized height %d''
                     [DS (el_name e), DS (el_name e0), dnat n]] else [])
               @ end_state r n es ref))"

definition check_finalized_end_state :: "verifier \<Rightarrow> rpc \<Rightarrow> outcome" where
  "check_finalized_end_state v r =
     (if (case vf_manifest v of Some (Inr m) \<Rightarrow> lm_quiesced m = 0 | _ \<Rightarrow> True) then
        (Inconclusive, lit ''no quiesce recorded in the manifest; end state was never judged in a quiet network'')
      else
        (case vf_istar v of
           Inl e \<Rightarrow> istar_unresolved e
         | Inr (istar, _) \<Rightarrow>
             (case min_finalized r (vf_els v) None of
                (None, ps) \<Rightarrow> (Fail, joined ps)
              | (Some m, ps) \<Rightarrow>
                  settle
                    (ps @
                     (if m < istar + 8 then
                        [Fmt ''lowest finalized height %d has not advanced %d past I*=%d: the post-fork phase never demonstrably ran on finalized binary-canonical chain''
                           [dnat m, DI 8, dnat istar]] else []) @
                     end_state r m (vf_els v) None)
                    (Pass, Fmt ''all %d node(s) agree at lowest finalized height %d (I*+%d or more), judged after quiesce''
                       [DI (int (length (vf_els v))), dnat m, dnat (m - istar)]))))"

section \<open>The search for the fork block\<close>

text \<open>The loop keeps the fork block between its bounds: below the lower one every block is
  before \<open>T\<close>, at the upper one a block is not.\<close>

lemma backwalk_loop_finds:
  assumes "\<And>n. n \<le> head \<Longrightarrow> get_block r e (AtNumber n) = Inr (blk n)"
    and "\<And>m n. m \<le> n \<Longrightarrow> n \<le> head \<Longrightarrow> h_time (blk m) \<le> h_time (blk n)"
  shows "lo \<le> hi \<Longrightarrow> hi \<le> head \<Longrightarrow> T \<le> h_time (blk hi) \<Longrightarrow> \<forall>m < lo. h_time (blk m) < T \<Longrightarrow>
    \<exists>n. backwalk_loop r e T lo hi = Inr n \<and> n \<le> hi \<and> T \<le> h_time (blk n) \<and>
      (\<forall>m < n. h_time (blk m) < T)"
proof (induction "unat hi - unat lo" arbitrary: lo hi rule: less_induct)
  case less
  show ?case
  proof (cases "lo < hi")
    case True
    define mid where "mid = lo + (hi - lo) div 2"
    have m: "lo \<le> mid" "mid < hi" using mid_bounds [OF True] by (simp_all add: mid_def)
    have mh: "mid \<le> head" using m less.prems(2) by (meson order_trans less_imp_le)
    have inc: "unat (mid + 1) = unat mid + 1" using unat_inc not_max [OF m(2)] by blast
    have g: "get_block r e (AtNumber mid) = Inr (blk mid)" using assms(1) mh by simp
    show ?thesis
    proof (cases "T \<le> h_time (blk mid)")
      case True
      have "unat mid - unat lo < unat hi - unat lo"
        using m by (simp add: word_le_nat_alt word_less_nat_alt)
      from less.hyps [OF this m(1)] less.prems mh True obtain n where
        "backwalk_loop r e T lo mid = Inr n" "n \<le> mid" "T \<le> h_time (blk n)" "\<forall>m < n. h_time (blk m) < T"
        by auto
      with g True \<open>lo < hi\<close> m show ?thesis
        by (subst backwalk_loop.simps) (auto simp: mid_def [symmetric] Let_def)
    next
      case False
      have le: "mid + 1 \<le> hi" using m inc by (simp add: word_le_nat_alt word_less_nat_alt)
      have below: "\<forall>k < mid + 1. h_time (blk k) < T"
      proof (intro allI impI)
        fix k assume "k < mid + 1"
        then have "k \<le> mid" using inc by (simp add: word_le_nat_alt word_less_nat_alt)
        then have "h_time (blk k) \<le> h_time (blk mid)" using assms(2) m less.prems(2) by simp
        then show "h_time (blk k) < T" using False by simp
      qed
      have "unat hi - unat (mid + 1) < unat hi - unat lo"
        using m inc by (simp add: word_le_nat_alt word_less_nat_alt)
      from less.hyps [OF this le less.prems(2,3) below] obtain n where
        "backwalk_loop r e T (mid + 1) hi = Inr n" "n \<le> hi" "T \<le> h_time (blk n)" "\<forall>m < n. h_time (blk m) < T"
        by auto
      with g False \<open>lo < hi\<close> show ?thesis
        by (subst backwalk_loop.simps) (auto simp: mid_def [symmetric] Let_def)
    qed
  next
    case False
    with less.prems have "lo = hi" by simp
    with less.prems show ?thesis by (subst backwalk_loop.simps) simp
  qed
qed

text \<open>C21: On a chain whose timestamps do not decrease and whose head has reached the fork time
  the backwalk returns, after a search that always ends, the first block at or past that time.\<close>

theorem backwalk_first:
  assumes "get_block r e Latest = Inr head" "T \<le> h_time head" "h_time head = h_time (blk (h_number head))"
    and "\<forall>n \<le> h_number head. get_block r e (AtNumber n) = Inr (blk n)"
    and "\<forall>m n. m \<le> n \<and> n \<le> h_number head \<longrightarrow> h_time (blk m) \<le> h_time (blk n)"
  shows "\<exists>n. backwalk_istar r T e = Inr n \<and> n \<le> h_number head \<and> T \<le> h_time (blk n) \<and>
    (\<forall>m < n. h_time (blk m) < T)"
proof -
  have "\<exists>n. backwalk_loop r e T 0 (h_number head) = Inr n \<and> n \<le> h_number head \<and> T \<le> h_time (blk n) \<and>
      (\<forall>m < n. h_time (blk m) < T)"
    by (rule backwalk_loop_finds [where head = "h_number head"]) (use assms in auto)
  with assms(1,2) show ?thesis by (simp add: backwalk_istar_def)
qed

definition demo_block :: "u64 \<Rightarrow> header" where
  "demo_block n = \<lparr>h_number = n, h_hash = ''0x'', h_parent = '''', h_root = '''', h_time = 6 * n\<rparr>"

definition demo_rpc :: rpc where
  "demo_rpc =
     \<lparr>rp_block = (\<lambda>_ t. case t of AtNumber n \<Rightarrow> Inr (if n \<le> 9 then Some (demo_block n) else None)
                            | _ \<Rightarrow> Inr (Some (demo_block 9))),
      rp_by_hash = (\<lambda>_ _. Inr None), rp_tx_count = (\<lambda>_ n. Inr (Some (if n = 7 then 0 else 1))),
      rp_storage = (\<lambda>_ _ _. Inl ''''), rp_receipt = (\<lambda>_ _. Inr None)\<rparr>"

definition demo_el :: el where
  "demo_el = \<lparr>el_name = ''el-1-geth-lighthouse'', el_url = ''''\<rparr>"

theorem backwalk_first_witness: "backwalk_istar demo_rpc 32 demo_el = Inr 6"
proof -
  have g: "get_block demo_rpc demo_el Latest = Inr (demo_block 9)"
    "\<forall>n \<le> h_number (demo_block 9). get_block demo_rpc demo_el (AtNumber n) = Inr (demo_block n)"
    by (simp_all add: get_block_def demo_rpc_def demo_block_def)
  have small: "n \<in> set (heights 0 9)" if "n \<le> 9" for n :: u64 using that by (simp add: set_heights)
  have mono: "\<forall>n \<in> set (heights 0 9). \<forall>m \<in> set (heights 0 9). m \<le> n \<longrightarrow> 6 * m \<le> 6 * n"
    by code_simp
  have "m \<le> n \<and> n \<le> 9 \<longrightarrow> 6 * m \<le> 6 * n" for m n :: u64
    using mono small by (meson order_trans)
  then obtain n where n: "backwalk_istar demo_rpc 32 demo_el = Inr n" "n \<le> 9" "32 \<le> 6 * n" "\<forall>m < n. 6 * m < 32"
    using backwalk_first [OF g(1) _ _ g(2), of 32] by (auto simp: demo_block_def)
  have "\<forall>n \<in> set (heights 0 9). 32 \<le> 6 * n \<longrightarrow> 6 \<le> n" by code_simp
  then have "6 \<le> n" using n small by blast
  moreover have "\<not> 6 < n" using n(4) by auto
  ultimately show ?thesis using n(1) by simp
qed

section \<open>Agreement around the fork\<close>

lemma answer_errors_Nil:
  "answer_errors (height_answers r els n) = [] \<longleftrightarrow>
    (\<forall>e \<in> set els. \<exists>b. get_block r e (AtNumber n) = Inr b)"
  by (auto simp: answer_errors_def height_answers_def map_filter_Nil split: sum.splits)
     (metis sum.exhaust)

text \<open>What two nodes must share at a height.\<close>

definition agree_at :: "rpc \<Rightarrow> u64 \<Rightarrow> el \<Rightarrow> el \<Rightarrow> bool" where
  "agree_at r n e e' \<longleftrightarrow>
     (case (get_block r e (AtNumber n), get_block r e' (AtNumber n)) of
        (Inr b, Inr b') \<Rightarrow> h_hash b = h_hash b' \<and> h_root b = h_root b'
      | _ \<Rightarrow> False)"

lemma height_problems_Nil:
  assumes "els \<noteq> []"
  shows "height_problems False r els n = [] \<longleftrightarrow> (\<forall>e \<in> set els. \<forall>e' \<in> set els. agree_at r n e e')"
    (is "?l \<longleftrightarrow> ?r")
proof -
  obtain e0 es where els: "els = e0 # es" using assms by (cases els) auto
  show ?thesis
  proof (cases "answer_errors (height_answers r els n) = []")
    case False
    then obtain e where "e \<in> set els" "\<forall>b. get_block r e (AtNumber n) \<noteq> Inr b"
      using answer_errors_Nil by blast
    then have "\<not> agree_at r n e e" by (cases "get_block r e (AtNumber n)") (auto simp: agree_at_def)
    with False \<open>e \<in> set els\<close> show ?thesis by (auto simp: height_problems_def Let_def)
  next
    case True
    then have b: "\<forall>e \<in> set els. \<exists>b. get_block r e (AtNumber n) = Inr b"
      using answer_errors_Nil by blast
    then obtain b0 where b0: "get_block r e0 (AtNumber n) = Inr b0" using els by auto
    have "?l \<longleftrightarrow> (\<forall>e \<in> set es. agree_at r n e e0)"
      using True els b b0
      by (auto simp: height_problems_def Let_def disagreements_def height_answers_def map_filter_Nil
          agree_at_def split: sum.splits if_splits)
    also have "\<dots> \<longleftrightarrow> ?r"
    proof
      assume l: "\<forall>e \<in> set es. agree_at r n e e0"
      have "agree_at r n e0 e0" using b0 by (simp add: agree_at_def)
      with l els have a: "\<forall>e \<in> set els. agree_at r n e e0" by simp
      show ?r
      proof (intro ballI)
        fix e e' assume "e \<in> set els" "e' \<in> set els"
        with a have "agree_at r n e e0" "agree_at r n e' e0" by auto
        then show "agree_at r n e e'" by (auto simp: agree_at_def split: sum.splits)
      qed
    qed (use els in auto)
    finally show ?thesis .
  qed
qed

text \<open>C22: Outside a smoke run the boundary check passes exactly when \<open>I*\<close> is resolved, there is a
  node, and at every height from 32 below \<open>I*\<close> to 10 above every node serves a block and any two
  serve the same hash and state root.\<close>

theorem boundary_agreement_exact:
  assumes "\<not> vf_smoke v"
  shows "fst (check_boundary_agreement v r) = Pass \<longleftrightarrow>
    (\<exists>b evid. vf_istar v = Inr (b, evid) \<and> vf_els v \<noteq> [] \<and>
      (\<forall>n. (if 32 \<le> b then b - 32 else 0) \<le> n \<and> n \<le> b + 10 \<longrightarrow>
         (\<forall>e \<in> set (vf_els v). \<forall>e' \<in> set (vf_els v). agree_at r n e e')))"
proof (cases "vf_istar v")
  case (Inl e)
  then show ?thesis by (simp add: check_boundary_agreement_def istar_unresolved_def)
next
  case (Inr x)
  obtain b evid where x: "x = (b, evid)" by (cases x)
  show ?thesis
  proof (cases "vf_els v = []")
    case False
    then have "fst (check_boundary_agreement v r) = Pass \<longleftrightarrow>
        (\<forall>n \<in> set (heights (if 32 \<le> b then b - 32 else 0) (b + 10)). height_problems False r (vf_els v) n = [])"
      using Inr x assms by (simp add: check_boundary_agreement_def Let_def)
    then show ?thesis
      using Inr x False by (simp only: height_problems_Nil [OF False] set_heights mem_Collect_eq) auto
  qed (use Inr x in \<open>simp add: check_boundary_agreement_def\<close>)
qed

definition demo_verifier :: verifier where
  "demo_verifier =
     \<lparr>vf_els = [demo_el, demo_el\<lparr>el_name := ''el-2-erigon-prysm''\<rparr>], vf_T = 32, vf_monitor = [],
      vf_chaos = [], vf_logs = None, vf_pins = Inl '''', vf_skip_chaos = False, vf_smoke = False,
      vf_manifest = None, vf_istar = Inr (6, no_detail), vf_rng = (\<lambda>x. x)\<rparr>"

theorem boundary_agreement_exact_witness:
  "fst (check_boundary_agreement demo_verifier demo_rpc) \<noteq> Pass \<and>
   fst (check_boundary_agreement demo_verifier
     (demo_rpc\<lparr>rp_block := \<lambda>_ _. Inr (Some (demo_block 0))\<rparr>)) = Pass"
proof -
  have s: "\<not> vf_smoke demo_verifier" by (simp add: demo_verifier_def)
  have "\<not> agree_at demo_rpc 10 demo_el demo_el"
    by (simp add: agree_at_def get_block_def demo_rpc_def)
  moreover have "agree_at (demo_rpc\<lparr>rp_block := \<lambda>_ _. Inr (Some (demo_block 0))\<rparr>) n e e'" for n e e'
    by (simp add: agree_at_def get_block_def)
  ultimately show ?thesis
    using boundary_agreement_exact [OF s] by (auto simp: demo_verifier_def intro!: exI [of _ 10])
qed

section \<open>The walk of an orphaned branch\<close>

text \<open>The blocks from a hash on, each served by hash and naming the next as its parent.\<close>

fun served_branch :: "rpc \<Rightarrow> el \<Rightarrow> string \<Rightarrow> header list \<Rightarrow> bool" where
  "served_branch r e h [] \<longleftrightarrow> False"
| "served_branch r e h [b] \<longleftrightarrow> get_block_by_hash r e h = Inr (Some b)"
| "served_branch r e h (b # c # bs) \<longleftrightarrow>
     get_block_by_hash r e h = Inr (Some b) \<and> served_branch r e (h_parent b) (c # bs)"

definition on_chain :: "rpc \<Rightarrow> el \<Rightarrow> header \<Rightarrow> bool option" where
  "on_chain r e b =
     (case get_block r e (AtNumber (h_number b)) of
        Inl _ \<Rightarrow> None | Inr c \<Rightarrow> Some (equal_fold (h_hash c) (h_hash b)))"

lemma walk_steps_exact:
  "walk_steps n r e orphan tip h = Inr (d, a) \<longleftrightarrow>
    (\<exists>bs. bs \<noteq> [] \<and> length bs \<le> n \<and> served_branch r e h bs \<and> on_chain r e (last bs) = Some True \<and>
       (\<forall>b \<in> set (butlast bs). on_chain r e b = Some False) \<and> h_number (last bs) < tip \<and>
       d = tip - h_number (last bs) \<and> a = h_number (last bs))"
    (is "?w n h \<longleftrightarrow> (\<exists>bs. ?p n h bs)")
proof (induction n arbitrary: h)
  case (Suc n)
  show ?case
  proof (cases "get_block_by_hash r e h")
    case (Inl err)
    then have "\<not> served_branch r e h bs" for bs by (cases "(r, e, h, bs)" rule: served_branch.cases) auto
    with Inl show ?thesis by auto
  next
    case (Inr ob)
    show ?thesis
    proof (cases ob)
      case None
      with Inr have "\<not> served_branch r e h bs" for bs
        by (cases "(r, e, h, bs)" rule: served_branch.cases) auto
      with Inr None show ?thesis by auto
    next
      case (Some b)
      with Inr have g: "get_block_by_hash r e h = Inr (Some b)" by simp
      have head: "served_branch r e h bs \<Longrightarrow> hd bs = b" for bs
        using g by (cases "(r, e, h, bs)" rule: served_branch.cases) auto
      consider "on_chain r e b = None" | "on_chain r e b = Some True" | "on_chain r e b = Some False"
        by (cases "on_chain r e b") auto
      then show ?thesis
      proof cases
        case 1
        then have "\<not> ?w (Suc n) h" using g by (auto simp: on_chain_def Let_def split: sum.splits)
        moreover have "\<not> ?p (Suc n) h bs" for bs
          using 1 head [of bs] by (cases bs) (auto split: if_splits)
        ultimately show ?thesis by blast
      next
        case 2
        then have "?w (Suc n) h \<longleftrightarrow> ?p (Suc n) h [b]"
          using g by (auto simp: on_chain_def not_le Let_def split: sum.splits if_splits)
        moreover have "bs = [b]" if "?p (Suc n) h bs" for bs
          using 2 that head [of bs] by (cases bs) (auto split: if_splits)
        ultimately show ?thesis by metis
      next
        case 3
        then have "?w (Suc n) h \<longleftrightarrow> ?w n (h_parent b)"
          using g by (auto simp: on_chain_def Let_def split: sum.splits)
        also have "\<dots> \<longleftrightarrow> (\<exists>bs. ?p n (h_parent b) bs)" by (rule Suc.IH)
        also have "\<dots> \<longleftrightarrow> (\<exists>bs. ?p (Suc n) h bs)"
        proof
          assume "\<exists>bs. ?p n (h_parent b) bs"
          then obtain bs where p: "?p n (h_parent b) bs" by blast
          then have "?p (Suc n) h (b # bs)" using g 3 by (cases bs) auto
          then show "\<exists>bs. ?p (Suc n) h bs" by blast
        next
          assume "\<exists>bs. ?p (Suc n) h bs"
          then obtain bs where p: "?p (Suc n) h bs" by blast
          then have "bs \<noteq> [b]" using 3 by auto
          with p head [of bs] obtain c cs where bs: "bs = b # c # cs"
            by (cases bs rule: remdups_adj.cases) auto
          with p have "?p n (h_parent b) (c # cs)" by auto
          then show "\<exists>bs. ?p n (h_parent b) bs" by blast
        qed
        finally show ?thesis .
      qed
    qed
  qed
qed auto

text \<open>C24: The depth of an orphaned branch is reported exactly when, from the orphan and by at most
  127 parent links, every block is served by hash, each is answered for and off the canonical
  chain until the last, which is on it and below the victim's recorded tip; the depth is then
  the tip's distance from that join and the ancestor its height.\<close>

theorem walk_orphan_branch_exact:
  "walk_orphan_branch r e orphan tip = Inr (d, a) \<longleftrightarrow>
    (\<exists>bs. bs \<noteq> [] \<and> length bs \<le> 128 \<and> served_branch r e orphan bs \<and>
       on_chain r e (last bs) = Some True \<and>
       (\<forall>b \<in> set (butlast bs). on_chain r e b = Some False) \<and> h_number (last bs) < tip \<and>
       d = tip - h_number (last bs) \<and> a = h_number (last bs))"
  unfolding walk_orphan_branch_def by (rule walk_steps_exact)

definition branch_rpc :: rpc where
  "branch_rpc = demo_rpc\<lparr>rp_by_hash := \<lambda>_ h.
     if h = ''0xb'' then Inr (Some \<lparr>h_number = 8, h_hash = ''0xb'', h_parent = ''0xa'', h_root = '''', h_time = 0\<rparr>)
     else if h = ''0xa'' then Inr (Some \<lparr>h_number = 7, h_hash = ''0xa'', h_parent = ''0x'', h_root = '''', h_time = 0\<rparr>)
     else if h = ''0x'' then Inr (Some (demo_block 6)) else Inr None\<rparr>"

theorem walk_orphan_branch_exact_witness: "walk_orphan_branch branch_rpc demo_el ''0xb'' 10 = Inr (4, 6)"
proof -
  let ?b = "\<lambda>n h p. \<lparr>h_number = n, h_hash = h, h_parent = p, h_root = '''', h_time = 0\<rparr>"
  have "served_branch branch_rpc demo_el ''0xb'' [?b 8 ''0xb'' ''0xa'', ?b 7 ''0xa'' ''0x'', demo_block 6]"
    by (simp add: branch_rpc_def get_block_by_hash_def)
  moreover have "on_chain branch_rpc demo_el (demo_block 6) = Some True"
    "on_chain branch_rpc demo_el (?b 8 ''0xb'' ''0xa'') = Some False"
    "on_chain branch_rpc demo_el (?b 7 ''0xa'' ''0x'') = Some False"
    by (simp_all add: on_chain_def branch_rpc_def get_block_def demo_rpc_def demo_block_def equal_fold_def)
  ultimately show ?thesis
    unfolding walk_orphan_branch_exact
    by (intro exI [of _ "[?b 8 ''0xb'' ''0xa'', ?b 7 ''0xa'' ''0x'', demo_block 6]"])
      (simp add: demo_block_def)
qed

section \<open>Traffic\<close>

lemma first_tx_find:
  "\<forall>n \<in> set ns. tx_count r e n = Inr (tx (unat n)) \<Longrightarrow>
   first_tx r e ns = Inr (List.find (\<lambda>n. 0 < tx (unat n)) ns)"
  by (induction ns) auto

definition transacts :: "(nat \<Rightarrow> u64) \<Rightarrow> nat \<Rightarrow> nat \<Rightarrow> bool" where
  "transacts tx lo hi \<longleftrightarrow> (\<exists>n. lo \<le> n \<and> n \<le> hi \<and> 0 < tx n)"

lemma find_heights_None:
  "List.find (\<lambda>n. 0 < tx (unat n)) (heights lo hi) = None \<longleftrightarrow> \<not> transacts tx (unat lo) (unat hi)"
proof -
  have "(\<exists>n. lo \<le> n \<and> n \<le> hi \<and> 0 < tx (unat n)) \<longleftrightarrow> transacts tx (unat lo) (unat hi)"
  proof
    assume "transacts tx (unat lo) (unat hi)"
    then obtain k where k: "unat lo \<le> k" "k \<le> unat hi" "0 < tx k" by (auto simp: transacts_def)
    then have "k < 2 ^ 64" using unsigned_less [of hi, where ?'a = nat] by simp
    then have "unat (of_nat k :: u64) = k" by (simp add: unat_of_nat take_bit_eq_mod)
    with k show "\<exists>n. lo \<le> n \<and> n \<le> hi \<and> 0 < tx (unat n)"
      by (intro exI [of _ "of_nat k"]) (simp add: word_le_nat_alt)
  qed (auto simp: transacts_def word_le_nat_alt)
  then show ?thesis unfolding find_None_iff set_heights by blast
qed

text \<open>The buckets of 25 blocks from a height on, the last one cut off at the end.\<close>

definition every_bucket :: "(nat \<Rightarrow> u64) \<Rightarrow> nat \<Rightarrow> nat \<Rightarrow> bool" where
  "every_bucket tx lo en \<longleftrightarrow> (\<forall>k. lo + 25 * k \<le> en \<longrightarrow> transacts tx (lo + 25 * k) (min (lo + 25 * k + 24) en))"

lemma every_bucket_step:
  "lo \<le> en \<Longrightarrow> every_bucket tx lo en \<longleftrightarrow>
    transacts tx lo (min (lo + 24) en) \<and> every_bucket tx (lo + 25) en"
proof (intro iffI conjI)
  assume l: "lo \<le> en" "every_bucket tx lo en"
  then show "transacts tx lo (min (lo + 24) en)" by (auto simp: every_bucket_def dest: spec [of _ 0])
  show "every_bucket tx (lo + 25) en" unfolding every_bucket_def
  proof (intro allI impI)
    fix k assume k: "lo + 25 + 25 * k \<le> en"
    have "lo + 25 + 25 * k = lo + 25 * Suc k" by simp
    then show "transacts tx (lo + 25 + 25 * k) (min (lo + 25 + 25 * k + 24) en)"
      using l(2) k unfolding every_bucket_def by metis
  qed
next
  assume l: "transacts tx lo (min (lo + 24) en) \<and> every_bucket tx (lo + 25) en"
  show "every_bucket tx lo en" unfolding every_bucket_def
  proof (intro allI impI)
    fix k assume k: "lo + 25 * k \<le> en"
    show "transacts tx (lo + 25 * k) (min (lo + 25 * k + 24) en)"
    proof (cases k)
      case (Suc j)
      then have "lo + 25 * k = lo + 25 + 25 * j" by simp
      with l k show ?thesis unfolding every_bucket_def by metis
    qed (use l in simp)
  qed
qed

lemma empty_buckets_exact:
  assumes tx: "\<And>n. n \<le> en \<Longrightarrow> tx_count r e n = Inr (tx (unat n))" and room: "unat en + 25 < 2 ^ 64"
  shows "\<exists>bs. empty_buckets r e lo en acc = Some (Inr (acc @ bs)) \<and>
    (bs = [] \<longleftrightarrow> every_bucket tx (unat lo) (unat en))"
proof (induction "Suc (unat en) - unat lo" arbitrary: lo acc rule: less_induct)
  case less
  show ?case
  proof (cases "lo \<le> en")
    case False
    then have "every_bucket tx (unat lo) (unat en)" by (auto simp: every_bucket_def word_le_nat_alt)
    with False show ?thesis by (subst empty_buckets.simps) auto
  next
    case True
    have le: "unat lo \<le> unat en" using True by (simp add: word_le_nat_alt)
    have u: "unat (lo + 24) = unat lo + 24" "unat (lo + 25) = unat lo + 25"
      using le room unat_add_lem [of lo 24] unat_add_lem [of lo 25] by simp_all
    have b: "unat (bucket_end lo en) = min (unat lo + 24) (unat en)" "bucket_end lo en \<le> en"
      using u by (auto simp: bucket_end_def word_less_nat_alt word_le_nat_alt not_less min_def)
    let ?f = "List.find (\<lambda>n. 0 < tx (unat n)) (heights lo (bucket_end lo en))"
    have f: "first_tx r e (heights lo (bucket_end lo en)) = Inr ?f"
      by (rule first_tx_find) (use tx b(2) in \<open>auto simp: set_heights\<close>)
    have n: "?f = None \<longleftrightarrow> \<not> transacts tx (unat lo) (min (unat lo + 24) (unat en))"
      by (simp add: find_heights_None b(1))
    let ?acc = "if ?f = None then acc @ [(lo, bucket_end lo en)] else acc"
    have "Suc (unat en) - unat (lo + 25) < Suc (unat en) - unat lo" using le u by linarith
    from less [OF this, of ?acc] obtain bs where
      bs: "empty_buckets r e (lo + 25) en ?acc = Some (Inr (?acc @ bs))"
      "bs = [] \<longleftrightarrow> every_bucket tx (unat lo + 25) (unat en)"
      using u by auto
    have "empty_buckets r e lo en acc = Some (Inr (?acc @ bs))"
      using True f bs(1) by (subst empty_buckets.simps) simp
    moreover have "(if ?f = None then [(lo, bucket_end lo en)] else []) @ bs = [] \<longleftrightarrow>
        every_bucket tx (unat lo) (unat en)"
      using every_bucket_step [OF le] n bs(2) by simp
    ultimately show ?thesis
      by (intro exI [of _ "(if ?f = None then [(lo, bucket_end lo en)] else []) @ bs"]) simp
  qed
qed

text \<open>C23: With every transaction count answered, the traffic check returns, for any fork block
  whose height leaves room for one more bucket below 2^64, and passes exactly when the first
  transaction lies in the first 51 blocks, before the fork block, and every run of 25 blocks
  from it to the block before the fork, the last run cut off there, has a block with a
  transaction.\<close>

theorem traffic_coverage_exact:
  assumes "vf_istar v = Inr (istar, evid)" "vf_els v = e # es"
    and "\<forall>n. n \<le> 50 \<or> n < istar \<longrightarrow> tx_count r e n = Inr (tx (unat n))"
    and "unat istar + 24 < 2 ^ 64"
  shows "\<exists>res. check_traffic_coverage v r = Some res \<and>
    (fst res = Pass \<longleftrightarrow>
       (\<exists>s \<le> 50. 0 < tx s \<and> (\<forall>n < s. tx n = 0) \<and> s < unat istar \<and> every_bucket tx s (unat istar - 1)))"
proof -
  let ?f = "List.find (\<lambda>n. 0 < tx (unat n)) (heights 0 50)"
  have f: "first_tx r e (heights 0 50) = Inr ?f"
    by (rule first_tx_find) (use assms(3) in \<open>auto simp: set_heights\<close>)
  show ?thesis
  proof (cases ?f)
    case None
    then have "\<not> (0 < tx s)" if "s \<le> 50" for s
      using that find_heights_None [of tx 0 50] by (auto simp: transacts_def)
    with None f assms(1,2) show ?thesis by (auto simp: check_traffic_coverage_def)
  next
    case (Some s0)
    then obtain i where i: "i < length (heights 0 50)" "s0 = heights 0 50 ! i" "0 < tx (unat s0)"
      "\<forall>j < i. \<not> 0 < tx (unat (heights 0 50 ! j))"
      by (auto simp: find_Some_iff)
    have h: "unat (heights 0 50 ! j) = j" if "j < 51" for j
    proof -
      have "unat (of_nat j :: u64) = j" using that by (simp add: unat_of_nat take_bit_eq_mod)
      with that show ?thesis by (simp add: heights_def del: upt_Suc)
    qed
    have len: "length (heights 0 50) = 51" by (simp add: heights_def del: upt_Suc)
    from i len h have s: "unat s0 = i" "i \<le> 50" "0 < tx i" "\<forall>n < i. \<not> 0 < tx n"
      by auto
    from s(4) have s4: "\<forall>n < i. tx n = 0" by (metis word_neq_0_conv)
    have uniq: "s = i" if "0 < tx s" "\<forall>n < s. tx n = 0" for s
      using that s(3) s4 by (metis linorder_neqE_nat word_neq_0_conv)
    show ?thesis
    proof (cases "istar = 0 \<or> istar - 1 < s0")
      case True
      have "\<not> i < unat istar"
      proof (cases "istar = 0")
        case False
        then have "unat (istar - 1) = unat istar - 1" by (simp add: unat_minus_one)
        with True False s show ?thesis by (auto simp: word_less_nat_alt)
      qed simp
      with True f Some assms(1,2) uniq show ?thesis by (auto simp: check_traffic_coverage_def)
    next
      case False
      then have m: "unat (istar - 1) = unat istar - 1" "0 < unat istar"
        by (auto simp: unat_minus_one unat_gt_0)
      have "\<exists>bs. empty_buckets r e s0 (istar - 1) [] = Some (Inr ([] @ bs)) \<and>
          (bs = [] \<longleftrightarrow> every_bucket tx (unat s0) (unat (istar - 1)))"
      proof (rule empty_buckets_exact)
        show "unat (istar - 1) + 25 < 2 ^ 64" using assms(4) m by simp
        fix n assume "n \<le> istar - 1"
        then have "n < istar" using m by (simp add: word_le_nat_alt word_less_nat_alt)
        then show "tx_count r e n = Inr (tx (unat n))" using assms(3) by simp
      qed
      then obtain bs where bs: "empty_buckets r e s0 (istar - 1) [] = Some (Inr bs)"
        "bs = [] \<longleftrightarrow> every_bucket tx i (unat istar - 1)"
        using m s by auto
      have i: "i < unat istar" using False m s by (auto simp: word_less_nat_alt)
      obtain res where res: "check_traffic_coverage v r = Some res" "fst res = Pass \<longleftrightarrow> bs = []"
        using False f Some bs(1) assms(1,2) by (auto simp: check_traffic_coverage_def)
      have "(\<exists>s \<le> 50. 0 < tx s \<and> (\<forall>n < s. tx n = 0) \<and> s < unat istar \<and> every_bucket tx s (unat istar - 1)) \<longleftrightarrow>
          every_bucket tx i (unat istar - 1)"
        using uniq s(2,3) s4 i by blast
      with res bs(2) show ?thesis by simp
    qed
  qed
qed

theorem traffic_coverage_exact_witness:
  "\<exists>res. check_traffic_coverage demo_verifier demo_rpc = Some res \<and> fst res = Pass"
proof -
  let ?tx = "\<lambda>n. if n = 7 then 0 else 1 :: u64"
  have e: "n = 7 \<longleftrightarrow> unat n = 7" for n :: u64 by (simp add: word_unat_eq_iff)
  have t: "\<forall>n. n \<le> 50 \<or> n < 6 \<longrightarrow> tx_count demo_rpc demo_el n = Inr (?tx (unat n))"
    by (auto simp: tx_count_def demo_rpc_def e)
  have "every_bucket ?tx 0 (unat (6 :: u64) - 1)"
    unfolding every_bucket_def transacts_def by (intro allI impI) (rule exI [of _ 0], auto)
  then show ?thesis
    using traffic_coverage_exact [OF _ _ t, of demo_verifier no_detail "[demo_el\<lparr>el_name := ''el-2-erigon-prysm''\<rparr>]"]
    by (auto simp: demo_verifier_def)
qed

section \<open>Orphans\<close>

lemma ask_orphans_known:
  assumes "\<forall>e \<in> set es. get_block_by_hash r e (snd x) = Inr None \<or>
      (\<exists>b. get_block_by_hash r e (snd x) = Inr (Some b) \<and> canon (h_number b) = Some h \<and>
         \<not> equal_fold (h_hash b) h)"
  shows "foldl (ask_orphan r x) (canon, ps) es = (canon, ps)"
  using assms
proof (induction es)
  case (Cons e es)
  then have "ask_orphan r x (canon, ps) e = (canon, ps)"
    by (auto simp: ask_orphan_def Let_def)
  with Cons show ?case by simp
qed simp

text \<open>The check of an orphan judges every node against one canonical hash, that of the first
  node that still serves the orphan: when that node's chain has left the block, the check
  passes even if another node serves the block as its own canonical one at that height.\<close>

theorem orphan_gone_one_reference:
  assumes "orphaned_fork_blocks (vf_monitor v) = [x]" "vf_els v = e # es"
    and "get_block_by_hash r e (snd x) = Inr (Some b)" "get_block r e (AtNumber (h_number b)) = Inr c"
    and "\<not> equal_fold (h_hash b) (h_hash c)"
    and "\<forall>e' \<in> set es. get_block_by_hash r e' (snd x) = Inr (Some b)"
  shows "fst (check_orphan_gone v r) = Pass"
proof -
  have "ask_orphan r x (Map.empty, []) e = (Map.empty(h_number b \<mapsto> h_hash c), [])"
    using assms(3-5) by (simp add: ask_orphan_def Let_def)
  moreover have "foldl (ask_orphan r x) (Map.empty(h_number b \<mapsto> h_hash c), []) es =
      (Map.empty(h_number b \<mapsto> h_hash c), [])"
    by (rule ask_orphans_known [where h = "h_hash c"]) (use assms(5,6) in auto)
  ultimately show ?thesis
    using assms(1,2) by (simp add: check_orphan_gone_def orphan_problems_def)
qed

definition orphan_text :: string where
  "orphan_text = ''fork block 6 0x'' @ replicate 64 (CHR ''b'') @ '' was orphaned''"

definition split_rpc :: rpc where
  "split_rpc = demo_rpc
     \<lparr>rp_block := \<lambda>e t. Inr (Some (if el_name e = ''el-1-geth-lighthouse'' then demo_block 6
                 else (demo_block 6)\<lparr>h_hash := ''0x'' @ replicate 64 (CHR ''b'')\<rparr>)),
      rp_by_hash := \<lambda>_ h. Inr (Some ((demo_block 6)\<lparr>h_hash := h\<rparr>))\<rparr>"

theorem orphan_gone_one_reference_witness:
  "let v = demo_verifier\<lparr>vf_monitor := [(logged 0 None (mk_event EvIStarReorged ''el-1'' (lit orphan_text)))\<lparr>le_number := 6\<rparr>]\<rparr>;
       x = ''0x'' @ replicate 64 (CHR ''b''); e2 = demo_el\<lparr>el_name := ''el-2-erigon-prysm''\<rparr>
   in fst (check_orphan_gone v split_rpc) = Pass \<and> e2 \<in> set (vf_els v) \<and>
      (\<exists>c. get_block split_rpc e2 (AtNumber 6) = Inr c \<and> h_hash c = x)"
proof -
  let ?v = "demo_verifier\<lparr>vf_monitor := [(logged 0 None (mk_event EvIStarReorged ''el-1'' (lit orphan_text)))\<lparr>le_number := 6\<rparr>]\<rparr>"
  let ?x = "''0x'' @ replicate 64 (CHR ''b'')"
  have "orphaned_fork_blocks (vf_monitor ?v) = [(6, ?x)]" by code_simp
  moreover have "\<not> equal_fold ?x ''0x''" by (simp add: equal_fold_def)
  ultimately have "fst (check_orphan_gone ?v split_rpc) = Pass"
    using orphan_gone_one_reference [of ?v "(6, ?x)" demo_el "[demo_el\<lparr>el_name := ''el-2-erigon-prysm''\<rparr>]"
        split_rpc "(demo_block 6)\<lparr>h_hash := ?x\<rparr>" "demo_block 6"]
    by (simp add: demo_verifier_def split_rpc_def get_block_by_hash_def get_block_def demo_el_def demo_block_def)
  then show ?thesis
    by (simp add: Let_def demo_verifier_def split_rpc_def get_block_def demo_el_def)
qed


end
