(* ===== verification/VerifyEvidence.thy ===== *)
theory VerifyEvidence
  imports VerifyChain
begin

text \<open>
  The checks of \<open>cmd/verify-migration\<close> that weigh evidence from the event streams and the
  client logs (\<open>checks.go\<close>, \<open>boundary.go: checkCompletion, checkPostForkSamples, victimTip\<close>):
  reorg evidence for a partition from a client's own log lines or the monitor's events, the
  partitions healed in time, the deep reorg before the fork, the straddle's rewind, the shadow
  samples, the configured-window logs and the completion of the migration. The registry's log
  patterns are regular expressions of \<open>Regexp\<close>; a time in a message is in nanoseconds.
\<close>

section \<open>Log files\<close>

definition node_log_files :: "verifier \<Rightarrow> string \<Rightarrow> log_file list \<times> bool" where
  "node_log_files v node =
     (case vf_logs v of
        None \<Rightarrow> ([], True)
      | Some (fs, failed) \<Rightarrow> (filter (\<lambda>f. str_contains (lf_name f) node) fs, failed))"

definition victim_log_files :: "verifier \<Rightarrow> string \<Rightarrow> log_file list" where
  "victim_log_files v node =
     (case node_index node of
        Some idx \<Rightarrow>
          (case node_log_files v (''el-'' @ show_int idx @ ''-'') of
             (fs, failed) \<Rightarrow> if \<not> failed \<and> fs \<noteq> [] then fs else fst (node_log_files v node))
      | None \<Rightarrow> fst (node_log_files v node))"

text \<open>A victim's client: by its own name, by the monitor's names, by its log files' names.\<close>

definition victim_client :: "verifier \<Rightarrow> string \<Rightarrow> string" where
  "victim_client v node =
     (if client_of node \<noteq> '''' then client_of node
      else (case node_index node of
              None \<Rightarrow> ''''
            | Some idx \<Rightarrow>
                (case filter (\<lambda>c. c \<noteq> '''')
                        (map (\<lambda>ev. client_of (le_node ev))
                           (filter (\<lambda>ev. node_index (le_node ev) = Some idx) (vf_monitor v))) of
                   c # _ \<Rightarrow> c
                 | [] \<Rightarrow>
                     if vf_logs v = None then ''''
                     else (case filter (\<lambda>c. c \<noteq> '''') (map (client_of \<circ> lf_name) (victim_log_files v node)) of
                             c # _ \<Rightarrow> c | [] \<Rightarrow> ''''))))"

section \<open>Reorg log lines\<close>

text \<open>The registry's patterns compiled.\<close>

definition named_digits :: "string \<Rightarrow> re" where
  "named_digits n = Grp n digits1"

definition geth_reorg_re :: re where
  "geth_reorg_re =
     Sq (Lit ''Chain reorg detected'') (Sq any_text (Sq WordB (Sq (Lit ''number='') (Sq (named_digits ''ancestor'')
       (Sq any_text (Sq WordB (Sq (Lit ''drop='') (named_digits ''drop''))))))))"

definition erigon_reorg_re :: re where
  "erigon_reorg_re =
     Sq (Lit ''Unwind Execution'') (Sq any_text (Sq WordB (Sq (Lit ''from='') (Sq (named_digits ''from'')
       (Sq any_text (Sq WordB (Sq (Lit ''to='') (named_digits ''to''))))))))"

definition besu_reorg_re :: re where
  "besu_reorg_re =
     Sq (Lit ''Chain Reorganization +'') (Sq digits1 (Sq (Lit '' new / -'')
       (Sq (named_digits ''drop'') (Lit '' old''))))"

definition client_log_patterns :: "string \<rightharpoonup> re" where
  "client_log_patterns = map_of
     [(''geth'', geth_reorg_re), (''erigon'', erigon_reorg_re), (''besu'', besu_reorg_re)]"

fun group_names :: "re \<Rightarrow> string list" where
  "group_names (Sq a b) = group_names a @ group_names b"
| "group_names (Or a b) = group_names a @ group_names b"
| "group_names (Star a) = group_names a"
| "group_names (Grp n a) = n # group_names a"
| "group_names _ = []"

text \<open>Days since the epoch of a civil date, and \<open>time.Date\<close>, which normalises a month outside
  1..12 and any day.\<close>

definition days_from_civil :: "int \<Rightarrow> int \<Rightarrow> int \<Rightarrow> int" where
  "days_from_civil y m d =
     (let y' = (if m \<le> 2 then y - 1 else y); era = y' div 400; yoe = y' mod 400;
          doy = (153 * (if 2 < m then m - 3 else m + 9) + 2) div 5 + d - 1;
          doe = yoe * 365 + yoe div 4 - yoe div 100 + doy
      in era * 146097 + doe - 719468)"

definition date_utc :: "int \<Rightarrow> int \<Rightarrow> int \<Rightarrow> int \<Rightarrow> int \<Rightarrow> int \<Rightarrow> gotime" where
  "date_utc y mo d h mi s =
     (let y' = y + (mo - 1) div 12; mo' = (mo - 1) mod 12 + 1
      in tunix (days_from_civil y' mo' d * 86400 + h * 3600 + mi * 60 + s))"

text \<open>The year of a time: the one whose first day it has reached and whose last it has not
  passed. Counted from the estimate by average years.\<close>

definition year_of :: "gotime \<Rightarrow> int" where
  "year_of t =
     (let days = t div (86400 * second); z = days + 719468; era = z div 146097; doe = z mod 146097;
          yoe = (doe - doe div 1460 + doe div 36524 - doe div 146096) div 365;
          doy = doe - (365 * yoe + yoe div 4 - yoe div 100); mp = (5 * doy + 2) div 153
      in yoe + era * 400 + (if mp < 10 then 0 else 1))"

definition two_digits :: "string \<Rightarrow> re" where
  "two_digits n = Grp n (times 2 (Cls is_digit))"

definition log_stamp_re :: re where
  "log_stamp_re =
     Sq (Lit ''['') (Sq (two_digits ''1'') (Sq (Lit ''-'') (Sq (two_digits ''2'') (Sq (Lit ''|'')
       (Sq (two_digits ''3'') (Sq (Lit '':'') (Sq (two_digits ''4'') (Sq (Lit '':'') (Sq (two_digits ''5'')
         (Sq (Lit ''.'') (Sq digits1 (Lit '']''))))))))))))"

text \<open>Besu's stamp, its offset from UTC and its fields; a field out of range is an error of
  \<open>time.Parse\<close>, and no evidence.\<close>

definition plus_minus :: re where
  "plus_minus = Cls (\<lambda>c. c = CHR ''+'' \<or> c = CHR ''-'')"

definition besu_stamp_re :: re where
  "besu_stamp_re =
     Sq (Grp ''Y'' (times 4 (Cls is_digit))) (Sq (Lit ''-'') (Sq (two_digits ''M'') (Sq (Lit ''-'')
       (Sq (two_digits ''D'') (Sq (Lit '' '') (Sq (two_digits ''h'') (Sq (Lit '':'') (Sq (two_digits ''m'')
         (Sq (Lit '':'') (Sq (two_digits ''s'') (Sq (Lit ''.'') (Sq (times 3 (Cls is_digit))
           (Sq (Grp ''sign'' plus_minus) (Sq (two_digits ''zh'') (two_digits ''zm'')))))))))))))))"

definition grp_int :: "(string \<times> string) list \<Rightarrow> string \<Rightarrow> int" where
  "grp_int gs n = (case map_of gs n of Some s \<Rightarrow> (case atoi s of Some i \<Rightarrow> i | None \<Rightarrow> 0) | None \<Rightarrow> 0)"

definition leap_year :: "int \<Rightarrow> bool" where
  "leap_year y \<longleftrightarrow> y mod 4 = 0 \<and> (y mod 100 \<noteq> 0 \<or> y mod 400 = 0)"

definition days_in :: "int \<Rightarrow> int \<Rightarrow> int" where
  "days_in y m = (if m = 2 then if leap_year y then 29 else 28
                  else if m \<in> {4, 6, 9, 11} then 30 else 31)"

definition log_stamp_at :: "string \<Rightarrow> gotime \<Rightarrow> gotime" where
  "log_stamp_at line ref =
     (case find_submatch log_stamp_re line of
        Some (_, gs) \<Rightarrow>
          date_utc (year_of ref) (grp_int gs ''1'') (grp_int gs ''2'') (grp_int gs ''3'')
            (grp_int gs ''4'') (grp_int gs ''5'')
      | None \<Rightarrow>
          (case find_submatch besu_stamp_re line of
             None \<Rightarrow> zero_time
           | Some (_, gs) \<Rightarrow>
               let y = grp_int gs ''Y''; m = grp_int gs ''M''; d = grp_int gs ''D'';
                   h = grp_int gs ''h''; mi = grp_int gs ''m''; s = grp_int gs ''s'';
                   zh = grp_int gs ''zh''; zm = grp_int gs ''zm'';
                   sgn = (if map_of gs ''sign'' = Some ''-'' then - 1 else 1)
               in if 1 \<le> m \<and> m \<le> 12 \<and> 1 \<le> d \<and> d \<le> days_in y m \<and> h \<le> 23 \<and> mi \<le> 59 \<and> s \<le> 59 \<and>
                     zh \<le> 24 \<and> zm \<le> 60
                  then date_utc y m d h mi s - sgn * (zh * 3600 + zm * 60) * second
                  else zero_time))"

section \<open>Reorg evidence\<close>

record reorg_log_match =
  rl_drop :: int
  rl_ancestor :: int
  rl_at :: gotime

definition grp_num :: "(string \<times> string) list \<Rightarrow> string \<Rightarrow> int option" where
  "grp_num gs n =
     (case map_of gs n of Some s \<Rightarrow> if s = '''' then None else atoi s | None \<Rightarrow> None)"

text \<open>\<open>strconv.Atoi\<close>'s result on the matched digits: the bound of \<open>int\<close> when they exceed it.\<close>

definition atoi_value :: "string \<Rightarrow> int" where
  "atoi_value s =
     (case read_digits 0 s of Some n \<Rightarrow> if int n < 2 ^ 63 then int n else 2 ^ 63 - 1 | None \<Rightarrow> 0)"

definition reorg_line :: "re \<Rightarrow> gotime \<Rightarrow> string \<Rightarrow> reorg_log_match option" where
  "reorg_line r ref line =
     (case find_submatch r line of
        None \<Rightarrow> None
      | Some (_, gs) \<Rightarrow>
          (case grp_num gs ''drop'' of
             Some d \<Rightarrow>
               Some \<lparr>rl_drop = d, rl_ancestor = (case map_of gs ''ancestor'' of Some a \<Rightarrow> atoi_value a | None \<Rightarrow> 0),
                     rl_at = log_stamp_at line ref\<rparr>
           | None \<Rightarrow>
               (case (grp_num gs ''from'', grp_num gs ''to'') of
                  (Some f, Some t) \<Rightarrow>
                    if f \<le> t then None
                    else Some \<lparr>rl_drop = f - t, rl_ancestor = t, rl_at = log_stamp_at line ref\<rparr>
                | _ \<Rightarrow> None)))"

definition log_reorg_matches :: "log_file \<Rightarrow> re \<Rightarrow> gotime \<Rightarrow> reorg_log_match list" where
  "log_reorg_matches f r ref =
     (case lf_data f of
        None \<Rightarrow> []
      | Some data \<Rightarrow>
          let ns = group_names r
          in if ''drop'' \<notin> set ns \<and> (''from'' \<notin> set ns \<or> ''to'' \<notin> set ns) then []
             else List.map_filter (reorg_line r ref) (split_on (CHR 10) data))"

record reorg_evidence =
  re_depth :: int
  re_matched :: bool
  re_ancestor :: int
  re_source :: string
  re_degraded :: bool

definition no_evidence :: reorg_evidence where
  "no_evidence = \<lparr>re_depth = 0, re_matched = False, re_ancestor = 0, re_source = '''', re_degraded = False\<rparr>"

definition evidence_detail :: "reorg_evidence \<Rightarrow> detail" where
  "evidence_detail e =
     (if \<not> re_matched e then
        lit (if re_degraded e
             then ''no matching monitor reorg event (client has no registered log pattern, degraded to monitor-events-only)''
             else ''no matching reorg evidence'')
      else if 0 < re_ancestor e then
        Fmt ''depth %d via %s (common ancestor height %d)'' [DI (re_depth e), DS (re_source e), DI (re_ancestor e)]
      else Fmt ''depth %d via %s'' [DI (re_depth e), DS (re_source e)])"

definition log_step :: "string \<Rightarrow> chaos_window \<Rightarrow> reorg_evidence \<Rightarrow> reorg_log_match \<Rightarrow> reorg_evidence" where
  "log_step client w best m =
     (if is_zero (rl_at m) \<or> \<not> cw_covers w '''' (rl_at m) (30 * second) then best
      else if 1 \<le> rl_drop m \<and> re_depth best < rl_drop m then
        \<lparr>re_depth = rl_drop m, re_matched = True, re_ancestor = rl_ancestor m, re_source = client,
         re_degraded = False\<rparr>
      else best)"

definition reorg_depth_re :: re where
  "reorg_depth_re = Sq (Lit ''(depth '') (Sq (Grp ''1'' digits1) (Lit '')''))"

definition detail_depth :: "string \<Rightarrow> int" where
  "detail_depth s =
     (case find_submatch reorg_depth_re s of
        Some (_, gs) \<Rightarrow> (case map_of gs ''1'' of Some d \<Rightarrow> atoi_value d | None \<Rightarrow> 0)
      | None \<Rightarrow> 0)"

definition monitor_step :: "chaos_window \<Rightarrow> reorg_evidence \<Rightarrow> levent \<Rightarrow> reorg_evidence" where
  "monitor_step w best ev =
     (if \<not> is_kind EvReorg ev \<or> \<not> same_node (le_node ev) (cw_node w) \<or>
         \<not> cw_covers w (le_node ev) (le_time ev) (30 * second) then best
      else let d = detail_depth (le_detail ev)
           in if 1 \<le> d \<and> re_depth best < d then
                \<lparr>re_depth = d, re_matched = True, re_ancestor = 0, re_source = ''monitor'', re_degraded = False\<rparr>
              else best)"

definition match_reorg :: "verifier \<Rightarrow> chaos_window \<Rightarrow> reorg_evidence" where
  "match_reorg v w =
     (let client = victim_client v (cw_node w); pat = client_log_patterns client;
          from_logs =
            (case pat of
               None \<Rightarrow> no_evidence
             | Some r \<Rightarrow>
                 if vf_logs v = None then no_evidence
                 else foldl (log_step client w) no_evidence
                        (concat (map (\<lambda>f. log_reorg_matches f r (cw_from w)) (victim_log_files v (cw_node w)))))
      in if re_matched from_logs then from_logs
         else let best = foldl (monitor_step w) from_logs (vf_monitor v)
              in best\<lparr>re_degraded := pat = None \<and> \<not> re_matched best\<rparr>)"

section \<open>Partitions\<close>

definition skipped_outcome :: outcome where
  "skipped_outcome = (Pass, lit ''skipped (--skip-chaos)'')"

definition schedule_failed :: "schedule_error \<Rightarrow> outcome" where
  "schedule_failed e = (Fail, Fmt ''schedule: %v'' [DD (schedule_error_detail e)])"

definition after_quiet :: "dump \<Rightarrow> chaos_window \<Rightarrow> bool" where
  "after_quiet d w \<longleftrightarrow> du_quiet d \<noteq> 0 \<and> tunix (du_quiet d) < cw_from w"

datatype judged = Problem detail | Healed "detail option"

definition judge_window :: "verifier \<Rightarrow> dump \<Rightarrow> dump_op \<times> chaos_window \<Rightarrow> judged" where
  "judge_window v d ow =
     (case ow of (x, w) \<Rightarrow>
        if \<not> cw_healed w then
          Problem (Fmt ''op %s (%s) never healed'' [DS (do_name x), DS (cw_node w)])
        else if heal_deadline d x < cw_to w then
          Problem (Fmt ''op %s (%s) healed at %s, after its %s deadline %s''
                     [DS (do_name x), DS (cw_node w), DI (cw_to w), DS (do_class x), DI (heal_deadline d x)])
        else let e = match_reorg v w
             in Healed (if re_matched e then None
                        else Some (Fmt ''op %s (%s): %s'' [DS (do_name x), DS (cw_node w), DD (evidence_detail e)])))"

definition judged_problems :: "judged list \<Rightarrow> detail list" where
  "judged_problems js = List.map_filter (\<lambda>j. case j of Problem p \<Rightarrow> Some p | Healed _ \<Rightarrow> None) js"

definition judged_notes :: "judged list \<Rightarrow> detail list" where
  "judged_notes js = List.map_filter (\<lambda>j. case j of Healed (Some n) \<Rightarrow> Some n | _ \<Rightarrow> None) js"

definition count_healed :: "judged list \<Rightarrow> nat" where
  "count_healed js = length (filter (\<lambda>j. case j of Healed _ \<Rightarrow> True | _ \<Rightarrow> False) js)"

definition count_corroborated :: "judged list \<Rightarrow> nat" where
  "count_corroborated js = length (filter (\<lambda>j. j = Healed None) js)"

definition check_partitions_healed :: "verifier \<Rightarrow> outcome" where
  "check_partitions_healed v =
     (if vf_skip_chaos v then skipped_outcome
      else
        (case schedule_dump (vf_chaos v) of
           Inl e \<Rightarrow> schedule_failed e
         | Inr d \<Rightarrow>
             (case attribute_windows d (windows_of v) of (matched, unscheduled) \<Rightarrow>
                let late = filter (after_quiet d) unscheduled;
                    stray = filter (\<lambda>w. \<not> after_quiet d w) unscheduled
                in if stray \<noteq> [] then
                     (Fail, Fmt ''isolation(s) not in the schedule's admitted ops: %s'' [DL (map cw_node stray)])
                   else
                     let js = map (judge_window v d) matched;
                         notes = (if late \<noteq> [] then
                             [Fmt ''%d post-migration isolation(s) applied after the schedule went quiet''
                                [DI (int (length late))]] else []) @ judged_notes js;
                         healed = count_healed js; corr = count_corroborated js;
                         evid = Fmt ''%d/%d admitted ops healed within their class deadline, %d corroborated by a reorg''
                           ([DI (int healed), DI (int (length matched)), DI (int corr)] @ map DD notes)
                     in settle (judged_problems js)
                          (if healed < length matched then
                             (Fail, Fmt ''only %d of %d admitted isolations healed within their class deadline''
                                      [DI (int healed), DI (int (length matched))])
                           else if healed < 4 then
                             (Inconclusive, Fmt ''all %d admitted isolation(s) healed within their deadline, but a full run schedules >= 4''
                                              [DI (int healed)])
                           else if corr < 4 then (Inconclusive, evid)
                           else (Pass, evid)))))"

definition deeper :: "verifier \<Rightarrow> dump \<Rightarrow> int \<times> string \<times> string \<Rightarrow> dump_op \<times> chaos_window \<Rightarrow> int \<times> string \<times> string" where
  "deeper v d best ow =
     (case ow of (x, w) \<Rightarrow>
        if \<not> tunix (do_end x) < tunix (du_fork d) \<or> \<not> cw_healed w then best
        else let e = match_reorg v w
             in if re_matched e \<and> fst best < re_depth e then (re_depth e, do_name x, cw_node w) else best)"

definition check_prefork_deep_reorg :: "verifier \<Rightarrow> outcome" where
  "check_prefork_deep_reorg v =
     (if vf_skip_chaos v then skipped_outcome
      else
        (case schedule_dump (vf_chaos v) of
           Inl e \<Rightarrow> schedule_failed e
         | Inr d \<Rightarrow>
             (case foldl (deeper v d) (0, '''', '''') (fst (attribute_windows d (windows_of v))) of
                (best, best_op, best_node) \<Rightarrow>
                  if 10 \<le> best then
                    (Pass, Fmt ''op %s reorged at depth %d on %s (>= 10)'' [DS best_op, DI best, DS best_node])
                  else (Inconclusive, Fmt ''no admitted op reorged at depth >= 10 (max observed %d)'' [DI best]))))"

section \<open>The straddle\<close>

definition istar_reorged_for :: "verifier \<Rightarrow> string \<Rightarrow> levent option" where
  "istar_reorged_for v node =
     List.find (\<lambda>ev. is_kind EvIStarReorged ev \<and> same_node (le_node ev) node) (vf_monitor v)"

definition heal_says :: "verifier \<Rightarrow> string \<Rightarrow> gotime \<Rightarrow> string \<Rightarrow> bool" where
  "heal_says v node start needle \<longleftrightarrow>
     (\<exists>ev \<in> set (vf_chaos v). is_kind EvHeal ev \<and> same_node (le_node ev) node \<and>
        \<not> le_time ev < start \<and> str_contains (le_detail ev) needle)"

definition straddle_never_applied :: "verifier \<Rightarrow> string \<Rightarrow> int list \<Rightarrow> gotime \<Rightarrow> gotime \<Rightarrow> bool" where
  "straddle_never_applied v name victims start en \<longleftrightarrow>
     (\<exists>ev \<in> set (vf_chaos v).
        (case node_index (le_node ev) of
           None \<Rightarrow> False
         | Some idx \<Rightarrow>
             idx \<in> set victims \<and>
             (is_kind EvSkip ev \<and> le_detail ev = ''never applied: '' @ name \<or>
              is_kind EvWarn ev \<and> take (length ''partition failed'') (le_detail ev) = ''partition failed'' \<and>
                \<not> le_time ev < start \<and> \<not> en < le_time ev)))"

definition victim_tip :: "verifier \<Rightarrow> string \<Rightarrow> gotime \<Rightarrow> gotime \<Rightarrow> u64" where
  "victim_tip v node start en =
     foldl (\<lambda>tip ev. if is_kind EvHead ev \<and> same_node (le_node ev) node \<and>
                       \<not> le_time ev < start \<and> \<not> en < le_time ev \<and> tip < le_number ev
                    then le_number ev else tip) 0 (vf_monitor v)"

definition spanning_straddle :: "dump \<Rightarrow> dump_op option" where
  "spanning_straddle d =
     List.find (\<lambda>x. class_of (do_class x) = ClassStraddle \<and>
                   \<not> tunix (du_fork d) < tunix (do_start x) \<and> \<not> tunix (dump_latest x) < tunix (du_fork d))
       (dump_admitted d)"

definition straddle_window :: "dump_op \<Rightarrow> string \<Rightarrow> chaos_window" where
  "straddle_window x node =
     \<lparr>cw_node = node, cw_from = tunix (do_start x), cw_to = tunix (dump_latest x) + SplitGrace,
      cw_healed = True\<rparr>"

text \<open>The depth of a victim's rewind: its own orphaned branch walked on its node, or else the
  logs' and the monitor's evidence.\<close>

definition rewind_evidence :: "verifier \<Rightarrow> rpc \<Rightarrow> int \<Rightarrow> chaos_window \<Rightarrow> levent \<Rightarrow> reorg_evidence" where
  "rewind_evidence v r idx w orphaned =
     (let e0 = match_reorg v w; old = find_hash (le_detail orphaned)
      in if old = '''' then e0
         else (case el_by_index v idx of
                 None \<Rightarrow> e0
               | Some victim \<Rightarrow>
                   (case spec_for registry (el_name victim) of (spec, known) \<Rightarrow>
                      if \<not> known \<or> \<not> serves_orphans spec then e0
                      else
                        (case walk_orphan_branch r victim old
                                (max (victim_tip v (cw_node w) (cw_from w) (le_time orphaned)) (le_number orphaned)) of
                           Inl _ \<Rightarrow> e0
                         | Inr (depth, ancestor) \<Rightarrow>
                             \<lparr>re_depth = sint depth, re_matched = True, re_ancestor = sint ancestor,
                              re_source = ''parent walk (corroboration: '' @ render (evidence_detail e0) @ '')'', re_degraded = False\<rparr>))))"

datatype victim_fate = Kept | NeverCrossed | Unreachable | Rewound reorg_evidence

definition victim_fate_of :: "verifier \<Rightarrow> rpc \<Rightarrow> dump_op \<Rightarrow> int \<Rightarrow> victim_fate" where
  "victim_fate_of v r x idx =
     (let w = straddle_window x (node_name idx)
      in case istar_reorged_for v (node_name idx) of
           None \<Rightarrow>
             if heal_says v (node_name idx) (cw_from w) ''never crossed the fork on its own branch'' then NeverCrossed
             else if heal_says v (node_name idx) (cw_from w) ''unreachable during the hold'' then Unreachable
             else Kept
         | Some ev \<Rightarrow> Rewound (rewind_evidence v r idx w ev))"

definition check_straddle_rewind :: "verifier \<Rightarrow> rpc \<Rightarrow> outcome" where
  "check_straddle_rewind v r =
     (if vf_skip_chaos v then skipped_outcome
      else
        (case schedule_dump (vf_chaos v) of
           Inl e \<Rightarrow> schedule_failed e
         | Inr d \<Rightarrow>
             (case spanning_straddle d of
                None \<Rightarrow> (Inconclusive, Fmt ''no admitted straddle op spans the fork time %s in this run's schedule''
                           [DI (tunix (du_fork d))])
              | Some x \<Rightarrow>
                  if do_victims x = [] then
                    (Fail, Fmt ''schedule straddle op %s has no victims'' [DS (do_name x)])
                  else
                    let victims = sort (do_victims x); w = straddle_window x ''''
                    in if straddle_never_applied v (do_name x) victims (cw_from w) (cw_to w) then
                         (Fail, Fmt ''straddle op %s was never applied'' [DS (do_name x)])
                       else
                         let fates = map (\<lambda>i. (i, victim_fate_of v r x i)) victims;
                             failed =
                               (if istar_reorged_for v (node_name (du_anchor d)) \<noteq> None then
                                  [Fmt ''anchor node %d rewound across I*: an island won the heal'' [DI (du_anchor d)]]
                                else []) @
                               List.map_filter (\<lambda>(i, f). if f = Kept then
                                   Some (Fmt ''victim %d kept its own fork block (no istar-reorged event): its branch won the heal'' [DI i])
                                 else None) fates;
                             unproduced =
                               List.map_filter (\<lambda>(i, f).
                                 (case f of
                                    NeverCrossed \<Rightarrow> Some (Fmt ''victim %d never crossed the fork on its own branch (hold expired), nothing to rewind'' [DI i])
                                  | Unreachable \<Rightarrow> Some (Fmt ''victim %d was unreachable during the hold, nothing judged'' [DI i])
                                  | _ \<Rightarrow> None)) fates;
                             depths =
                               List.map_filter (\<lambda>(i, f).
                                 (case f of
                                    Rewound e \<Rightarrow> Some (if re_matched e then show_int (re_depth e) else ''?'')
                                  | _ \<Rightarrow> None)) fates
                         in if failed \<noteq> [] then
                              (Fail, Fmt ''straddle op %s: %s'' [DS (do_name x), DD (joined (failed @ unproduced))])
                            else if unproduced \<noteq> [] then
                              (Inconclusive, Fmt ''straddle op %s: %s'' [DS (do_name x), DD (joined unproduced)])
                            else
                              (Pass, Fmt ''straddle op %s spans fork %s; victims %s each orphaned their fork block and rewound across it (depths %s)''
                                 [DS (do_name x), DI (tunix (du_fork d)), DL (map show_int victims), DL depths]))))"

section \<open>Shadow samples\<close>

definition shadow_reporters :: "verifier \<Rightarrow> string list" where
  "shadow_reporters v =
     filter (\<lambda>n. case spec_for registry n of (spec, known) \<Rightarrow> \<not> (known \<and> \<not> introspects spec)) (el_names v)"

definition reported_roots :: "string list \<Rightarrow> levent \<Rightarrow> string list" where
  "reported_roots ns ev = filter (\<lambda>x. x \<noteq> '''') (List.map_filter (le_roots ev) ns)"

definition good_sample :: "string list \<Rightarrow> levent \<Rightarrow> bool" where
  "good_sample ns ev \<longleftrightarrow>
     length (reported_roots ns ev) = length ns \<and> length (remdups (reported_roots ns ev)) = 1"

definition near_boundary :: "verifier \<Rightarrow> levent \<Rightarrow> bool" where
  "near_boundary v ev \<longleftrightarrow>
     (case vf_istar v of
        Inl _ \<Rightarrow> False
      | Inr (b, _) \<Rightarrow> b \<le> le_number ev + 40 \<and> le_number ev \<le> b + 10)"

definition outside_chaos :: "verifier \<Rightarrow> levent \<Rightarrow> bool" where
  "outside_chaos v ev \<longleftrightarrow> \<not> (\<exists>w \<in> set (windows_of v). cw_covers w '''' (le_time ev) (30 * second))"

definition critical_problem :: "verifier \<Rightarrow> levent \<Rightarrow> detail option" where
  "critical_problem v ev =
     (if \<not> is_kind EvCritical ev then None
      else if is_finding FindingRootMismatch ev then
        Some (Fmt ''critical root-mismatch at %s (node %s): %s'' [DI (le_time ev), DS (le_node ev), DS (le_detail ev)])
      else if waived (waiver_windows v) ev then None
      else Some (Fmt ''critical %s at %s (node %s) outside any chaos window: %s''
                   [DS (le_finding ev), DI (le_time ev), DS (le_node ev), DS (le_detail ev)]))"

definition check_shadow_samples :: "verifier \<Rightarrow> outcome" where
  "check_shadow_samples v =
     (let ns = shadow_reporters v
      in if length ns < 2 then
           (Inconclusive, Fmt ''only %d of %d execution client(s) can report a shadow root: nothing to cross-check''
              [DI (int (length ns)), DI (int (length (el_names v)))])
         else
           let samples = filter (is_kind EvSample) (vf_monitor v);
               some = filter (\<lambda>ev. reported_roots ns ev \<noteq> []) samples;
               good = filter (good_sample ns) samples;
               near = filter (near_boundary v) good; outside = filter (outside_chaos v) good;
               thin = (if \<not> vf_smoke v \<and> length good < 50 then
                   [Fmt ''only %d all-non-null-equal sample(s), want >= 50 for a full run'' [DI (int (length good))]] else []);
               bthin = (if \<not> vf_smoke v \<and> (case vf_istar v of Inr _ \<Rightarrow> True | Inl _ \<Rightarrow> False) \<and> length near < 4 then
                   [Fmt ''only %d agreeing sample(s) in the boundary band [I*-40, I*+10], want >= 4'' [DI (int (length near))]] else []);
               problems =
                 (if vf_smoke v \<and> length some < 5 then
                    [Fmt ''only %d sample(s) with >=1 non-null root, need >= 5 (smoke)'' [DI (int (length some))]] else []) @
                 (if \<not> vf_skip_chaos v \<and> length outside < 10 then
                    [Fmt ''only %d all-non-null-equal sample(s) strictly outside chaos windows, need >= 10''
                       [DI (int (length outside))]] else []) @
                 List.map_filter (critical_problem v) (vf_monitor v);
               counts = [DI (int (length samples)), DI (int (length good)), DI (int (length outside)), DI (int (length near))]
           in settle problems
                (if thin \<noteq> [] \<or> bthin \<noteq> [] then
                   (Inconclusive, Fmt ''%s (%d samples, %d good, %d outside chaos windows, %d near boundary, 0 unwaived criticals)''
                      (DD (joined (thin @ bthin)) # counts))
                 else
                   (Pass, Fmt ''%d samples, %d good, %d outside chaos windows, %d near boundary, 0 unwaived criticals'' counts)))"

definition check_postfork_samples :: "verifier \<Rightarrow> outcome" where
  "check_postfork_samples v =
     (case vf_istar v of
        Inl e \<Rightarrow> istar_unresolved e
      | Inr (b, _) \<Rightarrow>
          let k = length (filter (\<lambda>ev. is_kind EvSample ev \<and> b \<le> le_number ev) (vf_monitor v))
          in if k = 0 then (Inconclusive, lit ''no cross-node samples at or past I*'')
             else
               settle
                 (map (\<lambda>ev. Fmt ''post-I* root mismatch at %s outside any chaos window: %s''
                              [DI (le_time ev), DS (le_detail ev)])
                    (unwaived (waiver_windows v)
                       (\<lambda>ev. is_kind EvWarn ev \<and> is_finding FindingRootMismatch ev) (vf_monitor v)))
                 (Pass, Fmt ''%d post-I* sample(s), zero unwaived root-mismatch warnings'' [DI (int k)]))"

section \<open>Completion\<close>

definition progress_stage :: "progress \<Rightarrow> nat" where
  "progress_stage p =
     (if mp_phase p = PhaseDone then 3
      else if mp_phase p = PhaseRunning then
        (case mp_binary p of
           Some d \<Rightarrow> if dp_phase d = DirParked \<and> active (mp_merkle p) then 2 else 1
         | None \<Rightarrow> 1)
      else 0)"

definition progress_nodes :: "verifier \<Rightarrow> string list" where
  "progress_nodes v = rev (remdups (rev (map le_node (filter (is_kind EvProgress) (vf_monitor v)))))"

definition node_introspects :: "string \<Rightarrow> bool" where
  "node_introspects n = (case spec_for registry n of (spec, ok) \<Rightarrow> ok \<and> introspects spec)"

definition introspecting_nodes :: "verifier \<Rightarrow> string list \<times> string list" where
  "introspecting_nodes v =
     (sort (filter node_introspects (progress_nodes v)),
      sort (filter (\<lambda>n. \<not> node_introspects n) (progress_nodes v)))"

definition doneDeadlineAfterFork :: duration where
  [go_defs]: "doneDeadlineAfterFork = 1500 * second"

definition sameDonePollSlop :: duration where
  [go_defs]: "sameDonePollSlop = 3 * second"

record completion_state =
  ct_done :: gotime
  ct_final :: gotime
  ct_post :: int

definition completion0 :: completion_state where
  "completion0 = \<lparr>ct_done = zero_time, ct_final = zero_time, ct_post = 0\<rparr>"

definition post_done_problem :: "string \<Rightarrow> bool \<Rightarrow> progress \<Rightarrow> gotime \<Rightarrow> detail option" where
  "post_done_problem node retires p t =
     (if mp_phase p \<noteq> PhaseDone then
        Some (Fmt ''%s: regressed from done to %q at %s'' [DS node, DS (mp_phase p), DI t])
      else if \<not> retires then None
      else if active (mp_binary p) \<or> active (mp_merkle p) then
        Some (Fmt ''%s: a direction is active again at %s, after done'' [DS node, DI t])
      else if (case mp_binary p of Some d \<Rightarrow> dp_shadow_root d \<noteq> '''' | None \<Rightarrow> False) then
        Some (Fmt ''%s: non-null shadow root at %s, after done'' [DS node, DI t])
      else None)"

text \<open>One node's events in order, up to the first that ends the loop with its problem.\<close>

fun completion_loop ::
  "string \<Rightarrow> bool \<Rightarrow> gotime \<Rightarrow> levent list \<Rightarrow> completion_state \<Rightarrow> completion_state \<times> detail list"
where
  "completion_loop node retires forkT [] st = (st, [])"
| "completion_loop node retires forkT (ev # evs) st =
     (if le_node ev \<noteq> node then completion_loop node retires forkT evs st
      else
        let st = (if is_kind EvIStarFinal ev \<and> is_zero (ct_final st) then st\<lparr>ct_final := le_time ev\<rparr> else st)
        in (case (is_kind EvProgress ev, le_raw ev) of
              (True, Some raw) \<Rightarrow>
                (case decode_progress (rd_progress raw) of
                   Inl _ \<Rightarrow> (st, [Fmt ''%s: undecodable progress at %s'' [DS node, DI (le_time ev)]])
                 | Inr p \<Rightarrow>
                     if is_zero (ct_done st) then
                       if active (mp_merkle p) \<and> le_time ev < forkT then
                         (st, [Fmt ''%s: merkle direction active at %s, before T'' [DS node, DI (le_time ev)]])
                       else completion_loop node retires forkT evs
                              (if mp_phase p = PhaseDone then st\<lparr>ct_done := le_time ev\<rparr> else st)
                     else
                       let st = st\<lparr>ct_post := ct_post st + 1\<rparr>
                       in (case post_done_problem node retires p (le_time ev) of
                             Some pr \<Rightarrow> (st, [pr])
                           | None \<Rightarrow> completion_loop node retires forkT evs st))
            | _ \<Rightarrow> completion_loop node retires forkT evs st))"

definition completion_verdict :: "string \<Rightarrow> bool \<Rightarrow> gotime \<Rightarrow> completion_state \<Rightarrow> detail + detail" where
  "completion_verdict node retires forkT st =
     (if is_zero (ct_done st) then Inl (Fmt ''%s never reported done'' [DS node])
      else if is_zero (ct_final st) then
        Inl (Fmt ''%s reported done at %s but its fork block never finalized'' [DS node, DI (ct_done st)])
      else if ct_done st < ct_final st + - sameDonePollSlop then
        Inl (Fmt ''%s reported done %.0fs BEFORE its fork block finalized'' [DS node, DI (tsub (ct_final st) (ct_done st))])
      else if forkT + doneDeadlineAfterFork < ct_done st then
        Inl (Fmt ''%s reported done more than %s after the fork'' [DS node, DI doneDeadlineAfterFork])
      else
        let args = [DS node, DI (tsub (ct_done st) forkT), DI (tsub (ct_done st) (ct_final st)), DI (ct_post st)]
        in Inr (if \<not> retires then
                  Fmt ''%s done %.0fs after fork, %.0fs after its fork block finalized, %d post-done polls (keeps both trees: retirement unjudged)'' args
                else Fmt ''%s done %.0fs after fork, %.0fs after its fork block finalized, %d clean post-done polls'' args))"

definition complete_node :: "gotime \<Rightarrow> levent list \<Rightarrow> string \<Rightarrow> detail list \<times> detail list" where
  "complete_node forkT monitor node =
     (let retires = retires_shadow (fst (spec_for registry node))
      in case completion_loop node retires forkT monitor completion0 of
           (st, ps) \<Rightarrow>
             (case completion_verdict node retires forkT st of
                Inl p \<Rightarrow> (ps @ [p], [])
              | Inr n \<Rightarrow> (ps, [n])))"

definition check_completion :: "verifier \<Rightarrow> outcome" where
  "check_completion v =
     (case introspecting_nodes v of
        (nodes, degraded) \<Rightarrow>
          if nodes = [] then
            (Fail, lit ''no introspecting node reported progress: nothing can prove the migration completed'')
          else
            let rs = map (complete_node (tunix (sint (vf_T v))) (vf_monitor v)) nodes
            in settle (concat (map fst rs))
                 (Pass, joined (concat (map snd rs) @
                    map (\<lambda>n. Fmt ''%s: no introspection contract, completion unjudged'' [DS n]) degraded)))"

section \<open>Configured windows\<close>

definition contains_fold :: "string \<Rightarrow> log_file \<Rightarrow> bool" where
  "contains_fold pat f \<longleftrightarrow> (\<exists>l \<in> set (lf_scanned f). str_contains (map lower l) (map lower pat))"

text \<open>One client: nothing registered to look for (a note), or judged, with the file that has it.\<close>

definition window_log :: "verifier \<Rightarrow> string \<Rightarrow> detail + detail option" where
  "window_log v node =
     (case spec_for registry node of (spec, known) \<Rightarrow>
        if \<not> known \<or> forbidden_window_log spec = '''' then
          Inl (Fmt ''%s: no registered window-log contract'' [DS node])
        else
          Inr (map_option (\<lambda>f. Fmt ''found %q mention in %s'' [DS (forbidden_window_log spec), DS (lf_path f)])
                 (List.find (contains_fold (forbidden_window_log spec)) (victim_log_files v node))))"

definition check_no_configured_window :: "verifier \<Rightarrow> outcome" where
  "check_no_configured_window v =
     (let judged = (if vf_logs v = None then [] else map (window_log v) (el_names v));
          problems = (if vf_logs v = None then [lit ''no --logs-dir given''] else []) @
            List.map_filter (\<lambda>j. case j of Inr p \<Rightarrow> p | Inl _ \<Rightarrow> None) judged;
          finality = (case vf_logs v of None \<Rightarrow> False
            | Some (fs, _) \<Rightarrow>
                \<exists>f \<in> set fs. str_contains (map lower (lf_name f)) ''lighthouse'' \<and> contains_fold ''finaliz'' f);
          notes = List.map_filter (\<lambda>j. case j of Inl n \<Rightarrow> Some n | Inr _ \<Rightarrow> None) judged @
            (if finality then [lit ''INFO: lighthouse logs show finalized checkpoints''] else []);
          evid = (if problems @ notes = [] then lit ''no configured-window mention in any client log''
                  else joined (problems @ notes));
          n = length (filter (\<lambda>j. case j of Inr _ \<Rightarrow> True | Inl _ \<Rightarrow> False) judged)
      in if problems = [] \<and> n = 0 then (Inconclusive, evid)
         else (bool_verdict (problems = []), evid))"

end
