(* ===== verification/Snapshot.thy ===== *)
theory Snapshot
  imports Registry SwapGate Regexp
begin

text \<open>
  \<open>internal/pbtsnap/pbtsnap.go\<close>: the root a snapshot file claims in its trailer, and the block
  and root geth's conversion log reports. go-ethereum's \<open>common.Hash\<close> is a library: a hash is
  its two texts, \<open>Hex()\<close> and \<open>TerminalString()\<close>, and the conversions into one are parameters.
\<close>

record hash_text =
  ht_hex :: string
  ht_terminal :: string

datatype snap_error = SnapIo string | TooShort nat | WrongTag char

text \<open>The last 33 bytes of a file: the end tag and the root.\<close>

definition snapshot_root :: "(string \<Rightarrow> hash_text) \<Rightarrow> string + string \<Rightarrow> snap_error + hash_text" where
  "snapshot_root bytes_to_hash file =
     (case file of
        Inl e \<Rightarrow> Inl (SnapIo e)
      | Inr bytes \<Rightarrow>
          if length bytes < 33 then Inl (TooShort (length bytes))
          else let trailer = drop (length bytes - 33) bytes
               in if hd trailer \<noteq> CHR 0x07 then Inl (WrongTag (hd trailer))
                  else Inr (bytes_to_hash (List.tl trailer)))"

definition re_space :: "char \<Rightarrow> bool" where
  "re_space c \<longleftrightarrow> c \<in> {CHR 9, CHR 10, CHR 12, CHR 13, CHR 32}"

definition convert_block_re :: re where
  "convert_block_re =
     (let d = Cls (\<lambda>c. is_digit c \<or> c = CHR '','')
      in Sq (Lit ''Starting MPT to binary trie conversion'') (Sq (Cls re_space) (Sq any_text (Sq WordB
           (Sq (Lit ''block='') (Grp ''1'' (Sq d (Star d))))))))"

definition convert_root_re :: re where
  "convert_root_re =
     (let d = Cls (\<lambda>c. hex_char c \<or> c = CHR ''x'' \<or> c = CHR ''.'')
      in Sq (Lit ''Conversion complete'') (Sq (Cls re_space) (Sq (Star (Cls re_space))
           (Sq (Lit ''binaryRoot='') (Grp ''1'' (Sq d (Star d)))))))"

datatype convert_error = NoStartLine | BadBlock string | NoCompletion

definition grp_text :: "(string \<times> string) list \<Rightarrow> string \<Rightarrow> string" where
  "grp_text gs n = (case map_of gs n of Some s \<Rightarrow> s | None \<Rightarrow> '''')"

definition convert_log :: "string \<Rightarrow> convert_error + u64 \<times> string" where
  "convert_log lg =
     (case find_submatch convert_block_re lg of
        None \<Rightarrow> Inl NoStartLine
      | Some (_, gs) \<Rightarrow>
          (case parse_uint_dec (filter (\<lambda>c. c \<noteq> CHR '','') (grp_text gs ''1'')) of
             None \<Rightarrow> Inl (BadBlock (grp_text gs ''1''))
           | Some block \<Rightarrow>
               (case find_submatch convert_root_re lg of
                  None \<Rightarrow> Inl NoCompletion
                | Some (_, rs) \<Rightarrow> Inr (block, grp_text rs ''1''))))"

definition logged_matches :: "string \<Rightarrow> hash_text \<Rightarrow> bool" where
  "logged_matches logged h =
     (if str_contains logged ''..'' then logged = ht_terminal h else equal_fold logged (ht_hex h))"

section \<open>Theorems\<close>

text \<open>A snapshot written as its records, the end tag and 32 bytes of root is read back as that
  root, whatever the records hold; a file that ends in fewer bytes than the trailer never
  yields one.\<close>

theorem snapshot_root_roundtrip:
  "length root32 = 32 \<Longrightarrow> snapshot_root f (Inr (records @ CHR 0x07 # root32)) = Inr (f root32)"
  by (simp add: snapshot_root_def Let_def)

theorem snapshot_root_roundtrip_witness:
  "snapshot_root (\<lambda>b. \<lparr>ht_hex = b, ht_terminal = ''''\<rparr>) (Inr (''records'' @ CHR 0x07 # replicate 32 (CHR ''a''))) =
     Inr \<lparr>ht_hex = replicate 32 (CHR ''a''), ht_terminal = ''''\<rparr>"
  by (rule snapshot_root_roundtrip) simp

end
