(* ===== verification/VerifyOffline.thy ===== *)
theory VerifyOffline
  imports VerifyEvidence Snapshot
begin

text \<open>
  The checks of \<open>cmd/verify-migration\<close> on what the lap driver and \<open>cmd/migration-swap\<close> recorded
  (\<open>manifest.go\<close>, \<open>offline.go\<close>): the lap manifest, the injected state, and for an offline lap the
  producers' artifacts, the consumers' imports, the serialization of the swaps, their catch-up
  and the coverage. A file of the artifact directory is an argument, by directory and name; the
  conversions of a hash are those of \<open>Snapshot\<close>; an RPC answer is as in \<open>VerifyChain\<close>.
\<close>

section \<open>The lap manifest\<close>

definition ops_around :: "dump \<Rightarrow> gotime \<Rightarrow> gotime \<Rightarrow> dump_op list" where
  "ops_around d start en =
     filter (\<lambda>x. \<not> tunix (do_end x) + 60 * second < start \<and> \<not> en < tunix (do_start x) + - (60 * second))
       (dump_admitted d)"

definition schedule_problems :: "lap_manifest \<Rightarrow> schedule_error + dump \<Rightarrow> detail list" where
  "schedule_problems m sched =
     (case sched of
        Inl e \<Rightarrow> [Fmt ''schedule: %v'' [DD (schedule_error_detail e)]]
      | Inr d \<Rightarrow>
          (if lm_profile m \<noteq> '''' \<and> du_profile d \<noteq> lm_profile m then
             [Fmt ''manifest profile %q != published schedule profile %q'' [DS (lm_profile m), DS (du_profile d)]] else []) @
          (case lm_restart m of
             None \<Rightarrow> []
           | Some (node, when) \<Rightarrow>
               map (\<lambda>x. Fmt ''restart of node %d at %s falls inside admitted op %s [%s, %s] (+-60s)''
                          [DI node, DI (tunix when), DS (do_name x), DI (tunix (do_start x) + - (60 * second)),
                           DI (tunix (do_end x) + 60 * second)])
                 (ops_around d (tunix when) (tunix when))))"

definition schedule_notes :: "lap_manifest \<Rightarrow> schedule_error + dump \<Rightarrow> detail list" where
  "schedule_notes m sched =
     (case (sched, lm_restart m) of
        (Inr d, Some (node, when)) \<Rightarrow> [Fmt ''restart of node %d executed at %s'' [DI node, DI (tunix when)]]
      | _ \<Rightarrow> [])"

definition handover_problems :: "verifier \<Rightarrow> lap_manifest \<Rightarrow> detail list" where
  "handover_problems v m =
     (if \<not> lm_handover m then []
      else
        (if \<exists>ev \<in> set (vf_chaos v). str_contains (le_detail ev) ''handing disruptoor over'' then []
         else [lit ''manifest expects a gate handover but no handover record appears in the chaos/gate stream'']) @
        (if lm_scenarios m = [] then
           [lit ''manifest expects a handover but records zero scenarios: the post-switchover suite never ran'']
         else []))"

definition scenario_problems :: "lap_manifest \<Rightarrow> detail list" where
  "scenario_problems m =
     List.map_filter (\<lambda>(name, outcome).
       if outcome = ''ok'' \<or> outcome = ''inconclusive'' then None
       else Some (Fmt ''scenario %s ended %q, want ok'' [DS name, DS outcome])) (lm_scenarios m) @
     List.map_filter (\<lambda>name.
       if name \<in> set (map fst (lm_scenarios m)) then None
       else Some (Fmt ''requested scenario %s has no recorded outcome'' [DS name])) (lm_requested m)"

definition untested_scenarios :: "lap_manifest \<Rightarrow> detail list" where
  "untested_scenarios m =
     List.map_filter (\<lambda>(name, outcome).
       if outcome = ''inconclusive'' then Some (Fmt ''scenario %s ended inconclusive'' [DS name]) else None)
       (lm_scenarios m)"

definition quiesce_problems :: "verifier \<Rightarrow> lap_manifest \<Rightarrow> detail list" where
  "quiesce_problems v m =
     (if lm_quiesced m = 0 then []
      else
        map (\<lambda>ev. Fmt ''isolation at %s after the %s quiesce: end-state evidence was judged under live chaos''
                    [DI (le_time ev), DI (tunix (lm_quiesced m))])
          (filter (\<lambda>ev. is_kind EvIsolate ev \<and> tunix (lm_quiesced m) + 30 * second < le_time ev) (vf_chaos v)))"

definition check_lap_manifest :: "verifier \<Rightarrow> outcome" where
  "check_lap_manifest v =
     (case vf_manifest v of
        None \<Rightarrow> (Inconclusive, lit ''no --manifest given (run driven outside the lap script)'')
      | Some (Inl e) \<Rightarrow> (Fail, Fmt ''manifest: %v'' [DS e])
      | Some (Inr m) \<Rightarrow>
          let sched = schedule_dump (vf_chaos v);
              ok = length (filter (\<lambda>x. snd x = ''ok'') (lm_scenarios m));
              problems = schedule_problems m sched @ handover_problems v m @ scenario_problems m @ quiesce_problems v m;
              notes = schedule_notes m sched @
                (if 0 < ok then [Fmt ''%d scenario(s) completed ok'' [DI (int ok)]] else []) @
                (if lm_quiesced m \<noteq> 0 then [Fmt ''chaos quiesced at %s'' [DI (tunix (lm_quiesced m))]] else [])
          in settle problems
               (if untested_scenarios m \<noteq> [] then (Inconclusive, joined (untested_scenarios m @ notes))
                else (Pass, joined (if notes = [] then [lit ''manifest present, nothing scheduled to reconcile''] else notes))))"

section \<open>Injected state\<close>

fun read_injections :: "levent list \<Rightarrow> detail + inj_record list" where
  "read_injections [] = Inr []"
| "read_injections (ev # evs) =
     (case (is_kind EvInject ev, le_raw ev) of
        (True, Some raw) \<Rightarrow>
          (case rd_injection raw of
             Inl e \<Rightarrow> Inl (Fmt ''undecodable inject record at %s: %v'' [DI (le_time ev), DS e])
           | Inr i \<Rightarrow> (case read_injections evs of Inl e \<Rightarrow> Inl e | Inr is \<Rightarrow> Inr (i # is)))
      | _ \<Rightarrow> read_injections evs)"

text \<open>The nodes' values of a slot against the first to answer: that value and node, whether they
  agree, and the problems.\<close>

fun slot_values ::
  "rpc \<Rightarrow> inj_record \<Rightarrow> el list \<Rightarrow> (string \<times> string) option \<Rightarrow> (string \<times> string) option \<times> bool \<times> detail list"
where
  "slot_values r i [] ref = (ref, True, [])"
| "slot_values r i (e # es) ref =
     (case rp_storage r e (jr_contract i) (jr_slot i) of
        Inl err \<Rightarrow>
          (case slot_values r i es ref of (ref', agree, ps) \<Rightarrow>
             (ref', agree, Fmt ''%s: storage %s[%s]: %v'' [DS (el_name e), DS (jr_contract i), DS (jr_slot i), DS err] # ps))
      | Inr got \<Rightarrow>
          (case ref of
             None \<Rightarrow> slot_values r i es (Some (got, el_name e))
           | Some (fst_val, fst_node) \<Rightarrow>
               (case slot_values r i es ref of (ref', agree, ps) \<Rightarrow>
                  if got = fst_val then (ref', agree, ps)
                  else (ref', False,
                        Fmt ''storage %s[%s]: %s says %s, %s says %s''
                          [DS (jr_contract i), DS (jr_slot i), DS fst_node, DS fst_val, DS (el_name e), DS got] # ps))))"

definition has_receipt :: "rpc \<Rightarrow> el \<Rightarrow> string \<Rightarrow> bool" where
  "has_receipt r e tx \<longleftrightarrow> (case rp_receipt r e tx of Inr (Some _) \<Rightarrow> True | _ \<Rightarrow> False)"

definition overwritten_by_salvage :: "rpc \<Rightarrow> el \<Rightarrow> inj_record list \<Rightarrow> inj_record \<Rightarrow> bool" where
  "overwritten_by_salvage r e0 all maj \<longleftrightarrow>
     (\<exists>i \<in> set all. jr_side i = ''victim'' \<and> jr_contract i = jr_contract maj \<and> jr_slot i = jr_slot maj \<and>
        has_receipt r e0 (jr_tx i))"

definition island_problem :: "rpc \<Rightarrow> inj_record \<Rightarrow> el \<Rightarrow> detail option" where
  "island_problem r i e =
     (case get_block_by_hash r e (jr_island i) of
        Inr (Some b) \<Rightarrow>
          (case get_block r e (AtNumber (h_number b)) of
             Inr canon \<Rightarrow>
               if equal_fold (h_hash canon) (h_hash b) then
                 Some (Fmt ''%s still holds victim-island block %s as canonical at height %d''
                         [DS (el_name e), DS (jr_island i), dnat (h_number b)])
               else None
           | Inl _ \<Rightarrow> None)
      | _ \<Rightarrow> None)"

text \<open>One injection: its problems and, for a victim-side one judged, whether it was salvaged.\<close>

definition judge_injection :: "rpc \<Rightarrow> el list \<Rightarrow> el \<Rightarrow> inj_record list \<Rightarrow> inj_record \<Rightarrow> detail list \<times> bool option" where
  "judge_injection r els e0 all i =
     (case slot_values r i els None of (ref, agree, ps) \<Rightarrow>
        if \<not> agree then (ps, None)
        else
          let val = (case ref of Some (x, _) \<Rightarrow> x | None \<Rightarrow> '''');
              majority =
                (if jr_side i = ''majority'' \<and> \<not> equal_fold val (jr_value i) \<and> \<not> overwritten_by_salvage r e0 all i then
                   [Fmt ''storage %s[%s] = %s, want majority value %s''
                      [DS (jr_contract i), DS (jr_slot i), DS val, DS (jr_value i)]]
                 else []);
              fate = (if jr_side i = ''victim'' then Some (has_receipt r e0 (jr_tx i)) else None);
              island = (if jr_island i = '''' then [] else List.map_filter (island_problem r i) els)
          in (ps @ majority @ island, fate))"

text \<open>The code reads \<open>v.els[0]\<close>; \<open>main\<close> refuses to start without a node, and a verifier without one
  has no verdict here.\<close>

definition check_injected_state :: "verifier \<Rightarrow> rpc \<Rightarrow> outcome option" where
  "check_injected_state v r =
     (case read_injections (vf_chaos v) of
        Inl e \<Rightarrow> Some (Fail, e)
      | Inr [] \<Rightarrow> Some (Inconclusive, lit ''no injection records (profile ran without the straddle state injector)'')
      | Inr all \<Rightarrow>
          (case vf_els v of
             [] \<Rightarrow> None
           | e0 # _ \<Rightarrow>
               let js = map (judge_injection r (vf_els v) e0 all) all;
                   salvaged = length (filter (\<lambda>j. snd j = Some True) js);
                   evicted = length (filter (\<lambda>j. snd j = Some False) js)
               in Some (settle (concat (map fst js))
                    (Pass, joined
                       (Fmt ''%d injection(s) verified byte-identical across %d node(s)''
                          [DI (int (length all)), DI (int (length (vf_els v)))] #
                        (if 0 < salvaged + evicted then
                           [Fmt ''victim-side txs: %d salvaged, %d evicted (both legal)''
                              [DI (int salvaged), DI (int evicted)]] else []))))))"

section \<open>The offline lap\<close>

text \<open>The manifest of an offline lap, or the outcome of every check without one.\<close>

definition require_offline :: "verifier \<Rightarrow> outcome + lap_manifest \<times> offline" where
  "require_offline v =
     (case vf_manifest v of
        None \<Rightarrow> Inl (Inconclusive, lit ''no --manifest given (run driven outside the lap script)'')
      | Some (Inl e) \<Rightarrow> Inl (Inconclusive, Fmt ''manifest unreadable (see lap-manifest): %v'' [DS e])
      | Some (Inr m) \<Rightarrow>
          (case lm_offline m of
             Some cfg \<Rightarrow>
               if of_enabled cfg then Inr (m, cfg)
               else Inl (Inconclusive, lit ''no offline lap configured (offline missing or disabled)'')
           | None \<Rightarrow> Inl (Inconclusive, lit ''no offline lap configured (offline missing or disabled)'')))"

text \<open>The artifact directory: a file's content by directory and name, whether one exists, the
  \<open>pbtRoot\<close> of a \<open>meta.json\<close>, and the conversions of a hash.\<close>

record artifacts =
  ar_read :: "string \<Rightarrow> string \<Rightarrow> string + string"
  ar_exists :: "string \<Rightarrow> string \<Rightarrow> bool"
  ar_meta :: "string \<Rightarrow> string + string"
  ar_of_bytes :: "string \<Rightarrow> hash_text"
  ar_of_hex :: "string \<Rightarrow> hash_text"

definition read_erigon_meta_root :: "artifacts \<Rightarrow> string \<Rightarrow> string + string" where
  "read_erigon_meta_root a dir =
     (case ar_read a dir ''pbt-snapshot.meta.json'' of
        Inl e \<Rightarrow> Inl e
      | Inr raw \<Rightarrow>
          (case ar_meta a raw of
             Inl e \<Rightarrow> Inl e
           | Inr pbt_root \<Rightarrow> if pbt_root = '''' then Inl ''no pbtRoot field'' else Inr pbt_root))"

definition trailer_problems :: "artifacts \<Rightarrow> producer_record \<Rightarrow> detail list" where
  "trailer_problems a p =
     (case snapshot_root (ar_of_bytes a) (ar_read a (pr_dir p) ''pbt-snapshot.bin'') of
        Inl e \<Rightarrow> [Fmt ''snapshot trailer: %v'' []]
      | Inr h \<Rightarrow>
          if equal_fold (ht_hex h) (pr_pbt_root p) then []
          else [Fmt ''snapshot trailer %s != manifest pbt_root %s'' [DS (ht_hex h), DS (pr_pbt_root p)]])"

definition claim_problems :: "artifacts \<Rightarrow> producer_record \<Rightarrow> detail list" where
  "claim_problems a p =
     (if pr_kind p = ''geth-convert'' then
        (case ar_read a (pr_dir p) ''convert.log'' of
           Inl e \<Rightarrow> [Fmt ''convert.log: %v'' [DS e]]
         | Inr raw \<Rightarrow>
             (case convert_log raw of
                Inl e \<Rightarrow> [Fmt ''convert.log: %v'' []]
              | Inr (_, logged_root) \<Rightarrow>
                  if logged_matches logged_root (ar_of_hex a (pr_pbt_root p)) then []
                  else [Fmt ''convert.log binaryRoot %s != manifest pbt_root %s'' [DS logged_root, DS (pr_pbt_root p)]]))
      else if pr_kind p = ''erigon-export'' then
        (case read_erigon_meta_root a (pr_dir p) of
           Inl e \<Rightarrow> [Fmt ''meta.json: %v'' [DS e]]
         | Inr meta_root \<Rightarrow>
             if equal_fold meta_root (pr_pbt_root p) then []
             else [Fmt ''meta.json pbtRoot %s != manifest pbt_root %s'' [DS meta_root, DS (pr_pbt_root p)]])
      else [Fmt ''unknown producer kind %q'' [DS (pr_kind p)]])"

definition shadow_problems :: "producer_record \<Rightarrow> detail list" where
  "shadow_problems p =
     (let answered = filter (\<lambda>x. snd x \<noteq> '''') (pr_shadow_roots p);
          clients = remdups (map (\<lambda>x. if client_of (fst x) = '''' then fst x else client_of (fst x))
            (filter (\<lambda>x. equal_fold (snd x) (pr_pbt_root p)) answered))
      in List.map_filter (\<lambda>(node, got).
           if equal_fold got (pr_pbt_root p) then None
           else Some (Fmt ''shadow root from %s is %s, != pbt_root %s'' [DS node, DS got, DS (pr_pbt_root p)])) answered @
         (if length clients < 2 then
            [Fmt ''only %d distinct client(s) reported a matching shadow root (%d non-empty total), need >= 2''
               [DI (int (length clients)), DI (int (length answered))]] else []))"

definition genesis_root_problems :: "string + (string \<rightharpoonup> string) \<Rightarrow> producer_record \<Rightarrow> detail list" where
  "genesis_root_problems pins p =
     (case pins of
        Inl e \<Rightarrow> [Fmt ''pins: %v'' [DS e]]
      | Inr m \<Rightarrow>
          if equal_fold (pr_anchor_state_root p) (case m ''genesis_state_root'' of Some x \<Rightarrow> x | None \<Rightarrow> '''') then
            [lit ''anchor_state_root equals genesis_state_root: proves nothing migrated past genesis'']
          else [])"

definition anchor_problems :: "verifier \<Rightarrow> rpc \<Rightarrow> producer_record \<Rightarrow> detail list" where
  "anchor_problems v r p =
     (case el_by_index v (pr_node p) of
        None \<Rightarrow> [Fmt ''no --el for producer node %d: cannot confirm the anchor is canonical'' [DI (pr_node p)]]
      | Some e \<Rightarrow>
          (case get_block r e (AtNumber (pr_anchor p)) of
             Inl err \<Rightarrow> [Fmt ''%s: %v'' [DS (el_name e), DD err]]
           | Inr b \<Rightarrow>
               (if equal_fold (h_hash b) (pr_anchor_hash p) then []
                else [Fmt ''%s canonical block %d hash %s != manifest anchor_hash %s''
                        [DS (el_name e), dnat (pr_anchor p), DS (h_hash b), DS (pr_anchor_hash p)]]) @
               (if vf_T v \<le> h_time b then
                  [Fmt ''%s anchor %d header time %d >= binary-trie-time %d: not a pre-fork anchor''
                     [DS (el_name e), dnat (pr_anchor p), dnat (h_time b), dnat (vf_T v)]] else [])))"

definition producer_problems :: "verifier \<Rightarrow> rpc \<Rightarrow> artifacts \<Rightarrow> producer_record \<Rightarrow> detail list" where
  "producer_problems v r a p =
     (if pr_status p \<noteq> ''ok'' then
        [Fmt ''producer node %d: status %s, want ok: %s'' [DI (pr_node p), DS (pr_status p), DD (pr_detail p)]]
      else
        let pp = trailer_problems a p @ claim_problems a p @ shadow_problems p @
                 genesis_root_problems (vf_pins v) p @ anchor_problems v r p
        in if pp = [] then [] else [Fmt ''producer node %d: %s'' [DI (pr_node p), DD (joined pp)]])"

definition check_artifact_produced :: "verifier \<Rightarrow> rpc \<Rightarrow> artifacts \<Rightarrow> outcome" where
  "check_artifact_produced v r a =
     (case require_offline v of
        Inl res \<Rightarrow> res
      | Inr (m, cfg) \<Rightarrow>
          if lm_producers m = [] then (Inconclusive, lit ''offline lap enabled but no producer evidence recorded'')
          else
            settle (concat (map (producer_problems v r a) (lm_producers m)))
              (Pass, joined (map (\<lambda>p. Fmt ''producer node %d (%s) anchor %d root %s: trailer/log/shadow/RPC agree''
                 [DI (pr_node p), DS (pr_kind p), dnat (pr_anchor p), DS (pr_pbt_root p)]) (lm_producers m))))"

section \<open>The consumers' imports\<close>

definition geth_import_re :: re where
  "geth_import_re =
     Sq (Lit ''Import complete'') (Sq any_text (Sq WordB (Sq (Lit ''anchor='') (Grp ''1'' digits1))))"

definition nethermind_migration_re :: re where
  "nethermind_migration_re =
     Sq (Lit ''PBT state at StateId { BlockNumber = '') (Sq (Grp ''1'' digits1) (Lit '',''))"

definition ansi_re :: re where
  "ansi_re = Sq (Cls (\<lambda>c. c = CHR 0x1B)) (Sq (Lit ''['')
     (Sq (Star (Cls (\<lambda>c. is_digit c \<or> c = CHR '';''))) (Lit ''m'')))"

text \<open>Every match removed; an escape sequence is not empty, so each round consumes something.\<close>

fun strip_matches :: "nat \<Rightarrow> re \<Rightarrow> string \<Rightarrow> string \<Rightarrow> string" where
  "strip_matches 0 r pre s = s"
| "strip_matches (Suc n) r pre s =
     (case rmatch r (pre, s, []) of
        (pre', t, _) # _ \<Rightarrow> strip_matches n r pre' t
      | [] \<Rightarrow> (case s of [] \<Rightarrow> [] | c # s' \<Rightarrow> c # strip_matches n r (c # pre) s'))"

definition strip_ansi :: "string \<Rightarrow> string" where
  "strip_ansi s = strip_matches (Suc (length s)) ansi_re [] s"

fun from_marker :: "string \<Rightarrow> string \<Rightarrow> string option" where
  "from_marker k [] = (if k = [] then Some [] else None)"
| "from_marker k (c # s) = (if take (length k) (c # s) = k then Some (c # s) else from_marker k s)"

definition swap_boot :: "string \<Rightarrow> string option" where
  "swap_boot raw = from_marker ''pbt-swap: starting'' (strip_ansi raw)"

definition nethermindRefusals :: "string list" where
  "nethermindRefusals =
     [''Migration anchor is not present in the trusted canonical chain'',
      ''Migration requires a trusted pre-activation anchor'',
      ''The native PBT database was imported from another migration source'',
      ''native PBT database holds no state'']"

text \<open>\<open>strconv.ParseUint\<close>'s value on digits: the largest 64-bit number when they exceed it.\<close>

definition uint_value :: "string \<Rightarrow> u64" where
  "uint_value s = (case parse_uint_dec s of Some n \<Rightarrow> n | None \<Rightarrow> - 1)"

definition geth_import_problems :: "artifacts \<Rightarrow> swap_record \<Rightarrow> detail list" where
  "geth_import_problems a s =
     (case ar_read a (sw_evidence_dir s) ''import.log'' of
        Inl e \<Rightarrow> [Fmt ''import.log: %v'' [DS e]]
      | Inr raw \<Rightarrow>
          (case find_submatch geth_import_re raw of
             None \<Rightarrow> [lit ''import.log has no Import complete ... anchor= line'']
           | Some (_, gs) \<Rightarrow>
               if uint_value (grp_text gs ''1'') \<noteq> sw_anchor s then
                 [Fmt ''import.log anchor=%s != manifest anchor %d'' [DS (grp_text gs ''1''), dnat (sw_anchor s)]]
               else []) @
          (if ar_exists a (sw_evidence_dir s) ''failed'' then [lit ''a failed marker is present'']
           else if \<not> ar_exists a (sw_evidence_dir s) ''done'' then [lit ''no done marker'']
           else []))"

definition nethermind_import_problems :: "artifacts \<Rightarrow> swap_record \<Rightarrow> detail list" where
  "nethermind_import_problems a s =
     (case ar_read a (sw_evidence_dir s) ''docker.log'' of
        Inl e \<Rightarrow> [Fmt ''docker.log: %v'' [DS e]]
      | Inr raw \<Rightarrow>
          (case swap_boot raw of
             None \<Rightarrow> [lit ''no pbt-swap: starting line: no swap boot to judge'']
           | Some boot \<Rightarrow>
               map (\<lambda>n. Fmt ''refusal logged: %q'' [DS n]) (filter (str_contains boot) nethermindRefusals) @
               (case find_submatch nethermind_migration_re boot of
                  None \<Rightarrow> [lit ''no EIP-8347 migration: flat state at ..., PBT state at ... success line'']
                | Some (_, gs) \<Rightarrow>
                    if uint_value (grp_text gs ''1'') \<noteq> sw_anchor s then
                      [Fmt ''PBT StateId block %s != manifest anchor %d'' [DS (grp_text gs ''1''), dnat (sw_anchor s)]]
                    else [])))"

definition import_problems :: "verifier \<Rightarrow> artifacts \<Rightarrow> swap_record \<Rightarrow> detail list" where
  "import_problems v a s =
     (let client = victim_client v (''node-'' @ show_int (sw_node s))
      in if sw_status s = ''skipped'' then
           [Fmt ''consumer node %d (%s): swap skipped: %s'' [DI (sw_node s), DS client, DD (sw_detail s)]]
         else
           let pp = (if client = ''geth'' then geth_import_problems a s
                     else if client = ''nethermind'' then nethermind_import_problems a s
                     else [Fmt ''unrecognized consumer client %q for node %d'' [DS client, DI (sw_node s)]]) @
                    (if sw_finalized_at_stop s < sw_anchor s then
                       [Fmt ''anchor %d > finalized_at_stop %d'' [dnat (sw_anchor s), dnat (sw_finalized_at_stop s)]]
                     else [])
           in if pp = [] then []
              else [Fmt ''consumer node %d (%s): %s'' [DI (sw_node s), DS client, DD (joined pp)]])"

definition check_import_accepted :: "verifier \<Rightarrow> artifacts \<Rightarrow> outcome" where
  "check_import_accepted v a =
     (case require_offline v of
        Inl res \<Rightarrow> res
      | Inr (m, cfg) \<Rightarrow>
          if lm_swaps m = [] then (Inconclusive, lit ''offline lap enabled but no swaps recorded'')
          else
            settle (concat (map (import_problems v a) (lm_swaps m)))
              (Pass, joined (map (\<lambda>s. Fmt ''consumer node %d (%s) accepted anchor %d''
                 [DI (sw_node s), DS (victim_client v (''node-'' @ show_int (sw_node s))), dnat (sw_anchor s)])
                 (lm_swaps m))))"

section \<open>The swaps\<close>

record swap_window =
  sn_node :: int
  sn_start :: gotime
  sn_end :: gotime

definition swap_end :: "swap_record \<Rightarrow> int" where
  "swap_end s = (if sw_caught_up_at s < sw_start_at s then sw_start_at s else sw_caught_up_at s)"

definition timed_swap :: "swap_record \<Rightarrow> bool" where
  "timed_swap s \<longleftrightarrow> sw_status s \<noteq> ''skipped'' \<and> sw_stop_at s \<noteq> 0 \<and> swap_end s \<noteq> 0"

definition swap_window_of :: "swap_record \<Rightarrow> swap_window" where
  "swap_window_of s =
     \<lparr>sn_node = sw_node s, sn_start = tunix (sw_stop_at s), sn_end = tunix (swap_end s)\<rparr>"

definition swap_problems :: "schedule_error + dump \<Rightarrow> offline \<Rightarrow> swap_record \<Rightarrow> detail list" where
  "swap_problems sched cfg s =
     (if sw_node s = 1 then [lit ''swap targets node 1, the protected anchor''] else []) @
     (if sw_status s = ''skipped'' then []
      else if sw_stop_at s = 0 then [Fmt ''node %d: stop_at never recorded'' [DI (sw_node s)]]
      else if swap_end s = 0 then [Fmt ''node %d: neither caught_up_at nor start_at recorded'' [DI (sw_node s)]]
      else
        (case sched of
           Inl _ \<Rightarrow> []
         | Inr d \<Rightarrow>
             map (\<lambda>x. Fmt ''node %d swap window [%s,%s] overlaps admitted op %s [%s,%s] (+-60s)''
                        [DI (sw_node s), DI (tunix (sw_stop_at s)), DI (tunix (swap_end s)), DS (do_name x),
                         DI (tunix (do_start x) + - (60 * second)), DI (tunix (do_end x) + 60 * second)])
               (ops_around d (tunix (sw_stop_at s)) (tunix (swap_end s)))) @
        (if sw_caught_up_at s = 0 then []
         else
           List.map_filter (\<lambda>c.
             if oc_node c = sw_node s \<and> 0 < oc_timeout c \<and>
                oc_timeout c < wrap64 (sw_caught_up_at s - sw_stop_at s) then
               Some (Fmt ''node %d: caught up %ds after stop, over its %ds timeout''
                       [DI (sw_node s), DI (wrap64 (sw_caught_up_at s - sw_stop_at s)), DI (oc_timeout c)])
             else None) (of_consumers cfg)))"

definition windows_overlap :: "swap_window \<Rightarrow> swap_window \<Rightarrow> bool" where
  "windows_overlap a b \<longleftrightarrow> sn_start a < sn_end b \<and> sn_start b < sn_end a"

fun overlap_problems :: "swap_window list \<Rightarrow> detail list" where
  "overlap_problems [] = []"
| "overlap_problems (a # ws) =
     map (\<lambda>b. Fmt ''swap windows for node %d and node %d overlap'' [DI (sn_node a), DI (sn_node b)])
       (filter (windows_overlap a) ws) @ overlap_problems ws"

definition check_swaps_serialized :: "verifier \<Rightarrow> outcome" where
  "check_swaps_serialized v =
     (case require_offline v of
        Inl res \<Rightarrow> res
      | Inr (m, cfg) \<Rightarrow>
          if lm_swaps m = [] then (Inconclusive, lit ''offline lap enabled but no swaps recorded'')
          else
            let sched = schedule_dump (vf_chaos v);
                ws = map swap_window_of (filter timed_swap (lm_swaps m));
                skipped = length (filter (\<lambda>s. sw_status s = ''skipped'') (lm_swaps m));
                problems = concat (map (swap_problems sched cfg) (lm_swaps m)) @
                  (case sched of Inl e \<Rightarrow> if vf_skip_chaos v then [] else [Fmt ''schedule: %v'' [DD (schedule_error_detail e)]] | Inr _ \<Rightarrow> []) @
                  overlap_problems ws
            in settle problems
                 (if ws = [] then
                    (Inconclusive, Fmt ''all %d swap(s) skipped: nothing ran to serialize'' [DI (int skipped)])
                  else
                    (Pass, joined (Fmt ''%d swap(s) serialized, chaos-free, within budget'' [DI (int (length ws))] #
                       (if 0 < skipped then
                          [Fmt ''%d skipped (never stopped, judged by offline-coverage)'' [DI (int skipped)]] else [])))))"

text \<open>The monitor's own word that a node's cursor came within the lag of the tip, node 1's head.\<close>

fun lifecycle_caught_up :: "int \<Rightarrow> gotime \<Rightarrow> levent list \<Rightarrow> u64 option \<Rightarrow> bool" where
  "lifecycle_caught_up node after [] tip = False"
| "lifecycle_caught_up node after (ev # evs) tip =
     (case node_index (le_node ev) of
        None \<Rightarrow> lifecycle_caught_up node after evs tip
      | Some i \<Rightarrow>
          if is_kind EvHead ev \<and> i = 1 then lifecycle_caught_up node after evs (Some (le_number ev))
          else
            (case (is_kind EvProgress ev \<and> i = node \<and> \<not> le_time ev < after, le_raw ev, tip) of
               (True, Some raw, Some t) \<Rightarrow>
                 (case decode_progress (rd_progress raw) of
                    Inr p \<Rightarrow>
                      (case mp_binary p of
                         Some d \<Rightarrow> t \<le> dp_cursor d + CaughtUpLag \<or> lifecycle_caught_up node after evs tip
                       | None \<Rightarrow> lifecycle_caught_up node after evs tip)
                  | Inl _ \<Rightarrow> lifecycle_caught_up node after evs tip)
             | _ \<Rightarrow> lifecycle_caught_up node after evs tip))"

definition replay_problems :: "verifier \<Rightarrow> gotime \<Rightarrow> swap_record \<Rightarrow> detail list" where
  "replay_problems v deadline s =
     (if sw_caught_up_at s = 0 then [Fmt ''node %d: never caught up'' [DI (sw_node s)]]
      else
        (if deadline < tunix (sw_caught_up_at s) then
           [Fmt ''node %d caught up at %s, after T-margin deadline %s''
              [DI (sw_node s), DI (tunix (sw_caught_up_at s)), DI deadline]] else []) @
        (if lifecycle_caught_up (sw_node s) (tunix (sw_start_at s)) (vf_monitor v) None then []
         else [Fmt ''node %d: no independent caught_up corroboration in the monitor stream'' [DI (sw_node s)]]))"

definition check_replay_caught_up :: "verifier \<Rightarrow> outcome" where
  "check_replay_caught_up v =
     (case require_offline v of
        Inl res \<Rightarrow> res
      | Inr (m, cfg) \<Rightarrow>
          if lm_swaps m = [] then (Inconclusive, lit ''offline lap enabled but no swaps recorded'')
          else
            let deadline = tunix (sint (vf_T v)) + - wrap64 (of_margin cfg * second)
            in settle (concat (map (replay_problems v deadline) (lm_swaps m)))
                 (Pass, joined (map (\<lambda>s. Fmt ''node %d caught up at %s, corroborated''
                    [DI (sw_node s), DI (tunix (sw_caught_up_at s))]) (lm_swaps m))))"

definition producer_coverage :: "producer_record list \<Rightarrow> offline_producer \<Rightarrow> detail + detail" where
  "producer_coverage prs p =
     (case List.find (\<lambda>x. pr_node x = op_node p) prs of
        Some x \<Rightarrow>
          if pr_status x = ''ok'' then Inr (Fmt ''producer node %d (%s) ok'' [DI (op_node p), DS (op_kind p)])
          else Inl (Fmt ''producer node %d (%s): status %s, want ok'' [DI (op_node p), DS (op_kind p), DS (pr_status x)])
      | None \<Rightarrow> Inl (Fmt ''producer node %d (%s): status %s, want ok'' [DI (op_node p), DS (op_kind p), DS ''missing'']))"

definition consumer_coverage :: "swap_record list \<Rightarrow> offline_consumer \<Rightarrow> detail + detail" where
  "consumer_coverage sws c =
     (case List.find (\<lambda>x. sw_node x = oc_node c) sws of
        Some x \<Rightarrow>
          if sw_status x = ''ok'' then Inr (Fmt ''consumer node %d swap ok'' [DI (oc_node c)])
          else Inl (Fmt ''consumer node %d: swap status %s, want ok'' [DI (oc_node c), DS (sw_status x)])
      | None \<Rightarrow> Inl (Fmt ''consumer node %d: swap status %s, want ok'' [DI (oc_node c), DS ''missing'']))"

definition lefts :: "('a + 'b) list \<Rightarrow> 'a list" where
  "lefts xs = List.map_filter (\<lambda>x. case x of Inl a \<Rightarrow> Some a | Inr _ \<Rightarrow> None) xs"

definition rights :: "('a + 'b) list \<Rightarrow> 'b list" where
  "rights xs = List.map_filter (\<lambda>x. case x of Inl _ \<Rightarrow> None | Inr b \<Rightarrow> Some b) xs"

definition check_offline_coverage :: "verifier \<Rightarrow> outcome" where
  "check_offline_coverage v =
     (case require_offline v of
        Inl res \<Rightarrow> res
      | Inr (m, cfg) \<Rightarrow>
          let rs = map (producer_coverage (lm_producers m)) (of_producers cfg) @
                   map (consumer_coverage (lm_swaps m)) (of_consumers cfg)
          in settle (lefts rs)
               (Pass, joined (rights rs @
                  map (\<lambda>(n, reason). Fmt ''node %d skipped: %s'' [DI n, DS reason]) (of_online_only cfg))))"

end
