(* ===== verification/VerifyVerdicts.thy ===== *)
theory VerifyVerdicts
  imports VerifyEvidence Timeline Sampler
begin

text \<open>
  What the verdicts of the evidence checks mean. The monitor's own texts are read back by the
  verifier's patterns; a partition's evidence is the deepest placed reorg; the checks of the
  partitions, the straddle and the completion pass in exactly the runs the theorems name, and
  a mismatch the monitor samples before the fork is never waived.
\<close>

section \<open>What the monitor writes is what the verifier finds\<close>

lemma not_digit: "\<not> is_digit (CHR '')'')" "\<not> is_digit (CHR ''x'')" "\<not> hex_char (CHR ''('')"
  by (simp_all add: is_digit_def digit_of_def hex_char_def hex_digit_of_def)

lemma detail_depth_text:
  assumes "CHR ''('' \<notin> set x" "n < 2 ^ 63"
  shows "detail_depth (x @ ''(depth '' @ show_nat n @ '')'') = int n"
proof -
  have run: "\<exists>ms. rmatch digits1 (pre, show_nat n @ '')'', caps) = (rev (show_nat n) @ pre, '')'', caps) # ms" for pre caps
    by (rule rmatch_digits1 [OF show_nat_run]) (simp add: not_digit)
  have "\<exists>pre' ms. rmatch reorg_depth_re (pre, ''(depth '' @ show_nat n @ '')'', []) =
      (pre', '''', [(''1'', show_nat n)]) # ms" for pre
    using run [of "rev ''(depth '' @ pre" "[]"]
    by (auto simp: reorg_depth_re_def rmatch_Lit simp del: Lit.simps)
  then have "\<exists>m. rsearch reorg_depth_re (rev x) (''(depth '' @ show_nat n @ '')'') = Some (m, [(''1'', show_nat n)])"
    using rsearch_hit by blast
  then obtain m where m: "rsearch reorg_depth_re (rev x) (''(depth '' @ show_nat n @ '')'') = Some (m, [(''1'', show_nat n)])" ..
  have "rsearch reorg_depth_re [] (x @ ''(depth '' @ show_nat n @ '')'') =
      rsearch reorg_depth_re (rev x) (''(depth '' @ show_nat n @ '')'')"
    using rsearch_skips [OF assms(1), of "''depth ''" "Sq (Grp ''1'' digits1) (Lit '')'')" "[]"]
    by (simp add: reorg_depth_re_def del: Lit.simps)
  with m have "find_submatch reorg_depth_re (x @ ''(depth '' @ show_nat n @ '')'') = Some (m, [(''1'', show_nat n)])"
    by (simp only: find_submatch_def)
  then show ?thesis using assms(2) by (simp add: detail_depth_def atoi_value_def read_digits_show_nat)
qed

lemma render_depth:
  "render (Fmt ''%s -> %s (depth %d)'' [DS a, DS b, DI d]) = a @ '' -> '' @ b @ '' (depth '' @ show_int d @ '')''"
  by simp

text \<open>A hash as \<open>Hash.Hex()\<close> prints it.\<close>

definition is_hash_text :: "string \<Rightarrow> bool" where
  "is_hash_text h \<longleftrightarrow> (\<exists>ds. h = ''0x'' @ ds \<and> length ds = 64 \<and> (\<forall>c \<in> set ds. hex_char c))"

lemma rmatch_times:
  "length ds = n \<Longrightarrow> \<forall>c \<in> set ds. p c \<Longrightarrow>
    rmatch (times n (Cls p)) (pre, ds @ z, caps) = [(rev ds @ pre, z, caps)]"
proof (induction ds arbitrary: n pre)
  case (Cons c ds)
  then show ?case by (cases n) auto
qed simp

lemma hash_no_space: "is_hash_text h \<Longrightarrow> c \<in> set h \<Longrightarrow> hex_char c \<or> c = CHR ''x''"
  by (auto simp: is_hash_text_def hex_char_def hex_digit_of_def)

text \<open>A text without the letter \<open>x\<close> before a hash holds no earlier one.\<close>

lemma rsearch_no_x:
  "CHR ''x'' \<notin> set x \<Longrightarrow> hd s \<noteq> CHR ''x'' \<Longrightarrow>
    rsearch (Sq (Lit ''0x'') r) pre (x @ s) = rsearch (Sq (Lit ''0x'') r) (rev x @ pre) s"
proof (induction x arbitrary: pre)
  case (Cons a x)
  have "rmatch (Sq (Lit ''0x'') r) (pre, a # (x @ s), []) = []"
    using Cons.prems by (cases x; cases s) (auto simp: rmatch_Lit simp del: Lit.simps)
  with Cons show ?case by (simp add: rsearch_skip del: Lit.simps rmatch.simps)
qed simp

lemma find_hash_text:
  assumes "CHR ''x'' \<notin> set x" "is_hash_text h"
  shows "find_hash (x @ h @ z) = h"
proof -
  obtain ds where ds: "h = ''0x'' @ ds" "length ds = 64" "\<forall>c \<in> set ds. hex_char c"
    using assms(2) by (auto simp: is_hash_text_def)
  have "rmatch orphan_hash_re (rev x, h @ z, []) = [(rev h @ rev x, z, [])]"
    using rmatch_times [OF ds(2,3), of "''x0'' @ rev x" z "[]"] ds(1)
    by (simp add: orphan_hash_re_def rmatch_Lit del: Lit.simps times.simps)
  from rsearch_hit [OF this] have "rsearch orphan_hash_re (rev x) (h @ z) = Some (h, [])" by simp
  moreover have "rsearch orphan_hash_re [] (x @ h @ z) = rsearch orphan_hash_re (rev x) (h @ z)"
    using rsearch_no_x [OF assms(1), of "h @ z" _ "[]"] ds(1) unfolding orphan_hash_re_def by simp
  ultimately show ?thesis by (simp add: find_hash_def find_submatch_def)
qed

lemma show_nat_no_x: "CHR ''x'' \<notin> set (show_nat n)"
proof
  assume "CHR ''x'' \<in> set (show_nat n)"
  then show False using show_nat_is_digit not_digit(2) by blast
qed

text \<open>C20: The verifier reads out of the monitor's events what the monitor put into them: the depth
  of a reorg event is the distance of the re-checked height from the head, and the hash found
  in an istar-reorged event is that of the orphaned fork block, not of its replacement.\<close>

theorem monitor_evidence_roundtrip:
  assumes "rm_hash m height = Some prev" "prev \<noteq> hash" "is_hash_text prev" "is_hash_text hash"
    "height < head" "unat (head - height) < 2 ^ 63"
    and "tl_istar tm = Some old" "\<not> tl_istar_final tm" "is_hash_text (is_hash old)"
  shows "map (\<lambda>e. detail_depth (le_detail (logged t raw e))) (snd (reorg_observe m height hash head)) =
      [int (unat (head - height))] \<and>
    map (\<lambda>e. find_hash (le_detail (logged t raw e))) (snd (istar_reorged tm now)) = [is_hash old]"
proof
  have par: "CHR ''('' \<notin> set h" if "is_hash_text h" for h
    using hash_no_space [OF that, of "CHR ''(''"] not_digit(3) by auto
  have s: "sint (head - height) = int (unat (head - height))"
    using assms(6) by (rule sint_small)
  have "detail_depth (render (Fmt ''%s -> %s (depth %d)'' [DS prev, DS hash, DI (sint (head - height))])) =
      int (unat (head - height))"
    unfolding render_depth s
    using detail_depth_text [of "prev @ '' -> '' @ hash @ '' ''" "unat (head - height)"] par assms(3,4,6)
    by (simp add: show_int_def)
  then show "map (\<lambda>e. detail_depth (le_detail (logged t raw e))) (snd (reorg_observe m height hash head)) =
      [int (unat (head - height))]"
    using assms(1,2,5) by (simp add: reorg_observe_def logged_def Let_def del: render.simps)
  have "find_hash (render (Fmt ''fork block %d %s was orphaned; height %d now holds %s''
      [du (is_number old), DS (is_hash old), du (is_number old), DS now])) = is_hash old"
    using find_hash_text [OF _ assms(9), of "''fork block '' @ show_nat (unat (is_number old)) @ '' ''"
        "'' was orphaned; height '' @ show_nat (unat (is_number old)) @ '' now holds '' @ now"]
    by (simp add: show_nat_no_x du_def show_int_def)
  then show "map (\<lambda>e. find_hash (le_detail (logged t raw e))) (snd (istar_reorged tm now)) = [is_hash old]"
    using assms(7,8) by (simp add: istar_reorged_def logged_def del: render.simps)
qed

definition hash_of_char :: "char \<Rightarrow> string" where
  "hash_of_char c = ''0x'' @ replicate 64 c"

lemma hash_of_char_text: "hex_char c \<Longrightarrow> is_hash_text (hash_of_char c)"
  by (simp add: is_hash_text_def hash_of_char_def)

theorem monitor_evidence_roundtrip_witness:
  "let m = \<lparr>rm_node = ''el-2'', rm_hash = [7 \<mapsto> hash_of_char (CHR ''a'')], rm_order = [7]\<rparr>;
       tm = (new_timeline ''el-2'' 0)\<lparr>tl_istar := Some \<lparr>is_number = 7, is_hash = hash_of_char (CHR ''a''), is_time = 0, is_parent_time = 0\<rparr>\<rparr>
   in map (\<lambda>e. detail_depth (le_detail (logged 0 None e))) (snd (reorg_observe m 7 (hash_of_char (CHR ''b'')) 19)) = [12] \<and>
      map (\<lambda>e. find_hash (le_detail (logged 0 None e))) (snd (istar_reorged tm (hash_of_char (CHR ''b'')))) =
        [hash_of_char (CHR ''a'')]"
proof -
  let ?m = "\<lparr>rm_node = ''el-2'', rm_hash = [7 \<mapsto> hash_of_char (CHR ''a'')], rm_order = [7]\<rparr>"
  let ?tm = "(new_timeline ''el-2'' 0)\<lparr>tl_istar := Some \<lparr>is_number = 7, is_hash = hash_of_char (CHR ''a''), is_time = 0, is_parent_time = 0\<rparr>\<rparr>"
  have "hex_char (CHR ''a'')" "hex_char (CHR ''b'')" by (simp_all add: hex_char_def hex_digit_of_def)
  then have h: "is_hash_text (hash_of_char (CHR ''a''))" "is_hash_text (hash_of_char (CHR ''b''))"
    by (simp_all add: hash_of_char_text)
  have ne: "hash_of_char (CHR ''a'') \<noteq> hash_of_char (CHR ''b'')" by (simp add: hash_of_char_def)
  have a: "rm_hash ?m 7 = Some (hash_of_char (CHR ''a''))" "(7::u64) < 19" "unat (19 - 7 :: u64) < 2 ^ 63"
    "tl_istar ?tm = Some \<lparr>is_number = 7, is_hash = hash_of_char (CHR ''a''), is_time = 0, is_parent_time = 0\<rparr>"
    "\<not> tl_istar_final ?tm"
    by (simp_all add: new_timeline_def)
  show ?thesis
    using monitor_evidence_roundtrip [OF a(1) ne h a(2-5), of 0 None] h
    by (simp add: Let_def)
qed

section \<open>Partitions healed\<close>

definition owner :: "dump \<Rightarrow> chaos_window \<Rightarrow> dump_op option" where
  "owner d w = List.find (\<lambda>x. op_owns x w) (dump_admitted d)"

lemma attribute_windows_owner:
  "attribute_windows d ws =
     (List.map_filter (\<lambda>w. map_option (\<lambda>x. (x, w)) (owner d w)) ws, filter (\<lambda>w. owner d w = None) ws)"
  by (induction ws) (auto simp: owner_def List.map_filter_def split: option.splits)

text \<open>A window that speaks for the run: its op admitted, it healed by the op's deadline.\<close>

definition healed_in_time :: "dump \<Rightarrow> chaos_window \<Rightarrow> bool" where
  "healed_in_time d w \<longleftrightarrow> (\<exists>x. owner d w = Some x \<and> cw_healed w \<and> cw_to w \<le> heal_deadline d x)"

definition corroborated :: "verifier \<Rightarrow> dump \<Rightarrow> chaos_window \<Rightarrow> bool" where
  "corroborated v d w \<longleftrightarrow> healed_in_time d w \<and> re_matched (match_reorg v w)"

lemma judge_window_cases:
  assumes "owner d w = Some x"
  shows "(\<exists>p. judge_window v d (x, w) = Problem p) \<longleftrightarrow> \<not> healed_in_time d w"
    "judge_window v d (x, w) = Healed None \<longleftrightarrow> corroborated v d w"
  using assms by (auto simp: judge_window_def healed_in_time_def corroborated_def Let_def)

lemma judged_problems_Nil: "judged_problems js = [] \<longleftrightarrow> (\<forall>j \<in> set js. \<exists>n. j = Healed n)"
  by (auto simp: judged_problems_def map_filter_Nil split: judged.splits) (metis judged.exhaust)

lemma healed_chain:
  fixes H C m :: nat
  assumes "res = (if S then Fail else if P then Fail else if H < m then Fail
      else if H < 4 then Inconclusive else if C < 4 then Inconclusive else Pass)"
    and "\<not> P \<Longrightarrow> \<not> H < m \<and> (H < 4 \<longrightarrow> C < 4)"
  shows "res = Pass \<longleftrightarrow> \<not> S \<and> \<not> P \<and> 4 \<le> C"
  using assms by auto

text \<open>C3: The partitions check passes exactly when chaos was skipped, or the schedule can be read,
  every isolation window either belongs to an admitted op and healed by that op's deadline or
  began after the schedule's quiet instant, and at least four of the windows are corroborated
  by reorg evidence. Windows are what is asked of and counted: an op with two victims counts
  twice, and an admitted op that left no window is not asked for, where the comment above the
  check speaks of every admitted op and of four ops.\<close>

theorem partitions_healed_exact:
  "fst (check_partitions_healed v) = Pass \<longleftrightarrow>
    vf_skip_chaos v \<or>
    (\<exists>d. schedule_dump (vf_chaos v) = Inr d \<and>
       (\<forall>w \<in> set (windows_of v). healed_in_time d w \<or> owner d w = None \<and> after_quiet d w) \<and>
       4 \<le> length (filter (corroborated v d) (windows_of v)))"
proof (cases "vf_skip_chaos v")
  case False
  show ?thesis
  proof (cases "schedule_dump (vf_chaos v)")
    case (Inr d)
    let ?ws = "windows_of v"
    let ?m = "List.map_filter (\<lambda>w. map_option (\<lambda>x. (x, w)) (owner d w)) ?ws"
    let ?u = "filter (\<lambda>w. owner d w = None) ?ws"
    let ?js = "map (judge_window v d) ?m"
    have mem: "(x, w) \<in> set ?m \<longleftrightarrow> w \<in> set ?ws \<and> owner d w = Some x" for x w
      by (auto simp: map_filter_mem)
    have stray: "filter (\<lambda>w. \<not> after_quiet d w) ?u = [] \<longleftrightarrow> (\<forall>w \<in> set ?ws. owner d w = None \<longrightarrow> after_quiet d w)"
      by (auto simp: filter_empty_conv)
    have "judged_problems ?js = [] \<longleftrightarrow> (\<forall>(x, w) \<in> set ?m. healed_in_time d w)"
    proof -
      have "(\<exists>n. judge_window v d (x, w) = Healed n) \<longleftrightarrow> healed_in_time d w" if "(x, w) \<in> set ?m" for x w
        using judge_window_cases(1) [of d w x v] that mem [of x w] by (cases "judge_window v d (x, w)") auto
      then have "(\<exists>n. judge_window v d xw = Healed n) \<longleftrightarrow> (case xw of (x, w) \<Rightarrow> healed_in_time d w)"
        if "xw \<in> set ?m" for xw using that by (cases xw) simp
      then show ?thesis unfolding judged_problems_Nil set_map ball_simps by (rule ball_cong [OF refl])
    qed
    also have "\<dots> \<longleftrightarrow> (\<forall>x w. (x, w) \<in> set ?m \<longrightarrow> healed_in_time d w)" by blast
    also have "\<dots> \<longleftrightarrow> (\<forall>w \<in> set ?ws. owner d w \<noteq> None \<longrightarrow> healed_in_time d w)" unfolding mem by auto
    finally have problems: "judged_problems ?js = [] \<longleftrightarrow>
        (\<forall>w \<in> set ?ws. owner d w \<noteq> None \<longrightarrow> healed_in_time d w)" .
    have corr: "count_corroborated ?js = length (filter (corroborated v d) ?ws)"
    proof -
      have "length (filter (\<lambda>j. j = Healed None)
          (map (judge_window v d) (List.map_filter (\<lambda>w. map_option (\<lambda>x. (x, w)) (owner d w)) ws))) =
        length (filter (corroborated v d) ws)" for ws
      proof (induction ws)
        case (Cons w ws)
        then show ?case
          using judge_window_cases(2) [of d w _ v]
          by (auto simp: List.map_filter_def corroborated_def healed_in_time_def)
      qed (simp add: List.map_filter_def)
      then show ?thesis by (simp add: count_corroborated_def)
    qed
    have "length ?js = length ?m" by simp
    moreover have "count_healed ?js = length ?js" if "judged_problems ?js = []"
      using that unfolding judged_problems_Nil count_healed_def
      by (intro arg_cong [where f = length] filter_True ballI) (metis judged.case(2))
    moreover have "count_corroborated ?js \<le> length ?js" by (simp add: count_corroborated_def)
    ultimately have h: "judged_problems ?js = [] \<Longrightarrow>
        \<not> count_healed ?js < length ?m \<and> (count_healed ?js < 4 \<longrightarrow> count_corroborated ?js < 4)"
      by linarith
    have "fst (check_partitions_healed v) =
        (if filter (\<lambda>w. \<not> after_quiet d w) ?u \<noteq> [] then Fail
         else if judged_problems ?js \<noteq> [] then Fail
         else if count_healed ?js < length ?m then Fail
         else if count_healed ?js < 4 then Inconclusive
         else if count_corroborated ?js < 4 then Inconclusive else Pass)"
      using False Inr unfolding check_partitions_healed_def attribute_windows_owner Let_def
      by (simp del: filter_filter)
    then have all: "fst (check_partitions_healed v) = Pass \<longleftrightarrow>
        filter (\<lambda>w. \<not> after_quiet d w) ?u = [] \<and> judged_problems ?js = [] \<and> 4 \<le> count_corroborated ?js"
      by (rule healed_chain [THEN trans]) (use h in simp_all)
    have one: "(owner d w = None \<longrightarrow> after_quiet d w) \<and> (owner d w \<noteq> None \<longrightarrow> healed_in_time d w) \<longleftrightarrow>
        healed_in_time d w \<or> owner d w = None \<and> after_quiet d w" for w
      by (cases "owner d w") (auto simp: healed_in_time_def)
    then have "(\<forall>w \<in> set ?ws. owner d w = None \<longrightarrow> after_quiet d w) \<and>
        (\<forall>w \<in> set ?ws. owner d w \<noteq> None \<longrightarrow> healed_in_time d w) \<longleftrightarrow>
        (\<forall>w \<in> set ?ws. healed_in_time d w \<or> owner d w = None \<and> after_quiet d w)"
      unfolding ball_conj_distrib [symmetric] by (intro ball_cong refl)
    with all have "fst (check_partitions_healed v) = Pass \<longleftrightarrow>
        (\<forall>w \<in> set ?ws. healed_in_time d w \<or> owner d w = None \<and> after_quiet d w) \<and>
        4 \<le> length (filter (corroborated v d) ?ws)"
      unfolding stray problems corr by argo
    with False Inr show ?thesis by simp
  qed (use False in \<open>simp add: check_partitions_healed_def schedule_failed_def\<close>)
qed (simp add: check_partitions_healed_def skipped_outcome_def)

definition demo_op :: "string \<Rightarrow> int \<Rightarrow> int \<Rightarrow> dump_op" where
  "demo_op name start en =
     \<lparr>do_name = name, do_class = ''deep'', do_start = start, do_end = en, do_hold = 0,
      do_victims = [2, 3], do_mutual = False, do_refused = None\<rparr>"

definition demo_dump :: dump where
  "demo_dump =
     \<lparr>du_profile = ''short'', du_genesis = 0, du_fork = 1000, du_anchor = 1, du_slot_seconds = 6,
      du_ops = [demo_op ''deep-1'' 100 300, demo_op ''deep-2'' 400 600], du_failsafes = [700],
      du_quiet = 2000\<rparr>"

definition demo_chaos :: "levent list" where
  "demo_chaos =
     (logged 0 (Some \<lparr>rd_dump = Inr demo_dump, rd_progress = Inl '''', rd_injection = Inl ''''\<rparr>)
        (mk_event EvSchedule '''' no_detail)) #
     map (\<lambda>(t, k, n). logged (tunix t) None (mk_event k n no_detail))
       [(101, EvIsolate, ''node-2''), (101, EvIsolate, ''node-3''), (290, EvHeal, ''''),
        (401, EvIsolate, ''node-2''), (401, EvIsolate, ''node-3''), (590, EvHeal, ''node-2''),
        (690, EvHeal, '''')]"

definition demo_monitor :: "levent list" where
  "demo_monitor =
     map (\<lambda>(t, n, d). logged (tunix t) None (mk_event EvReorg n (Fmt ''%s -> %s (depth %d)'' [DS ''0xa'', DS ''0xb'', DI d])))
       [(295, ''el-2-geth-prysm'', 11), (296, ''el-3-erigon-teku'', 12),
        (592, ''el-2-geth-prysm'', 9), (695, ''el-3-erigon-teku'', 14)]"

definition four_ops :: dump where
  "four_ops =
     demo_dump\<lparr>du_failsafes := [820], du_ops := map (\<lambda>(name, start, en, victim). (demo_op name start en)\<lparr>do_victims := [victim]\<rparr>)
        [(''deep-1'', 100, 200, 2), (''deep-2'', 300, 400, 3), (''deep-3'', 500, 600, 2), (''deep-4'', 700, 800, 3)]\<rparr>"

definition four_applied :: verifier where
  "four_applied =
     demo_verifier\<lparr>
       vf_chaos :=
         logged 0 (Some \<lparr>rd_dump = Inr four_ops, rd_progress = Inl '''', rd_injection = Inl ''''\<rparr>)
           (mk_event EvSchedule '''' no_detail) #
         map (\<lambda>(t, k, n). logged (tunix t) None (mk_event k n no_detail))
           [(101, EvIsolate, ''node-2''), (190, EvHeal, ''''), (301, EvIsolate, ''node-3''), (390, EvHeal, ''node-3''),
            (501, EvIsolate, ''node-2''), (590, EvHeal, ''''), (701, EvIsolate, ''node-3''), (790, EvHeal, '''')],
       vf_monitor :=
         map (\<lambda>(t, n, d). logged (tunix t) None
               (mk_event EvReorg n (Fmt ''%s -> %s (depth %d)'' [DS ''0xa'', DS ''0xb'', DI d])))
           [(195, ''el-2-geth-prysm'', 11), (395, ''el-3-erigon-teku'', 12), (592, ''el-2-geth-prysm'', 9),
            (795, ''el-3-erigon-teku'', 14)]\<rparr>"

theorem partitions_healed_exact_witness:
  "fst (check_partitions_healed four_applied) = Pass \<and>
   4 \<le> length (filter (corroborated four_applied four_ops) (windows_of four_applied))"
proof -
  have d: "schedule_dump (vf_chaos four_applied) = Inr four_ops" by code_simp
  have p: "fst (check_partitions_healed four_applied) = Pass" by code_simp
  have "\<not> vf_skip_chaos four_applied" by (simp add: four_applied_def demo_verifier_def)
  with p d partitions_healed_exact [of four_applied] show ?thesis by simp
qed

text \<open>An admitted op that was never applied leaves no window, and the check does not ask for
  one: the run below passes with its third op never carried out.\<close>

theorem unapplied_op_passes:
  "let d = demo_dump\<lparr>du_ops := du_ops demo_dump @ [demo_op ''deep-3'' 800 900]\<rparr>;
       v = demo_verifier\<lparr>vf_monitor := demo_monitor, vf_chaos :=
         (hd demo_chaos)\<lparr>le_raw := Some \<lparr>rd_dump = Inr d, rd_progress = Inl '''', rd_injection = Inl ''''\<rparr>\<rparr>
         # tl demo_chaos\<rparr>
   in fst (check_partitions_healed v) = Pass \<and>
      list_all (\<lambda>w. \<not> op_owns (demo_op ''deep-3'' 800 900) w) (windows_of v)"
  unfolding Let_def by (rule conjI; code_simp)

section \<open>Reorg evidence\<close>

definition placed :: "chaos_window \<Rightarrow> reorg_log_match \<Rightarrow> bool" where
  "placed w m \<longleftrightarrow> \<not> is_zero (rl_at m) \<and> cw_covers w '''' (rl_at m) (30 * second) \<and> 1 \<le> rl_drop m"

definition victim_lines :: "verifier \<Rightarrow> chaos_window \<Rightarrow> reorg_log_match list" where
  "victim_lines v w =
     (case client_log_patterns (victim_client v (cw_node w)) of
        None \<Rightarrow> []
      | Some r \<Rightarrow>
          if vf_logs v = None then []
          else concat (map (\<lambda>f. log_reorg_matches f r (cw_from w)) (victim_log_files v (cw_node w))))"

definition victim_events :: "verifier \<Rightarrow> chaos_window \<Rightarrow> levent list" where
  "victim_events v w =
     filter (\<lambda>ev. is_kind EvReorg ev \<and> same_node (le_node ev) (cw_node w) \<and>
               cw_covers w (le_node ev) (le_time ev) (30 * second) \<and> 1 \<le> detail_depth (le_detail ev))
       (vf_monitor v)"

text \<open>Evidence is sound: it matches exactly when its depth is positive.\<close>

definition sound_evidence :: "reorg_evidence \<Rightarrow> bool" where
  "sound_evidence e \<longleftrightarrow> 0 \<le> re_depth e \<and> (re_matched e \<longleftrightarrow> 0 < re_depth e)"

lemma log_fold:
  "sound_evidence best \<Longrightarrow>
   sound_evidence (foldl (log_step client w) best ms) \<and>
   re_depth (foldl (log_step client w) best ms) = Max (insert (re_depth best) (rl_drop ` {m \<in> set ms. placed w m}))"
proof (induction ms arbitrary: best)
  case (Cons m ms)
  let ?b = "log_step client w best m"
  have s: "sound_evidence ?b" using Cons.prems by (auto simp: sound_evidence_def log_step_def)
  have d: "re_depth ?b = (if placed w m then max (re_depth best) (rl_drop m) else re_depth best)"
    using Cons.prems by (auto simp: log_step_def placed_def sound_evidence_def)
  have e: "rl_drop ` {x \<in> set (m # ms). placed w x} =
      (if placed w m then insert (rl_drop m) (rl_drop ` {x \<in> set ms. placed w x})
       else rl_drop ` {x \<in> set ms. placed w x})" by auto
  have "Max (insert (max a b) S) = Max (insert a (insert b S))" if "finite S" for a b :: int and S
    using that by (cases "S = {}") (simp_all add: max.assoc)
  then show ?case using Cons.IH [OF s] d unfolding e by simp
qed simp

lemma monitor_fold:
  "sound_evidence best \<Longrightarrow>
   sound_evidence (foldl (monitor_step w) best evs) \<and>
   re_depth (foldl (monitor_step w) best evs) =
     Max (insert (re_depth best) ((\<lambda>ev. detail_depth (le_detail ev)) `
       {ev \<in> set evs. is_kind EvReorg ev \<and> same_node (le_node ev) (cw_node w) \<and>
          cw_covers w (le_node ev) (le_time ev) (30 * second) \<and> 1 \<le> detail_depth (le_detail ev)}))"
    (is "_ \<Longrightarrow> _ \<and> _ = Max (insert _ (?d ` {ev \<in> set evs. ?p ev}))")
proof (induction evs arbitrary: best)
  case (Cons ev evs)
  let ?b = "monitor_step w best ev"
  have s: "sound_evidence ?b" using Cons.prems by (auto simp: sound_evidence_def monitor_step_def Let_def)
  have d: "re_depth ?b = (if ?p ev then max (re_depth best) (?d ev) else re_depth best)"
    using Cons.prems by (auto simp: monitor_step_def Let_def sound_evidence_def)
  have e: "?d ` {x \<in> set (ev # evs). ?p x} =
      (if ?p ev then insert (?d ev) (?d ` {x \<in> set evs. ?p x}) else ?d ` {x \<in> set evs. ?p x})" by auto
  have "Max (insert (max a b) S) = Max (insert a (insert b S))" if "finite S" for a b :: int and S
    using that by (cases "S = {}") (simp_all add: max.assoc)
  then show ?case using Cons.IH [OF s] d unfolding e by simp
qed simp

text \<open>The deepest of some positive depths, 0 when there is none.\<close>

definition deepest :: "int list \<Rightarrow> int" where
  "deepest ds = Max (insert 0 (set ds))"

lemma deepest_pos: "\<forall>d \<in> set ds. 1 \<le> d \<Longrightarrow> 0 < deepest ds \<longleftrightarrow> ds \<noteq> []"
  by (cases ds) (auto simp: deepest_def Max_gr_iff)

text \<open>C19: The evidence for a partition is the deepest reorg its victim's own log lines show inside
  the partition's window, half a minute of slack on either side; only without such a line is it
  the deepest reorg event the monitor recorded for that node in the window, and without either
  there is none. A line that cannot be placed in time is no evidence.\<close>

theorem match_reorg_exact:
  "re_depth (match_reorg v w) =
     (let ls = map rl_drop (filter (placed w) (victim_lines v w))
      in if ls \<noteq> [] then deepest ls else deepest (map (\<lambda>ev. detail_depth (le_detail ev)) (victim_events v w))) \<and>
   (re_matched (match_reorg v w) \<longleftrightarrow> 0 < re_depth (match_reorg v w))"
proof -
  let ?c = "victim_client v (cw_node w)"
  let ?l = "foldl (log_step ?c w) no_evidence (victim_lines v w)"
  let ?ls = "map rl_drop (filter (placed w) (victim_lines v w))"
  let ?es = "map (\<lambda>ev. detail_depth (le_detail ev)) (victim_events v w)"
  have s0: "sound_evidence no_evidence" "re_depth no_evidence = 0" by (simp_all add: sound_evidence_def no_evidence_def)
  have l: "sound_evidence ?l" "re_depth ?l = deepest ?ls"
    using log_fold [OF s0(1), of ?c w "victim_lines v w"] s0(2) by (simp_all add: deepest_def image_image)
  have m: "match_reorg v w = (if re_matched ?l then ?l
      else (foldl (monitor_step w) ?l (vf_monitor v))
        \<lparr>re_degraded := client_log_patterns ?c = None \<and> \<not> re_matched (foldl (monitor_step w) ?l (vf_monitor v))\<rparr>)"
    by (auto simp: match_reorg_def victim_lines_def Let_def split: option.splits)
  have pos: "0 < deepest ?ls \<longleftrightarrow> ?ls \<noteq> []" by (rule deepest_pos) (auto simp: placed_def)
  have "sound_evidence (foldl (monitor_step w) ?l (vf_monitor v))"
    "re_depth ?l = 0 \<Longrightarrow> re_depth (foldl (monitor_step w) ?l (vf_monitor v)) = deepest ?es"
    using monitor_fold [OF l(1), of w "vf_monitor v"] by (simp_all add: deepest_def victim_events_def)
  with m l pos show "re_depth (match_reorg v w) = (let ls = ?ls in if ls \<noteq> [] then deepest ls else deepest ?es) \<and>
    (re_matched (match_reorg v w) \<longleftrightarrow> 0 < re_depth (match_reorg v w))"
    by (auto simp: sound_evidence_def Let_def)
qed

section \<open>A sampled mismatch\<close>

lemma mismatch_reported:
  assumes "root_mismatch xs h"
  shows "\<exists>e \<in> set (evaluate_sample xs False). ev_kind e = EvCritical \<and> ev_finding e = FindingRootMismatch"
proof -
  let ?f = "filter (\<lambda>s. ns_hash s \<noteq> '''') xs"
  have "h \<noteq> ''''" using assms by (simp add: root_mismatch_def)
  from mismatch_event_hashes [OF this, of False xs] assms obtain e where
    e: "e \<in> set (mismatch_event False h (hash_group ?f h))" by (cases "mismatch_event False h (hash_group ?f h)") auto
  have "h \<in> set (sorted_keys ns_hash ?f)"
    using assms unfolding set_sorted_keys root_mismatch_def by auto
  with e have "e \<in> set (evaluate_sample xs False)" by (auto simp: evaluate_sample_def Let_def)
  with mismatch_event_all [OF e] show ?thesis by auto
qed

lemma critical_fails:
  assumes "2 \<le> length (shadow_reporters v)" "ev \<in> set (vf_monitor v)" "critical_problem v ev \<noteq> None"
  shows "fst (check_shadow_samples v) = Fail"
proof -
  have "List.map_filter (critical_problem v) (vf_monitor v) \<noteq> []"
    using assms(2,3) by (auto simp: map_filter_Nil)
  with assms(1) show ?thesis by (simp add: check_shadow_samples_def Let_def)
qed

text \<open>C8: A root mismatch the monitor samples before the fork block is never waived: when two nodes
  hold different non-null roots for one block and what the monitor emits for that sample is in
  its log, the run fails, whatever partition was open at the time.\<close>

theorem sampled_mismatch_fails_run:
  assumes "root_mismatch xs h"
    and "\<forall>e \<in> set (evaluate_sample xs False). \<exists>t raw. logged t raw e \<in> set (vf_monitor v)"
    and "2 \<le> length (shadow_reporters v)"
  shows "fst (check_shadow_samples v) = Fail"
proof -
  obtain e where e: "e \<in> set (evaluate_sample xs False)" "ev_kind e = EvCritical" "ev_finding e = FindingRootMismatch"
    using mismatch_reported [OF assms(1)] by blast
  with assms(2) obtain t raw where l: "logged t raw e \<in> set (vf_monitor v)" by blast
  have "critical_problem v (logged t raw e) \<noteq> None"
    using e(2,3) by (simp add: critical_problem_def is_kind_def is_finding_def logged_def)
  with assms(3) l show ?thesis by (rule critical_fails)
qed

definition demo_samples :: "node_sample list" where
  "demo_samples =
     [\<lparr>ns_node = ''el-1-geth-lighthouse'', ns_hash = ''0xa'', ns_root = ''0x1''\<rparr>,
      \<lparr>ns_node = ''el-2-erigon-prysm'', ns_hash = ''0xa'', ns_root = ''0x2''\<rparr>]"

theorem sampled_mismatch_fails_run_witness:
  "fst (check_shadow_samples (demo_verifier\<lparr>vf_chaos := demo_chaos,
     vf_monitor := map (logged (tunix 200) None) (evaluate_sample demo_samples False)\<rparr>)) = Fail"
proof -
  let ?v = "demo_verifier\<lparr>vf_chaos := demo_chaos,
     vf_monitor := map (logged (tunix 200) None) (evaluate_sample demo_samples False)\<rparr>"
  have "root_mismatch demo_samples ''0xa''" by (simp add: root_mismatch_def demo_samples_def)
  moreover have "\<forall>e \<in> set (evaluate_sample demo_samples False). \<exists>t raw. logged t raw e \<in> set (vf_monitor ?v)"
    by (auto simp del: fun_upd_apply)
  moreover have "2 \<le> length (shadow_reporters ?v)" by code_simp
  ultimately show ?thesis by (rule sampled_mismatch_fails_run)
qed

section \<open>The straddle\<close>

text \<open>C6: The straddle check passes exactly when chaos was skipped, or the schedule has an admitted
  straddle that spans the fork, has victims and was applied, the anchor never abandoned its
  fork block, and every victim abandoned its own.\<close>

theorem straddle_rewind_exact:
  "fst (check_straddle_rewind v r) = Pass \<longleftrightarrow>
    vf_skip_chaos v \<or>
    (\<exists>d x. schedule_dump (vf_chaos v) = Inr d \<and> spanning_straddle d = Some x \<and> do_victims x \<noteq> [] \<and>
       \<not> straddle_never_applied v (do_name x) (sort (do_victims x)) (tunix (do_start x))
           (tunix (dump_latest x) + SplitGrace) \<and>
       istar_reorged_for v (node_name (du_anchor d)) = None \<and>
       (\<forall>i \<in> set (do_victims x). istar_reorged_for v (node_name i) \<noteq> None))"
proof (cases "vf_skip_chaos v")
  case False
  show ?thesis
  proof (cases "schedule_dump (vf_chaos v)")
    case (Inr d)
    show ?thesis
    proof (cases "spanning_straddle d")
      case (Some x)
      have fate: "victim_fate_of v r x i \<noteq> Kept \<and> victim_fate_of v r x i \<noteq> NeverCrossed \<and>
          victim_fate_of v r x i \<noteq> Unreachable \<longleftrightarrow> istar_reorged_for v (node_name i) \<noteq> None" for i
        by (auto simp: victim_fate_of_def Let_def split: option.splits)
      let ?kept = "List.map_filter (\<lambda>(i, f). if f = Kept then
          Some (Fmt ''victim %d kept its own fork block (no istar-reorged event): its branch won the heal'' [DI i])
        else None) (map (\<lambda>i. (i, victim_fate_of v r x i)) (sort (do_victims x)))"
      let ?un = "List.map_filter (\<lambda>(i, f). (case f of
          NeverCrossed \<Rightarrow> Some (Fmt ''victim %d never crossed the fork on its own branch (hold expired), nothing to rewind'' [DI i])
        | Unreachable \<Rightarrow> Some (Fmt ''victim %d was unreachable during the hold, nothing judged'' [DI i])
        | _ \<Rightarrow> None)) (map (\<lambda>i. (i, victim_fate_of v r x i)) (sort (do_victims x)))"
      have "?kept = [] \<longleftrightarrow> (\<forall>i \<in> set (do_victims x). victim_fate_of v r x i \<noteq> Kept)"
        by (auto simp: map_filter_Nil)
      moreover have "?un = [] \<longleftrightarrow> (\<forall>i \<in> set (do_victims x). victim_fate_of v r x i \<noteq> NeverCrossed \<and>
          victim_fate_of v r x i \<noteq> Unreachable)"
        by (auto simp: map_filter_Nil split: victim_fate.splits)
      ultimately have all: "?kept = [] \<and> ?un = [] \<longleftrightarrow>
          (\<forall>i \<in> set (do_victims x). istar_reorged_for v (node_name i) \<noteq> None)"
        unfolding fate [symmetric] by blast
      have "fst (check_straddle_rewind v r) = Pass \<longleftrightarrow> do_victims x \<noteq> [] \<and>
          \<not> straddle_never_applied v (do_name x) (sort (do_victims x)) (tunix (do_start x))
             (tunix (dump_latest x) + SplitGrace) \<and>
          istar_reorged_for v (node_name (du_anchor d)) = None \<and> ?kept = [] \<and> ?un = []"
        using False Inr Some by (simp add: check_straddle_rewind_def Let_def straddle_window_def)
      with False Inr Some all show ?thesis by simp
    qed (use False Inr in \<open>simp add: check_straddle_rewind_def\<close>)
  qed (use False in \<open>simp add: check_straddle_rewind_def schedule_failed_def\<close>)
qed (simp add: check_straddle_rewind_def skipped_outcome_def)

definition straddle_chaos :: "levent list" where
  "straddle_chaos =
     [logged 0 (Some \<lparr>rd_dump = Inr (demo_dump\<lparr>du_ops := [(demo_op ''straddle'' 900 1100)
          \<lparr>do_class := ''straddle'', do_hold := 1200, do_victims := [3]\<rparr>]\<rparr>),
        rd_progress = Inl '''', rd_injection = Inl ''''\<rparr>) (mk_event EvSchedule '''' no_detail)]"

theorem straddle_rewind_exact_witness:
  "let v = demo_verifier\<lparr>vf_chaos := straddle_chaos, vf_monitor :=
       [logged (tunix 1300) None (mk_event EvIStarReorged ''el-3-erigon-teku'' no_detail)]\<rparr>
   in fst (check_straddle_rewind v demo_rpc) = Pass \<and>
      istar_reorged_for v (node_name 1) = None \<and> istar_reorged_for v (node_name 3) \<noteq> None"
proof -
  let ?v = "demo_verifier\<lparr>vf_chaos := straddle_chaos, vf_monitor :=
       [logged (tunix 1300) None (mk_event EvIStarReorged ''el-3-erigon-teku'' no_detail)]\<rparr>"
  have "fst (check_straddle_rewind ?v demo_rpc) = Pass" by code_simp
  moreover have "\<not> vf_skip_chaos ?v" by (simp add: demo_verifier_def)
  moreover obtain d x where "schedule_dump (vf_chaos ?v) = Inr d" "du_anchor d = 1"
    "spanning_straddle d = Some x" "do_victims x = [3]"
  proof
    show "schedule_dump (vf_chaos ?v) = Inr (demo_dump\<lparr>du_ops := [(demo_op ''straddle'' 900 1100)
        \<lparr>do_class := ''straddle'', do_hold := 1200, do_victims := [3]\<rparr>]\<rparr>)" by code_simp
    show "spanning_straddle (demo_dump\<lparr>du_ops := [(demo_op ''straddle'' 900 1100)
        \<lparr>do_class := ''straddle'', do_hold := 1200, do_victims := [3]\<rparr>]\<rparr>) =
      Some ((demo_op ''straddle'' 900 1100)\<lparr>do_class := ''straddle'', do_hold := 1200, do_victims := [3]\<rparr>)"
      by code_simp
  qed (simp_all add: demo_dump_def demo_op_def)
  ultimately show ?thesis using straddle_rewind_exact [of ?v demo_rpc] by (auto simp: Let_def)
qed

section \<open>Completion\<close>

text \<open>A node's decoded progress reports with their times, and when its fork block was final.\<close>

definition node_reports :: "string \<Rightarrow> levent list \<Rightarrow> (gotime \<times> (progress_error + progress)) list" where
  "node_reports node evs =
     List.map_filter (\<lambda>ev. if le_node ev = node \<and> is_kind EvProgress ev
       then map_option (\<lambda>raw. (le_time ev, decode_progress (rd_progress raw))) (le_raw ev) else None) evs"

definition first_final :: "string \<Rightarrow> levent list \<Rightarrow> gotime option" where
  "first_final node evs = map_option le_time (List.find (\<lambda>ev. le_node ev = node \<and> is_kind EvIStarFinal ev) evs)"

fun clean_reports :: "string \<Rightarrow> bool \<Rightarrow> gotime \<Rightarrow> gotime option \<Rightarrow> (gotime \<times> (progress_error + progress)) list \<Rightarrow> bool" where
  "clean_reports node ret T dn [] \<longleftrightarrow> True"
| "clean_reports node ret T dn ((t, Inl e) # rs) \<longleftrightarrow> False"
| "clean_reports node ret T None ((t, Inr p) # rs) \<longleftrightarrow>
     \<not> (active (mp_merkle p) \<and> t < T) \<and>
     clean_reports node ret T (if mp_phase p = PhaseDone then Some t else None) rs"
| "clean_reports node ret T (Some d) ((t, Inr p) # rs) \<longleftrightarrow>
     post_done_problem node ret p t = None \<and> clean_reports node ret T (Some d) rs"

definition is_done :: "gotime \<times> (progress_error + progress) \<Rightarrow> bool" where
  "is_done x \<longleftrightarrow> (case snd x of Inr p \<Rightarrow> mp_phase p = PhaseDone | Inl _ \<Rightarrow> False)"

definition done_at :: "gotime option \<Rightarrow> (gotime \<times> (progress_error + progress)) list \<Rightarrow> gotime" where
  "done_at dn rs = (case dn of Some t \<Rightarrow> t | None \<Rightarrow>
     (case List.find is_done rs of Some x \<Rightarrow> fst x | None \<Rightarrow> zero_time))"

definition stamp :: "gotime option \<Rightarrow> gotime" where
  "stamp x = (case x of Some t \<Rightarrow> t | None \<Rightarrow> zero_time)"

lemma completion_loop_clean:
  assumes "\<forall>ev \<in> set evs. le_time ev \<noteq> zero_time"
    and "dn \<noteq> Some zero_time" "fin \<noteq> Some zero_time"
    and "ct_done st = stamp dn" "ct_final st = stamp fin"
  shows "(snd (completion_loop node ret T evs st) = [] \<longleftrightarrow> clean_reports node ret T dn (node_reports node evs)) \<and>
    (clean_reports node ret T dn (node_reports node evs) \<longrightarrow>
       ct_done (fst (completion_loop node ret T evs st)) = done_at dn (node_reports node evs) \<and>
       ct_final (fst (completion_loop node ret T evs st)) =
         stamp (case fin of Some t \<Rightarrow> Some t | None \<Rightarrow> first_final node evs))"
  using assms
proof (induction evs arbitrary: st dn fin)
  case Nil
  then show ?case by (auto simp: node_reports_def first_final_def done_at_def stamp_def List.map_filter_def split: option.splits)
next
  case (Cons ev evs)
  have nz: "le_time ev \<noteq> zero_time" using Cons.prems(1) by simp
  have z: "is_zero (stamp dn) \<longleftrightarrow> dn = None" "is_zero (stamp fin) \<longleftrightarrow> fin = None"
    using Cons.prems(2,3) by (auto simp: stamp_def is_zero_def split: option.splits)
  show ?case
  proof (cases "le_node ev = node")
    case False
    then have "node_reports node (ev # evs) = node_reports node evs" "first_final node (ev # evs) = first_final node evs"
      by (simp_all add: node_reports_def first_final_def List.map_filter_def)
    with False Cons.IH [OF _ Cons.prems(2-5)] Cons.prems(1) show ?thesis by (cases fin) simp_all
  next
    case True
    define st1 where "st1 = (if is_kind EvIStarFinal ev \<and> is_zero (ct_final st) then st\<lparr>ct_final := le_time ev\<rparr> else st)"
    define fin1 where "fin1 = (case fin of Some t \<Rightarrow> Some t | None \<Rightarrow> if is_kind EvIStarFinal ev then Some (le_time ev) else None)"
    have s1: "ct_done st1 = stamp dn" "ct_final st1 = stamp fin1" "fin1 \<noteq> Some zero_time"
      using Cons.prems(3-5) z(2) nz by (auto simp: st1_def fin1_def stamp_def split: option.splits)
    have ff: "(case fin of Some t \<Rightarrow> Some t | None \<Rightarrow> first_final node (ev # evs)) =
        (case fin1 of Some t \<Rightarrow> Some t | None \<Rightarrow> first_final node evs)"
      using True by (auto simp: fin1_def first_final_def split: option.splits)
    have rest: "\<forall>ev \<in> set evs. le_time ev \<noteq> zero_time" using Cons.prems(1) by simp
    consider (none) "\<not> is_kind EvProgress ev \<or> le_raw ev = None"
      | (raw) raw where "is_kind EvProgress ev" "le_raw ev = Some raw" by (cases "le_raw ev") auto
    then show ?thesis
    proof cases
      case none
      then have r: "node_reports node (ev # evs) = node_reports node evs"
        by (auto simp: node_reports_def List.map_filter_def)
      have "completion_loop node ret T (ev # evs) st = completion_loop node ret T evs st1"
        using True none by (auto simp: st1_def Let_def split: option.splits bool.splits)
      with Cons.IH [OF rest Cons.prems(2) s1(3,1,2)] r ff show ?thesis by simp
    next
      case raw
      then have r: "node_reports node (ev # evs) = (le_time ev, decode_progress (rd_progress raw)) # node_reports node evs"
        using True by (simp add: node_reports_def List.map_filter_def)
      show ?thesis
      proof (cases "decode_progress (rd_progress raw)")
        case (Inl e)
        then have "snd (completion_loop node ret T (ev # evs) st) \<noteq> []" using True raw by (simp add: Let_def)
        with r Inl show ?thesis by simp
      next
        case (Inr p)
        show ?thesis
        proof (cases dn)
          case None
          let ?st2 = "if mp_phase p = PhaseDone then st1\<lparr>ct_done := le_time ev\<rparr> else st1"
          let ?dn2 = "if mp_phase p = PhaseDone then Some (le_time ev) else None"
          have l: "completion_loop node ret T (ev # evs) st =
              (if active (mp_merkle p) \<and> le_time ev < T then
                 (st1, [Fmt ''%s: merkle direction active at %s, before T'' [DS node, DI (le_time ev)]])
               else completion_loop node ret T evs ?st2)"
            using True raw Inr None z(1) Cons.prems(4) by (simp add: Let_def st1_def)
          have "ct_done ?st2 = stamp ?dn2" "ct_final ?st2 = stamp fin1" "?dn2 \<noteq> Some zero_time"
            using s1 None nz by (auto simp: stamp_def)
          note IH = Cons.IH [OF rest this(3) s1(3) this(1,2)]
          have d: "done_at None ((le_time ev, Inr p) # node_reports node evs) = done_at ?dn2 (node_reports node evs)"
            by (simp add: done_at_def is_done_def)
          show ?thesis
            unfolding l r Inr ff using IH None d by (cases "mp_phase p = PhaseDone") simp_all
        next
          case (Some t)
          have l: "completion_loop node ret T (ev # evs) st =
              (case post_done_problem node ret p (le_time ev) of
                 Some pr \<Rightarrow> (st1\<lparr>ct_post := ct_post st1 + 1\<rparr>, [pr])
               | None \<Rightarrow> completion_loop node ret T evs (st1\<lparr>ct_post := ct_post st1 + 1\<rparr>))"
            using True raw Inr Some z(1) s1(1) by (simp add: Let_def st1_def [symmetric])
          note IH = Cons.IH [OF rest Cons.prems(2) s1(3), of "st1\<lparr>ct_post := ct_post st1 + 1\<rparr>"]
          show ?thesis
            unfolding l r Inr ff using IH s1 Some by (simp add: done_at_def split: option.splits)
        qed
      qed
    qed
  qed
qed

text \<open>A node completed: its reports up to the first done one never have the merkle direction active
  before the fork, none after it is a regression, and that first done report comes no more than
  the poll slack before its fork block finalized and within the deadline after the fork.\<close>

definition completed :: "gotime \<Rightarrow> levent list \<Rightarrow> string \<Rightarrow> bool" where
  "completed T monitor node \<longleftrightarrow>
     (\<exists>pre t p post tf.
        node_reports node monitor = pre @ (t, Inr p) # post \<and> mp_phase p = PhaseDone \<and>
        \<not> (active (mp_merkle p) \<and> t < T) \<and>
        (\<forall>(t', x) \<in> set pre. \<exists>q. x = Inr q \<and> mp_phase q \<noteq> PhaseDone \<and> \<not> (active (mp_merkle q) \<and> t' < T)) \<and>
        (\<forall>(t', x) \<in> set post. \<exists>q. x = Inr q \<and>
           post_done_problem node (retires_shadow (fst (spec_for registry node))) q t' = None) \<and>
        first_final node monitor = Some tf \<and> tf - sameDonePollSlop \<le> t \<and> t \<le> T + doneDeadlineAfterFork)"

lemma clean_post:
  "clean_reports node ret T (Some d) rs \<longleftrightarrow>
    (\<forall>(t', x) \<in> set rs. \<exists>q. x = Inr q \<and> post_done_problem node ret q t' = None)"
proof (induction rs)
  case (Cons r rs)
  then show ?case by (cases r; cases "snd r") auto
qed simp

lemma clean_split:
  assumes "\<forall>(t, x) \<in> set rs. t \<noteq> zero_time"
  shows "clean_reports node ret T None rs \<and> done_at None rs = t0 \<and> t0 \<noteq> zero_time \<longleftrightarrow>
    (\<exists>pre p post. rs = pre @ (t0, Inr p) # post \<and> mp_phase p = PhaseDone \<and> \<not> (active (mp_merkle p) \<and> t0 < T) \<and>
      (\<forall>(t', x) \<in> set pre. \<exists>q. x = Inr q \<and> mp_phase q \<noteq> PhaseDone \<and> \<not> (active (mp_merkle q) \<and> t' < T)) \<and>
      (\<forall>(t', x) \<in> set post. \<exists>q. x = Inr q \<and> post_done_problem node ret q t' = None))"
    (is "?l rs \<longleftrightarrow> (\<exists>pre p post. ?r rs pre p post)")
  using assms
proof (induction rs)
  case Nil
  then show ?case by (simp add: done_at_def)
next
  case (Cons r rs)
  obtain t x where r: "r = (t, x)" by (cases r)
  show ?case
  proof (cases x)
    case (Inl e)
    have "\<not> ?r (r # rs) pre p post" for pre p post using r Inl by (cases pre) auto
    with r Inl show ?thesis by auto
  next
    case (Inr q)
    show ?thesis
    proof (cases "mp_phase q = PhaseDone")
      case True
      have l: "?l (r # rs) \<longleftrightarrow> ?r (r # rs) [] q rs"
        using r Inr True Cons.prems by (auto simp: done_at_def is_done_def clean_post)
      have u: "pre = [] \<and> p = q \<and> post = rs" if "?r (r # rs) pre p post" for pre p post
        using that r Inr True by (cases pre) auto
      show ?thesis
      proof
        assume "?l (r # rs)"
        with l show "\<exists>pre p post. ?r (r # rs) pre p post" by (intro exI) (rule iffD1)
      next
        assume "\<exists>pre p post. ?r (r # rs) pre p post"
        then obtain pre p post where p: "?r (r # rs) pre p post" by (elim exE)
        from u [OF p] have "pre = []" "p = q" "post = rs" by simp_all
        then have "?r (r # rs) [] q rs" using p by blast
        then show "?l (r # rs)" by (rule l [THEN iffD2])
      qed
    next
      case False
      have "?l (r # rs) \<longleftrightarrow> \<not> (active (mp_merkle q) \<and> t < T) \<and> ?l rs"
        using r Inr False by (auto simp: done_at_def is_done_def)
      also have "\<dots> \<longleftrightarrow> \<not> (active (mp_merkle q) \<and> t < T) \<and> (\<exists>pre p post. ?r rs pre p post)"
        using Cons by simp
      also have "\<dots> \<longleftrightarrow> (\<exists>pre p post. ?r (r # rs) pre p post)"
      proof
        assume l: "\<not> (active (mp_merkle q) \<and> t < T) \<and> (\<exists>pre p post. ?r rs pre p post)"
        then obtain pre p post where "?r rs pre p post" by blast
        with l have "?r (r # rs) (r # pre) p post" using r Inr False by auto
        then show "\<exists>pre p post. ?r (r # rs) pre p post" by blast
      next
        assume "\<exists>pre p post. ?r (r # rs) pre p post"
        then obtain pre p post where p: "?r (r # rs) pre p post" by blast
        then obtain pre' where "pre = r # pre'" using r Inr False by (cases pre) auto
        with p have "?r rs pre' p post" "\<not> (active (mp_merkle q) \<and> t < T)" using r Inr by auto
        then show "\<not> (active (mp_merkle q) \<and> t < T) \<and> (\<exists>pre p post. ?r rs pre p post)" by blast
      qed
      finally show ?thesis .
    qed
  qed
qed

lemma reports_nonzero:
  "\<forall>ev \<in> set monitor. le_time ev \<noteq> zero_time \<Longrightarrow> \<forall>(t, x) \<in> set (node_reports node monitor). t \<noteq> zero_time"
  by (auto simp: node_reports_def map_filter_mem split: if_splits)

lemma complete_node_exact:
  assumes nz: "\<forall>ev \<in> set monitor. le_time ev \<noteq> zero_time"
  shows "fst (complete_node T monitor node) = [] \<longleftrightarrow> completed T monitor node"
proof -
  let ?ret = "retires_shadow (fst (spec_for registry node))"
  let ?loop = "completion_loop node ?ret T monitor completion0"
  let ?rs = "node_reports node monitor"
  have l: "snd ?loop = [] \<longleftrightarrow> clean_reports node ?ret T None ?rs"
    "clean_reports node ?ret T None ?rs \<Longrightarrow> ct_done (fst ?loop) = done_at None ?rs"
    "clean_reports node ?ret T None ?rs \<Longrightarrow> ct_final (fst ?loop) = stamp (first_final node monitor)"
    using completion_loop_clean [OF nz, of None None completion0 node ?ret T]
    by (simp_all add: completion0_def stamp_def)
  have fz: "first_final node monitor \<noteq> Some zero_time"
    using nz by (auto simp: first_final_def find_Some_iff)
  have v: "(\<exists>n. completion_verdict node ?ret T st = Inr n) \<longleftrightarrow>
      ct_done st \<noteq> zero_time \<and> ct_final st \<noteq> zero_time \<and> ct_final st - sameDonePollSlop \<le> ct_done st \<and>
      ct_done st \<le> T + doneDeadlineAfterFork" for st
    by (auto simp: completion_verdict_def is_zero_def Let_def)
  have "fst (complete_node T monitor node) = [] \<longleftrightarrow> snd ?loop = [] \<and>
      (\<exists>n. completion_verdict node ?ret T (fst ?loop) = Inr n)"
    by (auto simp: complete_node_def Let_def split: prod.splits sum.splits)
  also have "\<dots> \<longleftrightarrow> (\<exists>t0 tf. (clean_reports node ?ret T None ?rs \<and> done_at None ?rs = t0 \<and> t0 \<noteq> zero_time) \<and>
      first_final node monitor = Some tf \<and> tf - sameDonePollSlop \<le> t0 \<and> t0 \<le> T + doneDeadlineAfterFork)"
  proof (cases "clean_reports node ?ret T None ?rs")
    case True
    with l fz show ?thesis unfolding v by (cases "first_final node monitor") (auto simp: stamp_def)
  qed (use l in simp)
  also have "\<dots> \<longleftrightarrow> completed T monitor node"
    unfolding clean_split [OF reports_nonzero [OF nz]] completed_def by blast
  finally show ?thesis .
qed

text \<open>C7: With every event stamped, the completion check passes exactly when at least one node that
  introspects reported progress, and each of them completed: no merkle fold before the fork, done
  not before its fork block was final (up to the poll slack) and by the deadline, and nothing
  reopened after, as far as its client declares to retire the other tree.\<close>

theorem completion_exact:
  assumes "\<forall>ev \<in> set (vf_monitor v). le_time ev \<noteq> zero_time"
  shows "fst (check_completion v) = Pass \<longleftrightarrow>
    fst (introspecting_nodes v) \<noteq> [] \<and>
    (\<forall>node \<in> set (fst (introspecting_nodes v)). completed (tunix (sint (vf_T v))) (vf_monitor v) node)"
proof -
  obtain ns ds where n: "introspecting_nodes v = (ns, ds)" by (cases "introspecting_nodes v")
  have "fst (check_completion v) = Pass \<longleftrightarrow> ns \<noteq> [] \<and>
      (\<forall>node \<in> set ns. fst (complete_node (tunix (sint (vf_T v))) (vf_monitor v) node) = [])"
    using n by (auto simp: check_completion_def Let_def)
  with n show ?thesis by (simp add: complete_node_exact [OF assms])
qed

definition demo_report :: "int \<Rightarrow> string \<Rightarrow> levent" where
  "demo_report t phase =
     logged (tunix t) (Some \<lparr>rd_dump = Inl '''', rd_progress = Inr \<lparr>mp_phase = phase, mp_binary = None, mp_merkle = None\<rparr>,
        rd_injection = Inl ''''\<rparr>) (mk_event EvProgress ''el-1-geth-lighthouse'' no_detail)"

theorem completion_exact_witness:
  "let v = demo_verifier\<lparr>vf_monitor := [demo_report 20 ''running'',
         logged (tunix 50) None (mk_event EvIStarFinal ''el-1-geth-lighthouse'' no_detail), demo_report 48 ''done'',
         demo_report 60 ''done'']\<rparr>
   in fst (check_completion v) = Pass \<and>
      completed (tunix 32) (vf_monitor v) ''el-1-geth-lighthouse''"
proof -
  let ?v = "demo_verifier\<lparr>vf_monitor := [demo_report 20 ''running'',
         logged (tunix 50) None (mk_event EvIStarFinal ''el-1-geth-lighthouse'' no_detail), demo_report 48 ''done'',
         demo_report 60 ''done'']\<rparr>"
  have p: "fst (check_completion ?v) = Pass" by code_simp
  have i: "fst (introspecting_nodes ?v) = [''el-1-geth-lighthouse'']" by code_simp
  have t: "sint (vf_T ?v) = 32" by (simp add: demo_verifier_def)
  have "\<forall>ev \<in> set (vf_monitor ?v). le_time ev \<noteq> zero_time"
    by (simp add: demo_report_def logged_def tunix_def second_def zero_time_def)
  from completion_exact [OF this] p i t show ?thesis by (simp add: Let_def)
qed

end
