(* ===== verification/VerifyLap.thy ===== *)
theory VerifyLap
  imports VerifyOffline VerifyVerdicts
begin

text \<open>
  What the verdicts on the lap's records mean: when the swaps count as serialized, what that
  check does not see, and when the injected state counts as settled.
\<close>

section \<open>Serialized swaps\<close>

definition disjoint_windows :: "swap_window \<Rightarrow> swap_window \<Rightarrow> bool" where
  "disjoint_windows a b \<longleftrightarrow> sn_end a \<le> sn_start b \<or> sn_end b \<le> sn_start a"

lemma overlap_problems_Nil:
  "overlap_problems ws = [] \<longleftrightarrow> sorted_wrt disjoint_windows ws"
  by (induction ws) (auto simp: filter_empty_conv windows_overlap_def disjoint_windows_def not_less)

text \<open>A swap as the check wants it: not of the anchor; unless it was skipped, its stop and its end
  are recorded, no admitted op's scheduled interval comes within a minute of it, and it caught
  up within every timeout configured for its node.\<close>

definition orderly :: "schedule_error + dump \<Rightarrow> offline \<Rightarrow> swap_record \<Rightarrow> bool" where
  "orderly sched cfg s \<longleftrightarrow>
     sw_node s \<noteq> 1 \<and>
     (sw_status s \<noteq> ''skipped'' \<longrightarrow>
        timed_swap s \<and>
        (\<forall>d. sched = Inr d \<longrightarrow> (\<forall>x \<in> set (dump_admitted d).
           tunix (do_end x) + 60 * second < tunix (sw_stop_at s) \<or>
           tunix (swap_end s) < tunix (do_start x) - 60 * second)) \<and>
        (sw_caught_up_at s \<noteq> 0 \<longrightarrow> (\<forall>c \<in> set (of_consumers cfg).
           oc_node c = sw_node s \<and> 0 < oc_timeout c \<longrightarrow> wrap64 (sw_caught_up_at s - sw_stop_at s) \<le> oc_timeout c)))"

lemma ops_around_Nil:
  "ops_around d a b = [] \<longleftrightarrow> (\<forall>x \<in> set (dump_admitted d).
     tunix (do_end x) + 60 * second < a \<or> b < tunix (do_start x) - 60 * second)"
  by (auto simp: ops_around_def filter_empty_conv)

lemma swap_problems_Nil: "swap_problems sched cfg s = [] \<longleftrightarrow> orderly sched cfg s"
  by (cases sched)
    (auto simp: swap_problems_def orderly_def timed_swap_def ops_around_Nil map_filter_Nil not_less)

text \<open>The serialization check passes exactly when an offline lap is recorded with swaps of which
  one ran, none of the anchor, each that ran timed, a minute clear of every admitted op's
  scheduled interval and within its timeout, no two of their intervals overlap, and the
  schedule can be read unless chaos was skipped.\<close>

theorem swaps_serialized_exact:
  "fst (check_swaps_serialized v) = Pass \<longleftrightarrow>
    (\<exists>m cfg. require_offline v = Inr (m, cfg) \<and>
       (\<exists>s \<in> set (lm_swaps m). timed_swap s) \<and>
       (\<forall>s \<in> set (lm_swaps m). orderly (schedule_dump (vf_chaos v)) cfg s) \<and>
       sorted_wrt disjoint_windows (map swap_window_of (filter timed_swap (lm_swaps m))) \<and>
       (vf_skip_chaos v \<or> (\<exists>d. schedule_dump (vf_chaos v) = Inr d)))"
proof (cases "require_offline v")
  case (Inl res)
  then have "fst res \<noteq> Pass"
    by (auto simp: require_offline_def split: option.splits sum.splits if_splits)
  with Inl show ?thesis by (simp add: check_swaps_serialized_def)
next
  case (Inr mc)
  obtain m cfg where mc: "mc = (m, cfg)" by (cases mc)
  let ?sched = "schedule_dump (vf_chaos v)"
  have "fst (check_swaps_serialized v) = Pass \<longleftrightarrow>
      lm_swaps m \<noteq> [] \<and> concat (map (swap_problems ?sched cfg) (lm_swaps m)) = [] \<and>
      (vf_skip_chaos v \<or> (\<exists>d. ?sched = Inr d)) \<and>
      overlap_problems (map swap_window_of (filter timed_swap (lm_swaps m))) = [] \<and>
      filter timed_swap (lm_swaps m) \<noteq> []"
    using Inr mc by (cases ?sched) (auto simp: check_swaps_serialized_def Let_def)
  also have "\<dots> \<longleftrightarrow> (\<exists>s \<in> set (lm_swaps m). timed_swap s) \<and>
      (\<forall>s \<in> set (lm_swaps m). orderly ?sched cfg s) \<and>
      sorted_wrt disjoint_windows (map swap_window_of (filter timed_swap (lm_swaps m))) \<and>
      (vf_skip_chaos v \<or> (\<exists>d. ?sched = Inr d))"
    by (auto simp: overlap_problems_Nil swap_problems_Nil filter_empty_conv)
  finally show ?thesis using Inr mc by simp
qed

definition demo_offline :: offline where
  "demo_offline =
     \<lparr>of_enabled = True, of_export_after = 0, of_margin = 60, of_producers = [],
      of_consumers = [\<lparr>oc_node = 3, oc_expected = 60, oc_timeout = 150\<rparr>], of_online_only = [], of_validating = 3\<rparr>"

definition demo_swap :: "int \<Rightarrow> int \<Rightarrow> swap_record" where
  "demo_swap stop caught =
     (new_swap 3 1)\<lparr>sw_status := ''ok'', sw_stop_at := stop, sw_start_at := stop, sw_caught_up_at := caught\<rparr>"

definition demo_manifest :: "swap_record list \<Rightarrow> lap_manifest" where
  "demo_manifest sws =
     \<lparr>lm_profile = '''', lm_restart = None, lm_scenarios = [], lm_requested = [], lm_handover = False,
      lm_quiesced = 0, lm_offline = Some demo_offline, lm_producers = [], lm_swaps = sws\<rparr>"

theorem swaps_serialized_exact_witness:
  "let v = demo_verifier\<lparr>vf_chaos := demo_chaos, vf_manifest := Some (Inr (demo_manifest [demo_swap 700 800]))\<rparr>
   in fst (check_swaps_serialized v) = Pass \<and> orderly (Inr demo_dump) demo_offline (demo_swap 700 800)"
proof -
  let ?v = "demo_verifier\<lparr>vf_chaos := demo_chaos, vf_manifest := Some (Inr (demo_manifest [demo_swap 700 800]))\<rparr>"
  have p: "fst (check_swaps_serialized ?v) = Pass" by code_simp
  have "schedule_dump (vf_chaos ?v) = Inr demo_dump" by code_simp
  moreover have "require_offline ?v = Inr (demo_manifest [demo_swap 700 800], demo_offline)"
    by (simp add: require_offline_def demo_manifest_def demo_offline_def)
  ultimately show ?thesis
    using swaps_serialized_exact [of ?v] p by (simp add: Let_def demo_manifest_def)
qed

text \<open>The check takes an op's scheduled end for the end of its partition. A straddle holds until
  its latest heal, so a swap in the middle of that partition passes the check, although the
  swap driver's own gate counts the interval up to the latest heal as occupied.\<close>

theorem hold_overlap_passes:
  "let d = demo_dump\<lparr>du_ops := [(demo_op ''straddle'' 100 300)\<lparr>do_class := ''straddle'', do_hold := 1500\<rparr>]\<rparr>;
       v = demo_verifier\<lparr>vf_chaos := [(hd demo_chaos)\<lparr>le_raw := Some \<lparr>rd_dump = Inr d, rd_progress = Inl '''',
             rd_injection = Inl ''''\<rparr>\<rparr>], vf_manifest := Some (Inr (demo_manifest [demo_swap 700 800]))\<rparr>
   in fst (check_swaps_serialized v) = Pass \<and> gaps d (tunix 0) (tunix 1000) = [(tunix 0, tunix 100)]"
  unfolding Let_def by (rule conjI; code_simp)

section \<open>Injected state\<close>

lemma slot_values_ok:
  assumes "\<forall>e \<in> set es. rp_storage r e (jr_contract i) (jr_slot i) = Inr x"
  shows "slot_values r i es (Some (x, n)) = (Some (x, n), True, [])"
  using assms by (induction es) auto

lemma slot_values_from:
  "snd (snd (slot_values r i es (Some (x, n)))) = [] \<Longrightarrow>
    \<forall>e \<in> set es. rp_storage r e (jr_contract i) (jr_slot i) = Inr x"
  by (induction es) (auto split: sum.splits prod.splits if_splits)

lemma slot_values_clean:
  "snd (snd (slot_values r i (e0 # es) None)) = [] \<longleftrightarrow>
    (\<exists>x. \<forall>e \<in> set (e0 # es). rp_storage r e (jr_contract i) (jr_slot i) = Inr x)"
    (is "?l \<longleftrightarrow> ?r")
proof
  assume ?l
  then show ?r
    by (cases "rp_storage r e0 (jr_contract i) (jr_slot i)")
      (auto split: prod.splits dest: slot_values_from)
next
  assume ?r
  then obtain x where "rp_storage r e0 (jr_contract i) (jr_slot i) = Inr x"
    "\<forall>e \<in> set es. rp_storage r e (jr_contract i) (jr_slot i) = Inr x" by auto
  then show ?l by (simp add: slot_values_ok)
qed

text \<open>An injection as the check wants it: one value of its slot on every node, for the majority's
  write its own unless a victim-side write of the slot has a receipt, and the island's block
  canonical on no node that can be asked.\<close>

definition injection_settled :: "rpc \<Rightarrow> el list \<Rightarrow> el \<Rightarrow> inj_record list \<Rightarrow> inj_record \<Rightarrow> bool" where
  "injection_settled r els e0 all i \<longleftrightarrow>
     (\<exists>x. (\<forall>e \<in> set els. rp_storage r e (jr_contract i) (jr_slot i) = Inr x) \<and>
        (jr_side i = ''majority'' \<longrightarrow> equal_fold x (jr_value i) \<or> overwritten_by_salvage r e0 all i)) \<and>
     (jr_island i \<noteq> '''' \<longrightarrow> (\<forall>e \<in> set els. island_problem r i e = None))"

lemma judge_injection_Nil:
  assumes els: "els = e0 # es"
  shows "fst (judge_injection r els e1 all i) = [] \<longleftrightarrow> injection_settled r els e1 all i"
proof (cases "\<exists>x. \<forall>e \<in> set els. rp_storage r e (jr_contract i) (jr_slot i) = Inr x")
  case True
  then obtain x where x: "\<forall>e \<in> set els. rp_storage r e (jr_contract i) (jr_slot i) = Inr x" by blast
  then have "slot_values r i els None = (Some (x, el_name e0), True, [])"
    using els by (simp add: slot_values_ok)
  moreover have "injection_settled r els e1 all i \<longleftrightarrow>
      (jr_side i = ''majority'' \<longrightarrow> equal_fold x (jr_value i) \<or> overwritten_by_salvage r e1 all i) \<and>
      (jr_island i \<noteq> [] \<longrightarrow> (\<forall>e \<in> set els. island_problem r i e = None))"
    using x els by (auto simp: injection_settled_def)
  ultimately show ?thesis by (simp add: judge_injection_def Let_def map_filter_Nil)
next
  case False
  then have "snd (snd (slot_values r i els None)) \<noteq> []" using slot_values_clean els by blast
  then have "fst (judge_injection r els e1 all i) \<noteq> []"
    by (auto simp: judge_injection_def Let_def split: prod.splits)
  with False show ?thesis by (auto simp: injection_settled_def)
qed

text \<open>C39: With a node configured the check of the injected state returns, and passes exactly when
  every inject record decodes, there is one, and each is settled: all nodes hold one value of its
  slot, the majority's own unless a victim-side write of that slot reached the chain, and the
  island's block is canonical on no node that answers for it.\<close>

theorem injected_state_exact:
  assumes "vf_els v = e0 # es"
  shows "\<exists>res. check_injected_state v r = Some res \<and>
    (fst res = Pass \<longleftrightarrow>
       (\<exists>all. read_injections (vf_chaos v) = Inr all \<and> all \<noteq> [] \<and>
          (\<forall>i \<in> set all. injection_settled r (vf_els v) e0 all i)))"
proof (cases "read_injections (vf_chaos v)")
  case (Inl e)
  then show ?thesis by (simp add: check_injected_state_def)
next
  case (Inr all)
  show ?thesis
  proof (cases all)
    case Nil
    with Inr show ?thesis by (simp add: check_injected_state_def)
  next
    case (Cons i rest)
    let ?js = "map (judge_injection r (vf_els v) e0 all) all"
    have "concat (map fst ?js) = [] \<longleftrightarrow> (\<forall>i \<in> set all. injection_settled r (vf_els v) e0 all i)"
      using judge_injection_Nil [OF assms] by simp
    moreover obtain res where "check_injected_state v r = Some res" "fst res = Pass \<longleftrightarrow> concat (map fst ?js) = []"
      using Inr Cons assms by (simp add: check_injected_state_def Let_def)
    ultimately show ?thesis using Inr Cons by auto
  qed
qed

definition demo_injection :: inj_record where
  "demo_injection = \<lparr>jr_contract = ''0xc'', jr_slot = ''0x1'', jr_value = ''0xBB'', jr_side = ''majority'', jr_tx = '''', jr_island = ''''\<rparr>"

theorem injected_state_exact_witness:
  "let v = demo_verifier\<lparr>vf_chaos := [logged 0 (Some \<lparr>rd_dump = Inl '''', rd_progress = Inl '''', rd_injection = Inr demo_injection\<rparr>)
         (mk_event EvInject ''majority'' no_detail)]\<rparr>
   in map_option fst (check_injected_state v (demo_rpc\<lparr>rp_storage := \<lambda>_ _ _. Inr ''0xbb''\<rparr>)) = Some Pass"
proof -
  let ?v = "demo_verifier\<lparr>vf_chaos := [logged 0 (Some \<lparr>rd_dump = Inl '''', rd_progress = Inl '''', rd_injection = Inr demo_injection\<rparr>)
         (mk_event EvInject ''majority'' no_detail)]\<rparr>"
  let ?r = "demo_rpc\<lparr>rp_storage := \<lambda>_ _ _. Inr ''0xbb''\<rparr>"
  have i: "read_injections (vf_chaos ?v) = Inr [demo_injection]"
    by (simp add: logged_def is_kind_def)
  have "equal_fold ''0xbb'' ''0xBB''" by code_simp
  then have "injection_settled ?r els e0 [demo_injection] demo_injection" for els e0
    by (auto simp: injection_settled_def demo_injection_def)
  with i injected_state_exact [of ?v demo_el "[demo_el\<lparr>el_name := ''el-2-erigon-prysm''\<rparr>]" ?r]
  show ?thesis by (auto simp: Let_def demo_verifier_def)
qed

end
