(* ===== verification/VerifyRun.thy ===== *)
theory VerifyRun
  imports VerifyLap
begin

text \<open>
  The run of \<open>cmd/verify-migration\<close> (\<open>main.go: Run\<close>): the fork block resolved, the 21 checks in
  order, one line each, the inconclusive ids, the exit code, the single-implementation note and
  the summary page (\<open>summary.go\<close>). A summary's line is its template and arguments; the file is
  written by the caller.
\<close>

section \<open>The run\<close>

record check_result =
  cr_id :: string
  cr_verdict :: verdict
  cr_evidence :: detail

fun verdict_string :: "verdict \<Rightarrow> string" where
  "verdict_string Pass = ''PASS''"
| "verdict_string Inconclusive = ''INCONCLUSIVE''"
| "verdict_string Fail = ''FAIL''"

definition summarize_verdicts :: "check_result list \<Rightarrow> nat \<times> string list" where
  "summarize_verdicts rs =
     (length (filter (\<lambda>x. cr_verdict x = Fail) rs),
      map cr_id (filter (\<lambda>x. cr_verdict x = Inconclusive) rs))"

definition any_passed :: "check_result list \<Rightarrow> bool" where
  "any_passed rs \<longleftrightarrow> (\<exists>x \<in> set rs. cr_verdict x = Pass)"

fun single_from :: "string \<Rightarrow> el list \<Rightarrow> string option" where
  "single_from first [] = (if first = '''' then None else Some first)"
| "single_from first (e # es) =
     (let c = client_of (el_name e)
      in if c = '''' then None
         else if first = '''' then single_from c es
         else if c \<noteq> first then None else single_from first es)"

definition single_implementation :: "el list \<Rightarrow> string option" where
  "single_implementation els = single_from '''' els"

text \<open>The checks in order, after the fork block is resolved. Two of them may not return: the
  traffic check at a height near the largest 64-bit number and the injected state without a
  node.\<close>

definition check_ids :: "string list" where
  "check_ids =
     [''chain-before-fork'', ''traffic-coverage'', ''partitions-healed'', ''boundary-agreement'',
      ''no-configured-window'', ''shadow-samples'', ''genesis-pins'', ''prefork-deep-reorg'',
      ''straddle-rewind'', ''forkblock-convergence'', ''orphan-gone'', ''completion'', ''lap-manifest'',
      ''artifact-produced'', ''import-accepted'', ''swaps-serialized'', ''replay-caught-up'',
      ''offline-coverage'', ''finalized-end-state'', ''postfork-samples'', ''injected-state'']"

definition run_checks :: "verifier \<Rightarrow> (string \<Rightarrow> rpc) \<Rightarrow> artifacts \<Rightarrow> outcome option list" where
  "run_checks v net a =
     [Some (check_chain_before_fork v),
      check_traffic_coverage v (net ''traffic-coverage''),
      Some (check_partitions_healed v),
      Some (check_boundary_agreement v (net ''boundary-agreement'')),
      Some (check_no_configured_window v),
      Some (check_shadow_samples v),
      Some (check_genesis_pins v (net ''genesis-pins'')),
      Some (check_prefork_deep_reorg v),
      Some (check_straddle_rewind v (net ''straddle-rewind'')),
      Some (check_forkblock_convergence v (net ''forkblock-convergence'')),
      Some (check_orphan_gone v (net ''orphan-gone'')),
      Some (check_completion v),
      Some (check_lap_manifest v),
      Some (check_artifact_produced v (net ''artifact-produced'') a),
      Some (check_import_accepted v a),
      Some (check_swaps_serialized v),
      Some (check_replay_caught_up v),
      Some (check_offline_coverage v),
      Some (check_finalized_end_state v (net ''finalized-end-state'')),
      Some (check_postfork_samples v),
      check_injected_state v (net ''injected-state'')]"

fun all_some :: "'a option list \<Rightarrow> 'a list option" where
  "all_some [] = Some []"
| "all_some (x # xs) = (case (x, all_some xs) of (Some y, Some ys) \<Rightarrow> Some (y # ys) | _ \<Rightarrow> None)"

definition labelled :: "outcome list \<Rightarrow> check_result list" where
  "labelled os = map (\<lambda>(i, r). \<lparr>cr_id = i, cr_verdict = fst r, cr_evidence = snd r\<rparr>) (zip check_ids os)"

definition run_output :: "verifier \<Rightarrow> outcome list \<Rightarrow> detail list \<times> nat" where
  "run_output v os =
     (let rs = labelled os;
          (failed, inconclusive) = summarize_verdicts rs;
          floor = failed = 0 \<and> \<not> any_passed rs
      in (map (\<lambda>x. Fmt ''%s %s: %s'' [DS (verdict_string (cr_verdict x)), DS (cr_id x), DD (cr_evidence x)]) rs @
          (if inconclusive \<noteq> [] then [Fmt ''inconclusive: %s'' [DS (joined_with '','' inconclusive)]] else []) @
          (if floor then [lit ''FAIL floor: no check passed; a run that proves nothing is not a green run''] else []) @
          (case single_implementation (vf_els v) of
             Some only \<Rightarrow> [Fmt ''NOTE: single-implementation run (%s only): cross-node checks prove determinism, not spec agreement'' [DS only]]
           | None \<Rightarrow> []),
          if floor then 1 else failed))"

definition run :: "verifier \<Rightarrow> (string \<Rightarrow> rpc) \<Rightarrow> artifacts \<Rightarrow> (detail list \<times> nat) option" where
  "run v net a =
     (let v = v\<lparr>vf_istar := resolve_istar (net ''istar'') (vf_els v) (vf_T v) (vf_monitor v)\<rparr>
      in map_option (run_output v) (all_some (run_checks v net a)))"

section \<open>The exit code\<close>

lemma check_ids_length: "length check_ids = 21" "length (run_checks v net a) = 21"
  by (simp_all add: check_ids_def run_checks_def)

lemma all_some_Some: "all_some (map Some ys) = Some ys"
  by (induction ys) simp_all

lemma all_some_map: "all_some xs = Some ys \<Longrightarrow> xs = map Some ys"
  by (induction xs arbitrary: ys) (auto split: option.splits prod.splits)

lemma any_passed_set: "any_passed rs \<longleftrightarrow> Pass \<in> set (map cr_verdict rs)"
  by (force simp: any_passed_def)

lemma labelled_verdicts:
  assumes "length os = 21"
  shows "map cr_verdict (labelled os) = map fst os"
proof -
  have z: "map snd (zip check_ids os) = os" using assms check_ids_length by (simp add: map_snd_zip)
  show ?thesis by (subst z [symmetric]) (simp add: labelled_def comp_def case_prod_unfold)
qed

lemma run_output_code:
  assumes "length os = 21"
  shows "snd (run_output v os) =
    (let failed = length (filter (\<lambda>o'. fst o' = Fail) os)
     in if failed = 0 \<and> Pass \<notin> fst ` set os then 1 else failed)"
proof -
  have v: "map cr_verdict (labelled os) = map fst os" using assms by (rule labelled_verdicts)
  have "length (filter (\<lambda>x. cr_verdict x = Fail) (labelled os)) = length (filter (\<lambda>b. b = Fail) (map cr_verdict (labelled os)))"
    by (simp add: filter_map comp_def)
  then have f: "length (filter (\<lambda>x. cr_verdict x = Fail) (labelled os)) = length (filter (\<lambda>o'. fst o' = Fail) os)"
    unfolding v by (simp add: filter_map comp_def)
  have p: "any_passed (labelled os) \<longleftrightarrow> Pass \<in> fst ` set os" unfolding any_passed_set v by simp
  show ?thesis unfolding run_output_def summarize_verdicts_def Let_def prod.case snd_conv f p by (rule refl)
qed

text \<open>C2: A run that returns exits with the number of failed checks, and with 1 when every check
  was inconclusive: the exit code is 0 exactly when no check failed and at least one passed, 1
  exactly when one failed or nothing but inconclusive checks came back, and never more than 21.\<close>

theorem exit_code_exact:
  assumes "run v net a = Some (out, code)"
  shows "\<exists>os. run_checks (v\<lparr>vf_istar := resolve_istar (net ''istar'') (vf_els v) (vf_T v) (vf_monitor v)\<rparr>) net a = map Some os \<and>
    code = (if \<forall>r \<in> set os. fst r = Inconclusive then 1 else length (filter (\<lambda>r. fst r = Fail) os)) \<and>
    (code = 0 \<longleftrightarrow> (\<forall>r \<in> set os. fst r \<noteq> Fail) \<and> (\<exists>r \<in> set os. fst r = Pass)) \<and>
    (code = 1 \<longleftrightarrow> (\<forall>r \<in> set os. fst r = Inconclusive) \<or> length (filter (\<lambda>r. fst r = Fail) os) = 1) \<and> code \<le> 21"
proof -
  let ?v = "v\<lparr>vf_istar := resolve_istar (net ''istar'') (vf_els v) (vf_T v) (vf_monitor v)\<rparr>"
  from assms obtain os where os: "all_some (run_checks ?v net a) = Some os" "run_output ?v os = (out, code)"
    by (auto simp: run_def Let_def)
  from os(1) have m: "run_checks ?v net a = map Some os" by (rule all_some_map)
  then have l: "length os = 21" using check_ids_length(2) [of ?v net a] by simp
  have c: "code = (if length (filter (\<lambda>o'. fst o' = Fail) os) = 0 \<and> Pass \<notin> fst ` set os then 1
      else length (filter (\<lambda>o'. fst o' = Fail) os))"
    using run_output_code [OF l, of ?v] os(2) by (simp add: Let_def)
  have n: "length (filter (\<lambda>o'. fst o' = Fail) os) = 0 \<longleftrightarrow> (\<forall>r \<in> set os. fst r \<noteq> Fail)"
    by (simp add: filter_empty_conv)
  have le: "length (filter (\<lambda>o'. fst o' = Fail) os) \<le> 21" using l by (metis length_filter_le)
  have p: "Pass \<in> fst ` set os \<longleftrightarrow> (\<exists>r \<in> set os. fst r = Pass)" by force
  have i: "(\<forall>r \<in> set os. fst r = Inconclusive) \<longleftrightarrow> (\<forall>r \<in> set os. fst r \<noteq> Fail) \<and> \<not> (\<exists>r \<in> set os. fst r = Pass)"
    using VerifyChain.verdict.exhaust by (metis VerifyChain.verdict.distinct(3,5))
  have "code = (if \<forall>r \<in> set os. fst r = Inconclusive then 1 else length (filter (\<lambda>r. fst r = Fail) os))"
    unfolding c n p i by (rule refl)
  moreover have "code = 0 \<longleftrightarrow> (\<forall>r \<in> set os. fst r \<noteq> Fail) \<and> (\<exists>r \<in> set os. fst r = Pass)"
    unfolding c n p by (auto simp: filter_empty_conv)
  moreover from calculation(1) have "code = 1 \<longleftrightarrow>
      (\<forall>r \<in> set os. fst r = Inconclusive) \<or> length (filter (\<lambda>r. fst r = Fail) os) = 1"
    by auto
  moreover have "code \<le> 21" using calculation(1) le by (cases "\<forall>r \<in> set os. fst r = Inconclusive") simp_all
  ultimately show ?thesis using m by (intro exI [of _ os] conjI)
qed

definition demo_artifacts :: artifacts where
  "demo_artifacts =
     \<lparr>ar_read = (\<lambda>_ _. Inl ''''), ar_exists = (\<lambda>_ _. False), ar_meta = Inl,
      ar_of_bytes = (\<lambda>_. \<lparr>ht_hex = '''', ht_terminal = ''''\<rparr>),
      ar_of_hex = (\<lambda>_. \<lparr>ht_hex = '''', ht_terminal = ''''\<rparr>)\<rparr>"

theorem exit_code_exact_witness:
  "map_option snd (run demo_verifier (\<lambda>_. demo_rpc) demo_artifacts) = Some 10 \<and> (10::nat) \<le> 21"
proof -
  have c: "map_option snd (run demo_verifier (\<lambda>_. demo_rpc) demo_artifacts) = Some 10" by code_simp
  then obtain out where "run demo_verifier (\<lambda>_. demo_rpc) demo_artifacts = Some (out, 10)" by auto
  from exit_code_exact [OF this] c show ?thesis by auto
qed

section \<open>The summary page\<close>

text \<open>Text is ASCII: a rune is a character.\<close>

definition truncate_text :: "string \<Rightarrow> nat \<Rightarrow> string" where
  "truncate_text s n = (if length s \<le> n then s else take n s @ ''...'')"

definition padded :: "nat \<Rightarrow> int \<Rightarrow> string" where
  "padded w i = (let s = show_int i in replicate (w - length s) (CHR ''0'') @ s)"

definition clock_text :: "gotime \<Rightarrow> string" where
  "clock_text t =
     (let s = t div second mod 86400
      in padded 2 (s div 3600) @ '':'' @ padded 2 (s div 60 mod 60) @ '':'' @ padded 2 (s mod 60))"

text \<open>The month and day of a time, by the days since the first of March of its year.\<close>

definition date_text :: "gotime \<Rightarrow> string" where
  "date_text t =
     (let y = year_of t; days = t div (86400 * second);
          month = (if days_from_civil y 3 1 \<le> days
                   then (5 * (days - days_from_civil y 3 1) + 2) div 153 + 3
                   else if days_from_civil y 2 1 \<le> days then 2 else 1)
      in padded 4 y @ ''-'' @ padded 2 month @ ''-'' @ padded 2 (days - days_from_civil y month 1 + 1))"

definition rfc3339 :: "gotime \<Rightarrow> string" where
  "rfc3339 t = date_text t @ ''T'' @ clock_text t @ ''Z''"

definition format_time_or_dash :: "gotime \<Rightarrow> string" where
  "format_time_or_dash t = (if is_zero t then ''-'' else clock_text t)"

record node_fork_hashes =
  nf_provisional :: string
  nf_latest :: string
  nf_finalized :: bool

definition fork_hash_step ::
  "(string \<Rightarrow> node_fork_hashes) \<Rightarrow> levent \<Rightarrow> (string \<Rightarrow> node_fork_hashes)" where
  "fork_hash_step m ev =
     (let h = m (le_node ev)
      in if is_kind EvIStar ev then
           m(le_node ev := h\<lparr>nf_provisional := (if nf_provisional h = '''' then le_hash ev else nf_provisional h),
                             nf_latest := le_hash ev\<rparr>)
         else if is_kind EvIStarReorged ev then m(le_node ev := h\<lparr>nf_latest := le_hash ev\<rparr>)
         else if is_kind EvIStarFinal ev then m(le_node ev := h\<lparr>nf_finalized := True\<rparr>)
         else m)"

definition no_fork_hash :: node_fork_hashes where
  "no_fork_hash = \<lparr>nf_provisional = '''', nf_latest = '''', nf_finalized = False\<rparr>"

definition fork_hashes_by_node :: "levent list \<Rightarrow> string \<Rightarrow> node_fork_hashes" where
  "fork_hashes_by_node monitor = foldl fork_hash_step (\<lambda>_. no_fork_hash) monitor"

text \<open>Events of one time are in no fixed order, but only their times are read.\<close>

definition stage_step :: "gotime \<times> gotime \<Rightarrow> levent \<Rightarrow> gotime \<times> gotime" where
  "stage_step st ev =
     (case le_raw ev of
        None \<Rightarrow> st
      | Some raw \<Rightarrow>
          (case rd_progress raw of
             Inl _ \<Rightarrow> st
           | Inr p \<Rightarrow>
               if progress_stage p = 2 then (if is_zero (fst st) then le_time ev else fst st, snd st)
               else if progress_stage p = 3 then (fst st, if is_zero (snd st) then le_time ev else snd st)
               else st))"

definition node_stage_times :: "levent list \<Rightarrow> string \<Rightarrow> gotime \<times> gotime" where
  "node_stage_times monitor node =
     foldl stage_step (zero_time, zero_time)
       (sort_key le_time (filter (\<lambda>ev. is_kind EvProgress ev \<and> le_node ev = node) monitor))"

definition observed_drop :: "verifier \<Rightarrow> chaos_window \<Rightarrow> string" where
  "observed_drop v w =
     (let ev = match_reorg v w
      in cw_node w @ '':'' @ (if re_matched ev then show_int (re_depth ev) else ''none''))"

definition op_row :: "verifier \<Rightarrow> (dump_op \<times> chaos_window) list \<Rightarrow> dump_op \<Rightarrow> string" where
  "op_row v matched x =
     (let ws = map snd (filter (\<lambda>(y, _). do_name y = do_name x) matched)
      in ''| '' @ do_name x @ '' | '' @ do_class x @ '' | ['' @ joined_with '' '' (map show_int (do_victims x)) @
         ''] | '' @ clock_text (tunix (do_start x)) @ ''..'' @ clock_text (tunix (do_end x)) @ '' | '' @
         (if ws = [] then ''not isolated'' else joined_with '', '' (map (observed_drop v) ws)) @ '' |'')"

definition node_row :: "verifier \<Rightarrow> string \<Rightarrow> string" where
  "node_row v node =
     (let (stage2, stage3) = node_stage_times (vf_monitor v) node;
          h = fork_hashes_by_node (vf_monitor v) node
      in ''| '' @ node @ '' | '' @ format_time_or_dash stage2 @ '' | '' @ format_time_or_dash stage3 @ '' | '' @
         truncate_text (nf_provisional h) 12 @ '' | '' @
         truncate_text (nf_latest h) 12 @ (if nf_finalized h then '' (final)'' else '''') @ '' |'')"

definition check_row :: "check_result \<Rightarrow> string" where
  "check_row c =
     ''- '' @ verdict_string (cr_verdict c) @ '' '' @ cr_id c @ '': '' @ truncate_text (render (cr_evidence c)) 160"

definition render_summary :: "verifier \<Rightarrow> check_result list \<Rightarrow> string list" where
  "render_summary v rs =
     (let sched = schedule_dump (vf_chaos v)
      in [''# Migration devnet run'', ''''] @
         (case sched of
            Inr d \<Rightarrow> [''- profile: '' @ du_profile d, ''- fork time: '' @ rfc3339 (tunix (du_fork d)),
                      ''- anchor: node-'' @ show_int (du_anchor d)]
          | Inl e \<Rightarrow> [''- schedule: unavailable ('' @ render (schedule_error_detail e) @ '')'']) @
         [''- binary-trie time T: '' @ rfc3339 (tunix (sint (vf_T v))), ''''] @
         (case sched of
            Inr d \<Rightarrow>
              [''## Ops'', '''', ''| op | class | victims | window | observed drop |'', ''|---|---|---|---|---|''] @
              map (op_row v (fst (attribute_windows d (windows_of v)))) (dump_admitted d) @ ['''']
          | Inl _ \<Rightarrow> []) @
         [''## Nodes'', '''', ''| node | parked+active | done | provisional I* | latest I* |'', ''|---|---|---|---|---|''] @
         map (node_row v) (progress_nodes v) @ ['''', ''## Checks'', ''''] @ map check_row rs)"


end
