(* ===== verification/Shadow.thy ===== *)
theory Shadow
  imports Events "HOL-Library.List_Lexorder" "HOL-Library.Char_ord"
begin

text \<open>
  The shadow table of the monitor's page (\<open>cmd/migration-monitor/shadow.go\<close>): per tracked block
  and node the root the node reports for it, asked for with a bounded number of calls per step,
  and the classification of a block's reports. Blocks are an association list (the code sorts
  the map's keys before it acts on them); a step that would index out of range, read a block
  that is not there or shift by a negative count is the value \<open>None\<close>.
\<close>

section \<open>The table\<close>

record shadow_node =
  shn_name :: string
  shn_introspects :: bool

record shadow_cell =
  sc_root :: string
  sc_last_asked :: gotime
  sc_asks :: int

record shadow_block =
  sb_slot :: u64
  sb_cells :: "shadow_cell list"

record shadow_table =
  st_nodes :: "shadow_node list"
  st_retry_every :: duration
  st_retain_slots :: u64
  st_blocks :: "(string \<times> shadow_block) list"
  st_warned :: "string set"

abbreviation "backoffCap \<equiv> (5 :: int)"

definition empty_cell :: shadow_cell where
  "empty_cell = \<lparr>sc_root = '''', sc_last_asked = zero_time, sc_asks = 0\<rparr>"

definition new_shadow_table :: "shadow_node list \<Rightarrow> duration \<Rightarrow> u64 \<Rightarrow> shadow_table" where
  "new_shadow_table nodes retry retain =
     \<lparr>st_nodes = nodes, st_retry_every = retry, st_retain_slots = retain, st_blocks = [], st_warned = {}\<rparr>"

definition track_block :: "string \<Rightarrow> u64 \<Rightarrow> shadow_table \<Rightarrow> shadow_table" where
  "track_block hash slot t =
     (case map_of (st_blocks t) hash of
        Some _ \<Rightarrow> t
      | None \<Rightarrow> t\<lparr>st_blocks := st_blocks t @
          [(hash, \<lparr>sb_slot = slot, sb_cells = replicate (length (st_nodes t)) empty_cell\<rparr>)]\<rparr>)"

definition past_retention :: "u64 \<Rightarrow> u64 \<Rightarrow> shadow_block \<Rightarrow> bool" where
  "past_retention retain now_slot b \<longleftrightarrow> sb_slot b + retain < now_slot"

text \<open>Newest slot first, the hash breaking ties.\<close>

definition pending_blocks :: "(string \<times> shadow_block) list \<Rightarrow> string list" where
  "pending_blocks bs = map fst (sort_key (\<lambda>(_, b). - uint (sb_slot b)) (sort_key fst bs))"

text \<open>The wait after a cell's last ask; \<open>None\<close> for a negative shift count, which panics.\<close>

definition backoff :: "duration \<Rightarrow> int \<Rightarrow> duration option" where
  "backoff retry asks =
     (let k = min (wrap64 (asks - 1)) backoffCap
      in if k < 0 then None else Some (wrap64 (retry * 2 ^ nat k)))"

text \<open>Whether a cell is passed over: answered, or asked too recently.\<close>

definition passed_over :: "duration \<Rightarrow> gotime \<Rightarrow> shadow_cell \<Rightarrow> bool option" where
  "passed_over retry now c =
     (if sc_root c \<noteq> '''' then Some True
      else if is_zero (sc_last_asked c) then Some False
      else map_option (\<lambda>d. tsub now (sc_last_asked c) < d) (backoff retry (sc_asks c)))"

definition put_cell :: "string \<Rightarrow> nat \<Rightarrow> shadow_cell \<Rightarrow> (string \<times> shadow_block) list \<Rightarrow> (string \<times> shadow_block) list" where
  "put_cell hash i c bs =
     map (\<lambda>(h, b). if h = hash then (h, b\<lparr>sb_cells := (sb_cells b)[i := c]\<rparr>) else (h, b)) bs"

definition cell_of :: "(string \<times> shadow_block) list \<Rightarrow> string \<Rightarrow> nat \<Rightarrow> shadow_cell option" where
  "cell_of bs hash i =
     (case map_of bs hash of
        Some b \<Rightarrow> if i < length (sb_cells b) then Some (sb_cells b ! i) else None
      | None \<Rightarrow> None)"

definition shadow_warning :: "shadow_node \<Rightarrow> string \<Rightarrow> string \<Rightarrow> event" where
  "shadow_warning n hash err =
     (mk_event EvWarn (shn_name n) (Fmt ''shadow root: %s'' [DS err]))\<lparr>ev_hash := hash\<rparr>"

type_synonym shadow_work = "(string \<times> shadow_block) list \<times> string set \<times> event list"

text \<open>One call: the cell is stamped, then takes the answer, or the error is warned of once.\<close>

definition ask_cell ::
  "(nat \<Rightarrow> string \<Rightarrow> string + string) \<Rightarrow> gotime \<Rightarrow> nat \<Rightarrow> shadow_node \<Rightarrow> string \<Rightarrow> shadow_cell \<Rightarrow> shadow_work \<Rightarrow> shadow_work"
where
  "ask_cell ans now i n hash c w =
     (case w of (bs, warned, evs) \<Rightarrow>
        let c' = c\<lparr>sc_last_asked := now, sc_asks := wrap64 (sc_asks c + 1)\<rparr>
        in (case ans i hash of
              Inr root \<Rightarrow> (put_cell hash i (c'\<lparr>sc_root := root\<rparr>) bs, warned, evs)
            | Inl err \<Rightarrow>
                let key = shn_name n @ ''|'' @ err
                in if key \<in> warned then (put_cell hash i c' bs, warned, evs)
                   else (put_cell hash i c' bs, insert key warned, evs @ [shadow_warning n hash err])))"

text \<open>One node's turn, with the calls it may still make.\<close>

fun ask_node ::
  "(nat \<Rightarrow> string \<Rightarrow> string + string) \<Rightarrow> duration \<Rightarrow> gotime \<Rightarrow> nat \<Rightarrow> shadow_node \<Rightarrow> string list \<Rightarrow> int \<Rightarrow>
    shadow_work \<Rightarrow> shadow_work option"
where
  "ask_node ans retry now i n [] left w = Some w"
| "ask_node ans retry now i n (hash # rest) left w =
     (if left \<le> 0 then Some w
      else
        (case cell_of (fst w) hash i of
           None \<Rightarrow> None
         | Some c \<Rightarrow>
             (case passed_over retry now c of
                None \<Rightarrow> None
              | Some True \<Rightarrow> ask_node ans retry now i n rest left w
              | Some False \<Rightarrow> ask_node ans retry now i n rest (left - 1) (ask_cell ans now i n hash c w))))"

fun ask_nodes ::
  "(nat \<Rightarrow> string \<Rightarrow> string + string) \<Rightarrow> (int \<Rightarrow> bool) \<Rightarrow> duration \<Rightarrow> gotime \<Rightarrow> string list \<Rightarrow> int \<Rightarrow> nat \<Rightarrow>
    shadow_node list \<Rightarrow> shadow_work \<Rightarrow> shadow_work option"
where
  "ask_nodes ans quiet retry now pending budget i [] w = Some w"
| "ask_nodes ans quiet retry now pending budget i (n # ns) w =
     (if \<not> shn_introspects n \<or> quiet (int i + 1) then ask_nodes ans quiet retry now pending budget (Suc i) ns w
      else
        (case ask_node ans retry now i n pending budget w of
           None \<Rightarrow> None
         | Some w' \<Rightarrow> ask_nodes ans quiet retry now pending budget (Suc i) ns w'))"

definition shadow_step ::
  "(nat \<Rightarrow> string \<Rightarrow> string + string) \<Rightarrow> (int \<Rightarrow> bool) \<Rightarrow> gotime \<Rightarrow> u64 \<Rightarrow> int \<Rightarrow> shadow_table \<Rightarrow>
    (shadow_table \<times> event list) option"
where
  "shadow_step ans quiet now now_slot budget t =
     (let bs = filter (\<lambda>(_, b). \<not> past_retention (st_retain_slots t) now_slot b) (st_blocks t)
      in map_option (\<lambda>(bs', warned, evs). (t\<lparr>st_blocks := bs', st_warned := warned\<rparr>, evs))
           (ask_nodes ans quiet (st_retry_every t) now (pending_blocks bs) budget 0 (st_nodes t)
              (bs, st_warned t, [])))"

definition shadow_roots :: "shadow_table \<Rightarrow> string \<Rightarrow> (string \<times> string) list" where
  "shadow_roots t hash =
     (case map_of (st_blocks t) hash of
        None \<Rightarrow> []
      | Some b \<Rightarrow>
          map (\<lambda>(i, c). (show_int (int i + 1), sc_root c))
            (filter (\<lambda>(_, c). sc_root c \<noteq> '''') (enumerate 0 (sb_cells b))))"

section \<open>Agreement\<close>

datatype agreement_state = AgGone | AgPending | AgSplit | AgNone | AgSingle | AgAll | AgPartial

definition root_of :: "(string \<times> string) list \<Rightarrow> int \<Rightarrow> string" where
  "root_of roots i = (case map_of roots (show_int i) of Some r \<Rightarrow> r | None \<Rightarrow> '''')"

definition report_ids :: "(string \<times> string) list \<Rightarrow> int list" where
  "report_ids roots = sort (List.map_filter (\<lambda>(k, _). atoi k) roots)"

definition root_votes :: "string list \<Rightarrow> string \<Rightarrow> nat" where
  "root_votes rs r = length (filter (\<lambda>x. x = r) rs)"

text \<open>Over the roots in ascending order of their node: a tie keeps the lowest node's.\<close>

definition majority_step :: "string list \<Rightarrow> string \<Rightarrow> string \<Rightarrow> string" where
  "majority_step rs m r = (if m = '''' \<or> root_votes rs m < root_votes rs r then r else m)"

definition split_majority :: "string list \<Rightarrow> string" where
  "split_majority rs = foldl (majority_step rs) '''' rs"

definition agreement :: "(string \<times> string) list \<Rightarrow> int list \<Rightarrow> int list \<Rightarrow> bool \<Rightarrow> agreement_state \<times> int list" where
  "agreement roots holders expected orphaned =
     (if orphaned then (AgGone, [])
      else if holders = [] \<or> (roots = [] \<and> expected \<noteq> []) then (AgPending, [])
      else
        let ids = report_ids roots; rs = map (root_of roots) ids
        in if 1 < length (remdups rs) then
             (AgSplit, filter (\<lambda>i. root_of roots i \<noteq> split_majority rs) ids)
           else if expected = [] then (AgNone, [])
           else
             let reported = length (filter (\<lambda>i. map_of roots (show_int i) \<noteq> None) expected)
             in (if length expected = 1 \<and> reported = 1 then AgSingle
                 else if reported = length expected then AgAll else AgPartial, []))"

section \<open>Well-formed tables\<close>

definition sound_cell :: "int \<Rightarrow> shadow_cell \<Rightarrow> bool" where
  "sound_cell k c \<longleftrightarrow> 0 \<le> sc_asks c \<and> sc_asks c \<le> k \<and> (\<not> is_zero (sc_last_asked c) \<longrightarrow> 1 \<le> sc_asks c)"

definition sound_blocks :: "nat \<Rightarrow> (string \<Rightarrow> nat \<Rightarrow> int) \<Rightarrow> (string \<times> shadow_block) list \<Rightarrow> bool" where
  "sound_blocks n K bs \<longleftrightarrow>
     distinct (map fst bs) \<and>
     (\<forall>h b. map_of bs h = Some b \<longrightarrow> length (sb_cells b) = n \<and> (\<forall>j < n. sound_cell (K h j) (sb_cells b ! j)))"

lemma sound_cell_mono: "sound_cell k c \<Longrightarrow> k \<le> l \<Longrightarrow> sound_cell l c"
  by (auto simp: sound_cell_def)

lemma sound_blocks_mono:
  "sound_blocks n K bs \<Longrightarrow> (\<And>h j. K h j \<le> L h j) \<Longrightarrow> sound_blocks n L bs"
  unfolding sound_blocks_def by (meson sound_cell_mono)

lemma backoff_defined: "1 \<le> a \<Longrightarrow> a < 2 ^ 63 \<Longrightarrow> backoff retry a \<noteq> None"
  by (simp add: backoff_def wrap64_id Let_def)

lemma passed_over_defined:
  "sound_cell k c \<Longrightarrow> k < 2 ^ 63 \<Longrightarrow> passed_over retry now c \<noteq> None"
  using backoff_defined [of "sc_asks c" retry] by (auto simp: passed_over_def sound_cell_def)

lemma map_of_put_cell:
  "map_of (put_cell hash i c bs) h =
     (if h = hash then map_option (\<lambda>b. b\<lparr>sb_cells := (sb_cells b)[i := c]\<rparr>) (map_of bs h) else map_of bs h)"
  by (induction bs) (auto simp: put_cell_def)

lemma put_cell_keys [simp]: "map fst (put_cell hash i c bs) = map fst bs"
  by (induction bs) (auto simp: put_cell_def)

lemma cell_of_put_cell:
  "cell_of bs hash i = Some c0 \<Longrightarrow>
   cell_of (put_cell hash i c bs) h j = (if h = hash \<and> j = i then Some c else cell_of bs h j)"
  by (auto simp: cell_of_def map_of_put_cell nth_list_update split: option.splits if_splits)

text \<open>What a call puts into its cell, whatever the answer.\<close>

lemma ask_cell_put:
  "\<exists>root warned' evs'. ask_cell ans now i n hash c (bs, warned, evs) =
     (put_cell hash i (c\<lparr>sc_last_asked := now, sc_asks := wrap64 (sc_asks c + 1), sc_root := root\<rparr>) bs, warned', evs')"
  if "sc_root c = ''''"
  using that by (cases c; cases "ans i hash") (auto simp: ask_cell_def Let_def)

definition one_more :: "(string \<Rightarrow> nat \<Rightarrow> int) \<Rightarrow> string set \<Rightarrow> nat set \<Rightarrow> string \<Rightarrow> nat \<Rightarrow> int" where
  "one_more K H I h j = K h j + (if h \<in> H \<and> j \<in> I then 1 else 0)"

lemma ask_cell_sound:
  assumes "sound_blocks n K (fst w)" "cell_of (fst w) hash i = Some c" "sc_root c = ''''" "K hash i < 2 ^ 63 - 1"
  shows "sound_blocks n (one_more K {hash} {i}) (fst (ask_cell ans now i nd hash c w))"
    and "map fst (fst (ask_cell ans now i nd hash c w)) = map fst (fst w)"
proof -
  obtain bs warned evs where w: "w = (bs, warned, evs)" by (cases w) auto
  let ?c = "\<lambda>root. c\<lparr>sc_last_asked := now, sc_asks := wrap64 (sc_asks c + 1), sc_root := root\<rparr>"
  obtain root where f: "fst (ask_cell ans now i nd hash c w) = put_cell hash i (?c root) bs"
    using ask_cell_put [OF assms(3), of ans now i nd hash bs warned evs] w by auto
  obtain b where b: "map_of bs hash = Some b" "i < length (sb_cells b)" "c = sb_cells b ! i"
    using assms(2) w by (auto simp: cell_of_def split: option.splits if_splits)
  with assms(1) w have "sound_cell (K hash i) c" by (auto simp: sound_blocks_def)
  with assms(4) have c: "sound_cell (K hash i + 1) (?c root)"
    by (auto simp: sound_cell_def wrap64_id)
  have "sound_cell (one_more K {hash} {i} h j) (sb_cells x ! j)"
    if x: "map_of (put_cell hash i (?c root) bs) h = Some x" and j: "j < n" for h x j
  proof (cases "h = hash \<and> j = i")
    case True
    with x c b show ?thesis by (auto simp: map_of_put_cell one_more_def)
  next
    case False
    with x j assms(1) w show ?thesis
      by (auto simp: map_of_put_cell one_more_def sound_blocks_def split: if_splits)
  qed
  then show "sound_blocks n (one_more K {hash} {i}) (fst (ask_cell ans now i nd hash c w))"
    using assms(1) w unfolding f sound_blocks_def by (auto simp: map_of_put_cell split: if_splits)
  show "map fst (fst (ask_cell ans now i nd hash c w)) = map fst (fst w)" unfolding f by (simp add: w)
qed

lemma passed_over_root: "passed_over retry now c = Some False \<Longrightarrow> sc_root c = ''''"
  by (auto simp: passed_over_def split: if_splits)

lemma ask_node_sound:
  assumes "sound_blocks n K (fst w)" "distinct hs" "set hs \<subseteq> fst ` set (fst w)" "i < n" "\<And>h. h \<in> set hs \<Longrightarrow> K h i < 2 ^ 63 - 1"
  shows "\<exists>w'. ask_node ans retry now i nd hs left w = Some w' \<and> sound_blocks n (one_more K (set hs) {i}) (fst w') \<and>
           map fst (fst w') = map fst (fst w)"
  using assms
proof (induction hs arbitrary: K w left)
  case Nil
  then show ?case by (auto simp: one_more_def)
next
  case (Cons h hs)
  have up: "sound_blocks n (one_more K' (set hs) {i}) bs \<Longrightarrow> (\<And>h' j. one_more K' (set hs) {i} h' j \<le> one_more K (set (h # hs)) {i} h' j)
      \<Longrightarrow> sound_blocks n (one_more K (set (h # hs)) {i}) bs" for K' bs
    by (rule sound_blocks_mono)
  show ?case
  proof (cases "left \<le> 0")
    case True
    have "sound_blocks n (one_more K (set (h # hs)) {i}) (fst w)"
      using Cons.prems(1) by (rule sound_blocks_mono) (auto simp: one_more_def)
    with True show ?thesis by simp
  next
    case False
    from Cons.prems(3) obtain b where b: "map_of (fst w) h = Some b"
      by (metis (no_types, lifting) insert_subset list.simps(15) map_of_eq_None_iff not_None_eq)
    with Cons.prems(1,4) have c: "cell_of (fst w) h i = Some (sb_cells b ! i)" "sound_cell (K h i) (sb_cells b ! i)"
      by (auto simp: cell_of_def sound_blocks_def)
    let ?c = "sb_cells b ! i"
    have "passed_over retry now ?c \<noteq> None" using passed_over_defined [OF c(2)] Cons.prems(5) [of h] by auto
    then consider "passed_over retry now ?c = Some True" | "passed_over retry now ?c = Some False" by (cases "passed_over retry now ?c") auto
    then show ?thesis
    proof cases
      case 1
      with False c Cons.IH [of K w left] Cons.prems obtain w' where
        "ask_node ans retry now i nd (h # hs) left w = Some w'" "sound_blocks n (one_more K (set hs) {i}) (fst w')"
        "map fst (fst w') = map fst (fst w)" by auto
      moreover have "one_more K (set hs) {i} h' j \<le> one_more K (set (h # hs)) {i} h' j" for h' j
        by (simp add: one_more_def)
      ultimately show ?thesis using up by blast
    next
      case 2
      let ?w = "ask_cell ans now i nd h ?c w" and ?K = "one_more K {h} {i}"
      note s = ask_cell_sound [OF Cons.prems(1) c(1) passed_over_root [OF 2], of ans now nd]
      have k: "K h i < 2 ^ 63 - 1" using Cons.prems(5) by simp
      have keys: "fst ` set (fst ?w) = fst ` set (fst w)" using s(2) [OF k] by (metis list.set_map)
      have "?K h' i < 2 ^ 63 - 1" if "h' \<in> set hs" for h'
        using Cons.prems(2,5) that by (auto simp: one_more_def)
      then have "\<exists>w'. ask_node ans retry now i nd hs (left - 1) ?w = Some w' \<and> sound_blocks n (one_more ?K (set hs) {i}) (fst w') \<and>
          map fst (fst w') = map fst (fst ?w)"
        using Cons.IH [OF s(1) [OF k], of "left - 1"] Cons.prems keys by simp
      moreover have "one_more ?K (set hs) {i} h' j \<le> one_more K (set (h # hs)) {i} h' j" for h' j
        using Cons.prems(2) by (auto simp: one_more_def)
      ultimately show ?thesis using False c 2 s(2) [OF k] up by auto
    qed
  qed
qed

lemma ask_nodes_sound:
  assumes "sound_blocks n K (fst w)" "distinct hs" "set hs \<subseteq> fst ` set (fst w)" "i + length ns \<le> n"
    "\<And>h j. h \<in> set hs \<Longrightarrow> i \<le> j \<Longrightarrow> K h j < 2 ^ 63 - 1"
  shows "\<exists>w'. ask_nodes ans quiet retry now hs budget i ns w = Some w' \<and>
           sound_blocks n (one_more K (set hs) {i..<i + length ns}) (fst w') \<and> map fst (fst w') = map fst (fst w)"
  using assms
proof (induction ns arbitrary: i K w)
  case Nil
  then show ?case by (simp add: one_more_def)
next
  case (Cons nd ns)
  show ?case
  proof (cases "\<not> shn_introspects nd \<or> quiet (int i + 1)")
    case True
    obtain w' where w': "ask_nodes ans quiet retry now hs budget (Suc i) ns w = Some w'"
      "sound_blocks n (one_more K (set hs) {Suc i..<Suc i + length ns}) (fst w')" "map fst (fst w') = map fst (fst w)"
      using Cons.IH [of K w "Suc i"] Cons.prems by auto
    from w'(2) have "sound_blocks n (one_more K (set hs) {i..<i + length (nd # ns)}) (fst w')"
      by (rule sound_blocks_mono) (auto simp: one_more_def)
    with True w' show ?thesis by auto
  next
    case False
    have "i < n" using Cons.prems(4) by simp
    with ask_node_sound [OF Cons.prems(1-3), of i ans retry now nd budget] Cons.prems(5) obtain v where
      v: "ask_node ans retry now i nd hs budget w = Some v" "sound_blocks n (one_more K (set hs) {i}) (fst v)"
      "map fst (fst v) = map fst (fst w)" by blast
    then have keys: "fst ` set (fst v) = fst ` set (fst w)" by (metis list.set_map)
    let ?M = "one_more K (set hs) {i}"
    have m: "?M h j < 2 ^ 63 - 1" if "h \<in> set hs" "Suc i \<le> j" for h j
      using that Cons.prems(5) by (simp add: one_more_def)
    have "\<exists>w'. ask_nodes ans quiet retry now hs budget (Suc i) ns v = Some w' \<and>
        sound_blocks n (one_more ?M (set hs) {Suc i..<Suc i + length ns}) (fst w') \<and> map fst (fst w') = map fst (fst v)"
      by (rule Cons.IH [OF v(2) Cons.prems(2) _ _ m]) (use Cons.prems(3,4) keys in simp_all)
    then obtain w' where
      w': "ask_nodes ans quiet retry now hs budget (Suc i) ns v = Some w'"
      "sound_blocks n (one_more ?M (set hs) {Suc i..<Suc i + length ns}) (fst w')" "map fst (fst w') = map fst (fst v)"
      by blast
    from w'(2) have "sound_blocks n (one_more K (set hs) {i..<i + length (nd # ns)}) (fst w')"
      by (rule sound_blocks_mono) (auto simp: one_more_def)
    with False v(1,3) w' show ?thesis by auto
  qed
qed

lemma set_pending [simp]: "set (pending_blocks bs) = fst ` set bs"
  by (simp add: pending_blocks_def)

lemma distinct_pending: "distinct (map fst bs) \<Longrightarrow> distinct (pending_blocks bs)"
  by (simp add: pending_blocks_def distinct_map)

definition kept :: "u64 \<Rightarrow> shadow_table \<Rightarrow> (string \<times> shadow_block) list" where
  "kept now_slot t = filter (\<lambda>(_, b). \<not> past_retention (st_retain_slots t) now_slot b) (st_blocks t)"

lemma map_of_filter_distinct:
  "distinct (map fst bs) \<Longrightarrow> map_of (filter P bs) h = Some b \<longleftrightarrow> map_of bs h = Some b \<and> P (h, b)"
  by (induction bs) (auto dest: map_of_SomeD simp: rev_image_eqI)

lemma sound_blocks_filter: "sound_blocks n K bs \<Longrightarrow> sound_blocks n K (filter P bs)"
  unfolding sound_blocks_def by (auto simp: map_of_filter_distinct distinct_map_filter)

definition sound_table :: "int \<Rightarrow> shadow_table \<Rightarrow> bool" where
  "sound_table k t \<longleftrightarrow> sound_blocks (length (st_nodes t)) (\<lambda>_ _. k) (st_blocks t)"

lemma shadow_step_sound:
  assumes "sound_table k t" "k < 2 ^ 63 - 1"
  shows "\<exists>t' evs. shadow_step ans quiet now now_slot budget t = Some (t', evs) \<and> sound_table (k + 1) t' \<and>
    st_nodes t' = st_nodes t"
proof -
  have s: "sound_blocks (length (st_nodes t)) (\<lambda>_ _. k) (kept now_slot t)"
    using assms(1) unfolding sound_table_def kept_def by (rule sound_blocks_filter)
  then have d: "distinct (map fst (kept now_slot t))" by (simp add: sound_blocks_def)
  have "\<exists>w'. ask_nodes ans quiet (st_retry_every t) now (pending_blocks (kept now_slot t)) budget 0 (st_nodes t)
      (kept now_slot t, st_warned t, []) = Some w' \<and>
      sound_blocks (length (st_nodes t)) (one_more (\<lambda>_ _. k) (set (pending_blocks (kept now_slot t))) {0..<0 + length (st_nodes t)}) (fst w') \<and>
      map fst (fst w') = map fst (fst (kept now_slot t, st_warned t, [] :: event list))"
    by (rule ask_nodes_sound) (use s d distinct_pending assms(2) in auto)
  then obtain w' where w: "ask_nodes ans quiet (st_retry_every t) now (pending_blocks (kept now_slot t)) budget 0 (st_nodes t)
      (kept now_slot t, st_warned t, []) = Some w'"
    and "sound_blocks (length (st_nodes t)) (one_more (\<lambda>_ _. k) (set (pending_blocks (kept now_slot t))) {0..<0 + length (st_nodes t)}) (fst w')"
    by blast
  from this(2) have "sound_blocks (length (st_nodes t)) (\<lambda>_ _. k + 1) (fst w')"
    by (rule sound_blocks_mono) (simp add: one_more_def)
  with w show ?thesis
    by (cases w') (auto simp: shadow_step_def kept_def sound_table_def Let_def)
qed

lemma track_block_sound: "sound_table k t \<Longrightarrow> 0 \<le> k \<Longrightarrow> sound_table k (track_block hash slot t)"
  by (auto simp: sound_table_def sound_blocks_def track_block_def sound_cell_def empty_cell_def
      map_add_def map_of_eq_None_iff image_iff is_zero_def split: option.splits if_splits)

section \<open>Runs\<close>

datatype shadow_op =
    Track string u64
  | Step "nat \<Rightarrow> string \<Rightarrow> string + string" "int \<Rightarrow> bool" gotime u64 int

fun shadow_run :: "shadow_op list \<Rightarrow> shadow_table \<Rightarrow> (shadow_table \<times> event list) option" where
  "shadow_run [] t = Some (t, [])"
| "shadow_run (Track hash slot # ops) t = shadow_run ops (track_block hash slot t)"
| "shadow_run (Step ans quiet now now_slot budget # ops) t =
     (case shadow_step ans quiet now now_slot budget t of
        None \<Rightarrow> None
      | Some (t', evs) \<Rightarrow> map_option (\<lambda>(t2, evs'). (t2, evs @ evs')) (shadow_run ops t'))"

lemma shadow_run_sound:
  "sound_table k t \<Longrightarrow> 0 \<le> k \<Longrightarrow> k + int (length ops) < 2 ^ 63 \<Longrightarrow>
   \<exists>t' evs. shadow_run ops t = Some (t', evs) \<and> sound_table (k + int (length ops)) t' \<and> st_nodes t' = st_nodes t"
proof (induction ops t arbitrary: k rule: shadow_run.induct)
  case (1 t)
  then show ?case by simp
next
  case (2 hash slot ops t)
  then obtain t' evs where r: "shadow_run ops (track_block hash slot t) = Some (t', evs)"
    "sound_table (k + int (length ops)) t'" "st_nodes t' = st_nodes (track_block hash slot t)"
    using track_block_sound [of k t hash slot] by fastforce
  moreover have "sound_table (k + int (length (Track hash slot # ops))) t'"
    using r(2) unfolding sound_table_def by (rule sound_blocks_mono) simp
  moreover have "st_nodes (track_block hash slot t) = st_nodes t" by (simp add: track_block_def split: option.split)
  ultimately show ?case by simp
next
  case (3 ans quiet now now_slot budget ops t)
  then obtain t1 e1 where s: "shadow_step ans quiet now now_slot budget t = Some (t1, e1)" "sound_table (k + 1) t1"
    "st_nodes t1 = st_nodes t" using shadow_step_sound [of k t ans quiet now now_slot budget] by auto
  from "3.IH" [OF s(1) refl s(2)] "3.prems" s show ?case by (auto simp: algebra_simps)
qed

text \<open>The table never breaks: from a new one, fewer than 2^63 operations in any order and
  with any answers run to their end, no index out of range, no missing block and no negative
  backoff shift among them, and leave every block with one cell per node, asked no more often
  than there were operations, and at least once if it bears the time of an ask.\<close>

theorem shadow_table_typed:
  assumes "length ops < 2 ^ 63"
  shows "\<exists>t evs. shadow_run ops (new_shadow_table nodes retry retain) = Some (t, evs) \<and> st_nodes t = nodes \<and>
    sound_blocks (length nodes) (\<lambda>_ _. int (length ops)) (st_blocks t)"
proof -
  have "sound_table 0 (new_shadow_table nodes retry retain)"
    by (simp add: sound_table_def sound_blocks_def new_shadow_table_def)
  with shadow_run_sound [of 0 "new_shadow_table nodes retry retain" ops] assms show ?thesis
    by (auto simp: sound_table_def new_shadow_table_def)
qed

definition demo_nodes :: "shadow_node list" where
  "demo_nodes = [\<lparr>shn_name = ''el-1-geth-lighthouse'', shn_introspects = True\<rparr>,
     \<lparr>shn_name = ''el-2-erigon-prysm'', shn_introspects = True\<rparr>]"

definition demo_answers :: "nat \<Rightarrow> string \<Rightarrow> string + string" where
  "demo_answers i h = (if i = 0 then Inr ''0xr'' else Inl ''unknown block'')"

definition demo_ops :: "shadow_op list" where
  "demo_ops = [Track ''0xa'' 7, Track ''0xb'' 8, Step demo_answers (\<lambda>_. False) (5 * second) 9 2,
     Step demo_answers (\<lambda>_. False) (40 * second) 10 1]"

theorem shadow_table_typed_witness:
  "\<exists>t evs. shadow_run demo_ops (new_shadow_table demo_nodes (10 * second) 100) = Some (t, evs) \<and> st_nodes t = demo_nodes"
proof -
  have "length demo_ops < 2 ^ 63" by (simp add: demo_ops_def)
  from shadow_table_typed [OF this, of demo_nodes "10 * second" 100] show ?thesis by blast
qed

section \<open>One step's calls\<close>

lemma ask_cell_cells:
  assumes "cell_of (fst w) hash i = Some c" "sc_root c = ''''" "h \<noteq> hash \<or> j \<noteq> i"
  shows "cell_of (fst (ask_cell ans now i nd hash c w)) h j = cell_of (fst w) h j"
proof -
  obtain bs warned evs where w: "w = (bs, warned, evs)" by (cases w) auto
  with ask_cell_put [OF assms(2), of ans now i nd hash bs warned evs] assms show ?thesis
    by (auto simp: cell_of_put_cell)
qed

definition asked_cells :: "duration \<Rightarrow> gotime \<Rightarrow> nat \<Rightarrow> shadow_work \<Rightarrow> shadow_work \<Rightarrow> string set \<Rightarrow> bool" where
  "asked_cells retry now i w w' H \<longleftrightarrow>
     (\<forall>h. h \<notin> H \<longrightarrow> cell_of (fst w') h i = cell_of (fst w) h i) \<and>
     (\<forall>h \<in> H. \<exists>c. cell_of (fst w) h i = Some c \<and> passed_over retry now c = Some False)"

lemma asked_none [simp]: "asked_cells retry now i w w {}"
  by (simp add: asked_cells_def)

lemma ask_node_cells:
  assumes "ask_node ans retry now i nd hs left w = Some w'" "distinct hs"
  shows "(\<forall>h j. j \<noteq> i \<longrightarrow> cell_of (fst w') h j = cell_of (fst w) h j) \<and>
    (\<exists>H \<subseteq> set hs. card H \<le> nat left \<and> asked_cells retry now i w w' H)"
  using assms
proof (induction hs arbitrary: w left)
  case Nil
  then show ?case by (auto simp: asked_cells_def)
next
  case (Cons h hs)
  show ?case
  proof (cases "left \<le> 0")
    case True
    with Cons.prems have "w' = w" by simp
    then show ?thesis by (intro conjI exI [of _ "{}"]) simp_all
  next
    case False
    with Cons.prems(1) obtain c where c: "cell_of (fst w) h i = Some c" by (auto split: option.splits)
    with False Cons.prems(1) consider
        "passed_over retry now c = Some True" "ask_node ans retry now i nd hs left w = Some w'"
      | "passed_over retry now c = Some False"
        "ask_node ans retry now i nd hs (left - 1) (ask_cell ans now i nd h c w) = Some w'"
      by (auto split: option.splits bool.splits)
    then show ?thesis
    proof cases
      case 1
      from Cons.IH [OF 1(2)] Cons.prems(2) show ?thesis by auto
    next
      case 2
      let ?w = "ask_cell ans now i nd h c w"
      note keep = ask_cell_cells [OF c passed_over_root [OF 2(1)], where ans = ans and now = now and nd = nd]
      from Cons.IH [OF 2(2)] Cons.prems(2) obtain H where H: "H \<subseteq> set hs" "card H \<le> nat (left - 1)"
        "asked_cells retry now i ?w w' H" and j: "\<forall>h j. j \<noteq> i \<longrightarrow> cell_of (fst w') h j = cell_of (fst ?w) h j" by auto
      have "finite H" using H(1) finite_subset by blast
      with H(1,2) Cons.prems(2) False have "card (insert h H) \<le> nat left" by (auto simp: card_insert_if)
      moreover have "asked_cells retry now i w w' (insert h H)"
        using H keep c 2(1) Cons.prems(2) unfolding asked_cells_def by (metis distinct.simps(2) insert_iff subsetD)
      ultimately show ?thesis using H(1) j keep by (metis insert_mono list.simps(15))
    qed
  qed
qed

lemma ask_nodes_cells:
  assumes "ask_nodes ans quiet retry now hs budget k ns w = Some w'" "distinct hs"
  shows "\<exists>H \<subseteq> set hs. card H \<le> nat budget \<and> asked_cells retry now i w w' H \<and>
    (H \<noteq> {} \<longrightarrow> k \<le> i \<and> i < k + length ns \<and> shn_introspects (ns ! (i - k)) \<and> \<not> quiet (int i + 1))"
  using assms
proof (induction ns arbitrary: k w)
  case Nil
  then have "w' = w" by simp
  then show ?case by (intro exI [of _ "{}"]) simp
next
  case (Cons nd ns)
  show ?case
  proof (cases "\<not> shn_introspects nd \<or> quiet (int k + 1)")
    case True
    with Cons.prems have "ask_nodes ans quiet retry now hs budget (Suc k) ns w = Some w'" by simp
    from Cons.IH [OF this Cons.prems(2)] obtain H where H: "H \<subseteq> set hs" "card H \<le> nat budget" "asked_cells retry now i w w' H"
      "H \<noteq> {} \<longrightarrow> Suc k \<le> i \<and> i < Suc k + length ns \<and> shn_introspects (ns ! (i - Suc k)) \<and> \<not> quiet (int i + 1)" by blast
    then show ?thesis by (intro exI [of _ H]) (auto simp: nth_Cons')
  next
    case False
    with Cons.prems(1) obtain v where v: "ask_node ans retry now k nd hs budget w = Some v"
      "ask_nodes ans quiet retry now hs budget (Suc k) ns v = Some w'" by (auto split: option.splits)
    from ask_node_cells [OF v(1) Cons.prems(2)] obtain H1 where
      H1: "H1 \<subseteq> set hs" "card H1 \<le> nat budget" "asked_cells retry now k w v H1"
      and col: "\<And>h j. j \<noteq> k \<Longrightarrow> cell_of (fst v) h j = cell_of (fst w) h j" by blast
    from Cons.IH [OF v(2) Cons.prems(2)] obtain H where H: "H \<subseteq> set hs" "card H \<le> nat budget" "asked_cells retry now i v w' H"
      "H \<noteq> {} \<longrightarrow> Suc k \<le> i \<and> i < Suc k + length ns \<and> shn_introspects (ns ! (i - Suc k)) \<and> \<not> quiet (int i + 1)" by blast
    show ?thesis
    proof (cases "i = k")
      case True
      with H(4) have "H = {}" by auto
      with True H(3) H1(3) have "asked_cells retry now i w w' H1" by (auto simp: asked_cells_def)
      with H1 True False show ?thesis by (intro exI [of _ H1]) simp
    next
      case i: False
      with H(3) col have "asked_cells retry now i w w' H" by (auto simp: asked_cells_def)
      with H show ?thesis by (intro exI [of _ H]) (auto simp: nth_Cons')
    qed
  qed
qed

text \<open>One step asks a node for at most the budget of blocks: at most that many of its cells
  change, each of an introspecting node that is not down, unanswered before and, if it was ever
  asked, asked longer ago than its doubled wait; an answered cell never changes while its block
  is retained.\<close>

theorem shadow_step_bounded:
  assumes "sound_table k t" "shadow_step ans quiet now now_slot budget t = Some (t', evs)"
  shows "let changed = {h. cell_of (st_blocks t') h i \<noteq> cell_of (kept now_slot t) h i}
    in card changed \<le> nat budget \<and>
       (\<forall>h \<in> changed. shn_introspects (st_nodes t ! i) \<and> \<not> quiet (int i + 1) \<and>
          (\<exists>c. cell_of (kept now_slot t) h i = Some c \<and> sc_root c = '''' \<and>
             (is_zero (sc_last_asked c) \<or>
              (\<exists>d. backoff (st_retry_every t) (sc_asks c) = Some d \<and> d \<le> tsub now (sc_last_asked c)))))"
proof -
  let ?bs = "kept now_slot t" and ?C = "{h. cell_of (st_blocks t') h i \<noteq> cell_of (kept now_slot t) h i}"
  have d: "distinct (pending_blocks ?bs)"
    using assms(1) sound_blocks_filter unfolding sound_table_def kept_def
    by (metis distinct_pending sound_blocks_def)
  from assms(2) obtain w' where w: "ask_nodes ans quiet (st_retry_every t) now (pending_blocks ?bs) budget 0 (st_nodes t)
      (?bs, st_warned t, []) = Some w'" "st_blocks t' = fst w'"
    by (auto simp: shadow_step_def kept_def Let_def)
  from ask_nodes_cells [OF w(1) d, of i] obtain H where H: "H \<subseteq> set (pending_blocks ?bs)" "card H \<le> nat budget"
    "asked_cells (st_retry_every t) now i (?bs, st_warned t, []) w' H"
    "H \<noteq> {} \<longrightarrow> shn_introspects (st_nodes t ! i) \<and> \<not> quiet (int i + 1)" by auto
  have sub: "?C \<subseteq> H" using H(3) w(2) by (auto simp: asked_cells_def)
  have "finite H" using H(1) finite_subset by blast
  with sub H(2) have "card ?C \<le> nat budget" by (meson card_mono le_trans)
  moreover have "\<exists>c. cell_of ?bs h i = Some c \<and> sc_root c = '''' \<and> (is_zero (sc_last_asked c) \<or>
      (\<exists>d. backoff (st_retry_every t) (sc_asks c) = Some d \<and> d \<le> tsub now (sc_last_asked c)))" if "h \<in> H" for h
    using H(3) that unfolding asked_cells_def passed_over_def by (fastforce split: if_splits)
  ultimately show ?thesis using sub H(4) by (auto simp: Let_def)
qed

theorem shadow_step_bounded_witness:
  "\<exists>t t' evs. shadow_step demo_answers (\<lambda>_. False) (5 * second) 9 1 t = Some (t', evs) \<and> length (st_blocks t) = 2 \<and>
     card {h. cell_of (st_blocks t') h 0 \<noteq> cell_of (kept 9 t) h 0} \<le> 1"
proof -
  let ?t = "track_block ''0xb'' 8 (track_block ''0xa'' 7 (new_shadow_table demo_nodes (10 * second) 100))"
  have "sound_table 0 (new_shadow_table demo_nodes (10 * second) 100)"
    by (simp add: sound_table_def sound_blocks_def new_shadow_table_def)
  then have s: "sound_table 0 ?t" by (simp add: track_block_sound)
  then obtain t' evs where st: "shadow_step demo_answers (\<lambda>_. False) (5 * second) 9 1 ?t = Some (t', evs)"
    using shadow_step_sound [of 0 ?t demo_answers "\<lambda>_. False" "5 * second" 9 1] by auto
  from shadow_step_bounded [OF s st, of 0] have "card {h. cell_of (st_blocks t') h 0 \<noteq> cell_of (kept 9 ?t) h 0} \<le> 1"
    by (simp add: Let_def)
  moreover have "length (st_blocks ?t) = 2" by (simp add: track_block_def new_shadow_table_def)
  ultimately show ?thesis using st by blast
qed

section \<open>Warnings\<close>

definition pair_key :: "string \<times> detail \<Rightarrow> string" where
  "pair_key nd = fst nd @ ''|'' @ (case snd nd of Fmt _ [DS err] \<Rightarrow> err | _ \<Rightarrow> '''')"

definition warn_key :: "event \<Rightarrow> string" where
  "warn_key e = pair_key (ev_node e, ev_detail e)"

lemma warn_key_warning [simp]: "warn_key (shadow_warning n hash err) = shn_name n @ ''|'' @ err"
  by (simp add: warn_key_def pair_key_def shadow_warning_def mk_event_def)

text \<open>The warnings of a piece of work: new to what was warned of before, and each once.\<close>

definition fresh_warnings :: "string set \<Rightarrow> string set \<Rightarrow> event list \<Rightarrow> bool" where
  "fresh_warnings before after evs \<longleftrightarrow>
     distinct (map warn_key evs) \<and> set (map warn_key evs) \<inter> before = {} \<and>
     after = before \<union> set (map warn_key evs)"

lemma fresh_warnings_append:
  "fresh_warnings a b evs \<Longrightarrow> fresh_warnings b c evs' \<Longrightarrow> fresh_warnings a c (evs @ evs')"
  by (auto simp: fresh_warnings_def)

lemma fresh_warnings_Nil [simp]: "fresh_warnings a a []"
  by (simp add: fresh_warnings_def)

lemma work_warns_trans:
  assumes "\<exists>new. b = a @ new \<and> fresh_warnings u v new" "\<exists>new. c = b @ new \<and> fresh_warnings v w new"
  shows "\<exists>new. c = a @ new \<and> fresh_warnings u w new"
  using assms fresh_warnings_append by auto

lemma ask_cell_warns:
  "\<exists>new. snd (snd (ask_cell ans now i nd hash c w)) = snd (snd w) @ new \<and>
     fresh_warnings (fst (snd w)) (fst (snd (ask_cell ans now i nd hash c w))) new"
  by (cases w) (auto simp: ask_cell_def Let_def fresh_warnings_def split: sum.splits)

lemma ask_node_warns:
  "ask_node ans retry now i nd hs left w = Some w' \<Longrightarrow>
   \<exists>new. snd (snd w') = snd (snd w) @ new \<and> fresh_warnings (fst (snd w)) (fst (snd w')) new"
proof (induction hs arbitrary: w left)
  case (Cons h hs)
  show ?case
  proof (cases "left \<le> 0")
    case False
    with Cons.prems obtain c where c: "cell_of (fst w) h i = Some c" by (auto split: option.splits)
    with False Cons.prems consider "ask_node ans retry now i nd hs left w = Some w'"
      | "ask_node ans retry now i nd hs (left - 1) (ask_cell ans now i nd h c w) = Some w'"
      by (auto split: option.splits bool.splits)
    then show ?thesis
    proof cases
      case 2
      from ask_cell_warns [of ans now i nd h c w] Cons.IH [OF 2] show ?thesis by (rule work_warns_trans)
    qed (rule Cons.IH)
  qed (use Cons.prems in auto)
qed auto

lemma ask_nodes_warns:
  "ask_nodes ans quiet retry now hs budget k ns w = Some w' \<Longrightarrow>
   \<exists>new. snd (snd w') = snd (snd w) @ new \<and> fresh_warnings (fst (snd w)) (fst (snd w')) new"
proof (induction ns arbitrary: k w)
  case (Cons nd ns)
  show ?case
  proof (cases "\<not> shn_introspects nd \<or> quiet (int k + 1)")
    case True
    with Cons.prems have "ask_nodes ans quiet retry now hs budget (Suc k) ns w = Some w'" by simp
    then show ?thesis by (rule Cons.IH)
  next
    case False
    with Cons.prems obtain v where v: "ask_node ans retry now k nd hs budget w = Some v"
      "ask_nodes ans quiet retry now hs budget (Suc k) ns v = Some w'" by (auto split: option.splits)
    from ask_node_warns [OF v(1)] Cons.IH [OF v(2)] show ?thesis by (rule work_warns_trans)
  qed
qed auto

lemma shadow_step_warns:
  assumes "shadow_step ans quiet now now_slot budget t = Some (t', evs)"
  shows "fresh_warnings (st_warned t) (st_warned t') evs"
proof -
  from assms obtain w' where w: "ask_nodes ans quiet (st_retry_every t) now (pending_blocks (kept now_slot t)) budget 0 (st_nodes t)
      (kept now_slot t, st_warned t, []) = Some w'" "st_warned t' = fst (snd w')" "evs = snd (snd w')"
    by (auto simp: shadow_step_def kept_def Let_def)
  with ask_nodes_warns [OF w(1)] show ?thesis by simp
qed

lemma shadow_run_warns: "shadow_run ops t = Some (t', evs) \<Longrightarrow> fresh_warnings (st_warned t) (st_warned t') evs"
proof (induction ops t arbitrary: evs rule: shadow_run.induct)
  case (2 hash slot ops t)
  have "st_warned (track_block hash slot t) = st_warned t" by (simp add: track_block_def split: option.split)
  with 2 show ?case by simp
next
  case (3 ans quiet now now_slot budget ops t)
  then obtain t1 e1 e2 where "shadow_step ans quiet now now_slot budget t = Some (t1, e1)"
    "shadow_run ops t1 = Some (t', e2)" "evs = e1 @ e2" by (auto split: option.splits)
  with "3.IH" shadow_step_warns fresh_warnings_append show ?case by metis
qed simp

text \<open>Over any run of the table no two warnings are of the same node and error: an error a
  node repeats for every block is reported once.\<close>

theorem shadow_warns_once:
  assumes "shadow_run ops (new_shadow_table nodes retry retain) = Some (t, evs)"
  shows "distinct (map (\<lambda>e. (ev_node e, ev_detail e)) evs)"
proof -
  have "distinct (map warn_key evs)"
    using shadow_run_warns [OF assms] by (simp add: fresh_warnings_def)
  then have "distinct (map pair_key (map (\<lambda>e. (ev_node e, ev_detail e)) evs))"
    by (simp add: warn_key_def [abs_def] comp_def)
  then show ?thesis by (simp only: distinct_map)
qed

theorem shadow_warns_once_witness:
  "\<exists>t evs. shadow_run demo_ops (new_shadow_table demo_nodes (10 * second) 100) = Some (t, evs) \<and> evs \<noteq> [] \<and>
     distinct (map (\<lambda>e. (ev_node e, ev_detail e)) evs)"
proof -
  have "map_option (length \<circ> snd) (shadow_run demo_ops (new_shadow_table demo_nodes (10 * second) 100)) = Some 1"
    by code_simp
  then obtain t evs where r: "shadow_run demo_ops (new_shadow_table demo_nodes (10 * second) 100) = Some (t, evs)"
    "length evs = 1" by auto
  then have "evs \<noteq> []" by auto
  with r shadow_warns_once [OF r(1)] show ?thesis by blast
qed

section \<open>What an agreement says\<close>

text \<open>The root most nodes hold, the first in the list of those that tie.\<close>

definition leads :: "string list \<Rightarrow> string list \<Rightarrow> string \<Rightarrow> bool" where
  "leads rs ys m \<longleftrightarrow>
     (\<exists>as bs. ys = as @ m # bs \<and> (\<forall>r \<in> set as. root_votes rs r < root_votes rs m) \<and>
        (\<forall>r \<in> set bs. root_votes rs r \<le> root_votes rs m))"

definition first_majority :: "string list \<Rightarrow> string \<Rightarrow> bool" where
  "first_majority rs m \<longleftrightarrow> leads rs rs m"

lemma leads_last: "leads rs ys m \<Longrightarrow> root_votes rs m < root_votes rs y \<Longrightarrow> leads rs (ys @ [y]) y"
  unfolding leads_def by (intro exI [of _ ys] exI [of _ "[]"]) fastforce

lemma leads_keep: "leads rs ys m \<Longrightarrow> \<not> root_votes rs m < root_votes rs y \<Longrightarrow> leads rs (ys @ [y]) m"
  unfolding leads_def by fastforce

lemma leads_mem: "leads rs ys m \<Longrightarrow> m \<in> set ys"
  by (auto simp: leads_def)

lemma majority_prefix:
  "ys \<noteq> [] \<Longrightarrow> '''' \<notin> set ys \<Longrightarrow> leads rs ys (foldl (majority_step rs) '''' ys)"
proof (induction ys rule: rev_induct)
  case (snoc y ys)
  show ?case
  proof (cases "ys = []")
    case True
    then show ?thesis
      by (auto simp: majority_step_def leads_def intro!: exI [of _ "[]"])
  next
    case False
    let ?m = "foldl (majority_step rs) '''' ys"
    have l: "leads rs ys ?m" using snoc False by simp
    have "?m \<noteq> ''''" using leads_mem [OF l] snoc.prems(2) by auto
    then have "foldl (majority_step rs) '''' (ys @ [y]) = (if root_votes rs ?m < root_votes rs y then y else ?m)"
      by (simp add: majority_step_def)
    with leads_last [OF l] leads_keep [OF l] show ?thesis by metis
  qed
qed simp

lemma split_majority_first: "rs \<noteq> [] \<Longrightarrow> '''' \<notin> set rs \<Longrightarrow> first_majority rs (split_majority rs)"
  unfolding first_majority_def split_majority_def by (rule majority_prefix)

text \<open>The reports as \<open>roots\<close> gives them: each node's root under its decimal number.\<close>

definition as_reports :: "(int \<times> string) list \<Rightarrow> (string \<times> string) list" where
  "as_reports xs = map (\<lambda>(i, r). (show_int i, r)) xs"

definition reports_of :: "(int \<times> string) list \<Rightarrow> bool" where
  "reports_of xs \<longleftrightarrow> sorted (map fst xs) \<and> distinct (map fst xs) \<and>
     (\<forall>(i, r) \<in> set xs. 1 \<le> i \<and> i < 2 ^ 63 \<and> r \<noteq> '''')"

lemma map_of_reports: "map_of (as_reports xs) (show_int i) = map_of xs i"
  by (induction xs) (auto simp: as_reports_def show_int_inj)

lemma report_ids_as: "reports_of xs \<Longrightarrow> report_ids (as_reports xs) = map fst xs"
proof -
  assume r: "reports_of xs"
  have "List.map_filter (\<lambda>(k, _). atoi k) (as_reports ys) = map fst ys" if "set ys \<subseteq> set xs" for ys
    using that
  proof (induction ys)
    case (Cons y ys)
    obtain i x where y: "y = (i, x)" by (cases y)
    with Cons.prems r have "atoi (show_int i) = Some i" by (intro atoi_show_int) (auto simp: reports_of_def)
    with Cons y show ?case by (simp add: as_reports_def List.map_filter_simps)
  qed (simp add: as_reports_def List.map_filter_simps)
  with r show ?thesis by (simp add: report_ids_def reports_of_def sorted_sort_id)
qed

lemma reports_roots: "reports_of xs \<Longrightarrow> map (root_of (as_reports xs)) (map fst xs) = map snd xs"
  by (auto simp: root_of_def map_of_reports reports_of_def)

text \<open>The page's word for a block: gone when orphaned, pending while nobody holds it or an
  expected report is missing altogether; split exactly when two nodes report different roots,
  and then the dissenters are the nodes off the root most of them hold, on a tie the root of
  the lowest node among the tied; otherwise none without an expected reporter, single or all
  when every expected node reported, and partial when one is missing.\<close>

theorem agreement_exact:
  assumes "reports_of xs"
  shows "\<exists>m. (xs \<noteq> [] \<longrightarrow> first_majority (map snd xs) m) \<and>
    agreement (as_reports xs) holders expected orphaned =
      (if orphaned then (AgGone, [])
       else if holders = [] \<or> (xs = [] \<and> expected \<noteq> []) then (AgPending, [])
       else if \<exists>r \<in> snd ` set xs. \<exists>s \<in> snd ` set xs. r \<noteq> s then
         (AgSplit, map fst (filter (\<lambda>(_, r). r \<noteq> m) xs))
       else if expected = [] then (AgNone, [])
       else if set expected \<subseteq> fst ` set xs then (if length expected = 1 then AgSingle else AgAll, [])
       else (AgPartial, []))"
proof -
  let ?rs = "map snd xs" and ?m = "split_majority (map snd xs)"
  have ne: "'''' \<notin> set ?rs" using assms by (auto simp: reports_of_def)
  have m: "xs \<noteq> [] \<longrightarrow> first_majority ?rs ?m" using split_majority_first [of ?rs] ne by simp
  have two: "1 < length (remdups ?rs) \<longleftrightarrow> (\<exists>r \<in> snd ` set xs. \<exists>s \<in> snd ` set xs. r \<noteq> s)"
  proof -
    have "1 < length (remdups ?rs) \<longleftrightarrow> 1 < card (snd ` set xs)" by (simp add: length_remdups_card_conv)
    also have "\<dots> \<longleftrightarrow> \<not> card (snd ` set xs) \<le> Suc 0" by auto
    finally show ?thesis by (auto simp: card_le_Suc0_iff_eq)
  qed
  have dis: "filter (\<lambda>i. root_of (as_reports xs) i \<noteq> ?m) (map fst xs) = map fst (filter (\<lambda>(_, r). r \<noteq> ?m) xs)"
    using assms by (auto simp: filter_map comp_def root_of_def map_of_reports reports_of_def
        intro!: arg_cong [where f = "map fst"] filter_cong)
  have there: "map_of xs i \<noteq> None \<longleftrightarrow> i \<in> fst ` set xs" for i by (simp add: map_of_eq_None_iff)
  have all: "length (filter (\<lambda>i. map_of xs i \<noteq> None) expected) = length expected \<longleftrightarrow> set expected \<subseteq> fst ` set xs"
    unfolding there by (metis filter_True length_filter_less linorder_neq_iff subset_code(1))
  have nil: "as_reports xs = [] \<longleftrightarrow> xs = []" by (simp add: as_reports_def)
  have last: "(if length expected = 1 \<and> length (filter (\<lambda>i. map_of xs i \<noteq> None) expected) = 1 then AgSingle
      else if length (filter (\<lambda>i. map_of xs i \<noteq> None) expected) = length expected then AgAll else AgPartial, [] :: int list) =
      (if set expected \<subseteq> fst ` set xs then (if length expected = 1 then AgSingle else AgAll, []) else (AgPartial, []))"
    using all by auto
  show ?thesis
    unfolding agreement_def report_ids_as [OF assms] reports_roots [OF assms] Let_def dis two nil map_of_reports last
    by (rule exI [of _ ?m]) (rule conjI [OF m refl])
qed


theorem agreement_exact_witness:
  "agreement (as_reports [(1, ''0xa''), (3, ''0xa'')]) [1, 2, 3] [1, 2, 3] False = (AgPartial, [])"
proof -
  have "reports_of [(1, ''0xa''), (3, ''0xa'')]" by (simp add: reports_of_def)
  from agreement_exact [OF this, of "[1, 2, 3]" "[1, 2, 3]" False] show ?thesis by auto
qed

end
