(* ===== verification/PbtMonitor.thy ===== *)
theory PbtMonitor
  imports VerifyLog Disruptoor
begin

text \<open>
  The block-level monitor (\<open>cmd/pbtmonitor\<close>: \<open>engine.go\<close>, \<open>oracles.go\<close>, \<open>main.go\<close>): the reading of
  an RPC exchange, the findings and their suppression under an applied disruption, the head
  comparison, the bad-block and proof oracles, the self-test that proves the oracle, and the
  run. A call's outcome is an argument, as are the clock and the emulator's answer each time
  they are read; one look at both serves one call. Messages are rendered text, since the code
  compares them. Log lines are kept where they carry a verdict.
\<close>

section \<open>Exchanges\<close>

record go_err =
  ge_text :: string
  ge_timeout :: bool
  ge_deadline :: bool
  ge_op :: bool
  ge_dns :: bool
  ge_eof :: bool
  ge_refused :: bool
  ge_reset :: bool

definition is_unreachable :: "go_err \<Rightarrow> bool" where
  "is_unreachable e =
     (if ge_timeout e then False
      else if ge_deadline e then False
      else ge_op e \<or> ge_dns e \<or> ge_eof e \<or> ge_refused e \<or> ge_reset e)"

datatype node_error = TransportErr string | OtherErr string

fun error_text :: "node_error \<Rightarrow> string" where
  "error_text (TransportErr s) = s"
| "error_text (OtherErr s) = s"

fun is_transport_error :: "node_error \<Rightarrow> bool" where
  "is_transport_error (TransportErr _) = True"
| "is_transport_error (OtherErr _) = False"

text \<open>How an exchange ends: it could not be built, it was not carried out, the body broke off,
  the status was not 200, the envelope did not decode, the node answered an error, the result
  did not decode, or there is a result.\<close>

datatype 'a exchange =
    NotBuilt string | NotDone go_err | BodyBroke go_err | BadStatus string | BadEnvelope string
  | RpcAnswer string | BadResult string | Result 'a

definition node_call :: "string \<Rightarrow> string \<Rightarrow> 'a exchange \<Rightarrow> node_error + 'a" where
  "node_call name method x =
     (let head = name @ '' '' @ method @ '': ''; lost = (\<lambda>e. TransportErr (head @ ''unreachable: '' @ ge_text e))
      in case x of
           NotBuilt e \<Rightarrow> Inl (OtherErr e)
         | NotDone e \<Rightarrow> if is_unreachable e then Inl (lost e) else Inl (OtherErr (head @ ge_text e))
         | BodyBroke e \<Rightarrow> if is_unreachable e then Inl (lost e) else Inl (OtherErr (head @ ''read body: '' @ ge_text e))
         | BadStatus e \<Rightarrow> Inl (OtherErr (head @ ''http '' @ e))
         | BadEnvelope e \<Rightarrow> Inl (OtherErr (head @ ''decode envelope: '' @ e))
         | RpcAnswer e \<Rightarrow> Inl (OtherErr (head @ e))
         | BadResult e \<Rightarrow> Inl (OtherErr (head @ ''decode result: '' @ e))
         | Result r \<Rightarrow> Inr r)"

text \<open>\<open>WaitReady\<close>: each round's answer and whether the context has ended by then; \<open>None\<close> while it
  still waits.\<close>

fun wait_ready :: "string \<Rightarrow> (string option \<times> bool) list \<Rightarrow> string option option" where
  "wait_ready name [] = None"
| "wait_ready name ((None, _) # rounds) = Some None"
| "wait_ready name ((Some err, ended) # rounds) =
     (if ended then Some (Some (name @ '' never became ready: '' @ err)) else wait_ready name rounds)"

record mblock =
  mb_number :: u64
  mb_hash :: string
  mb_state_root :: string
  mb_time :: u64
  mb_gas_limit :: u64

fun hex_of_nat :: "nat \<Rightarrow> string" where
  "hex_of_nat n =
     (let d = n mod 16; c = (if d < 10 then char_of (48 + d) else char_of (87 + d))
      in if n < 16 then [c] else hex_of_nat (n div 16) @ [c])"

declare hex_of_nat.simps [simp del]

definition hex_tag :: "u64 \<Rightarrow> string" where
  "hex_tag n = ''0x'' @ hex_of_nat (unat n)"

definition mon_get_block :: "string \<Rightarrow> string \<Rightarrow> mblock option exchange \<Rightarrow> node_error + mblock" where
  "mon_get_block name tag x =
     (case node_call name ''eth_getBlockByNumber'' x of
        Inl e \<Rightarrow> Inl e
      | Inr None \<Rightarrow> Inl (OtherErr (name @ '' has no block '' @ tag))
      | Inr (Some b) \<Rightarrow> Inr b)"

definition mon_get_block_by_hash :: "string \<Rightarrow> string \<Rightarrow> mblock option exchange \<Rightarrow> node_error + mblock" where
  "mon_get_block_by_hash name hash x =
     (case node_call name ''eth_getBlockByHash'' x of
        Inl e \<Rightarrow> Inl e
      | Inr None \<Rightarrow> Inl (OtherErr (name @ '' does not know block '' @ hash))
      | Inr (Some b) \<Rightarrow> Inr b)"

section \<open>The monitor's state\<close>

datatype mon_log = LogInfo string | LogWarn string | LogError string

record mon =
  mo_head :: string
  mo_head_num :: u64
  mo_head_time :: u64
  mo_findings :: int
  mo_expected :: int
  mo_last_finding :: string
  mo_last_expected :: string
  mo_last_expected_at :: gotime
  mo_last_disruption :: gotime
  mo_stalled :: int
  mo_known_bad :: "nat \<Rightarrow> string set"
  mo_degraded :: "string set"

definition new_mon :: mon where
  "new_mon =
     \<lparr>mo_head = '''', mo_head_num = 0, mo_head_time = 0, mo_findings = 0, mo_expected = 0, mo_last_finding = '''',
      mo_last_expected = '''', mo_last_expected_at = zero_time, mo_last_disruption = zero_time, mo_stalled = 0,
      mo_known_bad = (\<lambda>_. {}), mo_degraded = {}\<rparr>"

definition mon_degrade :: "string \<Rightarrow> string \<Rightarrow> string \<Rightarrow> mon \<Rightarrow> mon \<times> mon_log list" where
  "mon_degrade node method err m =
     (let key = node @ ''/'' @ method
      in if key \<in> mo_degraded m then (m, [])
         else (m\<lparr>mo_degraded := insert key (mo_degraded m)\<rparr>,
               [LogWarn (''ORACLE DEGRADED '' @ node @ '' '' @ method @ '': '' @ err)]))"

section \<open>Findings\<close>

abbreviation "explainedTail \<equiv> 300 * second"
abbreviation "disruptionTail \<equiv> 18 * second"
abbreviation "stalledTicks \<equiv> (10 :: int)"

text \<open>The emulator's answer (none without one configured) and the clock, as one call finds them.\<close>

type_synonym look = "(string + nat \<times> nat) option \<times> gotime"

text \<open>What is applied, in words; empty when the network is whole or the emulator did not answer.\<close>

definition mon_disrupted :: "look \<Rightarrow> mon \<Rightarrow> string \<times> mon \<times> mon_log list" where
  "mon_disrupted look m =
     (case fst look of
        None \<Rightarrow> ('''', m, [])
      | Some (Inl err) \<Rightarrow> (case mon_degrade ''disruptoor'' ''state'' err m of (m', lg) \<Rightarrow> ('''', m', lg))
      | Some (Inr (partitions, shaping)) \<Rightarrow>
          ((if 0 < partitions \<and> 0 < shaping then
              show_nat partitions @ '' partition(s) and '' @ show_nat shaping @ '' shaping rule(s) are applied''
            else if 0 < partitions then show_nat partitions @ '' partition(s) are applied''
            else if 0 < shaping then show_nat shaping @ '' shaping rule(s) are applied''
            else ''''), m, []))"

definition note_disruption :: "look \<Rightarrow> mon \<Rightarrow> string \<times> mon \<times> mon_log list" where
  "note_disruption look m =
     (case mon_disrupted look m of
        (why, m', lg) \<Rightarrow> (why, if why \<noteq> '''' then m'\<lparr>mo_last_disruption := snd look\<rparr> else m', lg))"

definition disrupted_recently :: "look \<Rightarrow> mon \<Rightarrow> string \<times> mon \<times> mon_log list" where
  "disrupted_recently look m =
     (case note_disruption look m of
        (why, m', lg) \<Rightarrow>
          (if why \<noteq> '''' then why
           else if \<not> is_zero (mo_last_disruption m') \<and> tsub (snd look) (mo_last_disruption m') < disruptionTail
             then ''a disruption cleared moments ago and fork choice is still settling''
           else '''', m', lg))"

definition mon_finding :: "look \<Rightarrow> string \<Rightarrow> mon \<Rightarrow> mon \<times> mon_log list" where
  "mon_finding look msg m0 =
     (case disrupted_recently look m0 of
        (why, m, lg) \<Rightarrow>
          if why \<noteq> '''' then
            let m1 = m\<lparr>mo_expected := mo_expected m + 1\<rparr>
            in if mo_last_expected m1 \<noteq> msg then
                 (m1\<lparr>mo_last_expected := msg, mo_last_expected_at := snd look\<rparr>,
                  lg @ [LogWarn (''divergence while '' @ why @ '', expected, not a finding: '' @ msg)])
               else (m1, lg)
          else if msg = mo_last_expected m \<and> tsub (snd look) (mo_last_expected_at m) < explainedTail then
            (m\<lparr>mo_expected := mo_expected m + 1\<rparr>, lg)
          else
            let m1 = m\<lparr>mo_findings := mo_findings m + 1\<rparr>
            in if mo_last_finding m1 = msg then (m1, lg)
               else (m1\<lparr>mo_last_finding := msg\<rparr>, lg @ [LogError (''FINDING: '' @ msg)]))"

section \<open>Evidence\<close>

record bad_block =
  bb_hash :: string
  bb_rlp :: string
  bb_block :: string

text \<open>The artifact directory: whether a write of the named file succeeds.\<close>

definition save_artifact :: "(string \<Rightarrow> bool) \<Rightarrow> string \<Rightarrow> string \<Rightarrow> bool" where
  "save_artifact disk name blob \<longleftrightarrow> blob \<noteq> '''' \<and> disk name"

definition bad_block_artifacts :: "string \<Rightarrow> bad_block \<Rightarrow> (string \<times> string) list" where
  "bad_block_artifacts name bb =
     (let stem = ''badblock-'' @ name @ ''-'' @ take 10 (bb_hash bb)
      in [(stem @ ''.rlp'', bb_rlp bb), (stem @ ''.json'', bb_block bb)])"

text \<open>What one node leaves: its bad blocks, if it serves them, and its head, if it answers and
  encodes.\<close>

definition node_evidence ::
  "(mblock \<Rightarrow> string option) \<Rightarrow> string \<Rightarrow> bad_block list exchange \<Rightarrow> mblock option exchange \<Rightarrow> (string \<times> string) list"
where
  "node_evidence encode name bad hdx =
     (case node_call name ''debug_getBadBlocks'' bad of
        Inl _ \<Rightarrow> []
      | Inr bbs \<Rightarrow> concat (map (bad_block_artifacts name) bbs)) @
     (case mon_get_block name ''latest'' hdx of
        Inl _ \<Rightarrow> []
      | Inr b \<Rightarrow>
          (case encode b of
             None \<Rightarrow> []
           | Some blob \<Rightarrow> [(''head-'' @ name @ ''-'' @ show_nat (unat (mb_number b)) @ ''.json'', blob)]))"

record capture_world =
  ca_disk :: "string \<Rightarrow> bool"
  ca_encode :: "mblock \<Rightarrow> string option"
  ca_bad :: "nat \<Rightarrow> bad_block list exchange"
  ca_latest :: "nat \<Rightarrow> mblock option exchange"

definition capture_divergence :: "capture_world \<Rightarrow> string list \<Rightarrow> string option" where
  "capture_divergence w els =
     (let offered = concat (map (\<lambda>(i, n). node_evidence (ca_encode w) n (ca_bad w i) (ca_latest w i)) (enumerate 0 els))
      in if filter (\<lambda>(f, blob). save_artifact (ca_disk w) f blob) offered = [] then
           Some (''captured no evidence from any of '' @ show_nat (length els) @ '' node(s)'')
         else None)"

section \<open>The head comparison\<close>

text \<open>The nodes in order; the first that fails ends the round.\<close>

fun gather :: "(nat \<Rightarrow> node_error + 'a) \<Rightarrow> nat \<Rightarrow> string list \<Rightarrow> node_error + 'a list" where
  "gather ans i [] = Inr []"
| "gather ans i (_ # ns) =
     (case ans i of
        Inl e \<Rightarrow> Inl e
      | Inr b \<Rightarrow> (case gather ans (Suc i) ns of Inl e \<Rightarrow> Inl e | Inr bs \<Rightarrow> Inr (b # bs)))"

definition lowest_of :: "mblock list \<Rightarrow> u64" where
  "lowest_of bs = foldl (\<lambda>lo b. if mb_number b < lo then mb_number b else lo) (- 1) bs"

record heads_world =
  hw_latest :: "nat \<Rightarrow> mblock option exchange"
  hw_at :: "nat \<Rightarrow> u64 \<Rightarrow> mblock option exchange"
  hw_capture :: capture_world
  hw_look :: look

definition latest_heads :: "heads_world \<Rightarrow> string list \<Rightarrow> node_error + mblock list" where
  "latest_heads w els = gather (\<lambda>i. mon_get_block (els ! i) ''latest'' (hw_latest w i)) 0 els"

definition heads_at :: "heads_world \<Rightarrow> string list \<Rightarrow> u64 \<Rightarrow> node_error + mblock list" where
  "heads_at w els n = gather (\<lambda>i. mon_get_block (els ! i) (hex_tag n) (hw_at w i n)) 0 els"

definition disagreement_text :: "u64 \<Rightarrow> string \<times> mblock \<Rightarrow> string \<times> mblock \<Rightarrow> string" where
  "disagreement_text lowest a b =
     ''clients disagree at block '' @ show_nat (unat lowest) @ '': '' @ fst a @ ''='' @ mb_hash (snd a) @ '' (root '' @
     mb_state_root (snd a) @ '') '' @ fst b @ ''='' @ mb_hash (snd b) @ '' (root '' @ mb_state_root (snd b) @ '')''"

definition first_dissenter :: "string list \<Rightarrow> mblock list \<Rightarrow> (string \<times> mblock) option" where
  "first_dissenter els bs = List.find (\<lambda>(_, b). mb_hash b \<noteq> mb_hash (bs ! 0)) (tl (zip els bs))"

text \<open>With every client at one hash: the chain advanced, stood still, or is behind what was seen.\<close>

definition advance_head :: "u64 \<Rightarrow> mblock \<Rightarrow> mon \<Rightarrow> mon \<times> mon_log list" where
  "advance_head lowest b m =
     (if mo_head_num m < lowest then
        (m\<lparr>mo_head_num := lowest, mo_head := mb_hash b, mo_stalled := 0\<rparr>,
         [LogInfo (''chain '' @ show_nat (unat lowest) @ '' '' @ mb_hash b)])
      else if lowest = mo_head_num m then
        let s = mo_stalled m + 1
        in (m\<lparr>mo_stalled := s\<rparr>, if s = stalledTicks then [LogWarn ''chain has not advanced''] else [])
      else (m\<lparr>mo_stalled := 0\<rparr>, []))"

definition compare_heads :: "heads_world \<Rightarrow> string list \<Rightarrow> mon \<Rightarrow> mon \<times> mon_log list \<times> node_error option" where
  "compare_heads w els m =
     (case latest_heads w els of
        Inl e \<Rightarrow> (m, [], Some e)
      | Inr heads \<Rightarrow>
          let lowest = lowest_of heads
          in if lowest = 0 then (m, [], None)
             else
               (case heads_at w els lowest of
                  Inl e \<Rightarrow> (m, [], Some e)
                | Inr bs \<Rightarrow>
                    (case first_dissenter els bs of
                       Some d \<Rightarrow>
                         (case mon_finding (hw_look w) (disagreement_text lowest (els ! 0, bs ! 0) d) m of
                            (m', lg) \<Rightarrow>
                              (m', lg @ (case capture_divergence (hw_capture w) els of
                                           Some e \<Rightarrow> [LogWarn (''evidence capture failed: '' @ e)] | None \<Rightarrow> []), None))
                     | None \<Rightarrow> (case advance_head lowest (bs ! 0) m of (m', lg) \<Rightarrow> (m', lg, None)))))"

section \<open>The bad-block oracle\<close>

fun assert_no_bad_blocks ::
  "(nat \<Rightarrow> bad_block list exchange) \<Rightarrow> nat \<Rightarrow> string list \<Rightarrow> mon \<Rightarrow> mon \<times> mon_log list \<times> string option"
where
  "assert_no_bad_blocks bad i [] m = (m, [], None)"
| "assert_no_bad_blocks bad i (n # ns) m =
     (case node_call n ''debug_getBadBlocks'' (bad i) of
        Inl e \<Rightarrow>
          (case mon_degrade n ''debug_getBadBlocks'' (error_text e) m of
             (m1, lg) \<Rightarrow>
               (case assert_no_bad_blocks bad (Suc i) ns m1 of (m2, lg2, r) \<Rightarrow> (m2, lg @ lg2, r)))
      | Inr bbs \<Rightarrow>
          (case filter (\<lambda>b. bb_hash b \<notin> mo_known_bad m i) bbs of
             [] \<Rightarrow> assert_no_bad_blocks bad (Suc i) ns m
           | b # bs \<Rightarrow>
               (m\<lparr>mo_known_bad := (mo_known_bad m)(i := mo_known_bad m i \<union> bb_hash ` set (b # bs))\<rparr>, [],
                Some (n @ '' rejected '' @ show_nat (length (b # bs)) @ '' new block(s) this run, first '' @ bb_hash b))))"

fun baseline_from :: "(nat \<Rightarrow> bad_block list exchange) \<Rightarrow> nat \<Rightarrow> string list \<Rightarrow> mon \<Rightarrow> mon \<times> mon_log list" where
  "baseline_from bad i [] m = (m, [])"
| "baseline_from bad i (n # ns) m =
     (case node_call n ''debug_getBadBlocks'' (bad i) of
        Inl e \<Rightarrow>
          (case mon_degrade n ''debug_getBadBlocks (baseline)'' (error_text e) m of
             (m1, lg) \<Rightarrow> (case baseline_from bad (Suc i) ns m1 of (m2, lg2) \<Rightarrow> (m2, lg @ lg2)))
      | Inr bbs \<Rightarrow>
          (case baseline_from bad (Suc i) ns
                  (m\<lparr>mo_known_bad := (mo_known_bad m)(i := bb_hash ` set bbs)\<rparr>) of
             (m2, lg2) \<Rightarrow>
               (m2, (if bbs \<noteq> [] then [LogInfo (''baselined blocks this node already rejected: '' @ n)] else []) @ lg2)))"

definition baseline_bad_blocks :: "(nat \<Rightarrow> bad_block list exchange) \<Rightarrow> string list \<Rightarrow> mon \<Rightarrow> mon \<times> mon_log list" where
  "baseline_bad_blocks bad els m = baseline_from bad 0 els (m\<lparr>mo_known_bad := \<lambda>_. {}\<rparr>)"

section \<open>The proof oracle\<close>

definition zeroSlot :: string where
  "zeroSlot = ''0x'' @ replicate 64 (CHR ''0'')"

definition system_targets :: "string list" where
  "system_targets = [''0x000F3df6D732807Ef1319fB7B8bB8522d0Beac02'', ''0x0000F90827F1C53a10cb7A02335B175320002935'']"

text \<open>The addresses of one transaction, then of the block's, until a transaction leaves twelve
  targets or more.\<close>

definition take_address :: "string set \<times> string list \<Rightarrow> string \<Rightarrow> string set \<times> string list" where
  "take_address st a =
     (if a = '''' \<or> a \<in> fst st \<or> length a \<noteq> 42 then st else (insert a (fst st), snd st @ [a]))"

fun tx_targets :: "(string \<times> string) list \<Rightarrow> string set \<times> string list \<Rightarrow> string set \<times> string list" where
  "tx_targets [] st = st"
| "tx_targets ((src, dst) # txs) st =
     (let st' = take_address (take_address st src) dst
      in if 12 \<le> length (snd st') then st' else tx_targets txs st')"

text \<open>Then the contracts the block created, until there are twenty.\<close>

fun receipt_targets :: "string list \<Rightarrow> string set \<times> string list \<Rightarrow> string set \<times> string list" where
  "receipt_targets [] st = st"
| "receipt_targets (a # as) st =
     (if a = '''' \<or> a \<in> fst st then receipt_targets as st
      else let st' = (insert a (fst st), snd st @ [a])
           in if 20 \<le> length (snd st') then st' else receipt_targets as st')"

definition proof_targets :: "string \<Rightarrow> (string \<times> string) list exchange \<Rightarrow> string list exchange \<Rightarrow> string list" where
  "proof_targets name head_txs receipts =
     (case node_call name ''eth_getBlockByNumber'' head_txs of
        Inl _ \<Rightarrow> system_targets
      | Inr txs \<Rightarrow>
          let st = tx_targets txs ({}, system_targets)
          in (case node_call name ''eth_getBlockReceipts'' receipts of
                Inl _ \<Rightarrow> snd st
              | Inr rs \<Rightarrow> snd (receipt_targets rs st)))"

text \<open>\<open>canon\<close>: a JSON text decoded and written again, the library's normal form.\<close>

definition json_equal :: "(string \<Rightarrow> string option) \<Rightarrow> string \<Rightarrow> string \<Rightarrow> bool" where
  "json_equal canon a b = (case (canon a, canon b) of (Some x, Some y) \<Rightarrow> x = y | _ \<Rightarrow> False)"

text \<open>The proofs of one target in the nodes' order, until a node fails.\<close>

fun gather_proofs :: "(nat \<Rightarrow> string exchange) \<Rightarrow> nat \<Rightarrow> string list \<Rightarrow> (string \<times> string) + string list" where
  "gather_proofs ans i [] = Inr []"
| "gather_proofs ans i (n # ns) =
     (case node_call n ''eth_getProof'' (ans i) of
        Inl e \<Rightarrow> Inl (n, error_text e)
      | Inr p \<Rightarrow> (case gather_proofs ans (Suc i) ns of Inl e \<Rightarrow> Inl e | Inr ps \<Rightarrow> Inr (p # ps)))"

fun probe_targets ::
  "(string \<Rightarrow> string option) \<Rightarrow> (string \<Rightarrow> nat \<Rightarrow> string exchange) \<Rightarrow> string list \<Rightarrow> string list \<Rightarrow> mon \<Rightarrow>
    mon \<times> mon_log list \<times> string list"
where
  "probe_targets canon ans els [] m = (m, [], [])"
| "probe_targets canon ans els (t # ts) m =
     (case gather_proofs (ans t) 0 els of
        Inl (n, err) \<Rightarrow>
          (case mon_degrade n ''eth_getProof'' err m of
             (m1, lg) \<Rightarrow> (case probe_targets canon ans els ts m1 of (m2, lg2, ps) \<Rightarrow> (m2, lg @ lg2, ps)))
      | Inr proofs \<Rightarrow>
          (case probe_targets canon ans els ts m of
             (m2, lg2, ps) \<Rightarrow>
               (m2, lg2,
                map (\<lambda>(n, _). ''eth_getProof for '' @ t @ '' differs between '' @ els ! 0 @ '' and '' @ n)
                  (filter (\<lambda>(_, p). \<not> json_equal canon (proofs ! 0) p) (tl (zip els proofs))) @ ps)))"

record probe_world =
  pw_txs :: "(string \<times> string) list exchange"
  pw_receipts :: "string list exchange"
  pw_proof :: "string \<Rightarrow> nat \<Rightarrow> string exchange"
  pw_canon :: "string \<Rightarrow> string option"

definition mon_probe :: "probe_world \<Rightarrow> string list \<Rightarrow> mon \<Rightarrow> mon \<times> mon_log list \<times> string option" where
  "mon_probe w els m =
     (case probe_targets (pw_canon w) (pw_proof w) els (proof_targets (els ! 0) (pw_txs w) (pw_receipts w)) m of
        (m', lg, ps) \<Rightarrow> (m', lg, if ps = [] then None else Some (joined_with '' | '' ps)))"

section \<open>Following the chain\<close>

text \<open>One poll: what the emulator and the nodes answer in it.\<close>

record tick_world =
  tw_note :: look
  tw_heads :: heads_world
  tw_heads_look :: look
  tw_bad :: "nat \<Rightarrow> bad_block list exchange"
  tw_bad_look :: look
  tw_probe :: probe_world
  tw_probe_look :: look

text \<open>A failed comparison is an outage or a finding; any other end of it clears the attribution.\<close>

definition judge_heads :: "look \<Rightarrow> mon \<times> mon_log list \<times> node_error option \<Rightarrow> mon \<times> mon_log list" where
  "judge_heads look res =
     (case res of
        (m, lg, Some (TransportErr e)) \<Rightarrow> (m, lg @ [LogWarn (''node unreachable: '' @ e)])
      | (m, lg, Some (OtherErr e)) \<Rightarrow>
          (case mon_finding look (''head comparison: '' @ e) m of (m', lg') \<Rightarrow> (m', lg @ lg'))
      | (m, lg, None) \<Rightarrow> (m\<lparr>mo_last_expected := ''''\<rparr>, lg))"

text \<open>Neither oracle's error is a transport error: both are built from text.\<close>

definition judge_oracle :: "string \<Rightarrow> look \<Rightarrow> mon \<times> mon_log list \<times> string option \<Rightarrow> mon \<times> mon_log list" where
  "judge_oracle head look res =
     (case res of
        (m, lg, None) \<Rightarrow> (m, lg)
      | (m, lg, Some e) \<Rightarrow> (case mon_finding look (head @ e) m of (m', lg') \<Rightarrow> (m', lg @ lg')))"

definition follow_heads :: "tick_world \<Rightarrow> string list \<Rightarrow> mon \<Rightarrow> mon \<times> mon_log list" where
  "follow_heads w els m =
     (case note_disruption (tw_note w) m of
        (_, m1, lg1) \<Rightarrow>
          (case judge_heads (tw_heads_look w) (compare_heads (tw_heads w) els m1) of
             (m2, lg2) \<Rightarrow> (m2, lg1 @ lg2)))"

definition follow_oracles :: "tick_world \<Rightarrow> string list \<Rightarrow> mon \<Rightarrow> mon \<times> mon_log list" where
  "follow_oracles w els m =
     (case judge_oracle '''' (tw_bad_look w) (assert_no_bad_blocks (tw_bad w) 0 els m) of
        (m1, lg1) \<Rightarrow>
          (case judge_oracle ''probe: '' (tw_probe_look w) (mon_probe (tw_probe w) els m1) of
             (m2, lg2) \<Rightarrow> (m2, lg1 @ lg2)))"

definition follow_tick :: "int \<Rightarrow> string list \<Rightarrow> int \<Rightarrow> tick_world \<Rightarrow> mon \<Rightarrow> mon \<times> mon_log list" where
  "follow_tick probe_every els ticks w m =
     (case follow_heads w els m of
        (m1, lg1) \<Rightarrow>
          if 0 < probe_every \<and> ticks mod probe_every = 0 then
            (case follow_oracles w els m1 of (m2, lg2) \<Rightarrow> (m2, lg1 @ lg2))
          else (m1, lg1))"

fun follow_loop :: "int \<Rightarrow> string list \<Rightarrow> int \<Rightarrow> tick_world list \<Rightarrow> mon \<Rightarrow> mon \<times> mon_log list" where
  "follow_loop probe_every els ticks [] m = (m, [])"
| "follow_loop probe_every els ticks (w # ws) m =
     (case follow_tick probe_every els (ticks + 1) w m of
        (m1, lg1) \<Rightarrow> (case follow_loop probe_every els (ticks + 1) ws m1 of (m2, lg2) \<Rightarrow> (m2, lg1 @ lg2)))"

definition mon_summarise :: "mon \<Rightarrow> string option" where
  "mon_summarise m = (if 0 < mo_findings m then Some (show_int (mo_findings m) @ '' findings'') else None)"

section \<open>Preflight\<close>

definition emptyMPTRoot :: string where
  "emptyMPTRoot = ''0x56e81f171bcc55a6ff8345e692c0f86e5b48e01b996cadc001622fb5e363b421''"

record preflight_world =
  fw_ready :: "nat \<Rightarrow> (string option \<times> bool) list"
  fw_chain_id :: "nat \<Rightarrow> string exchange"
  fw_genesis :: "nat \<Rightarrow> mblock option exchange"
  fw_latest :: "nat \<Rightarrow> mblock option exchange"
  fw_bad :: "nat \<Rightarrow> bad_block list exchange"

text \<open>\<open>None\<close>: a node is still waited for; otherwise the error of the first that never came up.\<close>

fun wait_all :: "(nat \<Rightarrow> (string option \<times> bool) list) \<Rightarrow> nat \<Rightarrow> string list \<Rightarrow> string option option" where
  "wait_all ready i [] = Some None"
| "wait_all ready i (n # ns) =
     (case wait_ready n (ready i) of
        None \<Rightarrow> None
      | Some (Some err) \<Rightarrow> Some (Some err)
      | Some None \<Rightarrow> wait_all ready (Suc i) ns)"

text \<open>The first node whose identity differs from the first node's.\<close>

fun identity_mismatch :: "string \<times> string \<times> mblock \<Rightarrow> (string \<times> string \<times> mblock) list \<Rightarrow> string option" where
  "identity_mismatch (n0, c0, g0) [] = None"
| "identity_mismatch (n0, c0, g0) ((n, c, g) # rest) =
     (if c \<noteq> c0 then Some (''chain id mismatch: '' @ n0 @ ''='' @ c0 @ '' '' @ n @ ''='' @ c)
      else if mb_hash g \<noteq> mb_hash g0 then
        Some (''genesis mismatch: '' @ n0 @ ''='' @ mb_hash g0 @ '' '' @ n @ ''='' @ mb_hash g @ '': the nodes are not on one chain'')
      else identity_mismatch (n0, c0, g0) rest)"

text \<open>The chain id of a node, then its genesis block, node by node.\<close>

definition node_identity :: "preflight_world \<Rightarrow> string list \<Rightarrow> nat \<Rightarrow> node_error + string \<times> mblock" where
  "node_identity w els i =
     (case node_call (els ! i) ''eth_chainId'' (fw_chain_id w i) of
        Inl e \<Rightarrow> Inl e
      | Inr c \<Rightarrow>
          (case mon_get_block (els ! i) ''0x0'' (fw_genesis w i) of Inl e \<Rightarrow> Inl e | Inr g \<Rightarrow> Inr (c, g)))"

definition genesis_problem :: "string option \<Rightarrow> mblock \<Rightarrow> string option" where
  "genesis_problem expected g =
     (if mb_state_root g = emptyMPTRoot then
        Some ''genesis state root is the empty MPT root: genesis has no alloc, or binaryTrieTime is not scheduled''
      else
        (case expected of
           Some rt \<Rightarrow>
             if mb_state_root g \<noteq> rt then
               Some (''genesis state root is '' @ mb_state_root g @ '', expected '' @ rt)
             else None
         | None \<Rightarrow> None))"

text \<open>\<open>Inl None\<close>: a node is still waited for. At least two nodes are configured.\<close>

definition mon_preflight ::
  "string option \<Rightarrow> preflight_world \<Rightarrow> string list \<Rightarrow> mon \<Rightarrow> string option + mon \<times> mon_log list"
where
  "mon_preflight expected w els m =
     (case wait_all (fw_ready w) 0 els of
        None \<Rightarrow> Inl None
      | Some (Some err) \<Rightarrow> Inl (Some err)
      | Some None \<Rightarrow>
          (case gather (node_identity w els) 0 els of
             Inl e \<Rightarrow> Inl (Some (error_text e))
           | Inr ids \<Rightarrow>
               (case identity_mismatch (els ! 0, ids ! 0) (tl (zip els ids)) of
                  Some err \<Rightarrow> Inl (Some err)
                | None \<Rightarrow>
                    (case genesis_problem expected (snd (ids ! 0)) of
                       Some err \<Rightarrow> Inl (Some err)
                     | None \<Rightarrow>
                         (case gather (\<lambda>i. mon_get_block (els ! i) ''latest'' (fw_latest w i)) 0 els of
                            Inl e \<Rightarrow> Inl (Some (error_text e))
                          | Inr heads \<Rightarrow>
                              (case List.find (\<lambda>(_, b). mb_hash b \<noteq> mb_hash (heads ! 0)) (tl (zip els heads)) of
                                 Some (n, b) \<Rightarrow>
                                   Inl (Some (''nodes start on different heads: '' @ els ! 0 @ ''='' @ mb_hash (heads ! 0) @
                                              '' '' @ n @ ''='' @ mb_hash b))
                               | None \<Rightarrow>
                                   Inr (baseline_bad_blocks (fw_bad w) els
                                          (m\<lparr>mo_head := mb_hash (heads ! 0), mo_head_num := mb_number (heads ! 0),
                                             mo_head_time := mb_time (heads ! 0)\<rparr>))))))))"

section \<open>The self-test\<close>

unbundle bit_operations_syntax

text \<open>\<open>slotRandao\<close>, as bytes.\<close>

definition slot_randao :: "u64 \<Rightarrow> 8 word list" where
  "slot_randao slot = (replicate 32 0)[0 := ucast slot, 1 := ucast (drop_bit 8 slot), 31 := 0xa1]"

record payload_attrs =
  pt_timestamp :: u64
  pt_random :: "8 word list"
  pt_fee_recipient :: string
  pt_slot :: u64
  pt_gas_limit :: u64

definition payload_attributes :: "u64 \<Rightarrow> u64 \<Rightarrow> string \<Rightarrow> mblock \<Rightarrow> payload_attrs" where
  "payload_attributes slot timestamp fee parent =
     \<lparr>pt_timestamp = timestamp, pt_random = slot_randao slot, pt_fee_recipient = fee, pt_slot = slot,
      pt_gas_limit = mb_gas_limit parent\<rparr>"

datatype payload_status = Valid | Invalid | Syncing | Accepted

text \<open>What the builder answers: the parent's lookup; to a forkchoice update with these attributes
  a status, its error and a payload id; whether the wait ended before the context did; the
  payload, if any, as its state root and whether it has a block access list.\<close>

record build_world =
  bw_parent :: "string \<Rightarrow> mblock option exchange"
  bw_fcu :: "payload_attrs \<Rightarrow> (payload_status \<times> string option \<times> string option) exchange"
  bw_interrupted :: "string option"
  bw_payload :: "string \<Rightarrow> (8 word list \<times> bool) option exchange"

definition deref :: "string option \<Rightarrow> string" where
  "deref s = (case s of None \<Rightarrow> ''<none>'' | Some x \<Rightarrow> x)"

definition build_payload ::
  "build_world \<Rightarrow> u64 \<Rightarrow> string \<Rightarrow> string \<Rightarrow> u64 \<Rightarrow> string \<Rightarrow> string + 8 word list"
where
  "build_payload w slot name parent timestamp fee =
     (case mon_get_block_by_hash name parent (bw_parent w parent) of
        Inl e \<Rightarrow> Inl (error_text e)
      | Inr p \<Rightarrow>
          (case node_call name ''engine_forkchoiceUpdatedV4'' (bw_fcu w (payload_attributes slot timestamp fee p)) of
             Inl e \<Rightarrow> Inl (''forkchoiceUpdatedV4: '' @ error_text e)
           | Inr (status, verr, payload_id) \<Rightarrow>
               if status \<noteq> Valid then Inl (''forkchoiceUpdatedV4 on '' @ name @ '': err='' @ deref verr)
               else
                 (case payload_id of
                    None \<Rightarrow> Inl ''forkchoiceUpdatedV4 returned no payload id''
                  | Some pid \<Rightarrow>
                      (case bw_interrupted w of
                         Some err \<Rightarrow> Inl err
                       | None \<Rightarrow>
                           (case node_call name ''engine_getPayloadV6'' (bw_payload w pid) of
                              Inl e \<Rightarrow> Inl (''getPayloadV6: '' @ error_text e)
                            | Inr None \<Rightarrow> Inl ''getPayloadV6 returned no payload''
                            | Inr (Some (rt, has_bal)) \<Rightarrow>
                                if has_bal then Inr rt
                                else Inl ''payload carries no block access list (EIP-7928)'')))))"

text \<open>One byte of the root flipped in at least its lowest bit, at a random place.\<close>

definition corrupt_root :: "8 word \<Rightarrow> 8 word \<Rightarrow> 8 word list \<Rightarrow> 8 word list" where
  "corrupt_root place flip rt =
     (let i = unat place mod length rt in rt[i := rt ! i XOR (flip OR 1)])"

text \<open>The first poll that shows a block beyond genesis, unless the deadline or the context ends
  the wait; \<open>None\<close> while it goes on. A poll: the head, whether the five minutes are over, and
  the context's error if it ended in the pause.\<close>

fun await_first_block ::
  "string \<Rightarrow> (mblock option exchange \<times> bool \<times> string option) list \<Rightarrow> mon \<Rightarrow> (string + mon) option"
where
  "await_first_block name [] m = None"
| "await_first_block name ((x, late, ended) # polls) m =
     (let go = (if late then Some (Inl ''no block was produced within 5m; are the consensus clients running?'')
                else (case ended of Some err \<Rightarrow> Some (Inl err) | None \<Rightarrow> await_first_block name polls m))
      in case mon_get_block name ''latest'' x of
           Inr b \<Rightarrow>
             if 0 < mb_number b then
               Some (Inr (m\<lparr>mo_head := mb_hash b, mo_head_num := mb_number b, mo_head_time := mb_time b\<rparr>))
             else go
         | Inl _ \<Rightarrow> go)"

text \<open>Every node but the builder has to answer \<open>INVALID\<close>.\<close>

fun refused_by_all :: "(nat \<Rightarrow> (payload_status \<times> string option) exchange) \<Rightarrow> nat \<Rightarrow> string list \<Rightarrow> string option" where
  "refused_by_all ans i [] = None"
| "refused_by_all ans i (n # ns) =
     (case node_call n ''engine_newPayloadV5'' (ans i) of
        Inl e \<Rightarrow> Some (''self-test inconclusive: '' @ n @ '' did not answer engine_newPayloadV5: '' @ error_text e)
      | Inr (status, _) \<Rightarrow>
          if status = Invalid then refused_by_all ans (Suc i) ns
          else Some (''SELF-TEST FAILED: '' @ n @ '' did not refuse a payload whose state root was corrupted''))"

record self_test_world =
  sf_polls :: "(mblock option exchange \<times> bool \<times> string option) list"
  sf_build :: build_world
  sf_random :: "string + 8 word \<times> 8 word"
  sf_rebuild :: "8 word list \<Rightarrow> string option"
  sf_status :: "8 word list \<Rightarrow> nat \<Rightarrow> (payload_status \<times> string option) exchange"
  sf_capture :: capture_world

text \<open>\<open>sf_rebuild\<close>: the library's error in building the corrupted block, if any; \<open>sf_status\<close>: what
  node \<open>i\<close> answers to the payload with that root. \<open>None\<close>: no block yet.\<close>

definition self_test ::
  "self_test_world \<Rightarrow> string \<Rightarrow> string list \<Rightarrow> mon \<Rightarrow> (string option \<times> mon) option"
where
  "self_test w fee els m =
     (case await_first_block (els ! 0) (sf_polls w) m of
        None \<Rightarrow> None
      | Some (Inl err) \<Rightarrow> Some (Some err, m)
      | Some (Inr m1) \<Rightarrow>
          Some
            ((case build_payload (sf_build w) 1 (els ! 0) (mo_head m1) (mo_head_time m1 + 12) fee of
                Inl err \<Rightarrow> Some (''self-test could not build a payload: '' @ err)
              | Inr rt \<Rightarrow>
                  (case sf_random w of
                     Inl err \<Rightarrow> Some (''self-test: '' @ err)
                   | Inr (place, flip) \<Rightarrow>
                       let bad = corrupt_root place flip rt
                       in (case sf_rebuild w bad of
                             Some err \<Rightarrow> Some (''self-test could not rebuild the corrupted block: '' @ err)
                           | None \<Rightarrow>
                               (case refused_by_all (sf_status w bad) 1 (tl els) of
                                  Some err \<Rightarrow> Some err
                                | None \<Rightarrow> map_option (\<lambda>e. ''self-test: evidence capture failed: '' @ e)
                                            (capture_divergence (sf_capture w) els))))), m1))"

definition prove_oracle ::
  "self_test_world \<Rightarrow> (nat \<Rightarrow> bad_block list exchange) \<Rightarrow> string \<Rightarrow> string list \<Rightarrow> mon \<Rightarrow>
    (string + mon \<times> mon_log list) option"
where
  "prove_oracle w bad fee els m =
     (case self_test w fee els m of
        None \<Rightarrow> None
      | Some (Some err, _) \<Rightarrow> Some (Inl err)
      | Some (None, m1) \<Rightarrow>
          if mo_findings m < mo_findings m1 then
            Some (Inl (''self-test found '' @ show_int (mo_findings m1 - mo_findings m) @
                       '' real divergence(s) on a chain that should be healthy''))
          else Some (Inr (baseline_bad_blocks bad els m1)))"

section \<open>The run\<close>

record mon_config =
  mc_verify_oracle :: bool
  mc_probe_every :: int
  mc_fee_recipient :: string
  mc_expected_root :: "string option"

definition mon_run ::
  "mon_config \<Rightarrow> preflight_world \<Rightarrow> self_test_world \<Rightarrow> (nat \<Rightarrow> bad_block list exchange) \<Rightarrow> tick_world list \<Rightarrow>
    string list \<Rightarrow> (string option \<times> mon \<times> mon_log list) option"
where
  "mon_run cfg pre st bad ticks els =
     (case mon_preflight (mc_expected_root cfg) pre els new_mon of
        Inl None \<Rightarrow> None
      | Inl (Some err) \<Rightarrow> Some (Some err, new_mon, [])
      | Inr (m, lg) \<Rightarrow>
          (case (if mc_verify_oracle cfg then prove_oracle st bad (mc_fee_recipient cfg) els m else Some (Inr (m, []))) of
             None \<Rightarrow> None
           | Some (Inl err) \<Rightarrow> Some (Some err, m, lg)
           | Some (Inr (m1, lg1)) \<Rightarrow>
               (case follow_loop (mc_probe_every cfg) els 0 ticks m1 of
                  (m2, lg2) \<Rightarrow> Some (mon_summarise m2, m2, lg @ lg1 @ lg2))))"

text \<open>The flag of one client: \<open>name=engineURL,rpcURL\<close>.\<close>

definition mon_el_flag :: "string \<Rightarrow> string + string \<times> string \<times> string" where
  "mon_el_flag v =
     (let bad = Inl (''want name=engineURL,rpcURL, got '' @ v)
      in case cut_at (CHR ''='') v of
           None \<Rightarrow> bad
         | Some (name, urls) \<Rightarrow>
             (case cut_at (CHR '','') urls of None \<Rightarrow> bad | Some (engine, rpc) \<Rightarrow> Inr (name, engine, rpc)))"

end
