(* ===== verification/PbtFollow.thy ===== *)
theory PbtFollow
  imports PbtMonitor
begin

text \<open>
  What the block-level monitor's verdicts mean: when a divergence is put down to a disruption and
  for how long, what the head comparison reports, that a bad block is reported once, and what
  the self-test proves.
\<close>

section \<open>When a divergence is not a finding\<close>

definition held :: "look \<Rightarrow> bool" where
  "held look \<longleftrightarrow> (\<exists>p s. fst look = Some (Inr (p, s)) \<and> (0 < p \<or> 0 < s))"

definition seen :: "look \<Rightarrow> gotime set" where
  "seen look = (if held look then {snd look} else {})"

text \<open>What the state remembers of disruptions rests on times at which one was seen applied.\<close>

definition attributed :: "gotime set \<Rightarrow> mon \<Rightarrow> bool" where
  "attributed S m \<longleftrightarrow>
     (\<not> is_zero (mo_last_disruption m) \<longrightarrow> mo_last_disruption m \<in> S) \<and>
     (mo_last_expected m \<noteq> '''' \<longrightarrow> (\<exists>s \<in> S. tsub (mo_last_expected_at m) s < disruptionTail))"

lemma attributed_mono: "attributed S m \<Longrightarrow> S \<subseteq> T \<Longrightarrow> attributed T m"
  by (auto simp: attributed_def)

lemma degrade_keeps:
  "mon_degrade n f e m = (m', lg) \<Longrightarrow>
   m' = m\<lparr>mo_degraded := mo_degraded m'\<rparr>"
  by (auto simp: mon_degrade_def Let_def split: if_splits)

lemma degrade_fields:
  assumes "mon_degrade n f e m = (m', lg)"
  shows "mo_findings m' = mo_findings m" "mo_expected m' = mo_expected m" "mo_last_expected m' = mo_last_expected m"
    "mo_last_expected_at m' = mo_last_expected_at m" "mo_last_disruption m' = mo_last_disruption m"
    "mo_known_bad m' = mo_known_bad m" "attributed S m' = attributed S m"
  by (subst degrade_keeps [OF assms], simp add: attributed_def)+

lemma disrupted_spec:
  assumes "mon_disrupted look m = (why, m', lg)"
  shows "why \<noteq> '''' \<longleftrightarrow> held look" "mo_findings m' = mo_findings m" "mo_expected m' = mo_expected m"
    "mo_last_expected m' = mo_last_expected m" "mo_last_expected_at m' = mo_last_expected_at m"
    "mo_last_disruption m' = mo_last_disruption m" "mo_known_bad m' = mo_known_bad m"
  using assms degrade_fields
  by (auto simp: mon_disrupted_def held_def split: option.splits sum.splits prod.splits if_splits)

lemma note_spec:
  assumes "note_disruption look m = (why, m', lg)"
  shows "why \<noteq> '''' \<longleftrightarrow> held look" "mo_findings m' = mo_findings m" "mo_expected m' = mo_expected m"
    "mo_last_expected m' = mo_last_expected m" "mo_last_expected_at m' = mo_last_expected_at m"
    "mo_last_disruption m' = (if held look then snd look else mo_last_disruption m)" "mo_known_bad m' = mo_known_bad m"
proof -
  obtain why1 m1 lg1 where d: "mon_disrupted look m = (why1, m1, lg1)" by (cases "mon_disrupted look m") auto
  note s = disrupted_spec [OF d]
  show "why \<noteq> '''' \<longleftrightarrow> held look" "mo_findings m' = mo_findings m" "mo_expected m' = mo_expected m"
    "mo_last_expected m' = mo_last_expected m" "mo_last_expected_at m' = mo_last_expected_at m"
    "mo_last_disruption m' = (if held look then snd look else mo_last_disruption m)" "mo_known_bad m' = mo_known_bad m"
    using assms s by (auto simp: note_disruption_def d)
qed

lemma note_attributed:
  assumes "note_disruption look m = (why, m', lg)" "attributed S m"
  shows "attributed (S \<union> seen look) m'"
  using note_spec [OF assms(1)] assms(2) by (auto simp: attributed_def seen_def)

definition settleTail :: duration where
  [go_defs]: "settleTail = explainedTail + disruptionTail"

lemma tails:
  assumes "tsub t u < explainedTail" "tsub u s < disruptionTail"
  shows "t - s < settleTail"
proof -
  have "t - u < explainedTail" "u - s < disruptionTail"
    using assms tsub_less [of explainedTail t u] tsub_less [of disruptionTail u s]
    by (simp_all add: max_duration_def min_duration_def second_def)
  then show ?thesis by (simp add: settleTail_def)
qed

lemma tail_short: "tsub t s < disruptionTail \<Longrightarrow> t - s < settleTail"
  using tails [of t t s] by (simp add: second_def)

text \<open>One divergence: counted once, and as expected only on the evidence of a disruption.\<close>

definition counted :: "look \<Rightarrow> gotime set \<Rightarrow> mon \<Rightarrow> mon \<Rightarrow> bool" where
  "counted look S m m' \<longleftrightarrow>
     mo_findings m' + mo_expected m' = mo_findings m + mo_expected m + 1 \<and>
     (mo_expected m' = mo_expected m + 1 \<and> (\<exists>s \<in> S. snd look - s < settleTail) \<or> mo_expected m' = mo_expected m)"

lemma finding_spec:
  assumes "mon_finding look msg m = (m', lg)" "attributed S m" "msg \<noteq> ''''"
  shows "attributed (S \<union> seen look) m' \<and> counted look (S \<union> seen look) m m' \<and> mo_known_bad m' = mo_known_bad m"
proof -
  let ?S = "S \<union> seen look"
  obtain why1 m1 lg1 where n: "note_disruption look m = (why1, m1, lg1)" by (cases "note_disruption look m") auto
  note s = note_spec [OF n]
  have a: "attributed ?S m1" using n assms(2) by (rule note_attributed)
  let ?recent = "\<not> is_zero (mo_last_disruption m1) \<and> tsub (snd look) (mo_last_disruption m1) < disruptionTail"
  have self: "held look \<Longrightarrow> snd look \<in> ?S" by (simp add: seen_def)
  have recent: "\<exists>s \<in> ?S. tsub (snd look) s < disruptionTail" if "why1 \<noteq> '''' \<or> ?recent"
    using that a self s(1) by (auto simp: attributed_def second_def intro: bexI [of _ "snd look"])
  obtain why lg2 where r: "disrupted_recently look m = (why, m1, lg2)" and why: "why \<noteq> '''' \<longleftrightarrow> why1 \<noteq> '''' \<or> ?recent"
    using n by (auto simp: disrupted_recently_def)
  show ?thesis
  proof (cases "why = ''''")
    case False
    with why recent obtain t where t: "t \<in> ?S" "tsub (snd look) t < disruptionTail" by blast
    from assms(1) False r have "m' = m1\<lparr>mo_expected := mo_expected m1 + 1\<rparr> \<or>
        m' = m1\<lparr>mo_expected := mo_expected m1 + 1, mo_last_expected := msg, mo_last_expected_at := snd look\<rparr>"
      by (auto simp: mon_finding_def Let_def split: if_splits)
    then show ?thesis
      using a s(2,3,7) t tail_short [OF t(2)] by (auto simp: counted_def attributed_def)
  next
    case True
    show ?thesis
    proof (cases "msg = mo_last_expected m1 \<and> tsub (snd look) (mo_last_expected_at m1) < explainedTail")
      case tail: True
      with a assms(3) obtain t where t: "t \<in> ?S" "tsub (mo_last_expected_at m1) t < disruptionTail"
        by (auto simp: attributed_def)
      from assms(1) True tail r have "m' = m1\<lparr>mo_expected := mo_expected m1 + 1\<rparr>"
        by (auto simp: mon_finding_def)
      then show ?thesis
        using a s(2,3,7) t(1) tails [OF conjunct2 [OF tail] t(2)] by (auto simp: counted_def attributed_def)
    next
      case False
      with assms(1) True r have "m' = m1\<lparr>mo_findings := mo_findings m1 + 1\<rparr> \<or>
          m' = m1\<lparr>mo_findings := mo_findings m1 + 1, mo_last_finding := msg\<rparr>"
        unfolding mon_finding_def r prod.case Let_def by (auto split: if_splits)
      then show ?thesis using a s(2,3,7) by (auto simp: counted_def attributed_def)
    qed
  qed
qed

section \<open>Rounds of answers\<close>

lemma gather_Inr:
  "gather ans i els = Inr bs \<longleftrightarrow> length bs = length els \<and> (\<forall>j < length els. ans (i + j) = Inr (bs ! j))"
proof (induction els arbitrary: i bs)
  case (Cons n ns)
  show ?case
  proof (cases "ans i")
    case (Inr b)
    have "gather ans i (n # ns) = Inr bs \<longleftrightarrow> (\<exists>cs. bs = b # cs \<and> gather ans (Suc i) ns = Inr cs)"
      using Inr by (auto split: sum.split)
    also have "\<dots> \<longleftrightarrow> (\<exists>cs. bs = b # cs \<and> length cs = length ns \<and> (\<forall>j < length ns. ans (Suc i + j) = Inr (cs ! j)))"
      using Cons.IH by simp
    also have "\<dots> \<longleftrightarrow> length bs = length (n # ns) \<and> (\<forall>j < length (n # ns). ans (i + j) = Inr (bs ! j))"
      using Inr by (cases bs) (auto simp: All_less_Suc2 nth_Cons')
    finally show ?thesis .
  qed (auto intro!: exI [of _ "0::nat"])
qed auto

text \<open>A round read back from the list it filled.\<close>

lemma ex_less_cong: "(\<And>i. i < (n :: nat) \<Longrightarrow> P i \<longleftrightarrow> Q i) \<Longrightarrow> (\<exists>i < n. P i) \<longleftrightarrow> (\<exists>i < n. Q i)"
  by blast

lemma round_ex:
  assumes "length bs = length els" "\<forall>i < length els. f i = Inr (bs ! i)"
  shows "(\<exists>i < length els. \<exists>b. f i = Inr b \<and> P b) \<longleftrightarrow> (\<exists>b \<in> set bs. P b)"
proof -
  have "(\<exists>b. f i = Inr b \<and> P b) \<longleftrightarrow> P (bs ! i)" if "i < length els" for i using assms(2) that by simp
  then have "(\<exists>i < length els. \<exists>b. f i = Inr b \<and> P b) \<longleftrightarrow> (\<exists>i < length els. P (bs ! i))" by (rule ex_less_cong)
  also have "\<dots> \<longleftrightarrow> (\<exists>b \<in> set bs. P b)" using assms(1) by (metis in_set_conv_nth)
  finally show ?thesis .
qed

lemma round_all:
  assumes "length bs = length els" "\<forall>i < length els. f i = Inr (bs ! i)"
  shows "(\<forall>i < length els. \<exists>b. f i = Inr b \<and> P b) \<longleftrightarrow> (\<forall>b \<in> set bs. P b)"
proof -
  have "(\<exists>b. f i = Inr b \<and> P b) \<longleftrightarrow> P (bs ! i)" if "i < length els" for i using assms(2) that by simp
  then have "(\<forall>i < length els. \<exists>b. f i = Inr b \<and> P b) \<longleftrightarrow> (\<forall>i < length els. P (bs ! i))" by simp
  also have "\<dots> \<longleftrightarrow> (\<forall>b \<in> set bs. P b)" using assms(1) by (metis in_set_conv_nth)
  finally show ?thesis .
qed

lemma gather_answers: "(\<exists>bs. gather ans i els = Inr bs) \<longleftrightarrow> (\<forall>j < length els. \<exists>b. ans (i + j) = Inr b)"
proof
  assume "\<forall>j < length els. \<exists>b. ans (i + j) = Inr b"
  then obtain f where "\<forall>j < length els. ans (i + j) = Inr (f j)" by metis
  then have "gather ans i els = Inr (map f [0..<length els])" by (simp add: gather_Inr)
  then show "\<exists>bs. gather ans i els = Inr bs" ..
qed (auto simp: gather_Inr)

lemma lowest_from:
  "foldl (\<lambda>lo b. if mb_number b < lo then mb_number b else lo) k bs = Min (insert k (mb_number ` set bs))"
proof (induction bs arbitrary: k)
  case (Cons b bs)
  have "finite (mb_number ` set bs)" by simp
  from Min_running [OF this, of k "mb_number b"] Cons show ?case by simp
qed simp

lemma lowest_of_Min: "bs \<noteq> [] \<Longrightarrow> lowest_of bs = Min (mb_number ` set bs)"
proof -
  assume ne: "bs \<noteq> []"
  have "lowest_of bs = min (- 1) (Min (mb_number ` set bs))"
    using ne by (simp add: lowest_of_def lowest_from)
  then show ?thesis by (simp add: min_def word_order.extremum_unique)
qed

section \<open>What the head comparison reports\<close>

definition head_of :: "heads_world \<Rightarrow> string list \<Rightarrow> nat \<Rightarrow> node_error + mblock" where
  "head_of w els i = mon_get_block (els ! i) ''latest'' (hw_latest w i)"

definition block_of :: "heads_world \<Rightarrow> string list \<Rightarrow> u64 \<Rightarrow> nat \<Rightarrow> node_error + mblock" where
  "block_of w els n i = mon_get_block (els ! i) (hex_tag n) (hw_at w i n)"

text \<open>The height the clients are compared at: all answered, and the lowest head is beyond genesis.\<close>

definition common_height :: "heads_world \<Rightarrow> string list \<Rightarrow> u64 \<Rightarrow> bool" where
  "common_height w els n \<longleftrightarrow>
     (\<forall>i < length els. \<exists>b. head_of w els i = Inr b \<and> n \<le> mb_number b) \<and>
     (\<exists>i < length els. \<exists>b. head_of w els i = Inr b \<and> mb_number b = n) \<and> n \<noteq> 0"

definition divided_at :: "heads_world \<Rightarrow> string list \<Rightarrow> u64 \<Rightarrow> bool" where
  "divided_at w els n \<longleftrightarrow>
     (\<forall>i < length els. \<exists>b. block_of w els n i = Inr b) \<and>
     (\<exists>i < length els. \<exists>j < length els. \<exists>b c. block_of w els n i = Inr b \<and> block_of w els n j = Inr c \<and> mb_hash b \<noteq> mb_hash c)"

definition divergences :: "mon \<Rightarrow> int" where
  "divergences m = mo_findings m + mo_expected m"

lemma latest_heads_common:
  assumes "latest_heads w els = Inr heads" "els \<noteq> []"
  shows "common_height w els n \<longleftrightarrow> n = lowest_of heads \<and> n \<noteq> 0"
proof -
  from assms(1) have h: "length heads = length els" "\<forall>i < length els. head_of w els i = Inr (heads ! i)"
    by (simp_all add: latest_heads_def gather_Inr head_of_def)
  with assms(2) have ne: "heads \<noteq> []" by auto
  have "common_height w els n \<longleftrightarrow> (\<forall>b \<in> set heads. n \<le> mb_number b) \<and> (\<exists>b \<in> set heads. mb_number b = n) \<and> n \<noteq> 0"
    unfolding common_height_def round_all [OF h] round_ex [OF h] ..
  also have "\<dots> \<longleftrightarrow> n = Min (mb_number ` set heads) \<and> n \<noteq> 0"
    using ne by (auto simp: eq_Min_iff [of "mb_number ` set heads" n])
  finally show ?thesis using lowest_of_Min [OF ne] by simp
qed

lemma first_dissenter_Some:
  assumes "length bs = length els" "els \<noteq> []"
  shows "first_dissenter els bs \<noteq> None \<longleftrightarrow> (\<exists>b \<in> set bs. \<exists>c \<in> set bs. mb_hash b \<noteq> mb_hash c)"
proof -
  obtain b bs' n ns where s: "bs = b # bs'" "els = n # ns" "length bs' = length ns"
    using assms by (cases bs; cases els) auto
  have "first_dissenter els bs \<noteq> None \<longleftrightarrow> (\<exists>p \<in> set (zip ns bs'). mb_hash (snd p) \<noteq> mb_hash b)"
    unfolding first_dissenter_def s find_None_iff by (simp add: split_beta Bex_def)
  also have "\<dots> \<longleftrightarrow> (\<exists>c \<in> snd ` set (zip ns bs'). mb_hash c \<noteq> mb_hash b)" by auto
  also have "snd ` set (zip ns bs') = set bs'" using s(3) by (metis map_snd_zip list.set_map)
  finally show ?thesis by (auto simp: s)
qed

lemma heads_at_divided:
  assumes "heads_at w els n = Inr bs" "els \<noteq> []"
  shows "divided_at w els n \<longleftrightarrow> first_dissenter els bs \<noteq> None"
proof -
  from assms(1) have h: "length bs = length els" "\<forall>i < length els. block_of w els n i = Inr (bs ! i)"
    by (simp_all add: heads_at_def gather_Inr block_of_def)
  have "divided_at w els n \<longleftrightarrow> (\<exists>i < length els. \<exists>b. block_of w els n i = Inr b \<and>
      (\<exists>j < length els. \<exists>c. block_of w els n j = Inr c \<and> mb_hash b \<noteq> mb_hash c))"
    unfolding divided_at_def using h(2) by blast
  then have "divided_at w els n \<longleftrightarrow> (\<exists>b \<in> set bs. \<exists>c \<in> set bs. mb_hash b \<noteq> mb_hash c)"
    unfolding round_ex [OF h] .
  with first_dissenter_Some [OF h(1) assms(2)] show ?thesis by simp
qed

lemma heads_at_answers: "(\<exists>bs. heads_at w els n = Inr bs) \<longleftrightarrow> (\<forall>i < length els. \<exists>b. block_of w els n i = Inr b)"
  by (simp add: heads_at_def gather_answers block_of_def)

lemma latest_heads_answers: "(\<exists>bs. latest_heads w els = Inr bs) \<longleftrightarrow> (\<forall>i < length els. \<exists>b. head_of w els i = Inr b)"
  by (simp add: latest_heads_def gather_answers head_of_def)


lemma finding_head [simp]:
  assumes "mon_finding look msg m = (m', lg)"
  shows "mo_head_num m' = mo_head_num m \<and> mo_stalled m' = mo_stalled m"
  using assms
  by (auto simp: mon_finding_def disrupted_recently_def note_disruption_def mon_disrupted_def mon_degrade_def Let_def
      split: option.splits sum.splits prod.splits if_splits)

lemma disagreement_text_ne [simp]: "disagreement_text n a b \<noteq> ''''"
  by (simp add: disagreement_text_def)

text \<open>The three ends of a comparison.\<close>

lemma compare_heads_cases:
  assumes "compare_heads w els m = (m', lg, r)" "els \<noteq> []"
  obtains (failed) e where "r = Some e" "m' = m" "\<not> (\<exists>n. common_height w els n \<and> divided_at w els n)"
      "\<not> (\<exists>n. common_height w els n \<and> (\<forall>i < length els. \<exists>b. block_of w els n i = Inr b))"
    | (nothing) "r = None" "m' = m" "\<not> (\<exists>n. common_height w els n)"
    | (divided) n d lg' where "common_height w els n" "divided_at w els n" "r = None"
      "mon_finding (hw_look w) d m = (m', lg')" "d \<noteq> ''''"
    | (agreed) n b where "common_height w els n" "\<not> divided_at w els n" "r = None" "block_of w els n 0 = Inr b"
      "\<forall>i < length els. \<exists>b. block_of w els n i = Inr b" "m' = fst (advance_head n b m)"
proof (cases "latest_heads w els")
  case (Inl e)
  then have "\<not> (\<forall>i < length els. \<exists>b. head_of w els i = Inr b)"
    using latest_heads_answers [of w els] by auto
  then have "\<not> (\<exists>n. common_height w els n)" unfolding common_height_def by blast
  with assms(1) Inl failed show thesis by (auto simp: compare_heads_def)
next
  case (Inr heads)
  note common = latest_heads_common [OF Inr assms(2)]
  show thesis
  proof (cases "lowest_of heads = 0")
    case True
    then have "compare_heads w els m = (m, [], None)" by (simp add: compare_heads_def Inr)
    with assms(1) have "r = None" "m' = m" by simp_all
    moreover have "\<not> (\<exists>n. common_height w els n)" using common True by simp
    ultimately show thesis by (rule nothing)
  next
    case low: False
    let ?n = "lowest_of heads"
    show thesis
    proof (cases "heads_at w els ?n")
      case (Inl e)
      then have n: "\<not> (\<forall>i < length els. \<exists>b. block_of w els ?n i = Inr b)"
        using heads_at_answers [of w els ?n] by auto
      then have "\<not> divided_at w els ?n" unfolding divided_at_def by blast
      moreover have "compare_heads w els m = (m, [], Some e)" by (simp add: compare_heads_def Inr low Inl Let_def)
      with assms(1) have "r = Some e" "m' = m" by simp_all
      ultimately show thesis using n common low by (intro failed [of e]) auto
    next
      case b: (Inr bs)
      have bl: "length bs = length els" "\<forall>i < length els. block_of w els ?n i = Inr (bs ! i)"
        using b by (simp_all add: heads_at_def gather_Inr block_of_def)
      then have all: "\<forall>i < length els. \<exists>b. block_of w els ?n i = Inr b" by simp
      show thesis
      proof (cases "first_dissenter els bs")
        case None
        with b assms(2) have "\<not> divided_at w els ?n" by (simp add: heads_at_divided)
        with assms Inr low b None common bl all agreed [of ?n "bs ! 0"] show thesis
          by (auto simp: compare_heads_def Let_def split: prod.splits)
      next
        case (Some d)
        with b assms(2) have "divided_at w els ?n" by (simp add: heads_at_divided)
        with assms(1) Inr low b Some common divided [of ?n "disagreement_text ?n (els ! 0, bs ! 0) d"] show thesis
          by (auto simp: compare_heads_def Let_def split: prod.splits)
      qed
    qed
  qed
qed

lemma counted_divergences: "counted look S m m' \<Longrightarrow> divergences m' = divergences m + 1"
  by (simp add: counted_def divergences_def)

lemma advance_head_up:
  "mo_head_num m < n \<Longrightarrow> fst (advance_head n b m) = m\<lparr>mo_head_num := n, mo_head := mb_hash b, mo_stalled := 0\<rparr>"
  by (simp only: advance_head_def if_True fst_conv)

lemma advance_head_same: "fst (advance_head (mo_head_num m) b m) = m\<lparr>mo_stalled := mo_stalled m + 1\<rparr>"
  by (simp only: advance_head_def less_irrefl if_False refl if_True Let_def simp_thms fst_conv)

lemma advance_head_down:
  assumes "n < mo_head_num m"
  shows "fst (advance_head n b m) = m\<lparr>mo_stalled := 0\<rparr>"
proof -
  have "(mo_head_num m < n) = False" "(n = mo_head_num m) = False" using assms by auto
  then show ?thesis by (simp only: advance_head_def if_False fst_conv)
qed

lemma advance_head_fields:
  "divergences (fst (advance_head n b m)) = divergences m"
  "mo_head_num (fst (advance_head n b m)) = max (mo_head_num m) n"
  "mo_expected (fst (advance_head n b m)) = mo_expected m"
  "mo_known_bad (fst (advance_head n b m)) = mo_known_bad m"
  "attributed S (fst (advance_head n b m)) = attributed S m"
proof -
  consider "mo_head_num m < n" | "n = mo_head_num m" | "n < mo_head_num m" by force
  then have "divergences (fst (advance_head n b m)) = divergences m \<and> mo_head_num (fst (advance_head n b m)) = max (mo_head_num m) n \<and>
      mo_expected (fst (advance_head n b m)) = mo_expected m \<and> mo_known_bad (fst (advance_head n b m)) = mo_known_bad m \<and>
      mo_last_disruption (fst (advance_head n b m)) = mo_last_disruption m \<and>
      mo_last_expected (fst (advance_head n b m)) = mo_last_expected m \<and>
      mo_last_expected_at (fst (advance_head n b m)) = mo_last_expected_at m"
  proof cases
    case 2
    have "fst (advance_head n b m) = m\<lparr>mo_stalled := mo_stalled m + 1\<rparr>" unfolding 2 by (rule advance_head_same)
    with 2 show ?thesis by (simp add: divergences_def)
  qed (simp_all add: advance_head_up advance_head_down divergences_def)
  then show "divergences (fst (advance_head n b m)) = divergences m"
    "mo_head_num (fst (advance_head n b m)) = max (mo_head_num m) n"
    "mo_expected (fst (advance_head n b m)) = mo_expected m"
    "mo_known_bad (fst (advance_head n b m)) = mo_known_bad m"
    "attributed S (fst (advance_head n b m)) = attributed S m"
    by (simp_all add: attributed_def)
qed

lemma attributed_any: "\<exists>S. attributed S m"
proof
  have "tsub (mo_last_expected_at m) (mo_last_expected_at m) < disruptionTail" by (simp add: second_def)
  then show "attributed UNIV m" unfolding attributed_def by blast
qed

text \<open>The head comparison raises one divergence exactly when every client answered its head
  and the block at the lowest of them, beyond genesis, and two of those blocks differ in hash;
  only a round in which all agree moves the monitor's own head, to that height and never back.\<close>

theorem compare_heads_exact:
  assumes "els \<noteq> []" "compare_heads w els m = (m', lg, r)"
  shows "divergences m' = divergences m + (if \<exists>n. common_height w els n \<and> divided_at w els n then 1 else 0) \<and>
    (\<forall>n. common_height w els n \<and> r = None \<longrightarrow>
       mo_head_num m' = (if divided_at w els n then mo_head_num m else max (mo_head_num m) n)) \<and>
    mo_head_num m \<le> mo_head_num m'"
proof -
  have one: "n = k" if "common_height w els n" "common_height w els k" for n k
    using that by (auto simp: common_height_def) (metis Inr_inject order_antisym)
  from assms(2,1) show ?thesis
  proof (cases rule: compare_heads_cases)
    case (failed e)
    then show ?thesis by (simp add: divergences_def)
  next
    case nothing
    then show ?thesis by (auto simp: divergences_def)
  next
    case (divided n d lg')
    obtain S where "attributed S m" using attributed_any by blast
    from finding_spec [OF divided(4) this divided(5)] have "divergences m' = divergences m + 1"
      by (blast intro: counted_divergences)
    moreover have "mo_head_num m' = mo_head_num m" using finding_head [OF divided(4)] by simp
    moreover have "\<forall>k. common_height w els k \<longrightarrow> divided_at w els k" using divided(1,2) one by blast
    ultimately show ?thesis using divided(1,2) by auto
  next
    case (agreed n b)
    have "\<not> (\<exists>k. common_height w els k \<and> divided_at w els k)" "\<forall>k. common_height w els k \<longrightarrow> k = n"
      using agreed(1,2) one by blast+
    with agreed(6) show ?thesis by (auto simp: advance_head_fields)
  qed
qed

section \<open>How long a divergence may be put down to a disruption\<close>

definition tick_looks :: "tick_world \<Rightarrow> look set" where
  "tick_looks w = {tw_note w, hw_look (tw_heads w), tw_heads_look w, tw_bad_look w, tw_probe_look w}"

definition seen_in :: "look set \<Rightarrow> gotime set" where
  "seen_in L = (\<Union>l \<in> L. seen l)"

text \<open>A piece of the run whose calls looked at \<open>L\<close>, after disruptions seen at the times \<open>S\<close>.\<close>

definition accounted :: "gotime set \<Rightarrow> look set \<Rightarrow> mon \<Rightarrow> mon \<Rightarrow> bool" where
  "accounted S L m m' \<longleftrightarrow>
     (attributed S m \<longrightarrow>
        attributed (S \<union> seen_in L) m' \<and> mo_expected m \<le> mo_expected m' \<and>
        (mo_expected m < mo_expected m' \<longrightarrow> (\<exists>l \<in> L. \<exists>s \<in> S \<union> seen_in L. snd l - s < settleTail)))"

lemma accounted_trans:
  assumes "accounted S L m m1" "accounted (S \<union> seen_in L) K m1 m2"
  shows "accounted S (L \<union> K) m m2"
proof -
  have u: "S \<union> seen_in (L \<union> K) = S \<union> seen_in L \<union> seen_in K" by (auto simp: seen_in_def)
  show ?thesis
    using assms unfolding accounted_def u by (meson UnCI linorder_not_less order_trans)
qed

lemma accounted_more:
  assumes "accounted S L m m'" "L \<subseteq> K"
  shows "accounted S K m m'"
proof -
  have "seen_in L \<subseteq> seen_in K" using assms(2) by (auto simp: seen_in_def)
  then have "S \<union> seen_in L \<subseteq> S \<union> seen_in K" by blast
  with assms show ?thesis unfolding accounted_def by (meson attributed_mono subsetD)
qed

lemma accounted_same: "attributed S m' = attributed S m \<Longrightarrow> mo_expected m' = mo_expected m \<Longrightarrow> accounted S {} m m'"
  by (simp add: accounted_def seen_in_def)

lemma finding_accounted:
  assumes "mon_finding look msg m = (m', lg)" "msg \<noteq> ''''"
  shows "accounted S {look} m m'"
  unfolding accounted_def
proof (intro impI)
  assume a: "attributed S m"
  from finding_spec [OF assms(1) a assms(2)] show "attributed (S \<union> seen_in {look}) m' \<and> mo_expected m \<le> mo_expected m' \<and>
      (mo_expected m < mo_expected m' \<longrightarrow> (\<exists>l \<in> {look}. \<exists>s \<in> S \<union> seen_in {look}. snd l - s < settleTail))"
    by (auto simp: seen_in_def counted_def)
qed

lemma note_accounted:
  assumes "note_disruption look m = (why, m', lg)"
  shows "accounted S {look} m m'"
  using note_attributed [OF assms] note_spec(3) [OF assms] by (simp add: accounted_def seen_in_def)

lemma degrade_accounted: "mon_degrade n f e m = (m', lg) \<Longrightarrow> accounted S {} m m'"
  by (rule accounted_same) (simp_all add: degrade_fields)

lemma accounted_refl: "accounted S {} m m"
  by (rule accounted_same) simp_all

lemma bad_blocks_accounted:
  "assert_no_bad_blocks bad i els m = (m', lg, r) \<Longrightarrow> accounted S {} m m' \<and> (\<forall>e. r = Some e \<longrightarrow> e \<noteq> '''')"
proof (induction bad i els m arbitrary: m' lg r rule: assert_no_bad_blocks.induct)
  case (1 bad i m)
  then show ?case by (simp add: accounted_refl)
next
  case (2 bad i n ns m)
  show ?case
  proof (cases "node_call n ''debug_getBadBlocks'' (bad i)")
    case (Inl e)
    obtain m1 lg1 where d: "mon_degrade n ''debug_getBadBlocks'' (error_text e) m = (m1, lg1)" by (cases "mon_degrade n ''debug_getBadBlocks'' (error_text e) m")
    obtain m2 lg2 r2 where g: "assert_no_bad_blocks bad (Suc i) ns m1 = (m2, lg2, r2)" by (cases "assert_no_bad_blocks bad (Suc i) ns m1") auto
    from Inl d g "2.prems" have e: "m' = m2" "r = r2" by auto
    from accounted_trans [OF degrade_accounted [OF d], of S "{}" m2] "2.IH"(1) [OF Inl d [symmetric] g] e show ?thesis
      by (simp add: seen_in_def)
  next
    case (Inr bbs)
    show ?thesis
    proof (cases "filter (\<lambda>b. bb_hash b \<notin> mo_known_bad m i) bbs")
      case Nil
      with Inr "2.prems" "2.IH"(2) [OF Inr Nil] show ?thesis by simp
    next
      case (Cons b bs)
      let ?X = "(mo_known_bad m)(i := mo_known_bad m i \<union> bb_hash ` set (b # bs))"
      from Inr Cons "2.prems" have e: "m' = m\<lparr>mo_known_bad := ?X\<rparr>" "\<forall>e. r = Some e \<longrightarrow> e \<noteq> ''''" by auto
      have "accounted S {} m m'" unfolding e(1) by (rule accounted_same) (simp_all add: attributed_def)
      with e(2) show ?thesis by blast
    qed
  qed
qed

lemma probe_targets_accounted:
  "probe_targets canon ans els ts m = (m', lg, ps) \<Longrightarrow> accounted S {} m m' \<and> '''' \<notin> set ps"
proof (induction canon ans els ts m arbitrary: m' lg ps rule: probe_targets.induct)
  case (1 canon ans els m)
  then show ?case by (simp add: accounted_refl)
next
  case (2 canon ans els t ts m)
  show ?case
  proof (cases "gather_proofs (ans t) 0 els")
    case (Inl ne)
    obtain n err where ne: "ne = (n, err)" by (cases ne)
    obtain m1 lg1 where d: "mon_degrade n ''eth_getProof'' err m = (m1, lg1)" by (cases "mon_degrade n ''eth_getProof'' err m")
    obtain m2 lg2 ps2 where g: "probe_targets canon ans els ts m1 = (m2, lg2, ps2)" by (cases "probe_targets canon ans els ts m1") auto
    from Inl ne d g "2.prems" have e: "m' = m2" "ps = ps2" by auto
    from accounted_trans [OF degrade_accounted [OF d], of S "{}" m2] "2.IH"(1) [OF Inl ne [symmetric] d [symmetric] g] e show ?thesis
      by (simp add: seen_in_def)
  next
    case (Inr proofs)
    obtain m2 lg2 ps2 where g: "probe_targets canon ans els ts m = (m2, lg2, ps2)" by (cases "probe_targets canon ans els ts m") auto
    from "2.IH"(2) [OF Inr g] Inr g "2.prems" show ?thesis by auto
  qed
qed

lemma joined_ne: "ps \<noteq> [] \<Longrightarrow> '''' \<notin> set ps \<Longrightarrow> joined_with sep ps \<noteq> ''''"
  by (induction sep ps rule: joined_with.induct) auto

lemma judge_oracle_accounted:
  assumes "judge_oracle pre look (m1, lg1, r) = (m2, lg2)" "accounted S {} m m1" "\<forall>e. r = Some e \<longrightarrow> e \<noteq> ''''"
  shows "accounted S {look} m m2"
proof (cases r)
  case None
  with assms show ?thesis by (auto simp: judge_oracle_def intro: accounted_more)
next
  case (Some e)
  with assms(1) obtain lg' where f: "mon_finding look (pre @ e) m1 = (m2, lg')" by (auto simp: judge_oracle_def split: prod.splits)
  from accounted_trans [OF assms(2)] finding_accounted [OF f] Some assms(3) show ?thesis by (auto simp: seen_in_def)
qed

lemma compare_heads_accounted:
  assumes "compare_heads w els m = (m', lg, r)" "els \<noteq> []"
  shows "accounted S {hw_look w} m m'"
  using assms
proof (cases rule: compare_heads_cases)
  case (divided n d lg')
  from finding_accounted [OF divided(4,5)] show ?thesis .
next
  case (agreed n b)
  have "accounted S {} m m'"
    unfolding agreed(6) by (rule accounted_same) (simp_all add: advance_head_fields)
  then show ?thesis by (rule accounted_more) simp
qed (auto intro: accounted_more [OF accounted_refl])

lemma judge_heads_accounted:
  assumes "judge_heads look (m1, lg1, r) = (m2, lg2)"
  shows "accounted S {look} m1 m2"
proof (cases r)
  case None
  with assms have "m2 = m1\<lparr>mo_last_expected := ''''\<rparr>" by (simp add: judge_heads_def)
  then have "attributed S m1 \<longrightarrow> attributed S m2" "mo_expected m2 = mo_expected m1" by (simp_all add: attributed_def)
  then show ?thesis unfolding accounted_def using attributed_mono by fastforce
next
  case (Some e)
  show ?thesis
  proof (cases e)
    case (TransportErr t)
    with assms Some have "m2 = m1" by (simp add: judge_heads_def)
    then show ?thesis using accounted_more [OF accounted_refl] by blast
  next
    case (OtherErr t)
    with assms Some obtain lg' where "mon_finding look (''head comparison: '' @ t) m1 = (m2, lg')"
      by (auto simp: judge_heads_def split: prod.splits)
    then show ?thesis by (rule finding_accounted) simp
  qed
qed

lemma seen_in_simps [simp]: "seen_in {} = {}" "seen_in (insert l L) = seen l \<union> seen_in L"
  by (auto simp: seen_in_def)

lemma follow_heads_accounted:
  assumes "follow_heads w els m = (m', lg)" "els \<noteq> []"
  shows "accounted S {tw_note w, hw_look (tw_heads w), tw_heads_look w} m m'"
proof -
  obtain why m1 lg1 where n: "note_disruption (tw_note w) m = (why, m1, lg1)" by (cases "note_disruption (tw_note w) m") auto
  obtain m2 lg2 r where c: "compare_heads (tw_heads w) els m1 = (m2, lg2, r)" by (cases "compare_heads (tw_heads w) els m1") auto
  from assms(1) n c obtain lg3 where j: "judge_heads (tw_heads_look w) (m2, lg2, r) = (m', lg3)"
    by (auto simp: follow_heads_def split: prod.splits)
  from accounted_trans [OF accounted_trans [OF note_accounted [OF n] compare_heads_accounted [OF c assms(2)]] judge_heads_accounted [OF j]]
  show ?thesis by (simp add: insert_commute)
qed

lemma follow_oracles_accounted:
  assumes "follow_oracles w els m = (m', lg)"
  shows "accounted S {tw_bad_look w, tw_probe_look w} m m'"
proof -
  obtain a la ra where a: "assert_no_bad_blocks (tw_bad w) 0 els m = (a, la, ra)" by (cases "assert_no_bad_blocks (tw_bad w) 0 els m") auto
  obtain m1 lg1 where j1: "judge_oracle '''' (tw_bad_look w) (a, la, ra) = (m1, lg1)" by (cases "judge_oracle '''' (tw_bad_look w) (a, la, ra)")
  obtain b lb ps where b: "probe_targets (pw_canon (tw_probe w)) (pw_proof (tw_probe w)) els
      (proof_targets (els ! 0) (pw_txs (tw_probe w)) (pw_receipts (tw_probe w))) m1 = (b, lb, ps)"
    by (metis prod_cases3)
  let ?r = "if ps = [] then None else Some (joined_with '' | '' ps)"
  from assms a j1 b obtain lg2 where j2: "judge_oracle ''probe: '' (tw_probe_look w) (b, lb, ?r) = (m', lg2)"
    by (auto simp: follow_oracles_def mon_probe_def split: prod.splits)
  have "accounted S {tw_bad_look w} m m1" for S
    using bad_blocks_accounted [OF a] by (intro judge_oracle_accounted [OF j1]) auto
  moreover have "accounted T {tw_probe_look w} m1 m'" for T
    using probe_targets_accounted [OF b] joined_ne by (intro judge_oracle_accounted [OF j2]) auto
  ultimately have "accounted S ({tw_bad_look w} \<union> {tw_probe_look w}) m m'" by (rule accounted_trans)
  then show ?thesis by (simp add: insert_commute)
qed

lemma follow_tick_accounted:
  assumes "follow_tick pe els k w m = (m', lg)" "els \<noteq> []"
  shows "accounted S (tick_looks w) m m'"
proof -
  obtain m1 lg1 where h: "follow_heads w els m = (m1, lg1)" by (cases "follow_heads w els m")
  note a1 = follow_heads_accounted [OF h assms(2)]
  show ?thesis
  proof (cases "0 < pe \<and> k mod pe = 0")
    case True
    with assms(1) h obtain lg2 where o2: "follow_oracles w els m1 = (m', lg2)"
      by (auto simp: follow_tick_def split: prod.splits)
    from accounted_trans [OF a1 follow_oracles_accounted [OF o2]] show ?thesis
      by (rule accounted_more) (auto simp: tick_looks_def)
  next
    case False
    with assms(1) h have "m' = m1" by (auto simp: follow_tick_def)
    with a1 show ?thesis by (auto simp: tick_looks_def intro: accounted_more)
  qed
qed

lemma follow_loop_accounted:
  "follow_loop pe els k ws m = (m', lg) \<Longrightarrow> els \<noteq> [] \<Longrightarrow> accounted S (\<Union>w \<in> set ws. tick_looks w) m m'"
proof (induction ws arbitrary: k m lg S)
  case Nil
  then show ?case by (simp add: accounted_refl)
next
  case (Cons w ws)
  obtain m1 lg1 where t: "follow_tick pe els (k + 1) w m = (m1, lg1)" by (cases "follow_tick pe els (k + 1) w m")
  with Cons.prems(1) obtain lg2 where l: "follow_loop pe els (k + 1) ws m1 = (m', lg2)" by (auto split: prod.splits)
  from accounted_trans [OF follow_tick_accounted [OF t Cons.prems(2)] Cons.IH [OF l Cons.prems(2)]] show ?case
    by simp
qed

text \<open>A divergence is put down to a disruption only on its evidence and for a bounded time: in
  a run from a start without a memory of disruptions, a poll that counts a divergence as
  expected does so less than 318 seconds after a moment, in this poll or an earlier one, at
  which the emulator answered that something was applied.\<close>

theorem suppression_bounded:
  assumes "els \<noteq> []" "is_zero (mo_last_disruption m)" "mo_last_expected m = ''''"
    and "follow_loop pe els k ws m = (m1, lg1)" "follow_tick pe els j w m1 = (m2, lg2)"
    and "mo_expected m1 < mo_expected m2"
  shows "\<exists>look \<in> tick_looks w. \<exists>v \<in> set (ws @ [w]). \<exists>seen_at \<in> tick_looks v.
    held seen_at \<and> snd look - snd seen_at < 318 * second"
proof -
  have a: "attributed {} m" using assms(2,3) by (simp add: attributed_def)
  let ?S = "seen_in (\<Union>w \<in> set ws. tick_looks w)"
  have "attributed ?S m1" using follow_loop_accounted [OF assms(4,1), of "{}"] a by (simp add: accounted_def)
  with follow_tick_accounted [OF assms(5,1), of ?S] assms(6) obtain l s where
    l: "l \<in> tick_looks w" "s \<in> ?S \<union> seen_in (tick_looks w)" "snd l - s < settleTail"
    by (auto simp: accounted_def)
  from l(2) obtain v x where "v \<in> set (ws @ [w])" "x \<in> tick_looks v" "s \<in> seen x"
    by (auto simp: seen_in_def)
  with l show ?thesis by (auto simp: seen_def settleTail_def second_def split: if_splits)
qed

section \<open>What a quiet comparison forgets\<close>

lemma finding_unheld:
  assumes "mon_finding look msg m = (m', lg)" "\<not> held look"
    "is_zero (mo_last_disruption m) \<or> \<not> tsub (snd look) (mo_last_disruption m) < disruptionTail"
    "mo_last_expected m = ''''" "msg \<noteq> ''''"
  shows "mo_findings m' = mo_findings m + 1"
proof -
  obtain why1 m1 lg1 where n: "note_disruption look m = (why1, m1, lg1)" by (cases "note_disruption look m") auto
  note s = note_spec [OF n]
  have "disrupted_recently look m = ('''', m1, lg1)"
    using n s(1,6) assms(2,3) by (auto simp: disrupted_recently_def)
  with assms(1,5) s(2,4) assms(4) show ?thesis by (auto simp: mon_finding_def Let_def split: if_splits)
qed

lemma note_fields:
  assumes "note_disruption look m = (why, m', lg)" "\<not> held look"
  shows "mo_last_disruption m' = mo_last_disruption m" "mo_last_expected m' = mo_last_expected m"
    "mo_findings m' = mo_findings m"
  using note_spec [OF assms(1)] assms(2) by simp_all

text \<open>A divergence attributed to a disruption does not stay attributed while it settles: a
  comparison in which every client answers ends without an error even when the clients disagree,
  so it clears the attribution, and the same disagreement is a finding at the first poll after
  the 18 seconds that follow the disruption, not after the five minutes meant for it.\<close>

theorem attribution_lost:
  assumes "els \<noteq> []"
    and tick1: "follow_tick 0 els j w m = (m1, lg1)" "common_height (tw_heads w) els n"
      "\<forall>i < length els. \<exists>b. block_of (tw_heads w) els n i = Inr b"
    and tick2: "follow_tick 0 els k w' m1 = (m2, lg2)" "common_height (tw_heads w') els n'" "divided_at (tw_heads w') els n'"
    and quiet: "\<forall>look \<in> tick_looks w'. \<not> held look \<and>
      (is_zero (mo_last_disruption m1) \<or> disruptionTail \<le> tsub (snd look) (mo_last_disruption m1))"
  shows "mo_last_expected m1 = '''' \<and> mo_findings m2 = mo_findings m1 + 1"
proof -
  obtain why a la where n1: "note_disruption (tw_note w) m = (why, a, la)" by (cases "note_disruption (tw_note w) m") auto
  obtain b lb r where c1: "compare_heads (tw_heads w) els a = (b, lb, r)" by (cases "compare_heads (tw_heads w) els a") auto
  have "r = None" using c1 assms(1)
  proof (cases rule: compare_heads_cases)
    case (failed e)
    with tick1(2,3) show ?thesis by blast
  qed simp_all
  with tick1(1) n1 c1 have e: "mo_last_expected m1 = ''''"
    by (auto simp: follow_tick_def follow_heads_def judge_heads_def split: prod.splits)
  obtain why' c lc where n2: "note_disruption (tw_note w') m1 = (why', c, lc)" by (cases "note_disruption (tw_note w') m1") auto
  obtain d ld r' where c2: "compare_heads (tw_heads w') els c = (d, ld, r')" by (cases "compare_heads (tw_heads w') els c") auto
  have nf: "mo_last_disruption c = mo_last_disruption m1" "mo_last_expected c = ''''" "mo_findings c = mo_findings m1"
    using note_fields [OF n2] quiet e by (simp_all add: tick_looks_def)
  from c2 assms(1) have "mo_findings d = mo_findings c + 1 \<and> r' = None"
  proof (cases rule: compare_heads_cases)
    case (divided h t lg')
    have "mo_findings d = mo_findings c + 1"
      using quiet nf divided(4,5) by (intro finding_unheld [OF divided(4)]) (auto simp: tick_looks_def not_less)
    with divided(3) show ?thesis by simp
  next
    case (agreed h x)
    have "h = n'" using agreed(1) tick2(2) by (auto simp: common_height_def) (metis Inr_inject order_antisym)
    with agreed(2) tick2(3) show ?thesis by simp
  qed (use tick2(2,3) in blast)+
  with tick2(1) n2 c2 nf(3) have "mo_findings m2 = mo_findings m1 + 1"
    by (auto simp: follow_tick_def follow_heads_def judge_heads_def split: prod.splits)
  with e show ?thesis by simp
qed

section \<open>Bad blocks\<close>

definition bad_answer :: "(nat \<Rightarrow> bad_block list exchange) \<Rightarrow> string list \<Rightarrow> nat \<Rightarrow> string set option" where
  "bad_answer bad els i =
     (case node_call (els ! i) ''debug_getBadBlocks'' (bad i) of Inl _ \<Rightarrow> None | Inr bbs \<Rightarrow> Some (bb_hash ` set bbs))"

definition all_known :: "(nat \<Rightarrow> bad_block list exchange) \<Rightarrow> string list \<Rightarrow> nat set \<Rightarrow> mon \<Rightarrow> bool" where
  "all_known bad els I m \<longleftrightarrow> (\<forall>i \<in> I. \<forall>H. bad_answer bad els i = Some H \<longrightarrow> H \<subseteq> mo_known_bad m i)"

definition bad_report :: "(nat \<Rightarrow> bad_block list exchange) \<Rightarrow> string list \<Rightarrow> nat \<Rightarrow> mon \<Rightarrow> mon \<Rightarrow> string option \<Rightarrow> bool" where
  "bad_report bad els k m m' r \<longleftrightarrow>
     (r = None \<longleftrightarrow> all_known bad els {k..<length els} m) \<and>
     (r = None \<longrightarrow> mo_known_bad m' = mo_known_bad m) \<and>
     (r \<noteq> None \<longrightarrow> (\<exists>i H. k \<le> i \<and> i < length els \<and> bad_answer bad els i = Some H \<and> \<not> H \<subseteq> mo_known_bad m i \<and>
        mo_known_bad m' = (mo_known_bad m)(i := mo_known_bad m i \<union> H)))"

lemma bad_report_later:
  assumes "bad_report bad els (Suc k) m1 m' r" "mo_known_bad m1 = mo_known_bad m" "k < length els"
    "\<forall>H. bad_answer bad els k = Some H \<longrightarrow> H \<subseteq> mo_known_bad m k"
  shows "bad_report bad els k m m' r"
proof -
  have "{k..<length els} = insert k {Suc k..<length els}" using assms(3) by auto
  with assms(4) have "all_known bad els {k..<length els} m \<longleftrightarrow> all_known bad els {Suc k..<length els} m1"
    using assms(2) by (simp add: all_known_def)
  with assms(1,2) show ?thesis unfolding bad_report_def by (metis Suc_leD)
qed

lemma assert_bad_blocks_exact:
  assumes "assert_no_bad_blocks bad k (drop k els) m = (m', lg, r)" "k \<le> length els"
  shows "bad_report bad els k m m' r"
  using assms
proof (induction "length els - k" arbitrary: k m m' lg r)
  case 0
  then show ?case by (auto simp: all_known_def bad_report_def)
next
  case (Suc x)
  then have k: "k < length els" "drop k els = els ! k # drop (Suc k) els" by (auto simp: Cons_nth_drop_Suc)
  have rest: "bad_report bad els (Suc k) m m' r"
    if "assert_no_bad_blocks bad (Suc k) (drop (Suc k) els) m = (m', lg, r)" for m m' lg r
    using Suc.hyps(1) [of "Suc k", OF _ that] Suc.hyps(2) k(1) by simp
  show ?case
  proof (cases "node_call (els ! k) ''debug_getBadBlocks'' (bad k)")
    case (Inl e)
    obtain m1 lg1 where d: "mon_degrade (els ! k) ''debug_getBadBlocks'' (error_text e) m = (m1, lg1)"
      by (cases "mon_degrade (els ! k) ''debug_getBadBlocks'' (error_text e) m")
    obtain m2 lg2 r2 where g: "assert_no_bad_blocks bad (Suc k) (drop (Suc k) els) m1 = (m2, lg2, r2)"
      by (cases "assert_no_bad_blocks bad (Suc k) (drop (Suc k) els) m1") auto
    from Suc.prems(1) k(2) Inl d g have e: "m' = m2" "r = r2" by auto
    from rest [OF g] e have "bad_report bad els (Suc k) m1 m' r" by simp
    then show ?thesis
      by (rule bad_report_later [OF _ degrade_fields(6) [OF d] k(1)]) (simp add: bad_answer_def Inl)
  next
    case (Inr bbs)
    show ?thesis
    proof (cases "filter (\<lambda>b. bb_hash b \<notin> mo_known_bad m k) bbs")
      case Nil
      then have sub: "bb_hash ` set bbs \<subseteq> mo_known_bad m k" by (auto simp: filter_empty_conv)
      from Suc.prems(1) k(2) Inr Nil have "assert_no_bad_blocks bad (Suc k) (drop (Suc k) els) m = (m', lg, r)" by simp
      then have "bad_report bad els (Suc k) m m' r" by (rule rest)
      then show ?thesis
        by (rule bad_report_later [OF _ refl k(1)]) (simp add: bad_answer_def Inr sub)
    next
      case (Cons b bs)
      have sub: "mo_known_bad m k \<union> bb_hash ` set (b # bs) = mo_known_bad m k \<union> bb_hash ` set bbs"
        unfolding Cons [symmetric] by auto
      have "b \<in> set (filter (\<lambda>b. bb_hash b \<notin> mo_known_bad m k) bbs)" unfolding Cons by simp
      then have new: "\<not> bb_hash ` set bbs \<subseteq> mo_known_bad m k" by auto
      from Suc.prems(1) k(2) Inr Cons have
        e: "mo_known_bad m' = (mo_known_bad m)(k := mo_known_bad m k \<union> bb_hash ` set (b # bs))" "r \<noteq> None" by auto
      have ans: "bad_answer bad els k = Some (bb_hash ` set bbs)" using Inr by (simp add: bad_answer_def)
      with new k(1) have "\<not> all_known bad els {k..<length els} m"
        unfolding all_known_def by (metis atLeastLessThan_iff le_refl)
      with e ans new k(1) show ?thesis unfolding bad_report_def e(1) sub by blast
    qed
  qed
qed

text \<open>The bad-block oracle reports exactly when some node that answers lists a block not yet
  known of it, and then all that node lists are known from then on: no block is reported twice
  for one node, and none the baseline holds is reported at all.\<close>

theorem bad_blocks_exact:
  assumes "assert_no_bad_blocks bad 0 els m = (m', lg, r)"
  shows "(r = None \<longleftrightarrow> all_known bad els {0..<length els} m) \<and>
    (\<forall>i. mo_known_bad m i \<subseteq> mo_known_bad m' i) \<and>
    (r \<noteq> None \<longrightarrow> (\<exists>i < length els. \<not> all_known bad els {i} m \<and> all_known bad els {i} m'))"
proof -
  from assms have rep: "bad_report bad els 0 m m' r" by (intro assert_bad_blocks_exact) simp_all
  then have a: "r = None \<longleftrightarrow> all_known bad els {0..<length els} m" "r = None \<longrightarrow> mo_known_bad m' = mo_known_bad m"
    unfolding bad_report_def by blast+
  show ?thesis
  proof (cases "r = None")
    case True
    with a show ?thesis by simp
  next
    case False
    with rep obtain i H where "i < length els" "bad_answer bad els i = Some H" "\<not> H \<subseteq> mo_known_bad m i"
      "mo_known_bad m' = (mo_known_bad m)(i := mo_known_bad m i \<union> H)" unfolding bad_report_def by blast
    with False a(1) show ?thesis by (auto simp: all_known_def)
  qed
qed

section \<open>What the self-test proves\<close>

lemma refused_by_all_None:
  "refused_by_all ans i els = None \<longleftrightarrow>
   (\<forall>j < length els. \<exists>e. node_call (els ! j) ''engine_newPayloadV5'' (ans (i + j)) = Inr (Invalid, e))"
proof (induction els arbitrary: i)
  case (Cons n ns)
  have "refused_by_all ans i (n # ns) = None \<longleftrightarrow>
      (\<exists>e. node_call n ''engine_newPayloadV5'' (ans i) = Inr (Invalid, e)) \<and> refused_by_all ans (Suc i) ns = None"
    by (auto split: sum.splits prod.splits if_splits)
  with Cons show ?case by (simp add: All_less_Suc2)
qed simp

lemma flipped_byte: "x XOR (flip OR 1) \<noteq> (x :: 8 word)"
proof
  assume "x XOR (flip OR 1) = x"
  then have "bit (x XOR (flip OR 1)) 0 = bit x 0" by simp
  then show False by (simp add: bit_xor_iff bit_or_iff)
qed

lemma corrupt_root_differs:
  assumes "rt \<noteq> []"
  shows "corrupt_root place flip rt \<noteq> rt \<and> length (corrupt_root place flip rt) = length rt"
proof -
  let ?i = "unat place mod length rt"
  have i: "?i < length rt" using assms by simp
  then have "corrupt_root place flip rt ! ?i \<noteq> rt ! ?i"
    using flipped_byte by (simp add: corrupt_root_def Let_def)
  then show ?thesis by (auto simp: corrupt_root_def Let_def)
qed

lemma await_keeps: "await_first_block name polls m = Some (Inr m1) \<Longrightarrow> divergences m1 = divergences m"
  by (induction name polls m rule: await_first_block.induct)
    (auto simp: divergences_def Let_def split: sum.splits option.splits if_splits)

text \<open>A self-test that passes has shown the oracle at work: the builder built a block on the
  head, its state root was changed into another one, every other client answered INVALID to the
  changed payload, and evidence was captured; and each of these is needed. It leaves the count
  of findings as it was.\<close>

theorem self_test_exact:
  assumes "self_test w fee els m = Some (r, m1)" "\<And>rt. build_payload (sf_build w) 1 (els ! 0) (mo_head m1) (mo_head_time m1 + 12) fee = Inr rt \<Longrightarrow> length rt = 32"
    and "await_first_block (els ! 0) (sf_polls w) m = Some (Inr m1)"
  shows "(r = None \<longleftrightarrow>
    (\<exists>rt place flip bad. build_payload (sf_build w) 1 (els ! 0) (mo_head m1) (mo_head_time m1 + 12) fee = Inr rt \<and>
       sf_random w = Inr (place, flip) \<and> bad = corrupt_root place flip rt \<and> bad \<noteq> rt \<and> length bad = 32 \<and>
       sf_rebuild w bad = None \<and>
       (\<forall>i < length els. 1 \<le> i \<longrightarrow> (\<exists>e. node_call (els ! i) ''engine_newPayloadV5'' (sf_status w bad i) = Inr (Invalid, e))) \<and>
       capture_divergence (sf_capture w) els = None)) \<and> divergences m1 = divergences m"
proof -
  have all: "refused_by_all ans 1 (tl els) = None \<longleftrightarrow>
      (\<forall>i < length els. 1 \<le> i \<longrightarrow> (\<exists>e. node_call (els ! i) ''engine_newPayloadV5'' (ans i) = Inr (Invalid, e)))" for ans
    by (cases els) (auto simp: refused_by_all_None All_less_Suc2)
  have "divergences m1 = divergences m"
    using assms(3) by (rule await_keeps)
  moreover have "r = (case build_payload (sf_build w) 1 (els ! 0) (mo_head m1) (mo_head_time m1 + 12) fee of
                Inl err \<Rightarrow> Some (''self-test could not build a payload: '' @ err)
              | Inr rt \<Rightarrow>
                  (case sf_random w of
                     Inl err \<Rightarrow> Some (''self-test: '' @ err)
                   | Inr (place, flip) \<Rightarrow>
                       let bad = corrupt_root place flip rt
                       in (case sf_rebuild w bad of
                             Some err \<Rightarrow> Some (''self-test could not rebuild the corrupted block: '' @ err)
                           | None \<Rightarrow>
                               (case refused_by_all (sf_status w bad) 1 (tl els) of
                                  Some err \<Rightarrow> Some err
                                | None \<Rightarrow> map_option (\<lambda>e. ''self-test: evidence capture failed: '' @ e)
                                            (capture_divergence (sf_capture w) els)))))"
    using assms(1,3) by (simp add: self_test_def)
  moreover have "corrupt_root p f rt \<noteq> rt \<and> length (corrupt_root p f rt) = 32"
    if "build_payload (sf_build w) 1 (els ! 0) (mo_head m1) (mo_head_time m1 + 12) fee = Inr rt" for rt p f
  proof -
    have l: "length rt = 32" using assms(2) [OF that] .
    then have "rt \<noteq> []" by (metis list.size(3) zero_neq_numeral)
    with l show ?thesis using corrupt_root_differs [of rt p f] by simp
  qed
  ultimately show ?thesis
    unfolding all [symmetric] by (auto simp: Let_def split: sum.splits prod.splits option.splits)
qed


section \<open>A run of two clients\<close>

definition mon_demo_block :: "string \<Rightarrow> mblock" where
  "mon_demo_block h = \<lparr>mb_number = 5, mb_hash = h, mb_state_root = '''', mb_time = 0, mb_gas_limit = 0\<rparr>"

definition mon_demo_capture :: capture_world where
  "mon_demo_capture =
     \<lparr>ca_disk = (\<lambda>_. True), ca_encode = (\<lambda>_. Some ''{}''), ca_bad = (\<lambda>_. Result []),
      ca_latest = (\<lambda>_. Result (Some (mon_demo_block ''a'')))\<rparr>"

definition mon_demo_heads :: "look \<Rightarrow> heads_world" where
  "mon_demo_heads look =
     \<lparr>hw_latest = (\<lambda>_. Result (Some (mon_demo_block ''a''))),
      hw_at = (\<lambda>i _. Result (Some (mon_demo_block (if i = 0 then ''a'' else ''b'')))),
      hw_capture = mon_demo_capture, hw_look = look\<rparr>"

definition mon_demo_probe :: probe_world where
  "mon_demo_probe = \<lparr>pw_txs = Result [], pw_receipts = Result [], pw_proof = (\<lambda>_ _. Result ''{}''), pw_canon = Some\<rparr>"

definition mon_demo_tick :: "nat \<Rightarrow> int \<Rightarrow> tick_world" where
  "mon_demo_tick partitions s =
     (let look = (Some (Inr (partitions, 0)), tunix s)
      in \<lparr>tw_note = look, tw_heads = mon_demo_heads look, tw_heads_look = look, tw_bad = (\<lambda>_. Result []),
          tw_bad_look = look, tw_probe = mon_demo_probe, tw_probe_look = look\<rparr>)"

definition mon_demo_els :: "string list" where
  "mon_demo_els = [''el-1'', ''el-2'']"

lemma demo_length: "length mon_demo_els = 2"
  by (simp add: mon_demo_els_def)

lemma demo_divided:
  "common_height (mon_demo_heads look) mon_demo_els 5" "divided_at (mon_demo_heads look) mon_demo_els 5"
  "\<forall>i < length mon_demo_els. \<exists>b. block_of (mon_demo_heads look) mon_demo_els 5 i = Inr b"
proof -
  have b: "block_of (mon_demo_heads look) mon_demo_els n i = Inr (mon_demo_block (if i = 0 then ''a'' else ''b''))" for n i
    by (simp add: block_of_def mon_demo_heads_def mon_get_block_def node_call_def Let_def)
  have h: "head_of (mon_demo_heads look) mon_demo_els i = Inr (mon_demo_block ''a'')" for i
    by (simp add: head_of_def mon_demo_heads_def mon_get_block_def node_call_def Let_def)
  show "common_height (mon_demo_heads look) mon_demo_els 5"
    by (auto simp: common_height_def h demo_length mon_demo_block_def intro!: exI [of _ "0::nat"])
  have "mb_hash (mon_demo_block ''a'') \<noteq> mb_hash (mon_demo_block ''b'')" by (simp add: mon_demo_block_def)
  then show "divided_at (mon_demo_heads look) mon_demo_els 5"
    unfolding divided_at_def b by (auto simp: demo_length intro!: exI [of _ "0::nat"] exI [of _ "1::nat"])
  show "\<forall>i < length mon_demo_els. \<exists>b. block_of (mon_demo_heads look) mon_demo_els 5 i = Inr b" by (simp add: b)
qed

theorem compare_heads_exact_witness:
  "divergences (fst (compare_heads (mon_demo_heads (None, 0)) mon_demo_els new_mon)) = 1"
proof -
  obtain m' lg r where c: "compare_heads (mon_demo_heads (None, 0)) mon_demo_els new_mon = (m', lg, r)"
    by (metis prod_cases3)
  have "mon_demo_els \<noteq> []" by (simp add: mon_demo_els_def)
  from compare_heads_exact [OF this c] demo_divided [of "(None, 0)"] c show ?thesis
    by (auto simp: divergences_def new_mon_def)
qed

theorem suppression_bounded_witness:
  "let (m1, lg) = follow_tick 0 mon_demo_els 1 (mon_demo_tick 1 100) new_mon
   in mo_expected m1 = 1 \<and> (\<exists>look \<in> tick_looks (mon_demo_tick 1 100). held look)"
proof -
  obtain m1 lg where t: "follow_tick 0 mon_demo_els 1 (mon_demo_tick 1 100) new_mon = (m1, lg)"
    by (cases "follow_tick 0 mon_demo_els 1 (mon_demo_tick 1 100) new_mon")
  have "mo_expected (fst (follow_tick 0 mon_demo_els 1 (mon_demo_tick 1 100) new_mon)) = 1" by code_simp
  with t have e: "mo_expected m1 = 1" by simp
  then have "mo_expected new_mon < mo_expected m1" by (simp add: new_mon_def)
  from suppression_bounded [OF _ _ _ _ t this, of new_mon 0 "[]" "[]"] e t show ?thesis
    by (auto simp: mon_demo_els_def new_mon_def is_zero_def)
qed

theorem attribution_lost_witness:
  "let (m1, lg1) = follow_tick 0 mon_demo_els 1 (mon_demo_tick 1 100) new_mon;
       (m2, lg2) = follow_tick 0 mon_demo_els 2 (mon_demo_tick 0 130) m1
   in mo_expected m1 = 1 \<and> mo_findings m1 = 0 \<and> mo_findings m2 = 1"
proof -
  obtain m1 lg1 where t1: "follow_tick 0 mon_demo_els 1 (mon_demo_tick 1 100) new_mon = (m1, lg1)"
    by (cases "follow_tick 0 mon_demo_els 1 (mon_demo_tick 1 100) new_mon")
  obtain m2 lg2 where t2: "follow_tick 0 mon_demo_els 2 (mon_demo_tick 0 130) m1 = (m2, lg2)"
    by (cases "follow_tick 0 mon_demo_els 2 (mon_demo_tick 0 130) m1")
  have "mo_last_disruption (fst (follow_tick 0 mon_demo_els 1 (mon_demo_tick 1 100) new_mon)) = tunix 100 \<and>
      mo_expected (fst (follow_tick 0 mon_demo_els 1 (mon_demo_tick 1 100) new_mon)) = 1 \<and>
      mo_findings (fst (follow_tick 0 mon_demo_els 1 (mon_demo_tick 1 100) new_mon)) = 0" by code_simp
  with t1 have m1: "mo_last_disruption m1 = tunix 100" "mo_expected m1 = 1" "mo_findings m1 = 0" by simp_all
  have h: "tw_heads (mon_demo_tick p s) = mon_demo_heads (Some (Inr (p, 0)), tunix s)" for p s
    by (simp add: mon_demo_tick_def Let_def)
  have "disruptionTail \<le> tsub (tunix 130) (tunix 100)" by code_simp
  then have q: "\<forall>look \<in> tick_looks (mon_demo_tick 0 130). \<not> held look \<and>
      (is_zero (mo_last_disruption m1) \<or> disruptionTail \<le> tsub (snd look) (mo_last_disruption m1))"
    by (auto simp: tick_looks_def mon_demo_tick_def mon_demo_heads_def held_def m1(1) Let_def)
  have "mon_demo_els \<noteq> []" by (simp add: mon_demo_els_def)
  from attribution_lost [OF this t1 _ _ t2 _ _ q, of 5 5] demo_divided have "mo_findings m2 = mo_findings m1 + 1"
    unfolding h by blast
  with t1 t2 m1 show ?thesis by simp
qed

theorem bad_blocks_exact_witness:
  "let bad = (\<lambda>i. Result (if i = 1 then [\<lparr>bb_hash = ''0xbad'', bb_rlp = '''', bb_block = ''''\<rparr>] else []));
       (m', lg, r) = assert_no_bad_blocks bad 0 mon_demo_els new_mon
   in r \<noteq> None \<and> all_known bad mon_demo_els {1} m'"
proof -
  let ?bad = "\<lambda>i. Result (if i = 1 then [\<lparr>bb_hash = ''0xbad'', bb_rlp = '''', bb_block = ''''\<rparr>] else [])"
  obtain m' lg r where a: "assert_no_bad_blocks ?bad 0 mon_demo_els new_mon = (m', lg, r)" by (metis prod_cases3)
  have ans: "bad_answer ?bad mon_demo_els i = Some (if i = 1 then {''0xbad''} else {})" for i
    by (simp add: bad_answer_def node_call_def Let_def)
  note e = bad_blocks_exact [OF a]
  have "\<not> all_known ?bad mon_demo_els {0..<length mon_demo_els} new_mon"
    unfolding all_known_def ans demo_length by (auto simp: new_mon_def intro!: bexI [of _ "1::nat"])
  with e have r: "r \<noteq> None" by blast
  with e obtain i where "\<not> all_known ?bad mon_demo_els {i} new_mon" "all_known ?bad mon_demo_els {i} m'" by blast
  moreover from this(1) have "i = 1" unfolding all_known_def ans by (auto split: if_splits)
  ultimately show ?thesis using a r by (simp add: Let_def)
qed

definition demo_self_test :: self_test_world where
  "demo_self_test =
     \<lparr>sf_polls = [(Result (Some (mon_demo_block ''a'')), False, None)],
      sf_build = \<lparr>bw_parent = (\<lambda>_. Result (Some (mon_demo_block ''a''))), bw_fcu = (\<lambda>_. Result (Valid, None, Some ''id'')),
                  bw_interrupted = None, bw_payload = (\<lambda>_. Result (Some (replicate 32 7, True)))\<rparr>,
      sf_random = Inr (3, 9), sf_rebuild = (\<lambda>_. None), sf_status = (\<lambda>_ _. Result (Invalid, None)),
      sf_capture = mon_demo_capture\<rparr>"

theorem self_test_exact_witness:
  "\<exists>m1. self_test demo_self_test '''' mon_demo_els new_mon = Some (None, m1) \<and> divergences m1 = 0"
proof -
  let ?m = "new_mon\<lparr>mo_head := ''a'', mo_head_num := 5, mo_head_time := 0\<rparr>"
  have w: "await_first_block (mon_demo_els ! 0) (sf_polls demo_self_test) new_mon = Some (Inr ?m)"
    by (simp add: demo_self_test_def mon_get_block_def node_call_def mon_demo_block_def Let_def)
  have b: "build_payload (sf_build demo_self_test) s n p t f = Inr (replicate 32 7)" for s n p t f
    by (simp add: build_payload_def demo_self_test_def mon_get_block_by_hash_def node_call_def Let_def)
  obtain r where r: "self_test demo_self_test '''' mon_demo_els new_mon = Some (r, ?m)"
    using w by (simp add: self_test_def)
  have c: "capture_divergence (sf_capture demo_self_test) mon_demo_els = None" by code_simp
  have d: "corrupt_root 3 9 (replicate 32 7) \<noteq> replicate 32 7 \<and> length (corrupt_root 3 9 (replicate 32 7)) = 32"
    using corrupt_root_differs [of "replicate 32 7" 3 9] by simp
  have n: "node_call x y (sf_status demo_self_test z i) = Inr (Invalid, None)" for x y z i
    by (simp add: demo_self_test_def node_call_def Let_def)
  have "r = None \<and> divergences ?m = divergences new_mon"
    using self_test_exact [OF r _ w] b c d n by (auto simp: demo_self_test_def)
  with r show ?thesis by (auto simp: divergences_def new_mon_def)
qed

end
