(* ===== verification/PbtQueue.thy ===== *)
theory PbtQueue
  imports Disruptoor Registry VerifyLog
begin

text \<open>
  The reorg driver's configuration and queue (\<open>cmd/pbtchaos/main.go\<close>): the flags and the checks
  made before anything is disrupted, the rotation of the doomed node and of the sender keys, the
  depth clamp, the one queue every disruption goes through, and the control API's handlers. The
  worker, the submitters and the handlers interleave: each atomic section of the code, what it
  does under the mutex or one channel or atomic operation, is one event, and a run is any sequence
  of events whose guards hold. The control API's HTTP plumbing is left out; a container count, a
  dial and a clear are answers.
\<close>

section \<open>Flags\<close>

record chaos_config =
  cc_slot_seconds :: duration
  cc_validators_per :: u64
  cc_validator_counts :: "u64 list"
  cc_node_count :: int
  cc_isolate_enabled :: bool
  cc_isolate_min :: u64
  cc_isolate_max :: u64
  cc_isolate_for :: duration
  cc_default_depth :: u64
  cc_max_depth :: u64
  cc_protected :: "int set"

fun positive_counts :: "string list \<Rightarrow> u64 list option" where
  "positive_counts [] = Some []"
| "positive_counts (f # fs) =
     (case parse_uint_dec (trim_space f) of
        None \<Rightarrow> None
      | Some n \<Rightarrow> if n = 0 then None else map_option ((#) n) (positive_counts fs))"

definition parse_validator_counts :: "string \<Rightarrow> u64 list option" where
  "parse_validator_counts s = positive_counts (split_on (CHR '','') s)"

definition clamp_depth :: "u64 \<Rightarrow> u64 \<Rightarrow> u64 \<times> bool" where
  "clamp_depth requested max_depth =
     (if max_depth = 0 \<or> requested \<le> max_depth then (requested, False) else (max_depth, True))"

text \<open>The applied depth, the depth asked for, and whether they differ; \<open>None\<close> for a bad parameter.\<close>

definition resolve_depth :: "string \<Rightarrow> u64 \<Rightarrow> u64 \<Rightarrow> (u64 \<times> u64 \<times> bool) option" where
  "resolve_depth v dflt max_depth =
     (case (if v = '''' then Some dflt else parse_uint_dec v) of
        None \<Rightarrow> None
      | Some requested \<Rightarrow>
          (case clamp_depth requested max_depth of (applied, clamped) \<Rightarrow> Some (applied, requested, clamped)))"

record chaos_flags =
  fl_api :: string
  fl_els :: "string list"
  fl_cls :: "string list"
  fl_protect :: "string list"
  fl_slot_seconds :: duration
  fl_validators_per :: u64
  fl_validator_counts :: string
  fl_isolation :: bool
  fl_iso_min :: u64
  fl_iso_max :: u64
  fl_isolate_for :: duration
  fl_depth :: u64
  fl_max_depth :: u64

text \<open>How a start is refused.\<close>

datatype chaos_fatal =
    NoApi | NoEl | MinAboveMax u64 u64 | BadEl string | DialFailed string string | BadCl string
  | EmulatorUnreachable string | SeesNothing | NotCleared string | BadProtect string
  | AllProtected | BadCounts string | WrongCounts nat nat

fun dial_els :: "(string \<Rightarrow> string option) \<Rightarrow> string list \<Rightarrow> chaos_fatal + (string \<times> string) list" where
  "dial_els dial [] = Inr []"
| "dial_els dial (s # ss) =
     (case cut_at (CHR ''='') s of
        None \<Rightarrow> Inl (BadEl s)
      | Some (name, url) \<Rightarrow>
          (case dial url of
             Some err \<Rightarrow> Inl (DialFailed name err)
           | None \<Rightarrow> (case dial_els dial ss of Inl e \<Rightarrow> Inl e | Inr els \<Rightarrow> Inr ((name, url) # els))))"

fun new_beacons :: "string list \<Rightarrow> chaos_fatal + (string \<times> string) list" where
  "new_beacons [] = Inr []"
| "new_beacons (s # ss) =
     (case cut_at (CHR ''='') s of
        None \<Rightarrow> Inl (BadCl s)
      | Some b \<Rightarrow> (case new_beacons ss of Inl e \<Rightarrow> Inl e | Inr bs \<Rightarrow> Inr (b # bs)))"

fun protected_nodes :: "string list \<Rightarrow> chaos_fatal + int set" where
  "protected_nodes [] = Inr {}"
| "protected_nodes (p # ps) =
     (case atoi p of
        None \<Rightarrow> Inl (BadProtect p)
      | Some n \<Rightarrow>
          if n < 1 then Inl (BadProtect p)
          else (case protected_nodes ps of Inl e \<Rightarrow> Inl e | Inr ns \<Rightarrow> Inr (insert n ns)))"

definition validator_counts_of :: "string \<Rightarrow> nat \<Rightarrow> chaos_fatal + u64 list" where
  "validator_counts_of s n =
     (if s = '''' then Inr []
      else (case parse_validator_counts s of
              None \<Rightarrow> Inl (BadCounts s)
            | Some counts \<Rightarrow> if length counts \<noteq> n then Inl (WrongCounts (length counts) n) else Inr counts))"

text \<open>What the start finds: the dial of a URL, the emulator's container count, its clear.\<close>

record chaos_world =
  ch_dial :: "string \<Rightarrow> string option"
  ch_containers :: "string + nat"
  ch_clear :: "string option"

definition chaos_config_of :: "chaos_flags \<Rightarrow> (string \<times> string) list \<Rightarrow> (string \<times> string) list \<Rightarrow> int set \<Rightarrow> u64 list \<Rightarrow> chaos_config" where
  "chaos_config_of fg els cls protected counts =
     \<lparr>cc_slot_seconds = fl_slot_seconds fg, cc_validators_per = fl_validators_per fg, cc_validator_counts = counts,
      cc_node_count = int (length els), cc_isolate_enabled = fl_isolation fg \<and> cls \<noteq> [],
      cc_isolate_min = fl_iso_min fg, cc_isolate_max = fl_iso_max fg,
      cc_isolate_for = (if fl_isolate_for fg = 0 then wrap64 (2 * fl_slot_seconds fg) else fl_isolate_for fg),
      cc_default_depth = fl_depth fg, cc_max_depth = fl_max_depth fg, cc_protected = protected\<rparr>"

definition chaos_setup ::
  "chaos_flags \<Rightarrow> chaos_world \<Rightarrow> chaos_fatal + (chaos_config \<times> (string \<times> string) list \<times> (string \<times> string) list)"
where
  "chaos_setup fg w =
     (if fl_api fg = '''' then Inl NoApi
      else if fl_els fg = [] then Inl NoEl
      else if fl_iso_max fg < fl_iso_min fg then Inl (MinAboveMax (fl_iso_min fg) (fl_iso_max fg))
      else case dial_els (ch_dial w) (fl_els fg) of
        Inl e \<Rightarrow> Inl e
      | Inr els \<Rightarrow>
      case new_beacons (fl_cls fg) of
        Inl e \<Rightarrow> Inl e
      | Inr cls \<Rightarrow>
      case ch_containers w of
        Inl e \<Rightarrow> Inl (EmulatorUnreachable e)
      | Inr n \<Rightarrow>
      if n = 0 then Inl SeesNothing
      else case ch_clear w of
        Some e \<Rightarrow> Inl (NotCleared e)
      | None \<Rightarrow>
      case protected_nodes (fl_protect fg) of
        Inl e \<Rightarrow> Inl e
      | Inr protected \<Rightarrow>
      if length els \<le> card protected then Inl AllProtected
      else case validator_counts_of (fl_validator_counts fg) (length els) of
        Inl e \<Rightarrow> Inl e
      | Inr counts \<Rightarrow> Inr (chaos_config_of fg els cls protected counts, els, cls))"

section \<open>The doomed node and the keys\<close>

text \<open>The rotation's turn is a counter of scenarios.\<close>

definition eligible :: "int set \<Rightarrow> int \<Rightarrow> int list" where
  "eligible protected n = filter (\<lambda>i. i \<notin> protected) [1..n]"

definition next_minority :: "int set \<Rightarrow> int \<Rightarrow> nat \<Rightarrow> int \<times> nat" where
  "next_minority protected n turn =
     (let e = eligible protected n
      in if e = [] then (1, turn) else (e ! (turn mod length e), turn + 1))"

definition minority_for :: "int set \<Rightarrow> int \<Rightarrow> int \<Rightarrow> nat \<Rightarrow> int \<times> nat" where
  "minority_for protected n pick turn =
     (if pick < 1 \<or> n < pick \<or> pick \<in> protected then next_minority protected n turn else (pick, turn))"

text \<open>The majority's key and the minority's; \<open>None\<close> without keys, where the code would divide by 0.\<close>

definition keys_for :: "string list \<Rightarrow> nat \<Rightarrow> (string \<times> string) option" where
  "keys_for keys turn =
     (if keys = [] then None
      else if length keys = 1 then Some (keys ! 0, keys ! 0)
      else Some (keys ! (turn * 2 mod length keys), keys ! ((turn * 2 + 1) mod length keys)))"

section \<open>Results and jobs\<close>

record chaos_result =
  cr_name :: string
  cr_started :: gotime
  cr_outcome :: string
  cr_detail :: detail
  cr_reorged :: bool
  cr_depth :: u64
  cr_requested :: u64
  cr_minority :: string
  cr_orphaned :: int
  cr_survivor :: string

definition new_result :: "string \<Rightarrow> gotime \<Rightarrow> u64 \<Rightarrow> chaos_result" where
  "new_result name started depth =
     \<lparr>cr_name = name, cr_started = started, cr_outcome = '''', cr_detail = no_detail, cr_reorged = False, cr_depth = depth,
      cr_requested = 0, cr_minority = '''', cr_orphaned = 0, cr_survivor = ''''\<rparr>"

text \<open>A job is its closure: the periodic fork, or a scenario with its depth, the depth asked for
  when it was clamped, and the pinned minority (0 for none).\<close>

datatype pbt_job = ProposerFork | ScenarioJob string u64 "u64 option" int

fun job_name :: "pbt_job \<Rightarrow> string" where
  "job_name ProposerFork = ''proposer-fork''"
| "job_name (ScenarioJob name _ _ _) = name"

section \<open>The queue\<close>

text \<open>Where the worker is: at its select, holding a job it has received but not announced, in the
  job, or after it, putting the network back.\<close>

datatype worker = Waiting | Took pbt_job | Running pbt_job | Restoring

text \<open>\<open>pq_entering\<close> are the submissions past the check of \<open>quiesced\<close> and not yet under the mutex.\<close>

record pbt_queue =
  pq_jobs :: "pbt_job list"
  pq_worker :: worker
  pq_running :: string
  pq_queued :: "string list"
  pq_history :: "chaos_result list"
  pq_quiesced :: bool
  pq_entering :: "pbt_job list"
  pq_net :: "partition_spec list"

abbreviation "jobsCap \<equiv> (16 :: nat)"
abbreviation "historyCap \<equiv> (50 :: nat)"

definition new_queue :: pbt_queue where
  "new_queue =
     \<lparr>pq_jobs = [], pq_worker = Waiting, pq_running = '''', pq_queued = [], pq_history = [], pq_quiesced = False,
      pq_entering = [], pq_net = []\<rparr>"

definition pbt_busy :: "pbt_queue \<Rightarrow> bool" where
  "pbt_busy q \<longleftrightarrow> pq_running q \<noteq> '''' \<or> pq_queued q \<noteq> []"

text \<open>\<open>submit\<close>: the check, and the rest under the mutex.\<close>

datatype submitted = Accepted | RefusedQuiesced | QueueFull

definition check_quiesced :: "pbt_job \<Rightarrow> pbt_queue \<Rightarrow> pbt_queue \<times> submitted option" where
  "check_quiesced j q =
     (if pq_quiesced q then (q, Some RefusedQuiesced) else (q\<lparr>pq_entering := pq_entering q @ [j]\<rparr>, None))"

definition enqueue :: "pbt_job \<Rightarrow> pbt_queue \<Rightarrow> pbt_queue \<times> submitted" where
  "enqueue j q =
     (if length (pq_jobs q) < jobsCap then
        (q\<lparr>pq_jobs := pq_jobs q @ [j], pq_queued := pq_queued q @ [job_name j]\<rparr>, Accepted)
      else (q, QueueFull))"

definition submit :: "pbt_job \<Rightarrow> pbt_queue \<Rightarrow> pbt_queue \<times> submitted" where
  "submit j q = (if pq_quiesced q then (q, RefusedQuiesced) else enqueue j q)"

text \<open>\<open>work\<close>: the announcement of a received job, the end of a job, and the clear after it.\<close>

definition announce :: "pbt_job \<Rightarrow> pbt_queue \<Rightarrow> pbt_queue" where
  "announce j q =
     q\<lparr>pq_worker := Running j, pq_running := job_name j,
       pq_queued := (case pq_queued q of n # ns \<Rightarrow> if n = job_name j then ns else n # ns | [] \<Rightarrow> [])\<rparr>"

definition keep_last :: "nat \<Rightarrow> 'a list \<Rightarrow> 'a list" where
  "keep_last n xs = (if n < length xs then drop (length xs - n) xs else xs)"

definition job_done :: "chaos_result \<Rightarrow> pbt_queue \<Rightarrow> pbt_queue" where
  "job_done res q =
     q\<lparr>pq_worker := Restoring, pq_running := '''', pq_history := keep_last historyCap (pq_history q @ [res])\<rparr>"

definition restore :: "string option \<Rightarrow> pbt_queue \<Rightarrow> pbt_queue" where
  "restore answer q = q\<lparr>pq_worker := Waiting, pq_net := fst (disrupt_clear answer (pq_net q))\<rparr>"

text \<open>The events: a submission's check, its entry, a quiesce, the worker's receive, its
  announcement, what the job does to the network (a request answered by the emulator), its end,
  the restoration.\<close>

datatype pbt_event =
    Check pbt_job | Enter nat | Quiesce | Receive | Announce | Cut "int list" string "int list list" "string option"
  | Heal "string option" | Finish chaos_result | Restore "string option"

fun pbt_step :: "pbt_event \<Rightarrow> pbt_queue \<Rightarrow> pbt_queue option" where
  "pbt_step (Check j) q = Some (fst (check_quiesced j q))"
| "pbt_step (Enter i) q =
     (if i < length (pq_entering q) then
        Some (fst (enqueue (pq_entering q ! i)
          (q\<lparr>pq_entering := take i (pq_entering q) @ drop (Suc i) (pq_entering q)\<rparr>)))
      else None)"
| "pbt_step Quiesce q = Some (q\<lparr>pq_quiesced := True\<rparr>)"
| "pbt_step Receive q =
     (case (pq_worker q, pq_jobs q) of
        (Waiting, j # js) \<Rightarrow> Some (q\<lparr>pq_worker := Took j, pq_jobs := js\<rparr>)
      | _ \<Rightarrow> None)"
| "pbt_step Announce q = (case pq_worker q of Took j \<Rightarrow> Some (announce j q) | _ \<Rightarrow> None)"
| "pbt_step (Cut observers name groups answer) q =
     (case pq_worker q of
        Running _ \<Rightarrow> Some (q\<lparr>pq_net := fst (disrupt_partition observers name groups answer (pq_net q))\<rparr>)
      | _ \<Rightarrow> None)"
| "pbt_step (Heal answer) q =
     (case pq_worker q of
        Running _ \<Rightarrow> Some (q\<lparr>pq_net := fst (disrupt_clear answer (pq_net q))\<rparr>)
      | _ \<Rightarrow> None)"
| "pbt_step (Finish res) q = (case pq_worker q of Running _ \<Rightarrow> Some (job_done res q) | _ \<Rightarrow> None)"
| "pbt_step (Restore answer) q = (case pq_worker q of Restoring \<Rightarrow> Some (restore answer q) | _ \<Rightarrow> None)"

fun pbt_run :: "pbt_event list \<Rightarrow> pbt_queue \<Rightarrow> pbt_queue option" where
  "pbt_run [] q = Some q"
| "pbt_run (e # es) q = (case pbt_step e q of None \<Rightarrow> None | Some q' \<Rightarrow> pbt_run es q')"

section \<open>The control API\<close>

definition quiesce_body :: "pbt_queue \<Rightarrow> bool \<times> bool" where
  "quiesce_body q = (pq_quiesced q, \<not> pbt_busy q)"

datatype scenario_reply =
    UnknownScenario string "string list" | BadDepth string | BadMinority int string
  | Conflict | Unavailable | Queued string u64 "u64 option"

text \<open>\<open>POST /scenario/{name}\<close>: the applied depth, the depth asked for when it was clamped and the
  pinned minority, or the refusal; then the submission.\<close>

definition scenario_request ::
  "chaos_config \<Rightarrow> string list \<Rightarrow> string \<Rightarrow> string \<Rightarrow> string \<Rightarrow> scenario_reply + u64 \<times> u64 option \<times> int"
where
  "scenario_request cfg known name depth_q minority_q =
     (if name \<notin> set known then Inl (UnknownScenario name known)
      else case resolve_depth depth_q (cc_default_depth cfg) (cc_max_depth cfg) of
        None \<Rightarrow> Inl (BadDepth depth_q)
      | Some (depth, requested, clamped) \<Rightarrow>
          let req = (if clamped then Some requested else None)
          in if minority_q = '''' then Inr (depth, req, 0)
             else (case atoi minority_q of
                None \<Rightarrow> Inl (BadMinority (cc_node_count cfg) minority_q)
              | Some m \<Rightarrow>
                  if m < 1 \<or> cc_node_count cfg < m then Inl (BadMinority (cc_node_count cfg) minority_q)
                  else Inr (depth, req, m)))"

definition post_scenario ::
  "chaos_config \<Rightarrow> string list \<Rightarrow> string \<Rightarrow> string \<Rightarrow> string \<Rightarrow> pbt_queue \<Rightarrow> pbt_queue \<times> scenario_reply"
where
  "post_scenario cfg known name depth_q minority_q q =
     (case scenario_request cfg known name depth_q minority_q of
        Inl r \<Rightarrow> (q, r)
      | Inr (depth, req, m) \<Rightarrow>
          (case submit (ScenarioJob name depth req m) q of
             (q', RefusedQuiesced) \<Rightarrow> (q', Conflict)
           | (q', QueueFull) \<Rightarrow> (q', Unavailable)
           | (q', Accepted) \<Rightarrow> (q', Queued name depth req)))"

section \<open>The bookkeeping\<close>

fun taken :: "worker \<Rightarrow> pbt_job list" where
  "taken (Took j) = [j]"
| "taken _ = []"

fun job_running :: "worker \<Rightarrow> pbt_job list" where
  "job_running (Running j) = [j]"
| "job_running _ = []"

definition queue_ok :: "pbt_queue \<Rightarrow> bool" where
  "queue_ok q \<longleftrightarrow>
     pq_queued q = map job_name (taken (pq_worker q) @ pq_jobs q) \<and>
     pq_running q = concat (map job_name (job_running (pq_worker q))) \<and>
     (\<forall>j \<in> set (pq_entering q) \<union> set (pq_jobs q) \<union> set (taken (pq_worker q)) \<union> set (job_running (pq_worker q)).
        job_name j \<noteq> '''') \<and>
     length (pq_jobs q) \<le> jobsCap \<and> length (pq_history q) \<le> historyCap"

fun named :: "pbt_event \<Rightarrow> bool" where
  "named (Check j) \<longleftrightarrow> job_name j \<noteq> ''''"
| "named _ \<longleftrightarrow> True"

lemma keep_last_length: "length (keep_last n xs) \<le> n"
  by (simp add: keep_last_def)

lemma queue_ok_step:
  assumes "queue_ok q" "pbt_step e q = Some q'" "named e"
  shows "queue_ok q'"
proof (cases e)
  case (Enter i)
  with assms show ?thesis
    by (auto simp: queue_ok_def enqueue_def split: if_splits dest!: in_set_takeD in_set_dropD dest: nth_mem)
next
  case (Finish r)
  with assms show ?thesis
    by (auto simp: queue_ok_def job_done_def keep_last_length split: worker.splits)
qed (use assms in \<open>auto simp: queue_ok_def check_quiesced_def announce_def restore_def
    split: if_splits worker.splits list.splits\<close>)

lemma queue_ok_run:
  "pbt_run es q = Some q' \<Longrightarrow> queue_ok q \<Longrightarrow> \<forall>e \<in> set es. named e \<Longrightarrow> queue_ok q'"
  by (induction es arbitrary: q) (auto split: option.splits dest: queue_ok_step)

lemma new_queue_ok: "queue_ok new_queue"
  by (simp add: queue_ok_def new_queue_def)

lemma busy_iff: "queue_ok q \<Longrightarrow> pbt_busy q \<longleftrightarrow> taken (pq_worker q) @ pq_jobs q @ job_running (pq_worker q) \<noteq> []"
  by (cases "pq_worker q") (auto simp: queue_ok_def pbt_busy_def)

lemma quiesce_body_idle:
  "queue_ok q \<Longrightarrow> quiesce_body q = (True, True) \<longleftrightarrow>
    pq_quiesced q \<and> pq_jobs q = [] \<and> (pq_worker q = Waiting \<or> pq_worker q = Restoring)"
  by (cases "pq_worker q") (auto simp: quiesce_body_def busy_iff)

text \<open>The queue's books: after any interleaving of submissions, quiesces and the worker's
  steps the names listed as queued are those of the jobs not yet announced, in order, the name
  shown as running is the running job's, at most 16 jobs wait and 50 results are kept; the
  driver calls itself busy exactly while some job was accepted and is not over.\<close>

theorem queue_bookkeeping:
  assumes "pbt_run es new_queue = Some q" "\<forall>e \<in> set es. named e"
  shows "pq_queued q = map job_name (taken (pq_worker q) @ pq_jobs q) \<and>
    pq_running q = concat (map job_name (job_running (pq_worker q))) \<and>
    length (pq_jobs q) \<le> 16 \<and> length (pq_history q) \<le> 50 \<and>
    (pbt_busy q \<longleftrightarrow> taken (pq_worker q) @ pq_jobs q @ job_running (pq_worker q) \<noteq> [])"
proof -
  have "queue_ok q" using queue_ok_run [OF assms(1) new_queue_ok assms(2)] .
  then show ?thesis by (simp only: busy_iff) (simp add: queue_ok_def)
qed

section \<open>Quiescing\<close>

definition at_rest :: "pbt_queue \<Rightarrow> bool" where
  "at_rest q \<longleftrightarrow> pq_quiesced q \<and> pq_entering q = [] \<and> pq_jobs q = [] \<and> (pq_worker q = Waiting \<or> pq_worker q = Restoring)"

lemma at_rest_step: "at_rest q \<Longrightarrow> pbt_step e q = Some q' \<Longrightarrow> at_rest q'"
  by (cases e) (auto simp: at_rest_def check_quiesced_def restore_def split: if_splits worker.splits)

lemma at_rest_run: "pbt_run es q = Some q' \<Longrightarrow> at_rest q \<Longrightarrow> at_rest q'"
  by (induction es arbitrary: q) (auto split: option.splits dest: at_rest_step)

lemma entering_runs:
  assumes "queue_ok q" "quiesce_body q = (True, True)" "pq_entering q = j # js"
  shows "\<exists>es q'. pbt_run es q = Some q' \<and> pq_worker q' = Running j"
proof -
  from assms(1,2) have q: "pq_jobs q = []" "pq_worker q = Waiting \<or> pq_worker q = Restoring"
    by (simp_all add: quiesce_body_idle)
  from q(2) show ?thesis
  proof
    assume "pq_worker q = Waiting"
    with q(1) assms(3) show ?thesis
      by (intro exI [of _ "[Enter 0, Receive, Announce]"]) (simp add: enqueue_def announce_def)
  next
    assume "pq_worker q = Restoring"
    with q(1) assms(3) show ?thesis
      by (intro exI [of _ "[Restore None, Enter 0, Receive, Announce]"]) (simp add: enqueue_def announce_def restore_def)
  qed
qed

text \<open>What an answer of quiesced and idle is worth: from it a disruption can still start
  exactly when some submission had passed the check before the quiesce and has not entered the
  queue yet. Without one in flight the driver stays idle for good.\<close>

theorem quiesced_idle_exact:
  assumes "pbt_run es new_queue = Some q" "\<forall>e \<in> set es. named e" "quiesce_body q = (True, True)"
  shows "(\<exists>es' q' j. pbt_run es' q = Some q' \<and> pq_worker q' = Running j) \<longleftrightarrow> pq_entering q \<noteq> []"
proof -
  have k: "queue_ok q" using queue_ok_run [OF assms(1) new_queue_ok assms(2)] .
  show ?thesis
  proof (cases "pq_entering q")
    case Nil
    then have "at_rest q" using k assms(3) by (simp add: at_rest_def quiesce_body_idle)
    with Nil show ?thesis by (auto dest: at_rest_run simp: at_rest_def)
  next
    case (Cons j js)
    with entering_runs [OF k assms(3)] show ?thesis by auto
  qed
qed

definition late_entry :: "pbt_event list" where
  "late_entry = [Check (ScenarioJob ''account'' 8 None 0), Quiesce]"

theorem quiesced_idle_exact_witness:
  "\<exists>q. pbt_run late_entry new_queue = Some q \<and> quiesce_body q = (True, True) \<and>
     (\<exists>es' q' j. pbt_run es' q = Some q' \<and> pq_worker q' = Running j)"
proof -
  define q where "q = new_queue\<lparr>pq_entering := [ScenarioJob ''account'' 8 None 0], pq_quiesced := True\<rparr>"
  have r: "pbt_run late_entry new_queue = Some q"
    by (simp add: late_entry_def q_def check_quiesced_def new_queue_def)
  moreover have "\<forall>e \<in> set late_entry. named e" by (simp add: late_entry_def)
  moreover have b: "quiesce_body q = (True, True)" by (simp add: q_def quiesce_body_def pbt_busy_def new_queue_def)
  moreover have "pq_entering q \<noteq> []" by (simp add: q_def)
  ultimately show ?thesis using quiesced_idle_exact [of late_entry q] by blast
qed

theorem queue_bookkeeping_witness:
  "map_option pq_queued (pbt_run [Check ProposerFork, Enter 0, Receive, Check ProposerFork, Enter 0] new_queue)
     = Some [''proposer-fork'', ''proposer-fork'']"
proof -
  let ?es = "[Check ProposerFork, Enter 0, Receive, Check ProposerFork, Enter 0]"
  obtain q where r: "pbt_run ?es new_queue = Some q" "pq_worker q = Took ProposerFork" "pq_jobs q = [ProposerFork]"
    by (simp add: check_quiesced_def enqueue_def new_queue_def)
  with queue_bookkeeping [of ?es q] show ?thesis by simp
qed

section \<open>One disruption at a time\<close>

definition whole_between :: "pbt_queue \<Rightarrow> bool" where
  "whole_between q \<longleftrightarrow> (case pq_worker q of Waiting \<Rightarrow> pq_net q = [] | Took _ \<Rightarrow> pq_net q = [] | _ \<Rightarrow> length (pq_net q) \<le> 1)"

lemma disrupt_partition_single: "length p \<le> 1 \<Longrightarrow> length (fst (disrupt_partition obs name groups a p)) \<le> 1"
  by (simp add: disrupt_partition_def split: sum.splits option.splits)

lemma disrupt_clear_single: "length p \<le> 1 \<Longrightarrow> length (fst (disrupt_clear a p)) \<le> 1"
  by (simp add: disrupt_clear_def split: option.splits)

lemma submit_fields:
  "pq_worker (fst (check_quiesced j q)) = pq_worker q" "pq_net (fst (check_quiesced j q)) = pq_net q"
  "pq_worker (fst (enqueue j q)) = pq_worker q" "pq_net (fst (enqueue j q)) = pq_net q"
  by (simp_all add: check_quiesced_def enqueue_def)

lemma whole_between_step:
  assumes "whole_between q" "pbt_step e q = Some q'" "\<forall>err. e \<noteq> Restore (Some err)"
  shows "whole_between q'"
proof (cases e)
  case (Restore a)
  with assms show ?thesis
    by (cases a) (auto simp: whole_between_def restore_def disrupt_clear_def split: worker.splits)
next
  case (Check j)
  with assms show ?thesis by (auto simp: whole_between_def submit_fields split: worker.splits)
next
  case (Enter i)
  with assms show ?thesis by (auto simp: whole_between_def submit_fields split: if_splits worker.splits)
qed (use assms in \<open>auto simp: whole_between_def announce_def job_done_def disrupt_partition_single [simplified]
      disrupt_clear_single [simplified]
    split: worker.splits list.splits\<close>)

lemma whole_between_run:
  "pbt_run es q = Some q' \<Longrightarrow> whole_between q \<Longrightarrow> \<forall>e \<in> set es. \<forall>err. e \<noteq> Restore (Some err) \<Longrightarrow> whole_between q'"
  by (induction es arbitrary: q) (auto split: option.splits dest: whole_between_step)

text \<open>Disruptions do not overlap: while the emulator accepts the clear after each job, the
  network is whole whenever the next job is received and until it is announced, and one
  partition at most is ever applied, whatever is submitted meanwhile.\<close>

theorem disruptions_serial:
  assumes "pbt_run es new_queue = Some q" "\<forall>e \<in> set es. \<forall>err. e \<noteq> Restore (Some err)"
  shows "length (pq_net q) \<le> 1 \<and> (pq_worker q = Waiting \<or> (\<exists>j. pq_worker q = Took j) \<longrightarrow> pq_net q = [])"
proof -
  have "whole_between new_queue" by (simp add: whole_between_def new_queue_def)
  with assms have "whole_between q" by (blast intro: whole_between_run)
  then show ?thesis by (auto simp: whole_between_def split: worker.splits)
qed

theorem disruptions_serial_witness:
  "map_option pq_net (pbt_run [Check ProposerFork, Enter 0, Receive, Announce, Cut [] ''p'' [[1], [2]] None,
      Finish (new_result ''proposer-fork'' 0 1), Restore None] new_queue) = Some []"
proof -
  let ?es = "[Check ProposerFork, Enter 0, Receive, Announce, Cut [] ''p'' [[1], [2]] None,
      Finish (new_result ''proposer-fork'' 0 1), Restore None]"
  obtain q where r: "pbt_run ?es new_queue = Some q" "pq_worker q = Waiting"
    by (simp add: check_quiesced_def enqueue_def announce_def job_done_def restore_def new_queue_def)
  with disruptions_serial [of ?es q] show ?thesis by simp
qed

section \<open>Configuration\<close>

lemma dial_els_length: "dial_els d ss = Inr els \<Longrightarrow> length els = length ss"
  by (induction ss arbitrary: els) (auto split: option.splits prod.splits sum.splits)

lemma protected_positive: "protected_nodes ps = Inr ns \<Longrightarrow> finite ns \<and> (\<forall>n \<in> ns. 1 \<le> n)"
  by (induction ps arbitrary: ns) (auto split: option.splits if_splits sum.splits)

lemma positive_counts_pos: "positive_counts fs = Some ns \<Longrightarrow> 0 \<notin> set ns"
  by (induction fs arbitrary: ns) (auto split: option.splits if_splits)

lemma validator_counts_fit:
  "validator_counts_of s n = Inr cs \<Longrightarrow> (cs = [] \<or> length cs = n) \<and> 0 \<notin> set cs"
  by (auto simp: validator_counts_of_def parse_validator_counts_def split: if_splits option.splits
      dest: positive_counts_pos)

lemma eligible_nonempty:
  assumes "finite ns" "card ns < nat n"
  shows "eligible ns n \<noteq> []"
proof
  assume "eligible ns n = []"
  then have "{1..n} \<subseteq> ns" by (auto simp: eligible_def filter_empty_conv)
  with card_mono [OF assms(1) this] assms(2) show False by simp
qed

text \<open>A start that is not refused can disrupt: some node is eligible, the isolation's bounds are
  ordered, a list of validator counts is positive and has one entry per node, and the periodic
  forks run only with a consensus client to ask.\<close>

theorem setup_can_disrupt:
  assumes "chaos_setup fg w = Inr (cfg, els, cls)"
  shows "eligible (cc_protected cfg) (cc_node_count cfg) \<noteq> [] \<and> cc_node_count cfg = int (length els) \<and>
    cc_isolate_min cfg \<le> cc_isolate_max cfg \<and>
    (cc_validator_counts cfg = [] \<or> length (cc_validator_counts cfg) = length els) \<and> 0 \<notin> set (cc_validator_counts cfg) \<and>
    (cc_isolate_enabled cfg \<longrightarrow> cls \<noteq> []) \<and> ch_clear w = None"
proof -
  from assms obtain ns cs where s: "fl_iso_min fg \<le> fl_iso_max fg" "protected_nodes (fl_protect fg) = Inr ns"
    "card ns < length els" "validator_counts_of (fl_validator_counts fg) (length els) = Inr cs"
    "cfg = chaos_config_of fg els cls ns cs" "ch_clear w = None"
    by (auto simp: chaos_setup_def split: if_splits sum.splits option.splits)
  have "eligible ns (int (length els)) \<noteq> []"
    using protected_positive [OF s(2)] s(3) by (intro eligible_nonempty) simp_all
  with s validator_counts_fit [OF s(4)] show ?thesis by (simp add: chaos_config_of_def)
qed

section \<open>Rotation\<close>

fun rotations :: "int set \<Rightarrow> int \<Rightarrow> nat \<Rightarrow> nat \<Rightarrow> int list" where
  "rotations protected n turn 0 = []"
| "rotations protected n turn (Suc k) =
     (case next_minority protected n turn of (i, turn') \<Rightarrow> i # rotations protected n turn' k)"

lemma rotations_nth:
  "eligible p n \<noteq> [] \<Longrightarrow> rotations p n turn k = map (\<lambda>i. eligible p n ! ((turn + i) mod length (eligible p n))) [0..<k]"
  by (induction k arbitrary: turn) (simp_all add: next_minority_def Let_def upt_conv_Cons map_Suc_upt [symmetric] del: upt_Suc)

lemma mset_rotated: "mset (rotate k xs) = mset xs"
proof (induction k)
  case (Suc k)
  have "mset (rotate1 ys) = mset ys" for ys :: "'a list" by (cases ys) simp_all
  with Suc show ?case by simp
qed simp

lemma rotation_fair_pick:
  assumes "eligible protected n \<noteq> []"
  shows "fst (minority_for protected n pick turn) \<in> set (eligible protected n)"
proof -
  have "eligible protected n ! (turn mod length (eligible protected n)) \<in> set (eligible protected n)" using assms by simp
  with assms show ?thesis by (auto simp: minority_for_def next_minority_def Let_def eligible_def)
qed

text \<open>The rotation is fair: from any turn on, as many scenarios as there are eligible nodes doom
  each of them exactly once and no protected node; a pinned node is doomed itself only when it
  is a known, unprotected one.\<close>

theorem rotation_fair:
  assumes "eligible protected n \<noteq> []"
  shows "mset (rotations protected n turn (length (eligible protected n))) = mset (eligible protected n) \<and>
    (case minority_for protected n pick turn of (i, turn') \<Rightarrow>
       i \<in> set (eligible protected n) \<and> (i \<noteq> pick \<longrightarrow> turn' = turn + 1) \<and> (pick \<in> set (eligible protected n) \<longrightarrow> i = pick))"
proof -
  let ?e = "eligible protected n"
  have "rotations protected n turn (length ?e) = rotate turn ?e"
    using rotations_nth [OF assms] by (intro nth_equalityI) (simp_all add: nth_rotate add.commute)
  then have "mset (rotations protected n turn (length ?e)) = mset ?e"
    by (simp only: mset_rotated)
  moreover have "?e ! (turn mod length ?e) \<in> set ?e" using assms by simp
  ultimately show ?thesis using assms
    by (auto simp: minority_for_def next_minority_def Let_def eligible_def)
qed

theorem rotation_fair_witness:
  "mset (rotations {1} 4 7 3) = mset [2, 3, 4]"
proof -
  have e: "eligible {1} 4 = [2, 3, 4]" by (simp add: eligible_def upto.simps)
  show ?thesis using rotation_fair [of "{1}" 4 7 0] unfolding e by (simp add: numeral_3_eq_3 [symmetric])
qed

text \<open>A pinned minority does not advance the rotation, so two pinned runs in a row are handed the
  same pair of keys.\<close>

lemma pinned_runs_share_keys:
  assumes "pick \<in> set (eligible protected n)" "minority_for protected n pick turn = (i, turn1)"
    "minority_for protected n pick' turn1 = (k, turn2)" "pick' \<in> set (eligible protected n)"
  shows "keys_for keys turn1 = keys_for keys turn2"
  using assms by (auto simp: minority_for_def eligible_def split: if_splits)

text \<open>The flags of a four-node devnet whose first node is protected.\<close>

definition devnet_flags :: chaos_flags where
  "devnet_flags =
     \<lparr>fl_api = ''http://d'', fl_els = [''a=u1'', ''b=u2'', ''c=u3'', ''d=u4''], fl_cls = [''cl=v''], fl_protect = [''1''],
      fl_slot_seconds = 6 * second, fl_validators_per = 128, fl_validator_counts = '''', fl_isolation = True,
      fl_iso_min = 15, fl_iso_max = 30, fl_isolate_for = 0, fl_depth = 10, fl_max_depth = 0\<rparr>"

theorem setup_can_disrupt_witness:
  "\<exists>cfg els cls. chaos_setup devnet_flags \<lparr>ch_dial = (\<lambda>_. None), ch_containers = Inr 12, ch_clear = None\<rparr> = Inr (cfg, els, cls) \<and>
     length els = 4 \<and> eligible (cc_protected cfg) (cc_node_count cfg) \<noteq> []"
proof -
  let ?w = "\<lparr>ch_dial = (\<lambda>_. None), ch_containers = Inr 12, ch_clear = None\<rparr>"
  have "atoi ''1'' = Some 1" by code_simp
  then have "\<exists>cfg els cls. chaos_setup devnet_flags ?w = Inr (cfg, els, cls) \<and> length els = 4"
    by (simp add: chaos_setup_def devnet_flags_def validator_counts_of_def)
  with setup_can_disrupt [of devnet_flags ?w] show ?thesis by blast
qed

end
