(* ===== verification/PbtReorg.thy ===== *)
theory PbtReorg
  imports PbtQueue
begin

text \<open>
  How the reorg driver reads the chain and forks it (\<open>cmd/pbtchaos/chain.go\<close>, \<open>isolate.go\<close>): heads
  and hashes over the clients, proposer duties, the participant behind a validator, the wait for
  the duty's slot, the watch for a changed hash, and the periodic isolation of the next proposer.
  Every read of a client is an answer; a polling loop runs over the answers of its polls and is
  \<open>None\<close> while it still waits. A zero hash is the empty string. Panics are \<open>None\<close> of the outer
  option where a function can panic.
\<close>

section \<open>Heads and hashes\<close>

text \<open>The clients in order, each with its head or the error of asking for it.\<close>

type_synonym head_answers = "(string \<times> (string + u64)) list"

fun lowest_from :: "u64 \<Rightarrow> head_answers \<Rightarrow> string + u64" where
  "lowest_from low [] = Inr low"
| "lowest_from low ((name, a) # xs) =
     (case a of Inl e \<Rightarrow> Inl (name @ '': '' @ e) | Inr n \<Rightarrow> lowest_from (if n < low then n else low) xs)"

definition lowest_head :: "head_answers \<Rightarrow> string + u64" where
  "lowest_head xs =
     (case xs of
        [] \<Rightarrow> Inr 0
      | (name, Inl e) # _ \<Rightarrow> Inl (name @ '': '' @ e)
      | (_, Inr n) # ys \<Rightarrow> lowest_from n ys)"

text \<open>Whether all clients gave one hash, possibly none at all.\<close>

definition agreed :: "string list \<Rightarrow> bool" where
  "agreed hs \<longleftrightarrow> (\<forall>h \<in> set hs. h = hs ! 0)"

text \<open>\<open>waitBlocks\<close>: each poll finds the context ended or the heads; an error is returned as such.\<close>

fun wait_polls :: "u64 \<Rightarrow> (string + head_answers) list \<Rightarrow> string option option" where
  "wait_polls target [] = None"
| "wait_polls target (Inl e # ps) = Some (Some e)"
| "wait_polls target (Inr xs # ps) =
     (case lowest_head xs of
        Inl _ \<Rightarrow> wait_polls target ps
      | Inr n \<Rightarrow> if target \<le> n then Some None else wait_polls target ps)"

definition wait_blocks :: "u64 \<Rightarrow> head_answers \<Rightarrow> (string + head_answers) list \<Rightarrow> string option option" where
  "wait_blocks n start polls =
     (case lowest_head start of Inl e \<Rightarrow> Some (Some e) | Inr s \<Rightarrow> wait_polls (s + n) polls)"

section \<open>Duties\<close>

record duty =
  du_slot :: u64
  du_validator :: u64

text \<open>The duties of an answer: pairs of slot and validator, those that do not parse left out. The
  order of duties of one slot, of which a chain has one, is the answer's.\<close>

definition read_duties :: "(string \<times> string) list \<Rightarrow> duty list" where
  "read_duties ds =
     sort_key du_slot (List.map_filter (\<lambda>(slot, vi).
       case (parse_uint_dec slot, parse_uint_dec vi) of
         (Some s, Some v) \<Rightarrow> Some \<lparr>du_slot = s, du_validator = v\<rparr>
       | _ \<Rightarrow> None) ds)"

definition head_slot :: "string + string \<Rightarrow> string + u64" where
  "head_slot a =
     (case a of
        Inl e \<Rightarrow> Inl e
      | Inr s \<Rightarrow> (case parse_uint_dec s of None \<Rightarrow> Inl (''parsing '' @ s) | Some n \<Rightarrow> Inr n))"

text \<open>A consensus client's peer count, which the API sends as a string.\<close>

definition peer_count :: "string + string \<Rightarrow> string + int" where
  "peer_count a =
     (case a of
        Inl e \<Rightarrow> Inl e
      | Inr s \<Rightarrow> (case atoi s of None \<Rightarrow> Inl (''parsing '' @ s) | Some n \<Rightarrow> Inr n))"

section \<open>The proposer\<close>

fun counted_participant :: "u64 \<Rightarrow> u64 \<Rightarrow> int \<Rightarrow> u64 list \<Rightarrow> int" where
  "counted_participant vi below i [] = 0"
| "counted_participant vi below i (n # ns) =
     (if vi < below + n then i + 1 else counted_participant vi (below + n) (i + 1) ns)"

text \<open>\<open>None\<close> where the code divides by zero validators per node.\<close>

definition participant_for :: "chaos_config \<Rightarrow> u64 \<Rightarrow> int option" where
  "participant_for cfg vi =
     (if cc_validator_counts cfg = [] then
        (if cc_validators_per cfg = 0 then None else Some (wrap64 (sint (vi div cc_validators_per cfg) + 1)))
      else Some (counted_participant vi 0 0 (cc_validator_counts cfg)))"

fun first_known :: "chaos_config \<Rightarrow> u64 \<Rightarrow> duty list \<Rightarrow> (int \<times> u64) option option" where
  "first_known cfg hs [] = Some None"
| "first_known cfg hs (d # ds) =
     (if du_slot d < hs + 2 then first_known cfg hs ds
      else case participant_for cfg (du_validator d) of
        None \<Rightarrow> None
      | Some node \<Rightarrow>
          if node < 1 \<or> cc_node_count cfg < node then first_known cfg hs ds else Some (Some (node, du_slot d)))"

abbreviation "slotsPerEpoch \<equiv> (32 :: u64)"

text \<open>The next proposer and its slot, from the first beacon client: its head slot and the duties of
  an epoch, none when the request failed.\<close>

definition next_proposer ::
  "chaos_config \<Rightarrow> string + string \<Rightarrow> (u64 \<Rightarrow> (string \<times> string) list option) \<Rightarrow> (string + int \<times> u64) option"
where
  "next_proposer cfg answer duties =
     (case head_slot answer of
        Inl e \<Rightarrow> Some (Inl (''head slot: '' @ e))
      | Inr hs \<Rightarrow>
          let epoch = hs div slotsPerEpoch;
              ds = concat (map (\<lambda>e. case duties e of None \<Rightarrow> [] | Some d \<Rightarrow> read_duties d) [epoch, epoch + 1])
          in if ds = [] then Some (Inl ''no proposer duties available'')
             else (case first_known cfg hs ds of
                     None \<Rightarrow> None
                   | Some None \<Rightarrow> Some (Inl ''no upcoming proposer maps to a known node'')
                   | Some (Some r) \<Rightarrow> Some (Inr r)))"

section \<open>The isolation's window\<close>

definition isolation_window :: "chaos_config \<Rightarrow> duration \<times> u64 \<times> u64 \<times> bool" where
  "isolation_window cfg =
     (let s = (if 0 < cc_slot_seconds cfg then word_of_int (go_div (cc_isolate_for cfg) (cc_slot_seconds cfg)) else 0) :: u64;
          slots = (if 0 < s then s else 1);
          requested = slots - 1
      in case clamp_depth requested (cc_max_depth cfg) of
           (depth, clamped) \<Rightarrow>
             (if \<not> clamped then (cc_isolate_for cfg, depth, requested, False)
              else (wrap64 (sint (depth + 1) * cc_slot_seconds cfg), depth, requested, True)))"

text \<open>\<open>waitUntilSlot\<close>: a poll finds the context ended, the deadline passed or the head slot.\<close>

datatype slot_poll = CtxEnded string | PastDeadline | SlotRead "string + string"

fun wait_until_slot :: "u64 \<Rightarrow> slot_poll list \<Rightarrow> string option option" where
  "wait_until_slot target [] = None"
| "wait_until_slot target (CtxEnded e # ps) = Some (Some e)"
| "wait_until_slot target (PastDeadline # ps) = Some (Some (''slot '' @ show_nat (unat target) @ '' never arrived''))"
| "wait_until_slot target (SlotRead a # ps) =
     (case head_slot a of
        Inl _ \<Rightarrow> wait_until_slot target ps
      | Inr cur \<Rightarrow> if target \<le> cur then Some None else wait_until_slot target ps)"

section \<open>The watch\<close>

record reorg_event =
  rv_client :: string
  rv_height :: u64
  rv_before :: string
  rv_after :: string

type_synonym seen_hashes = "string \<Rightarrow> u64 \<Rightarrow> string option"

text \<open>One client's read-back at a poll: the heights near its head and the hash it has there.\<close>

fun watch_heights :: "string \<Rightarrow> (u64 \<Rightarrow> string) \<Rightarrow> u64 list \<Rightarrow> seen_hashes \<Rightarrow> seen_hashes \<times> reorg_event option" where
  "watch_heights name hash_at [] seen = (seen, None)"
| "watch_heights name hash_at (h # hs) seen =
     (let got = hash_at h
      in if got = '''' then watch_heights name hash_at hs seen
         else case seen name h of
           Some was \<Rightarrow>
             if was \<noteq> got then
               (seen, Some \<lparr>rv_client = name, rv_height = h, rv_before = was, rv_after = got\<rparr>)
             else watch_heights name hash_at hs (seen(name := (seen name)(h := Some got)))
         | None \<Rightarrow> watch_heights name hash_at hs (seen(name := (seen name)(h := Some got))))"

definition watched_heights :: "u64 \<Rightarrow> u64 list" where
  "watched_heights n = map of_nat [unat (if 4 < n then n - 4 else 0)..<Suc (unat n)]"

text \<open>A client's answers at a poll: its head, if it gave one, and its hashes.\<close>

type_synonym client_view = "string \<times> u64 option \<times> (u64 \<Rightarrow> string)"

fun watch_clients :: "client_view list \<Rightarrow> seen_hashes \<Rightarrow> seen_hashes \<times> reorg_event option" where
  "watch_clients [] seen = (seen, None)"
| "watch_clients ((name, hdx, hash_at) # cs) seen =
     (case hdx of
        None \<Rightarrow> watch_clients cs seen
      | Some n \<Rightarrow>
          (case watch_heights name hash_at (watched_heights n) seen of
             (seen', Some ev) \<Rightarrow> (seen', Some ev)
           | (seen', None) \<Rightarrow> watch_clients cs seen'))"

text \<open>The polls until the window closes or the context ends, which is the end of the list.\<close>

fun watch_polls :: "client_view list list \<Rightarrow> seen_hashes \<Rightarrow> reorg_event option" where
  "watch_polls [] seen = None"
| "watch_polls (p # ps) seen =
     (case watch_clients p seen of (_, Some ev) \<Rightarrow> Some ev | (seen', None) \<Rightarrow> watch_polls ps seen')"

definition watch_reorg :: "client_view list list \<Rightarrow> reorg_event option" where
  "watch_reorg polls = watch_polls polls (\<lambda>_ _. None)"

section \<open>The periodic fork\<close>

text \<open>One turn of \<open>isolationLoop\<close> once enough blocks have passed: it ends, skips or submits.\<close>

definition isolation_turn :: "pbt_queue \<Rightarrow> (pbt_queue \<times> submitted option) option" where
  "isolation_turn q =
     (if pq_quiesced q then None
      else if pbt_busy q then Some (q, None)
      else (case submit ProposerFork q of (q', s) \<Rightarrow> Some (q', Some s)))"

text \<open>The blocks to wait for: \<open>rnd\<close> is the number drawn below the width of the range.\<close>

definition isolation_gap :: "chaos_config \<Rightarrow> u64 \<Rightarrow> u64" where
  "isolation_gap cfg rnd = (if cc_isolate_min cfg < cc_isolate_max cfg then cc_isolate_min cfg + rnd else cc_isolate_min cfg)"

fun cut_error :: "disruptoor_error \<Rightarrow> string" where
  "cut_error (Transport e) = e"
| "cut_error (TooFewGroups name n) = ''partition '' @ quoted name @ '' needs at least two groups, got '' @ show_nat n"
| "cut_error (BadIndex name m) = ''partition '' @ quoted name @ '': node-index '' @ m"

definition short_hash :: "string \<Rightarrow> string" where
  "short_hash h = take 12 h"

record fork_world =
  fw_started :: gotime
  fw_head_slot :: "string + string"
  fw_duties :: "u64 \<Rightarrow> (string \<times> string) list option"
  fw_slots :: "slot_poll list"
  fw_cut :: "string option"
  fw_polls :: "client_view list list"
  fw_clear :: "string option"

definition fork_result :: "gotime \<Rightarrow> u64 \<Rightarrow> u64 \<Rightarrow> bool \<Rightarrow> chaos_result" where
  "fork_result started depth requested clamped =
     (new_result ''proposer-fork'' started depth)\<lparr>cr_requested := if clamped then requested else 0\<rparr>"

text \<open>The result, the network after it, and the client whose reorg is counted. The zero hash of the
  code prints as 66 characters and does not occur in a report.\<close>

definition isolation_fork ::
  "chaos_config \<Rightarrow> int list \<Rightarrow> fork_world \<Rightarrow> partition_spec list \<Rightarrow>
     (chaos_result \<times> partition_spec list \<times> string option) option"
where
  "isolation_fork cfg observers w net =
     (case isolation_window cfg of
        (window, depth, requested, clamped) \<Rightarrow>
          let res = fork_result (fw_started w) depth requested clamped;
              ends = (\<lambda>oc d. Some (res\<lparr>cr_outcome := oc, cr_detail := d\<rparr>, net, None))
          in case next_proposer cfg (fw_head_slot w) (fw_duties w) of
               None \<Rightarrow> None
             | Some (Inl e) \<Rightarrow> ends ''skipped'' (lit e)
             | Some (Inr (node, slot)) \<Rightarrow>
                 if node \<in> cc_protected cfg then
                   ends ''skipped'' (Fmt ''node %d proposes next but is protected from disruption'' [DI node])
                 else
                   let others = filter (\<lambda>i. i \<noteq> node) [1..cc_node_count cfg]
                   in if others = [] then ends ''skipped'' (lit ''only one node, so nothing to be isolated from'')
                      else case wait_until_slot (slot - 1) (fw_slots w) of
                        None \<Rightarrow> None
                      | Some (Some e) \<Rightarrow> ends ''skipped'' (Fmt ''waiting for slot %d: %v'' [DI (uint (slot - 1)), DS e])
                      | Some None \<Rightarrow>
                          (case disrupt_partition observers (''proposer-'' @ show_nat (unat slot)) [others, [node]] (fw_cut w) net of
                             (net1, Some e) \<Rightarrow> Some
                               (res\<lparr>cr_outcome := ''error'',
                                    cr_detail := Fmt ''could not isolate node %d: %v'' [DI node, DS (cut_error e)]\<rparr>, net1, None)
                           | (net1, None) \<Rightarrow>
                               let net2 = fst (disrupt_clear (fw_clear w) net1)
                               in case watch_reorg (fw_polls w) of
                                    Some ev \<Rightarrow> Some
                                      (res\<lparr>cr_reorged := True, cr_outcome := ''reorged'',
                                           cr_detail := Fmt ''isolated node %d at slot %d; %s saw block %d change %s -> %s''
                                             [DI node, DI (uint slot), DS (rv_client ev), DI (uint (rv_height ev)),
                                              DS (short_hash (rv_before ev)), DS (short_hash (rv_after ev))]\<rparr>,
                                       net2, Some (rv_client ev))
                                  | None \<Rightarrow> Some
                                      (res\<lparr>cr_outcome := ''no-reorg'',
                                           cr_detail := Fmt ''node %d isolated at slot %d, no client changed a block hash''
                                             [DI node, DI (uint slot)]\<rparr>,
                                       net2, None)))"

section \<open>Whose validator it is\<close>

text \<open>The first validator of the participant after the first \<open>k\<close>.\<close>

definition counted_index :: "u64 list \<Rightarrow> nat \<Rightarrow> nat" where
  "counted_index ns k = sum_list (map unat (take k ns))"

lemma counted_index_simps [simp]:
  "counted_index ns 0 = 0" "counted_index (n # ns) (Suc k) = unat n + counted_index ns k" "counted_index [] k = 0"
  by (simp_all add: counted_index_def)

lemma counted_index_all: "counted_index ns (length ns) = sum_list (map unat ns)"
  by (simp add: counted_index_def)

lemma unat_add_small: "unat a + unat b < 2 ^ 64 \<Longrightarrow> unat (a + b) = unat a + unat b" for a b :: u64
  by (subst unat_add_lem [THEN iffD1]) simp_all

lemma counted_hit:
  "unat below + sum_list (map unat ns) < 2 ^ 64 \<Longrightarrow> k < length ns \<Longrightarrow> unat below + counted_index ns k \<le> unat vi \<Longrightarrow>
    unat vi < unat below + counted_index ns (Suc k) \<Longrightarrow> counted_participant vi below i ns = i + int k + 1"
proof (induction ns arbitrary: below i k)
  case (Cons n ns)
  have a: "unat (below + n) = unat below + unat n" using Cons.prems(1) by (intro unat_add_small) simp
  show ?case
  proof (cases k)
    case 0
    with Cons.prems(4) a show ?thesis by (simp add: word_less_nat_alt)
  next
    case (Suc m)
    with Cons.prems a have "\<not> vi < below + n" by (simp add: word_less_nat_alt)
    with Suc Cons.prems a Cons.IH [of "below + n" m "i + 1"] show ?thesis by simp
  qed
qed simp

lemma counted_miss:
  "unat below + sum_list (map unat ns) < 2 ^ 64 \<Longrightarrow> unat below + sum_list (map unat ns) \<le> unat vi \<Longrightarrow>
    counted_participant vi below i ns = 0"
proof (induction ns arbitrary: below i)
  case (Cons n ns)
  have a: "unat (below + n) = unat below + unat n" using Cons.prems(1) by (intro unat_add_small) simp
  with Cons.prems have "\<not> vi < below + n" by (simp add: word_less_nat_alt)
  with a Cons.prems Cons.IH [of "below + n" "i + 1"] show ?case by simp
qed simp

lemma some_range: "v < sum_list (map unat ns) \<Longrightarrow> \<exists>k < length ns. counted_index ns k \<le> v \<and> v < counted_index ns (Suc k)"
proof (induction ns arbitrary: v)
  case (Cons n ns)
  show ?case
  proof (cases "v < unat n")
    case True
    then show ?thesis by (intro exI [of _ 0]) simp
  next
    case False
    with Cons.prems have "v - unat n < sum_list (map unat ns)" by simp
    with Cons.IH [of "v - unat n"] obtain k where
      k: "k < length ns" "counted_index ns k \<le> v - unat n" "v - unat n < counted_index ns (Suc k)" by auto
    with False have "counted_index (n # ns) (Suc k) \<le> v" "v < counted_index (n # ns) (Suc (Suc k))"
      by simp_all
    with k(1) show ?thesis by (intro exI [of _ "Suc k"]) simp
  qed
qed simp

text \<open>With uneven stake the participant behind a validator is the one whose half-open range of
  the counts' prefix sums holds it, and nobody past the last; with every count the same this is
  the quotient the driver takes without a list.\<close>

theorem participant_exact:
  assumes "cc_validator_counts cfg = ns" "ns \<noteq> []" "sum_list (map unat ns) < 2 ^ 64"
  shows "(\<forall>k < length ns. participant_for cfg vi = Some (int k + 1) \<longleftrightarrow> counted_index ns k \<le> unat vi \<and> unat vi < counted_index ns (Suc k)) \<and>
    (participant_for cfg vi = Some 0 \<longleftrightarrow> sum_list (map unat ns) \<le> unat vi) \<and>
    (\<forall>per. ns = replicate (length ns) per \<and> length ns < 2 ^ 63 \<and> unat vi < sum_list (map unat ns) \<longrightarrow>
       participant_for cfg vi = participant_for (cfg\<lparr>cc_validator_counts := [], cc_validators_per := per\<rparr>) vi)"
proof -
  have p: "participant_for cfg vi = Some (counted_participant vi 0 0 ns)" using assms(1,2) by (simp add: participant_for_def)
  have hit: "counted_participant vi 0 0 ns = int k + 1"
    if "k < length ns" "counted_index ns k \<le> unat vi" "unat vi < counted_index ns (Suc k)" for k
    using counted_hit [of 0 ns k vi 0] that assms(3) by simp
  have miss: "counted_participant vi 0 0 ns = 0" if "sum_list (map unat ns) \<le> unat vi"
    using counted_miss [of 0 ns vi 0] that assms(3) by simp
  have ranges: "\<exists>j < length ns. counted_index ns j \<le> unat vi \<and> unat vi < counted_index ns (Suc j) \<and> counted_participant vi 0 0 ns = int j + 1"
    if "\<not> sum_list (map unat ns) \<le> unat vi"
    using some_range [of "unat vi" ns] that hit by force
  have one: "participant_for cfg vi = Some (int k + 1) \<longleftrightarrow> counted_index ns k \<le> unat vi \<and> unat vi < counted_index ns (Suc k)"
    if "k < length ns" for k
    using p hit [OF that] miss ranges by (cases "sum_list (map unat ns) \<le> unat vi") auto
  have zero: "participant_for cfg vi = Some 0 \<longleftrightarrow> sum_list (map unat ns) \<le> unat vi"
    using p miss ranges by (cases "sum_list (map unat ns) \<le> unat vi") auto
  have same: "participant_for cfg vi = participant_for (cfg\<lparr>cc_validator_counts := [], cc_validators_per := per\<rparr>) vi"
    if r: "ns = replicate (length ns) per" and small: "length ns < 2 ^ 63" and v: "unat vi < sum_list (map unat ns)" for per
  proof -
    let ?q = "unat vi div unat per"
    have first: "counted_index ns k = k * unat per" if "k \<le> length ns" for k
      using that by (subst r) (simp add: counted_index_def sum_list_replicate)
    from v first [of "length ns"] have pos: "0 < unat per" "unat vi < length ns * unat per"
      by (auto simp: counted_index_all intro: Nat.gr0I)
    then have q: "?q < length ns" by (simp add: div_less_iff_less_mult)
    have "counted_index ns ?q \<le> unat vi" "unat vi < counted_index ns (Suc ?q)"
      using first [of ?q] first [of "Suc ?q"] q pos(1) dividend_less_div_times [of "unat per" "unat vi"] by simp_all
    with one q have "participant_for cfg vi = Some (int ?q + 1)" by blast
    moreover have "sint (vi div per) = int ?q"
      using q small by (subst sint_small) (simp_all add: unat_div)
    moreover have "per \<noteq> 0" using pos(1) by auto
    ultimately show ?thesis using q small by (simp add: participant_for_def wrap64_id)
  qed
  show ?thesis using one zero same by blast
qed

theorem participant_exact_witness:
  "participant_for (chaos_config_of devnet_flags [] [] {} [128, 64, 256]) 192 = Some 3"
  using participant_exact [of "chaos_config_of devnet_flags [] [] {} [128, 64, 256]" "[128, 64, 256]" 192]
  by (simp add: chaos_config_of_def counted_index_def less_Suc_eq numeral_3_eq_3)

section \<open>Who proposes next\<close>

definition duties_near :: "(u64 \<Rightarrow> (string \<times> string) list option) \<Rightarrow> u64 \<Rightarrow> duty set" where
  "duties_near duties hs =
     {d. \<exists>e \<in> {hs div slotsPerEpoch, hs div slotsPerEpoch + 1}. \<exists>ds. duties e = Some ds \<and> d \<in> set (read_duties ds)}"

definition targetable :: "chaos_config \<Rightarrow> u64 \<Rightarrow> duty \<Rightarrow> int \<Rightarrow> bool" where
  "targetable cfg hs d node \<longleftrightarrow>
     hs + 2 \<le> du_slot d \<and> participant_for cfg (du_validator d) = Some node \<and> 1 \<le> node \<and> node \<le> cc_node_count cfg"

lemma first_known_Some:
  assumes "first_known cfg hs ds = Some r" "sorted (map du_slot ds)"
  shows "case r of
      None \<Rightarrow> \<forall>d \<in> set ds. \<forall>n. \<not> targetable cfg hs d n
    | Some (node, slot) \<Rightarrow> \<exists>d \<in> set ds. du_slot d = slot \<and> targetable cfg hs d node \<and>
        (\<forall>d' \<in> set ds. \<forall>n. targetable cfg hs d' n \<longrightarrow> slot \<le> du_slot d')"
  using assms
proof (induction ds)
  case (Cons d ds)
  show ?case
  proof (cases "du_slot d < hs + 2 \<or> (\<exists>n. participant_for cfg (du_validator d) = Some n \<and> (n < 1 \<or> cc_node_count cfg < n))")
    case True
    then have "\<forall>n. \<not> targetable cfg hs d n" by (auto simp: targetable_def)
    moreover have "first_known cfg hs ds = Some r" using True Cons.prems(1) by (auto split: if_splits)
    ultimately show ?thesis using Cons.IH Cons.prems(2) by (cases r) auto
  next
    case False
    with Cons.prems(1) obtain node where "participant_for cfg (du_validator d) = Some node" "r = Some (node, du_slot d)"
      by (auto split: if_splits option.splits)
    with False Cons.prems(2) show ?thesis by (auto simp: targetable_def)
  qed
qed simp

lemma read_duties_sorted: "sorted (map du_slot (read_duties ds))"
  by (simp add: read_duties_def)

lemma word_div32: "a div 32 < b div 32 \<Longrightarrow> a < b" for a b :: u64
  by (simp add: word_less_nat_alt unat_div)

lemma epoch_succ: "hs div 32 < hs div 32 + 1" for hs :: u64
proof -
  have "unat hs < 2 ^ LENGTH(64)" by (rule unsigned_less)
  then have "unat (hs div 32) < 2 ^ 59" by (simp add: unat_div)
  then show ?thesis by (simp add: word_less_nat_alt unat_add_small [of "hs div 32" 1])
qed

lemma sorted_two_epochs:
  assumes "\<forall>d \<in> set ds. du_slot d div 32 = e" "\<forall>d \<in> set ds'. du_slot d div 32 = e'" "e < e'"
    and "sorted (map du_slot ds)" "sorted (map du_slot ds')"
  shows "sorted (map du_slot (ds @ ds'))"
proof -
  have "du_slot d \<le> du_slot d'" if "d \<in> set ds" "d' \<in> set ds'" for d d'
    using word_div32 [of "du_slot d" "du_slot d'"] assms(1-3) that by auto
  with assms(4,5) show ?thesis by (simp add: sorted_append)
qed

text \<open>The periodic fork aims at the earliest duty it can: with the beacon's duties lying in the
  epochs they were asked for, the proposer returned holds the first slot at least two past the
  head whose validator belongs to a known node, in this epoch or the next, and the attempt is
  given up for the lack of one exactly when there is none.\<close>

theorem next_proposer_exact:
  assumes "head_slot answer = Inr hs" "next_proposer cfg answer duties = Some r"
    and epochs: "\<And>e ds d. duties e = Some ds \<Longrightarrow> d \<in> set (read_duties ds) \<Longrightarrow> du_slot d div slotsPerEpoch = e"
  shows "case r of
      Inr (node, slot) \<Rightarrow> \<exists>d \<in> duties_near duties hs. du_slot d = slot \<and> targetable cfg hs d node \<and>
        (\<forall>d' \<in> duties_near duties hs. \<forall>n. targetable cfg hs d' n \<longrightarrow> slot \<le> du_slot d')
    | Inl _ \<Rightarrow> \<forall>d \<in> duties_near duties hs. \<forall>n. \<not> targetable cfg hs d n"
proof -
  define near where "near e = (case duties e of None \<Rightarrow> [] | Some d \<Rightarrow> read_duties d)" for e
  let ?e = "hs div 32"
  let ?ds = "near ?e @ near (?e + 1)"
  have set: "set ?ds = duties_near duties hs"
    by (auto simp: near_def duties_near_def split: option.splits)
  have in_epoch: "\<forall>d \<in> set (near e). du_slot d div 32 = e" for e
    using epochs [of e] by (cases "duties e") (auto simp: near_def)
  have "sorted (map du_slot (near e))" for e
    by (simp add: near_def read_duties_sorted split: option.splits)
  then have sorted: "sorted (map du_slot ?ds)"
    using in_epoch epoch_succ by (intro sorted_two_epochs) auto
  have n: "next_proposer cfg answer duties =
      (if ?ds = [] then Some (Inl ''no proposer duties available'')
       else (case first_known cfg hs ?ds of
               None \<Rightarrow> None
             | Some None \<Rightarrow> Some (Inl ''no upcoming proposer maps to a known node'')
             | Some (Some r) \<Rightarrow> Some (Inr r)))"
    unfolding next_proposer_def Let_def assms(1) near_def by simp
  show ?thesis
  proof (cases "?ds = []")
    case True
    with n assms(2) have "r = Inl ''no proposer duties available''" by simp
    with True set show ?thesis by auto
  next
    case False
    with n assms(2) obtain f where f: "first_known cfg hs ?ds = Some f"
      "r = (case f of None \<Rightarrow> Inl ''no upcoming proposer maps to a known node'' | Some q \<Rightarrow> Inr q)"
      by (auto split: option.splits)
    from first_known_Some [OF f(1) sorted] f(2) show ?thesis unfolding set by (auto split: option.splits)
  qed
qed

text \<open>A chain of four nodes with 64 validators each, at slot 30: the duties of slots 31 and 33 are
  of nodes 1 and 2; only the second leaves time.\<close>

definition near_duties :: "u64 \<Rightarrow> (string \<times> string) list option" where
  "near_duties e = (if e = 0 then Some [(''31'', ''5'')] else if e = 1 then Some [(''33'', ''70'')] else None)"

definition even_stake :: chaos_config where
  "even_stake = chaos_config_of (devnet_flags\<lparr>fl_validators_per := 64\<rparr>) [(''a'', ''''), (''b'', ''''), (''c'', ''''), (''d'', '''')] [] {} []"

lemma near_duties_read:
  "read_duties [(''31'', ''5'')] = [\<lparr>du_slot = 31, du_validator = 5\<rparr>]"
  "read_duties [(''33'', ''70'')] = [\<lparr>du_slot = 33, du_validator = 70\<rparr>]"
  by (simp_all add: read_duties_def map_filter_def parse_uint_dec_def to_u64_def digit_of_def)

theorem next_proposer_exact_witness:
  "\<exists>d \<in> duties_near near_duties 30. du_slot d = 33 \<and> targetable even_stake 30 d 2 \<and>
     (\<forall>d' \<in> duties_near near_duties 30. \<forall>n. targetable even_stake 30 d' n \<longrightarrow> 33 \<le> du_slot d')"
proof -
  have h: "head_slot (Inr ''30'') = Inr 30"
    by (simp add: head_slot_def parse_uint_dec_def to_u64_def digit_of_def)
  have e: "du_slot d div slotsPerEpoch = e" if "near_duties e = Some ds" "d \<in> set (read_duties ds)" for e ds d
    using that by (auto simp: near_duties_def near_duties_read split: if_splits)
  have p: "participant_for even_stake 5 = Some 1" "participant_for even_stake 70 = Some 2"
    by (simp_all add: participant_for_def even_stake_def chaos_config_of_def devnet_flags_def wrap64_def)
  have n: "next_proposer even_stake (Inr ''30'') near_duties = Some (Inr (2, 33))"
    by (simp add: next_proposer_def h near_duties_def near_duties_read p) (simp add: even_stake_def chaos_config_of_def)
  show ?thesis using next_proposer_exact [OF h n e] by simp
qed

section \<open>The watch\<close>

text \<open>The reads of a watch in order: each client's non-empty hashes near its head, poll by poll.\<close>

type_synonym hash_read = "string \<times> u64 \<times> string"

definition reads_of :: "client_view \<Rightarrow> hash_read list" where
  "reads_of v =
     (case v of (name, hdx, hash_at) \<Rightarrow>
       (case hdx of
          None \<Rightarrow> []
        | Some n \<Rightarrow> map (\<lambda>h. (name, h, hash_at h)) (filter (\<lambda>h. hash_at h \<noteq> '''') (watched_heights n))))"

definition all_reads :: "client_view list list \<Rightarrow> hash_read list" where
  "all_reads polls = concat (map (\<lambda>p. concat (map reads_of p)) polls)"

definition steady :: "hash_read list \<Rightarrow> bool" where
  "steady rs \<longleftrightarrow> (\<forall>c h x y. (c, h, x) \<in> set rs \<longrightarrow> (c, h, y) \<in> set rs \<longrightarrow> x = y)"

fun first_change :: "seen_hashes \<Rightarrow> hash_read list \<Rightarrow> reorg_event option" where
  "first_change seen [] = None"
| "first_change seen ((c, h, x) # rs) =
     (case seen c h of
        Some w \<Rightarrow>
          if w \<noteq> x then Some \<lparr>rv_client = c, rv_height = h, rv_before = w, rv_after = x\<rparr>
          else first_change (seen(c := (seen c)(h := Some x))) rs
      | None \<Rightarrow> first_change (seen(c := (seen c)(h := Some x))) rs)"

lemma watch_heights_reads:
  "first_change seen (map (\<lambda>h. (name, h, f h)) (filter (\<lambda>h. f h \<noteq> '''') hs) @ rest) =
    (case watch_heights name f hs seen of (s', Some ev) \<Rightarrow> Some ev | (s', None) \<Rightarrow> first_change s' rest)"
  by (induction hs arbitrary: seen) (simp_all add: Let_def split: option.splits)

lemma watch_clients_reads:
  "first_change seen (concat (map reads_of p) @ rest) =
    (case watch_clients p seen of (s', Some ev) \<Rightarrow> Some ev | (s', None) \<Rightarrow> first_change s' rest)"
proof (induction p seen rule: watch_clients.induct)
  case (2 name hdx f cs seen)
  then show ?case
    by (cases hdx) (auto simp: reads_of_def watch_heights_reads split: option.splits prod.splits)
qed simp

lemma watch_polls_reads: "watch_polls polls seen = first_change seen (all_reads polls)"
  by (induction polls arbitrary: seen) (simp_all add: all_reads_def watch_clients_reads split: option.splits prod.splits)

definition change_in :: "hash_read list \<Rightarrow> hash_read list \<Rightarrow> reorg_event \<Rightarrow> bool" where
  "change_in past rs ev \<longleftrightarrow>
     (\<exists>pre rest. rs = pre @ (rv_client ev, rv_height ev, rv_after ev) # rest \<and> steady (past @ pre) \<and>
        (rv_client ev, rv_height ev, rv_before ev) \<in> set (past @ pre) \<and> rv_before ev \<noteq> rv_after ev)"

lemma change_in_later: "change_in (past @ [r]) rs ev \<Longrightarrow> change_in past (r # rs) ev"
  unfolding change_in_def by (metis append.assoc append_Cons append_Nil)

lemma first_change_spec:
  "\<forall>c h x. seen c h = Some x \<longleftrightarrow> (c, h, x) \<in> set past \<Longrightarrow>
    (case first_change seen rs of None \<Rightarrow> steady (past @ rs) | Some ev \<Rightarrow> change_in past rs ev)"
proof (induction rs arbitrary: seen past)
  case Nil
  then show ?case by (simp add: steady_def) (metis option.inject)
next
  case (Cons r rs)
  obtain c h x where r: "r = (c, h, x)" by (metis prod.exhaust)
  show ?case
  proof (cases "\<exists>w. seen c h = Some w \<and> w \<noteq> x")
    case True
    then obtain w where w: "seen c h = Some w" "w \<noteq> x" by blast
    have "steady past" using Cons.prems by (simp add: steady_def) (metis option.inject)
    then have "change_in past (r # rs) \<lparr>rv_client = c, rv_height = h, rv_before = w, rv_after = x\<rparr>"
      using w Cons.prems unfolding change_in_def r by (intro exI [of _ "[]"] exI [of _ rs]) simp
    then show ?thesis using w by (simp add: r)
  next
    case False
    define s' where "s' = seen(c := (seen c)(h := Some x))"
    have "\<forall>c' h' x'. s' c' h' = Some x' \<longleftrightarrow> (c', h', x') \<in> set (past @ [r])"
      using Cons.prems False by (auto simp: s'_def r)
    from Cons.IH [OF this] have "case first_change s' rs of None \<Rightarrow> steady (past @ r # rs) | Some ev \<Rightarrow> change_in past (r # rs) ev"
      by (auto dest: change_in_later split: option.splits)
    moreover have "first_change seen (r # rs) = first_change s' rs" using False by (auto simp: r s'_def split: option.splits)
    ultimately show ?thesis by simp
  qed
qed

text \<open>The watch reports a reorg exactly when some client gave two hashes for one height, and then
  the first such change: before it no client contradicted itself, and the hash reported as
  before was that client's answer at that height.\<close>

theorem watch_reorg_exact:
  "case watch_reorg polls of
     None \<Rightarrow> steady (all_reads polls)
   | Some ev \<Rightarrow> \<not> steady (all_reads polls) \<and> change_in [] (all_reads polls) ev"
proof -
  have "change_in [] rs ev \<Longrightarrow> \<not> steady rs" for rs ev
    by (auto simp: change_in_def steady_def) (metis Un_iff insert_iff)
  with first_change_spec [of "\<lambda>_ _. None" "[]" "all_reads polls"] show ?thesis
    by (auto simp: watch_reorg_def watch_polls_reads split: option.splits)
qed

section \<open>The periodic fork\<close>

text \<open>The isolation holds for the slots its depth says: with a positive slot time and a
  non-negative duration it ends before the slot after the last one counted, spans them all when
  the duration asked for spans a slot, and a bound on the depth is kept.\<close>

theorem isolation_window_bounded:
  assumes "isolation_window cfg = (window, depth, requested, clamped)"
    and "0 < cc_slot_seconds cfg" "0 \<le> cc_isolate_for cfg" "cc_isolate_for cfg < 2 ^ 63"
  shows "window < (int (unat depth) + 2) * cc_slot_seconds cfg \<and>
    (cc_slot_seconds cfg \<le> cc_isolate_for cfg \<longrightarrow> (int (unat depth) + 1) * cc_slot_seconds cfg \<le> window) \<and>
    depth \<le> requested \<and> (cc_max_depth cfg \<noteq> 0 \<longrightarrow> depth \<le> cc_max_depth cfg) \<and> window \<le> cc_isolate_for cfg"
proof -
  let ?t = "cc_slot_seconds cfg" and ?f = "cc_isolate_for cfg"
  let ?q = "?f div ?t"
  define s :: u64 where "s = word_of_int ?q"
  have q: "0 \<le> ?q" "?q \<le> ?f" "?q * ?t \<le> ?f" "?f < (?q + 1) * ?t"
  proof -
    show n: "0 \<le> ?q" using assms(2,3) by (simp add: pos_imp_zdiv_nonneg_iff)
    have "?q * ?t + ?f mod ?t = ?f" by (rule div_mult_mod_eq)
    with pos_mod_sign [OF assms(2), of ?f] pos_mod_bound [OF assms(2), of ?f]
    show m: "?q * ?t \<le> ?f" by linarith
    have "(?q + 1) * ?t = ?q * ?t + ?t" by (simp only: distrib_right mult_1)
    with \<open>?q * ?t + ?f mod ?t = ?f\<close> \<open>?f mod ?t < ?t\<close> show "?f < (?q + 1) * ?t" by linarith
    have "?q * 1 \<le> ?q * ?t" using n assms(2) by (intro mult_left_mono) simp_all
    with m(1) show "?q \<le> ?f" by simp
  qed
  have us: "uint s = ?q" using q(1,2) assms(4) by (simp add: s_def uint_word_of_int_eq take_bit_int_eq_self)
  define slots where "slots = (if 0 < s then s else 1)"
  have w: "isolation_window cfg = (case clamp_depth (slots - 1) (cc_max_depth cfg) of (d, c) \<Rightarrow>
      (if \<not> c then (?f, d, slots - 1, False) else (wrap64 (sint (d + 1) * ?t), d, slots - 1, True)))"
    unfolding isolation_window_def Let_def slots_def s_def using assms(2,3) by (simp only: go_div_nonneg if_True)
  show ?thesis
  proof (cases "?q = 0")
    case True
    then have "s = 0" by (simp add: s_def)
    with w assms(1) have "window = ?f" "depth = 0" "requested = 0" by (simp_all add: slots_def clamp_depth_def)
    with True q(4) show ?thesis using assms(2) by simp
  next
    case False
    then have "0 < s" using us q(1) by (metis uint_0_eq word_gt_0)
    then have sl: "slots = s" by (simp add: slots_def)
    have d1: "int (unat (s - 1)) = ?q - 1"
      using us \<open>0 < s\<close> by (simp add: unat_minus_one word_gt_0) (metis of_nat_diff of_nat_1 uint_nat unat_gt_0 word_gt_0 Suc_leI One_nat_def)
    show ?thesis
    proof (cases "snd (clamp_depth (s - 1) (cc_max_depth cfg))")
      case False
      with w assms(1) sl have r: "window = ?f" "depth = s - 1" "requested = s - 1" "cc_max_depth cfg \<noteq> 0 \<longrightarrow> s - 1 \<le> cc_max_depth cfg"
        by (auto simp: clamp_depth_def split: if_splits)
      have "?q = int (unat depth) + 1" unfolding r(2) using d1 by linarith
      then have "?f < (int (unat depth) + 2) * ?t" "(int (unat depth) + 1) * ?t \<le> ?f"
        using q(3,4) by (simp_all add: add.commute)
      then show ?thesis using r by simp
    next
      case True
      then have c: "clamp_depth (s - 1) (cc_max_depth cfg) = (cc_max_depth cfg, True)" "cc_max_depth cfg < s - 1"
        by (auto simp: clamp_depth_def split: if_splits)
      let ?d = "int (unat (cc_max_depth cfg))"
      have "?d < int (unat (s - 1))" using c(2) by (simp only: word_less_nat_alt of_nat_less_iff)
      with d1 have d: "?d < ?q - 1" by linarith
      have e: "sint (cc_max_depth cfg + 1) = ?d + 1"
      proof -
        have "?f < 9223372036854775808" using assms(4) by simp
        with d q(2) have "?d < 9223372036854775807" by linarith
        then have "?d < int 9223372036854775807" by (simp only: of_nat_numeral)
        then have small: "unat (cc_max_depth cfg) < 9223372036854775807" by (simp only: of_nat_less_iff)
        then have "unat (cc_max_depth cfg + 1) = unat (cc_max_depth cfg) + 1"
          using unat_add_small [of "cc_max_depth cfg" 1] by simp
        then show ?thesis using small by (subst sint_small) simp_all
      qed
      have "(?d + 1) * ?t \<le> ?q * ?t" using d assms(2) by (intro mult_right_mono) simp_all
      then have le: "(?d + 1) * ?t \<le> ?f" using q(3) by linarith
      moreover have "0 \<le> (?d + 1) * ?t" using assms(2) by simp
      ultimately have "wrap64 ((?d + 1) * ?t) = (?d + 1) * ?t" using assms(4) by (intro wrap64_id) simp_all
      with w assms(1) sl c e have r: "window = (?d + 1) * ?t" "depth = cc_max_depth cfg" "requested = s - 1" by simp_all
      have "cc_max_depth cfg \<le> s - 1" using c(2) by simp
      then show ?thesis unfolding r using le assms(2) by (simp add: algebra_simps)
    qed
  qed
qed


theorem isolation_window_bounded_witness:
  "snd (snd (snd (isolation_window (even_stake\<lparr>cc_isolate_for := 60 * second, cc_max_depth := 3\<rparr>))))"
proof -
  let ?cfg = "even_stake\<lparr>cc_isolate_for := 60 * second, cc_max_depth := 3\<rparr>"
  have w: "isolation_window ?cfg = (24 * second, 3, 9, True)"
    by (simp add: isolation_window_def even_stake_def chaos_config_of_def devnet_flags_def go_div_def clamp_depth_def second_def wrap64_def)
  with isolation_window_bounded [OF w] show ?thesis
    by (simp add: even_stake_def chaos_config_of_def devnet_flags_def second_def)
qed

text \<open>The partition of an attempt: the proposer alone against every other node and the observers.\<close>

definition proposer_cut :: "chaos_config \<Rightarrow> int list \<Rightarrow> int \<Rightarrow> u64 \<Rightarrow> partition_spec" where
  "proposer_cut cfg observers node slot =
     \<lparr>pa_name = ''proposer-'' @ show_nat (unat slot), pa_groups = [filter (\<lambda>i. i \<noteq> node) [1..cc_node_count cfg] @ observers, [node]]\<rparr>"


definition fork_demo :: fork_world where
  "fork_demo =
     \<lparr>fw_started = 0, fw_head_slot = Inr ''30'', fw_duties = near_duties, fw_slots = [SlotRead (Inr ''31''), SlotRead (Inr ''32'')],
      fw_cut = None, fw_polls = [[(''b'', Some 1, \<lambda>_. ''0xa'')], [(''b'', Some 1, \<lambda>h. if h = 1 then ''0xb'' else ''0xa'')]],
      fw_clear = None\<rparr>"

lemma fork_demo_next: "next_proposer even_stake (Inr ''30'') near_duties = Some (Inr (2, 33))"
proof -
  have h: "head_slot (Inr ''30'') = Inr 30"
    by (simp add: head_slot_def parse_uint_dec_def to_u64_def digit_of_def)
  have p: "participant_for even_stake 5 = Some 1" "participant_for even_stake 70 = Some 2"
    by (simp_all add: participant_for_def even_stake_def chaos_config_of_def devnet_flags_def wrap64_def)
  show ?thesis
    by (simp add: next_proposer_def h near_duties_def near_duties_read p) (simp add: even_stake_def chaos_config_of_def)
qed

lemma fork_demo_watch: "map_option rv_client (watch_reorg (fw_polls fork_demo)) = Some ''b''"
  by (simp add: fork_demo_def watch_reorg_def watched_heights_def upt_rec Let_def)


end
