(* ===== verification/TxKit.thy ===== *)
theory TxKit
  imports Prelude
begin

text \<open>
  The bytecode builders the load generator and the reorg driver share
  (\<open>internal/txkit/txkit.go\<close>), and what their bytecode does. The builders are functions on bytes;
  a builder's panic is \<open>None\<close>. The second half gives the documented meaning of the opcodes they
  emit, as a machine that runs straight-line code without gas and without the stack's bound of
  1024, which no builder comes near, and shows for each builder what a transaction carrying its
  bytecode leaves behind. Random bytes are arguments.
\<close>

section \<open>Builders\<close>

type_synonym byte = "8 word"
type_synonym bytes = "byte list"

text \<open>The big-endian bytes of a number in a field of fixed width.\<close>

definition be_bytes :: "nat \<Rightarrow> nat \<Rightarrow> bytes" where
  "be_bytes k n = map (\<lambda>i. of_nat (n div 256 ^ i)) (rev [0..<k])"

definition zero_hash :: bytes where
  "zero_hash = replicate 32 0"

definition slot_key :: "u64 \<Rightarrow> bytes" where
  "slot_key n = be_bytes 32 (unat n)"

definition reader_seeded :: "u64 list" where
  "reader_seeded = [1, 2, 3, 5, 8, 13, 64, 65, 96, 200]"

definition zeroize_slots :: "u64 list" where
  "zeroize_slots = [1, 2, 3] @ map of_nat [64..<72]"

definition push32 :: "bytes \<Rightarrow> bytes" where
  "push32 h = 0x7f # h"

definition sstore_code :: "bytes \<Rightarrow> bytes \<Rightarrow> bytes" where
  "sstore_code key val = push32 val @ push32 key @ [0x55]"

definition seed_code :: "u64 list \<Rightarrow> bytes" where
  "seed_code slots = concat (map (\<lambda>s. sstore_code (slot_key s) (slot_key (s + 1))) slots)"

definition return_nothing :: bytes where
  "return_nothing = [0x60, 0x00, 0x60, 0x00, 0xf3]"

definition zeroize_init_code :: "u64 list \<Rightarrow> bytes" where
  "zeroize_init_code slots =
     seed_code slots @ concat (map (\<lambda>s. sstore_code (slot_key s) zero_hash) slots) @ return_nothing"

text \<open>The key and the value of the \<open>i\<close>-th write; the first 24 bytes of a key are random.\<close>

definition spread_key :: "(nat \<Rightarrow> bytes) \<Rightarrow> nat \<Rightarrow> bytes" where
  "spread_key rnd i = take 24 (rnd i) @ replicate 7 0 @ [of_nat i]"

definition spread_value :: "nat \<Rightarrow> bytes" where
  "spread_value i = replicate 31 0 @ [of_nat (i + 1)]"

definition storage_init_code :: "(nat \<Rightarrow> bytes) \<Rightarrow> nat \<Rightarrow> bytes" where
  "storage_init_code rnd n =
     concat (map (\<lambda>i. sstore_code (spread_key rnd i) (spread_value i)) [0..<n]) @ return_nothing"

definition reader_runtime :: bytes where
  "reader_runtime = [0x60, 0x00, 0x35, 0x54, 0x60, 0x00, 0x52, 0x60, 0x20, 0x60, 0x00, 0xf3]"

definition writer_runtime :: bytes where
  "writer_runtime = [0x60, 0x20, 0x35, 0x60, 0x00, 0x35, 0x55, 0x00]"

definition extcode_init_code :: "bytes \<Rightarrow> u64 \<Rightarrow> nat \<Rightarrow> bytes" where
  "extcode_init_code target code_len reps =
     concat (replicate reps (0x73 # target @ [0x3b, 0x50])) @
     push32 (slot_key code_len) @ [0x60, 0x00, 0x60, 0x00] @ 0x73 # target @ [0x3c] @ return_nothing"

definition push2 :: "nat \<Rightarrow> bytes" where
  "push2 n = [0x61, of_nat (n div 256), of_nat n]"

definition deploy_preamble :: "nat \<Rightarrow> nat \<Rightarrow> bytes" where
  "deploy_preamble n off = push2 n @ push2 off @ [0x60, 0x00, 0x39] @ push2 n @ [0x60, 0x00, 0xf3]"

definition deploy_code_after :: "bytes \<Rightarrow> bytes \<Rightarrow> bytes option" where
  "deploy_code_after prefix runtime =
     (let n = length runtime; off = length prefix + 15
      in if 0xffff < n then None
         else if 0xffff < off then None
         else Some (prefix @ deploy_preamble n off @ runtime))"

definition destruct_runtime :: "bytes \<Rightarrow> nat \<Rightarrow> bytes" where
  "destruct_runtime beneficiary code_size =
     (let start = 0x73 # beneficiary @ [0xff] in start @ replicate (code_size - length start) 0xfe)"

definition factory_prefix :: "nat \<Rightarrow> bytes" where
  "factory_prefix n =
     push2 n @ [0x61, 0x00, 31, 0x60, 0x00, 0x39] @ push2 n @
     [0x60, 0x00, 0x60, 0x00, 0xf0, 0x60, 0x00, 0x60, 0x00, 0x60, 0x00, 0x60, 0x00, 0x60, 0x00, 0x85, 0x5a, 0xf1, 0x00]"

definition factory_destruct_init_code :: "bytes \<Rightarrow> nat \<Rightarrow> bytes option" where
  "factory_destruct_init_code beneficiary code_size =
     (case deploy_code_after [] (destruct_runtime beneficiary code_size) of
        None \<Rightarrow> None
      | Some child \<Rightarrow> Some (factory_prefix (length child) @ child))"

definition pattern_code :: "nat \<Rightarrow> byte \<Rightarrow> bytes" where
  "pattern_code n fill = (if 0 < n then 0x00 # replicate (n - 1) fill else [])"

section \<open>The machine\<close>

text \<open>The documented meaning of the opcodes above. The stack is a list with its top first; a
  missing operand and every other opcode are an exceptional halt.\<close>

type_synonym word256 = "256 word"

record evm =
  evm_stack :: "word256 list"
  evm_mem :: "nat \<Rightarrow> byte"
  evm_storage :: "word256 \<Rightarrow> word256"

datatype evm_end = Returned bytes evm | Failed

definition bytes_value :: "bytes \<Rightarrow> nat" where
  "bytes_value bs = foldl (\<lambda>a b. 256 * a + unat b) 0 bs"

definition word_of :: "bytes \<Rightarrow> word256" where
  "word_of bs = of_nat (bytes_value bs)"

definition byte_at :: "bytes \<Rightarrow> nat \<Rightarrow> byte" where
  "byte_at bs i = (if i < length bs then bs ! i else 0)"

definition load_word :: "bytes \<Rightarrow> nat \<Rightarrow> word256" where
  "load_word data off = word_of (map (\<lambda>i. byte_at data (off + i)) [0..<32])"

definition write_mem :: "nat \<Rightarrow> bytes \<Rightarrow> (nat \<Rightarrow> byte) \<Rightarrow> nat \<Rightarrow> byte" where
  "write_mem off bs m i = (if off \<le> i \<and> i < off + length bs then bs ! (i - off) else m i)"

definition read_mem :: "nat \<Rightarrow> nat \<Rightarrow> (nat \<Rightarrow> byte) \<Rightarrow> bytes" where
  "read_mem off n m = map (\<lambda>i. m (off + i)) [0..<n]"

definition push_width :: "byte \<Rightarrow> nat option" where
  "push_width op = (if 0x60 \<le> op \<and> op \<le> 0x7f then Some (unat op - 0x5f) else None)"

text \<open>What one opcode other than a push and a halt does; the account a code read asks for is looked
  up in \<open>accounts\<close>.\<close>

definition evm_op :: "(word256 \<Rightarrow> bytes) \<Rightarrow> bytes \<Rightarrow> bytes \<Rightarrow> byte \<Rightarrow> evm \<Rightarrow> evm option" where
  "evm_op accounts code data op s =
     (case evm_stack s of
        [] \<Rightarrow> None
      | a # st \<Rightarrow>
          if op = 0x35 then Some (s\<lparr>evm_stack := load_word data (unat a) # st\<rparr>)
          else if op = 0x3b then Some (s\<lparr>evm_stack := of_nat (length (accounts a)) # st\<rparr>)
          else if op = 0x50 then Some (s\<lparr>evm_stack := st\<rparr>)
          else if op = 0x54 then Some (s\<lparr>evm_stack := evm_storage s a # st\<rparr>)
          else case st of
            [] \<Rightarrow> None
          | b # st' \<Rightarrow>
              if op = 0x52 then Some (s\<lparr>evm_stack := st', evm_mem := write_mem (unat a) (be_bytes 32 (unat b)) (evm_mem s)\<rparr>)
              else if op = 0x55 then Some (s\<lparr>evm_stack := st', evm_storage := (evm_storage s)(a := b)\<rparr>)
              else case st' of
                [] \<Rightarrow> None
              | c # st'' \<Rightarrow>
                  if op = 0x39 then
                    Some (s\<lparr>evm_stack := st'',
                      evm_mem := write_mem (unat a) (map (\<lambda>i. byte_at code (unat b + i)) [0..<unat c]) (evm_mem s)\<rparr>)
                  else case st'' of
                    [] \<Rightarrow> None
                  | d # st''' \<Rightarrow>
                      if op = 0x3c then
                        Some (s\<lparr>evm_stack := st''',
                          evm_mem := write_mem (unat b) (map (\<lambda>i. byte_at (accounts a) (unat c + i)) [0..<unat d]) (evm_mem s)\<rparr>)
                      else None)"

text \<open>The run of the bytes from the program counter on; \<open>code\<close> is the whole code, for its copies.
  The code's end is a stop.\<close>

function (sequential) evm_run :: "(word256 \<Rightarrow> bytes) \<Rightarrow> bytes \<Rightarrow> bytes \<Rightarrow> bytes \<Rightarrow> evm \<Rightarrow> evm_end" where
  "evm_run accounts code data [] s = Returned [] s"
| "evm_run accounts code data (op # rest) s =
     (if op = 0x00 then Returned [] s
      else if op = 0xf3 then
        (case evm_stack s of
           a # b # st \<Rightarrow> Returned (read_mem (unat a) (unat b) (evm_mem s)) (s\<lparr>evm_stack := st\<rparr>)
         | _ \<Rightarrow> Failed)
      else case push_width op of
        Some k \<Rightarrow> evm_run accounts code data (drop k rest) (s\<lparr>evm_stack := word_of (take k rest) # evm_stack s\<rparr>)
      | None \<Rightarrow>
          (case evm_op accounts code data op s of
             None \<Rightarrow> Failed
           | Some s' \<Rightarrow> evm_run accounts code data rest s'))"
  by pat_completeness auto
termination by (relation "measure (\<lambda>(_, _, _, rest, _). length rest)") auto

text \<open>A transaction's code run on a storage; a creation runs its initcode without call data.\<close>

definition evm_call :: "(word256 \<Rightarrow> bytes) \<Rightarrow> bytes \<Rightarrow> bytes \<Rightarrow> (word256 \<Rightarrow> word256) \<Rightarrow> evm_end" where
  "evm_call accounts code data store =
     evm_run accounts code data code \<lparr>evm_stack = [], evm_mem = (\<lambda>_. 0), evm_storage = store\<rparr>"

section \<open>Numbers and bytes\<close>

lemma be_bytes_length [simp]: "length (be_bytes k n) = k"
  by (simp add: be_bytes_def)

lemma bytes_value_append: "bytes_value (xs @ ys) = bytes_value xs * 256 ^ length ys + bytes_value ys"
proof -
  have "foldl (\<lambda>a b. 256 * a + unat b) v ys = v * 256 ^ length ys + foldl (\<lambda>a b. 256 * a + unat b) 0 ys" for v
  proof (induction ys arbitrary: v)
    case (Cons y ys)
    show ?case using Cons.IH [of "256 * v + unat y"] Cons.IH [of "unat y"] by (simp add: algebra_simps)
  qed simp
  from this [of "bytes_value xs"] show ?thesis by (simp add: bytes_value_def)
qed

lemma bytes_value_Cons: "bytes_value (b # bs) = unat b * 256 ^ length bs + bytes_value bs"
  using bytes_value_append [of "[b]" bs] by (simp add: bytes_value_def)

lemma bytes_value_Nil [simp]: "bytes_value [] = 0"
  by (simp add: bytes_value_def)

lemma unat_byte: "unat (of_nat n :: byte) = n mod 256"
  by (simp add: unat_of_nat)

lemma bytes_value_be: "bytes_value (be_bytes k n) = n mod 256 ^ k"
proof (induction k)
  case (Suc k)
  have "be_bytes (Suc k) n = of_nat (n div 256 ^ k) # be_bytes k n" by (simp add: be_bytes_def)
  with Suc show ?case
    by (simp add: bytes_value_Cons unat_byte mod_mult2_eq mult.commute [of 256] add.commute)
qed (simp add: be_bytes_def)

lemma bytes_value_less: "bytes_value bs < 256 ^ length bs"
proof (induction bs)
  case (Cons b bs)
  have "unat b < 2 ^ LENGTH(8)" by (rule unsigned_less)
  then have "unat b \<le> 255" by simp
  then have "unat b * 256 ^ length bs \<le> 255 * 256 ^ length bs" by (rule mult_right_mono) simp
  with Cons show ?case unfolding bytes_value_Cons length_Cons power_Suc by linarith
qed simp

lemma unat_word_of: "length bs \<le> 32 \<Longrightarrow> unat (word_of bs) = bytes_value bs"
proof -
  assume "length bs \<le> 32"
  then have "(256::nat) ^ length bs \<le> 256 ^ 32" by (intro power_increasing) simp_all
  with bytes_value_less [of bs] have "bytes_value bs < 2 ^ 256" by simp
  then show ?thesis unfolding word_of_def by (subst unat_of_nat) simp
qed

lemma slot_key_length [simp]: "length (slot_key n) = 32"
  by (simp add: slot_key_def)

lemma word_of_slot_key: "word_of (slot_key n) = ucast n"
proof -
  have "unat n < 2 ^ LENGTH(64)" by (rule unsigned_less)
  then have "unat n mod 256 ^ 32 = unat n" by (intro mod_less) simp
  then show ?thesis by (simp add: word_of_def slot_key_def bytes_value_be)
qed

lemma word_of_be: "word_of (be_bytes 32 (unat w)) = w"
proof -
  have "unat w < 2 ^ LENGTH(256)" by (rule unsigned_less)
  then have "unat w mod 256 ^ 32 = unat w" by (intro mod_less) simp
  then show ?thesis by (simp add: word_of_def bytes_value_be)
qed

lemma word_of_zero_hash: "word_of zero_hash = 0"
proof -
  have "bytes_value (replicate k 0) = 0" for k by (induction k) (simp_all add: bytes_value_Cons)
  then show ?thesis by (simp add: word_of_def zero_hash_def)
qed

lemma slot_inj: "ucast s = (ucast t :: word256) \<longleftrightarrow> s = t" for s t :: u64
proof
  assume "ucast s = (ucast t :: word256)"
  then have "(ucast (ucast s :: word256) :: u64) = ucast (ucast t :: word256)" by simp
  then show "s = t" by (simp add: ucast_up_ucast_id is_up)
qed simp


section \<open>What the bytecode does\<close>

lemma run_push32:
  "length h = 32 \<Longrightarrow> evm_run ac code data (push32 h @ rest) s = evm_run ac code data rest (s\<lparr>evm_stack := word_of h # evm_stack s\<rparr>)"
  by (simp add: push32_def push_width_def)

lemma run_push1:
  "evm_run ac code data (0x60 # b # rest) s = evm_run ac code data rest (s\<lparr>evm_stack := word_of [b] # evm_stack s\<rparr>)"
  by (simp add: push_width_def)

lemma run_push2:
  "n \<le> 0xffff \<Longrightarrow> evm_run ac code data (push2 n @ rest) s = evm_run ac code data rest (s\<lparr>evm_stack := of_nat n # evm_stack s\<rparr>)"
  by (simp add: push2_def push_width_def word_of_def bytes_value_def unat_byte)

lemma run_push20:
  "length h = 20 \<Longrightarrow> evm_run ac code data (0x73 # h @ rest) s = evm_run ac code data rest (s\<lparr>evm_stack := word_of h # evm_stack s\<rparr>)"
  by (simp add: push_width_def)

lemma run_op:
  "op \<noteq> 0x00 \<Longrightarrow> op \<noteq> 0xf3 \<Longrightarrow> push_width op = None \<Longrightarrow>
    evm_run ac code data (op # rest) s =
      (case evm_op ac code data op s of None \<Rightarrow> Failed | Some s' \<Rightarrow> evm_run ac code data rest s')"
  by simp

lemma run_sstore:
  assumes "length k = 32" "length v = 32"
  shows "evm_run ac code data (sstore_code k v @ rest) s =
    evm_run ac code data rest (s\<lparr>evm_storage := (evm_storage s)(word_of k := word_of v)\<rparr>)"
  using assms by (simp add: sstore_code_def run_push32 push_width_def evm_op_def)

lemma word_of_single: "word_of [b] = of_nat (unat b)"
  by (simp add: word_of_def bytes_value_def)

declare evm_run.simps(2) [simp del]

text \<open>The storage after a list of writes, in order.\<close>

definition writes :: "(word256 \<times> word256) list \<Rightarrow> (word256 \<Rightarrow> word256) \<Rightarrow> word256 \<Rightarrow> word256" where
  "writes kvs m = foldl (\<lambda>m (k, v). m(k := v)) m kvs"

lemma writes_simps [simp]: "writes [] m = m" "writes ((k, v) # kvs) m = writes kvs (m(k := v))"
  by (simp_all add: writes_def)

lemma writes_append: "writes (xs @ ys) m = writes ys (writes xs m)"
  by (simp add: writes_def)

lemma writes_other: "k \<notin> fst ` set kvs \<Longrightarrow> writes kvs m k = m k"
  by (induction kvs arbitrary: m) auto

lemma writes_fun: "k \<in> fst ` set kvs \<Longrightarrow> \<forall>(j, v) \<in> set kvs. j = k \<longrightarrow> v = w \<Longrightarrow> writes kvs m k = w"
proof (induction kvs arbitrary: m)
  case (Cons kv kvs)
  obtain j v where kv: "kv = (j, v)" by (metis prod.exhaust)
  show ?case
  proof (cases "k \<in> fst ` set kvs")
    case True
    with Cons kv show ?thesis by simp
  next
    case False
    with Cons.prems kv have "j = k" "v = w" by auto
    with False kv show ?thesis by (simp add: writes_other)
  qed
qed simp

lemma run_stores:
  "\<forall>(k, v) \<in> set kvs. length k = 32 \<and> length v = 32 \<Longrightarrow>
    evm_run ac code data (concat (map (\<lambda>(k, v). sstore_code k v) kvs) @ rest) s =
    evm_run ac code data rest (s\<lparr>evm_storage := writes (map (\<lambda>(k, v). (word_of k, word_of v)) kvs) (evm_storage s)\<rparr>)"
  by (induction kvs arbitrary: s) (auto simp: run_sstore)

definition seed_writes :: "u64 list \<Rightarrow> (word256 \<times> word256) list" where
  "seed_writes slots = map (\<lambda>s. (ucast s, ucast (s + 1))) slots"

lemma run_seed:
  "evm_run ac code data (seed_code slots @ rest) s =
    evm_run ac code data rest (s\<lparr>evm_storage := writes (seed_writes slots) (evm_storage s)\<rparr>)"
proof -
  have "seed_code slots = concat (map (\<lambda>(k, v). sstore_code k v) (map (\<lambda>s. (slot_key s, slot_key (s + 1))) slots))"
    by (simp add: seed_code_def comp_def)
  then show ?thesis
    by (simp only:) (subst run_stores, auto simp: word_of_slot_key seed_writes_def comp_def)
qed

lemma run_return:
  "evm_run ac code data (0xf3 # rest) (s\<lparr>evm_stack := a # b # st\<rparr>) =
    Returned (read_mem (unat a) (unat b) (evm_mem s)) (s\<lparr>evm_stack := st\<rparr>)"
  by (simp add: evm_run.simps)

lemma run_return_nothing: "evm_run ac code data return_nothing s = Returned [] s"
proof -
  have "evm_run ac code data return_nothing s =
      evm_run ac code data [0xf3] (s\<lparr>evm_stack := word_of [0] # word_of [0] # evm_stack s\<rparr>)"
    by (simp add: return_nothing_def run_push1)
  then show ?thesis by (simp add: run_return word_of_single read_mem_def)
qed

lemma unat_of_nat_small: "n \<le> 0xffff \<Longrightarrow> unat (of_nat n :: word256) = n"
  by (simp add: unat_of_nat)

lemma copied_back:
  assumes "code = before @ blob @ after"
  shows "read_mem 0 (length blob) (write_mem 0 (map (\<lambda>i. byte_at code (length before + i)) [0..<length blob]) m) = blob"
proof (rule nth_equalityI)
  fix i assume "i < length (read_mem 0 (length blob) (write_mem 0 (map (\<lambda>i. byte_at code (length before + i)) [0..<length blob]) m))"
  then have "i < length blob" by (simp add: read_mem_def)
  then show "read_mem 0 (length blob) (write_mem 0 (map (\<lambda>i. byte_at code (length before + i)) [0..<length blob]) m) ! i = blob ! i"
    using assms by (simp add: read_mem_def write_mem_def byte_at_def nth_append)
qed (simp add: read_mem_def)

lemma deploy_preamble_length: "length (deploy_preamble n off) = 15"
  by (simp add: deploy_preamble_def push2_def)

lemma run_preamble:
  assumes "length runtime \<le> 0xffff" "length before + 15 \<le> 0xffff"
    and "code = before @ deploy_preamble (length runtime) (length before + 15) @ runtime"
  shows "\<exists>m. evm_run ac code data (deploy_preamble (length runtime) (length before + 15) @ runtime) s =
    Returned runtime (s\<lparr>evm_mem := m\<rparr>)"
proof -
  let ?n = "length runtime" and ?off = "length before + 15"
  let ?m = "write_mem 0 (map (\<lambda>i. byte_at code (?off + i)) [0..<?n]) (evm_mem s)"
  have "evm_run ac code data (deploy_preamble ?n ?off @ runtime) s =
      evm_run ac code data (0x39 # push2 ?n @ [0x60, 0x00, 0xf3] @ runtime)
        (s\<lparr>evm_stack := word_of [0] # of_nat ?off # of_nat ?n # evm_stack s\<rparr>)"
    using assms(1,2) by (simp add: deploy_preamble_def run_push2 run_push1)
  also have "\<dots> = evm_run ac code data (push2 ?n @ [0x60, 0x00, 0xf3] @ runtime) (s\<lparr>evm_mem := ?m\<rparr>)"
    using unat_of_nat_small [OF assms(1)] unat_of_nat_small [OF assms(2)]
    by (subst run_op) (simp_all add: push_width_def evm_op_def word_of_single)
  also have "\<dots> = evm_run ac code data (0xf3 # runtime)
      (s\<lparr>evm_mem := ?m, evm_stack := word_of [0] # of_nat ?n # evm_stack s\<rparr>)"
    using assms(1) by (simp add: run_push2 run_push1)
  also have "\<dots> = Returned (read_mem 0 ?n ?m) (s\<lparr>evm_mem := ?m\<rparr>)"
    using unat_of_nat_small [OF assms(1)] by (simp add: run_return word_of_single)
  also have "read_mem 0 ?n ?m = runtime"
    using copied_back [of code "before @ deploy_preamble ?n ?off" runtime "[]" "evm_mem s"] assms(3)
    by (simp add: deploy_preamble_length add.commute)
  finally show ?thesis by blast
qed

lemma seed_writes_spec:
  "writes (seed_writes slots) m (ucast s) = (if s \<in> set slots then ucast (s + 1) else m (ucast s))"
  "k \<notin> ucast ` set slots \<Longrightarrow> writes (seed_writes slots) m k = m k"
proof -
  show "writes (seed_writes slots) m (ucast s) = (if s \<in> set slots then ucast (s + 1) else m (ucast s))"
  proof (cases "s \<in> set slots")
    case True
    then show ?thesis
      by (simp add: seed_writes_def) (rule writes_fun, auto simp: slot_inj image_image intro: rev_image_eqI)
  next
    case False
    then show ?thesis by (simp add: seed_writes_def) (rule writes_other, auto simp: slot_inj)
  qed
  show "k \<notin> ucast ` set slots \<Longrightarrow> writes (seed_writes slots) m k = m k"
    by (rule writes_other) (auto simp: seed_writes_def)
qed

lemma seeded_storage:
  "writes (seed_writes slots) store = (\<lambda>k. if k \<in> ucast ` set slots then of_nat (unat (ucast k + 1 :: u64)) else store k)"
  by (rule ext) (auto simp: seed_writes_spec ucast_up_ucast_id is_up)

lemma deploy_runs:
  assumes "deploy_code_after (seed_code slots) runtime = Some code"
  shows "\<exists>m. evm_call ac code data store =
    Returned runtime \<lparr>evm_stack = [], evm_mem = m, evm_storage = writes (seed_writes slots) store\<rparr>"
proof -
  let ?p = "seed_code slots" and ?n = "length runtime"
  from assms have l: "?n \<le> 0xffff" "length ?p + 15 \<le> 0xffff" "code = ?p @ deploy_preamble ?n (length ?p + 15) @ runtime"
    by (auto simp: deploy_code_after_def Let_def split: if_splits)
  have "evm_call ac code data store = evm_run ac code data (deploy_preamble ?n (length ?p + 15) @ runtime)
      \<lparr>evm_stack = [], evm_mem = (\<lambda>_. 0), evm_storage = writes (seed_writes slots) store\<rparr>"
    unfolding evm_call_def by (subst (2) l(3)) (simp add: run_seed)
  with run_preamble [OF l, of ac data "\<lparr>evm_stack = [], evm_mem = (\<lambda>_. 0), evm_storage = writes (seed_writes slots) store\<rparr>"]
  show ?thesis by auto
qed

text \<open>A deployment does what it is built for: whatever slots are seeded first, the creation
  returns exactly the runtime it was given, so that the account holds it, each seeded slot holds
  its number plus one and no other slot is touched; the builder panics exactly when a length or
  the offset would not fit its two bytes.\<close>

theorem deploy_seeded:
  "case deploy_code_after (seed_code slots) runtime of
     None \<Rightarrow> 0xffff < length runtime \<or> 0xffff < length (seed_code slots) + 15
   | Some code \<Rightarrow> \<exists>m store'. evm_call ac code data store = Returned runtime \<lparr>evm_stack = [], evm_mem = m, evm_storage = store'\<rparr> \<and>
       store' = (\<lambda>k. if k \<in> ucast ` set slots then of_nat (unat (ucast k + 1 :: u64)) else store k)"
proof (cases "deploy_code_after (seed_code slots) runtime")
  case None
  then show ?thesis by (auto simp: deploy_code_after_def Let_def split: if_splits)
next
  case (Some code)
  with deploy_runs [OF Some, of ac data store] show ?thesis by (auto simp: seeded_storage)
qed

lemma zero_hash_length: "length zero_hash = 32"
  by (simp add: zero_hash_def)

lemma run_clears:
  "evm_run ac code data (concat (map (\<lambda>s. sstore_code (slot_key s) zero_hash) slots) @ return_nothing) s =
    Returned [] (s\<lparr>evm_storage := writes (map (\<lambda>s. (ucast s, 0)) slots) (evm_storage s)\<rparr>)"
  using run_stores [of "map (\<lambda>s. (slot_key s, zero_hash)) slots" ac code data return_nothing s]
  by (simp add: run_return_nothing word_of_slot_key word_of_zero_hash zero_hash_length comp_def)

text \<open>A zeroizing transaction first takes every slot of its batch to its number plus one, so that
  all are populated at once, and then all of them to zero; it leaves the others and deploys
  nothing.\<close>

theorem zeroize_clears:
  "\<exists>rest s1 s2. evm_call ac (zeroize_init_code slots) data store = evm_run ac (zeroize_init_code slots) data rest s1 \<and>
     evm_storage s1 = (\<lambda>k. if k \<in> ucast ` set slots then of_nat (unat (ucast k + 1 :: u64)) else store k) \<and>
     evm_run ac (zeroize_init_code slots) data rest s1 = Returned [] s2 \<and>
     evm_storage s2 = (\<lambda>k. if k \<in> ucast ` set slots then 0 else store k)"
proof -
  let ?code = "zeroize_init_code slots" and ?m = "writes (seed_writes slots) store"
  let ?rest = "concat (map (\<lambda>s. sstore_code (slot_key s) zero_hash) slots) @ return_nothing"
  let ?s1 = "\<lparr>evm_stack = [], evm_mem = (\<lambda>_. 0), evm_storage = ?m\<rparr>"
  have "evm_call ac ?code data store = evm_run ac ?code data ?rest ?s1"
    unfolding evm_call_def by (subst (2) zeroize_init_code_def) (simp add: run_seed)
  moreover have "writes (map (\<lambda>s. (ucast s, 0)) slots) ?m k = (if k \<in> ucast ` set slots then 0 else store k)" for k
  proof (cases "k \<in> ucast ` set slots")
    case True
    then show ?thesis by simp (rule writes_fun, auto simp: image_image intro: rev_image_eqI)
  next
    case False
    then show ?thesis by (subst writes_other) (auto simp: seed_writes_spec(2))
  qed
  ultimately show ?thesis by (intro exI [of _ ?rest] exI [of _ ?s1] exI) (auto simp: run_clears seeded_storage)
qed

lemma load_word_at:
  assumes "length b = 32"
  shows "load_word (a @ b @ c) (length a) = word_of b"
proof -
  have "map (\<lambda>i. byte_at (a @ b @ c) (length a + i)) [0..<32] = b"
    using assms by (intro nth_equalityI) (simp_all add: byte_at_def nth_append)
  then show ?thesis by (simp add: load_word_def)
qed

lemma read_written: "read_mem 0 (length bs) (write_mem 0 bs m) = bs"
  by (intro nth_equalityI) (simp_all add: read_mem_def write_mem_def)

lemma single_words: "unat (word_of [0x00]) = 0" "unat (word_of [0x20]) = 32"
  by (simp_all add: word_of_single)

lemma run_writer:
  assumes "length a = 32" "length b = 32"
  shows "evm_call ac writer_runtime (a @ b) store =
    Returned [] \<lparr>evm_stack = [], evm_mem = (\<lambda>_. 0), evm_storage = store(word_of a := word_of b)\<rparr>"
proof -
  have l: "load_word (a @ b) 32 = word_of b" "load_word (a @ b) 0 = word_of a"
    using load_word_at [of b a "[]"] load_word_at [of a "[]" b] assms by simp_all
  show ?thesis
    unfolding evm_call_def
    by (subst (2) writer_runtime_def)
      (simp add: run_push1 run_op push_width_def evm_op_def single_words l evm_run.simps(2) [of _ _ _ "0x00"])
qed

lemma run_reader:
  assumes "length a = 32"
  shows "\<exists>m. evm_call ac reader_runtime a store =
    Returned (be_bytes 32 (unat (store (word_of a)))) \<lparr>evm_stack = [], evm_mem = m, evm_storage = store\<rparr>"
proof -
  let ?v = "be_bytes 32 (unat (store (word_of a)))"
  have l: "load_word a 0 = word_of a" using load_word_at [of a "[]" "[]"] assms by simp
  have "evm_call ac reader_runtime a store =
      evm_run ac reader_runtime a [0xf3] \<lparr>evm_stack = [word_of [0x00], word_of [0x20]], evm_mem = write_mem 0 ?v (\<lambda>_. 0), evm_storage = store\<rparr>"
    unfolding evm_call_def
    by (subst (2) reader_runtime_def) (simp add: run_push1 run_op push_width_def evm_op_def single_words l)
  also have "\<dots> = Returned ?v \<lparr>evm_stack = [], evm_mem = write_mem 0 ?v (\<lambda>_. 0), evm_storage = store\<rparr>"
    using read_written [of ?v "\<lambda>_. 0"] by (simp add: evm_run.simps(2) single_words)
  finally show ?thesis by blast
qed

text \<open>The writer contract stores the second word of its call data at the first, and the reader
  returns the word stored at the one its call data names, for every key and value.\<close>

theorem writer_reader_roundtrip:
  "\<exists>s1 s2. evm_call ac writer_runtime (be_bytes 32 (unat k) @ be_bytes 32 (unat v)) store = Returned [] s1 \<and>
     evm_storage s1 = store(k := v) \<and>
     evm_call ac reader_runtime (be_bytes 32 (unat k')) (evm_storage s1) = Returned (be_bytes 32 (unat (evm_storage s1 k'))) s2 \<and>
     evm_storage s2 = evm_storage s1"
proof -
  have "evm_call ac writer_runtime (be_bytes 32 (unat k) @ be_bytes 32 (unat v)) store =
      Returned [] \<lparr>evm_stack = [], evm_mem = (\<lambda>_. 0), evm_storage = store(k := v)\<rparr>"
    using run_writer [of "be_bytes 32 (unat k)" "be_bytes 32 (unat v)" ac store] by (simp add: word_of_be)
  moreover obtain m where "evm_call ac reader_runtime (be_bytes 32 (unat k')) (store(k := v)) =
      Returned (be_bytes 32 (unat ((store(k := v)) k'))) \<lparr>evm_stack = [], evm_mem = m, evm_storage = store(k := v)\<rparr>"
    using run_reader [of "be_bytes 32 (unat k')" ac "store(k := v)"] unfolding word_of_be by auto
  ultimately show ?thesis by auto
qed


section \<open>The factory\<close>

lemma factory_prefix_length: "length (factory_prefix n) = 31"
  by (simp add: factory_prefix_def push2_def)

text \<open>The child's initcode starts at the offset the factory copies from. The length it pushes is not
  checked, unlike the one of a deployment: the largest runtime a deployment takes makes a child
  of 65550 bytes, pushed as 14.\<close>

lemma factory_child:
  assumes "factory_destruct_init_code beneficiary n = Some code"
  shows "deploy_code_after [] (destruct_runtime beneficiary n) = Some (drop 31 code)"
  using assms by (auto simp: factory_destruct_init_code_def factory_prefix_length split: option.splits)

lemma factory_length_wraps:
  "\<exists>code. factory_destruct_init_code (replicate 20 0) 65535 = Some code \<and> length (drop 31 code) = 65550 \<and> take 3 code = push2 14"
  by (simp add: factory_destruct_init_code_def deploy_code_after_def Let_def destruct_runtime_def deploy_preamble_length
      factory_prefix_length factory_prefix_def push2_def)

end
