(* ===== verification/PbtSender.thy ===== *)
theory PbtSender
  imports PbtReorg TxKit
begin

text \<open>
  The transactions of the reorg driver's scenarios (\<open>cmd/pbtchaos/sender.go\<close> and the scenarios of
  \<open>scenario.go\<close>): a sender bound to one client with its own nonce, the fee it offers, the wait for
  receipts, and each scenario's preparation on the surviving branch, its writes on the doomed
  branch, and the question it asks every client afterwards. Signing, the client's answers and
  fresh keys and addresses are arguments; \<open>None\<close> is a wait that is not over or a panic.
\<close>

section \<open>Sending\<close>

record sender =
  se_addr :: string
  se_chain :: int
  se_nonce :: u64

definition trim_hex :: "string \<Rightarrow> string" where
  "trim_hex s = (if 2 < length s \<and> (take 2 s = ''0x'' \<or> take 2 s = ''0X'') then drop 2 s else s)"

text \<open>\<open>addr_of\<close> is the address of a private key, or why it is no key.\<close>

definition new_sender ::
  "(string \<Rightarrow> string + string) \<Rightarrow> string \<Rightarrow> string + int \<Rightarrow> string + u64 \<Rightarrow> string + sender"
where
  "new_sender addr_of key chain nonce =
     (case addr_of (trim_hex key) of
        Inl e \<Rightarrow> Inl (''bad key: '' @ e)
      | Inr a \<Rightarrow>
          (case chain of
             Inl e \<Rightarrow> Inl (''chain id: '' @ e)
           | Inr c \<Rightarrow>
               (case nonce of
                  Inl e \<Rightarrow> Inl (''nonce: '' @ e)
                | Inr n \<Rightarrow> Inr \<lparr>se_addr = a, se_chain = c, se_nonce = n\<rparr>)))"

definition feeBudgetWei :: int where
  "feeBudgetWei = 900000000000000000"

text \<open>The tip and the fee cap for a gas limit, over the client's base fee.\<close>

definition fees :: "string \<Rightarrow> string + int \<Rightarrow> u64 \<Rightarrow> string + int \<times> int" where
  "fees name base gas =
     (case base of
        Inl e \<Rightarrow> Inl e
      | Inr b \<Rightarrow>
          let cap = feeBudgetWei div uint gas
          in if cap \<le> b then
               Inl (''base fee on '' @ name @ '' is '' @ show_int b @ '' wei; '' @ show_int (uint gas) @
                 '' gas cannot be paid for within the node's 1 ether cap (max '' @ show_int cap @
                 '' wei/gas). Let the chain settle, or lower the load'')
             else Inr (if cap < 50000000000 then cap else 50000000000, cap))"

record tx_req =
  rq_to :: "string option"
  rq_data :: bytes
  rq_value :: "int option"
  rq_gas :: u64
  rq_auth :: "string list"

record tx =
  tx_set_code :: bool
  tx_chain :: int
  tx_nonce :: u64
  tx_to :: "string option"
  tx_gas :: u64
  tx_tip :: int
  tx_cap :: int
  tx_value :: int
  tx_data :: bytes
  tx_auth :: "string list"

record send_world =
  sw_base :: "string + int"
  sw_sign :: "tx \<Rightarrow> string + string"
  sw_create :: "string \<Rightarrow> u64 \<Rightarrow> string"
  sw_send :: "string option"

definition the_gas :: "tx_req \<Rightarrow> u64" where
  "the_gas r = (if rq_gas r = 0 then 1000000 else rq_gas r)"

definition tx_of :: "sender \<Rightarrow> tx_req \<Rightarrow> int \<times> int \<Rightarrow> tx" where
  "tx_of s r fee =
     \<lparr>tx_set_code = rq_auth r \<noteq> [], tx_chain = se_chain s, tx_nonce = se_nonce s, tx_to = rq_to r, tx_gas = the_gas r,
      tx_tip = fst fee, tx_cap = snd fee, tx_value = (case rq_value r of None \<Rightarrow> 0 | Some v \<Rightarrow> v),
      tx_data = rq_data r, tx_auth = rq_auth r\<rparr>"

text \<open>The sender after it and the hash and, for a creation, the address; only an accepted
  transaction uses up a nonce.\<close>

definition send :: "string \<Rightarrow> send_world \<Rightarrow> tx_req \<Rightarrow> sender \<Rightarrow> sender \<times> (string + string \<times> string)" where
  "send name w r s =
     (case fees name (sw_base w) (the_gas r) of
        Inl e \<Rightarrow> (s, Inl e)
      | Inr fee \<Rightarrow>
          if rq_auth r \<noteq> [] \<and> rq_to r = None then (s, Inl ''a set-code transaction cannot be a creation'')
          else case sw_sign w (tx_of s r fee) of
            Inl e \<Rightarrow> (s, Inl e)
          | Inr h \<Rightarrow>
              (case sw_send w of
                 Some e \<Rightarrow> (s, Inl (''send to '' @ name @ '': '' @ e))
               | None \<Rightarrow>
                   (s\<lparr>se_nonce := se_nonce s + 1\<rparr>,
                    Inr (h, if rq_to r = None then sw_create w (se_addr s) (se_nonce s) else ''''))))"

section \<open>Receipts\<close>

record receipt =
  rc_ok :: bool
  rc_gas :: u64

text \<open>A poll: the receipt or its absence, whether the deadline has passed, whether the context ended.\<close>

type_synonym receipt_poll = "receipt option \<times> bool \<times> string option"

fun await_receipt :: "string \<Rightarrow> string \<Rightarrow> receipt_poll list \<Rightarrow> (string + receipt) option" where
  "await_receipt name h [] = None"
| "await_receipt name h ((Some r, _, _) # ps) = Some (Inr r)"
| "await_receipt name h ((None, past, ended) # ps) =
     (if past then Some (Inl (''no receipt for '' @ short_hash h @ '' on '' @ name @ '' after 2m0s''))
      else case ended of Some e \<Rightarrow> Some (Inl e) | None \<Rightarrow> await_receipt name h ps)"

text \<open>\<open>None\<close> while it waits, else the error if any.\<close>

definition await_ok :: "string \<Rightarrow> string \<Rightarrow> receipt_poll list \<Rightarrow> string option option" where
  "await_ok name h ps =
     (case await_receipt name h ps of
        None \<Rightarrow> None
      | Some (Inl e) \<Rightarrow> Some (Some e)
      | Some (Inr r) \<Rightarrow>
          Some (if rc_ok r then None
                else Some (''transaction '' @ short_hash h @ '' reverted on '' @ name @ '' (gas used '' @
                           show_nat (unat (rc_gas r)) @ '' of the limit)'')))"

fun await_from :: "string \<Rightarrow> nat \<Rightarrow> nat \<Rightarrow> (nat \<Rightarrow> receipt_poll list) \<Rightarrow> string list \<Rightarrow> string option option" where
  "await_from name n i polls [] = Some None"
| "await_from name n i polls (h # hs) =
     (case await_ok name h (polls i) of
        None \<Rightarrow> None
      | Some (Some e) \<Rightarrow> Some (Some (''transaction '' @ show_nat (i + 1) @ '' of '' @ show_nat n @ '': '' @ e))
      | Some None \<Rightarrow> await_from name n (i + 1) polls hs)"

definition await_all_ok :: "string \<Rightarrow> (nat \<Rightarrow> receipt_poll list) \<Rightarrow> string list \<Rightarrow> string option option" where
  "await_all_ok name polls hs = await_from name (length hs) 0 polls hs"

section \<open>The scenarios\<close>

datatype scenario_kind = CodeSole | CodeShared | DelegateScn | AccountScn | StorageAdd | StorageDel

fun scenario_name :: "scenario_kind \<Rightarrow> string" where
  "scenario_name CodeSole = ''code-sole''"
| "scenario_name CodeShared = ''code-shared''"
| "scenario_name DelegateScn = ''delegate''"
| "scenario_name AccountScn = ''account''"
| "scenario_name StorageAdd = ''storage-add''"
| "scenario_name StorageDel = ''storage-del''"

definition scenarios :: "scenario_kind list" where
  "scenarios = [CodeSole, CodeShared, DelegateScn, AccountScn, StorageAdd, StorageDel]"

definition scenario_names :: "string list" where
  "scenario_names = sort (map scenario_name scenarios)"

record scn_run =
  sr_via_maj :: sender
  sr_via_min :: sender
  sr_doomed :: "string list"
  sr_survivor :: string
  sr_code :: bytes
  sr_slots :: "u64 list"

text \<open>What the stages find: per transaction the client's answers and the polls of its receipt, and the
  fresh accounts: an address with, for a delegation, its signed authorization.\<close>

record stage_world =
  sg_sends :: "nat \<Rightarrow> send_world"
  sg_receipts :: "nat \<Rightarrow> receipt_poll list"
  sg_fresh :: "nat \<Rightarrow> string + string \<times> string"

definition deploy_gas :: "nat \<Rightarrow> u64" where
  "deploy_gas code_len = 260000 + of_nat code_len * 1800"

text \<open>The sender after it, and the error or the address.\<close>

definition deploy :: "string \<Rightarrow> stage_world \<Rightarrow> bytes \<Rightarrow> sender \<Rightarrow> (sender \<times> (string + string)) option" where
  "deploy name g initcode s =
     (case send name (sg_sends g 0)
        \<lparr>rq_to = None, rq_data = initcode, rq_value = None, rq_gas = deploy_gas (length initcode), rq_auth = []\<rparr> s of
        (s', Inl e) \<Rightarrow> Some (s', Inl e)
      | (s', Inr (h, addr)) \<Rightarrow>
          (case await_ok name h (sg_receipts g 0) of
             None \<Rightarrow> None
           | Some (Some e) \<Rightarrow> Some (s', Inl e)
           | Some None \<Rightarrow> Some (s', Inr addr)))"

definition deploy_built :: "string \<Rightarrow> stage_world \<Rightarrow> bytes option \<Rightarrow> sender \<Rightarrow> (sender \<times> (string + string)) option" where
  "deploy_built name g built s = (case built of None \<Rightarrow> None | Some initcode \<Rightarrow> deploy name g initcode s)"

text \<open>Transactions back to back: each is the error of preparing it, or the account it dooms and the
  request; the hashes sent and the accounts doomed are collected until the first error.\<close>

fun send_each ::
  "string \<Rightarrow> stage_world \<Rightarrow> nat \<Rightarrow> (string + string list \<times> tx_req) list \<Rightarrow> sender \<Rightarrow> sender \<times> string list \<times> string list \<times> string option"
where
  "send_each name g i [] s = (s, [], [], None)"
| "send_each name g i (Inl e # rs) s = (s, [], [], Some e)"
| "send_each name g i (Inr (d, r) # rs) s =
     (case send name (sg_sends g i) r s of
        (s', Inl e) \<Rightarrow> (s', [], [], Some e)
      | (s', Inr (h, _)) \<Rightarrow>
          (case send_each name g (i + 1) rs s' of (s'', hs, ds, e) \<Rightarrow> (s'', h # hs, d @ ds, e)))"

definition send_all :: "string \<Rightarrow> stage_world \<Rightarrow> (string + string list \<times> tx_req) list \<Rightarrow> scn_run \<Rightarrow> (scn_run \<times> string option) option" where
  "send_all name g rs r =
     (case send_each name g 0 rs (sr_via_min r) of
        (s, hs, ds, e) \<Rightarrow>
          let r' = r\<lparr>sr_via_min := s, sr_doomed := sr_doomed r @ ds\<rparr>
          in case e of
               Some err \<Rightarrow> Some (r', Some err)
             | None \<Rightarrow> map_option (Pair r') (await_all_ok name (sg_receipts g) hs))"

text \<open>A call of the writer contract: the key and the value.\<close>

definition write_request :: "string \<Rightarrow> (u64 \<Rightarrow> bytes) \<Rightarrow> u64 \<Rightarrow> tx_req" where
  "write_request dest val s =
     \<lparr>rq_to = Some dest, rq_data = slot_key s @ val s, rq_value = None, rq_gas = 200000, rq_auth = []\<rparr>"

definition write_all ::
  "string \<Rightarrow> stage_world \<Rightarrow> string \<Rightarrow> u64 list \<Rightarrow> (u64 \<Rightarrow> bytes) \<Rightarrow> scn_run \<Rightarrow> (scn_run \<times> string option) option"
where
  "write_all name g dest slots val r = send_all name g (map (\<lambda>s. Inr ([], write_request dest val s)) slots) r"

text \<open>\<open>setup\<close>, through the majority; \<open>name\<close> is the client it goes to. Without a setup nothing is done.\<close>

definition set_survivor :: "scn_run \<Rightarrow> (sender \<times> (string + string)) option \<Rightarrow> (scn_run \<times> string option) option" where
  "set_survivor r d =
     (case d of
        None \<Rightarrow> None
      | Some (s, Inl e) \<Rightarrow> Some (r\<lparr>sr_via_maj := s\<rparr>, Some e)
      | Some (s, Inr addr) \<Rightarrow> Some (r\<lparr>sr_via_maj := s, sr_survivor := addr\<rparr>, None))"

fun has_setup :: "scenario_kind \<Rightarrow> bool" where
  "has_setup CodeSole = False"
| "has_setup AccountScn = False"
| "has_setup _ = True"

fun scn_setup :: "scenario_kind \<Rightarrow> string \<Rightarrow> stage_world \<Rightarrow> scn_run \<Rightarrow> (scn_run \<times> string option) option" where
  "scn_setup CodeSole name g r = Some (r, None)"
| "scn_setup AccountScn name g r = Some (r, None)"
| "scn_setup CodeShared name g r =
     (let r' = r\<lparr>sr_code := pattern_code 400 0xb2\<rparr>
      in set_survivor r' (deploy_built name g (deploy_code_after [] (sr_code r')) (sr_via_maj r')))"
| "scn_setup DelegateScn name g r =
     (let r' = r\<lparr>sr_code := pattern_code 300 0xc3\<rparr>
      in set_survivor r' (deploy_built name g (deploy_code_after [] (sr_code r')) (sr_via_maj r')))"
| "scn_setup StorageAdd name g r =
     (let r' = r\<lparr>sr_slots := [7, 70]\<rparr>
      in set_survivor r' (deploy_built name g (deploy_code_after [] writer_runtime) (sr_via_maj r')))"
| "scn_setup StorageDel name g r =
     (let r' = r\<lparr>sr_slots := [1, 2, 3]\<rparr>
      in set_survivor r' (deploy_built name g (deploy_code_after (seed_code (sr_slots r')) writer_runtime) (sr_via_maj r')))"

text \<open>\<open>apply\<close>, through the minority.\<close>

definition add_doomed :: "scn_run \<Rightarrow> (sender \<times> (string + string)) option \<Rightarrow> (scn_run \<times> string option) option" where
  "add_doomed r d =
     (case d of
        None \<Rightarrow> None
      | Some (s, Inl e) \<Rightarrow> Some (r\<lparr>sr_via_min := s\<rparr>, Some e)
      | Some (s, Inr addr) \<Rightarrow> Some (r\<lparr>sr_via_min := s, sr_doomed := sr_doomed r @ [addr]\<rparr>, None))"

fun scn_apply :: "scenario_kind \<Rightarrow> string \<Rightarrow> stage_world \<Rightarrow> scn_run \<Rightarrow> (scn_run \<times> string option) option" where
  "scn_apply CodeSole name g r =
     (let r' = r\<lparr>sr_code := pattern_code 400 0xa1\<rparr>
      in add_doomed r' (deploy_built name g (deploy_code_after [] (sr_code r')) (sr_via_min r')))"
| "scn_apply CodeShared name g r =
     add_doomed r (deploy_built name g (deploy_code_after [] (sr_code r)) (sr_via_min r))"
| "scn_apply DelegateScn name g r =
     send_all name g (map (\<lambda>i. case sg_fresh g i of
        Inl e \<Rightarrow> Inl e
      | Inr (addr, auth) \<Rightarrow> Inr ([addr], \<lparr>rq_to = Some addr, rq_data = [], rq_value = None, rq_gas = 0, rq_auth = [auth]\<rparr>)) [0..<3]) r"
| "scn_apply AccountScn name g r =
     send_all name g (map (\<lambda>i. case sg_fresh g i of
        Inl e \<Rightarrow> Inl e
      | Inr (addr, _) \<Rightarrow> Inr ([addr], \<lparr>rq_to = Some addr, rq_data = [], rq_value = Some 1000000000000000,
          rq_gas = 300000, rq_auth = []\<rparr>)) [0..<5]) r"
| "scn_apply StorageAdd name g r = write_all name g (sr_survivor r) (sr_slots r) (\<lambda>s. slot_key (s + 1)) r"
| "scn_apply StorageDel name g r = write_all name g (sr_survivor r) (sr_slots r) (\<lambda>_. zero_hash) r"

section \<open>The question\<close>

text \<open>What one client answers about the state at one block.\<close>

record el_view =
  vw_code :: "string \<Rightarrow> string + bytes"
  vw_balance :: "string \<Rightarrow> string + int"
  vw_storage :: "string \<Rightarrow> u64 \<Rightarrow> string + bytes"

text \<open>How many of the readings are so, out of how many; the first failed reading ends it with 0.\<close>

fun count_from :: "nat \<Rightarrow> nat \<Rightarrow> (string + bool) list \<Rightarrow> nat \<times> nat \<times> string option" where
  "count_from n outof [] = (n, outof, None)"
| "count_from n outof (Inl e # xs) = (0, outof, Some e)"
| "count_from n outof (Inr b # xs) = count_from (if b then n + 1 else n) outof xs"

definition count_answers :: "(string + bool) list \<Rightarrow> nat \<times> nat \<times> string option" where
  "count_answers xs = count_from 0 (length xs) xs"

definition has_code :: "scn_run \<Rightarrow> el_view \<Rightarrow> nat \<times> nat \<times> string option" where
  "has_code r v = count_answers (map (\<lambda>a. map_sum id (\<lambda>c. c \<noteq> []) (vw_code v a)) (sr_doomed r))"

text \<open>\<open>common.BytesToHash\<close> keeps the last 32 bytes.\<close>

definition is_zero_word :: "bytes \<Rightarrow> bool" where
  "is_zero_word b \<longleftrightarrow> (\<forall>x \<in> set (drop (length b - 32) b). x = 0)"

definition count_slots :: "scn_run \<Rightarrow> el_view \<Rightarrow> bool \<Rightarrow> nat \<times> nat \<times> string option" where
  "count_slots r v want_zero =
     count_answers (map (\<lambda>s. map_sum id (\<lambda>b. is_zero_word b = want_zero) (vw_storage v (sr_survivor r) s)) (sr_slots r))"

fun scn_effect :: "scenario_kind \<Rightarrow> scn_run \<Rightarrow> el_view \<Rightarrow> nat \<times> nat \<times> string option" where
  "scn_effect AccountScn r v = count_answers (map (\<lambda>a. map_sum id (\<lambda>b. b \<noteq> 0) (vw_balance v a)) (sr_doomed r))"
| "scn_effect StorageAdd r v = count_slots r v False"
| "scn_effect StorageDel r v = count_slots r v True"
| "scn_effect _ r v = has_code r v"

fun scn_survives :: "scenario_kind \<Rightarrow> scn_run \<Rightarrow> string \<Rightarrow> el_view \<Rightarrow> string option" where
  "scn_survives CodeShared r name v =
     (case vw_code v (sr_survivor r) of
        Inl e \<Rightarrow> Some e
      | Inr code \<Rightarrow>
          if code \<noteq> sr_code r then
            Some (name @ '' has '' @ show_nat (length code) @ '' bytes at the surviving account '' @ sr_survivor r @
              '', wanted '' @ show_nat (length (sr_code r)))
          else None)"
| "scn_survives _ r name v = None"

fun has_survives :: "scenario_kind \<Rightarrow> bool" where
  "has_survives CodeShared = True"
| "has_survives _ = False"

text \<open>\<open>describeEffect\<close>: which clients see the doomed change.\<close>

definition describe_effect :: "scenario_kind \<Rightarrow> scn_run \<Rightarrow> (string \<times> el_view) list \<Rightarrow> string" where
  "describe_effect k r els =
     (let says = map (\<lambda>(name, v). (name, scn_effect k r v)) els;
          yes = List.map_filter (\<lambda>(name, n, total, e).
            if e = None \<and> 0 < n then Some (name @ ''='' @ show_nat n @ ''/'' @ show_nat total) else None) says;
          no = List.map_filter (\<lambda>(name, n, total, e).
            if e \<noteq> None then Some (name @ ''=?'') else if 0 < n then None else Some name) says
      in ''visible on ['' @ joined_with '' '' (sort yes) @ ''], absent on ['' @ joined_with '' '' (sort no) @ '']'')"

end
