(* ===== verification/PbtScenario.thy ===== *)
theory PbtScenario
  imports PbtSender "HOL-Library.AList"
begin

text \<open>
  A scenario from the split to its verdict (\<open>cmd/pbtchaos/scenario_run.go\<close>): the anchor block on
  the majority, the orphaned depth, the wait for the two sides to part, the judgement of heads
  that stopped, of clients without peers, the waits after the heal and \<open>runScenario\<close> itself. Maps
  from names are association lists; where the code ranges over one to print it, the clients'
  order stands for the map's.
\<close>

section \<open>Before the heal\<close>

abbreviation "tipMargin \<equiv> (4 :: u64)"
abbreviation "minChainHeight \<equiv> (24 :: u64)"

text \<open>The anchor, or a zero hash with the reason; the hashes are the majority's at a height.\<close>

definition majority_tip :: "head_answers \<Rightarrow> (u64 \<Rightarrow> string list) \<Rightarrow> u64 \<times> string \<times> string" where
  "majority_tip heads hashes =
     (case lowest_head heads of
        Inl e \<Rightarrow> (0, '''', ''majority head unreadable: '' @ e)
      | Inr n \<Rightarrow>
          if n \<le> tipMargin then (0, '''', ''majority head '' @ show_nat (unat n) @ '' is within 4 blocks of genesis'')
          else
            let m = n - tipMargin; hs = hashes m
            in if \<not> agreed hs then
                 (0, '''', ''the majority itself was forked at block '' @ show_nat (unat m) @ '':'' @
                    concat (map (\<lambda>(name, h). '' '' @ name @ ''='' @ short_hash h) (zip (map fst heads) hs)))
               else (m, hs ! 0, ''''))"

fun orphan_steps :: "nat \<Rightarrow> int \<Rightarrow> (u64 \<Rightarrow> string) \<Rightarrow> (u64 \<Rightarrow> string) \<Rightarrow> u64 \<Rightarrow> int" where
  "orphan_steps 0 depth mine theirs n = 0"
| "orphan_steps (Suc k) depth mine theirs n =
     (if n = 0 then 0
      else if mine n = '''' \<or> theirs n = '''' then orphan_steps k (depth + 1) mine theirs (n - 1)
      else if mine n = theirs n then depth
      else orphan_steps k (depth + 1) mine theirs (n - 1))"

definition orphan_depth :: "string + u64 \<Rightarrow> (u64 \<Rightarrow> string) \<Rightarrow> (u64 \<Rightarrow> string) \<Rightarrow> int" where
  "orphan_depth hdx mine theirs = (case hdx of Inl _ \<Rightarrow> 0 | Inr n \<Rightarrow> orphan_steps 256 0 mine theirs n)"

text \<open>\<open>awaitDivergence\<close>: a poll's majority heads, both sides' hashes, and whether the deadline has
  passed and the context ended after it.\<close>

record split_poll =
  sp_heads :: head_answers
  sp_majority :: "u64 \<Rightarrow> string"
  sp_minority :: "u64 \<Rightarrow> string"
  sp_past :: bool
  sp_ended :: bool

definition parted :: "split_poll \<Rightarrow> bool" where
  "parted p =
     (case lowest_head (sp_heads p) of
        Inl _ \<Rightarrow> False
      | Inr n \<Rightarrow> 0 < n \<and> sp_majority p n \<noteq> '''' \<and> sp_minority p n \<noteq> sp_majority p n)"

fun await_divergence :: "split_poll list \<Rightarrow> bool option" where
  "await_divergence [] = None"
| "await_divergence (p # ps) =
     (if parted p then Some True else if sp_past p then Some False else if sp_ended p then Some False
      else await_divergence ps)"

section \<open>Who stopped\<close>

abbreviation "wedgeTicks \<equiv> (6 :: int)"

record head_tracker =
  ht_last :: "(string \<times> u64) list"
  ht_stuck :: "(string \<times> int) list"

definition new_head_tracker :: head_tracker where
  "new_head_tracker = \<lparr>ht_last = [], ht_stuck = []\<rparr>"

definition stuck_of :: "head_tracker \<Rightarrow> string \<Rightarrow> int" where
  "stuck_of t name = (case map_of (ht_stuck t) name of None \<Rightarrow> 0 | Some k \<Rightarrow> k)"

definition moved :: "head_tracker \<Rightarrow> (string \<times> u64) list \<Rightarrow> bool" where
  "moved t heads \<longleftrightarrow> (\<exists>(name, n) \<in> set heads. case map_of (ht_last t) name of None \<Rightarrow> False | Some prev \<Rightarrow> prev < n)"

definition observe_heads :: "head_tracker \<Rightarrow> (string \<times> u64) list \<Rightarrow> head_tracker" where
  "observe_heads t heads =
     \<lparr>ht_last = foldl (\<lambda>m (name, n). AList.update name n m) (ht_last t) heads,
      ht_stuck =
        (if moved t heads then
           foldl (\<lambda>m (name, n).
             AList.update name (if map_of (ht_last t) name = Some n then stuck_of t name + 1 else 0) m) (ht_stuck t) heads
         else ht_stuck t)\<rparr>"

definition frozen_heads :: "head_tracker \<Rightarrow> string list" where
  "frozen_heads t = sort (map fst (filter (\<lambda>(_, n). wedgeTicks \<le> n) (ht_stuck t)))"

text \<open>A round's sample: the clients that answered, a later one of the same name in place of an
  earlier one.\<close>

definition sample_of :: "head_answers \<Rightarrow> (string \<times> u64) list" where
  "sample_of answers =
     foldl (\<lambda>m (name, a). case a of Inl _ \<Rightarrow> m | Inr n \<Rightarrow> AList.update name n m) [] answers"

section \<open>Peers\<close>

definition participant_index :: "string \<Rightarrow> string" where
  "participant_index name = (case split_on (CHR ''-'') name of _ # i # _ \<Rightarrow> i | _ \<Rightarrow> '''')"

definition under_peered :: "(string \<times> int) list \<Rightarrow> int list \<Rightarrow> bool" where
  "under_peered by_index participants \<longleftrightarrow>
     (\<exists>n \<in> set participants. case map_of by_index (show_int n) of None \<Rightarrow> False | Some p \<Rightarrow> p \<le> 1)"

definition starved_one :: "(string \<times> int) list \<Rightarrow> string \<Rightarrow> bool" where
  "starved_one by_index f \<longleftrightarrow> map_of by_index (participant_index f) = Some 0"

text \<open>The wedged and the starved.\<close>

definition classify_frozen :: "string list \<Rightarrow> (string \<times> int) list \<Rightarrow> string list \<times> string list" where
  "classify_frozen frozen by_index =
     (filter (\<lambda>f. \<not> starved_one by_index f) frozen, filter (starved_one by_index) frozen)"

text \<open>The peer counts as text and by participant, over the consensus clients' answers.\<close>

type_synonym peer_answers = "(string \<times> (string + string)) list"

fun peer_parts :: "peer_answers \<Rightarrow> (string \<times> int) list \<Rightarrow> string list \<times> (string \<times> int) list" where
  "peer_parts [] m = ([], m)"
| "peer_parts ((name, a) # as) m =
     (case peer_count a of
        Inl _ \<Rightarrow> (case peer_parts as m of (ps, m') \<Rightarrow> ((name @ ''=?'') # ps, m'))
      | Inr n \<Rightarrow>
          (case peer_parts as (AList.update (participant_index name) n m) of
             (ps, m') \<Rightarrow> ((name @ ''='' @ show_int n) # ps, m')))"

definition peer_summary :: "peer_answers \<Rightarrow> string \<times> (string \<times> int) list" where
  "peer_summary as =
     (if as = [] then (''unknown (no consensus clients given)'', [])
      else (case peer_parts as [] of (ps, m) \<Rightarrow> (joined_with '' '' ps, m)))"

section \<open>After the heal\<close>

definition both :: "string list \<Rightarrow> string list \<Rightarrow> string list" where
  "both a b = sort (filter (\<lambda>n. n \<in> set b) a)"

definition describe_heads :: "string list \<Rightarrow> (string \<times> u64) list \<Rightarrow> string" where
  "describe_heads ns heads =
     joined_with '' '' (map (\<lambda>n. case map_of heads n of
        Some h \<Rightarrow> n @ ''='' @ show_nat (unat h) | None \<Rightarrow> n @ ''=?'') ns)"

record laggards =
  lg_short :: "string list"
  lg_frozen :: "string list"
  lg_heads :: "(string \<times> u64) list"

definition no_laggards :: laggards where
  "no_laggards = \<lparr>lg_short = [], lg_frozen = [], lg_heads = []\<rparr>"

text \<open>\<open>awaitHeight\<close>: a poll's heads, each client's hash at the height, the deadline and the context.\<close>

record height_poll =
  hp_heads :: head_answers
  hp_hashes :: "(string \<times> string) list"
  hp_past :: bool
  hp_ended :: bool

definition short_of :: "height_poll \<Rightarrow> string list" where
  "short_of p = map fst (filter (\<lambda>(_, h). h = '''') (hp_hashes p))"

fun await_height :: "head_tracker \<Rightarrow> height_poll list \<Rightarrow> (bool \<times> laggards) option" where
  "await_height t [] = None"
| "await_height t (p # ps) =
     (let sample = sample_of (hp_heads p); t' = observe_heads t sample; short = sort (short_of p)
      in if short_of p = [] then Some (True, no_laggards)
         else if hp_past p then
           Some (False, \<lparr>lg_short = short, lg_frozen = both (frozen_heads t') short, lg_heads = sample\<rparr>)
         else if hp_ended p then Some (False, \<lparr>lg_short = short, lg_frozen = [], lg_heads = sample\<rparr>)
         else await_height t' ps)"

text \<open>\<open>waitAgreement\<close>: a poll finds the context ended, or the heads, the deadline, the heads again and
  the clients' hashes at a height.\<close>

datatype agree_poll = AgreeEnded | AgreePoll head_answers bool head_answers "u64 \<Rightarrow> string list"

fun wait_agreement :: "head_tracker \<Rightarrow> agree_poll list \<Rightarrow> (u64 \<times> bool \<times> string list) option" where
  "wait_agreement t [] = None"
| "wait_agreement t (AgreeEnded # ps) = Some (0, False, [])"
| "wait_agreement t (AgreePoll heads past again hashes # ps) =
     (let t' = observe_heads t (sample_of heads)
      in if frozen_heads t' \<noteq> [] then Some (0, False, frozen_heads t')
         else if past then Some (0, False, [])
         else case lowest_head again of
           Inl _ \<Rightarrow> wait_agreement t' ps
         | Inr n \<Rightarrow>
             if n = 0 then wait_agreement t' ps
             else if agreed (hashes n) then Some (n, True, []) else wait_agreement t' ps)"

definition disruptoor_summary :: "string + nat \<times> nat \<Rightarrow> string" where
  "disruptoor_summary s =
     (case s of
        Inl e \<Rightarrow> ''unreadable: '' @ e
      | Inr (p, sh) \<Rightarrow> show_nat p @ '' partition(s), '' @ show_nat sh @ '' shaping rule(s)'')"

definition describe_disagreement :: "u64 \<Rightarrow> string list \<Rightarrow> string list \<Rightarrow> string" where
  "describe_disagreement n ns hs =
     ''at block '' @ show_nat (unat n) @ '':'' @ concat (map (\<lambda>(name, h). '' '' @ name @ ''='' @ short_hash h) (zip ns hs))"

text \<open>\<open>checkGone\<close>: the clients' views at the anchor block.\<close>

fun still_there :: "scenario_kind \<Rightarrow> scn_run \<Rightarrow> (string \<times> el_view) list \<Rightarrow> string + string list" where
  "still_there k r [] = Inr []"
| "still_there k r ((name, v) # els) =
     (case scn_effect k r v of
        (n, outof, Some e) \<Rightarrow> Inl (name @ '': '' @ e)
      | (n, outof, None) \<Rightarrow>
          (case still_there k r els of
             Inl e \<Rightarrow> Inl e
           | Inr ss \<Rightarrow> Inr (if 0 < n then (name @ '' ('' @ show_nat n @ ''/'' @ show_nat outof @ '')'') # ss else ss)))"

fun all_survive :: "scenario_kind \<Rightarrow> scn_run \<Rightarrow> (string \<times> el_view) list \<Rightarrow> string option" where
  "all_survive k r [] = None"
| "all_survive k r ((name, v) # els) =
     (case scn_survives k r name v of Some e \<Rightarrow> Some e | None \<Rightarrow> all_survive k r els)"

definition check_gone :: "scenario_kind \<Rightarrow> scn_run \<Rightarrow> u64 \<Rightarrow> (string \<times> el_view) list \<Rightarrow> detail + detail" where
  "check_gone k r height els =
     (case still_there k r els of
        Inl e \<Rightarrow> Inl (lit e)
      | Inr still \<Rightarrow>
          if still \<noteq> [] then
            Inl (Fmt ''%s: the reorged-out change is still present at block %s on %s''
              [DS (if length still = length els then ''every client gives the same wrong answer'' else ''clients DISAGREE''),
               DI (uint height), DS (joined_with '' '' (sort still))])
          else
            let note = Fmt ''the doomed change is gone from every client at block %s'' [DI (uint height)]
            in if has_survives k then
                 (case all_survive k r els of
                    Some e \<Rightarrow> Inl (Fmt ''state that should have outlived the reorg is missing: %w'' [DS e])
                  | None \<Rightarrow> Inr (Fmt ''%s; the shared blob still reads back on every client'' [DD note]))
               else Inr note)"


section \<open>The run\<close>

text \<open>What a run finds, in its order. Views are by client name: the state before the heal, the state
  when a failed check asks again for its report, and the state at the anchor block.\<close>

record scenario_world =
  sc_started :: gotime
  sc_heads :: head_answers
  sc_grow :: "head_answers \<times> (string + head_answers) list"
  sc_addr_of :: "string \<Rightarrow> string + string"
  sc_accounts :: "string \<Rightarrow> (string + int) \<times> (string + u64)"
  sc_peers :: peer_answers
  sc_setup :: stage_world
  sc_settle :: "head_answers \<times> (string + head_answers) list"
  sc_cut :: "string option"
  sc_parting :: "split_poll list"
  sc_apply :: stage_world
  sc_before :: "string \<Rightarrow> el_view"
  sc_again :: "string \<Rightarrow> el_view"
  sc_hold :: "head_answers \<times> (string + head_answers) list"
  sc_branch :: "(string + u64) \<times> (u64 \<Rightarrow> string) \<times> (u64 \<Rightarrow> string)"
  sc_tip :: "head_answers \<times> (u64 \<Rightarrow> string list)"
  sc_tip_peers :: peer_answers
  sc_clear :: "string option"
  sc_agree :: "agree_poll list"
  sc_reach :: "height_poll list"
  sc_report :: "head_answers \<times> (u64 \<Rightarrow> string list) \<times> peer_answers \<times> (string + nat \<times> nat)"
  sc_final :: "string \<Rightarrow> string"
  sc_after :: "string \<Rightarrow> el_view"

record scn_end =
  en_result :: chaos_result
  en_net :: "partition_spec list"
  en_counted :: "string option"
  en_turn :: nat

record scn_ctx =
  sx_res :: chaos_result
  sx_run :: scn_run
  sx_min :: string
  sx_maj :: "string list"
  sx_node :: int
  sx_others :: "int list"
  sx_turn :: nat

definition ended :: "string \<Rightarrow> detail \<Rightarrow> chaos_result \<Rightarrow> partition_spec list \<Rightarrow> string option \<Rightarrow> nat \<Rightarrow> (scn_end + 'a) option" where
  "ended oc d res net counted turn =
     Some (Inl \<lparr>en_result = res\<lparr>cr_outcome := oc, cr_detail := d\<rparr>, en_net = net, en_counted = counted, en_turn = turn\<rparr>)"

text \<open>A stage ends the run, hands on what the next stage needs, or still waits.\<close>

definition and_then :: "(scn_end + 'a) option \<Rightarrow> ('a \<Rightarrow> (scn_end + 'b) option) \<Rightarrow> (scn_end + 'b) option" where
  "and_then m f = (case m of None \<Rightarrow> None | Some (Inl e) \<Rightarrow> Some (Inl e) | Some (Inr x) \<Rightarrow> f x)"

text \<open>Up to the choice of the minority, the keys and the senders.\<close>

definition scn_grow :: "chaos_result \<Rightarrow> scenario_world \<Rightarrow> partition_spec list \<Rightarrow> nat \<Rightarrow> (scn_end + unit) option" where
  "scn_grow res w net turn =
     (case lowest_head (sc_heads w) of
        Inl _ \<Rightarrow> Some (Inr ())
      | Inr h \<Rightarrow>
          if minChainHeight \<le> h then Some (Inr ())
          else (case wait_blocks (minChainHeight - h) (fst (sc_grow w)) (snd (sc_grow w)) of
                  None \<Rightarrow> None
                | Some None \<Rightarrow> Some (Inr ())
                | Some (Some e) \<Rightarrow>
                    ended ''skipped'' (Fmt ''waiting for the chain to reach block %d: %v'' [DI 24, DS e]) res net None turn))"

definition without_nth :: "int \<Rightarrow> 'a list \<Rightarrow> 'a list" where
  "without_nth idx xs = map snd (filter (\<lambda>(i, _). i \<noteq> idx) (zip [1..int (length xs)] xs))"

definition scn_begin ::
  "chaos_config \<Rightarrow> string list \<Rightarrow> string list \<Rightarrow> scenario_kind \<Rightarrow> u64 \<Rightarrow> int \<Rightarrow> nat \<Rightarrow> scenario_world \<Rightarrow> partition_spec list \<Rightarrow>
     (scn_end + scn_ctx) option"
where
  "scn_begin cfg els keys k depth pick turn w net =
     (let res = new_result (scenario_name k) (sc_started w) depth
      in if length els < 2 then ended ''skipped'' (lit ''a scenario needs at least two execution clients'') res net None turn
         else if keys = [] then ended ''skipped'' (lit ''no --key given, so nothing can be sent'') res net None turn
         else and_then (scn_grow res w net turn) (\<lambda>_.
           case minority_for (cc_protected cfg) (int (length els)) pick turn of
             (idx, turn') \<Rightarrow>
               (case keys_for keys turn' of
                  None \<Rightarrow> None
                | Some (maj_key, min_key) \<Rightarrow>
                    let minority = els ! nat (idx - 1); majority = without_nth idx els;
                        acc = (\<lambda>name key. new_sender (sc_addr_of w) key (fst (sc_accounts w name)) (snd (sc_accounts w name)))
                    in case acc (majority ! 0) maj_key of
                         Inl e \<Rightarrow> ended ''error'' (lit e) res net None turn'
                       | Inr via_maj \<Rightarrow>
                           (case acc minority min_key of
                              Inl e \<Rightarrow> ended ''error'' (lit e) res net None turn'
                            | Inr via_min \<Rightarrow> Some (Inr
                                \<lparr>sx_res = res\<lparr>cr_minority := minority\<rparr>,
                                 sx_run = \<lparr>sr_via_maj = via_maj, sr_via_min = via_min, sr_doomed = [], sr_survivor = '''',
                                           sr_code = [], sr_slots = []\<rparr>,
                                 sx_min = minority, sx_maj = majority, sx_node = idx,
                                 sx_others = filter (\<lambda>i. i \<noteq> idx) [1..int (length els)], sx_turn = turn'\<rparr>)))))"

text \<open>The mesh and the preparation.\<close>

definition scn_ready :: "scenario_kind \<Rightarrow> scenario_world \<Rightarrow> partition_spec list \<Rightarrow> scn_ctx \<Rightarrow> (scn_end + scn_ctx) option" where
  "scn_ready k w net x =
     (case peer_summary (sc_peers w) of
        (peers, by_index) \<Rightarrow>
          if under_peered by_index (sx_others x) then
            ended ''inconclusive''
              (Fmt ''the consensus mesh is degraded before the partition (%s): a majority client with at most one peer would be cut off with the victim; restart the banned clients (make repeer) and rerun'' [DS peers])
              (sx_res x) net None (sx_turn x)
          else if \<not> has_setup k then Some (Inr x)
          else case scn_setup k (sx_maj x ! 0) (sc_setup w) (sx_run x) of
            None \<Rightarrow> None
          | Some (r, Some e) \<Rightarrow> ended ''error'' (Fmt ''setup: %s'' [DS e]) (sx_res x) net None (sx_turn x)
          | Some (r, None) \<Rightarrow>
              (case wait_blocks 2 (fst (sc_settle w)) (snd (sc_settle w)) of
                 None \<Rightarrow> None
               | Some (Some e) \<Rightarrow>
                   ended ''error'' (Fmt ''waiting for setup to settle: %s'' [DS e]) (sx_res x) net None (sx_turn x)
               | Some None \<Rightarrow> Some (Inr (x\<lparr>sx_run := r\<rparr>))))"

text \<open>The split and the doomed writes; a failure here heals at once.\<close>

definition healed :: "scenario_world \<Rightarrow> partition_spec list \<Rightarrow> partition_spec list" where
  "healed w net = fst (disrupt_clear (sc_clear w) net)"

definition scn_doom ::
  "scenario_kind \<Rightarrow> string list \<Rightarrow> scenario_world \<Rightarrow> partition_spec list \<Rightarrow> scn_ctx \<Rightarrow> (scn_end + scn_ctx) option"
where
  "scn_doom k els w net x =
     (let give_up = (\<lambda>d. ended ''inconclusive'' d (sx_res x) (healed w net) None (sx_turn x))
      in case await_divergence (sc_parting w) of
           None \<Rightarrow> None
         | Some False \<Rightarrow> give_up (lit ''the partition never separated the chains, so nothing could be doomed'')
         | Some True \<Rightarrow>
             (case scn_apply k (sx_min x) (sc_apply w) (sx_run x) of
                None \<Rightarrow> None
              | Some (r, Some e) \<Rightarrow> give_up (Fmt ''the doomed transactions never landed: %s'' [DS e])
              | Some (r, None) \<Rightarrow>
                  let says = describe_effect k r (map (\<lambda>n. (n, sc_again w n)) els)
                  in (case scn_effect k r (sc_before w (sx_min x)) of
                        (visible, outof, err) \<Rightarrow>
                          if err \<noteq> None \<or> visible \<noteq> outof then
                            give_up (Fmt ''the doomed change is not fully visible on the minority %s (%d of %d), so there is nothing for the reorg to remove (%s)''
                              [DS (sx_min x), DI (int visible), DI (int outof), DS says])
                          else (case scn_effect k r (sc_before w (sx_maj x ! 0)) of
                            (vis, _, er) \<Rightarrow>
                              if er \<noteq> None \<or> vis \<noteq> 0 then
                                give_up (Fmt ''the doomed change is already visible on the majority %s, so it reached the surviving branch and was never doomed (%s)''
                                  [DS (sx_maj x ! 0), DS says])
                              else Some (Inr (x\<lparr>sx_run := r\<rparr>))))))"

definition scn_split ::
  "int list \<Rightarrow> scenario_kind \<Rightarrow> string list \<Rightarrow> scenario_world \<Rightarrow> partition_spec list \<Rightarrow> scn_ctx \<Rightarrow>
     (scn_end + scn_ctx \<times> partition_spec list) option"
where
  "scn_split observers k els w net x =
     (case disrupt_partition observers (''pbt-'' @ scenario_name k) [sx_others x, [sx_node x]] (sc_cut w) net of
        (net1, Some e) \<Rightarrow> ended ''error'' (Fmt ''partition: %s'' [DS (cut_error e)]) (sx_res x) net1 None (sx_turn x)
      | (net1, None) \<Rightarrow> and_then (scn_doom k els w net1 x) (\<lambda>x'. Some (Inr (x', net1))))"

text \<open>The hold, the branch about to die, the anchor and the heal.\<close>

definition scn_heal ::
  "scenario_world \<Rightarrow> partition_spec list \<Rightarrow> scn_ctx \<Rightarrow> (scn_end + scn_ctx \<times> partition_spec list \<times> u64 \<times> string \<times> string) option"
where
  "scn_heal w net x =
     (case wait_blocks (cr_depth (sx_res x)) (fst (sc_hold w)) (snd (sc_hold w)) of
        None \<Rightarrow> None
      | Some _ \<Rightarrow>
          let res = (sx_res x)\<lparr>cr_orphaned := (case sc_branch w of (hdx, mine, theirs) \<Rightarrow> orphan_depth hdx mine theirs)\<rparr>
          in (case majority_tip (fst (sc_tip w)) (snd (sc_tip w)) of
                (height, hash, why) \<Rightarrow>
                  let why' = (if why \<noteq> '''' then why @ ''; consensus peers '' @ fst (peer_summary (sc_tip_peers w)) else why)
                  in case disrupt_clear (sc_clear w) net of
                       (net', Some e) \<Rightarrow> ended ''error'' (Fmt ''heal: %s'' [DS (cut_error e)]) res net' None (sx_turn x)
                     | (net', None) \<Rightarrow> Some (Inr (x\<lparr>sx_res := res\<rparr>, net', height, hash, why'))))"

text \<open>The wait for one chain; a dash stands for the code's longer one in the reports.\<close>

definition scn_diverged :: "string list \<Rightarrow> scenario_world \<Rightarrow> string list \<Rightarrow> string \<times> detail" where
  "scn_diverged els w frozen =
     (case sc_report w of
        (heads, hashes, peers, state) \<Rightarrow>
          let n = (case lowest_head heads of Inl _ \<Rightarrow> 0 | Inr n \<Rightarrow> n);
              disagreement = DS (describe_disagreement n els (hashes n));
              text = DS (fst (peer_summary peers)); net = DS (disruptoor_summary state)
          in case classify_frozen frozen (snd (peer_summary peers)) of
               (wedged, starved) \<Rightarrow>
                 if wedged \<noteq> [] then
                   (''finding'', Fmt ''%s stopped advancing while the rest of the chain kept building, and the clients never reconverged after a heal that succeeded - %s. It is not starved: see the peer counts. peers: %s; disruptoor: %s''
                      [DS (joined_with '', '' wedged), disagreement, text, net])
                 else if starved \<noteq> [] then
                   (''inconclusive'', Fmt ''%s stopped advancing, but its consensus client has no peers, so it is starved rather than wedged - the network, not the client. Restart it and re-run. peers: %s; %s''
                      [DS (joined_with '', '' starved), text, disagreement])
                 else
                   (''finding'', Fmt ''the clients did not reconverge within 4m of a heal that succeeded, and every client kept building - %s. peers: %s; disruptoor: %s''
                      [disagreement, text, net]))"

text \<open>A client short of the anchor.\<close>

definition scn_short :: "scenario_world \<Rightarrow> u64 \<Rightarrow> laggards \<Rightarrow> string \<times> detail" where
  "scn_short w height lag =
     (case sc_report w of
        (heads, hashes, peers, state) \<Rightarrow>
          let text = DS (fst (peer_summary peers))
          in case classify_frozen (lg_frozen lag) (snd (peer_summary peers)) of
               (wedged, starved) \<Rightarrow>
                 if wedged \<noteq> [] then
                   (''finding'', Fmt ''%s never reached block %d after the heal and stopped advancing at %s - it is wedged, not slow, and not starved: see the peer counts. peers: %s; disruptoor: %s''
                      [DS (joined_with '', '' wedged), DI (uint height), DS (describe_heads wedged (lg_heads lag)), text,
                       DS (disruptoor_summary state)])
                 else if starved \<noteq> [] then
                   (''inconclusive'', Fmt ''%s never reached block %d and stopped advancing, but its consensus client has no peers, so it is starved rather than wedged. peers: %s''
                      [DS (joined_with '', '' starved), DI (uint height), text])
                 else
                   (''inconclusive'', Fmt ''not every client reached block %d after the heal: %s still behind at %s, but still advancing''
                      [DI (uint height), DS (joined_with '', '' (lg_short lag)), DS (describe_heads (lg_short lag) (lg_heads lag))]))"

text \<open>The verdict once all clients have the anchor's height.\<close>

definition scn_verdict ::
  "scenario_kind \<Rightarrow> string list \<Rightarrow> scenario_world \<Rightarrow> partition_spec list \<Rightarrow> scn_ctx \<Rightarrow> u64 \<Rightarrow> string \<Rightarrow> (scn_end + unit) option"
where
  "scn_verdict k els w net x height hash =
     (let wrong = filter (\<lambda>n. sc_final w n \<noteq> hash) els
      in if wrong \<noteq> [] then
           ended ''FINDING'' (Fmt ''the majority branch did not survive: block %d was %s on the majority before the heal; after: %s''
             [DI (uint height), DS (short_hash hash),
              DS (joined_with '' '' (sort (map (\<lambda>n. n @ ''='' @ short_hash (sc_final w n)) wrong)))]) (sx_res x) net None (sx_turn x)
         else
           let res = (sx_res x)\<lparr>cr_survivor := ''majority block '' @ show_nat (unat height) @ '' '' @ short_hash hash\<rparr>
           in case check_gone k (sx_run x) height (map (\<lambda>n. (n, sc_after w n)) (sx_min x # sx_maj x)) of
                Inl d \<Rightarrow> ended ''FINDING'' d res net (Some (sx_min x)) (sx_turn x)
              | Inr note \<Rightarrow> ended ''ok'' note res net (Some (sx_min x)) (sx_turn x))"

definition scn_judge ::
  "scenario_kind \<Rightarrow> string list \<Rightarrow> scenario_world \<Rightarrow> scn_ctx \<times> partition_spec list \<times> u64 \<times> string \<times> string \<Rightarrow> (scn_end + unit) option"
where
  "scn_judge k els w h =
     (case h of
        (x, net, height, hash, why) \<Rightarrow>
          (case wait_agreement new_head_tracker (sc_agree w) of
             None \<Rightarrow> None
           | Some (_, False, frozen) \<Rightarrow>
               (case scn_diverged els w frozen of (oc, d) \<Rightarrow> ended oc d (sx_res x) net None (sx_turn x))
           | Some (_, True, _) \<Rightarrow>
               let x' = x\<lparr>sx_res := (sx_res x)\<lparr>cr_reorged := True\<rparr>\<rparr>
               in if hash = '''' then
                    ended ''inconclusive'' (Fmt ''no settled majority block to verify against before the heal: %s'' [DS why])
                      (sx_res x') net None (sx_turn x)
                  else case await_height new_head_tracker (sc_reach w) of
                    None \<Rightarrow> None
                  | Some (False, lag) \<Rightarrow>
                      (case scn_short w height lag of (oc, d) \<Rightarrow> ended oc d (sx_res x') net None (sx_turn x))
                  | Some (True, _) \<Rightarrow> scn_verdict k els w net x' height hash))"

definition run_scenario ::
  "chaos_config \<Rightarrow> int list \<Rightarrow> string list \<Rightarrow> string list \<Rightarrow> scenario_kind \<Rightarrow> u64 \<Rightarrow> int \<Rightarrow> nat \<Rightarrow> scenario_world \<Rightarrow>
     partition_spec list \<Rightarrow> scn_end option"
where
  "run_scenario cfg observers els keys k depth pick turn w net =
     (case and_then (scn_begin cfg els keys k depth pick turn w net) (\<lambda>x.
           and_then (scn_ready k w net x) (\<lambda>x.
           and_then (scn_split observers k els w net x) (\<lambda>(x, net).
           and_then (scn_heal w net x) (scn_judge k els w)))) of
        Some (Inl e) \<Rightarrow> Some e
      | _ \<Rightarrow> None)"

section \<open>Clients that stopped\<close>

text \<open>The rounds of a tracker: what a client showed last before a round, whether some client's head rose
  in it, and whether the round says anything about a client and what.\<close>

definition shown_before :: "(string \<times> u64) list list \<Rightarrow> nat \<Rightarrow> string \<Rightarrow> u64 option" where
  "shown_before ss j name =
     foldl (\<lambda>v s. case map_of s name of None \<Rightarrow> v | Some n \<Rightarrow> Some n) None (take j ss)"

definition rose_at :: "(string \<times> u64) list list \<Rightarrow> nat \<Rightarrow> bool" where
  "rose_at ss j \<longleftrightarrow> (\<exists>(name, n) \<in> set (ss ! j). case shown_before ss j name of None \<Rightarrow> False | Some p \<Rightarrow> p < n)"

definition stood :: "(string \<times> u64) list list \<Rightarrow> string \<Rightarrow> nat \<Rightarrow> bool option" where
  "stood ss name j =
     (if \<not> rose_at ss j then None
      else map_option (\<lambda>n. shown_before ss j name = Some n) (map_of (ss ! j) name))"

definition track_heads :: "(string \<times> u64) list list \<Rightarrow> head_tracker" where
  "track_heads ss = foldl observe_heads new_head_tracker ss"

lemma map_of_updates:
  "distinct (map fst s) \<Longrightarrow>
    map_of (foldl (\<lambda>m (k, v). AList.update k (f k v) m) m0 s) x =
      (case map_of s x of None \<Rightarrow> map_of m0 x | Some v \<Rightarrow> Some (f x v))"
proof (induction s arbitrary: m0)
  case (Cons kv s)
  obtain k v where kv: "kv = (k, v)" by (metis prod.exhaust)
  with Cons.prems have "map_of s k = None" "distinct (map fst s)" by (simp_all add: map_of_eq_None_iff)
  with Cons.IH [of "AList.update k (f k v) m0"] kv show ?case
    by (cases "x = k") (simp_all add: update_conv' split: option.splits)
qed simp

lemma distinct_updates:
  "distinct (map fst m0) \<Longrightarrow> distinct (map fst (foldl (\<lambda>m (k, v). AList.update k (f k v) m) m0 s))"
  by (induction s arbitrary: m0) (auto simp: distinct_update)

lemma distinct_sample: "distinct (map fst (sample_of as))"
proof -
  have "distinct (map fst m) \<Longrightarrow>
      distinct (map fst (foldl (\<lambda>m (name, a). case a of Inl _ \<Rightarrow> m | Inr n \<Rightarrow> AList.update name n m) m as))" for m
    by (induction as arbitrary: m) (auto simp: distinct_update split: sum.splits)
  then show ?thesis by (simp add: sample_of_def)
qed

text \<open>What the tracker holds after its rounds.\<close>

fun counted_to :: "(nat \<Rightarrow> bool option) \<Rightarrow> nat \<Rightarrow> int" where
  "counted_to ev 0 = 0"
| "counted_to ev (Suc n) =
     (case ev n of None \<Rightarrow> counted_to ev n | Some b \<Rightarrow> if b then counted_to ev n + 1 else 0)"

lemma counted_to_cong: "(\<And>j. j < n \<Longrightarrow> ev j = ev' j) \<Longrightarrow> counted_to ev n = counted_to ev' n"
  by (induction n) (simp_all split: option.splits)

lemma counted_streak:
  "0 < m \<Longrightarrow> m \<le> counted_to ev n \<longleftrightarrow>
    (\<exists>k \<le> n. (\<forall>j \<in> {k..<n}. ev j \<noteq> Some False) \<and> m \<le> int (length (filter (\<lambda>j. ev j = Some True) [k..<n])))"
proof (induction n arbitrary: m)
  case (Suc n)
  show ?case
  proof (cases "ev n")
    case None
    then have "(\<exists>k \<le> Suc n. (\<forall>j \<in> {k..<Suc n}. ev j \<noteq> Some False) \<and> m \<le> int (length (filter (\<lambda>j. ev j = Some True) [k..<Suc n]))) \<longleftrightarrow>
        (\<exists>k \<le> n. (\<forall>j \<in> {k..<n}. ev j \<noteq> Some False) \<and> m \<le> int (length (filter (\<lambda>j. ev j = Some True) [k..<n])))"
      using Suc.prems by (auto simp: le_Suc_eq less_Suc_eq atLeastLessThanSuc)
    with None Suc show ?thesis by simp
  next
    case (Some b)
    show ?thesis
    proof (cases b)
      case False
      have "\<not> (\<exists>k \<le> Suc n. (\<forall>j \<in> {k..<Suc n}. ev j \<noteq> Some False) \<and> m \<le> int (length (filter (\<lambda>j. ev j = Some True) [k..<Suc n])))"
        using Some False Suc.prems by (auto simp: le_Suc_eq atLeastLessThanSuc)
      with Some False Suc.prems show ?thesis by simp
    next
      case True
      have "(\<exists>k \<le> Suc n. (\<forall>j \<in> {k..<Suc n}. ev j \<noteq> Some False) \<and> m \<le> int (length (filter (\<lambda>j. ev j = Some True) [k..<Suc n]))) \<longleftrightarrow>
          (\<exists>k \<le> n. (\<forall>j \<in> {k..<n}. ev j \<noteq> Some False) \<and> m - 1 \<le> int (length (filter (\<lambda>j. ev j = Some True) [k..<n])))"
        using Some True Suc.prems by (auto simp: le_Suc_eq atLeastLessThanSuc)
      moreover have "\<dots> \<longleftrightarrow> m \<le> counted_to ev n + 1"
      proof (cases "m = 1")
        case True
        have "0 \<le> counted_to ev n" by (induction n) (auto split: option.splits)
        with True show ?thesis by auto
      next
        case False
        with Suc.IH [of "m - 1"] Suc.prems show ?thesis by auto
      qed
      ultimately show ?thesis using Some True by simp
    qed
  qed
qed simp

lemma shown_before_append: "j \<le> length ss \<Longrightarrow> shown_before (ss @ xs) j name = shown_before ss j name"
  by (simp add: shown_before_def)

lemma stood_append: "j < length ss \<Longrightarrow> stood (ss @ xs) name j = stood ss name j"
  by (simp add: stood_def rose_at_def shown_before_append nth_append)

lemma track_heads_state:
  "\<forall>s \<in> set ss. distinct (map fst s) \<Longrightarrow>
    map_of (ht_last (track_heads ss)) name = shown_before ss (length ss) name \<and>
    stuck_of (track_heads ss) name = counted_to (stood ss name) (length ss) \<and>
    distinct (map fst (ht_stuck (track_heads ss)))"
proof (induction ss arbitrary: name rule: rev_induct)
  case Nil
  then show ?case by (simp add: track_heads_def new_head_tracker_def shown_before_def stuck_of_def)
next
  case (snoc s ss)
  let ?t = "track_heads ss" and ?n = "length ss"
  have IH: "map_of (ht_last ?t) x = shown_before ss ?n x" "stuck_of ?t x = counted_to (stood ss x) ?n"
    "distinct (map fst (ht_stuck ?t))" for x using snoc by auto
  have d: "distinct (map fst s)" using snoc.prems by simp
  have t: "track_heads (ss @ [s]) = observe_heads ?t s" by (simp add: track_heads_def)
  have last: "map_of (ht_last (observe_heads ?t s)) name = shown_before (ss @ [s]) (Suc ?n) name"
    using map_of_updates [OF d, of "\<lambda>_ v. v" "ht_last ?t" name] IH(1) [of name]
    by (simp add: observe_heads_def shown_before_def split: option.splits)
  have mv: "moved ?t s \<longleftrightarrow> rose_at (ss @ [s]) ?n"
    by (simp add: moved_def rose_at_def IH(1) shown_before_append)
  have ct: "counted_to (stood (ss @ [s]) name) ?n = counted_to (stood ss name) ?n"
    by (rule counted_to_cong) (simp add: stood_append)
  have stuck: "stuck_of (observe_heads ?t s) name = counted_to (stood (ss @ [s]) name) (Suc ?n)"
  proof (cases "moved ?t s")
    case False
    then have "stuck_of (observe_heads ?t s) name = stuck_of ?t name" by (simp add: observe_heads_def stuck_of_def)
    with False mv ct IH(2) show ?thesis by (simp add: stood_def)
  next
    case True
    have "stuck_of (observe_heads ?t s) name =
        (case map_of s name of None \<Rightarrow> stuck_of ?t name
         | Some n \<Rightarrow> if map_of (ht_last ?t) name = Some n then stuck_of ?t name + 1 else 0)"
      using True map_of_updates [OF d, of "\<lambda>name n. if map_of (ht_last ?t) name = Some n then stuck_of ?t name + 1 else 0" "ht_stuck ?t" name]
      by (simp add: observe_heads_def stuck_of_def split: option.splits)
    with True mv ct IH(1,2) [of name] show ?thesis
      by (simp add: stood_def shown_before_append split: option.splits)
  qed
  have "distinct (map fst (ht_stuck (observe_heads ?t s)))"
    using IH(3) distinct_updates [OF IH(3), of "\<lambda>name n. if map_of (ht_last ?t) name = Some n then stuck_of ?t name + 1 else 0" s]
    by (simp add: observe_heads_def)
  with last stuck show ?case unfolding t by simp
qed

lemma frozen_iff:
  assumes "distinct (map fst (ht_stuck t))"
  shows "name \<in> set (frozen_heads t) \<longleftrightarrow> wedgeTicks \<le> stuck_of t name"
proof -
  have "name \<in> set (frozen_heads t) \<longleftrightarrow> (\<exists>n. map_of (ht_stuck t) name = Some n \<and> wedgeTicks \<le> n)"
    using assms by (force simp: frozen_heads_def map_of_eq_Some_iff)
  then show ?thesis by (auto simp: stuck_of_def split: option.splits)
qed

text \<open>A client is called frozen exactly when, over some closing stretch of the rounds, it never
  showed a changed head in a round in which the chain moved and answered, and it stood still in
  at least six such rounds: neither silence nor a chain at rest counts against it.\<close>

theorem frozen_exact:
  fixes answers :: "head_answers list"
  defines "ss \<equiv> map sample_of answers"
  shows "name \<in> set (frozen_heads (track_heads ss)) \<longleftrightarrow>
    (\<exists>k \<le> length ss. (\<forall>j \<in> {k..<length ss}. stood ss name j \<noteq> Some False) \<and>
       6 \<le> int (length (filter (\<lambda>j. stood ss name j = Some True) [k..<length ss])))"
proof -
  have d: "\<forall>s \<in> set ss. distinct (map fst s)" by (auto simp: ss_def distinct_sample)
  note st = track_heads_state [OF d, of name]
  have "name \<in> set (frozen_heads (track_heads ss)) \<longleftrightarrow> 6 \<le> counted_to (stood ss name) (length ss)"
    using st by (simp add: frozen_iff)
  then show ?thesis by (simp only: counted_streak [of 6])
qed

definition standing_still :: "head_answers list" where
  "standing_still = map (\<lambda>k. [(''a'', Inr k), (''b'', Inr 3)]) [1, 2, 3, 4, 5, 6, 7]"

lemma standing_still_frozen: "''b'' \<in> set (frozen_heads (track_heads (map sample_of standing_still)))"
  by (simp add: standing_still_def track_heads_def sample_of_def observe_heads_def moved_def new_head_tracker_def
      frozen_heads_def stuck_of_def)

theorem frozen_exact_witness:
  "\<exists>k \<le> 7. 6 \<le> int (length (filter (\<lambda>j. stood (map sample_of standing_still) ''b'' j = Some True) [k..<7]))"
proof -
  have l: "length (map sample_of standing_still) = 7" by (simp add: standing_still_def)
  from frozen_exact [THEN iffD1, OF standing_still_frozen] show ?thesis unfolding l by blast
qed

section \<open>The network after a run\<close>

lemma and_then_Inl:
  "and_then m f = Some (Inl e) \<longleftrightarrow> m = Some (Inl e) \<or> (\<exists>x. m = Some (Inr x) \<and> f x = Some (Inl e))"
  by (auto simp: and_then_def split: option.splits sum.splits)

lemma and_then_Inr:
  "and_then m f = Some (Inr y) \<longleftrightarrow> (\<exists>x. m = Some (Inr x) \<and> f x = Some (Inr y))"
  by (auto simp: and_then_def split: option.splits sum.splits)

lemma ended_Some:
  "ended oc d res net counted turn = Some y \<longleftrightarrow>
    y = Inl \<lparr>en_result = res\<lparr>cr_outcome := oc, cr_detail := d\<rparr>, en_net = net, en_counted = counted, en_turn = turn\<rparr>"
  by (auto simp: ended_def)

text \<open>How the stages before the split end: not well, and with the network as it was.\<close>

definition stopped_short :: "scn_end \<Rightarrow> partition_spec list \<Rightarrow> bool" where
  "stopped_short e net \<longleftrightarrow> en_net e = net \<and> en_counted e = None \<and> cr_outcome (en_result e) \<noteq> ''ok''"

lemma scn_grow_ends: "scn_grow res w net turn = Some (Inl e) \<Longrightarrow> stopped_short e net"
  by (auto simp: scn_grow_def ended_Some stopped_short_def split: sum.splits if_splits option.splits)

lemma scn_begin_ends: "scn_begin cfg els keys k depth pick turn w net = Some (Inl e) \<Longrightarrow> stopped_short e net"
  by (auto simp: scn_begin_def Let_def ended_Some and_then_Inl stopped_short_def dest: scn_grow_ends [unfolded stopped_short_def]
      split: if_splits prod.splits option.splits sum.splits)

lemma scn_begin_goes_on:
  assumes "scn_begin cfg els keys k depth pick turn w net = Some (Inr x)"
  shows "2 \<le> length els \<and> sx_node x = fst (minority_for (cc_protected cfg) (int (length els)) pick turn) \<and>
    sx_min x = els ! nat (sx_node x - 1) \<and> sx_maj x = without_nth (sx_node x) els \<and>
    sx_others x = filter (\<lambda>i. i \<noteq> sx_node x) [1..int (length els)] \<and> cr_minority (sx_res x) = sx_min x \<and> cr_depth (sx_res x) = depth"
  using assms
  by (auto simp: scn_begin_def Let_def ended_Some and_then_Inr new_result_def split: if_splits prod.splits option.splits sum.splits)

lemma scn_ready_ends: "scn_ready k w net x = Some (Inl e) \<Longrightarrow> stopped_short e net"
  by (auto simp: scn_ready_def ended_Some stopped_short_def split: prod.splits if_splits option.splits)

lemma scn_ready_goes_on:
  assumes "scn_ready k w net x = Some (Inr x')"
  shows "\<exists>r. x' = x\<lparr>sx_run := r\<rparr> \<and> (has_setup k \<longrightarrow> scn_setup k (sx_maj x ! 0) (sc_setup w) (sx_run x) = Some (r, None))"
proof (cases "has_setup k")
  case True
  with assms show ?thesis by (auto simp: scn_ready_def ended_Some split: prod.splits if_splits option.splits)
next
  case False
  with assms have "x' = x" by (auto simp: scn_ready_def ended_Some split: prod.splits if_splits option.splits)
  with False show ?thesis by (intro exI [of _ "sx_run x"]) simp
qed

lemma scn_doom_ends: "scn_doom k els w net x = Some (Inl e) \<Longrightarrow> stopped_short e (healed w net)"
  by (auto simp: scn_doom_def Let_def ended_Some stopped_short_def split: option.splits bool.splits prod.splits if_splits)

lemma scn_doom_goes_on:
  assumes "scn_doom k els w net x = Some (Inr x')"
  shows "\<exists>r m t. x' = x\<lparr>sx_run := r\<rparr> \<and> await_divergence (sc_parting w) = Some True \<and>
    scn_apply k (sx_min x) (sc_apply w) (sx_run x) = Some (r, None) \<and>
    scn_effect k r (sc_before w (sx_min x)) = (m, m, None) \<and> scn_effect k r (sc_before w (sx_maj x ! 0)) = (0, t, None)"
  using assms
  by (auto simp: scn_doom_def Let_def ended_Some split: option.splits bool.splits prod.splits if_splits)

text \<open>The partition of a scenario.\<close>

definition scenario_cut :: "int list \<Rightarrow> scenario_kind \<Rightarrow> int \<Rightarrow> nat \<Rightarrow> partition_spec" where
  "scenario_cut observers k node n =
     \<lparr>pa_name = ''pbt-'' @ scenario_name k, pa_groups = [filter (\<lambda>i. i \<noteq> node) [1..int n] @ observers, [node]]\<rparr>"

lemma scn_split_cases:
  assumes "scn_split observers k els w net x = Some y" "sx_others x = filter (\<lambda>i. i \<noteq> sx_node x) [1..int n]"
  obtains (refused) err e where "sc_cut w = Some err" "y = Inl e" "stopped_short e net"
  | (gave_up) e where "sc_cut w = None" "y = Inl e" "stopped_short e (healed w [scenario_cut observers k (sx_node x) n])"
  | (doomed) x' where "sc_cut w = None" "y = Inr (x', [scenario_cut observers k (sx_node x) n])"
      "scn_doom k els w [scenario_cut observers k (sx_node x) n] x = Some (Inr x')"
proof (cases "sc_cut w")
  case None
  let ?net = "[scenario_cut observers k (sx_node x) n]"
  have "and_then (scn_doom k els w ?net x) (\<lambda>x'. Some (Inr (x', ?net))) = Some y"
    using assms None by (simp add: scn_split_def disrupt_partition_def partition_request_def scenario_cut_def)
  with None show ?thesis
    by (cases "scn_doom k els w ?net x") (auto simp: and_then_def split: sum.splits dest: scn_doom_ends intro: gave_up doomed)
next
  case (Some err)
  with assms show ?thesis
    by (auto simp: scn_split_def disrupt_partition_def partition_request_def ended_Some stopped_short_def intro!: refused)
qed

lemma healed_cut: "healed w net = (if sc_clear w = None then [] else net)"
  by (simp add: healed_def disrupt_clear_def split: option.splits)

lemma scn_heal_cases:
  assumes "scn_heal w net x = Some y"
  obtains (refused) err e where "sc_clear w = Some err" "y = Inl e" "stopped_short e net"
  | (whole) x' height hash why where "sc_clear w = None" "y = Inr (x', [], height, hash, why)"
      "sx_run x' = sx_run x" "sx_min x' = sx_min x" "sx_maj x' = sx_maj x" "(height, hash) = (fst (majority_tip (fst (sc_tip w)) (snd (sc_tip w))), fst (snd (majority_tip (fst (sc_tip w)) (snd (sc_tip w)))))"
  using assms
  by (auto simp: scn_heal_def Let_def disrupt_clear_def ended_Some stopped_short_def split: option.splits prod.splits)

lemma scn_diverged_outcome: "fst (scn_diverged els w frozen) \<noteq> ''ok''"
  by (simp add: scn_diverged_def Let_def split: prod.splits)

lemma scn_short_outcome: "fst (scn_short w height lag) \<noteq> ''ok''"
  by (simp add: scn_short_def Let_def split: prod.splits)

lemma scn_verdict_net: "scn_verdict k els w net x height hash = Some (Inl e) \<Longrightarrow> en_net e = net"
  by (auto simp: scn_verdict_def Let_def ended_Some split: if_splits sum.splits)

lemma scn_judge_net: "scn_judge k els w (x, net, height, hash, why) = Some (Inl e) \<Longrightarrow> en_net e = net"
  by (auto simp: scn_judge_def Let_def ended_Some dest: scn_verdict_net split: option.splits bool.splits prod.splits if_splits)

text \<open>A run that ends, stage by stage.\<close>

lemma run_scenario_cases:
  assumes "run_scenario cfg observers els keys k depth pick turn w net = Some e"
  obtains (early) "stopped_short e net"
  | (cut_refused) err where "sc_cut w = Some err" "stopped_short e net"
  | (gave_up) x where "sc_cut w = None" "scn_begin cfg els keys k depth pick turn w net = Some (Inr x)"
      "stopped_short e (healed w [scenario_cut observers k (sx_node x) (length els)])"
  | (clear_refused) x err where "sc_cut w = None" "sc_clear w = Some err" "scn_begin cfg els keys k depth pick turn w net = Some (Inr x)"
      "stopped_short e [scenario_cut observers k (sx_node x) (length els)]"
  | (judged) x x1 x2 x3 height hash why where "sc_cut w = None" "sc_clear w = None"
      "scn_begin cfg els keys k depth pick turn w net = Some (Inr x)" "scn_ready k w net x = Some (Inr x1)"
      "scn_doom k els w [scenario_cut observers k (sx_node x) (length els)] x1 = Some (Inr x2)"
      "sx_run x3 = sx_run x2" "sx_min x3 = sx_min x2" "sx_maj x3 = sx_maj x2"
      "(height, hash) = (fst (majority_tip (fst (sc_tip w)) (snd (sc_tip w))), fst (snd (majority_tip (fst (sc_tip w)) (snd (sc_tip w)))))"
      "scn_judge k els w (x3, [], height, hash, why) = Some (Inl e)"
proof -
  from assms have "and_then (scn_begin cfg els keys k depth pick turn w net) (\<lambda>x.
           and_then (scn_ready k w net x) (\<lambda>x.
           and_then (scn_split observers k els w net x) (\<lambda>(x, net).
           and_then (scn_heal w net x) (scn_judge k els w)))) = Some (Inl e)"
    by (auto simp: run_scenario_def split: option.splits sum.splits)
  then consider (b) "scn_begin cfg els keys k depth pick turn w net = Some (Inl e)"
    | (r) x where "scn_begin cfg els keys k depth pick turn w net = Some (Inr x)" "scn_ready k w net x = Some (Inl e)"
    | (s) x x1 where "scn_begin cfg els keys k depth pick turn w net = Some (Inr x)" "scn_ready k w net x = Some (Inr x1)"
        "scn_split observers k els w net x1 = Some (Inl e)"
    | (h) x x1 x2 net2 where "scn_begin cfg els keys k depth pick turn w net = Some (Inr x)" "scn_ready k w net x = Some (Inr x1)"
        "scn_split observers k els w net x1 = Some (Inr (x2, net2))"
        "and_then (scn_heal w net2 x2) (scn_judge k els w) = Some (Inl e)"
    by (auto simp: and_then_Inl split: prod.splits)
  then show ?thesis
  proof cases
    case b
    then show ?thesis by (intro early scn_begin_ends)
  next
    case r
    then show ?thesis by (intro early scn_ready_ends)
  next
    case (s x x1)
    then have o: "sx_node x1 = sx_node x" "sx_others x1 = filter (\<lambda>i. i \<noteq> sx_node x1) [1..int (length els)]"
      using scn_begin_goes_on [OF s(1)] scn_ready_goes_on [OF s(2)] by auto
    from s(3) o(2) show ?thesis
    proof (cases rule: scn_split_cases)
      case (refused err e')
      then show ?thesis by (auto intro: cut_refused)
    next
      case (gave_up e')
      with s(1) o(1) show ?thesis by (auto intro: that(3))
    qed simp
  next
    case (h x x1 x2 net2)
    then have o: "sx_node x1 = sx_node x" "sx_others x1 = filter (\<lambda>i. i \<noteq> sx_node x1) [1..int (length els)]"
      using scn_begin_goes_on [OF h(1)] scn_ready_goes_on [OF h(2)] by auto
    from h(3) o(2) have c: "sc_cut w = None" "net2 = [scenario_cut observers k (sx_node x) (length els)]"
      "scn_doom k els w [scenario_cut observers k (sx_node x) (length els)] x1 = Some (Inr x2)"
      using o(1) by (cases rule: scn_split_cases; simp)+
    from h(4) consider (ref) "scn_heal w net2 x2 = Some (Inl e)"
      | (go) y where "scn_heal w net2 x2 = Some (Inr y)" "scn_judge k els w y = Some (Inl e)"
      by (auto simp: and_then_Inl)
    then show ?thesis
    proof cases
      case ref
      from ref show ?thesis
        by (cases rule: scn_heal_cases) (use c h(1) in \<open>auto intro: clear_refused\<close>)
    next
      case (go y)
      from go(1) show ?thesis
        by (cases rule: scn_heal_cases) (use c h(1,2) go(2) in \<open>auto intro: judged\<close>)
    qed
  qed
qed

text \<open>C5: A scenario never leaves the network split when the emulator takes its clear: whatever branch
  ends the run, nothing is applied afterwards. With the clear refused at most the scenario's own
  partition remains, one unprotected node alone against all the others and the observers.\<close>

theorem scenario_releases:
  assumes "run_scenario cfg observers els keys k depth pick turn w [] = Some e"
    and "eligible (cc_protected cfg) (int (length els)) \<noteq> []"
  shows "en_net e = [] \<or> (sc_cut w = None \<and> sc_clear w \<noteq> None \<and>
    (\<exists>node \<in> set (eligible (cc_protected cfg) (int (length els))). en_net e = [scenario_cut observers k node (length els)]))"
proof -
  have node: "sx_node x \<in> set (eligible (cc_protected cfg) (int (length els)))"
    if "scn_begin cfg els keys k depth pick turn w [] = Some (Inr x)" for x
    using scn_begin_goes_on [OF that] rotation_fair_pick [OF assms(2), of pick turn] by simp
  from assms(1) show ?thesis
  proof (cases rule: run_scenario_cases)
    case (gave_up x)
    with node show ?thesis by (auto simp: stopped_short_def healed_cut)
  next
    case (clear_refused x err)
    with node show ?thesis by (auto simp: stopped_short_def)
  next
    case (judged x x1 x2 x3 height hash why)
    then show ?thesis by (auto dest: scn_judge_net)
  qed (simp_all add: stopped_short_def)
qed

section \<open>What a passed scenario has shown\<close>

lemma count_from_total: "count_from n m xs = (a, b, e) \<Longrightarrow> b = m"
  by (induction n m xs rule: count_from.induct) (auto split: if_splits)

text \<open>How many writes a scenario dooms.\<close>

definition doomed_size :: "scenario_kind \<Rightarrow> scn_run \<Rightarrow> nat" where
  "doomed_size k r = (if k \<in> {StorageAdd, StorageDel} then length (sr_slots r) else length (sr_doomed r))"

lemma scn_effect_total: "scn_effect k r v = (a, b, e) \<Longrightarrow> b = doomed_size k r"
  by (cases k) (auto simp: count_slots_def has_code_def count_answers_def doomed_size_def dest: count_from_total)

lemma send_each_doomed:
  "send_each name g i rs s = (s', hs, ds, None) \<Longrightarrow> y \<in> set rs \<Longrightarrow> \<exists>d r. y = Inr (d, r) \<and> set d \<subseteq> set ds"
proof (induction name g i rs s arbitrary: s' hs ds rule: send_each.induct)
  case (3 name g i d r rs s)
  from "3.prems"(1) obtain s1 h c hs' ds' where s: "send name (sg_sends g i) r s = (s1, Inr (h, c))"
    "send_each name g (i + 1) rs s1 = (s', hs', ds', None)" "ds = d @ ds'"
    by (auto split: prod.splits sum.splits)
  show ?case
  proof (cases "y = Inr (d, r)")
    case True
    with s show ?thesis by auto
  next
    case False
    with "3.prems"(2) have "y \<in> set rs" by simp
    with "3.IH" [OF s(1) [symmetric] refl refl s(2)] obtain d' r' where "y = Inr (d', r')" "set d' \<subseteq> set ds'" by blast
    with s show ?thesis by auto
  qed
qed simp_all

lemma send_all_doomed:
  assumes "send_all name g rs r = Some (r', None)" "Inr (d, q) \<in> set rs" "d \<noteq> []"
  shows "sr_doomed r' \<noteq> []"
proof -
  from assms(1) obtain s hs ds where "send_each name g 0 rs (sr_via_min r) = (s, hs, ds, None)" "sr_doomed r' = sr_doomed r @ ds"
    by (auto simp: send_all_def Let_def split: prod.splits option.splits)
  with send_each_doomed [of name g 0 rs "sr_via_min r" s hs ds "Inr (d, q)"] assms(2,3) show ?thesis by auto
qed

lemma send_all_sends:
  assumes "send_all name g rs r = Some (r', None)" "y \<in> set rs"
  shows "\<exists>d q. y = Inr (d, q)"
  using assms send_each_doomed by (auto simp: send_all_def Let_def split: prod.splits option.splits) blast

lemma send_all_slots: "send_all name g rs r = Some (r', e) \<Longrightarrow> sr_slots r' = sr_slots r"
  by (auto simp: send_all_def Let_def split: prod.splits option.splits)

lemma add_doomed_some: "add_doomed r d = Some (r', None) \<Longrightarrow> sr_doomed r' \<noteq> []"
  by (auto simp: add_doomed_def split: option.splits sum.splits)

lemma setup_slots:
  "scn_setup StorageAdd name g r = Some (r', None) \<Longrightarrow> sr_slots r' = [7, 70]"
  "scn_setup StorageDel name g r = Some (r', None) \<Longrightarrow> sr_slots r' = [1, 2, 3]"
  by (auto simp: Let_def set_survivor_def split: option.splits sum.splits)

lemma apply_dooms:
  assumes "scn_apply k name g r = Some (r', None)" "k \<in> {StorageAdd, StorageDel} \<longrightarrow> sr_slots r \<noteq> []"
  shows "0 < doomed_size k r'"
proof (cases k)
  case DelegateScn
  let ?f = "\<lambda>i. case sg_fresh g i of
        Inl e \<Rightarrow> Inl e
      | Inr (addr, auth) \<Rightarrow> Inr ([addr], \<lparr>rq_to = Some addr, rq_data = [], rq_value = None, rq_gas = 0, rq_auth = [auth]\<rparr>)"
  have a: "send_all name g (map ?f [0..<3]) r = Some (r', None)" using assms(1) DelegateScn by simp
  have m: "?f 0 \<in> set (map ?f [0..<3])" by simp
  from send_all_sends [OF a m] obtain d q where "?f 0 = Inr (d, q)" "d \<noteq> []" by (auto split: sum.splits prod.splits)
  with send_all_doomed [OF a, of d q] m show ?thesis by (simp add: doomed_size_def DelegateScn)
next
  case AccountScn
  let ?f = "\<lambda>i. case sg_fresh g i of
        Inl e \<Rightarrow> Inl e
      | Inr (addr, _) \<Rightarrow> Inr ([addr], \<lparr>rq_to = Some addr, rq_data = [], rq_value = Some 1000000000000000,
          rq_gas = 300000, rq_auth = []\<rparr>)"
  have a: "send_all name g (map ?f [0..<5]) r = Some (r', None)" using assms(1) AccountScn by simp
  have m: "?f 0 \<in> set (map ?f [0..<5])" by simp
  from send_all_sends [OF a m] obtain d q where "?f 0 = Inr (d, q)" "d \<noteq> []" by (auto split: sum.splits prod.splits)
  with send_all_doomed [OF a, of d q] m show ?thesis by (simp add: doomed_size_def AccountScn)
qed (use assms in \<open>auto simp: doomed_size_def Let_def write_all_def dest: add_doomed_some send_all_slots\<close>)

lemma set_without_nth:
  assumes "1 \<le> idx" "idx \<le> int (length xs)"
  shows "insert (xs ! nat (idx - 1)) (set (without_nth idx xs)) = set xs"
proof -
  have l: "length [1..int (length xs)] = length xs" by simp
  have z: "zip [1..int (length xs)] xs = map (\<lambda>i. (int i + 1, xs ! i)) [0..<length xs]"
    using l by (intro nth_equalityI) (auto simp: nth_upto)
  have "set (without_nth idx xs) = {xs ! i | i. i < length xs \<and> int i + 1 \<noteq> idx}"
    by (auto simp: without_nth_def z filter_map comp_def)
  moreover have "nat (idx - 1) < length xs" "int (nat (idx - 1)) + 1 = idx" using assms by auto
  ultimately show ?thesis by (auto simp: set_conv_nth)
qed

lemma still_there_Nil: "still_there k r els = Inr [] \<longleftrightarrow> (\<forall>nv \<in> set els. \<exists>t. scn_effect k r (snd nv) = (0, t, None))"
proof (induction els)
  case (Cons nv els)
  obtain n v where nv: "nv = (n, v)" by (metis prod.exhaust)
  obtain a t e where e: "scn_effect k r v = (a, t, e)" by (metis prod.exhaust)
  show ?case
  proof (cases e)
    case None
    with Cons nv e show ?thesis by (cases "still_there k r els") auto
  qed (use nv e in auto)
qed simp

lemma all_survive_None: "all_survive k r els = None \<longleftrightarrow> (\<forall>nv \<in> set els. scn_survives k r (fst nv) (snd nv) = None)"
  by (induction k r els rule: all_survive.induct) (auto split: option.splits)

lemma no_survives: "\<not> has_survives k \<Longrightarrow> scn_survives k r n v = None"
  by (cases k) simp_all

lemma check_gone_ok:
  "check_gone k r height els = Inr d \<Longrightarrow>
    \<forall>nv \<in> set els. (\<exists>t. scn_effect k r (snd nv) = (0, t, None)) \<and> scn_survives k r (fst nv) (snd nv) = None"
  by (cases "has_survives k")
    (fastforce simp: check_gone_def Let_def still_there_Nil all_survive_None no_survives split: sum.splits if_splits option.splits)+

lemma scn_judge_ok:
  assumes "scn_judge k els w (x, net, height, hash, why) = Some (Inl e)" "cr_outcome (en_result e) = ''ok''"
  shows "hash \<noteq> '''' \<and> (\<exists>h fr. wait_agreement new_head_tracker (sc_agree w) = Some (h, True, fr)) \<and>
    (\<forall>n \<in> set els. sc_final w n = hash) \<and> en_counted e = Some (sx_min x) \<and> cr_reorged (en_result e) \<and>
    (\<forall>n \<in> set (sx_min x # sx_maj x). (\<exists>t. scn_effect k (sx_run x) (sc_after w n) = (0, t, None)) \<and>
       scn_survives k (sx_run x) n (sc_after w n) = None)"
proof -
  let ?x = "x\<lparr>sx_res := (sx_res x)\<lparr>cr_reorged := True\<rparr>\<rparr>"
  from assms have j: "hash \<noteq> ''''" "\<exists>h fr. wait_agreement new_head_tracker (sc_agree w) = Some (h, True, fr)"
    "scn_verdict k els w net ?x height hash = Some (Inl e)"
    by (auto simp: scn_judge_def Let_def ended_Some scn_diverged_outcome [unfolded fst_conv] dest: arg_cong [of _ _ fst]
        split: option.splits bool.splits prod.splits if_splits)
      (use scn_diverged_outcome scn_short_outcome in \<open>metis fst_conv\<close>)+
  from j(3) assms(2) have v: "\<forall>n \<in> set els. sc_final w n = hash" "en_counted e = Some (sx_min x)" "cr_reorged (en_result e)"
    "\<exists>d. check_gone k (sx_run x) height (map (\<lambda>n. (n, sc_after w n)) (sx_min x # sx_maj x)) = Inr d"
    by (auto simp: scn_verdict_def Let_def ended_Some filter_empty_conv split: if_splits sum.splits)
  from v(4) have "\<forall>n \<in> set (sx_min x # sx_maj x). (\<exists>t. scn_effect k (sx_run x) (sc_after w n) = (0, t, None)) \<and>
       scn_survives k (sx_run x) n (sc_after w n) = None"
    by (auto dest!: check_gone_ok)
  with j(1,2) v show ?thesis by blast
qed

text \<open>A scenario that passes has shown what it claims. Some unprotected node was cut off; with the
  two sides apart its client showed every one of the doomed writes, of which there is at least
  one, and the majority none; the clear was taken and the network is whole; all clients agreed
  again, all hold the block the majority agreed on before the heal, and at that block no client
  shows any of the writes or misses what had to survive.\<close>

lemma ok_shows_and_drops:
  assumes "run_scenario cfg observers els keys k depth pick turn w net = Some e" "cr_outcome (en_result e) = ''ok''"
    and "eligible (cc_protected cfg) (int (length els)) \<noteq> []"
  shows "\<exists>node r m t height hash why.
    node \<in> set (eligible (cc_protected cfg) (int (length els))) \<and> sc_cut w = None \<and>
    await_divergence (sc_parting w) = Some True \<and> 0 < m \<and>
    scn_effect k r (sc_before w (els ! nat (node - 1))) = (m, m, None) \<and>
    scn_effect k r (sc_before w (without_nth node els ! 0)) = (0, t, None) \<and>
    sc_clear w = None \<and> en_net e = [] \<and> en_counted e = Some (els ! nat (node - 1)) \<and>
    majority_tip (fst (sc_tip w)) (snd (sc_tip w)) = (height, hash, why) \<and> hash \<noteq> '''' \<and>
    (\<forall>n \<in> set els. sc_final w n = hash \<and> (\<exists>t. scn_effect k r (sc_after w n) = (0, t, None)) \<and> scn_survives k r n (sc_after w n) = None)"
  using assms(1)
proof (cases rule: run_scenario_cases)
  case (judged x x1 x2 x3 height hash why)
  let ?node = "sx_node x"
  from scn_begin_goes_on [OF judged(3)] have b: "sx_min x = els ! nat (?node - 1)" "sx_maj x = without_nth ?node els"
    and node: "?node \<in> set (eligible (cc_protected cfg) (int (length els)))"
    using rotation_fair_pick [OF assms(3), of pick turn] by simp_all
  from scn_ready_goes_on [OF judged(4)] obtain r1 where r1: "x1 = x\<lparr>sx_run := r1\<rparr>"
    "has_setup k \<longrightarrow> scn_setup k (sx_maj x ! 0) (sc_setup w) (sx_run x) = Some (r1, None)" by blast
  from scn_doom_goes_on [OF judged(5)] obtain r m t where d: "x2 = x1\<lparr>sx_run := r\<rparr>" "await_divergence (sc_parting w) = Some True"
    "scn_apply k (sx_min x1) (sc_apply w) (sx_run x1) = Some (r, None)"
    "scn_effect k r (sc_before w (sx_min x1)) = (m, m, None)" "scn_effect k r (sc_before w (sx_maj x1 ! 0)) = (0, t, None)" by blast
  have slots: "k \<in> {StorageAdd, StorageDel} \<longrightarrow> sr_slots (sx_run x1) \<noteq> []"
  proof (cases k)
    case StorageAdd
    from r1(2) have "scn_setup StorageAdd (sx_maj x ! 0) (sc_setup w) (sx_run x) = Some (r1, None)"
      unfolding StorageAdd by (simp only: has_setup.simps)
    from setup_slots(1) [OF this] show ?thesis by (simp add: r1(1))
  next
    case StorageDel
    from r1(2) have "scn_setup StorageDel (sx_maj x ! 0) (sc_setup w) (sx_run x) = Some (r1, None)"
      unfolding StorageDel by (simp only: has_setup.simps)
    from setup_slots(2) [OF this] show ?thesis by (simp add: r1(1))
  qed simp_all
  have "m = doomed_size k r" by (rule scn_effect_total [OF d(4)])
  with apply_dooms [OF d(3) slots] have "0 < m" by (simp only:)
  have s: "sx_run x3 = r" "sx_min x3 = els ! nat (?node - 1)" "sx_maj x3 = without_nth ?node els"
    using judged(6-8) d(1) r1(1) b by simp_all
  have all: "set (sx_min x3 # sx_maj x3) = set els"
    using set_without_nth [of ?node els] node by (simp add: s eligible_def)
  note j = scn_judge_ok [OF judged(10) assms(2), unfolded all, unfolded s]
  have f: "hash \<noteq> ''''" "\<forall>n \<in> set els. sc_final w n = hash" "en_counted e = Some (els ! nat (?node - 1))"
    "\<forall>n \<in> set els. (\<exists>t. scn_effect k r (sc_after w n) = (0, t, None)) \<and> scn_survives k r n (sc_after w n) = None"
    using j by auto
  obtain why' where tip: "majority_tip (fst (sc_tip w)) (snd (sc_tip w)) = (height, hash, why')"
    using judged(9) by (metis prod.collapse prod.inject)
  have net: "en_net e = []" using scn_judge_net [OF judged(10)] .
  have eff: "scn_effect k r (sc_before w (els ! nat (?node - 1))) = (m, m, None)"
    "scn_effect k r (sc_before w (without_nth ?node els ! 0)) = (0, t, None)"
    using d(4,5) by (simp_all add: r1(1) b)
  show ?thesis
    by (intro exI [of _ ?node] exI [of _ r] exI [of _ m] exI [of _ t] exI [of _ height] exI [of _ hash] exI [of _ why'] conjI)
      (use node judged(1,2) d(2) \<open>0 < m\<close> eff net tip f in blast)+
qed (use assms(2) in \<open>auto simp: stopped_short_def\<close>)

section \<open>A run\<close>

definition demo_heads :: head_answers where
  "demo_heads = [(''a'', Inr 30), (''b'', Inr 30), (''c'', Inr 30)]"

definition demo_stage :: stage_world where
  "demo_stage =
     \<lparr>sg_sends = (\<lambda>_. \<lparr>sw_base = Inr 1, sw_sign = (\<lambda>_. Inr ''0xh''), sw_create = (\<lambda>_ _. ''''), sw_send = None\<rparr>),
      sg_receipts = (\<lambda>_. [(Some \<lparr>rc_ok = True, rc_gas = 21000\<rparr>, False, None)]),
      sg_fresh = (\<lambda>_. Inr (''0xf'', ''''))\<rparr>"

definition demo_view :: "int \<Rightarrow> el_view" where
  "demo_view b = \<lparr>vw_code = (\<lambda>_. Inr []), vw_balance = (\<lambda>_. Inr b), vw_storage = (\<lambda>_ _. Inr [])\<rparr>"

definition demo_scenario :: scenario_world where
  "demo_scenario =
     \<lparr>sc_started = 0, sc_heads = demo_heads, sc_grow = ([], []), sc_addr_of = (\<lambda>_. Inr ''0xa''),
      sc_accounts = (\<lambda>_. (Inr 1, Inr 0)), sc_peers = [], sc_setup = demo_stage, sc_settle = ([], []), sc_cut = None,
      sc_parting = [\<lparr>sp_heads = tl demo_heads, sp_majority = (\<lambda>_. ''0xm''), sp_minority = (\<lambda>_. ''0xn''), sp_past = False, sp_ended = False\<rparr>],
      sc_apply = demo_stage, sc_before = (\<lambda>n. demo_view (if n = ''a'' then 1 else 0)), sc_again = (\<lambda>_. demo_view 0),
      sc_hold = (demo_heads, [Inr demo_heads]), sc_branch = (Inr 30, \<lambda>_. ''0xm'', \<lambda>_. ''0xm''),
      sc_tip = (tl demo_heads, \<lambda>_. [''0xm'', ''0xm'']), sc_tip_peers = [], sc_clear = None,
      sc_agree = [AgreePoll demo_heads False demo_heads (\<lambda>_. [''0xm'', ''0xm'', ''0xm''])],
      sc_reach = [\<lparr>hp_heads = demo_heads, hp_hashes = [(''a'', ''0xm''), (''b'', ''0xm''), (''c'', ''0xm'')], hp_past = False, hp_ended = False\<rparr>],
      sc_report = ([], \<lambda>_. [], [], Inr (0, 0)), sc_final = (\<lambda>_. ''0xm''), sc_after = (\<lambda>_. demo_view 0)\<rparr>"

definition demo_gift :: tx_req where
  "demo_gift = \<lparr>rq_to = Some ''0xf'', rq_data = [], rq_value = Some 1000000000000000, rq_gas = 300000, rq_auth = []\<rparr>"

lemma demo_send: "\<exists>s'. send name (sg_sends demo_stage i) demo_gift s = (s', Inr (''0xh'', ''''))"
  by (simp add: send_def demo_stage_def fees_def feeBudgetWei_def the_gas_def demo_gift_def)

lemma demo_send_each:
  "\<exists>s'. send_each name demo_stage i (replicate n (Inr ([''0xf''], demo_gift))) s = (s', replicate n ''0xh'', replicate n ''0xf'', None)"
proof (induction n arbitrary: i s)
  case (Suc n)
  obtain s1 where s1: "send name (sg_sends demo_stage i) demo_gift s = (s1, Inr (''0xh'', ''''))" using demo_send by blast
  obtain s2 where "send_each name demo_stage (i + 1) (replicate n (Inr ([''0xf''], demo_gift))) s1 =
    (s2, replicate n ''0xh'', replicate n ''0xf'', None)" using Suc by blast
  with s1 show ?case by simp
qed simp

lemma demo_await: "await_from name n i (sg_receipts demo_stage) hs = Some None"
  by (induction hs arbitrary: i) (simp_all add: demo_stage_def await_ok_def)

lemma demo_apply:
  "\<exists>r'. scn_apply AccountScn name demo_stage r = Some (r', None) \<and> sr_doomed r' = sr_doomed r @ replicate 5 ''0xf''"
proof -
  obtain s' where "send_each name demo_stage 0 (replicate 5 (Inr ([''0xf''], demo_gift))) (sr_via_min r) =
    (s', replicate 5 ''0xh'', replicate 5 ''0xf'', None)" using demo_send_each by blast
  moreover have "map (\<lambda>i. case sg_fresh demo_stage i of Inl e \<Rightarrow> Inl e
      | Inr (addr, _) \<Rightarrow> Inr ([addr], \<lparr>rq_to = Some addr, rq_data = [], rq_value = Some 1000000000000000,
          rq_gas = 300000, rq_auth = []\<rparr>)) [0..<5] = replicate 5 (Inr ([''0xf''], demo_gift))"
    by (simp add: demo_stage_def demo_gift_def map_replicate_const)
  ultimately show ?thesis by (simp add: send_all_def await_all_ok_def demo_await)
qed

lemma demo_effect:
  "scn_effect AccountScn r (demo_view b) = (if b = 0 then 0 else length (sr_doomed r), length (sr_doomed r), None)"
proof -
  have "count_from n m (map (\<lambda>a. Inr (b \<noteq> 0)) xs) = (if b = 0 then n else n + length xs, m, None)" for n m and xs :: "string list"
    by (induction xs arbitrary: n) simp_all
  then show ?thesis by (simp add: demo_view_def count_answers_def)
qed

lemma demo_without: "without_nth 1 [''a'', ''b'', ''c''] = [''b'', ''c'']"
  by (simp add: without_nth_def upto.simps)

lemma demo_run:
  "\<exists>e. run_scenario even_stake [] [''a'', ''b'', ''c''] [''k''] AccountScn 0 1 0 demo_scenario [] = Some e \<and> cr_outcome (en_result e) = ''ok''"
proof -
  let ?cut = "[scenario_cut [] AccountScn 1 3]"
  have heads: "lowest_head demo_heads = Inr 30" "lowest_head (tl demo_heads) = Inr 30"
    by (simp_all add: demo_heads_def lowest_head_def)
  have p: "cc_protected even_stake = {}" by (simp add: even_stake_def chaos_config_of_def)
  obtain x where b: "scn_begin even_stake [''a'', ''b'', ''c''] [''k''] AccountScn 0 1 0 demo_scenario [] = Some (Inr x)"
    by (simp add: scn_begin_def scn_grow_def and_then_def heads minority_for_def p keys_for_def new_sender_def demo_scenario_def Let_def)
  from scn_begin_goes_on [OF b] have x: "sx_node x = 1" "sx_min x = ''a''" "sx_maj x = [''b'', ''c'']" "sx_others x = [2, 3]"
      "cr_depth (sx_res x) = 0"
    by (simp_all add: minority_for_def p demo_without upto.simps)
  have r: "scn_ready AccountScn demo_scenario [] x = Some (Inr x)"
    by (simp add: scn_ready_def demo_scenario_def peer_summary_def under_peered_def)
  obtain r' where a: "scn_apply AccountScn ''a'' demo_stage (sx_run x) = Some (r', None)" using demo_apply by blast
  have d: "scn_doom AccountScn [''a'', ''b'', ''c''] demo_scenario ?cut x = Some (Inr (x\<lparr>sx_run := r'\<rparr>))"
    by (simp add: scn_doom_def x a demo_effect parted_def heads demo_scenario_def del: scn_apply.simps scn_effect.simps)
  have s: "scn_split [] AccountScn [''a'', ''b'', ''c''] demo_scenario [] x = Some (Inr (x\<lparr>sx_run := r'\<rparr>, ?cut))"
  proof -
    have "disrupt_partition [] (''pbt-'' @ scenario_name AccountScn) [sx_others x, [sx_node x]] (sc_cut demo_scenario) [] = (?cut, None)"
      by (simp add: disrupt_partition_def partition_request_def x demo_scenario_def scenario_cut_def upto.simps)
    with d show ?thesis by (simp add: scn_split_def and_then_def)
  qed
  have h: "\<exists>x'. scn_heal demo_scenario ?cut (x\<lparr>sx_run := r'\<rparr>) = Some (Inr (x', [], 26, ''0xm'', '''')) \<and>
      sx_run x' = r' \<and> sx_min x' = ''a'' \<and> sx_maj x' = [''b'', ''c'']"
    by (simp add: scn_heal_def x wait_blocks_def heads majority_tip_def agreed_def disrupt_clear_def demo_scenario_def Let_def)
  then obtain x' where x': "scn_heal demo_scenario ?cut (x\<lparr>sx_run := r'\<rparr>) = Some (Inr (x', [], 26, ''0xm'', ''''))"
    "sx_run x' = r'" "sx_min x' = ''a''" "sx_maj x' = [''b'', ''c'']" by blast
  have f: "frozen_heads (observe_heads new_head_tracker ss) = []" for ss
    by (simp add: observe_heads_def moved_def new_head_tracker_def frozen_heads_def)
  have g: "wait_agreement new_head_tracker (sc_agree demo_scenario) = Some (30, True, [])"
    by (simp add: demo_scenario_def f heads agreed_def Let_def)
  have t: "await_height new_head_tracker (sc_reach demo_scenario) = Some (True, no_laggards)"
    by (simp add: demo_scenario_def short_of_def Let_def)
  have c: "\<exists>d. check_gone AccountScn r' 26 (map (\<lambda>n. (n, sc_after demo_scenario n)) [''a'', ''b'', ''c'']) = Inr d"
    by (simp add: check_gone_def demo_effect demo_scenario_def Let_def del: scn_effect.simps)
  have fin: "sc_final demo_scenario = (\<lambda>_. ''0xm'')" by (simp add: demo_scenario_def)
  have v: "\<exists>e. scn_judge AccountScn [''a'', ''b'', ''c''] demo_scenario (x', [], 26, ''0xm'', '''') = Some (Inl e) \<and> cr_outcome (en_result e) = ''ok''"
    using c by (auto simp: scn_judge_def g t scn_verdict_def x' ended_def Let_def fin)
  then obtain e where "scn_judge AccountScn [''a'', ''b'', ''c''] demo_scenario (x', [], 26, ''0xm'', '''') = Some (Inl e)"
    "cr_outcome (en_result e) = ''ok''" by blast
  then show ?thesis by (simp add: run_scenario_def and_then_def b r s x')
qed

lemma demo_eligible: "eligible (cc_protected even_stake) 3 = [1, 2, 3]"
  by (simp add: eligible_def even_stake_def chaos_config_of_def upto.simps)

theorem scenario_releases_witness:
  "\<exists>e. run_scenario even_stake [] [''a'', ''b'', ''c''] [''k''] AccountScn 0 1 0 demo_scenario [] = Some e \<and> en_net e = []"
proof -
  obtain e where e: "run_scenario even_stake [] [''a'', ''b'', ''c''] [''k''] AccountScn 0 1 0 demo_scenario [] = Some e"
    using demo_run by blast
  have "eligible (cc_protected even_stake) (int (length [''a'', ''b'', ''c''])) \<noteq> []" by (simp add: demo_eligible)
  from scenario_releases [OF e this] e show ?thesis by (simp add: demo_scenario_def)
qed

end
