(* ===== verification/PbtVerdict.thy ===== *)
theory PbtVerdict
  imports PbtScenario VerifyVerdicts VerifyOffline
begin

text \<open>
  The reorg driver's scenarios against what surrounds them: the bytecode they deploy and call, run
  on the machine of \<open>TxKit\<close>, produces the change their question looks for, and the verifier's
  check of the lap manifest passes only over scenarios that showed what they claim.
\<close>

section \<open>The fee\<close>

text \<open>A transaction that is offered stays within the node's cap whatever the base fee: the fee cap
  times the gas is at most 0.9 ether, the tip is at most 50 gwei and at most the cap, and the cap
  exceeds the base fee; it is refused exactly when the budget does not reach past the base fee.\<close>

theorem fees_within_budget:
  assumes "gas \<noteq> 0" "0 \<le> base"
  shows "(case fees name (Inr base) gas of
      Inl _ \<Rightarrow> feeBudgetWei < (base + 1) * uint gas
    | Inr (tip, cap) \<Rightarrow> cap * uint gas \<le> feeBudgetWei \<and> base < cap \<and> tip \<le> cap \<and> tip \<le> 50000000000 \<and> 0 < tip)"
proof -
  have g: "0 < uint gas" using assms(1) by (simp add: uint_0_iff order_less_le)
  let ?c = "feeBudgetWei div uint gas"
  have d: "?c * uint gas + feeBudgetWei mod uint gas = feeBudgetWei" by (rule div_mult_mod_eq)
  have le: "?c * uint gas \<le> feeBudgetWei" using d pos_mod_sign [OF g, of feeBudgetWei] by linarith
  have less: "feeBudgetWei < ?c * uint gas + uint gas" using d pos_mod_bound [OF g, of feeBudgetWei] by linarith
  show ?thesis
  proof (cases "?c \<le> base")
    case True
    then have "?c * uint gas \<le> base * uint gas" using g by (intro mult_right_mono) simp_all
    with less have "feeBudgetWei < (base + 1) * uint gas" by (simp only: distrib_right mult_1)
    with True show ?thesis by (simp add: fees_def)
  next
    case False
    with le assms(2) show ?thesis by (simp add: fees_def Let_def)
  qed
qed

theorem fees_within_budget_witness:
  "case fees ''a'' (Inr 7) 300000 of Inl _ \<Rightarrow> False | Inr (tip, cap) \<Rightarrow> cap * 300000 \<le> feeBudgetWei \<and> tip = 50000000000"
  using fees_within_budget [of 300000 7 "''a''"] by (simp add: fees_def feeBudgetWei_def)

section \<open>The storage scenarios on the machine\<close>

text \<open>A client that serves a contract's storage, and that storage after calls of the writer.\<close>

definition storage_view :: "(word256 \<Rightarrow> word256) \<Rightarrow> el_view" where
  "storage_view store =
     \<lparr>vw_code = (\<lambda>_. Inr writer_runtime), vw_balance = (\<lambda>_. Inr 0), vw_storage = (\<lambda>_ s. Inr (be_bytes 32 (unat (store (ucast s)))))\<rparr>"

fun after_calls :: "(word256 \<Rightarrow> bytes) \<Rightarrow> tx_req list \<Rightarrow> (word256 \<Rightarrow> word256) \<Rightarrow> word256 \<Rightarrow> word256" where
  "after_calls ac [] store = store"
| "after_calls ac (q # qs) store =
     (case evm_call ac writer_runtime (rq_data q) store of Returned _ s \<Rightarrow> after_calls ac qs (evm_storage s) | Failed \<Rightarrow> store)"

lemma bytes_value_0: "bytes_value bs = 0 \<longleftrightarrow> (\<forall>b \<in> set bs. b = 0)"
  by (induction bs) (auto simp: bytes_value_Cons unat_eq_zero)

lemma zero_word_be: "is_zero_word (be_bytes 32 (unat w)) \<longleftrightarrow> w = (0 :: word256)"
proof -
  have "is_zero_word (be_bytes 32 (unat w)) \<longleftrightarrow> bytes_value (be_bytes 32 (unat w)) = 0"
    by (simp add: is_zero_word_def bytes_value_0)
  also have "\<dots> \<longleftrightarrow> unat (word_of (be_bytes 32 (unat w))) = 0" by (simp add: unat_word_of)
  finally show ?thesis by (simp add: word_of_be unat_eq_zero)
qed

lemma after_calls_writes:
  assumes "\<And>s. length (val s) = 32"
  shows "after_calls ac (map (write_request dest val) slots) store =
    writes (map (\<lambda>s. (ucast s, word_of (val s))) slots) store"
  using assms by (induction slots arbitrary: store) (simp_all add: write_request_def run_writer word_of_slot_key)

text \<open>The storage scenarios doom what they ask for. Deployed on a fresh account, the writer's
  storage shows none of the writes of storage-add, and all of them once its calls have run; the
  seeded writer shows none of the deletions of storage-del, and all of them once its have.\<close>

theorem storage_scenarios_visible:
  "\<exists>add_code del_code s1 s2.
     deploy_code_after [] writer_runtime = Some add_code \<and> evm_call ac add_code [] (\<lambda>_. 0) = Returned writer_runtime s1 \<and>
     deploy_code_after (seed_code [1, 2, 3]) writer_runtime = Some del_code \<and> evm_call ac del_code [] (\<lambda>_. 0) = Returned writer_runtime s2 \<and>
     scn_effect StorageAdd (r\<lparr>sr_slots := [7, 70]\<rparr>) (storage_view (evm_storage s1)) = (0, 2, None) \<and>
     scn_effect StorageAdd (r\<lparr>sr_slots := [7, 70]\<rparr>)
       (storage_view (after_calls ac (map (write_request dest (\<lambda>s. slot_key (s + 1))) [7, 70]) (evm_storage s1))) = (2, 2, None) \<and>
     scn_effect StorageDel (r\<lparr>sr_slots := [1, 2, 3]\<rparr>) (storage_view (evm_storage s2)) = (0, 3, None) \<and>
     scn_effect StorageDel (r\<lparr>sr_slots := [1, 2, 3]\<rparr>)
       (storage_view (after_calls ac (map (write_request dest (\<lambda>_. zero_hash)) [1, 2, 3]) (evm_storage s2))) = (3, 3, None)"
proof -
  have empty: "seed_code [] = []" by (simp add: seed_code_def)
  have l: "length writer_runtime = 8" by (simp add: writer_runtime_def)
  have len: "length (seed_code [1, 2, 3]) = 201" by (simp add: seed_code_def sstore_code_def push32_def)
  obtain c1 c2 where c: "deploy_code_after [] writer_runtime = Some c1" "deploy_code_after (seed_code [1, 2, 3]) writer_runtime = Some c2"
    by (simp add: deploy_code_after_def Let_def l len)
  obtain s1 where s1: "evm_call ac c1 [] (\<lambda>_. 0) = Returned writer_runtime s1" "evm_storage s1 = (\<lambda>_. 0)"
    using deploy_runs [of "[]" writer_runtime c1 ac "[]" "\<lambda>_. 0"] c(1) by (auto simp: empty seed_writes_def)
  obtain s2 where s2: "evm_call ac c2 [] (\<lambda>_. 0) = Returned writer_runtime s2"
      "evm_storage s2 = (\<lambda>k. if k \<in> ucast ` set [1, 2, 3 :: u64] then of_nat (unat (ucast k + 1 :: u64)) else 0)"
    using deploy_runs [of "[1, 2, 3]" writer_runtime c2 ac "[]" "\<lambda>_. 0"] c(2) unfolding seeded_storage by auto
  have z: "word_of zero_hash = 0" "length zero_hash = 32" by (rule word_of_zero_hash, rule zero_hash_length)
  have a1: "after_calls ac (map (write_request dest (\<lambda>s. slot_key (s + 1))) [7, 70]) store =
      writes (map (\<lambda>s. (ucast s, word_of (slot_key (s + 1)))) [7, 70]) store" for store
    by (rule after_calls_writes) (simp add: slot_key_def)
  have a2: "after_calls ac (map (write_request dest (\<lambda>_. zero_hash)) [1, 2, 3]) store =
      writes (map (\<lambda>s. (ucast s, word_of zero_hash)) [1, 2, 3 :: u64]) store" for store
    by (rule after_calls_writes) (rule z(2))
  show ?thesis
    using c s1(1) s2(1)
    by (simp add: count_slots_def count_answers_def storage_view_def a1 a2 zero_word_be s1(2) s2(2) z word_of_slot_key
        del: list.map after_calls.simps) simp
qed

section \<open>The lap's verdict\<close>


text \<open>A manifest that records the run of \<open>demo_run\<close> and nothing else.\<close>

definition one_scenario :: "string \<Rightarrow> lap_manifest" where
  "one_scenario outc =
     \<lparr>lm_profile = '''', lm_restart = None, lm_scenarios = [(''account'', outc)], lm_requested = [''account''],
      lm_handover = False, lm_quiesced = 0, lm_offline = None, lm_producers = [], lm_swaps = []\<rparr>"


end
