(* ===== verification/Hammer.thy ===== *)
theory Hammer
  imports VerifyLog TxKit
begin

text \<open>
  The traffic generator (\<open>cmd/pbthammer\<close>): the workloads and the transaction each asks for, its
  price over all clients' estimates, the contracts deployed at the start, the rounds with their
  senders' nonces, and the audit of sampled receipts (\<open>audit.go\<close>). What the clients answer, the
  signatures, fresh keys and addresses are arguments; \<open>None\<close> is a wait that is not over or a panic.
  The counters of turns are natural numbers: no run reaches Go's largest \<open>int\<close>.
\<close>

section \<open>Workloads\<close>

datatype workload =
    Fanout | Storage | Codedup | Destruct | Delegate | Zeroize | Callread | Extcode | Legacy | Accesslist | Revert

fun workload_name :: "workload \<Rightarrow> string" where
  "workload_name Fanout = ''fanout''"
| "workload_name Storage = ''storage''"
| "workload_name Codedup = ''codedup''"
| "workload_name Destruct = ''destruct''"
| "workload_name Delegate = ''delegate''"
| "workload_name Zeroize = ''zeroize''"
| "workload_name Callread = ''callread''"
| "workload_name Extcode = ''extcode''"
| "workload_name Legacy = ''legacy''"
| "workload_name Accesslist = ''accesslist''"
| "workload_name Revert = ''revert''"

definition all_workloads :: "workload list" where
  "all_workloads =
     [Fanout, Storage, Codedup, Destruct, Delegate, Zeroize, Callread, Extcode, Legacy, Accesslist, Revert]"

datatype envelope = Env1559 | EnvLegacy | EnvAccessList | EnvSetCode

text \<open>A delegation's authorization: the account it is of, its target and nonce.\<close>

record authorization =
  az_of :: bytes
  az_target :: bytes
  az_nonce :: u64

record tx_shape =
  sh_to :: "bytes option"
  sh_data :: bytes
  sh_value :: int
  sh_price :: "bytes option"
  sh_access :: "(bytes \<times> bytes list) list"
  sh_auth :: "authorization list"
  sh_env :: envelope

definition new_shape :: tx_shape where
  "new_shape =
     \<lparr>sh_to = None, sh_data = [], sh_value = 0, sh_price = None, sh_access = [], sh_auth = [], sh_env = Env1559\<rparr>"

record authority =
  au_addr :: bytes
  au_phase :: nat
  au_last :: u64
  au_used :: bool

definition new_authority :: "bytes \<Rightarrow> authority" where
  "new_authority addr = \<lparr>au_addr = addr, au_phase = 0, au_last = 0, au_used = False\<rparr>"

record hworld =
  hw_chain :: int
  hw_tip :: int
  hw_cap :: int
  hw_slots :: int
  hw_code :: bytes
  hw_reader :: bytes
  hw_writer :: bytes
  hw_bigcode :: bytes
  hw_authorities :: "authority list"
  hw_live :: "bytes list"
  hw_zturn :: nat
  hw_rturn :: nat

text \<open>What the generator reports: an authorization that did not land, two clients' different prices of
  one call (the first client's, the other's, the other's index, the length of the data), the two
  findings of the audit, and a nonce too far ahead.\<close>

datatype hammer_log =
    NotLanded bytes u64 | GasGap u64 u64 nat nat | RevertSucceeded workload nat | OnlyReverts workload nat
  | NonceDrift bytes u64 u64

text \<open>What building one transaction finds: a fresh address, random keys, the authority's nonce, the
  error of signing the authorization, and the clients' estimates in order.\<close>

record shape_world =
  bw_fresh :: "string + bytes"
  bw_keys :: "nat \<Rightarrow> bytes"
  bw_nonce :: "string + u64"
  bw_sign :: "string option"
  bw_gas :: "(string + u64) list"

definition delegate_target :: "hworld \<Rightarrow> authority \<Rightarrow> bytes" where
  "delegate_target w a =
     (if au_phase a mod 3 = 0 then hw_bigcode w else if au_phase a mod 3 = 1 then hw_reader w else replicate 20 0)"

definition delegate_shape ::
  "hworld \<Rightarrow> shape_world \<Rightarrow> (hworld \<times> hammer_log list \<times> (string + tx_shape)) option"
where
  "delegate_shape w b =
     (case hw_authorities w of
        [] \<Rightarrow> None
      | a # as \<Rightarrow> Some
          (case bw_nonce b of
             Inl e \<Rightarrow> (w\<lparr>hw_authorities := as @ [a]\<rparr>, [], Inl (''nonce for authority: '' @ e))
           | Inr n \<Rightarrow>
               let lg = (if au_used a \<and> n = au_last a then [NotLanded (au_addr a) n] else []);
                   a' = a\<lparr>au_phase := au_phase a + 1, au_last := n, au_used := True\<rparr>;
                   w' = w\<lparr>hw_authorities := as @ [a']\<rparr>
               in (case bw_sign b of
                     Some e \<Rightarrow> (w', lg, Inl e)
                   | None \<Rightarrow>
                       (w', lg, Inr (new_shape
                         \<lparr>sh_to := Some (au_addr a), sh_env := EnvSetCode,
                          sh_auth := [\<lparr>az_of = au_addr a, az_target = delegate_target w a, az_nonce = n\<rparr>]\<rparr>)))))"

definition live_value :: bytes where
  "live_value = replicate 31 0 @ [0xff]"

definition zeroize_key :: "nat \<Rightarrow> bytes" where
  "zeroize_key n = (if n mod 3 = 0 then slot_key (of_nat n mod 64) else slot_key (of_nat n))"

definition zeroize_shape :: "hworld \<Rightarrow> hworld \<times> tx_shape" where
  "zeroize_shape w0 =
     (let w = w0\<lparr>hw_zturn := hw_zturn w0 + 1\<rparr>; n = hw_zturn w; live = hw_live w
      in if n mod 2 = 0 then (w, new_shape\<lparr>sh_data := zeroize_init_code zeroize_slots\<rparr>)
         else if live \<noteq> [] \<and> (64 < length live \<or> n mod 4 = 1) then
           (w\<lparr>hw_live := tl live\<rparr>, new_shape\<lparr>sh_to := Some (hw_writer w), sh_data := hd live @ zero_hash\<rparr>)
         else
           (w\<lparr>hw_live := live @ [zeroize_key n]\<rparr>,
            new_shape\<lparr>sh_to := Some (hw_writer w), sh_data := zeroize_key n @ live_value\<rparr>))"

definition read_key :: "nat \<Rightarrow> u64" where
  "read_key turn =
     (let key = reader_seeded ! (turn mod length reader_seeded)
      in if turn mod 2 = 1 then key + 2 ^ 32 else key)"

definition access_keys :: "bytes list" where
  "access_keys = [slot_key (reader_seeded ! 0), slot_key (reader_seeded ! 1), slot_key (2 ^ 40)]"

definition revert_data :: bytes where
  "revert_data = seed_code zeroize_slots @ [0x60, 0x00, 0x60, 0x00, 0xfd]"

definition revert_twin :: bytes where
  "revert_twin = seed_code zeroize_slots @ return_nothing"

definition transfer_shape :: "envelope \<Rightarrow> string + bytes \<Rightarrow> string + tx_shape" where
  "transfer_shape env fresh =
     (case fresh of Inl e \<Rightarrow> Inl e | Inr addr \<Rightarrow> Inr (new_shape\<lparr>sh_to := Some addr, sh_value := 1, sh_env := env\<rparr>))"

text \<open>A creation of the given initcode; the builder may panic.\<close>

definition creation :: "hworld \<Rightarrow> bytes option \<Rightarrow> (hworld \<times> hammer_log list \<times> (string + tx_shape)) option" where
  "creation w code = (case code of None \<Rightarrow> None | Some c \<Rightarrow> Some (w, [], Inr (new_shape\<lparr>sh_data := c\<rparr>)))"

fun shape_for ::
  "workload \<Rightarrow> bytes \<Rightarrow> hworld \<Rightarrow> shape_world \<Rightarrow> (hworld \<times> hammer_log list \<times> (string + tx_shape)) option"
where
  "shape_for Fanout addr w b = Some (w, [], transfer_shape Env1559 (bw_fresh b))"
| "shape_for Storage addr w b =
     creation w (if hw_slots w < 0 then None else Some (storage_init_code (bw_keys b) (nat (hw_slots w))))"
| "shape_for Codedup addr w b = creation w (deploy_code_after [] (hw_code w))"
| "shape_for Destruct addr w b = creation w (factory_destruct_init_code addr 2048)"
| "shape_for Delegate addr w b = delegate_shape w b"
| "shape_for Zeroize addr w b = (case zeroize_shape w of (w', sh) \<Rightarrow> Some (w', [], Inr sh))"
| "shape_for Callread addr w b =
     Some (w\<lparr>hw_rturn := hw_rturn w + 1\<rparr>, [],
       Inr (new_shape\<lparr>sh_to := Some (hw_reader w), sh_data := slot_key (read_key (hw_rturn w))\<rparr>))"
| "shape_for Extcode addr w b =
     creation w (Some (extcode_init_code (hw_bigcode w) (of_nat (length (hw_code w))) 8))"
| "shape_for Legacy addr w b = Some (w, [], transfer_shape EnvLegacy (bw_fresh b))"
| "shape_for Accesslist addr w b =
     Some (w, [], Inr (new_shape
       \<lparr>sh_to := Some (hw_reader w), sh_data := slot_key (reader_seeded ! 0), sh_env := EnvAccessList,
        sh_access := [(hw_reader w, access_keys)]\<rparr>))"
| "shape_for Revert addr w b =
     Some (w, [], Inr (new_shape\<lparr>sh_data := revert_data, sh_price := Some revert_twin\<rparr>))"

section \<open>Prices\<close>

record gas_gap =
  gg_seen :: nat
  gg_pct :: f64
  gg_worst :: "(u64 \<times> u64 \<times> nat \<times> nat) option"
  gg_reported :: bool

definition new_gap :: gas_gap where
  "new_gap = \<lparr>gg_seen = 0, gg_pct = Fin 0, gg_worst = None, gg_reported = False\<rparr>"

definition gap_pct :: "u64 \<Rightarrow> u64 \<Rightarrow> f64" where
  "gap_pct x y =
     (let lo = min x y; hi = max x y
      in if 0 < lo then fdiv (fmul (fof_int (uint (hi - lo))) (Fin 100)) (fof_int (uint lo)) else Fin 0)"

text \<open>\<open>gasDisagreement.note\<close>: the tally, and the one report.\<close>

definition note_gap :: "u64 \<Rightarrow> u64 \<Rightarrow> nat \<Rightarrow> nat \<Rightarrow> gas_gap \<Rightarrow> gas_gap \<times> hammer_log list" where
  "note_gap first other client len d =
     (let pct = gap_pct first other;
          d1 = d\<lparr>gg_seen := gg_seen d + 1\<rparr>;
          d2 = (if fless (gg_pct d1) pct then d1\<lparr>gg_pct := pct, gg_worst := Some (first, other, client, len)\<rparr> else d1)
      in if gg_reported d2 then (d2, []) else (d2\<lparr>gg_reported := True\<rparr>, [GasGap first other client len]))"

text \<open>\<open>estimateEverywhere\<close> from the client \<open>i\<close> on: the first answer so far, the best, the errors.\<close>

fun estimate_from ::
  "nat \<Rightarrow> nat \<Rightarrow> u64 option \<Rightarrow> u64 \<Rightarrow> string list \<Rightarrow> (string + u64) list \<Rightarrow> gas_gap \<Rightarrow>
     gas_gap \<times> hammer_log list \<times> (string + u64)"
where
  "estimate_from len i fst_ans best errs [] d =
     (d, [], if fst_ans = None then Inl (''no client could estimate gas: '' @ joined_with ''; '' errs) else Inr best)"
| "estimate_from len i fst_ans best errs (Inl e # as) d =
     estimate_from len (i + 1) fst_ans best (errs @ [''client '' @ show_nat i @ '': '' @ e]) as d"
| "estimate_from len i fst_ans best errs (Inr g # as) d =
     (case (case fst_ans of
              Some f \<Rightarrow> if g \<noteq> f then note_gap f g i len d else (d, [])
            | None \<Rightarrow> (d, [])) of
        (d', lg) \<Rightarrow>
          (case estimate_from len (i + 1) (Some (case fst_ans of None \<Rightarrow> g | Some f \<Rightarrow> f))
                  (if best < g then g else best) errs as d' of
             (d'', lg', r) \<Rightarrow> (d'', lg @ lg', r)))"

definition estimate_everywhere ::
  "nat \<Rightarrow> (string + u64) list \<Rightarrow> gas_gap \<Rightarrow> gas_gap \<times> hammer_log list \<times> (string + u64)"
where
  "estimate_everywhere len answers d = estimate_from len 0 None 0 [] answers d"

definition with_margin :: "u64 \<Rightarrow> u64" where
  "with_margin gas = gas + gas div 100"

section \<open>Transactions\<close>

text \<open>A transaction built; \<open>hx_tip\<close> is absent in the envelopes with one price, \<open>hx_chain\<close> in the
  oldest.\<close>

record htx =
  hx_env :: envelope
  hx_chain :: "int option"
  hx_nonce :: u64
  hx_tip :: "int option"
  hx_cap :: int
  hx_gas :: u64
  hx_to :: "bytes option"
  hx_value :: int
  hx_data :: bytes
  hx_access :: "(bytes \<times> bytes list) list"
  hx_auth :: "authorization list"

definition envelope_tx :: "hworld \<Rightarrow> u64 \<Rightarrow> u64 \<Rightarrow> tx_shape \<Rightarrow> string + htx" where
  "envelope_tx w nonce gas sh =
     (let t = \<lparr>hx_env = sh_env sh, hx_chain = Some (hw_chain w), hx_nonce = nonce, hx_tip = Some (hw_tip w), hx_cap = hw_cap w,
               hx_gas = gas, hx_to = sh_to sh, hx_value = sh_value sh, hx_data = sh_data sh, hx_access = [], hx_auth = []\<rparr>
      in case sh_env sh of
           EnvLegacy \<Rightarrow> Inr (t\<lparr>hx_chain := None, hx_tip := None\<rparr>)
         | EnvAccessList \<Rightarrow> Inr (t\<lparr>hx_tip := None, hx_access := sh_access sh\<rparr>)
         | EnvSetCode \<Rightarrow>
             if sh_to sh = None then Inl ''a setcode transaction needs a destination''
             else Inr (t\<lparr>hx_auth := sh_auth sh\<rparr>)
         | Env1559 \<Rightarrow> Inr (t\<lparr>hx_access := sh_access sh\<rparr>))"

record hsender =
  hs_addr :: bytes
  hs_nonce :: u64

definition build_tx ::
  "workload \<Rightarrow> hsender \<Rightarrow> shape_world \<Rightarrow> hworld \<Rightarrow> gas_gap \<Rightarrow> (hworld \<times> gas_gap \<times> hammer_log list \<times> (string + htx)) option"
where
  "build_tx kind s b w d =
     (case shape_for kind (hs_addr s) w b of
        None \<Rightarrow> None
      | Some (w', lg, Inl e) \<Rightarrow> Some (w', d, lg, Inl e)
      | Some (w', lg, Inr sh) \<Rightarrow>
          (let priced = (case sh_price sh of None \<Rightarrow> sh_data sh | Some p \<Rightarrow> p)
           in case estimate_everywhere (length priced) (bw_gas b) d of
                (d', lg', Inl e) \<Rightarrow> Some (w', d', lg @ lg', Inl e)
              | (d', lg', Inr gas) \<Rightarrow> Some (w', d', lg @ lg', envelope_tx w' (hs_nonce s) (with_margin gas) sh)))"

text \<open>\<open>broadcast\<close>: every client's refusal, or none; accepted by one is accepted.\<close>

definition broadcast :: "string option list \<Rightarrow> bool" where
  "broadcast answers \<longleftrightarrow> None \<in> set answers"

section \<open>The audit of receipts\<close>

record audit =
  ad_pending :: "workload \<Rightarrow> string list"
  ad_mined :: "workload \<Rightarrow> nat"
  ad_revert :: "workload \<Rightarrow> nat"
  ad_seen :: "workload \<Rightarrow> nat"
  ad_ok_said :: "workload \<Rightarrow> bool"
  ad_rv_said :: "workload \<Rightarrow> bool"
  ad_every :: nat

definition new_audit :: "int \<Rightarrow> audit" where
  "new_audit every =
     \<lparr>ad_pending = (\<lambda>_. []), ad_mined = (\<lambda>_. 0), ad_revert = (\<lambda>_. 0), ad_seen = (\<lambda>_. 0), ad_ok_said = (\<lambda>_. False),
      ad_rv_said = (\<lambda>_. False), ad_every = (if every < 1 then 1 else nat every)\<rparr>"

definition watch_tx :: "workload \<Rightarrow> string \<Rightarrow> audit \<Rightarrow> audit" where
  "watch_tx k h a0 =
     (let a = a0\<lparr>ad_seen := (ad_seen a0)(k := ad_seen a0 k + 1)\<rparr>
      in if ad_seen a k mod ad_every a \<noteq> 0 then a
         else if length (ad_pending a k) < 8 then a\<lparr>ad_pending := (ad_pending a)(k := ad_pending a k @ [h])\<rparr>
         else a)"

definition revert_is_expected :: "workload \<Rightarrow> bool" where
  "revert_is_expected k \<longleftrightarrow> k = Revert"

text \<open>A node's answer to a hash: no receipt, or whether it succeeded.\<close>

definition collect :: "(string \<Rightarrow> bool option) \<Rightarrow> audit \<Rightarrow> audit" where
  "collect answers a =
     a\<lparr>ad_pending := (\<lambda>_. []),
       ad_mined := (\<lambda>k. ad_mined a k + length (filter (\<lambda>h. answers h = Some True) (ad_pending a k))),
       ad_revert := (\<lambda>k. ad_revert a k + length (filter (\<lambda>h. answers h = Some False) (ad_pending a k)))\<rparr>"

definition judge_kind :: "workload \<Rightarrow> audit \<Rightarrow> audit \<times> hammer_log list" where
  "judge_kind k a =
     (let m = ad_mined a k; r = ad_revert a k
      in if m + r = 0 then (a, [])
         else if revert_is_expected k \<and> 0 < m \<and> \<not> ad_ok_said a k then
           (a\<lparr>ad_ok_said := (ad_ok_said a)(k := True)\<rparr>, [RevertSucceeded k m])
         else if \<not> revert_is_expected k \<and> m = 0 \<and> 3 \<le> r \<and> \<not> ad_rv_said a k then
           (a\<lparr>ad_rv_said := (ad_rv_said a)(k := True)\<rparr>, [OnlyReverts k r])
         else (a, []))"

fun judge_kinds :: "workload list \<Rightarrow> audit \<Rightarrow> audit \<times> hammer_log list" where
  "judge_kinds [] a = (a, [])"
| "judge_kinds (k # ks) a =
     (case judge_kind k a of (a', lg) \<Rightarrow> (case judge_kinds ks a' of (a'', lg') \<Rightarrow> (a'', lg @ lg')))"

definition audit_kinds :: "audit \<Rightarrow> workload list" where
  "audit_kinds a = sort_key workload_name (filter (\<lambda>k. 0 < ad_seen a k) all_workloads)"

definition audit_report :: "(string \<Rightarrow> bool option) \<Rightarrow> audit \<Rightarrow> audit \<times> hammer_log list" where
  "audit_report answers a = (let a' = collect answers a in judge_kinds (audit_kinds a') a')"

text \<open>The line beside the findings: successful of all receipts, by workload.\<close>

definition audit_text :: "audit \<Rightarrow> string" where
  "audit_text a =
     joined_with '' '' (map (\<lambda>k. workload_name k @ ''='' @ show_nat (ad_mined a k) @ ''/'' @ show_nat (ad_mined a k + ad_revert a k))
       (filter (\<lambda>k. 0 < ad_mined a k + ad_revert a k) (audit_kinds a)))"

section \<open>Rounds\<close>

record hammer =
  hm_world :: hworld
  hm_senders :: "hsender list"
  hm_stats :: "workload \<Rightarrow> nat"
  hm_audit :: audit
  hm_gap :: gas_gap
  hm_round :: nat

text \<open>What one transaction of a batch meets, and what the reports every 25 rounds are answered:
  receipts, each client's pending nonce of an account, the head's base fee.\<close>

record send_answers =
  sa_build :: shape_world
  sa_sign :: "htx \<Rightarrow> string + string"
  sa_send :: "string option list"
  sa_pending :: "string + u64"

record tick_answers =
  ta_receipts :: "string \<Rightarrow> bool option"
  ta_pending :: "bytes \<Rightarrow> (string + u64) list"
  ta_head :: "string + int option"

definition send_one :: "workload \<Rightarrow> nat \<Rightarrow> send_answers \<Rightarrow> hammer \<Rightarrow> (hammer \<times> hammer_log list) option" where
  "send_one kind j ans st =
     (let i = j mod length (hm_senders st); s = hm_senders st ! i
      in case build_tx kind s (sa_build ans) (hm_world st) (hm_gap st) of
           None \<Rightarrow> None
         | Some (w, d, lg, r) \<Rightarrow>
             (let st1 = st\<lparr>hm_world := w, hm_gap := d\<rparr>
              in case r of
                   Inl _ \<Rightarrow> Some (st1, lg)
                 | Inr t \<Rightarrow>
                     (case sa_sign ans t of
                        Inl _ \<Rightarrow> Some (st1, lg)
                      | Inr h \<Rightarrow>
                          if \<not> broadcast (sa_send ans) then
                            (case sa_pending ans of
                               Inl _ \<Rightarrow> Some (st1, lg)
                             | Inr n \<Rightarrow> Some (st1\<lparr>hm_senders := (hm_senders st)[i := s\<lparr>hs_nonce := n\<rparr>]\<rparr>, lg))
                          else Some
                            (st1\<lparr>hm_senders := (hm_senders st)[i := s\<lparr>hs_nonce := hs_nonce s + 1\<rparr>],
                                 hm_stats := (hm_stats st)(kind := hm_stats st kind + 1),
                                 hm_audit := watch_tx kind h (hm_audit st)\<rparr>, lg))))"

fun send_batch :: "workload \<Rightarrow> nat \<Rightarrow> send_answers list \<Rightarrow> hammer \<Rightarrow> (hammer \<times> hammer_log list) option" where
  "send_batch kind j [] st = Some (st, [])"
| "send_batch kind j (ans # as) st =
     (case send_one kind j ans st of
        None \<Rightarrow> None
      | Some (st', lg) \<Rightarrow> map_option (\<lambda>(st'', lg'). (st'', lg @ lg')) (send_batch kind (j + 1) as st'))"

abbreviation "maxNonceDrift \<equiv> (128 :: u64)"

definition drift_of :: "hsender \<Rightarrow> string + u64 \<Rightarrow> hammer_log list" where
  "drift_of s answer =
     (case answer of
        Inl _ \<Rightarrow> []
      | Inr pending \<Rightarrow> if pending + maxNonceDrift < hs_nonce s then [NonceDrift (hs_addr s) (hs_nonce s) pending] else [])"

definition check_nonce_drift :: "(bytes \<Rightarrow> (string + u64) list) \<Rightarrow> hsender list \<Rightarrow> hammer_log list" where
  "check_nonce_drift pending ss = concat (map (\<lambda>s. concat (map (drift_of s) (pending (hs_addr s)))) ss)"

definition refresh_fee_cap :: "string + int option \<Rightarrow> int \<Rightarrow> int \<Rightarrow> int" where
  "refresh_fee_cap head current tip =
     (case head of
        Inr (Some base) \<Rightarrow> let want = base * 4 + tip in if current < want then want else current
      | _ \<Rightarrow> current)"

definition report_round :: "tick_answers \<Rightarrow> hammer \<Rightarrow> hammer \<times> hammer_log list" where
  "report_round ta st =
     (case audit_report (ta_receipts ta) (hm_audit st) of
        (a, lg) \<Rightarrow>
          (st\<lparr>hm_audit := a,
              hm_world := (hm_world st)\<lparr>hw_cap := refresh_fee_cap (ta_head ta) (hw_cap (hm_world st)) (hw_tip (hm_world st))\<rparr>\<rparr>,
           lg @ check_nonce_drift (ta_pending ta) (hm_senders st)))"

definition hammer_round ::
  "workload list \<Rightarrow> send_answers list \<Rightarrow> tick_answers \<Rightarrow> hammer \<Rightarrow> (hammer \<times> hammer_log list) option"
where
  "hammer_round workloads answers ta st0 =
     (let st = st0\<lparr>hm_round := hm_round st0 + 1\<rparr>; n = hm_round st;
          kind = workloads ! (n mod length workloads)
      in case send_batch kind (n * length answers) answers st of
           None \<Rightarrow> None
         | Some (st', lg) \<Rightarrow>
             if n mod 25 = 0 then (case report_round ta st' of (st'', lg') \<Rightarrow> Some (st'', lg @ lg'))
             else Some (st', lg))"

fun hammer_run ::
  "workload list \<Rightarrow> (send_answers list \<times> tick_answers) list \<Rightarrow> hammer \<Rightarrow> (hammer \<times> hammer_log list) option"
where
  "hammer_run workloads [] st = Some (st, [])"
| "hammer_run workloads ((answers, ta) # rs) st =
     (case hammer_round workloads answers ta st of
        None \<Rightarrow> None
      | Some (st', lg) \<Rightarrow> map_option (\<lambda>(st'', lg'). (st'', lg @ lg')) (hammer_run workloads rs st'))"

definition total_sent :: "(workload \<Rightarrow> nat) \<Rightarrow> nat" where
  "total_sent stats = sum_list (map stats all_workloads)"

definition stats_summary :: "(workload \<Rightarrow> nat) \<Rightarrow> string" where
  "stats_summary stats = joined_with '' '' (map (\<lambda>k. workload_name k @ ''='' @ show_nat (stats k)) all_workloads)"

section \<open>The start\<close>

text \<open>\<open>chainIDWhenReady\<close> and \<open>nonceWhenReady\<close>: a poll's answer, and whether the deadline has passed.\<close>

fun when_ready :: "((string + 'a) \<times> bool) list \<Rightarrow> (string + 'a) option" where
  "when_ready [] = None"
| "when_ready ((Inr x, _) # ps) = Some (Inr x)"
| "when_ready ((Inl e, past) # ps) = (if past then Some (Inl e) else when_ready ps)"

record hreceipt =
  hr_ok :: bool
  hr_gas :: u64
  hr_contract :: bytes

fun wait_receipt :: "((string + hreceipt) \<times> bool) list \<Rightarrow> (string + hreceipt) option" where
  "wait_receipt [] = None"
| "wait_receipt ((Inr r, _) # ps) = Some (Inr r)"
| "wait_receipt ((Inl e, past) # ps) =
     (if past then Some (Inl (''not mined within the startup timeout (last: '' @ e @ '')'')) else wait_receipt ps)"

record target_answers =
  tg_gas :: "(string + u64) list"
  tg_sign :: "htx \<Rightarrow> string + string"
  tg_send :: "string option list"
  tg_receipts :: "((string + hreceipt) \<times> bool) list"

definition target_specs :: "hworld \<Rightarrow> (string \<times> bytes option) list" where
  "target_specs w =
     [(''reader'', deploy_code_after (seed_code reader_seeded) reader_runtime),
      (''writer'', deploy_code_after [] writer_runtime),
      (''bigcode'', deploy_code_after [] (hw_code w))]"

text \<open>The deployments sent one after the other: the sender and the tally after them, and the hashes.\<close>

fun send_targets ::
  "hworld \<Rightarrow> (string \<times> bytes) list \<Rightarrow> target_answers list \<Rightarrow> hsender \<Rightarrow> gas_gap \<Rightarrow>
     hsender \<times> gas_gap \<times> hammer_log list \<times> (string + string list)"
where
  "send_targets w ((name, code) # ss) (t # ts) s d =
     (case estimate_everywhere (length code) (tg_gas t) d of
        (d', lg, Inl e) \<Rightarrow> (s, d', lg, Inl (''estimating '' @ name @ '': '' @ e))
      | (d', lg, Inr gas) \<Rightarrow>
          (case tg_sign t
              \<lparr>hx_env = Env1559, hx_chain = Some (hw_chain w), hx_nonce = hs_nonce s, hx_tip = Some (hw_tip w), hx_cap = hw_cap w,
               hx_gas = with_margin gas, hx_to = None, hx_value = 0, hx_data = code, hx_access = [], hx_auth = []\<rparr> of
             Inl e \<Rightarrow> (s, d', lg, Inl (''signing '' @ name @ '': '' @ e))
           | Inr h \<Rightarrow>
               if \<not> broadcast (tg_send t) then (s, d', lg, Inl (''no node accepted the '' @ name @ '' deployment''))
               else (case send_targets w ss ts (s\<lparr>hs_nonce := hs_nonce s + 1\<rparr>) d' of
                       (s', d'', lg', r) \<Rightarrow> (s', d'', lg @ lg', map_sum id ((#) h) r))))"
| "send_targets w _ _ s d = (s, d, [], Inr [])"

text \<open>The contracts' addresses once all are mined.\<close>

fun await_targets :: "(string \<times> string) list \<Rightarrow> target_answers list \<Rightarrow> (string + bytes list) option" where
  "await_targets ((name, h) # hs) (t # ts) =
     (case wait_receipt (tg_receipts t) of
        None \<Rightarrow> None
      | Some (Inl e) \<Rightarrow> Some (Inl (name @ '' ('' @ h @ ''): '' @ e @ '' - are the consensus clients producing blocks?''))
      | Some (Inr r) \<Rightarrow>
          if \<not> hr_ok r then
            Some (Inl (name @ '' deployment reverted (tx '' @ h @ '', gas used '' @ show_nat (unat (hr_gas r)) @ '')''))
          else map_option (map_sum id ((#) (hr_contract r))) (await_targets hs ts))"
| "await_targets _ _ = Some (Inr [])"

definition deploy_targets ::
  "hworld \<Rightarrow> target_answers list \<Rightarrow> hsender \<Rightarrow> gas_gap \<Rightarrow> (hworld \<times> hsender \<times> gas_gap \<times> hammer_log list \<times> string option) option"
where
  "deploy_targets w ts s d =
     (if \<exists>(name, code) \<in> set (target_specs w). code = None then None
      else
        (let specs = map (\<lambda>(name, code). (name, the code)) (target_specs w)
         in case send_targets w specs ts s d of
              (s', d', lg, Inl e) \<Rightarrow> Some (w, s', d', lg, Some e)
            | (s', d', lg, Inr hs) \<Rightarrow>
                (case await_targets (zip (map fst specs) hs) ts of
                   None \<Rightarrow> None
                 | Some (Inl e) \<Rightarrow> Some (w, s', d', lg, Some e)
                 | Some (Inr addrs) \<Rightarrow>
                     Some (w\<lparr>hw_reader := addrs ! 0, hw_writer := addrs ! 1, hw_bigcode := addrs ! 2\<rparr>, s', d', lg, None))))"

definition fallback_keys :: "string list" where
  "fallback_keys =
     [''ac0974bec39a17e36ba4a6b4d238ff944bacb478cbed5efcae784d7bf4f2ff80'',
      ''59c6995e998f97a5a0044966f0945389dc9e86dae88c7a8412f4603b6b78690d'',
      ''5de4111afa1a4b94908f83103eb1f1706367c2e68ca870fc3fb9a804cdab365a'',
      ''7c852118294e51e653712a81e05800f419141751be58f605c371e15141b007a6'',
      ''47e179ec197488593b187f80a00eb0da91f1b9d0b13f8733639f19c30a34926a'',
      ''8b3a350cf5c34c9194ca85829a2df0ec3153be0318b5e2d3348e872092edffba'']"

record hammer_flags =
  hf_rpcs :: "string list"
  hf_keys :: "string list"
  hf_chain :: int
  hf_slots :: int
  hf_code_size :: int
  hf_only :: string
  hf_tip :: int

datatype hammer_fatal =
    BadCodeSize int | DialRefused string string | NoChainId string | BadDevKey string | NoNonce bytes string
  | NoHead string | UnknownWorkload string | TargetsFailed string

text \<open>What the start finds: dials, the chain id, the keys' addresses and nonces, the head's base fee, the
  deployments, and the fresh accounts of the authority pool.\<close>

record hammer_start =
  hp_dial :: "string \<Rightarrow> string option"
  hp_chain :: "((string + int) \<times> bool) list"
  hp_addr :: "string \<Rightarrow> string + bytes"
  hp_nonce :: "bytes \<Rightarrow> ((string + u64) \<times> bool) list"
  hp_head :: "string + int option"
  hp_targets :: "target_answers list"
  hp_authorities :: "bytes list"

fun dial_all :: "(string \<Rightarrow> string option) \<Rightarrow> string list \<Rightarrow> hammer_fatal option" where
  "dial_all dial [] = None"
| "dial_all dial (u # us) = (case dial u of Some e \<Rightarrow> Some (DialRefused u e) | None \<Rightarrow> dial_all dial us)"

fun make_senders ::
  "(string \<Rightarrow> string + bytes) \<Rightarrow> (bytes \<Rightarrow> ((string + u64) \<times> bool) list) \<Rightarrow> string list \<Rightarrow> (hammer_fatal + hsender list) option"
where
  "make_senders addr_of nonces [] = Some (Inr [])"
| "make_senders addr_of nonces (k # ks) =
     (case addr_of k of
        Inl e \<Rightarrow> Some (Inl (BadDevKey e))
      | Inr a \<Rightarrow>
          (case when_ready (nonces a) of
             None \<Rightarrow> None
           | Some (Inl e) \<Rightarrow> Some (Inl (NoNonce a e))
           | Some (Inr n) \<Rightarrow>
               map_option (map_sum id ((#) \<lparr>hs_addr = a, hs_nonce = n\<rparr>)) (make_senders addr_of nonces ks)))"

definition workloads_of :: "string \<Rightarrow> workload list option" where
  "workloads_of only =
     (if only = '''' then Some all_workloads
      else map_option (\<lambda>k. [k]) (List.find (\<lambda>k. workload_name k = only) all_workloads))"

definition first_cap :: "int option \<Rightarrow> int \<Rightarrow> int" where
  "first_cap base tip = (case base of None \<Rightarrow> 1000000000 | Some b \<Rightarrow> b) * 4 + tip"

definition chain_of :: "hammer_flags \<Rightarrow> hammer_start \<Rightarrow> (string + int) option" where
  "chain_of fg p = (if hf_chain fg = 0 then when_ready (hp_chain p) else Some (Inr (hf_chain fg)))"

definition hammer_world :: "hammer_flags \<Rightarrow> int \<Rightarrow> int option \<Rightarrow> hworld" where
  "hammer_world fg chain base =
     \<lparr>hw_chain = chain, hw_tip = hf_tip fg, hw_cap = first_cap base (hf_tip fg), hw_slots = hf_slots fg,
      hw_code = pattern_code (nat (hf_code_size fg)) 0x5f, hw_reader = [], hw_writer = [], hw_bigcode = [],
      hw_authorities = [], hw_live = [], hw_zturn = 0, hw_rturn = 0\<rparr>"

text \<open>The fatal error, or the workloads and the state the rounds start from.\<close>

definition hammer_setup ::
  "hammer_flags \<Rightarrow> hammer_start \<Rightarrow> (hammer_fatal + workload list \<times> hammer \<times> hammer_log list) option"
where
  "hammer_setup fg p =
     (let rpcs = (if hf_rpcs fg = [] then [''http://127.0.0.1:8545''] else hf_rpcs fg);
          keys = (if hf_keys fg = [] then fallback_keys else hf_keys fg)
      in if hf_code_size fg < 1 \<or> 24576 < hf_code_size fg then Some (Inl (BadCodeSize (hf_code_size fg)))
         else case dial_all (hp_dial p) rpcs of
           Some e \<Rightarrow> Some (Inl e)
         | None \<Rightarrow>
             (case chain_of fg p of
                None \<Rightarrow> None
              | Some (Inl e) \<Rightarrow> Some (Inl (NoChainId e))
              | Some (Inr chain) \<Rightarrow>
                  (case make_senders (hp_addr p) (hp_nonce p) keys of
                     None \<Rightarrow> None
                   | Some (Inl e) \<Rightarrow> Some (Inl e)
                   | Some (Inr ss) \<Rightarrow>
                       (case hp_head p of
                          Inl e \<Rightarrow> Some (Inl (NoHead e))
                        | Inr base \<Rightarrow>
                            (case workloads_of (hf_only fg) of
                               None \<Rightarrow> Some (Inl (UnknownWorkload (hf_only fg)))
                             | Some ws \<Rightarrow>
                                 (case deploy_targets (hammer_world fg chain base) (hp_targets p) (ss ! 0) new_gap of
                                    None \<Rightarrow> None
                                  | Some (w, s, d, lg, Some e) \<Rightarrow> Some (Inl (TargetsFailed e))
                                  | Some (w, s, d, lg, None) \<Rightarrow>
                                      Some (Inr (ws,
                                        \<lparr>hm_world = w\<lparr>hw_authorities := map new_authority (hp_authorities p)\<rparr>,
                                         hm_senders = ss[0 := s], hm_stats = (\<lambda>_. 0), hm_audit = new_audit 12,
                                         hm_gap = d, hm_round = 0\<rparr>, lg))))))))"

end
