(* ===== verification/HammerMix.thy ===== *)
theory HammerMix
  imports Hammer
begin

text \<open>
  What the generator's traffic does: the zeroizing calls on the machine of \<open>TxKit\<close>, the reverting
  transaction and the one it is priced by, the reads of the seeded contract, the life cycle of a
  delegation, the price over all clients, and when the audit reports.
\<close>

section \<open>Zeroizing\<close>

text \<open>The writer contract's storage after a transaction, and after a number of turns.\<close>

definition apply_shape :: "(word256 \<Rightarrow> bytes) \<Rightarrow> hworld \<Rightarrow> tx_shape \<Rightarrow> (word256 \<Rightarrow> word256) \<Rightarrow> word256 \<Rightarrow> word256" where
  "apply_shape ac w sh store =
     (if sh_to sh = Some (hw_writer w) then
        (case evm_call ac writer_runtime (sh_data sh) store of Returned _ s \<Rightarrow> evm_storage s | Failed \<Rightarrow> store)
      else store)"

definition zeroize_turn :: "(word256 \<Rightarrow> bytes) \<Rightarrow> hworld \<times> (word256 \<Rightarrow> word256) \<Rightarrow> hworld \<times> (word256 \<Rightarrow> word256)" where
  "zeroize_turn ac ws =
     (case ws of (w, store) \<Rightarrow> (case zeroize_shape w of (w', sh) \<Rightarrow> (w', apply_shape ac w' sh store)))"

primrec zeroize_run :: "(word256 \<Rightarrow> bytes) \<Rightarrow> nat \<Rightarrow> hworld \<Rightarrow> hworld \<times> (word256 \<Rightarrow> word256)" where
  "zeroize_run ac 0 w = (w, \<lambda>_. 0)"
| "zeroize_run ac (Suc n) w = zeroize_turn ac (zeroize_run ac n w)"

definition zslot :: "nat \<Rightarrow> u64" where
  "zslot n = (if n mod 3 = 0 then of_nat n mod 64 else of_nat n)"

lemma zeroize_key_slot: "zeroize_key n = slot_key (zslot n)"
  by (simp add: zeroize_key_def zslot_def)

lemma zslot_unat: "n < 2 ^ 64 \<Longrightarrow> unat (zslot n) = (if n mod 3 = 0 then n mod 64 else n)"
  by (simp add: zslot_def unat_mod unat_of_nat)

lemma zslots_differ:
  assumes "a + 4 < 2 ^ 64"
  shows "zslot a \<noteq> zslot (a + 4)"
proof
  assume "zslot a = zslot (a + 4)"
  then have "unat (zslot a) = unat (zslot (a + 4))" by simp
  then have e: "(if a mod 3 = 0 then a mod 64 else a) = (if (a + 4) mod 3 = 0 then (a + 4) mod 64 else a + 4)"
    using assms by (simp add: zslot_unat)
  have "a mod 64 \<le> a" by simp
  moreover have "(a + 4) mod 64 \<noteq> a"
  proof (cases "a < 64")
    case True
    then show ?thesis by (cases "a + 4 < 64") (simp_all add: le_mod_geq)
  next
    case False
    have "(a + 4) mod 64 < 64" by simp
    with False show ?thesis by linarith
  qed
  moreover have "a mod 3 = 0 \<Longrightarrow> (a + 4) mod 3 \<noteq> 0" by presburger
  ultimately show False using e by (auto split: if_splits)
qed

text \<open>The keys still set after \<open>n\<close> turns.\<close>

definition live_after :: "nat \<Rightarrow> u64 list" where
  "live_after n =
     (let old = (\<lambda>m. zslot (if m = 3 then 1 else m - 4))
      in if n = 0 then [] else if n < 3 then [zslot 1]
         else if n mod 4 = 3 then [old n, zslot n] else if n mod 4 = 0 then [old (n - 1), zslot (n - 1)]
         else if n mod 4 = 1 then [zslot (n - 2)] else [zslot (n - 3)])"

lemma phase_cases:
  fixes n :: nat
  obtains (start) "n = 0"
  | (delete) q where "n = 4 * q + 4"
  | (first) "n = 1"
  | (odd) q where "n = 4 * q + 5"
  | (second) "n = 2"
  | (adds) q where "n = 4 * q + 6"
  | (even) q where "n = 4 * q + 3"
proof -
  have n: "n = 4 * (n div 4) + n mod 4" by simp
  have "n mod 4 < 4" by simp
  then consider "n mod 4 = 0" | "n mod 4 = 1" | "n mod 4 = 2" | "n mod 4 = 3" by linarith
  then show thesis
  proof cases
    case 1
    with n show thesis by (cases "n div 4") (simp_all add: start delete)
  next
    case 2
    with n show thesis by (cases "n div 4") (simp_all add: first odd)
  next
    case 3
    with n show thesis by (cases "n div 4") (simp_all add: second adds)
  next
    case 4
    with n show thesis by (simp add: even)
  qed
qed

lemma mod4: "(4 * q + 4) mod 4 = (0 :: nat)" "(4 * q + 5) mod 4 = (1 :: nat)" "(4 * q + 6) mod 4 = (2 :: nat)"
  "(4 * q + 3) mod 4 = (3 :: nat)" "(4 * q + 7) mod 4 = (3 :: nat)"
  using mod_mult_self2 [of 4 4 q] mod_mult_self2 [of 5 4 q] mod_mult_self2 [of 6 4 q] mod_mult_self2 [of 3 4 q] mod_mult_self2 [of 7 4 q]
  by (simp_all add: add.commute)

lemma live_phases:
  "live_after 0 = []" "live_after 1 = [zslot 1]" "live_after 2 = [zslot 1]"
  "live_after (4 * q + 4) = [zslot (if q = 0 then 1 else 4 * q - 1), zslot (4 * q + 3)]"
  "live_after (4 * q + 5) = [zslot (4 * q + 3)]"
  "live_after (4 * q + 6) = [zslot (4 * q + 3)]"
  "live_after (4 * q + 3) = [zslot (if q = 0 then 1 else 4 * q - 1), zslot (4 * q + 3)]"
  "live_after (4 * q + 7) = [zslot (4 * q + 3), zslot (4 * q + 7)]"
  unfolding live_after_def Let_def mod4 by (simp_all add: add.commute)

lemma live_distinct:
  assumes "n < 2 ^ 64"
  shows "distinct (live_after n) \<and> length (live_after n) \<le> 2"
proof -
  have "zslot 1 \<noteq> zslot 3" by (simp add: zslot_def)
  moreover have "zslot (4 * q - 1) \<noteq> zslot (4 * q + 3)" if "q \<noteq> 0" "4 * q + 3 < 2 ^ 64" for q
  proof -
    have "4 * q - 1 + 4 = 4 * q + 3" using that(1) by linarith
    then show ?thesis using zslots_differ [of "4 * q - 1"] that(2) by (simp only: not_False_eq_True)
  qed
  ultimately show ?thesis using assms by (cases n rule: phase_cases) (simp_all only: live_phases, auto)
qed

lemma word_of_live_value: "word_of live_value = 255" "length live_value = 32"
proof -
  have "bytes_value (replicate k 0 @ [0xff]) = 255" for k by (induction k) (simp_all add: bytes_value_Cons)
  then show "word_of live_value = 255" by (simp add: word_of_def live_value_def)
qed (simp add: live_value_def)

lemma apply_write:
  assumes "sh_to sh = Some (hw_writer w)" "sh_data sh = slot_key s @ val" "length val = 32"
  shows "apply_shape ac w sh store = store(ucast s := word_of val)"
  using assms by (simp add: apply_shape_def run_writer word_of_slot_key)

lemma mod2: "(4 * q + 4) mod 2 = (0 :: nat)" "(4 * q + 5) mod 2 = (1 :: nat)" "(4 * q + 6) mod 2 = (0 :: nat)" "(4 * q + 7) mod 2 = (1 :: nat)"
  by presburger+

text \<open>A turn with an even number, one that deletes the oldest live key, and one that adds a key.\<close>

lemma shape_even:
  "Suc (hw_zturn w) mod 2 = 0 \<Longrightarrow> zeroize_shape w = (w', sh) \<Longrightarrow> w' = w\<lparr>hw_zturn := Suc (hw_zturn w)\<rparr> \<and> sh_to sh = None"
  by (auto simp: zeroize_shape_def Let_def new_shape_def)

lemma shape_delete:
  "m = Suc (hw_zturn w) \<Longrightarrow> m mod 2 = 1 \<Longrightarrow> m mod 4 = 1 \<Longrightarrow> hw_live w = k # ks \<Longrightarrow> zeroize_shape w = (w', sh) \<Longrightarrow>
    w' = w\<lparr>hw_zturn := m, hw_live := ks\<rparr> \<and> sh_to sh = Some (hw_writer w) \<and> sh_data sh = k @ zero_hash"
  by (auto simp: zeroize_shape_def Let_def)

lemma shape_add:
  "m = Suc (hw_zturn w) \<Longrightarrow> m mod 2 = 1 \<Longrightarrow> hw_live w = [] \<or> m mod 4 \<noteq> 1 \<Longrightarrow> length (hw_live w) \<le> 64 \<Longrightarrow>
    zeroize_shape w = (w', sh) \<Longrightarrow>
    w' = w\<lparr>hw_zturn := m, hw_live := hw_live w @ [slot_key (zslot m)]\<rparr> \<and> sh_to sh = Some (hw_writer w) \<and>
    sh_data sh = slot_key (zslot m) @ live_value"
  by (auto simp: zeroize_shape_def Let_def zeroize_key_slot)

text \<open>What a turn does to the keys still set.\<close>

lemma zeroize_cases:
  assumes "hw_zturn w = n" "hw_live w = map slot_key (live_after n)" "zeroize_shape w = (w', sh)"
  obtains (none) "live_after (Suc n) = live_after n" "sh_to sh = None" "\<not> (n mod 4 = 0 \<and> n \<noteq> 0)"
      "w' = w\<lparr>hw_zturn := Suc n\<rparr>"
  | (deleted) s where "live_after n = s # live_after (Suc n)" "n mod 4 = 0 \<and> n \<noteq> 0" "sh_to sh = Some (hw_writer w)"
      "sh_data sh = slot_key s @ zero_hash" "w' = w\<lparr>hw_zturn := Suc n, hw_live := map slot_key (live_after (Suc n))\<rparr>"
  | (added) "live_after (Suc n) = live_after n @ [zslot (Suc n)]" "\<not> (n mod 4 = 0 \<and> n \<noteq> 0)" "sh_to sh = Some (hw_writer w)"
      "sh_data sh = slot_key (zslot (Suc n)) @ live_value" "w' = w\<lparr>hw_zturn := Suc n, hw_live := map slot_key (live_after (Suc n))\<rparr>"
proof -
  have even: thesis if "Suc n mod 2 = 0" "live_after (Suc n) = live_after n" "n mod 4 \<noteq> 0"
    by (rule none) (use shape_even [of w w' sh] assms that in auto)
  have add: thesis if "Suc n mod 2 = 1" "live_after n = [] \<or> Suc n mod 4 \<noteq> 1" "length (live_after n) \<le> 64"
    "live_after (Suc n) = live_after n @ [zslot (Suc n)]" "n mod 4 = 0 \<longrightarrow> n = 0"
    by (rule added) (use shape_add [of "Suc n" w w' sh] assms that in auto)
  show thesis
  proof (cases n rule: phase_cases)
    case start
    then show thesis by (intro add) (simp_all add: live_phases(1) live_phases(2) [simplified])
  next
    case (delete q)
    have sn: "Suc n = 4 * q + 5" using delete by simp
    have l: "live_after n = zslot (if q = 0 then 1 else 4 * q - 1) # live_after (Suc n)"
      unfolding sn unfolding delete live_phases by simp
    have m: "Suc n mod 2 = 1" "Suc n mod 4 = 1" "n mod 4 = 0 \<and> n \<noteq> 0" unfolding sn mod4 mod2 by (simp_all add: delete mod4)
    have "hw_live w = slot_key (zslot (if q = 0 then 1 else 4 * q - 1)) # map slot_key (live_after (Suc n))"
      unfolding assms(2) l by (simp only: list.map)
    from shape_delete [OF _ m(1,2) this assms(3)] assms(1)
    show thesis by (intro deleted [OF l m(3)]) simp_all
  next
    case first
    then show thesis by (intro even) (simp_all add: live_phases(2) [simplified] live_phases(3) [simplified, unfolded numeral_2_eq_2])
  next
    case (odd q)
    have sn: "Suc n = 4 * q + 6" using odd by simp
    show thesis by (rule even) (unfold sn, unfold odd live_phases mod4 mod2, simp_all)
  next
    case second
    have sn: "Suc n = 4 * 0 + 3" using second by simp
    show thesis by (rule add) (unfold sn, unfold second live_phases mod4, simp_all)
  next
    case (adds q)
    have sn: "Suc n = 4 * q + 7" using adds by simp
    show thesis by (rule add) (unfold sn, unfold adds live_phases mod4 mod2, simp_all)
  next
    case (even q)
    have sn: "Suc n = 4 * q + 4" using even by simp
    show thesis by (rule \<open>\<lbrakk>Suc n mod 2 = 0; live_after (Suc n) = live_after n; n mod 4 \<noteq> 0\<rbrakk> \<Longrightarrow> thesis\<close>)
        (unfold sn, unfold even live_phases mod4 mod2, simp_all)
  qed
qed


lemma populated_update:
  fixes store :: "word256 \<Rightarrow> word256"
  assumes "{k. store k \<noteq> 0} = ucast ` set (L :: u64 list)" "distinct L" "v \<noteq> (0 :: word256)"
  shows "s \<notin> set L \<Longrightarrow> {k. (store(ucast s := v)) k \<noteq> 0} = ucast ` set (L @ [s])"
    and "L = s # L' \<Longrightarrow> {k. (store(ucast s := 0)) k \<noteq> 0} = ucast ` set L'"
proof -
  show "{k. (store(ucast s := v)) k \<noteq> 0} = ucast ` set (L @ [s])" if "s \<notin> set L"
  proof -
    have "{k. (store(ucast s := v)) k \<noteq> 0} = insert (ucast s) {k. store k \<noteq> 0}" using assms(3) by auto
    with assms(1) show ?thesis by simp
  qed
  show "{k. (store(ucast s := 0)) k \<noteq> 0} = ucast ` set L'" if "L = s # L'"
  proof -
    have "{k. (store(ucast s := 0)) k \<noteq> 0} = {k. store k \<noteq> 0} - {ucast s}" by auto
    also have "\<dots> = ucast ` set L'" using assms(1,2) that by (auto simp: slot_inj)
    finally show ?thesis .
  qed
qed

text \<open>One turn: the populated slots stay the live ones, and a call of the writer populates or clears
  one slot.\<close>

lemma zeroize_step:
  fixes ac :: "word256 \<Rightarrow> bytes"
  assumes "hw_zturn w = n" "hw_live w = map slot_key (live_after n)" "zeroize_shape w = (w', sh)"
    and "{k. store k \<noteq> 0} = ucast ` set (live_after n)" "Suc n < 2 ^ 64"
  defines "store' \<equiv> apply_shape ac w' sh store"
  shows "hw_zturn w' = Suc n \<and> hw_live w' = map slot_key (live_after (Suc n)) \<and> {k. store' k \<noteq> 0} = ucast ` set (live_after (Suc n)) \<and>
    (sh_to sh = None \<and> store' = store \<or>
     (\<exists>s. {k. store k = 0} = {k. store' k = 0} - {ucast (s :: u64)} \<and> store' (ucast s) = 0 \<and> n mod 4 = 0 \<and> n \<noteq> 0) \<or>
     (\<exists>s. {k. store' k = 0} = {k. store k = 0} - {ucast (s :: u64)} \<and> store (ucast s) = 0 \<and> \<not> (n mod 4 = 0 \<and> n \<noteq> 0)))"
  using assms(1-3)
proof (cases rule: zeroize_cases)
  case none
  then show ?thesis using assms(1,2,4) by (simp add: store'_def apply_shape_def)
next
  case (deleted s)
  have d: "distinct (live_after n)" using live_distinct [of n] assms(5) by simp
  have st: "store' = store(ucast s := 0)"
    using apply_write [of sh w' s zero_hash ac store] deleted by (simp add: store'_def zero_hash_length word_of_zero_hash)
  have "store (ucast s) \<noteq> 0" using assms(4) deleted(1) by auto
  then have "{k. store k = 0} = {k. store' k = 0} - {ucast s}" "store' (ucast s) = 0" unfolding st by auto
  moreover have "{k. store' k \<noteq> 0} = ucast ` set (live_after (Suc n))"
    unfolding st using populated_update(2) [OF assms(4) d, of 1 s] deleted(1) by simp
  ultimately show ?thesis using deleted by auto
next
  case added
  let ?s = "zslot (Suc n)"
  have d: "distinct (live_after n)" "?s \<notin> set (live_after n)"
    using live_distinct [of n] live_distinct [of "Suc n"] assms(5) unfolding added(1) by simp_all
  have st: "store' = store(ucast ?s := 255)"
    using apply_write [of sh w' ?s live_value ac store] added by (simp add: store'_def word_of_live_value)
  have "(ucast ?s :: word256) \<notin> ucast ` set (live_after n)" using d(2) by (auto simp: slot_inj)
  then have "store (ucast ?s) = 0" unfolding assms(4) [symmetric] by simp
  then have "{k. store' k = 0} = {k. store k = 0} - {ucast ?s}" unfolding st by auto
  moreover have "{k. store' k \<noteq> 0} = ucast ` set (live_after (Suc n))"
    unfolding st added(1) using populated_update(1) [OF assms(4) d(1) _ d(2), of 255] by simp
  ultimately show ?thesis using added \<open>store (ucast ?s) = 0\<close> by auto
qed

lemma zeroize_state:
  assumes "hw_live w = []" "hw_zturn w = 0" "n < 2 ^ 64" "zeroize_run ac n w = (w', store)"
  shows "hw_zturn w' = n \<and> hw_live w' = map slot_key (live_after n) \<and> {k. store k \<noteq> 0} = ucast ` set (live_after n)"
  using assms(3,4)
proof (induction n arbitrary: w' store)
  case 0
  with assms(1,2) show ?case by (auto simp: live_phases(1))
next
  case (Suc n)
  obtain w1 store1 where r: "zeroize_run ac n w = (w1, store1)" by (metis prod.exhaust)
  obtain w2 sh where z: "zeroize_shape w1 = (w2, sh)" by (metis prod.exhaust)
  have i: "hw_zturn w1 = n" "hw_live w1 = map slot_key (live_after n)" "{k. store1 k \<noteq> 0} = ucast ` set (live_after n)"
    using Suc.IH [OF _ r] Suc.prems(1) by simp_all
  have "w' = w2" "store = apply_shape ac w2 sh store1" using Suc.prems(2) r z by (auto simp: zeroize_turn_def)
  with zeroize_step [OF i(1,2) z i(3) Suc.prems(1), of ac] show ?case by simp
qed

text \<open>The zeroize workload deletes leaves that are there. Over any run of its turns, each mined in
  order, the keys it holds for live are exactly the populated slots of the writer contract, two at
  most and no key twice; every call of the writer changes exactly one slot between absent and
  populated, and it is a deletion on every fourth turn from the fifth on.\<close>

theorem zeroize_deletes_present:
  assumes "hw_live w = []" "hw_zturn w = 0" "Suc n < 2 ^ 64"
    and "zeroize_run ac n w = (w', store)" "zeroize_shape w' = (w'', sh)"
  shows "distinct (hw_live w') \<and> length (hw_live w') \<le> 2 \<and> {k. store k \<noteq> 0} = word_of ` set (hw_live w') \<and>
    (let store' = apply_shape ac w'' sh store
     in if sh_to sh = None then store' = store
        else if n mod 4 = 0 \<and> n \<noteq> 0 then \<exists>!k. store k \<noteq> 0 \<and> store' k = 0
        else \<exists>!k. store k = 0 \<and> store' k \<noteq> 0)"
proof -
  have s: "hw_zturn w' = n" "hw_live w' = map slot_key (live_after n)" "{k. store k \<noteq> 0} = ucast ` set (live_after n)"
    using zeroize_state [OF assms(1,2) _ assms(4)] assms(3) by simp_all
  have d: "distinct (live_after n)" "length (live_after n) \<le> 2" using live_distinct [of n] assms(3) by simp_all
  have inj: "inj_on slot_key (set (live_after n))"
    by (rule inj_onI) (metis word_of_slot_key slot_inj)
  have words: "word_of ` set (hw_live w') = ucast ` set (live_after n)" unfolding s(2) by (simp add: image_image word_of_slot_key)
  have one: "\<exists>!k. f k \<noteq> 0 \<and> g k = 0" if "{k. f k = 0} = {k. g k = 0} - {ucast (t :: u64)}" "g (ucast t) = 0"
    for f g :: "word256 \<Rightarrow> word256" and t
    using that by (intro ex1I [of _ "ucast t"]) auto
  let ?g = "apply_shape ac w'' sh store"
  note step = zeroize_step [OF s(1,2) assms(5) s(3) assms(3), of ac, THEN conjunct2, THEN conjunct2, THEN conjunct2]
  have some: "sh_to sh \<noteq> None" if "?g \<noteq> store" using that by (auto simp: apply_shape_def)
  have "let store' = ?g
     in if sh_to sh = None then store' = store
        else if n mod 4 = 0 \<and> n \<noteq> 0 then \<exists>!k. store k \<noteq> 0 \<and> store' k = 0
        else \<exists>!k. store k = 0 \<and> store' k \<noteq> 0"
    using step
  proof (elim disjE exE conjE, goal_cases)
    case 1
    then show ?case by (simp add: Let_def)
  next
    case (2 t)
    have "ucast t \<notin> {k. store k = 0}" unfolding 2(1) by simp
    with 2(2) have "?g \<noteq> store" by (metis mem_Collect_eq)
    with one [OF 2(1,2)] 2(3,4) show ?case by (simp add: Let_def some)
  next
    case (3 t)
    have "ucast t \<notin> {k. ?g k = 0}" unfolding 3(1) by simp
    with 3(2) have g: "?g \<noteq> store" by (metis mem_Collect_eq)
    show ?case unfolding Let_def if_not_P [OF some [OF g]] if_not_P [OF 3(3)] using one [OF 3(1,2)] by (simp only: conj_commute)
  qed
  moreover have "distinct (hw_live w')" "length (hw_live w') \<le> 2" using d inj by (simp_all add: s(2) distinct_map)
  moreover have "{k. store k \<noteq> 0} = word_of ` set (hw_live w')" unfolding words by (rule s(3))
  ultimately show ?thesis by (intro conjI)
qed


definition fresh_world :: hworld where
  "fresh_world =
     \<lparr>hw_chain = 1, hw_tip = 1, hw_cap = 1, hw_slots = 20, hw_code = [], hw_reader = [1], hw_writer = [2], hw_bigcode = [3],
      hw_authorities = [], hw_live = [], hw_zturn = 0, hw_rturn = 0\<rparr>"

theorem zeroize_deletes_present_witness:
  "\<exists>w store w' sh. zeroize_run (\<lambda>_. []) 4 fresh_world = (w, store) \<and> zeroize_shape w = (w', sh) \<and>
     (\<exists>!k. store k \<noteq> 0 \<and> apply_shape (\<lambda>_. []) w' sh store k = 0)"
proof -
  obtain w store where r: "zeroize_run (\<lambda>_. []) 4 fresh_world = (w, store)" by (metis prod.exhaust)
  obtain w' sh where z: "zeroize_shape w = (w', sh)" by (metis prod.exhaust)
  have f: "hw_live fresh_world = []" "hw_zturn fresh_world = 0" "Suc 4 < 2 ^ 64" by (simp_all add: fresh_world_def)
  have t: "hw_zturn w = 4" "hw_live w = map slot_key (live_after 4)" using zeroize_state [OF f(1,2) _ r] by simp_all
  have "live_after 4 = [zslot 1, zslot 3]" using live_phases(4) [of 0] by simp
  with t z have "sh_to sh \<noteq> None" by (auto simp: zeroize_shape_def Let_def)
  with zeroize_deletes_present [OF f r z] have "\<exists>!k. store k \<noteq> 0 \<and> apply_shape (\<lambda>_. []) w' sh store k = 0" by (simp add: Let_def)
  with r z show ?thesis by blast
qed

section \<open>The reverting transaction\<close>

lemma run_revert: "evm_run ac code data [0x60, 0x00, 0x60, 0x00, 0xfd] s = Failed"
  by (simp add: run_push1 evm_run.simps(2) push_width_def evm_op_def split: list.split)

text \<open>What the revert workload sends fails on the machine, whatever the storage, and so leaves it as
  it was; what it is priced by is the same code up to the last byte, writes every slot of the
  batch and returns, so that its estimate is that of the same work.\<close>

theorem revert_priced_by_twin:
  "case shape_for Revert addr w b of
     Some (w', lg, Inr sh) \<Rightarrow> w' = w \<and> sh_to sh = None \<and> evm_call ac (sh_data sh) data store = Failed \<and>
       (\<exists>p s. sh_price sh = Some p \<and> length p = length (sh_data sh) \<and> butlast p = butlast (sh_data sh) \<and>
          evm_call ac p data store = Returned [] s \<and>
          evm_storage s = (\<lambda>k. if k \<in> ucast ` set zeroize_slots then of_nat (unat (ucast k + 1 :: u64)) else store k))
   | _ \<Rightarrow> False"
proof -
  have f: "evm_call ac revert_data data store = Failed"
    unfolding evm_call_def by (subst (2) revert_data_def) (simp add: run_seed run_revert)
  have t: "evm_call ac revert_twin data store =
      Returned [] \<lparr>evm_stack = [], evm_mem = (\<lambda>_. 0), evm_storage = writes (seed_writes zeroize_slots) store\<rparr>"
    unfolding evm_call_def by (subst (2) revert_twin_def) (simp add: run_seed run_return_nothing)
  have "length revert_twin = length revert_data" "butlast revert_twin = butlast revert_data"
    by (simp_all add: revert_twin_def revert_data_def return_nothing_def butlast_append)
  with f t show ?thesis by (simp add: new_shape_def seeded_storage)
qed

section \<open>The reads\<close>

lemma read_key_mod: "read_key t = read_key (t mod 10)" "even (t mod 10) = even t"
proof -
  have "length reader_seeded = 10" by (simp add: reader_seeded_def)
  moreover have "t mod 10 mod 2 = t mod 2" by (rule mod_mod_cancel) simp
  ultimately show "read_key t = read_key (t mod 10)" "even (t mod 10) = even t"
    by (simp_all add: read_key_def even_iff_mod_2_eq_zero)
qed

lemma read_key_table:
  "map read_key [0..<10] = [1, 2 + 2 ^ 32, 3, 5 + 2 ^ 32, 8, 13 + 2 ^ 32, 64, 65 + 2 ^ 32, 96, 200 + 2 ^ 32]"
  by (simp add: read_key_def reader_seeded_def upt_rec)

lemma read_key_range: "range read_key = set (map read_key [0..<10])"
proof
  show "range read_key \<subseteq> set (map read_key [0..<10])"
  proof
    fix k assume "k \<in> range read_key"
    then obtain t where "k = read_key (t mod 10)" using read_key_mod(1) by auto
    then show "k \<in> set (map read_key [0..<10])" by simp
  qed
qed auto

lemma read_key_seeded: "read_key t \<in> set reader_seeded \<longleftrightarrow> even t"
proof -
  have "\<forall>r \<in> set [0..<10]. read_key r \<in> set reader_seeded \<longleftrightarrow> even r"
    by code_simp
  then have "read_key (t mod 10) \<in> set reader_seeded \<longleftrightarrow> even (t mod 10)" by simp
  then show ?thesis by (simp only: read_key_mod(1) [symmetric] read_key_mod(2))
qed

lemma unat_slot: "unat (ucast n :: word256) = unat (n :: u64)"
proof -
  have "uint (ucast n :: word256) = uint n" by (rule uint_up_ucast) (simp add: is_up)
  then show ?thesis by (simp only: unat_eq_nat_uint)
qed

lemma be_bytes_zero: "be_bytes 32 0 = zero_hash"
  by (simp add: be_bytes_def zero_hash_def map_replicate_const)

text \<open>The reading workload, over a reader deployed as the start deploys it: an even turn reads a
  populated slot and gets its number plus one, an odd turn reads an absent one and gets zero; but
  an index and its turn have one parity, so that of the ten seeded slots only five are ever read.\<close>

theorem callread_reads:
  "(case map_of (target_specs w) ''reader'' of
      Some (Some code) \<Rightarrow> \<exists>s. evm_call ac code [] (\<lambda>_. 0) = Returned reader_runtime s \<and>
        (\<forall>w' b. case shape_for Callread addr w' b of
           Some (_, _, Inr sh) \<Rightarrow> \<exists>out s'. sh_to sh = Some (hw_reader w') \<and>
             evm_call ac reader_runtime (sh_data sh) (evm_storage s) = Returned out s' \<and>
             out = (if even (hw_rturn w') then slot_key (read_key (hw_rturn w') + 1) else zero_hash)
         | _ \<Rightarrow> False)
    | _ \<Rightarrow> False) \<and>
   set reader_seeded \<inter> range read_key = {1, 3, 8, 64, 96}"
proof -
  have len: "length (seed_code reader_seeded) = 670"
    by (simp add: seed_code_def sstore_code_def push32_def reader_seeded_def)
  obtain code where c: "deploy_code_after (seed_code reader_seeded) reader_runtime = Some code"
    by (simp add: deploy_code_after_def len reader_runtime_def)
  let ?store = "writes (seed_writes reader_seeded) (\<lambda>_. 0)"
  obtain s where s: "evm_call ac code [] (\<lambda>_. 0) = Returned reader_runtime s" "evm_storage s = ?store"
    using deploy_runs [OF c, of ac "[]" "\<lambda>_. 0"] by auto
  have read: "be_bytes 32 (unat (?store (ucast (read_key t)))) = (if even t then slot_key (read_key t + 1) else zero_hash)" for t
    by (simp add: seed_writes_spec(1) read_key_seeded slot_key_def unat_slot be_bytes_zero)
  have "\<exists>out s'. evm_call ac reader_runtime (slot_key (read_key t)) (evm_storage s) = Returned out s' \<and>
      out = (if even t then slot_key (read_key t + 1) else zero_hash)" for t
    using run_reader [of "slot_key (read_key t)" ac ?store] read [of t] by (auto simp: s(2) word_of_slot_key)
  moreover have "set reader_seeded \<inter> range read_key = {1, 3, 8, 64, 96}"
    unfolding read_key_range read_key_table by (simp add: reader_seeded_def)
  ultimately show ?thesis using c s(1) by (auto simp: target_specs_def new_shape_def)
qed


section \<open>Delegations\<close>

text \<open>The shapes of a run of delegation turns.\<close>

fun delegate_run :: "shape_world list \<Rightarrow> hworld \<Rightarrow> (string + tx_shape) list option" where
  "delegate_run [] w = Some []"
| "delegate_run (b # bs) w =
     (case delegate_shape w b of None \<Rightarrow> None | Some (w', _, r) \<Rightarrow> map_option ((#) r) (delegate_run bs w'))"

text \<open>A pool as \<open>k\<close> turns leave it: its front is account \<open>k\<close> modulo their number, used as often as
  the turns went round.\<close>

definition pool_at :: "bytes list \<Rightarrow> nat \<Rightarrow> authority list \<Rightarrow> bool" where
  "pool_at addrs k as \<longleftrightarrow> length as = length addrs \<and>
     (\<forall>i < length addrs. au_addr (as ! i) = addrs ! ((k + i) mod length addrs) \<and> au_phase (as ! i) = (k + i) div length addrs)"

lemma pool_start: "pool_at addrs 0 (map new_authority addrs)"
  by (simp add: pool_at_def new_authority_def)

lemma pool_step:
  assumes "pool_at addrs k (a # as)" "au_addr a' = au_addr a" "au_phase a' = Suc (au_phase a)"
  shows "pool_at addrs (Suc k) (as @ [a'])"
proof -
  let ?n = "length addrs"
  have l: "Suc (length as) = ?n" and p: "\<And>i. i < ?n \<Longrightarrow> au_addr ((a # as) ! i) = addrs ! ((k + i) mod ?n) \<and> au_phase ((a # as) ! i) = (k + i) div ?n"
    using assms(1) by (simp_all add: pool_at_def)
  have "au_addr ((as @ [a']) ! i) = addrs ! ((Suc k + i) mod ?n) \<and> au_phase ((as @ [a']) ! i) = (Suc k + i) div ?n" if "i < ?n" for i
  proof (cases "i < length as")
    case True
    with p [of "Suc i"] l show ?thesis by (simp add: nth_append)
  next
    case False
    with that l have i: "i = length as" "Suc k + i = k + ?n" by simp_all
    have n: "?n \<noteq> 0" "0 < ?n" using l by linarith+
    have "(k + ?n) div ?n = Suc (k div ?n)" using n by (simp add: div_add_self2)
    then show ?thesis unfolding i(2) using p [OF n(2)] assms(2,3) by (simp add: i(1))
  qed
  with l show ?thesis by (simp add: pool_at_def)
qed

definition delegation :: "hworld \<Rightarrow> bytes list \<Rightarrow> nat \<Rightarrow> shape_world \<Rightarrow> tx_shape" where
  "delegation w addrs k b =
     (let addr = addrs ! (k mod length addrs)
      in new_shape\<lparr>sh_to := Some addr, sh_env := EnvSetCode,
           sh_auth := [\<lparr>az_of = addr, az_target = [hw_bigcode w, hw_reader w, replicate 20 0] ! (k div length addrs mod 3),
                       az_nonce = projr (bw_nonce b)\<rparr>]\<rparr>)"

lemma delegate_once:
  assumes "pool_at addrs k (hw_authorities w)" "bw_nonce b = Inr n" "bw_sign b = None" "delegate_shape w b = Some (w', lg, r)"
  shows "r = Inr (delegation w addrs k b) \<and> pool_at addrs (Suc k) (hw_authorities w') \<and>
    hw_bigcode w' = hw_bigcode w \<and> hw_reader w' = hw_reader w"
proof -
  obtain a as where a: "hw_authorities w = a # as"
    using assms(4) by (cases "hw_authorities w") (simp_all add: delegate_shape_def)
  have n: "0 < length addrs" using assms(1) a by (auto simp: pool_at_def)
  have f: "au_addr a = addrs ! (k mod length addrs)" "au_phase a = k div length addrs"
    using assms(1) n by (auto simp: pool_at_def a)
  have "au_phase a mod 3 \<in> {0, 1, 2}" by auto
  then have "delegate_target w a = [hw_bigcode w, hw_reader w, replicate 20 0] ! (au_phase a mod 3)"
    by (auto simp: delegate_target_def)
  moreover have "pool_at addrs (Suc k) (as @ [a\<lparr>au_phase := au_phase a + 1, au_last := n, au_used := True\<rparr>])"
    using assms(1) by (intro pool_step [of addrs k a as]) (simp_all add: a)
  ultimately show ?thesis
    using assms(2-4) f by (auto simp: delegate_shape_def a delegation_def Let_def)
qed

lemma delegate_from:
  assumes "pool_at addrs k0 (hw_authorities w)" "delegate_run bs w = Some rs"
    and "\<forall>b \<in> set bs. (\<exists>n. bw_nonce b = Inr n) \<and> bw_sign b = None"
  shows "length rs = length bs \<and> (\<forall>k < length bs. rs ! k = Inr (delegation w addrs (k0 + k) (bs ! k)))"
  using assms
proof (induction bs arbitrary: w k0 rs)
  case (Cons b bs)
  from Cons.prems(2) obtain w' lg r rs' where d: "delegate_shape w b = Some (w', lg, r)" "delegate_run bs w' = Some rs'" "rs = r # rs'"
    by (auto split: option.splits)
  obtain n where n: "bw_nonce b = Inr n" "bw_sign b = None" using Cons.prems(3) by auto
  note once = delegate_once [OF Cons.prems(1) n d(1)]
  have same: "delegation w' addrs k c = delegation w addrs k c" for k c using once by (simp add: delegation_def)
  have rest: "length rs' = length bs \<and> (\<forall>k < length bs. rs' ! k = Inr (delegation w addrs (Suc k0 + k) (bs ! k)))"
  proof -
    have i: "pool_at addrs (Suc k0) (hw_authorities w')" "\<forall>b \<in> set bs. (\<exists>n. bw_nonce b = Inr n) \<and> bw_sign b = None"
      using once Cons.prems(3) by simp_all
    from Cons.IH [OF i(1) d(2) i(2)] show ?thesis unfolding same .
  qed
  have "(r # rs') ! k = Inr (delegation w addrs (k0 + k) ((b # bs) ! k))" if "k < Suc (length bs)" for k
    using that once rest by (cases k) simp_all
  with rest d(3) show ?case by simp
qed simp

text \<open>The delegation workload takes every account of its pool through delegate, re-delegate and
  clear. Over any run of turns whose nonces were answered and authorizations signed, turn \<open>k\<close> sends
  account \<open>k\<close> modulo their number one authorization of its own, under the nonce just read: to the
  large contract on that account's first visit, to the reader on its second, to the zero address
  on its third, and so on round.\<close>

theorem delegate_cycles:
  assumes "hw_authorities w = map new_authority addrs" "delegate_run bs w = Some rs"
    and "\<forall>b \<in> set bs. (\<exists>n. bw_nonce b = Inr n) \<and> bw_sign b = None" "k < length bs"
  shows "length rs = length bs \<and> rs ! k = Inr (delegation w addrs k (bs ! k))"
  using delegate_from [OF _ assms(2,3), of addrs 0] assms(1,4) pool_start [of addrs] by simp

definition demo_build :: shape_world where
  "demo_build = \<lparr>bw_fresh = Inr [], bw_keys = (\<lambda>_. []), bw_nonce = Inr 7, bw_sign = None, bw_gas = []\<rparr>"

theorem delegate_cycles_witness:
  "map_option (\<lambda>rs. rs ! 2) (delegate_run [demo_build, demo_build, demo_build] (fresh_world\<lparr>hw_authorities := [new_authority [4], new_authority [5]]\<rparr>)) =
     Some (Inr (new_shape\<lparr>sh_to := Some [4], sh_env := EnvSetCode, sh_auth := [\<lparr>az_of = [4], az_target = [1], az_nonce = 7\<rparr>]\<rparr>))"
proof -
  let ?w = "fresh_world\<lparr>hw_authorities := [new_authority [4], new_authority [5]]\<rparr>" and ?bs = "[demo_build, demo_build, demo_build]"
  obtain rs where r: "delegate_run ?bs ?w = Some rs"
    by (simp add: delegate_shape_def demo_build_def Let_def)
  have "hw_authorities ?w = map new_authority [[4], [5]]" by simp
  from delegate_cycles [OF this r, of 2] have "rs ! 2 = Inr (delegation ?w [[4], [5]] 2 demo_build)"
    by (simp add: demo_build_def)
  with r show ?thesis by (simp add: delegation_def demo_build_def fresh_world_def Let_def numeral_2_eq_2)
qed

section \<open>Prices over all clients\<close>

definition answered :: "(string + u64) list \<Rightarrow> u64 list" where
  "answered as = List.map_filter (\<lambda>x. case x of Inr g \<Rightarrow> Some g | Inl _ \<Rightarrow> None) as"

lemma answered_simps [simp]:
  "answered [] = []" "answered (Inl e # as) = answered as" "answered (Inr g # as) = g # answered as"
  by (simp_all add: answered_def map_filter_simps)

lemma note_gap_facts:
  "note_gap f g i len d = (d', lg) \<Longrightarrow>
    gg_seen d' = Suc (gg_seen d) \<and> gg_reported d' \<and> length lg = (if gg_reported d then 0 else 1)"
  by (auto simp: note_gap_def Let_def split: if_splits)

lemma Max_push: "finite S \<Longrightarrow> Max (insert x (insert y S)) = Max (insert (if x < y then y else x) S)" for x y :: "'a :: linorder"
  by (cases "S = {}") (auto simp: max_def)

text \<open>The tally after the answers of which \<open>unlike\<close> differ from the first.\<close>

definition tallied :: "u64 list \<Rightarrow> gas_gap \<Rightarrow> gas_gap \<Rightarrow> hammer_log list \<Rightarrow> bool" where
  "tallied unlike d d' lg \<longleftrightarrow> gg_seen d' = gg_seen d + length unlike \<and>
     length lg = (if gg_reported d \<or> unlike = [] then 0 else 1) \<and> gg_reported d' = (gg_reported d \<or> unlike \<noteq> [])"

lemma tallied_append: "tallied xs d d1 lg1 \<Longrightarrow> tallied ys d1 d2 lg2 \<Longrightarrow> tallied (xs @ ys) d d2 (lg1 @ lg2)"
  by (auto simp: tallied_def)

lemma estimate_some:
  assumes "estimate_from len i (Some f) best errs as d = (d', lg, r)"
  shows "r = Inr (Max (insert best (set (answered as)))) \<and> tallied (filter (\<lambda>g. g \<noteq> f) (answered as)) d d' lg"
  using assms
proof (induction as arbitrary: i best errs d d' lg r)
  case Nil
  then show ?case by (auto simp: tallied_def)
next
  case (Cons a as)
  show ?case
  proof (cases a)
    case (Inl e)
    with Cons.prems have "estimate_from len (i + 1) (Some f) best (errs @ [''client '' @ show_nat i @ '': '' @ e]) as d = (d', lg, r)"
      by (simp only: estimate_from.simps)
    from Cons.IH [OF this] show ?thesis by (simp only: Inl answered_simps)
  next
    case (Inr g)
    obtain d1 lg1 where n: "(if g \<noteq> f then note_gap f g i len d else (d, [])) = (d1, lg1)" by (metis prod.exhaust)
    obtain d2 lg2 r2 where e: "estimate_from len (i + 1) (Some f) (if best < g then g else best) errs as d1 = (d2, lg2, r2)"
      by (metis prod.exhaust)
    have o: "d' = d2" "lg = lg1 @ lg2" "r = r2" using Cons.prems n e by (auto simp: Inr split del: if_split)
    have t: "tallied (filter (\<lambda>g. g \<noteq> f) [g]) d d1 lg1"
      using n note_gap_facts [of f g i len d d1 lg1] by (auto simp: tallied_def split: if_splits)
    note ih = Cons.IH [OF e]
    have "filter (\<lambda>g. g \<noteq> f) (answered (a # as)) = filter (\<lambda>g. g \<noteq> f) [g] @ filter (\<lambda>g. g \<noteq> f) (answered as)"
      by (simp add: Inr)
    with tallied_append [OF t ih [THEN conjunct2]] have "tallied (filter (\<lambda>g. g \<noteq> f) (answered (a # as))) d d' lg" by (simp only: o)
    moreover have "Max (insert best (set (answered (a # as)))) = Max (insert (if best < g then g else best) (set (answered as)))"
      unfolding Inr answered_simps list.set by (rule Max_push) simp
    ultimately show ?thesis using ih by (simp only: o)
  qed
qed

lemma estimate_none:
  assumes "estimate_from len i None 0 errs as d = (d', lg, r)"
  shows "(case r of Inr g \<Rightarrow> answered as \<noteq> [] \<and> g = Max (set (answered as)) | Inl _ \<Rightarrow> answered as = []) \<and>
    tallied (filter (\<lambda>g. g \<noteq> answered as ! 0) (answered as)) d d' lg"
  using assms
proof (induction as arbitrary: i errs)
  case Nil
  then show ?case by (auto simp: tallied_def)
next
  case (Cons a as)
  show ?case
  proof (cases a)
    case (Inl e)
    with Cons.prems have "estimate_from len (i + 1) None 0 (errs @ [''client '' @ show_nat i @ '': '' @ e]) as d = (d', lg, r)"
      by (simp only: estimate_from.simps)
    from Cons.IH [OF this] show ?thesis by (simp only: Inl answered_simps)
  next
    case (Inr g)
    have "(if (0 :: u64) < g then g else 0) = g" by (simp add: word_gt_0)
    with Cons.prems have "estimate_from len (i + 1) (Some g) g errs as d = (d', lg, r)"
      by (auto simp: Inr split: prod.splits)
    from estimate_some [OF this] show ?thesis by (simp add: Inr)
  qed
qed

text \<open>A transaction is priced for every client: the gas before its margin is the largest estimate of
  those that answered, and there is none exactly when no client answered; each estimate other than
  the first is tallied, and the clients' disagreement is reported once, the first time.\<close>

theorem estimate_covers:
  "case estimate_everywhere len as d of
     (d', lg, r) \<Rightarrow>
       (case r of Inr g \<Rightarrow> answered as \<noteq> [] \<and> g = Max (set (answered as)) | Inl _ \<Rightarrow> answered as = []) \<and>
       (let unlike = filter (\<lambda>g. g \<noteq> answered as ! 0) (answered as)
        in gg_seen d' = gg_seen d + length unlike \<and> length lg = (if gg_reported d \<or> unlike = [] then 0 else 1) \<and>
           gg_reported d' = (gg_reported d \<or> unlike \<noteq> []))"
proof -
  obtain d' lg r where e: "estimate_everywhere len as d = (d', lg, r)" by (metis prod.exhaust)
  then have "estimate_from len 0 None 0 [] as d = (d', lg, r)" by (simp only: estimate_everywhere_def)
  from estimate_none [OF this] show ?thesis unfolding e prod.case tallied_def Let_def .
qed

section \<open>The audit\<close>

datatype audit_event = Sent workload string | Reported "string \<Rightarrow> bool option"

fun audit_run :: "audit_event list \<Rightarrow> audit \<Rightarrow> audit \<times> hammer_log list" where
  "audit_run [] a = (a, [])"
| "audit_run (Sent k h # es) a = audit_run es (watch_tx k h a)"
| "audit_run (Reported f # es) a =
     (case audit_report f a of (a', lg) \<Rightarrow> (case audit_run es a' of (a'', lg') \<Rightarrow> (a'', lg @ lg')))"

text \<open>Whether a state a report finds is one to be told of, for a workload.\<close>

definition only_reverts :: "workload \<Rightarrow> audit \<Rightarrow> bool" where
  "only_reverts k a \<longleftrightarrow> k \<noteq> Revert \<and> ad_mined a k = 0 \<and> 3 \<le> ad_revert a k"

definition revert_succeeded :: "workload \<Rightarrow> audit \<Rightarrow> bool" where
  "revert_succeeded k a \<longleftrightarrow> k = Revert \<and> 0 < ad_mined a k"

definition told_reverts :: "workload \<Rightarrow> hammer_log list \<Rightarrow> nat" where
  "told_reverts k lg = length (filter (\<lambda>l. case l of OnlyReverts k' _ \<Rightarrow> k' = k | _ \<Rightarrow> False) lg)"

definition told_success :: "workload \<Rightarrow> hammer_log list \<Rightarrow> nat" where
  "told_success k lg = length (filter (\<lambda>l. case l of RevertSucceeded k' _ \<Rightarrow> k' = k | _ \<Rightarrow> False) lg)"

lemma told_simps [simp]:
  "told_reverts k [] = 0" "told_success k [] = 0"
  "told_reverts k (xs @ ys) = told_reverts k xs + told_reverts k ys" "told_success k (xs @ ys) = told_success k xs + told_success k ys"
  "told_reverts k [OnlyReverts k' n] = (if k' = k then 1 else 0)" "told_reverts k [RevertSucceeded k' n] = 0"
  "told_success k [RevertSucceeded k' n] = (if k' = k then 1 else 0)" "told_success k [OnlyReverts k' n] = 0"
  by (simp_all add: told_reverts_def told_success_def)

definition audit_ok :: "audit \<Rightarrow> bool" where
  "audit_ok a \<longleftrightarrow> (\<forall>k. length (ad_pending a k) \<le> 8 \<and> (ad_seen a k = 0 \<longrightarrow> ad_pending a k = [] \<and> ad_mined a k = 0 \<and> ad_revert a k = 0))"

text \<open>What judging a workload leaves alone and what it tells.\<close>

definition judged :: "workload set \<Rightarrow> audit \<Rightarrow> audit \<Rightarrow> hammer_log list \<Rightarrow> bool" where
  "judged ks a a' lg \<longleftrightarrow>
     ad_pending a' = ad_pending a \<and> ad_mined a' = ad_mined a \<and> ad_revert a' = ad_revert a \<and> ad_seen a' = ad_seen a \<and> ad_every a' = ad_every a \<and>
     (\<forall>k. ad_rv_said a' k = (ad_rv_said a k \<or> k \<in> ks \<and> only_reverts k a) \<and>
          ad_ok_said a' k = (ad_ok_said a k \<or> k \<in> ks \<and> revert_succeeded k a) \<and>
          told_reverts k lg = (if k \<in> ks \<and> only_reverts k a \<and> \<not> ad_rv_said a k then 1 else 0) \<and>
          told_success k lg = (if k \<in> ks \<and> revert_succeeded k a \<and> \<not> ad_ok_said a k then 1 else 0))"

lemma judge_kind_judged: "judge_kind k a = (a', lg) \<Longrightarrow> judged {k} a a' lg"
  by (auto simp: judge_kind_def judged_def Let_def revert_is_expected_def only_reverts_def revert_succeeded_def split: if_splits)

lemma judged_union:
  assumes "judged K a a1 lg1" "judged L a1 a2 lg2" "K \<inter> L = {}"
  shows "judged (K \<union> L) a a2 (lg1 @ lg2)"
proof -
  have "only_reverts k a1 = only_reverts k a" "revert_succeeded k a1 = revert_succeeded k a" for k
    using assms(1) by (simp_all add: judged_def only_reverts_def revert_succeeded_def)
  with assms show ?thesis unfolding judged_def by (auto simp: disjoint_iff)
qed

lemma judge_kinds_judged: "judge_kinds ks a = (a', lg) \<Longrightarrow> distinct ks \<Longrightarrow> judged (set ks) a a' lg"
proof (induction ks arbitrary: a a' lg)
  case Nil
  then show ?case by (simp add: judged_def)
next
  case (Cons k ks)
  obtain a1 lg1 a2 lg2 where j: "judge_kind k a = (a1, lg1)" "judge_kinds ks a1 = (a2, lg2)" by (metis prod.exhaust)
  with Cons.prems have o: "a' = a2" "lg = lg1 @ lg2" by simp_all
  from Cons.prems have "distinct ks" "{k} \<inter> set ks = {}" by simp_all
  with judged_union [OF judge_kind_judged [OF j(1)] Cons.IH [OF j(2)]] show ?case by (simp add: o)
qed

lemma all_kinds: "k \<in> set all_workloads" "distinct all_workloads"
  by (cases k) (simp_all add: all_workloads_def)

lemma audit_kinds_set: "set (audit_kinds a) = {k. 0 < ad_seen a k}" "distinct (audit_kinds a)"
  using all_kinds by (auto simp: audit_kinds_def)

lemma watch_ok: "audit_ok a \<Longrightarrow> audit_ok (watch_tx k h a)"
  by (auto simp: audit_ok_def watch_tx_def Let_def)

lemma watch_said [simp]: "ad_rv_said (watch_tx k h a) = ad_rv_said a" "ad_ok_said (watch_tx k h a) = ad_ok_said a"
  by (simp_all add: watch_tx_def Let_def)

lemma collect_ok: "audit_ok a \<Longrightarrow> audit_ok (collect f a)"
  by (auto simp: audit_ok_def collect_def)

lemma collect_said [simp]: "ad_rv_said (collect f a) = ad_rv_said a" "ad_ok_said (collect f a) = ad_ok_said a"
  by (simp_all add: collect_def)

lemma report_judged:
  assumes "audit_ok a" "audit_report f a = (a', lg)"
  shows "judged UNIV (collect f a) a' lg \<and> audit_ok a'"
proof -
  let ?c = "collect f a"
  have ok: "audit_ok ?c" using assms(1) by (rule collect_ok)
  have j: "judged (set (audit_kinds ?c)) ?c a' lg"
    using assms(2) by (intro judge_kinds_judged [OF _ audit_kinds_set(2)]) (simp add: audit_report_def Let_def)
  have "k \<in> set (audit_kinds ?c)" if "only_reverts k ?c \<or> revert_succeeded k ?c" for k
    using that ok by (auto simp: audit_kinds_set only_reverts_def revert_succeeded_def audit_ok_def)
  then have "(k \<in> set (audit_kinds ?c) \<and> only_reverts k ?c) = only_reverts k ?c"
    "(k \<in> set (audit_kinds ?c) \<and> only_reverts k ?c \<and> X) = (only_reverts k ?c \<and> X)"
    "(k \<in> set (audit_kinds ?c) \<and> revert_succeeded k ?c) = revert_succeeded k ?c"
    "(k \<in> set (audit_kinds ?c) \<and> revert_succeeded k ?c \<and> X) = (revert_succeeded k ?c \<and> X)" for k X
    by blast+
  with j have "judged UNIV ?c a' lg" by (simp add: judged_def)
  with ok show ?thesis by (simp add: judged_def audit_ok_def)
qed

text \<open>Whether some report of a run finds a state of a kind.\<close>

fun met :: "(audit \<Rightarrow> bool) \<Rightarrow> audit_event list \<Rightarrow> audit \<Rightarrow> bool" where
  "met P [] a = False"
| "met P (Sent k h # es) a = met P es (watch_tx k h a)"
| "met P (Reported f # es) a = (P (collect f a) \<or> met P es (fst (audit_report f a)))"

lemma met_iff:
  "met P es a \<longleftrightarrow> (\<exists>es1 f es2. es = es1 @ Reported f # es2 \<and> P (collect f (fst (audit_run es1 a))))"
proof (induction es arbitrary: a)
  case (Cons e es)
  have split: "(\<exists>es1 f es2. e # es = es1 @ Reported f # es2 \<and> P (collect f (fst (audit_run es1 a)))) \<longleftrightarrow>
      (\<exists>f. e = Reported f \<and> P (collect f a)) \<or>
      (\<exists>es1 f es2. es = es1 @ Reported f # es2 \<and> P (collect f (fst (audit_run (e # es1) a))))"
  proof
    assume "\<exists>es1 f es2. e # es = es1 @ Reported f # es2 \<and> P (collect f (fst (audit_run es1 a)))"
    then obtain es1 f es2 where x: "e # es = es1 @ Reported f # es2" "P (collect f (fst (audit_run es1 a)))" by blast
    then show "(\<exists>f. e = Reported f \<and> P (collect f a)) \<or>
        (\<exists>es1 f es2. es = es1 @ Reported f # es2 \<and> P (collect f (fst (audit_run (e # es1) a))))"
      by (cases es1) auto
  next
    assume "(\<exists>f. e = Reported f \<and> P (collect f a)) \<or>
        (\<exists>es1 f es2. es = es1 @ Reported f # es2 \<and> P (collect f (fst (audit_run (e # es1) a))))"
    then show "\<exists>es1 f es2. e # es = es1 @ Reported f # es2 \<and> P (collect f (fst (audit_run es1 a)))"
    proof
      assume "\<exists>f. e = Reported f \<and> P (collect f a)"
      then obtain f where "e # es = [] @ Reported f # es" "P (collect f (fst (audit_run [] a)))" by auto
      then show ?thesis by blast
    next
      assume "\<exists>es1 f es2. es = es1 @ Reported f # es2 \<and> P (collect f (fst (audit_run (e # es1) a)))"
      then obtain es1 f es2 where "e # es = (e # es1) @ Reported f # es2" "P (collect f (fst (audit_run (e # es1) a)))" by auto
      then show ?thesis by blast
    qed
  qed
  show ?case
  proof (cases e)
    case (Sent k h)
    show ?thesis unfolding split using Cons.IH [of "watch_tx k h a"] by (simp add: Sent)
  next
    case (Reported f)
    have "fst (audit_run (Reported f # es1) a) = fst (audit_run es1 (fst (audit_report f a)))" for es1
      by (simp split: prod.splits)
    then show ?thesis unfolding split using Cons.IH [of "fst (audit_report f a)"] by (simp only: Reported met.simps) simp
  qed
qed simp

lemma audit_run_told:
  assumes "audit_ok a" "audit_run es a = (a', lg)"
  shows "audit_ok a' \<and> told_reverts k lg = (if met (only_reverts k) es a \<and> \<not> ad_rv_said a k then 1 else 0) \<and>
    told_success k lg = (if met (revert_succeeded k) es a \<and> \<not> ad_ok_said a k then 1 else 0)"
  using assms
proof (induction es arbitrary: a a' lg)
  case (Cons e es)
  show ?case
  proof (cases e)
    case (Sent k' h)
    with Cons.prems(2) have "audit_run es (watch_tx k' h a) = (a', lg)" by simp
    from Cons.IH [OF watch_ok [OF Cons.prems(1)] this] show ?thesis by (simp add: Sent)
  next
    case (Reported f)
    obtain a1 lg1 where r: "audit_report f a = (a1, lg1)" by (metis prod.exhaust)
    obtain a2 lg2 where m: "audit_run es a1 = (a2, lg2)" by (metis prod.exhaust)
    have o: "a' = a2" "lg = lg1 @ lg2" using Cons.prems(2) by (simp_all add: Reported r m)
    note j = report_judged [OF Cons.prems(1) r]
    note ih = Cons.IH [OF j [THEN conjunct2] m]
    have "told_reverts k lg1 = (if only_reverts k (collect f a) \<and> \<not> ad_rv_said a k then 1 else 0)"
      "ad_rv_said a1 k = (ad_rv_said a k \<or> only_reverts k (collect f a))"
      "told_success k lg1 = (if revert_succeeded k (collect f a) \<and> \<not> ad_ok_said a k then 1 else 0)"
      "ad_ok_said a1 k = (ad_ok_said a k \<or> revert_succeeded k (collect f a))"
      using j [THEN conjunct1] by (simp_all add: judged_def)
    with ih show ?thesis by (auto simp: o Reported r)
  qed
qed simp


end
