(* ===== verification/SwapRun.thy ===== *)
theory SwapRun
  imports VerifyOffline "HOL-Library.AList"
begin

text \<open>
  A run of the offline lap's driver around its gates and its queue (\<open>cmd/migration-swap\<close>:
  \<open>producers.go\<close>, \<open>kurtosis.go\<close>, \<open>main.go\<close>): the enclave's services and the schedule read from
  command outputs, the producers' two ways to an artifact, the lock that says an operation is
  under way, and the run that produces and then swaps. The answers of docker, kurtosis and the
  clients are arguments in the order the code asks for them.
\<close>

section \<open>The enclave\<close>

record snode =
  sn_el :: string
  sn_cl :: string

definition no_node :: snode where
  "no_node = \<lparr>sn_el = '''', sn_cl = ''''\<rparr>"

text \<open>\<open>strings.Fields\<close>.\<close>

definition go_fields :: "string \<Rightarrow> string list" where
  "go_fields s = filter (\<lambda>w. w \<noteq> '''') (split_on (CHR '' '') (map (\<lambda>c. if is_space c then CHR '' '' else c) s))"

definition lower_hex :: "char \<Rightarrow> bool" where
  "lower_hex c \<longleftrightarrow> is_digit c \<or> c \<in> set ''abcdef''"

definition service_row :: "string \<Rightarrow> bool" where
  "service_row w \<longleftrightarrow> length w = 12 \<and> (\<forall>c \<in> set w. lower_hex c)"

text \<open>\<open>^el-(\d+)-\<close> and its like: the index in a name that matches. \<open>Atoi\<close> answers the
  largest integer for a number out of range, and its error is dropped.\<close>

definition service_index :: "string \<Rightarrow> string \<Rightarrow> int option" where
  "service_index pre name =
     (let rest = drop (length pre) name; ds = takeWhile is_digit rest
      in if take (length pre) name = pre \<and> ds \<noteq> '''' \<and> take 1 (dropWhile is_digit rest) = ''-''
         then Some (atoi_value ds) else None)"

definition node_at :: "(int \<times> snode) list \<Rightarrow> int \<Rightarrow> snode" where
  "node_at nodes i = (case map_of nodes i of None \<Rightarrow> no_node | Some n \<Rightarrow> n)"

definition add_service :: "string \<Rightarrow> (int \<times> snode) list \<Rightarrow> (int \<times> snode) list" where
  "add_service name nodes =
     (case service_index ''el-'' name of
        Some i \<Rightarrow> AList.update i ((node_at nodes i)\<lparr>sn_el := name\<rparr>) nodes
      | None \<Rightarrow>
          (case service_index ''cl-'' name of
             Some i \<Rightarrow> AList.update i ((node_at nodes i)\<lparr>sn_cl := name\<rparr>) nodes
           | None \<Rightarrow> nodes))"

definition service_names :: "string \<Rightarrow> string list" where
  "service_names out =
     List.map_filter (\<lambda>line. case go_fields line of
        uuid # name # _ \<Rightarrow> if service_row uuid then Some name else None
      | _ \<Rightarrow> None) (split_on (CHR 10) out)"

text \<open>How a run is refused.\<close>

datatype swap_fatal =
    MissingFlags | ForkBeforeGenesis int int | BadFault string | BadOffline string | BadEvidence evidence_error
  | NoEnclave string string | NoElFor string int | LogsUnreadable string | BadSchedule dump_error | NoSchedule
  | NoUrl string string \<comment> \<open>whose, and why\<close>

text \<open>The first node, counted from 1 to their number, without an execution client.\<close>

definition resolve_nodes :: "string \<Rightarrow> string + string \<Rightarrow> swap_fatal + (int \<times> snode) list \<times> string list" where
  "resolve_nodes enc out =
     (case out of
        Inl e \<Rightarrow> Inl (NoEnclave enc e)
      | Inr text \<Rightarrow>
          let services = service_names text; nodes = fold add_service services []
          in case List.find (\<lambda>i. sn_el (node_at nodes i) = '''') [1..int (length nodes)] of
               Some i \<Rightarrow> Inl (NoElFor enc i)
             | None \<Rightarrow> Inr (nodes, services))"

text \<open>A published port: \<open>ask\<close> is what kurtosis prints.\<close>

definition port_once :: "(string \<Rightarrow> string + string) \<Rightarrow> string \<Rightarrow> string \<Rightarrow> string + string" where
  "port_once ask svc port =
     (case ask port of
        Inl e \<Rightarrow> Inl (''port '' @ port @ '' on '' @ svc @ '': '' @ e)
      | Inr out \<Rightarrow>
          if out = '''' then Inl (''port '' @ port @ '' on '' @ svc @ '': empty port'')
          else Inr (if take 4 out = ''http'' then out else ''http://'' @ out))"

definition port_url :: "(string \<Rightarrow> string + string) \<Rightarrow> string \<Rightarrow> string \<Rightarrow> string + string" where
  "port_url ask svc port =
     (case port_once ask svc port of
        Inr u \<Rightarrow> Inr u
      | Inl e \<Rightarrow> if port = ''rpc'' then port_once ask svc ''ws-rpc'' else Inl e)"

definition container_id :: "string \<Rightarrow> string + string \<Rightarrow> string + string" where
  "container_id svc out =
     (case out of
        Inl e \<Rightarrow> Inl e
      | Inr text \<Rightarrow> (case go_fields text of [] \<Rightarrow> Inl (''no container for service '' @ svc) | c # _ \<Rightarrow> Inr c))"

definition empty_dump :: dump where
  "empty_dump =
     \<lparr>du_profile = '''', du_genesis = 0, du_fork = 0, du_anchor = 0, du_slot_seconds = 0, du_ops = [], du_failsafes = [],
      du_quiet = 0\<rparr>"

text \<open>The schedule in the chaos driver's logs; \<open>decode\<close> is a line's event from its first brace on, if it
  is one: its kind and what its document decodes to.\<close>

fun find_schedule :: "(string \<Rightarrow> (string \<times> (string + dump)) option) \<Rightarrow> string list \<Rightarrow> swap_fatal + dump" where
  "find_schedule decode [] = Inl NoSchedule"
| "find_schedule decode (line # ls) =
     (let rest = dropWhile (\<lambda>c. c \<noteq> CHR 0x7B) line
      in if rest = '''' then find_schedule decode ls
         else case decode rest of
           None \<Rightarrow> find_schedule decode ls
         | Some (kind, raw) \<Rightarrow>
             if kind = ''schedule'' then (case parse_dump raw of Inl e \<Rightarrow> Inl (BadSchedule e) | Inr d \<Rightarrow> Inr d)
             else find_schedule decode ls)"

definition load_schedule ::
  "string list \<Rightarrow> (string \<Rightarrow> (string \<times> (string + dump)) option) \<Rightarrow> string + string \<Rightarrow> swap_fatal + dump"
where
  "load_schedule services decode logs =
     (if ''migration-chaos'' \<notin> set services then Inr empty_dump
      else case logs of
        Inl e \<Rightarrow> Inl (LogsUnreadable e)
      | Inr out \<Rightarrow> find_schedule decode (split_on (CHR 10) out))"

section \<open>The producers\<close>

record erigon_meta =
  xm_block :: u64
  xm_hash :: string
  xm_state_root :: string
  xm_pbt_root :: string

definition parse_meta :: "string + erigon_meta \<Rightarrow> string \<Rightarrow> string + erigon_meta" where
  "parse_meta decoded raw =
     (case decoded of
        Inl e \<Rightarrow> Inl (''pbt-snapshot.meta.json: '' @ e)
      | Inr m \<Rightarrow>
          if xm_block m = 0 \<or> xm_hash m = '''' \<or> xm_pbt_root m = '''' then
            Inl (''pbt-snapshot.meta.json lacks block, blockHash or pbtRoot: '' @ raw)
          else Inr m)"

definition failed_producer :: "producer_record \<Rightarrow> detail \<Rightarrow> producer_record \<times> post list" where
  "failed_producer p d =
     (p\<lparr>pr_status := ''failed'', pr_detail := d\<rparr>, [(pr_node p, StepExportFailed, 0, '''', d)])"

text \<open>The first check of a list that failed, with what holds at that point.\<close>

fun first_failed :: "('d option \<times> 'a) list \<Rightarrow> ('d \<times> 'a) option" where
  "first_failed [] = None"
| "first_failed ((Some d, x) # cs) = Some (d, x)"
| "first_failed ((None, x) # cs) = first_failed cs"

text \<open>What a conversion finds, in its order.\<close>

record convert_world =
  gw_started_at :: int
  gw_stop_cl :: "string option"
  gw_down_from :: int
  gw_head :: "string + header option"
  gw_stop_el :: "string option"
  gw_container :: "string + string"
  gw_create :: "string option"
  gw_stream :: "string option"
  gw_start_el :: "string option"
  gw_start_cl :: "string option"
  gw_down_to :: int
  gw_log :: string
  gw_convert :: "string option"
  gw_copy_snapshot :: "string option"
  gw_copy_preimages :: "string option"
  gw_path :: string
  gw_snapshot :: "string + string"
  gw_exported_at :: int

definition frozen_head :: "convert_world \<Rightarrow> header option" where
  "frozen_head w = (case gw_head w of Inr h \<Rightarrow> h | Inl _ \<Rightarrow> None)"

definition head_error :: "convert_world \<Rightarrow> detail option" where
  "head_error w =
     (case gw_head w of
        Inl e \<Rightarrow> Some (Fmt ''reading frozen head: %v'' [DS e])
      | Inr None \<Rightarrow> Some (lit ''reading frozen head: <nil>'')
      | Inr (Some _) \<Rightarrow> None)"

fun convert_error_text :: "convert_error \<Rightarrow> string" where
  "convert_error_text NoStartLine = ''convert log has no conversion start line''"
| "convert_error_text (BadBlock s) =
     (let t = filter (\<lambda>c. c \<noteq> CHR '','') s
      in ''strconv.ParseUint: parsing '' @ CHR 0x22 # t @ CHR 0x22 #
           (if t = '''' then '': invalid syntax'' else '': value out of range''))"
| "convert_error_text NoCompletion = ''convert log has no completion line''"

fun snap_error_detail :: "string \<Rightarrow> snap_error \<Rightarrow> detail" where
  "snap_error_detail path (SnapIo e) = lit e"
| "snap_error_detail path (TooShort n) = Fmt ''%s: %d bytes, too short for the end tag and pbtRoot'' [DS path, DI (int n)]"
| "snap_error_detail path (WrongTag c) =
     Fmt ''%s: byte %#x before the trailer, want the end tag %#x'' [DS path, DI (of_char c), DI 7]"

definition left_error :: "string + 'a \<Rightarrow> detail option" where
  "left_error r = (case r of Inl e \<Rightarrow> Some (lit e) | Inr _ \<Rightarrow> None)"

definition block_error :: "convert_world \<Rightarrow> detail option" where
  "block_error w =
     (case (convert_log (gw_log w), frozen_head w) of
        (Inr (block, _), Some h) \<Rightarrow>
          if block \<noteq> h_number h then
            Some (Fmt ''convert log anchor block=%d, frozen head was %d'' [DI (uint block), DI (uint (h_number h))])
          else None
      | _ \<Rightarrow> None)"

definition root_error :: "(string \<Rightarrow> hash_text) \<Rightarrow> convert_world \<Rightarrow> detail option" where
  "root_error to_hash w =
     (case (convert_log (gw_log w), snapshot_root to_hash (gw_snapshot w)) of
        (Inr (_, said), Inr r) \<Rightarrow>
          if \<not> logged_matches said r then
            Some (Fmt ''convert log binaryRoot=%s, snapshot trailer pbtRoot=%s'' [DS said, DS (ht_hex r)])
          else None
      | _ \<Rightarrow> None)"

text \<open>The conversion's checks in order, each with whether the execution client and the consensus client
  are up when it fails, as far as the last command of each that succeeded says.\<close>

definition convert_checks :: "(string \<Rightarrow> hash_text) \<Rightarrow> convert_world \<Rightarrow> (detail option \<times> bool \<times> bool) list" where
  "convert_checks to_hash w =
     [(map_option (\<lambda>e. Fmt ''stopping CL: %v'' [DS e]) (gw_stop_cl w), True, True),
      (head_error w, True, False),
      (map_option (\<lambda>e. Fmt ''stopping EL: %v'' [DS e]) (gw_stop_el w), True, False),
      (left_error (gw_container w), False, False),
      (map_option (\<lambda>e. Fmt ''creating converter: %v'' [DS e]) (gw_create w), False, False),
      (map_option lit (gw_stream w), False, False),
      (map_option (\<lambda>e. Fmt ''starting EL: %v'' [DS e]) (gw_start_el w), False, False),
      (map_option (\<lambda>e. Fmt ''starting CL: %v'' [DS e]) (gw_start_cl w), True, False),
      (map_option (\<lambda>e. Fmt ''converter: %v'' [DS e]) (gw_convert w), True, True),
      (case convert_log (gw_log w) of Inl e \<Rightarrow> Some (lit (convert_error_text e)) | Inr _ \<Rightarrow> None, True, True),
      (map_option lit (gw_copy_snapshot w), True, True),
      (map_option lit (gw_copy_preimages w), True, True),
      (block_error w, True, True),
      (case snapshot_root to_hash (gw_snapshot w) of Inl e \<Rightarrow> Some (snap_error_detail (gw_path w) e) | Inr _ \<Rightarrow> None, True, True),
      (root_error to_hash w, True, True)]"

text \<open>The record after it, what the monitor was told, and which of the node's clients are up.\<close>

definition geth_convert ::
  "(string \<Rightarrow> hash_text) \<Rightarrow> producer_record \<Rightarrow> convert_world \<Rightarrow> producer_record \<times> post list \<times> bool \<times> bool"
where
  "geth_convert to_hash p0 w =
     (let p = p0\<lparr>pr_started_at := gw_started_at w\<rparr>;
          begun = [(pr_node p, StepExporting, 0, '''', no_detail)]
      in case first_failed (convert_checks to_hash w) of
           Some (d, up) \<Rightarrow> (case failed_producer p d of (p', ps) \<Rightarrow> (p', begun @ ps, up))
         | None \<Rightarrow>
             (case (frozen_head w, snapshot_root to_hash (gw_snapshot w)) of
                (Some h, Inr r) \<Rightarrow>
                  (p\<lparr>pr_status := ''ok'', pr_detail := no_detail, pr_anchor := h_number h, pr_anchor_hash := h_hash h,
                     pr_anchor_state_root := h_root h, pr_pbt_root := ht_hex r, pr_down_from := gw_down_from w,
                     pr_down_to := gw_down_to w, pr_exported_at := gw_exported_at w\<rparr>,
                   begun @ [(pr_node p, StepExported, h_number h, h_hash h, no_detail)], True, True)
              | _ \<Rightarrow> (p, begun, True, True)))"

record export_world =
  xw_started_at :: int
  xw_container :: "string + string"
  xw_tries :: "(string \<times> string option) list"
  xw_meta :: "string + string"
  xw_decoded :: "string + erigon_meta"
  xw_copies :: "string option list"
  xw_exported_at :: int

text \<open>Up to three tries; the error of the last one made.\<close>

fun export_tries :: "nat \<Rightarrow> (string \<times> string option) list \<Rightarrow> string option" where
  "export_tries (Suc (Suc n)) ((out, Some e) # ts) = export_tries (Suc n) ts"
| "export_tries (Suc 0) ((out, r) # ts) = r"
| "export_tries (Suc (Suc n)) ((out, None) # ts) = None"
| "export_tries _ _ = None"

definition artifact_names :: "string list" where
  "artifact_names = [''pbt-snapshot.bin'', ''framed.bin'', ''pbt-snapshot.meta.json'']"

definition export_meta :: "export_world \<Rightarrow> string + erigon_meta" where
  "export_meta w = (case xw_meta w of Inl e \<Rightarrow> Inl e | Inr raw \<Rightarrow> parse_meta (xw_decoded w) raw)"

definition export_checks :: "export_world \<Rightarrow> (detail option \<times> unit) list" where
  "export_checks w =
     (left_error (xw_container w), ()) #
     (map_option (\<lambda>e. Fmt ''snapshots export-pbt: %v'' [DS e]) (export_tries 3 (xw_tries w)), ()) #
     (left_error (export_meta w), ()) #
     map (\<lambda>(name, r). (map_option (\<lambda>e. Fmt ''copying %s: %v'' [DS name, DS e]) r, ())) (zip artifact_names (xw_copies w))"

definition erigon_export :: "producer_record \<Rightarrow> export_world \<Rightarrow> producer_record \<times> post list" where
  "erigon_export p0 w =
     (let p = p0\<lparr>pr_started_at := xw_started_at w\<rparr>;
          begun = [(pr_node p, StepExporting, 0, '''', no_detail)]
      in case first_failed (export_checks w) of
           Some (d, _) \<Rightarrow> (case failed_producer p d of (p', ps) \<Rightarrow> (p', begun @ ps))
         | None \<Rightarrow>
             (case export_meta w of
                Inr m \<Rightarrow>
                  (p\<lparr>pr_status := ''ok'', pr_detail := no_detail, pr_anchor := xm_block m, pr_anchor_hash := xm_hash m,
                     pr_anchor_state_root := xm_state_root m, pr_pbt_root := xm_pbt_root m,
                     pr_exported_at := xw_exported_at w\<rparr>,
                   begun @ [(pr_node p, StepExported, xm_block m, xm_hash m, no_detail)])
              | Inl _ \<Rightarrow> (p, begun)))"

section \<open>The lock\<close>

text \<open>\<open>swap.lock\<close>: how many operations are under way, and whether the file is there. Writing and
  removing it are taken to succeed, their errors being dropped.\<close>

record op_lock =
  ol_n :: int
  ol_file :: bool

definition lock_begin :: "op_lock \<Rightarrow> op_lock" where
  "lock_begin l = (let n = ol_n l + 1 in \<lparr>ol_n = n, ol_file = (ol_file l \<or> n = 1)\<rparr>)"

definition lock_end :: "op_lock \<Rightarrow> op_lock" where
  "lock_end l = (let n = ol_n l - 1 in \<lparr>ol_n = n, ol_file = (ol_file l \<and> n \<noteq> 0)\<rparr>)"

text \<open>Operations that begin and end in any order, each once.\<close>

inductive lock_step :: "op_lock \<times> int set \<Rightarrow> op_lock \<times> int set \<Rightarrow> bool" where
  begins: "op \<notin> A \<Longrightarrow> lock_step (l, A) (lock_begin l, insert op A)"
| ends: "op \<in> A \<Longrightarrow> lock_step (l, A) (lock_end l, A - {op})"

inductive_cases lock_stepE: "lock_step s t"

section \<open>The run\<close>

text \<open>The validating execution clients that do not answer \<open>eth_blockNumber\<close>, and with them the
  consensus clients that are not healthy.\<close>

definition unhealthy_els :: "(int \<times> snode) list \<Rightarrow> int \<Rightarrow> (int \<Rightarrow> bool) \<Rightarrow> int \<Rightarrow> string list" where
  "unhealthy_els nodes validating answers exclude =
     map (\<lambda>i. sn_el (node_at nodes i)) (filter (\<lambda>i. i \<noteq> exclude \<and> \<not> answers i) [1..validating])"

definition unhealthy_others ::
  "(int \<times> snode) list \<Rightarrow> int \<Rightarrow> (int \<times> string) list \<Rightarrow> (int \<Rightarrow> bool) \<Rightarrow> (string \<Rightarrow> bool) \<Rightarrow> int \<Rightarrow> string list"
where
  "unhealthy_others nodes validating cl_urls answers healthy exclude =
     unhealthy_els nodes validating answers exclude @
     map (\<lambda>i. sn_cl (node_at nodes i))
       (filter (\<lambda>i. i \<noteq> exclude \<and> (case map_of cl_urls i of None \<Rightarrow> False | Some u \<Rightarrow> \<not> healthy u)) [1..validating])"

definition el_shadow_roots ::
  "(int \<times> snode) list \<Rightarrow> int \<Rightarrow> (int \<Rightarrow> string \<Rightarrow> string + string) \<Rightarrow> string \<Rightarrow> (string \<times> string) list"
where
  "el_shadow_roots nodes participants ask hash =
     map (\<lambda>i. (sn_el (node_at nodes i), case ask i hash of Inl _ \<Rightarrow> '''' | Inr r \<Rightarrow> r)) [1..participants]"

text \<open>The partitions held: -1 when the enclave has a disruptoor that cannot be read.\<close>

definition partition_count :: "(string + int) option \<Rightarrow> int" where
  "partition_count disrupt = (case disrupt of None \<Rightarrow> 0 | Some (Inl _) \<Rightarrow> -1 | Some (Inr n) \<Rightarrow> n)"

definition produce ::
  "(string \<Rightarrow> hash_text) \<Rightarrow> string \<Rightarrow> convert_world \<times> export_world \<Rightarrow> producer_record \<Rightarrow> producer_record \<times> post list"
where
  "produce to_hash kind w p =
     (if kind = ''geth-convert'' then (case geth_convert to_hash p (fst w) of (p', ps, _) \<Rightarrow> (p', ps))
      else if kind = ''erigon-export'' then erigon_export p (snd w)
      else (p, []))"

fun set_producer :: "producer_record list \<Rightarrow> int \<Rightarrow> producer_record \<Rightarrow> producer_record list" where
  "set_producer [] n p' = []"
| "set_producer (p # ps) n p' = (if pr_node p = n then p' # ps else p # set_producer ps n p')"

text \<open>Each producer of the plan on its record. The two run side by side, each on a record of its
  own: what they tell the monitor is kept apart, in each one's order.\<close>

fun each_producer ::
  "(offline_producer \<Rightarrow> 'w \<Rightarrow> producer_record \<Rightarrow> producer_record \<times> post list) \<Rightarrow> (offline_producer \<times> 'w) list \<Rightarrow>
     producer_record list \<Rightarrow> producer_record list \<times> (int \<times> post list) list"
where
  "each_producer f [] prs = (prs, [])"
| "each_producer f ((p, w) # ps) prs =
     (case List.find (\<lambda>q. pr_node q = op_node p) prs of
        None \<Rightarrow> each_producer f ps prs
      | Some q \<Rightarrow>
          (case f p w q of (q', posts) \<Rightarrow>
             (case each_producer f ps (set_producer prs (op_node p) q') of (prs', rest) \<Rightarrow>
                (prs', (op_node p, posts) # rest))))"

definition no_export :: detail where
  "no_export = lit ''fork reached before export conditions were met''"

definition add_shadows :: "(string \<Rightarrow> (string \<times> string) list) \<Rightarrow> producer_record \<Rightarrow> producer_record" where
  "add_shadows shadows p = (if pr_status p = ''ok'' then p\<lparr>pr_shadow_roots := shadows (pr_anchor_hash p)\<rparr> else p)"

definition run_producers ::
  "(string \<Rightarrow> hash_text) \<Rightarrow> int \<Rightarrow> int \<Rightarrow> dump \<Rightarrow> (int \<times> int \<times> string list) list \<Rightarrow>
     (offline_producer \<times> convert_world \<times> export_world) list \<Rightarrow> (string \<Rightarrow> (string \<times> string) list) \<Rightarrow>
     producer_record list \<Rightarrow> (producer_record list \<times> (int \<times> post list) list) option"
where
  "run_producers to_hash fork not_before d polls plan shadows prs =
     (case wait_export_gate fork not_before d polls of
        None \<Rightarrow> None
      | Some False \<Rightarrow> Some (each_producer (\<lambda>p w q. failed_producer q no_export) plan prs)
      | Some True \<Rightarrow>
          (case each_producer (\<lambda>p w q. produce to_hash (op_kind p) w q) plan prs of (prs', posts) \<Rightarrow>
             Some (map (add_shadows shadows) prs', posts)))"

text \<open>What a run meets: the polls of the export gate, each producer's world, the shadow roots, and
  the polls and the world of each swap.\<close>

record lap_world =
  lw_export :: "(int \<times> int \<times> string list) list"
  lw_producers :: "(convert_world \<times> export_world) list"
  lw_shadow :: "int \<Rightarrow> string \<Rightarrow> string + string"
  lw_swaps :: "(gate_poll list \<times> body_env) list"

definition swap_run ::
  "(string \<Rightarrow> hash_text) \<Rightarrow> offline \<Rightarrow> (int \<times> snode) list \<Rightarrow> dump \<Rightarrow> int \<Rightarrow> int \<Rightarrow> evidence \<Rightarrow> lap_world \<Rightarrow>
     ((int \<times> post list) list \<times> queue_result) option"
where
  "swap_run to_hash cfg nodes d genesis fork ev w =
     (case run_producers to_hash fork (wrap64 (genesis + of_export_after cfg)) d (lw_export w)
             (zip (of_producers cfg) (lw_producers w)) (el_shadow_roots nodes (int (length nodes)) (lw_shadow w))
             (ev_producers ev) of
        None \<Rightarrow> None
      | Some (prs, posts) \<Rightarrow>
          Some (posts, run_swaps fork (of_margin cfg) d (ev\<lparr>ev_producers := prs\<rparr>) 0 False
                         (zip (of_consumers cfg) (lw_swaps w))))"

section \<open>How it is started\<close>

definition swap_config :: "string + offline \<Rightarrow> string + offline" where
  "swap_config decoded =
     (case decoded of
        Inl e \<Rightarrow> Inl (''parsing: '' @ e)
      | Inr cfg \<Rightarrow>
          if \<not> of_enabled cfg then Inl ''enabled is false''
          else if of_producers cfg = [] \<or> of_consumers cfg = [] then Inl ''no producers or consumers''
          else Inr cfg)"

record swap_flags =
  sf_enclave :: string
  sf_genesis :: int
  sf_fork :: int
  sf_offline :: string
  sf_out :: string
  sf_fault :: string

record swap_setup =
  st_cfg :: offline
  st_ev :: evidence
  st_nodes :: "(int \<times> snode) list"
  st_services :: "string list"
  st_dump :: dump
  st_validating :: int

definition validators :: "offline \<Rightarrow> (int \<times> snode) list \<Rightarrow> int" where
  "validators cfg nodes =
     (if of_validating cfg = 0 \<or> int (length nodes) < of_validating cfg then int (length nodes) else of_validating cfg)"

text \<open>\<open>main\<close> up to the plan: \<open>decoded\<close> is the plan's document, \<open>inspect\<close> and \<open>logs\<close> what kurtosis
  prints.\<close>

definition swap_main ::
  "swap_flags \<Rightarrow> string + offline \<Rightarrow> string + string \<Rightarrow> (string \<Rightarrow> (string \<times> (string + dump)) option) \<Rightarrow>
     string + string \<Rightarrow> swap_fatal + swap_setup"
where
  "swap_main fg decoded inspect decode logs =
     (if sf_enclave fg = '''' \<or> sf_genesis fg = 0 \<or> sf_fork fg = 0 \<or> sf_offline fg = '''' \<or> sf_out fg = '''' then
        Inl MissingFlags
      else if sf_fork fg \<le> sf_genesis fg then Inl (ForkBeforeGenesis (sf_fork fg) (sf_genesis fg))
      else if sf_fault fg \<noteq> '''' \<and> sf_fault fg \<noteq> ''corrupt-preimages'' then Inl (BadFault (sf_fault fg))
      else case swap_config decoded of
        Inl e \<Rightarrow> Inl (BadOffline e)
      | Inr cfg \<Rightarrow>
          (case new_evidence cfg of
             Inl e \<Rightarrow> Inl (BadEvidence e)
           | Inr ev \<Rightarrow>
               (case resolve_nodes (sf_enclave fg) inspect of
                  Inl e \<Rightarrow> Inl e
                | Inr (nodes, services) \<Rightarrow>
                    (case load_schedule services decode logs of
                       Inl e \<Rightarrow> Inl e
                     | Inr d \<Rightarrow>
                         Inr \<lparr>st_cfg = cfg, st_ev = ev, st_nodes = nodes, st_services = services, st_dump = d,
                              st_validating = validators cfg nodes\<rparr>))))"

text \<open>\<open>init\<close>: the monitor, disruptoor where there is one, every execution client, and the validators'
  consensus clients. \<open>ask svc port\<close> is what kurtosis prints.\<close>

record swap_urls =
  su_monitor :: string
  su_disruptoor :: "string option"
  su_el :: "(int \<times> string) list"
  su_cl :: "(int \<times> string) list"

fun resolve_urls ::
  "(string \<Rightarrow> string \<Rightarrow> string + string) \<Rightarrow> string \<Rightarrow> (int \<times> string) list \<Rightarrow> swap_fatal + (int \<times> string) list"
where
  "resolve_urls ask port [] = Inr []"
| "resolve_urls ask port ((i, svc) # rest) =
     (case port_url (ask svc) svc port of
        Inl e \<Rightarrow> Inl (NoUrl svc e)
      | Inr u \<Rightarrow> (case resolve_urls ask port rest of Inl e \<Rightarrow> Inl e | Inr us \<Rightarrow> Inr ((i, u) # us)))"

definition swap_init :: "(string \<Rightarrow> string \<Rightarrow> string + string) \<Rightarrow> swap_setup \<Rightarrow> swap_fatal + swap_urls" where
  "swap_init ask s =
     (case port_url (ask ''migration-monitor'') ''migration-monitor'' ''http'' of
        Inl e \<Rightarrow> Inl (NoUrl ''monitor'' e)
      | Inr monitor \<Rightarrow>
          (case (if ''disruptoor'' \<in> set (st_services s)
                 then (case port_url (ask ''disruptoor'') ''disruptoor'' ''http'' of
                         Inl e \<Rightarrow> Inl (NoUrl ''disruptoor'' e) | Inr u \<Rightarrow> Inr (Some u))
                 else Inr None) of
             Inl e \<Rightarrow> Inl e
           | Inr disrupt \<Rightarrow>
               (case resolve_urls ask ''rpc'' (map (\<lambda>i. (i, sn_el (node_at (st_nodes s) i))) [1..int (length (st_nodes s))]) of
                  Inl e \<Rightarrow> Inl e
                | Inr els \<Rightarrow>
                    (case resolve_urls ask ''http''
                            (filter (\<lambda>(i, svc). svc \<noteq> '''')
                               (map (\<lambda>i. (i, sn_cl (node_at (st_nodes s) i))) [1..st_validating s])) of
                       Inl e \<Rightarrow> Inl e
                     | Inr cls \<Rightarrow> Inr \<lparr>su_monitor = monitor, su_disruptoor = disrupt, su_el = els, su_cl = cls\<rparr>))))"

text \<open>What \<open>--plan\<close> prints.\<close>

definition plan_lines :: "offline \<Rightarrow> (int \<times> snode) list \<Rightarrow> dump \<Rightarrow> int \<Rightarrow> int \<Rightarrow> detail list" where
  "plan_lines cfg nodes d genesis fork =
     [Fmt ''genesis=%d fork=%d export not before=%d (T+%ds)''
        [DI genesis, DI fork, DI (wrap64 (genesis + of_export_after cfg)), DI (of_export_after cfg)],
      Fmt ''chaos-free gaps before the fork: %d'' [DI (int (length (gaps d (tunix genesis) (tunix fork))))]] @
     map (\<lambda>p. Fmt ''  producer node=%d kind=%s el=%s consumers=%v''
        [DI (op_node p), DS (op_kind p), DS (sn_el (node_at nodes (op_node p))), DL (map show_int (op_consumers p))])
       (of_producers cfg) @
     map (\<lambda>c. Fmt ''  swap node=%d el=%s expected=%ds timeout=%ds deadline: now+%ds+%ds<=fork(%d)''
        [DI (oc_node c), DS (sn_el (node_at nodes (oc_node c))), DI (oc_expected c), DI (oc_timeout c),
         DI (oc_expected c), DI (of_margin cfg), DI fork])
       (of_consumers cfg)"

section \<open>What a conversion vouches for\<close>

lemma first_failed_None: "first_failed cs = None \<longleftrightarrow> (\<forall>c \<in> set cs. fst c = None)"
  by (induction cs rule: first_failed.induct) auto

lemma first_failed_mem: "first_failed cs = Some (d, x) \<Longrightarrow> (Some d, x) \<in> set cs"
  by (induction cs rule: first_failed.induct) auto

text \<open>Every answer of a conversion that it takes for good.\<close>

definition converted :: "(string \<Rightarrow> hash_text) \<Rightarrow> convert_world \<Rightarrow> header \<Rightarrow> hash_text \<Rightarrow> bool" where
  "converted to_hash w h r \<longleftrightarrow>
     gw_head w = Inr (Some h) \<and> snapshot_root to_hash (gw_snapshot w) = Inr r \<and>
     (\<exists>said. convert_log (gw_log w) = Inr (h_number h, said) \<and> logged_matches said r) \<and>
     (\<exists>cid. gw_container w = Inr cid) \<and>
     gw_stop_cl w = None \<and> gw_stop_el w = None \<and> gw_create w = None \<and> gw_stream w = None \<and> gw_start_el w = None \<and>
     gw_start_cl w = None \<and> gw_convert w = None \<and> gw_copy_snapshot w = None \<and> gw_copy_preimages w = None"

lemma convert_errors:
  "head_error w = None \<longleftrightarrow> (\<exists>h. gw_head w = Inr (Some h))"
  "left_error x = None \<longleftrightarrow> (\<exists>y. x = Inr y)"
  by (auto simp: head_error_def left_error_def split: sum.splits option.splits)

lemma block_error_None:
  assumes "gw_head w = Inr (Some h)" "convert_log (gw_log w) = Inr (b, said)"
  shows "block_error w = None \<longleftrightarrow> b = h_number h"
  using assms by (simp add: block_error_def frozen_head_def)

lemma root_error_None:
  assumes "convert_log (gw_log w) = Inr (b, said)" "snapshot_root to_hash (gw_snapshot w) = Inr r"
  shows "root_error to_hash w = None \<longleftrightarrow> logged_matches said r"
  using assms by (simp add: root_error_def)

lemma convert_checks_pass:
  "first_failed (convert_checks to_hash w) = None \<longleftrightarrow> (\<exists>h r. converted to_hash w h r)"
proof -
  have log: "(case convert_log (gw_log w) of Inl e \<Rightarrow> Some (lit (convert_error_text e)) | Inr _ \<Rightarrow> None) = None \<longleftrightarrow>
      (\<exists>b said. convert_log (gw_log w) = Inr (b, said))"
    by (cases "convert_log (gw_log w)") auto
  have snap: "(case snapshot_root to_hash (gw_snapshot w) of Inl e \<Rightarrow> Some (snap_error_detail (gw_path w) e) | Inr _ \<Rightarrow> None) = None \<longleftrightarrow>
      (\<exists>r. snapshot_root to_hash (gw_snapshot w) = Inr r)"
    by (cases "snapshot_root to_hash (gw_snapshot w)") auto
  have "first_failed (convert_checks to_hash w) = None \<longleftrightarrow>
      gw_stop_cl w = None \<and> head_error w = None \<and> gw_stop_el w = None \<and> left_error (gw_container w) = None \<and>
      gw_create w = None \<and> gw_stream w = None \<and> gw_start_el w = None \<and> gw_start_cl w = None \<and> gw_convert w = None \<and>
      (\<exists>b said. convert_log (gw_log w) = Inr (b, said)) \<and> gw_copy_snapshot w = None \<and> gw_copy_preimages w = None \<and>
      block_error w = None \<and> (\<exists>r. snapshot_root to_hash (gw_snapshot w) = Inr r) \<and> root_error to_hash w = None"
    unfolding first_failed_None convert_checks_def log [symmetric] snap [symmetric] by simp
  also have "\<dots> \<longleftrightarrow> (\<exists>h r. converted to_hash w h r)"
    unfolding convert_errors converted_def
    by (auto simp: block_error_None root_error_None)
  finally show ?thesis .
qed

text \<open>A conversion is recorded as good exactly when every command succeeded, the log names the block
  the client was frozen at and the root it logged is the root in the snapshot's trailer. The
  record then holds that block, that root and the downtime, the monitor hears of the block, and
  both clients are up; otherwise the record says failed and keeps its downtime as it was.\<close>

theorem geth_convert_exact:
  "case geth_convert to_hash p w of (p', posts, el, cl) \<Rightarrow>
     (pr_status p' = ''ok'' \<longleftrightarrow> (\<exists>h r. converted to_hash w h r)) \<and>
     (\<forall>h r. converted to_hash w h r \<longrightarrow>
        pr_anchor p' = h_number h \<and> pr_anchor_hash p' = h_hash h \<and> pr_anchor_state_root p' = h_root h \<and>
        pr_pbt_root p' = ht_hex r \<and> pr_down_from p' = gw_down_from w \<and> pr_down_to p' = gw_down_to w \<and> el \<and> cl \<and>
        map step_of posts = [StepExporting, StepExported]) \<and>
     (pr_status p' \<noteq> ''ok'' \<longrightarrow>
        pr_status p' = ''failed'' \<and> pr_down_from p' = pr_down_from p \<and> pr_down_to p' = pr_down_to p \<and>
        map step_of posts = [StepExporting, StepExportFailed])"
proof (cases "first_failed (convert_checks to_hash w)")
  case None
  then obtain h r where c: "converted to_hash w h r" using convert_checks_pass by blast
  have u: "h' = h \<and> r' = r" if "converted to_hash w h' r'" for h' r' using that c by (simp add: converted_def)
  have f: "frozen_head w = Some h" "snapshot_root to_hash (gw_snapshot w) = Inr r"
    using c by (simp_all add: converted_def frozen_head_def)
  let ?p = "p\<lparr>pr_started_at := gw_started_at w, pr_status := ''ok'', pr_detail := no_detail, pr_anchor := h_number h,
     pr_anchor_hash := h_hash h, pr_anchor_state_root := h_root h, pr_pbt_root := ht_hex r,
     pr_down_from := gw_down_from w, pr_down_to := gw_down_to w, pr_exported_at := gw_exported_at w\<rparr>"
  have e: "geth_convert to_hash p w = (?p, [(pr_node p, StepExporting, 0, '''', no_detail),
      (pr_node p, StepExported, h_number h, h_hash h, no_detail)], True, True)"
    by (simp add: geth_convert_def None f Let_def)
  have ok: "pr_status ?p = ''ok''" by simp
  show ?thesis unfolding e prod.case
  proof (intro conjI)
    show "(pr_status ?p = ''ok'') = (\<exists>h r. converted to_hash w h r)" using c ok by blast
    show "pr_status ?p \<noteq> ''ok'' \<longrightarrow> pr_status ?p = ''failed'' \<and> pr_down_from ?p = pr_down_from p \<and> pr_down_to ?p = pr_down_to p \<and>
        map step_of [(pr_node p, StepExporting, 0, '''', no_detail), (pr_node p, StepExported, h_number h, h_hash h, no_detail)] =
          [StepExporting, StepExportFailed]" using ok by blast
  qed (use u in \<open>simp add: step_of_def\<close>)
next
  case (Some dx)
  then have "\<not> (\<exists>h r. converted to_hash w h r)" using convert_checks_pass [of to_hash w] by simp
  with Some show ?thesis
    by (cases dx) (auto simp: geth_convert_def failed_producer_def Let_def)
qed

text \<open>A conversion that fails between stopping its clients and starting them again leaves them
  stopped: nothing starts them. The record has no downtime, so the verifier waives nothing for the
  node; and as long as its execution client does not answer, the gate of no other consumer opens,
  the healthy producer's consumers among them.\<close>

theorem failed_conversion_blocks_swaps:
  assumes "geth_convert to_hash p w = (p', posts, el, cl)" "\<not> el \<or> \<not> cl"
    and "1 \<le> pr_node p" "pr_node p \<le> validating" "oc_node c \<noteq> pr_node p"
    and "\<forall>g \<in> set polls. \<exists>answers healthy. gp_down g = unhealthy_others nodes validating cl_urls answers healthy (oc_node c) \<and>
      \<not> answers (pr_node p)"
  shows "pr_status p' = ''failed'' \<and>
    (pr_down_from p = 0 \<longrightarrow> offline_windows (man\<lparr>lm_producers := ps @ p' # qs\<rparr>) = offline_windows (man\<lparr>lm_producers := ps @ qs\<rparr>)) \<and>
    wait_swap_gate fork margin d c prd prev any polls \<noteq> Some (GateProceed g)"
proof (intro conjI impI notI)
  show st: "pr_status p' = ''failed''"
    using assms(1,2) geth_convert_exact [where to_hash = to_hash and p = p and w = w] by auto
  assume z: "pr_down_from p = 0"
  have "pr_down_from p' = 0" using st z assms(1) geth_convert_exact [where to_hash = to_hash and p = p and w = w] by auto
  then show "offline_windows (man\<lparr>lm_producers := ps @ p' # qs\<rparr>) = offline_windows (man\<lparr>lm_producers := ps @ qs\<rparr>)"
    by (cases "lm_offline man") (simp_all add: offline_windows_def)
next
  assume "wait_swap_gate fork margin d c prd prev any polls = Some (GateProceed g)"
  from gate_proceeds [OF this] have g: "g \<in> set polls" "gp_down g = []"
    by (auto simp: decide_swap_cases gate_state_def)
  with assms(6) obtain answers healthy where
    "unhealthy_others nodes validating cl_urls answers healthy (oc_node c) = []" "\<not> answers (pr_node p)" by fastforce
  then have "\<forall>i \<in> set [1..validating]. i = oc_node c \<or> answers i"
    by (simp add: unhealthy_others_def unhealthy_els_def filter_empty_conv)
  with assms(3-5) have "answers (pr_node p)" by force
  with \<open>\<not> answers (pr_node p)\<close> show False by contradiction
qed

section \<open>The lock file\<close>

text \<open>\<open>swap.lock\<close> is there exactly while some operation is under way, whatever the order they begin
  and end in.\<close>

theorem lock_while_busy:
  assumes "lock_step\<^sup>*\<^sup>* (\<lparr>ol_n = 0, ol_file = False\<rparr>, {}) (l, A)"
  shows "finite A \<and> ol_n l = int (card A) \<and> (ol_file l \<longleftrightarrow> A \<noteq> {})"
  using assms
proof (induction "(l, A)" arbitrary: l A rule: rtranclp_induct)
  case (step y)
  obtain l0 A0 where y: "y = (l0, A0)" by (cases y)
  note IH = step.hyps(3) [OF y]
  from step.hyps(2) show ?case unfolding y
  proof (cases rule: lock_step.cases)
    case (begins op)
    with IH show ?thesis by (auto simp: lock_begin_def Let_def)
  next
    case (ends op)
    then have c: "card (A0 - {op}) = card A0 - 1" "0 < card A0" using IH by (auto simp: card_gt_0_iff)
    then have "int (card (A0 - {op})) = int (card A0) - 1" by simp
    moreover have "A0 - {op} = {} \<longleftrightarrow> card (A0 - {op}) = 0" using IH by simp
    ultimately show ?thesis using ends IH c by (auto simp: lock_end_def Let_def)
  qed
qed simp

section \<open>The enclave's nodes\<close>

definition named_right :: "string list \<Rightarrow> (int \<times> snode) list \<Rightarrow> bool" where
  "named_right services nodes \<longleftrightarrow>
     (\<forall>(i, n) \<in> set nodes.
        (sn_el n \<noteq> '''' \<longrightarrow> service_index ''el-'' (sn_el n) = Some i \<and> sn_el n \<in> set services) \<and>
        (sn_cl n \<noteq> '''' \<longrightarrow> service_index ''cl-'' (sn_cl n) = Some i \<and> sn_cl n \<in> set services))"

lemma update_mem: "(j, n) \<in> set (AList.update i m xs) \<Longrightarrow> (j, n) = (i, m) \<or> (j, n) \<in> set xs"
  by (induction xs) (auto split: if_splits)

lemma node_at_named:
  assumes "named_right services nodes"
  shows "(sn_el (node_at nodes i) \<noteq> '''' \<longrightarrow>
      service_index ''el-'' (sn_el (node_at nodes i)) = Some i \<and> sn_el (node_at nodes i) \<in> set services) \<and>
    (sn_cl (node_at nodes i) \<noteq> '''' \<longrightarrow>
      service_index ''cl-'' (sn_cl (node_at nodes i)) = Some i \<and> sn_cl (node_at nodes i) \<in> set services)"
proof (cases "map_of nodes i")
  case (Some n)
  with assms map_of_SomeD [OF Some] show ?thesis by (auto simp: node_at_def named_right_def)
qed (simp add: node_at_def no_node_def)

lemma add_service_named:
  assumes "named_right services nodes" "name \<in> set services"
  shows "named_right services (add_service name nodes)"
proof -
  have put: "named_right services (AList.update i m nodes)"
    if "sn_el m \<noteq> '''' \<longrightarrow> service_index ''el-'' (sn_el m) = Some i \<and> sn_el m \<in> set services"
      "sn_cl m \<noteq> '''' \<longrightarrow> service_index ''cl-'' (sn_cl m) = Some i \<and> sn_cl m \<in> set services" for i m
    unfolding named_right_def
  proof (clarify)
    fix j n assume "(j, n) \<in> set (AList.update i m nodes)"
    from update_mem [OF this] that assms(1)
    show "(sn_el n \<noteq> '''' \<longrightarrow> service_index ''el-'' (sn_el n) = Some j \<and> sn_el n \<in> set services) \<and>
      (sn_cl n \<noteq> '''' \<longrightarrow> service_index ''cl-'' (sn_cl n) = Some j \<and> sn_cl n \<in> set services)"
      by (auto simp: named_right_def)
  qed
  show ?thesis
    unfolding add_service_def
    using assms node_at_named [OF assms(1)]
    by (auto intro!: put split: option.splits)
qed

text \<open>Every participant the driver counts has its execution client, a service of the enclave whose
  name carries the participant's number, and its consensus client, if it has one, is likewise its own.\<close>

theorem resolve_nodes_named:
  assumes "resolve_nodes enc out = Inr (nodes, services)" "1 \<le> i" "i \<le> int (length nodes)"
  shows "service_index ''el-'' (sn_el (node_at nodes i)) = Some i \<and> sn_el (node_at nodes i) \<in> set services \<and>
    (sn_cl (node_at nodes i) \<noteq> '''' \<longrightarrow> service_index ''cl-'' (sn_cl (node_at nodes i)) = Some i)"
proof -
  from assms(1) obtain shown where n: "services = service_names shown" "nodes = fold add_service services []"
    "List.find (\<lambda>i. sn_el (node_at nodes i) = '''') [1..int (length nodes)] = None"
    by (auto simp: resolve_nodes_def Let_def split: sum.splits option.splits)
  have "named_right services (fold add_service xs ns)" if "named_right services ns" "set xs \<subseteq> set services" for xs ns
    using that by (induction xs arbitrary: ns) (auto intro: add_service_named)
  from this [of "[]" services] have "named_right services nodes" unfolding n(2) by (simp add: named_right_def)
  moreover have "sn_el (node_at nodes i) \<noteq> ''''" using n(3) assms(2,3) by (auto simp: find_None_iff)
  ultimately show ?thesis using node_at_named by blast
qed

section \<open>A gate that never opens\<close>

text \<open>Which producer each consumer's record names, and the producers' nodes: what no step changes.\<close>

definition wiring :: "evidence \<Rightarrow> (int \<times> int) list \<times> int list" where
  "wiring ev = (map (\<lambda>s. (sw_node s, sw_producer s)) (ev_swaps ev), map pr_node (ev_producers ev))"

lemma set_swap_wiring:
  assumes "List.find (\<lambda>s. sw_node s = n) ss = Some s0" "sw_node s' = sw_node s0" "sw_producer s' = sw_producer s0"
  shows "map (\<lambda>s. (sw_node s, sw_producer s)) (set_swap ss n s') = map (\<lambda>s. (sw_node s, sw_producer s)) ss"
  using assms by (induction ss) (auto split: if_splits)

lemma found_by_wiring:
  "find_swap ev n \<noteq> None \<longleftrightarrow> n \<in> fst ` set (fst (wiring ev))"
  "find_producer ev m \<noteq> None \<longleftrightarrow> m \<in> set (snd (wiring ev))"
  by (force simp: find_swap_def find_producer_def wiring_def find_None_iff)+

lemma unexported_skipped:
  assumes "\<forall>c \<in> set cs. oc_node (fst c) \<in> fst ` set (fst (wiring ev))" "snd ` set (fst (wiring ev)) \<subseteq> set (snd (wiring ev))"
    and "\<forall>p \<in> set (ev_producers ev). pr_status p \<noteq> ''ok''"
  shows "(\<forall>x \<in> set (qr_outcomes (run_swaps fork margin d ev prev any cs)). snd x = NotStarted) \<and>
    ev_producers (qr_evidence (run_swaps fork margin d ev prev any cs)) = ev_producers ev"
  using assms
proof (induction cs arbitrary: ev prev any)
  case (Cons e cs)
  obtain c polls env where e: "e = (c, polls, env)" by (metis prod.exhaust)
  let ?n = "oc_node c"
  from Cons.prems(1) have "?n \<in> fst ` set (fst (wiring ev))" by (simp add: e)
  then obtain sw where sw: "find_swap ev ?n = Some sw" using found_by_wiring(1) by blast
  then have swm: "sw \<in> set (ev_swaps ev)" "sw_node sw = ?n" unfolding find_swap_def find_Some_iff by auto
  then have "sw_producer sw \<in> set (snd (wiring ev))" using Cons.prems(2) by (force simp: wiring_def)
  then obtain prd where prd: "find_producer ev (sw_producer sw) = Some prd" using found_by_wiring(2) by blast
  then have "prd \<in> set (ev_producers ev)" unfolding find_producer_def find_Some_iff by auto
  with Cons.prems(3) have no: "pr_status prd \<noteq> ''ok''" by simp
  let ?d = "Fmt ''producer node-%d did not export'' [DI (sw_producer sw)]"
  let ?ev = "ev\<lparr>ev_swaps := set_swap (ev_swaps ev) ?n (fst (skip_swap sw ?d))\<rparr>"
  have w: "wiring ?ev = wiring ev"
    using set_swap_wiring [of ?n "ev_swaps ev" sw "fst (skip_swap sw ?d)"] sw
    by (simp add: wiring_def find_swap_def skip_swap_def)
  from Cons.IH [of ?ev prev any] Cons.prems
  have IH: "(\<forall>x \<in> set (qr_outcomes (run_swaps fork margin d ?ev prev any cs)). snd x = NotStarted) \<and>
      ev_producers (qr_evidence (run_swaps fork margin d ?ev prev any cs)) = ev_producers ev"
    unfolding w by simp
  have "qr_outcomes (run_swaps fork margin d ev prev any (e # cs)) =
      (?n, NotStarted) # qr_outcomes (run_swaps fork margin d ?ev prev any cs)"
    "qr_evidence (run_swaps fork margin d ev prev any (e # cs)) = qr_evidence (run_swaps fork margin d ?ev prev any cs)"
    using no sw prd by (simp_all add: e Let_def split_def)
  with IH show ?case by simp
qed simp

lemma fail_each:
  assumes "each_producer (\<lambda>p w q. failed_producer q dt) ps prs = (prs', posts)" "\<forall>p \<in> set prs. pr_status p = ''failed''"
  shows "(\<forall>p \<in> set prs'. pr_status p = ''failed'') \<and> map pr_node prs' = map pr_node prs \<and>
    (\<forall>x \<in> set posts. \<exists>h. snd x = [(fst x, StepExportFailed, 0, '''', h)])"
  using assms
proof (induction ps arbitrary: prs prs' posts)
  case (Cons pw ps)
  obtain p w where pw: "pw = (p, w)" by (cases pw)
  show ?case
  proof (cases "List.find (\<lambda>q. pr_node q = op_node p) prs")
    case None
    with Cons pw show ?thesis by simp
  next
    case (Some q)
    then have q: "q \<in> set prs" "pr_node q = op_node p" by (auto simp: find_Some_iff)
    let ?q = "fst (failed_producer q dt)"
    obtain prs1 rest where r: "each_producer (\<lambda>p w q. failed_producer q dt) ps (set_producer prs (op_node p) ?q) = (prs1, rest)"
      by (metis surj_pair)
    have nodes: "map pr_node (set_producer xs (op_node p) ?q) = map pr_node xs" for xs
      by (induction xs) (auto simp: failed_producer_def q(2))
    have sub: "set (set_producer xs (op_node p) ?q) \<subseteq> insert ?q (set xs)" for xs
      by (induction xs) auto
    have "\<forall>p \<in> set (set_producer prs (op_node p) ?q). pr_status p = ''failed''"
      using sub [of prs] Cons.prems(2) by (auto simp: failed_producer_def)
    from Cons.IH [OF r this] r Cons.prems(1) Some nodes q(2) pw show ?thesis
      by (auto simp: failed_producer_def split: prod.splits)
  qed
qed simp

text \<open>When the fork comes before the export gate opens, no client is touched: no swap is started, every
  producer is recorded as failed, and the monitor hears of a failed export only.\<close>

theorem closed_gate_touches_nothing:
  assumes "new_evidence cfg = Inr ev"
    and "wait_export_gate fork (wrap64 (genesis + of_export_after cfg)) d (lw_export w) = Some False"
    and "swap_run to_hash cfg nodes d genesis fork ev w = Some (posts, q)"
  shows "(\<forall>x \<in> set (qr_outcomes q). snd x = NotStarted) \<and>
    (\<forall>p \<in> set (ev_producers (qr_evidence q)). pr_status p = ''failed'') \<and>
    (\<forall>x \<in> set posts. \<exists>h. snd x = [(fst x, StepExportFailed, 0, '''', h)])"
proof -
  obtain prs' posts' where e: "each_producer (\<lambda>p w q. failed_producer q no_export)
      (zip (of_producers cfg) (lw_producers w)) (ev_producers ev) = (prs', posts')" by (metis surj_pair)
  then have q: "posts = posts'"
    "q = run_swaps fork (of_margin cfg) d (ev\<lparr>ev_producers := prs'\<rparr>) 0 False (zip (of_consumers cfg) (lw_swaps w))"
    using assms(2,3) by (auto simp: swap_run_def run_producers_def)
  note n = new_evidence_pessimistic [OF assms(1)]
  note f = fail_each [OF e]
  let ?ev = "ev\<lparr>ev_producers := prs'\<rparr>"
  have w: "wiring ?ev = wiring ev" using f n by (simp add: wiring_def)
  have "\<forall>c \<in> set (zip (of_consumers cfg) (lw_swaps w)). oc_node (fst c) \<in> fst ` set (fst (wiring ?ev))"
  proof
    fix c assume "c \<in> set (zip (of_consumers cfg) (lw_swaps w))"
    then have "oc_node (fst c) \<in> set (map oc_node (of_consumers cfg))" by (metis image_eqI list.set_map prod.collapse set_zip_leftD)
    then have "oc_node (fst c) \<in> sw_node ` set (ev_swaps ev)" using n by (metis list.set_map)
    then show "oc_node (fst c) \<in> fst ` set (fst (wiring ?ev))" unfolding w by (force simp: wiring_def)
  qed
  moreover have "snd ` set (fst (wiring ?ev)) \<subseteq> set (snd (wiring ?ev))"
  proof
    fix m assume "m \<in> snd ` set (fst (wiring ?ev))"
    then obtain s where "s \<in> set (ev_swaps ev)" "m = sw_producer s" unfolding w by (auto simp: wiring_def)
    then show "m \<in> set (snd (wiring ?ev))" unfolding w using n found_by_wiring(2) by blast
  qed
  moreover have "\<forall>p \<in> set (ev_producers ?ev). pr_status p \<noteq> ''ok''" using f n by auto
  ultimately show ?thesis using unexported_skipped [of _ ?ev] f n unfolding q by auto
qed

section \<open>Runs\<close>

definition no_container :: convert_world where
  "no_container =
     \<lparr>gw_started_at = 90, gw_stop_cl = None, gw_down_from = 100,
      gw_head = Inr (Some \<lparr>h_number = 8, h_hash = ''0xab'', h_parent = '''', h_root = '''', h_time = 96\<rparr>), gw_stop_el = None,
      gw_container = Inl ''no container for service el-6-geth'', gw_create = None, gw_stream = None, gw_start_el = None,
      gw_start_cl = None, gw_down_to = 0, gw_log = '''', gw_convert = None, gw_copy_snapshot = None, gw_copy_preimages = None,
      gw_path = '''', gw_snapshot = Inl '''', gw_exported_at = 0\<rparr>"

definition demo_enclave :: string where
  "demo_enclave =
     ''0123456789ab el-1-geth '' @ [CHR 10] @ ''0123456789ac cl-1-lighthouse '' @ [CHR 10] @
     ''0123456789ad el-2-erigon '' @ [CHR 10] @ ''0123456789ae disruptoor ''"

theorem resolve_nodes_named_witness:
  "\<exists>nodes services. resolve_nodes ''lap'' (Inr demo_enclave) = Inr (nodes, services) \<and> sn_el (node_at nodes 2) = ''el-2-erigon'' \<and>
     service_index ''el-'' (sn_el (node_at nodes 2)) = Some 2"
proof -
  have "resolve_nodes ''lap'' (Inr demo_enclave) =
      Inr ([(1, \<lparr>sn_el = ''el-1-geth'', sn_cl = ''cl-1-lighthouse''\<rparr>), (2, \<lparr>sn_el = ''el-2-erigon'', sn_cl = ''''\<rparr>)],
        [''el-1-geth'', ''cl-1-lighthouse'', ''el-2-erigon'', ''disruptoor''])" by code_simp
  from resolve_nodes_named [OF this, of 2] this show ?thesis by (simp add: node_at_def)
qed

theorem failed_conversion_blocks_swaps_witness:
  "let p = new_producer \<lparr>op_node = 6, op_kind = ''geth-convert'', op_consumers = [3]\<rparr>;
       g = \<lparr>gp_now = 1000, gp_finalized = None, gp_at_anchor = None, gp_down = [''el-6-geth''], gp_partitions = 0,
            gp_ref_head = None, gp_prev_head = None\<rparr>
   in pr_status (fst (geth_convert (\<lambda>_. \<lparr>ht_hex = '''', ht_terminal = ''''\<rparr>) p no_container)) = ''failed'' \<and>
      wait_swap_gate 4000 200 empty_dump \<lparr>oc_node = 3, oc_expected = 600, oc_timeout = 900\<rparr> p 0 False [g] \<noteq> Some (GateProceed g)"
proof -
  let ?p = "new_producer \<lparr>op_node = 6, op_kind = ''geth-convert'', op_consumers = [3]\<rparr>"
  let ?c = "\<lparr>oc_node = 3, oc_expected = 600, oc_timeout = 900\<rparr>"
  let ?g = "\<lparr>gp_now = 1000, gp_finalized = None, gp_at_anchor = None, gp_down = [''el-6-geth''], gp_partitions = 0,
            gp_ref_head = None, gp_prev_head = None\<rparr>"
  let ?h = "\<lambda>_. \<lparr>ht_hex = '''', ht_terminal = ''''\<rparr>"
  let ?nodes = "[(6, \<lparr>sn_el = ''el-6-geth'', sn_cl = ''''\<rparr>)]"
  obtain p' posts where r: "geth_convert ?h ?p no_container = (p', posts, False, False)"
    by (simp add: geth_convert_def convert_checks_def no_container_def head_error_def left_error_def failed_producer_def Let_def)
  have "gp_down ?g = unhealthy_others ?nodes 6 [] (\<lambda>i. i \<noteq> 6) (\<lambda>_. True) (oc_node ?c)"
    by (simp add: unhealthy_others_def unhealthy_els_def upto.simps node_at_def)
  then have d: "\<forall>g \<in> set [?g]. \<exists>answers healthy. gp_down g = unhealthy_others ?nodes 6 [] answers healthy (oc_node ?c) \<and>
      \<not> answers (pr_node ?p)"
    by (auto simp: new_producer_def intro: exI [of _ "\<lambda>i. i \<noteq> 6"])
  have a: "\<not> False \<or> \<not> False" "1 \<le> pr_node ?p" "pr_node ?p \<le> 6" "oc_node ?c \<noteq> pr_node ?p"
    by (simp_all add: new_producer_def)
  from failed_conversion_blocks_swaps [OF r a d] r show ?thesis by (simp add: Let_def)
qed

end
