(* ===== verification/Spec2Isabelle.thy ===== *)
theory Spec2Isabelle
  imports Devnet Dump Registry Timeline Sampler SwapGate MigGate ChaosDriver MonPoll MonFeeds MonLifecycle Lineage MonCompare VerifyRun Shadow PbtFollow PbtVerdict HammerMix SwapRun
begin

text \<open>
  A verification development for \<open>pbt-devnet\<close>: the Go programs that drive, watch and judge two
  test networks of execution clients, one migrating its state to a binary trie while it runs, one
  with the binary trie from genesis. This root theory holds the map of the development; the models
  and their theorems are in the theories named below.

  \<^bold>\<open>The program.\<close> The migrating network is cut on purpose around its fork.
  \<open>internal/migsched\<close> resolves a profile of partitions against the genesis and fork times and the
  stake layout; \<open>cmd/migration-chaos\<close> executes the resolved schedule through the network emulator
  (\<open>internal/disruptoor\<close>) and writes transactions that end up on either side; \<open>cmd/migration-swap\<close>
  takes nodes offline and back between the partitions; \<open>cmd/migration-gate\<close> waits until every
  client reports the migration done, partitions once more, and hands the emulator over;
  \<open>cmd/migration-monitor\<close> polls all clients with the state machines of \<open>internal/migmon\<close>, writes
  an event stream and serves a page; \<open>cmd/verify-migration\<close> reads both streams, the chain and the
  lap's manifest back and decides the run. On the second network \<open>cmd/pbtchaos\<close> cuts off block
  proposers and runs scenarios whose state must vanish with an abandoned branch,
  \<open>cmd/pbthammer\<close> generates traffic with the bytecode of \<open>internal/txkit\<close>, and \<open>cmd/pbtmonitor\<close>
  compares heads and proofs of all clients. The outcomes of \<open>pbtchaos\<close> enter the manifest the
  verifier checks.

  \<^bold>\<open>Conventions.\<close> A struct is a \<open>record\<close> with one field per Go field that carries information, an
  enumeration a \<open>datatype\<close>, \<open>uint64\<close> a \<open>64 word\<close>, \<open>int64\<close> and \<open>time.Duration\<close> an \<open>int\<close> with \<open>wrap64\<close>
  where it can overflow, \<open>time.Time\<close> an \<open>int\<close> of nanoseconds with the zero time apart, \<open>float64\<close> the
  type \<open>f64\<close> of \<open>Float64\<close>. An error is the left of a sum or a constructor of a result type; \<open>None\<close> of
  an outer option is a wait that is not over, or a panic where a definition says so. A text with
  verbs is \<open>Fmt\<close> of its format and arguments, rendered by \<open>VerifyLog.render\<close> where another program
  reads it back. A map is a partial function, or an association list where the code ranges over
  it; what then depends on Go's iteration order takes the order as an argument, and theorems hold
  for every order. What the outside answers (clients, emulator, files, clock, random numbers) is
  an argument: a polling loop is recursive over the list of what its polls find, so that the list
  is the world and its end a wait not yet over. Definitions compute; witnesses evaluate them.

  \<^bold>\<open>Shared theories.\<close>
  \<^item> \<open>Prelude\<close>: Go's integers, division, time, decimal texts, symbolic texts and the collection
    \<open>go_defs\<close>. \<open>Float64\<close>: round-to-even binary64 over the rationals with its error
    bounds. \<open>Regexp\<close>: the leftmost-first matcher for the patterns the verifier uses. \<open>Fifo\<close> and
    \<open>Watch\<close>: two interfaces, below. \<open>Events\<close>, \<open>Registry\<close>: the vocabulary, clients and re-peering of
    \<open>internal/migmon\<close> (\<open>events.go\<close>, \<open>findings.go\<close>, \<open>progress.go\<close>, \<open>client.go\<close>, \<open>registry.go\<close>, \<open>repeer.go\<close>).
    \<open>Disruptoor\<close>: the emulator's requests and answers (\<open>disruptoor.go\<close>).
  \<^item> Interfaces. \<open>Watch.grace_watch\<close> is a condition polled and reported once per episode after a
    grace period; it is interpreted for the quorum of \<open>Timeline\<close> (\<open>qw\<close>), the split watch of
    \<open>MonPoll\<close> (\<open>spw\<close>) and the starvation watch of \<open>MigGate\<close> (\<open>sw\<close>). \<open>Fifo.bounded_fifo\<close> is a memory
    that drops its oldest key; it is interpreted for the reorg memory of \<open>Sampler\<close> (\<open>rmem\<close>) and the
    resample queue of \<open>MonPoll\<close> (\<open>rq\<close>). \<open>Dump.gap_source\<close> is what the swap gates rely on, the free
    gaps of a schedule; it is interpreted for \<open>dump.go\<close> (\<open>dump_gaps\<close>).

  \<^bold>\<open>The migrating network.\<close>
  \<^item> \<open>Schedule\<close>, \<open>Devnet\<close>, \<open>Dump\<close> (\<open>schedule.go\<close>, \<open>dump.go\<close>): \<open>resolve\<close> with its admission checks,
    failsafe sweeps, actions and windows; the published form with heal deadlines and gaps. Lemmas:
    resolution refines the profile, every admitted partition is swept, the admitted stake in exact
    arithmetic, the gaps are the instants no partition covers, and that a share of NaN passes.
  \<^item> \<open>ChaosDriver\<close> (\<open>cmd/migration-chaos\<close>): the plan, the serial execution with holds, heals and
    sweeps, the injected writes. Lemma: when a run ends nothing stays applied.
  \<^item> \<open>SwapGate\<close> (\<open>cmd/migration-swap\<close>, \<open>offline.go\<close>): records, gates, queue and the body of one swap.
    Lemmas: a swap starts only in a gap long enough, consumers go one at a time.
    \<open>SwapRun\<close> (\<open>producers.go\<close>, \<open>kurtosis.go\<close>, \<open>main.go\<close>): the enclave read from what kurtosis prints,
    the two producers, the lock and the run. Lemmas: when a conversion is recorded as good, that one
    failing half-way blocks the other consumers, that a gate which stays closed touches no client.
  \<^item> \<open>MigGate\<close> (\<open>cmd/migration-gate\<close>): the waits, the last partition, the watchdog, the peer watch.
  \<^item> \<open>Timeline\<close>, \<open>Sampler\<close> (\<open>timeline.go\<close>, \<open>sampler.go\<close>): one node's state machine over polls, the
    cross-node quorum on the fork block, the comparison of sampled roots. The step relation of the
    timeline and its invariants are proved by rule induction.
  \<^item> \<open>MonPoll\<close>, \<open>MonFeeds\<close>, \<open>MonLifecycle\<close>, \<open>Lineage\<close>, \<open>MonCompare\<close>, \<open>Shadow\<close>
    (\<open>cmd/migration-monitor\<close>): one node's poll with the search for the fork block, the partition
    tracker, the offline lap's life cycle, the block store with segments and reorgs, the client
    table, the table of shadow roots.
  \<^item> \<open>VerifyLog\<close>, \<open>VerifyChain\<close>, \<open>VerifyEvidence\<close>, \<open>Snapshot\<close>, \<open>VerifyOffline\<close>, \<open>VerifyRun\<close>
    (\<open>cmd/verify-migration\<close>, \<open>internal/pbtsnap\<close>): the streams read back, windows and waivers, the 21
    checks, the run and its exit code. \<open>VerifyVerdicts\<close> and \<open>VerifyLap\<close> say in which runs the checks
    pass, and join them to the monitor's model: what the monitor writes the verifier reads.

  \<^bold>\<open>The network with the binary trie.\<close>
  \<^item> \<open>PbtMonitor\<close>, \<open>PbtFollow\<close> (\<open>cmd/pbtmonitor\<close>): the exchange with a node, the head comparison, the
    two oracles, the attribution of a finding to a disruption, the follow loop. Lemmas: how long a
    divergence can be put down to a disruption, what a comparison reports.
  \<^item> \<open>TxKit\<close> (\<open>internal/txkit\<close>): every bytecode builder, and a machine with the documented meaning of
    the opcodes they use, without gas. Lemmas: a deployment returns its runtime and seeds its
    slots, the writer and the reader are inverse, the unchecked length of the factory's child.
  \<^item> \<open>PbtQueue\<close> (\<open>cmd/pbtchaos/main.go\<close>): the start, the choice of nodes and keys, and the job queue
    as a step relation over the interleaving of submissions, a quiesce and the worker.
  \<^item> \<open>PbtReorg\<close> (\<open>chain.go\<close>, \<open>isolate.go\<close>): heads, duties, the next proposer, the isolation window,
    the watch for changed hashes, one periodic fork.
  \<^item> \<open>PbtSender\<close>, \<open>PbtScenario\<close> (\<open>sender.go\<close>, \<open>scenario.go\<close>, \<open>scenario_run.go\<close>): the fee and the nonce
    of a transaction, the six scenarios, and a run of one from the split to its verdict.
    \<open>PbtVerdict\<close> joins them to \<open>TxKit\<close> (the storage scenarios on the machine) and to the verifier
    (what a passing manifest check says of the scenarios).
  \<^item> \<open>Hammer\<close>, \<open>HammerMix\<close> (\<open>cmd/pbthammer\<close>): the workloads, prices over all clients, rounds, the
    audit of receipts and the start; and what the traffic does on the machine.

  \<^bold>\<open>Loops and bounds.\<close> Loops over data are structural. The search for the fork block halves a
  64-bit interval and has 64 rounds; the walk down an orphaned branch has the code's 128 steps, the
  orphaned depth its 256. The loop of the traffic check is \<open>partial_function\<close>, and that it returns
  is proved for runs away from the largest height. The matcher of \<open>Regexp\<close> recurses on the pattern
  with the text's length as the bound of a repetition, which each round of it shortens. A run of
  the shadow table is total below \<open>2 ^ 63\<close> operations, the range of the code's shift counts. The
  machine of \<open>TxKit\<close> runs straight-line code and stops at its end.

  \<^bold>\<open>Assumptions.\<close> JSON, HTTP and JSON-RPC are taken at their decoded results, a hash and an address
  at their texts, signatures at their success, a file at its bytes; the tests of \<open>src\<close> are not
  modelled. Texts are ASCII. Durations and counters that a run cannot bring near the end of Go's
  \<open>int\<close> are unbounded.

  \<^bold>\<open>Not modelled.\<close> Flag parsing, tickers, goroutines and signal handling of the \<open>main\<close> functions;
  what the docker and kurtosis commands of \<open>migration-swap\<close> do (their answers are arguments) and its
  HTTP posts (\<open>monitor.go\<close>); the genesis writer \<open>gengenesis\<close>, which only calls libraries;
  the assembly of the page's JSON document (\<open>river.go\<close>) from the parts that are modelled; the HTTP
  handlers that only encode a state; logging that no other program reads; \<open>internal/cli\<close>.
\<close>

end
